(* ===== verification/Prelude.thy ===== *)
theory Prelude
  imports Main "HOL-Library.Word" "HOL-Library.Log_Nat"
begin

text \<open>
  Shared vocabulary of the development: the byte and buffer types, JavaScript's
  number and string primitives as far as the modelled code uses them, the theorem
  collections that carry the component proofs, and the generic interface of a
  component that is driven by a sequence of operations.

  Conventions used by every theory:
  \<^item> a JavaScript number that is used as a count, an index or a time in milliseconds is
    a \<open>nat\<close> or an \<open>int\<close>; a computation that can be fractional uses \<open>real\<close>;
  \<^item> a JavaScript string is a \<open>string\<close>, one \<open>char\<close> per UTF-16 code unit (code units
    up to 255, so that every string literal of the source is representable);
  \<^item> \<open>Date.now()\<close> is an argument \<open>now\<close> of the operation that reads it;
  \<^item> a thrown error is the \<open>Inl\<close> side of a sum type.
\<close>

unbundle bit_operations_syntax

section \<open>Theorem collections\<close>

named_theorems js_simps \<open>equations of the JavaScript primitives\<close>
named_theorems codec_simps \<open>equations and length facts of the binary codec\<close>
named_theorems inv_intros \<open>one-step preservation lemmas of the components\<close>

section \<open>Bytes and buffers\<close>

text \<open>Offsets are written as sums of numerals; keep \<open>n + 2\<close> from becoming \<open>Suc (Suc n)\<close>.\<close>

declare add_2_eq_Suc [simp del] add_2_eq_Suc' [simp del]

type_synonym byte = "8 word"
type_synonym u32 = "32 word"
type_synonym buffer = "byte list"

lemma xor_right_cancel: "(a :: 'a::len word) XOR c = b XOR c \<Longrightarrow> a = b"
proof -
  assume "a XOR c = b XOR c"
  then have "(a XOR c) XOR c = (b XOR c) XOR c" by simp
  then show ?thesis by (simp add: xor.assoc)
qed

lemma xor_left_cancel: "c XOR (a :: 'a::len word) = c XOR b \<Longrightarrow> a = b"
  by (rule xor_right_cancel [of _ c]) (simp add: xor.commute)

text \<open>\<open>buf.subarray(a, b)\<close> for \<open>a \<le> b\<close>; like the method it clips at the end.\<close>

definition subarray :: "'a list \<Rightarrow> nat \<Rightarrow> nat \<Rightarrow> 'a list" where
  "subarray xs a b = take (b - a) (drop a xs)"

lemma length_subarray [simp]: "length (subarray xs a b) = min (b - a) (length xs - a)"
  by (simp add: subarray_def)

lemma subarray_append_right [js_simps]:
  "b \<le> length xs \<Longrightarrow> subarray (xs @ ys) a b = subarray xs a b"
  by (cases "a \<le> b") (auto simp: subarray_def)

lemma subarray_shift [js_simps]:
  "subarray (xs @ ys) (length xs + a) (length xs + b) = subarray ys a b"
  by (simp add: subarray_def)

lemma subarray_whole [simp]: "subarray xs 0 (length xs) = xs"
  by (simp add: subarray_def)

lemma subarray_exact: "subarray (xs @ ys @ zs) (length xs) (length xs + length ys) = ys"
  by (simp add: subarray_def)

lemma subarray_exactI:
  "a = length xs \<Longrightarrow> b = length xs + length ys \<Longrightarrow> subarray (xs @ ys @ zs) a b = ys"
  by (simp add: subarray_exact)

lemma subarray_split:
  "a \<le> m \<Longrightarrow> m \<le> b \<Longrightarrow> subarray xs a b = subarray xs a m @ subarray xs m b"
proof -
  assume le: "a \<le> m" "m \<le> b"
  have "take (b - a) (drop a xs) = take ((m - a) + (b - m)) (drop a xs)"
    using le by simp
  also have "\<dots> = take (m - a) (drop a xs) @ take (b - m) (drop (m - a) (drop a xs))"
    by (rule take_add)
  finally show ?thesis
    using le by (simp add: subarray_def)
qed

section \<open>Numbers\<close>

text \<open>
  \<open>Number(n)\<close> of a 64-bit \<open>BigInt\<close>: exact up to \<open>2^53\<close>, otherwise rounded to the
  nearest double, ties to the even significand.
\<close>

definition js_Number :: "int \<Rightarrow> int" where
  "js_Number n =
     (let m = nat \<bar>n\<bar> in
      if m \<le> 2 ^ 53 then n
      else let s = floorlog 2 m - 53;
               q = m div 2 ^ s;
               r = m mod 2 ^ s;
               q' = (if 2 * r > 2 ^ s \<or> (2 * r = 2 ^ s \<and> odd q) then q + 1 else q)
           in sgn n * int (q' * 2 ^ s))"

lemma js_Number_exact [js_simps]: "\<bar>n\<bar> \<le> 2 ^ 53 \<Longrightarrow> js_Number n = n"
  by (simp add: js_Number_def nat_le_iff)

section \<open>Strings\<close>

text \<open>\<open>s.startsWith(p)\<close>, \<open>s.startsWith(p, off)\<close> and \<open>s.endsWith(p)\<close>.\<close>

definition startsWith :: "'a list \<Rightarrow> 'a list \<Rightarrow> bool" where
  "startsWith s p \<longleftrightarrow> take (length p) s = p"

definition startsWithAt :: "'a list \<Rightarrow> 'a list \<Rightarrow> nat \<Rightarrow> bool" where
  "startsWithAt s p off \<longleftrightarrow> startsWith (drop off s) p"

definition endsWith :: "'a list \<Rightarrow> 'a list \<Rightarrow> bool" where
  "endsWith s p \<longleftrightarrow> length p \<le> length s \<and> drop (length s - length p) s = p"

lemma startsWith_iff_append: "startsWith s p \<longleftrightarrow> (\<exists>r. s = p @ r)"
  unfolding startsWith_def by (metis append_eq_conv_conj)

lemma startsWith_append [simp]: "startsWith (p @ r) p"
  by (simp add: startsWith_def)

lemma endsWith_singleton: "endsWith s [c] \<longleftrightarrow> s \<noteq> [] \<and> last s = c"
  by (cases s rule: rev_cases) (auto simp: endsWith_def)

text \<open>The decimal rendering \<open>String(n)\<close> of a natural number.\<close>

fun digit_char :: "nat \<Rightarrow> char" where
  "digit_char n = char_of (48 + n mod 10)"

fun string_of_nat :: "nat \<Rightarrow> string" where
  "string_of_nat n = (if n < 10 then [digit_char n] else string_of_nat (n div 10) @ [digit_char n])"

declare string_of_nat.simps [simp del]

definition string_of_int :: "int \<Rightarrow> string" where
  "string_of_int n = (if n < 0 then CHR ''-'' # string_of_nat (nat (- n)) else string_of_nat (nat n))"

text \<open>\<open>s.trim()\<close>: JavaScript's white space and line terminators among the code units up to 255.\<close>

definition is_space :: "char \<Rightarrow> bool" where
  "is_space c \<longleftrightarrow> (let n = of_char c :: nat in (9 \<le> n \<and> n \<le> 13) \<or> n = 32 \<or> n = 160)"

definition trim :: "string \<Rightarrow> string" where
  "trim s = rev (dropWhile is_space (rev (dropWhile is_space s)))"

text \<open>Runs of decimal digits and their value.\<close>

definition is_digit :: "char \<Rightarrow> bool" where
  "is_digit c \<longleftrightarrow> 48 \<le> (of_char c :: nat) \<and> (of_char c :: nat) \<le> 57"

definition digits_value :: "string \<Rightarrow> nat" where
  "digits_value s = foldl (\<lambda>n c. 10 * n + (of_char c - 48)) 0 s"

lemma is_digit_digit_char [simp]: "is_digit (digit_char n)"
  by (simp add: is_digit_def)

lemma of_char_digit_char: "of_char (digit_char n) = (48 + n mod 10 :: nat)"
  by simp

lemma digits_value_single: "digits_value [c] = of_char c - 48"
  by (simp add: digits_value_def)

lemma not_space_digit: "is_digit c \<Longrightarrow> \<not> is_space c"
  by (auto simp: is_digit_def is_space_def Let_def)

lemma digits_value_snoc: "digits_value (s @ [c]) = 10 * digits_value s + (of_char c - 48)"
  by (simp add: digits_value_def)

lemma string_of_nat_props:
  "digits_value (string_of_nat n) = n \<and> list_all is_digit (string_of_nat n) \<and> string_of_nat n \<noteq> []"
proof (induction n rule: string_of_nat.induct)
  case (1 n)
  then show ?case
    by (subst (1 2 3) string_of_nat.simps)
      (auto simp: digits_value_snoc of_char_digit_char digits_value_single simp del: digit_char.simps)
qed

lemma trim_digits: "list_all is_digit s \<Longrightarrow> trim s = s"
proof -
  assume d: "list_all is_digit s"
  have "dropWhile is_space xs = xs" if "list_all is_digit xs" for xs
    using that by (cases xs) (simp_all add: not_space_digit)
  from this [OF d] this [of "rev s"] have "dropWhile is_space s = s" "dropWhile is_space (rev s) = rev s"
    using d by (simp_all add: list_all_iff)
  then show ?thesis by (simp add: trim_def)
qed

lemma digits_of_int: "0 \<le> n \<Longrightarrow> list_all is_digit (string_of_int n) \<and> digits_value (string_of_int n) = nat n"
  using string_of_nat_props [of "nat n"] by (simp add: string_of_int_def)

text \<open>A text is cut in one way only at the first character outside a class.\<close>

lemma cut_unique:
  "list_all P a \<Longrightarrow> list_all P b \<Longrightarrow> \<not> P c \<Longrightarrow> \<not> P d \<Longrightarrow> a @ c # x = b @ d # y \<longleftrightarrow> a = b \<and> c = d \<and> x = y"
proof (induction a arbitrary: b)
  case Nil
  then show ?case by (cases b) auto
next
  case (Cons h a)
  then show ?case by (cases b) auto
qed

text \<open>\<open>s.replaceAll(c, r)\<close> for a single character and \<open>parts.join(sep)\<close>.\<close>

definition replaceAll :: "char \<Rightarrow> string \<Rightarrow> string \<Rightarrow> string" where
  "replaceAll c r s = concat (map (\<lambda>x. if x = c then r else [x]) s)"

section \<open>Machines driven by operations\<close>

text \<open>
  The contract shared by every stateful component: a step function and a
  well-formedness predicate that one step keeps. Clients get the statement for every
  run and every reachable state.
\<close>

fun run_ops :: "('s \<Rightarrow> 'e \<Rightarrow> 's) \<Rightarrow> 's \<Rightarrow> 'e list \<Rightarrow> 's" where
  "run_ops step s [] = s"
| "run_ops step s (e # es) = run_ops step (step s e) es"

lemma run_ops_append: "run_ops step s (xs @ ys) = run_ops step (run_ops step s xs) ys"
  by (induction xs arbitrary: s) auto

lemma run_ops_foldl: "run_ops step s es = foldl step s es"
  by (induction es arbitrary: s) auto

locale op_machine =
  fixes step :: "'s \<Rightarrow> 'e \<Rightarrow> 's"
    and ok :: "'s \<Rightarrow> bool"
  assumes step_ok: "ok s \<Longrightarrow> ok (step s e)"
begin

lemma run_ok: "ok s \<Longrightarrow> ok (run_ops step s es)"
  by (induction es arbitrary: s) (simp_all add: step_ok)

lemma prefix_ok: "ok s \<Longrightarrow> ok (run_ops step s (take n es))"
  by (rule run_ok)

end

text \<open>The same for a component whose operations carry data from outside: only admissible operations
  keep the invariant. A machine without conditions is the special case where all are.\<close>

locale guarded_machine =
  fixes step :: "'s \<Rightarrow> 'e \<Rightarrow> 's"
    and ok :: "'s \<Rightarrow> bool"
    and adm :: "'e \<Rightarrow> bool"
  assumes guarded_step_ok: "ok s \<Longrightarrow> adm e \<Longrightarrow> ok (step s e)"
begin

lemma guarded_run_ok: "ok s \<Longrightarrow> list_all adm es \<Longrightarrow> ok (run_ops step s es)"
  by (induction es arbitrary: s) (simp_all add: guarded_step_ok)

end

sublocale op_machine \<subseteq> guarded: guarded_machine step ok "\<lambda>_. True"
  by unfold_locales (rule step_ok)

end
