(* ===== verification/Crc32.thy ===== *)
theory Crc32
  imports Prelude
begin

text \<open>
  The table-driven CRC-32 of \<open>packages/minidb/src/crc32.ts\<close>, which protects every
  record frame of the write-ahead log and the snapshot. JavaScript's bitwise operators
  on numbers are the operations of a 32-bit word (the result is reinterpreted as
  unsigned by \<open>>>> 0\<close>).
\<close>

section \<open>The code\<close>

definition POLY :: u32 where
  "POLY = 0xedb88320"

text \<open>The body of the inner loop of \<open>buildTable\<close>.\<close>

definition crc_shift :: "u32 \<Rightarrow> u32" where
  "crc_shift c = (if c AND 1 \<noteq> 0 then POLY XOR drop_bit 1 c else drop_bit 1 c)"

definition crc_entry :: "nat \<Rightarrow> u32" where
  "crc_entry n = (crc_shift ^^ 8) (of_nat n)"

definition buildTable :: "u32 list" where
  "buildTable = map crc_entry [0..<256]"

text \<open>One iteration of the loop of \<open>crc32\<close>.\<close>

definition crc_step :: "u32 \<Rightarrow> byte \<Rightarrow> u32" where
  "crc_step c b = buildTable ! unat ((c XOR ucast b) AND 0xff) XOR drop_bit 8 c"

definition crc32 :: "buffer \<Rightarrow> u32 \<Rightarrow> u32" where
  "crc32 buf prev = foldl crc_step (prev XOR 0xffffffff) buf XOR 0xffffffff"

section \<open>The shift register is linear and injective\<close>

lemma crc_shift_alt: "crc_shift c = (if bit c 0 then POLY XOR drop_bit 1 c else drop_bit 1 c)"
  by (simp add: crc_shift_def bit_0 and_one_eq odd_iff_mod_2_eq_one)

lemma crc_shift_xor: "crc_shift (x XOR y) = crc_shift x XOR crc_shift y"
  by (auto simp: crc_shift_alt bit_xor_iff drop_bit_xor xor.assoc xor.left_commute xor.commute)

lemma crc_shifts_xor: "(crc_shift ^^ n) (x XOR y) = (crc_shift ^^ n) x XOR (crc_shift ^^ n) y"
  by (induction n) (simp_all add: crc_shift_xor)

text \<open>While the low bits are zero, the register only shifts.\<close>

lemma crc_shifts_low_zero:
  "(\<And>i. i < n \<Longrightarrow> \<not> bit x i) \<Longrightarrow> (crc_shift ^^ n) x = drop_bit n x"
proof (induction n arbitrary: x)
  case 0
  then show ?case by simp
next
  case (Suc n)
  have "crc_shift x = drop_bit 1 x"
    using Suc.prems [of 0] by (simp add: crc_shift_alt)
  moreover have "\<not> bit (drop_bit 1 x) i" if "i < n" for i
    using Suc.prems [of "Suc i"] that by (simp add: bit_drop_bit_eq)
  ultimately show ?case
    using Suc.IH [of "drop_bit 1 x"] by (simp add: funpow_Suc_right del: funpow.simps)
qed

lemma crc_shift_top: "bit (crc_shift c) 31 \<longleftrightarrow> bit c 0"
  using bit_imp_le_length [of c 32]
  by (auto simp: crc_shift_alt POLY_def bit_xor_iff bit_drop_bit_eq)

lemma crc_shift_inj: "crc_shift x = crc_shift y \<Longrightarrow> x = y"
proof -
  assume eq: "crc_shift x = crc_shift y"
  have b0: "bit x 0 = bit y 0"
    using eq crc_shift_top by metis
  have "drop_bit 1 x = drop_bit 1 y"
    using eq b0 by (auto simp: crc_shift_alt split: if_splits dest: arg_cong [where f = "\<lambda>z. POLY XOR z"] simp flip: xor.assoc)
  then have "bit x (Suc n) = bit y (Suc n)" for n
    by (metis bit_drop_bit_eq comp_apply plus_1_eq_Suc)
  with b0 show ?thesis
    by (intro bit_eqI) (metis not0_implies_Suc)
qed

lemma crc_shifts_inj: "(crc_shift ^^ n) x = (crc_shift ^^ n) y \<Longrightarrow> x = y"
  by (induction n) (auto dest: crc_shift_inj)

section \<open>The table agrees with the shift register\<close>

lemma buildTable_nth: "n < 256 \<Longrightarrow> buildTable ! n = (crc_shift ^^ 8) (of_nat n)"
  by (simp add: buildTable_def crc_entry_def)

lemma byte_mask: "(0xff :: u32) = mask 8"
  by (simp add: mask_eq_exp_minus_1)

lemma unat_and_255: "unat (x AND 0xff :: u32) < 256"
proof -
  have "x AND 0xff \<le> (0xff :: u32)" by (rule word_and_le1)
  then have "unat (x AND 0xff) \<le> unat (0xff :: u32)" by (simp only: word_le_nat_alt)
  then show ?thesis by simp
qed

lemma split_by_mask: "x = (x AND m) XOR (x AND NOT m)" for x :: u32
  by (rule bit_eqI) (auto simp: bit_xor_iff bit_and_iff bit_not_iff)

lemma crc_step_eq_shifts: "crc_step c b = (crc_shift ^^ 8) (c XOR ucast b)"
proof -
  let ?x = "c XOR ucast b :: u32" and ?m = "mask 8 :: u32"
  have high: "(crc_shift ^^ 8) (?x AND NOT ?m) = drop_bit 8 (?x AND NOT ?m)"
    by (rule crc_shifts_low_zero) (simp add: bit_and_iff bit_not_iff bit_mask_iff)
  have drop: "drop_bit 8 (?x AND NOT ?m) = drop_bit 8 c"
    by (rule bit_eqI)
      (auto simp: bit_drop_bit_eq bit_and_iff bit_not_iff bit_xor_iff bit_mask_iff bit_ucast_iff
        dest: bit_imp_le_length)
  have "crc_step c b = (crc_shift ^^ 8) (?x AND ?m) XOR drop_bit 8 c"
    using buildTable_nth [OF unat_and_255 [of ?x]] unfolding crc_step_def by (simp only: byte_mask of_nat_unat ucast_id)
  also have "\<dots> = (crc_shift ^^ 8) ((?x AND ?m) XOR (?x AND NOT ?m))"
    by (simp only: crc_shifts_xor high drop)
  also have "\<dots> = (crc_shift ^^ 8) ?x"
    by (simp only: split_by_mask [of ?x ?m, symmetric])
  finally show ?thesis .
qed

lemma crc_step_inj: "crc_step c b = crc_step d b \<Longrightarrow> c = d"
  unfolding crc_step_eq_shifts by (drule crc_shifts_inj) (rule xor_right_cancel)

lemma crc_steps_inj: "foldl crc_step c bs = foldl crc_step d bs \<Longrightarrow> c = d"
  by (induction bs arbitrary: c d) (auto dest: crc_step_inj)

section \<open>Up to four bytes enter the register as one little-endian word\<close>

fun le_word :: "buffer \<Rightarrow> u32" where
  "le_word [] = 0"
| "le_word (b # bs) = ucast b XOR push_bit 8 (le_word bs)"

lemma bit_le_word:
  "bit (le_word bs) i \<longleftrightarrow> i < 32 \<and> i < 8 * length bs \<and> bit (bs ! (i div 8)) (i mod 8)"
proof (induction bs arbitrary: i)
  case Nil
  then show ?case by simp
next
  case (Cons b bs)
  show ?case
  proof (cases "i < 8")
    case True
    then show ?thesis
      by (auto simp: bit_xor_iff bit_ucast_iff bit_push_bit_iff)
  next
    case False
    then have "i div 8 = Suc ((i - 8) div 8)" "i mod 8 = (i - 8) mod 8"
      by (auto simp: le_div_geq le_mod_geq)
    then show ?thesis
      using False Cons.IH [of "i - 8"] bit_imp_le_length [of b i]
      by (auto simp: bit_xor_iff bit_ucast_iff bit_push_bit_iff)
  qed
qed

lemma le_word_inj:
  assumes "length bs = length bs'" "length bs \<le> 4" "le_word bs = le_word bs'"
  shows "bs = bs'"
proof (rule nth_equalityI)
  fix k assume k: "k < length bs"
  show "bs ! k = bs' ! k"
  proof (rule bit_eqI)
    fix j assume "possible_bit TYPE(8 word) j"
    then have j: "j < 8" by (simp add: possible_bit_word)
    have "bit (le_word bs) (8 * k + j) = bit (le_word bs') (8 * k + j)"
      using assms(3) by simp
    then show "bit (bs ! k) j = bit (bs' ! k) j"
      using j k assms(1,2) by (simp add: bit_le_word)
  qed
qed (rule assms(1))

lemma crc_steps_le_word:
  "length bs \<le> 4 \<Longrightarrow> foldl crc_step c bs = (crc_shift ^^ (8 * length bs)) (c XOR le_word bs)"
proof (induction bs arbitrary: c)
  case Nil
  then show ?case by simp
next
  case (Cons b bs)
  let ?w = "le_word bs"
  have "(crc_shift ^^ 8) (push_bit 8 ?w) = drop_bit 8 (push_bit 8 ?w)"
    by (rule crc_shifts_low_zero) (simp add: bit_push_bit_iff)
  also have "\<dots> = ?w"
    using Cons.prems by (intro bit_eqI) (auto simp: bit_drop_bit_eq bit_push_bit_iff bit_le_word)
  finally have w: "?w = (crc_shift ^^ 8) (push_bit 8 ?w)" ..
  have "foldl crc_step c (b # bs) = (crc_shift ^^ (8 * length bs)) (crc_step c b XOR ?w)"
    using Cons by simp
  also have "crc_step c b XOR ?w = (crc_shift ^^ 8) ((c XOR ucast b) XOR push_bit 8 ?w)"
    by (subst w) (simp add: crc_step_eq_shifts crc_shifts_xor)
  finally show ?case
    by (simp only: list.size mult_Suc_right add.commute [of 8] funpow_add comp_apply le_word.simps
        xor.assoc One_nat_def add_0_right mult_Suc plus_nat.add_0 add_Suc_right)
qed

section \<open>The streaming contract\<close>

text \<open>
  What the frame scanner relies on: a checksum that is continued chunk by chunk, with
  the checksum of the empty chunk doing nothing. \<open>chunked\<close> is the client's loop: feed
  the chunks one after the other.
\<close>

locale streaming_checksum =
  fixes crc :: "'b list \<Rightarrow> 'c \<Rightarrow> 'c"
  assumes crc_nil: "crc [] c = c"
    and crc_append: "crc (xs @ ys) c = crc ys (crc xs c)"
begin

lemma crc_concat: "foldl (\<lambda>c xs. crc xs c) c xss = crc (concat xss) c"
  by (induction xss arbitrary: c) (simp_all add: crc_nil crc_append)

end

interpretation crc32: streaming_checksum crc32
  by unfold_locales (simp_all add: crc32_def xor.assoc)

section \<open>Properties\<close>

text \<open>
  The checksum computed bit by bit, with no table: the textbook reflected CRC-32 with
  initial and final complement.
\<close>

definition crc32_bitwise :: "buffer \<Rightarrow> u32 \<Rightarrow> u32" where
  "crc32_bitwise buf prev =
     foldl (\<lambda>c b. (crc_shift ^^ 8) (c XOR ucast b)) (prev XOR 0xffffffff) buf XOR 0xffffffff"

text \<open>
  The table-driven \<open>crc32\<close> computes, for every buffer and every previous value, the
  same checksum as the bit-by-bit shift register with polynomial 0xEDB88320.
\<close>

theorem crc32_eq_bitwise: "crc32 buf prev = crc32_bitwise buf prev"
proof -
  have "crc_step = (\<lambda>c b. (crc_shift ^^ 8) (c XOR ucast b))"
    by (intro ext) (rule crc_step_eq_shifts)
  then show ?thesis by (simp add: crc32_def crc32_bitwise_def)
qed

lemma crc32_burst:
  assumes "length bad = length good" "length good \<le> 4" "bad \<noteq> good"
  shows "crc32 (pre @ bad @ post) prev \<noteq> crc32 (pre @ good @ post) prev"
proof
  assume "crc32 (pre @ bad @ post) prev = crc32 (pre @ good @ post) prev"
  then have "foldl crc_step (prev XOR 0xffffffff) (pre @ bad @ post)
      = foldl crc_step (prev XOR 0xffffffff) (pre @ good @ post)"
    unfolding crc32_def by (rule xor_right_cancel)
  then have "foldl crc_step (foldl crc_step (prev XOR 0xffffffff) pre) bad
      = foldl crc_step (foldl crc_step (prev XOR 0xffffffff) pre) good"
    by (simp only: foldl_append) (rule crc_steps_inj)
  then have "foldl crc_step (prev XOR 0xffffffff) pre XOR le_word bad
      = foldl crc_step (prev XOR 0xffffffff) pre XOR le_word good"
    using assms(1,2) by (simp add: crc_steps_le_word crc_shifts_inj)
  then have "le_word bad = le_word good"
    by (rule xor_left_cancel)
  then show False
    using le_word_inj assms by metis
qed

end
