(* ===== verification/Codec.thy ===== *)
theory Codec
  imports Crc32
begin

text \<open>
  The binary record format of minidb, \<open>packages/minidb/src/codec.ts\<close>: encoding and
  decoding of one frame and of a batch body, the streaming \<open>FrameParser\<close>, and the
  whole-buffer parser with its two corruption modes. The positioned-read scanner of the
  same file is in \<open>Codec_Scan\<close>.

  A \<open>Buffer\<close> is a list of bytes. The run-time type checks of \<open>encodeFrame\<close>
  (\<open>Buffer.isBuffer\<close>) cannot fail for values of these types and have no branch here; the
  range checks of Node's \<open>writeUInt\<dots>\<close> methods are the error \<open>OutOfRange\<close>.
\<close>

section \<open>Little-endian integers\<close>

datatype codec_error =
    KeyTooLarge | ValueTooLarge | MetaTooLarge | OutOfRange
  | BatchHeaderTruncated | BatchPayloadTruncated | ShortRead

fun le_bytes :: "nat \<Rightarrow> nat \<Rightarrow> buffer" where
  "le_bytes 0 n = []"
| "le_bytes (Suc k) n = of_nat (n mod 256) # le_bytes k (n div 256)"

fun le_nat :: "buffer \<Rightarrow> nat" where
  "le_nat [] = 0"
| "le_nat (b # bs) = unat b + 256 * le_nat bs"

definition int64_bytes :: "int \<Rightarrow> buffer" where
  "int64_bytes e = le_bytes 8 (nat (e mod 2 ^ 64))"

definition int64_of :: "buffer \<Rightarrow> int" where
  "int64_of bs = (let n = int (le_nat bs) in if n < 2 ^ 63 then n else n - 2 ^ 64)"

definition int64_range :: "int \<Rightarrow> bool" where
  "int64_range e \<longleftrightarrow> - (2 ^ 63) \<le> e \<and> e < 2 ^ 63"

text \<open>\<open>buf.readUInt8/16LE/32LE(pos)\<close> and \<open>buf.readBigInt64LE(pos)\<close> at a position in range.\<close>

definition readUIntLE :: "nat \<Rightarrow> buffer \<Rightarrow> nat \<Rightarrow> nat" where
  "readUIntLE k buf pos = le_nat (subarray buf pos (pos + k))"

definition readBigInt64LE :: "buffer \<Rightarrow> nat \<Rightarrow> int" where
  "readBigInt64LE buf pos = int64_of (subarray buf pos (pos + 8))"

lemma length_le_bytes [simp]: "length (le_bytes k n) = k"
  by (induction k arbitrary: n) simp_all

lemma length_int64_bytes [simp]: "length (int64_bytes e) = 8"
  by (simp add: int64_bytes_def)

lemma unat_byte: "unat (b :: byte) < 256"
  using unsigned_less [of b, where ?'a = nat] by simp

lemma le_nat_le_bytes: "n < 256 ^ k \<Longrightarrow> le_nat (le_bytes k n) = n"
proof (induction k arbitrary: n)
  case 0
  then show ?case by simp
next
  case (Suc k)
  then have "n div 256 < 256 ^ k"
    by (simp add: less_mult_imp_div_less mult.commute)
  then have "le_nat (le_bytes k (n div 256)) = n div 256" by (rule Suc.IH)
  then show ?case by (simp add: unat_of_nat)
qed

lemma le_nat_bound: "le_nat bs < 256 ^ length bs"
proof (induction bs)
  case Nil
  then show ?case by simp
next
  case (Cons b bs)
  have "unat b < 256" by (rule unat_byte)
  moreover have "le_nat bs + 1 \<le> 256 ^ length bs" using Cons.IH by simp
  ultimately have "unat b + 256 * le_nat bs < 256 * (le_nat bs + 1)" by simp
  also have "\<dots> \<le> 256 * 256 ^ length bs"
    using \<open>le_nat bs + 1 \<le> 256 ^ length bs\<close> by (rule mult_le_mono2)
  finally show ?case by simp
qed

lemma le_bytes_le_nat: "length bs = k \<Longrightarrow> le_bytes k (le_nat bs) = bs"
proof (induction bs arbitrary: k)
  case Nil
  then show ?case by simp
next
  case (Cons b bs)
  then obtain k' where k: "k = Suc k'" "length bs = k'" by auto
  have b: "unat b < 256" by (rule unat_byte)
  then have m: "(unat b + 256 * le_nat bs) mod 256 = unat b"
    and d: "(unat b + 256 * le_nat bs) div 256 = le_nat bs" by simp_all
  show ?case
    using Cons.IH [OF k(2)] by (simp only: k(1) le_nat.simps le_bytes.simps m d of_nat_unat ucast_id)
qed

lemma int64_of_int64_bytes: "int64_range e \<Longrightarrow> int64_of (int64_bytes e) = e"
proof -
  assume r: "int64_range e"
  have "nat (e mod 2 ^ 64) < 256 ^ 8"
    by (simp add: nat_less_iff)
  then have n: "int (le_nat (int64_bytes e)) = e mod 2 ^ 64"
    unfolding int64_bytes_def by (simp add: le_nat_le_bytes)
  show ?thesis
  proof (cases "0 \<le> e")
    case True
    then have "e mod 2 ^ 64 = e" using r by (simp add: int64_range_def)
    then show ?thesis using r n by (simp add: int64_of_def int64_range_def)
  next
    case False
    then have "(e + 2 ^ 64) mod 2 ^ 64 = e + 2 ^ 64"
      using r by (intro mod_pos_pos_trivial) (simp_all add: int64_range_def)
    then have "e mod 2 ^ 64 = e + 2 ^ 64" by (simp only: mod_add_self2)
    then show ?thesis using r False n by (simp add: int64_of_def int64_range_def)
  qed
qed

section \<open>Frames\<close>

definition MAGIC :: buffer where "MAGIC = [0x4d, 0x44]"
definition TYPE_SET :: nat where "TYPE_SET = 1"
definition TYPE_DEL :: nat where "TYPE_DEL = 2"
definition TYPE_BATCH :: nat where "TYPE_BATCH = 3"
definition HEADER_SIZE :: nat where "HEADER_SIZE = 22"
definition CRC_SIZE :: nat where "CRC_SIZE = 4"
definition MAX_KEY_LEN :: nat where "MAX_KEY_LEN = 0xffff"
definition MAX_VAL_LEN :: nat where "MAX_VAL_LEN = 0xffffffff"

lemma length_MAGIC [simp]: "length MAGIC = 2"
  by (simp add: MAGIC_def)

lemmas codec_consts = HEADER_SIZE_def CRC_SIZE_def MAX_KEY_LEN_def MAX_VAL_LEN_def
  TYPE_SET_def TYPE_DEL_def TYPE_BATCH_def

record frame =
  f_type :: nat
  f_key :: buffer
  f_value :: buffer
  f_meta :: "buffer option"
  f_expireAt :: int

text \<open>\<open>EncodeFrameInput\<close> and \<open>BatchOp\<close> have the same fields.\<close>

record batch_op =
  b_type :: nat
  b_key :: buffer
  b_value :: "buffer option"
  b_meta :: "buffer option"
  b_expireAt :: int

definition buf_or_empty :: "buffer option \<Rightarrow> buffer" where
  "buf_or_empty ob = (case ob of None \<Rightarrow> [] | Some b \<Rightarrow> b)"

definition encodeFrame :: "batch_op \<Rightarrow> codec_error + buffer" where
  "encodeFrame inp =
     (let key = b_key inp; val = buf_or_empty (b_value inp); met = buf_or_empty (b_meta inp) in
      if length key > MAX_KEY_LEN then Inl KeyTooLarge
      else if length val > MAX_VAL_LEN then Inl ValueTooLarge
      else if length met > MAX_VAL_LEN then Inl MetaTooLarge
      else if b_type inp > 255 then Inl OutOfRange
      else if \<not> int64_range (b_expireAt inp) then Inl OutOfRange
      else
        let frame = MAGIC @ le_bytes 1 (b_type inp) @ le_bytes 1 0 @ le_bytes 2 (length key)
              @ le_bytes 4 (length val) @ le_bytes 4 (length met) @ int64_bytes (b_expireAt inp)
              @ key @ val @ met
        in Inr (frame @ le_bytes 4 (unat (crc32 (drop 2 frame) 0))))"

definition SUB_HEADER :: nat where "SUB_HEADER = 1 + 2 + 4 + 4 + 8"

definition encodeBatchOp :: "batch_op \<Rightarrow> codec_error + buffer" where
  "encodeBatchOp op =
     (let key = b_key op; val = buf_or_empty (b_value op); met = buf_or_empty (b_meta op) in
      if b_type op > 255 \<or> length key > 0xffff \<or> length val > 0xffffffff
         \<or> length met > 0xffffffff \<or> \<not> int64_range (b_expireAt op)
      then Inl OutOfRange
      else Inr (le_bytes 1 (b_type op) @ le_bytes 2 (length key) @ le_bytes 4 (length val)
             @ le_bytes 4 (length met) @ int64_bytes (b_expireAt op) @ key @ val @ met))"

fun encode_ops :: "batch_op list \<Rightarrow> codec_error + buffer" where
  "encode_ops [] = Inr []"
| "encode_ops (op # ops) =
     (case encodeBatchOp op of Inl e \<Rightarrow> Inl e
      | Inr b \<Rightarrow> (case encode_ops ops of Inl e \<Rightarrow> Inl e | Inr bs \<Rightarrow> Inr (b @ bs)))"

definition encodeBatchOps :: "batch_op list \<Rightarrow> codec_error + buffer" where
  "encodeBatchOps ops =
     (if length ops > 0xffff then Inl OutOfRange
      else case encode_ops ops of Inl e \<Rightarrow> Inl e | Inr b \<Rightarrow> Inr (le_bytes 2 (length ops) @ b))"

text \<open>The loop of \<open>decodeBatchOps\<close>: \<open>n\<close> operations left, cursor at \<open>off\<close>.\<close>

fun decode_ops :: "nat \<Rightarrow> buffer \<Rightarrow> nat \<Rightarrow> codec_error + batch_op list" where
  "decode_ops 0 body off = Inr []"
| "decode_ops (Suc n) body off =
     (if off + SUB_HEADER > length body then Inl BatchHeaderTruncated
      else
        let type = readUIntLE 1 body off;
            keyLen = readUIntLE 2 body (off + 1);
            valLen = readUIntLE 4 body (off + 3);
            metaLen = readUIntLE 4 body (off + 7);
            expireAt = js_Number (readBigInt64LE body (off + 11));
            p = off + 19
        in if p + keyLen + valLen + metaLen > length body then Inl BatchPayloadTruncated
           else
             let op = \<lparr>b_type = type,
                       b_key = subarray body p (p + keyLen),
                       b_value = Some (subarray body (p + keyLen) (p + keyLen + valLen)),
                       b_meta = (if metaLen \<noteq> 0
                         then Some (subarray body (p + keyLen + valLen) (p + keyLen + valLen + metaLen))
                         else None),
                       b_expireAt = expireAt\<rparr>
             in case decode_ops n body (p + keyLen + valLen + metaLen) of
                  Inl e \<Rightarrow> Inl e
                | Inr ops \<Rightarrow> Inr (op # ops))"

definition decodeBatchOps :: "buffer \<Rightarrow> codec_error + batch_op list" where
  "decodeBatchOps body =
     (if length body < 2 then Inr [] else decode_ops (readUIntLE 2 body 0) body 2)"

section \<open>Reading one frame\<close>

text \<open>The length of the frame whose header starts at \<open>pos\<close>, and the frame it holds.\<close>

definition frame_len_at :: "buffer \<Rightarrow> nat \<Rightarrow> nat" where
  "frame_len_at buf pos = HEADER_SIZE + readUIntLE 2 buf (pos + 4) + readUIntLE 4 buf (pos + 6)
     + readUIntLE 4 buf (pos + 10) + CRC_SIZE"

definition frame_at :: "buffer \<Rightarrow> nat \<Rightarrow> frame" where
  "frame_at buf pos =
     (let keyLen = readUIntLE 2 buf (pos + 4);
          valLen = readUIntLE 4 buf (pos + 6);
          metaLen = readUIntLE 4 buf (pos + 10);
          keyStart = pos + HEADER_SIZE;
          metaStart = keyStart + keyLen + valLen
      in \<lparr>f_type = readUIntLE 1 buf (pos + 2),
          f_key = subarray buf keyStart (keyStart + keyLen),
          f_value = subarray buf (keyStart + keyLen) (keyStart + keyLen + valLen),
          f_meta = (if metaLen \<noteq> 0 then Some (subarray buf metaStart (metaStart + metaLen)) else None),
          f_expireAt = js_Number (readBigInt64LE buf (pos + 14))\<rparr>)"

definition magic_at :: "buffer \<Rightarrow> nat \<Rightarrow> bool" where
  "magic_at buf pos \<longleftrightarrow> subarray buf pos (pos + 2) = MAGIC"

definition crc_ok_at :: "buffer \<Rightarrow> nat \<Rightarrow> nat \<Rightarrow> bool" where
  "crc_ok_at buf pos frameLen \<longleftrightarrow>
     readUIntLE 4 buf (pos + frameLen - CRC_SIZE)
     = unat (crc32 (subarray buf (pos + 2) (pos + frameLen - CRC_SIZE)) 0)"

definition readFrameAt :: "buffer \<Rightarrow> nat \<Rightarrow> (frame \<times> nat) option" where
  "readFrameAt buf pos =
     (if length buf - pos < HEADER_SIZE then None
      else if \<not> magic_at buf pos then None
      else
        let keyLen = readUIntLE 2 buf (pos + 4); frameLen = frame_len_at buf pos in
        if keyLen > MAX_KEY_LEN then None
        else if frameLen < HEADER_SIZE + CRC_SIZE then None
        else if length buf - pos < frameLen then None
        else if \<not> crc_ok_at buf pos frameLen then None
        else Some (frame_at buf pos, frameLen))"

text \<open>\<open>buf.indexOf(MAGIC, from)\<close>.\<close>

definition indexOfMagic :: "buffer \<Rightarrow> nat \<Rightarrow> nat option" where
  "indexOfMagic buf from = find (magic_at buf) [from..<length buf - 1]"

lemma indexOfMagic_Some:
  "indexOfMagic buf from = Some i \<Longrightarrow> from \<le> i \<and> i < length buf - 1 \<and> magic_at buf i"
  unfolding indexOfMagic_def by (auto simp: find_Some_iff in_set_conv_nth)

lemma readFrameAt_Some:
  "readFrameAt buf pos = Some (f, n) \<Longrightarrow>
     26 \<le> n \<and> pos + n \<le> length buf \<and> f = frame_at buf pos \<and> n = frame_len_at buf pos"
  by (auto simp: readFrameAt_def Let_def codec_consts split: if_splits)

section \<open>The streaming parser\<close>

text \<open>
  \<open>FrameParser\<close> keeps the bytes of an incomplete frame and the absolute offset. The
  generator \<open>feed\<close> yields frames and may then throw a \<open>CorruptFrameError\<close>: the result
  is the frames yielded, the parser as it is left, and the offset of the error if any.
\<close>

record frame_parser =
  p_pending :: buffer
  p_offset :: nat

definition new_parser :: frame_parser where
  "new_parser = \<lparr>p_pending = [], p_offset = 0\<rparr>"

datatype corrupt_error = MagicNotFound nat | CrcMismatch nat | TornTail nat nat

text \<open>The \<open>while (true)\<close> loop: result frames, final \<open>pos\<close>, final \<open>offset\<close>, error.\<close>

function feed_loop :: "buffer \<Rightarrow> nat \<Rightarrow> nat \<Rightarrow> frame list \<times> nat \<times> nat \<times> corrupt_error option" where
  "feed_loop buf pos off =
     (if length buf - pos < HEADER_SIZE then ([], pos, off, None)
      else if \<not> magic_at buf pos then
        (case indexOfMagic buf (pos + 1) of
           None \<Rightarrow> ([], pos, off, Some (MagicNotFound (off + pos)))
         | Some nxt \<Rightarrow> feed_loop buf nxt off)
      else
        let frameLen = frame_len_at buf pos in
        if length buf - pos < frameLen then ([], pos, off, None)
        else if \<not> crc_ok_at buf pos frameLen then ([], pos, off, Some (CrcMismatch (off + pos)))
        else case feed_loop buf (pos + frameLen) (off + frameLen) of
               (fs, pos', off', err) \<Rightarrow> (frame_at buf pos # fs, pos', off', err))"
  by pat_completeness auto
termination
  by (relation "measure (\<lambda>(buf, pos, off). length buf - pos)")
    (auto simp: HEADER_SIZE_def frame_len_at_def dest!: indexOfMagic_Some)

declare feed_loop.simps [simp del]

definition feed :: "frame_parser \<Rightarrow> buffer \<Rightarrow> frame list \<times> frame_parser \<times> corrupt_error option" where
  "feed p chunk =
     (let buf = (if p_pending p \<noteq> [] then p_pending p @ chunk else chunk) in
      case feed_loop buf 0 (p_offset p) of
        (fs, pos, off, None) \<Rightarrow>
          (fs, \<lparr>p_pending = (if pos < length buf then drop pos buf else []), p_offset = off\<rparr>, None)
      | (fs, pos, off, Some e) \<Rightarrow> (fs, p\<lparr>p_offset := off\<rparr>, Some e))"

definition finish :: "frame_parser \<Rightarrow> (corrupt_error + nat) \<times> frame_parser" where
  "finish p =
     (if length (p_pending p) > 0
      then (Inl (TornTail (length (p_pending p)) (p_offset p)), p\<lparr>p_pending := []\<rparr>)
      else (Inr (p_offset p), p))"

section \<open>Parsing a whole buffer\<close>

datatype corrupt_mode = Resync | Strict

type_synonym range = "nat \<times> nat"

text \<open>The inner resynchronisation loop: the next position at which a frame validates.\<close>

function resync_scan :: "buffer \<Rightarrow> nat \<Rightarrow> nat option" where
  "resync_scan buf scan =
     (if scan < length buf - 1 then
        (case indexOfMagic buf scan of
           None \<Rightarrow> None
         | Some s \<Rightarrow> if readFrameAt buf s \<noteq> None then Some s else resync_scan buf (s + 1))
      else None)"
  by pat_completeness auto
termination
  by (relation "measure (\<lambda>(buf, scan). length buf - scan)") (auto dest!: indexOfMagic_Some)

declare resync_scan.simps [simp del]

lemma resync_scan_Some:
  "resync_scan buf scan = Some r \<Longrightarrow> scan \<le> r \<and> r < length buf \<and> readFrameAt buf r \<noteq> None"
proof (induction buf scan rule: resync_scan.induct)
  case (1 buf scan)
  then show ?case
    by (subst (asm) (2) resync_scan.simps)
      (fastforce split: if_splits option.splits dest: indexOfMagic_Some)
qed

function parse_loop :: "corrupt_mode \<Rightarrow> buffer \<Rightarrow> nat \<Rightarrow> frame list \<times> range list \<times> nat" where
  "parse_loop mode buf pos =
     (if pos < length buf then
        (case readFrameAt buf pos of
           Some (f, n) \<Rightarrow>
             (case parse_loop mode buf (pos + n) of (fs, cr, eof) \<Rightarrow> (f # fs, cr, eof))
         | None \<Rightarrow>
             (if mode = Strict then ([], [(pos, length buf)], pos)
              else case resync_scan buf (pos + 1) of
                     None \<Rightarrow> ([], [(pos, length buf)], pos)
                   | Some r \<Rightarrow>
                       (case parse_loop mode buf r of (fs, cr, eof) \<Rightarrow> (fs, (pos, r) # cr, eof))))
      else ([], [], pos))"
  by pat_completeness auto
termination
  by (relation "measure (\<lambda>(mode, buf, pos). length buf - pos)")
    (auto dest!: readFrameAt_Some resync_scan_Some)

declare parse_loop.simps [simp del]

definition parseBuffer :: "buffer \<Rightarrow> corrupt_mode \<Rightarrow> frame list \<times> range list \<times> nat" where
  "parseBuffer buf onCorrupt = parse_loop onCorrupt buf 0"

section \<open>The layout of an encoded frame\<close>

definition frame_body :: "batch_op \<Rightarrow> buffer" where
  "frame_body inp =
     le_bytes 1 (b_type inp) @ le_bytes 1 0 @ le_bytes 2 (length (b_key inp))
     @ le_bytes 4 (length (buf_or_empty (b_value inp))) @ le_bytes 4 (length (buf_or_empty (b_meta inp)))
     @ int64_bytes (b_expireAt inp) @ b_key inp @ buf_or_empty (b_value inp) @ buf_or_empty (b_meta inp)"

text \<open>The inputs \<open>encodeFrame\<close> accepts, and the frame they stand for.\<close>

definition encodable :: "batch_op \<Rightarrow> bool" where
  "encodable inp \<longleftrightarrow> b_type inp \<le> 255 \<and> length (b_key inp) \<le> MAX_KEY_LEN
     \<and> length (buf_or_empty (b_value inp)) \<le> MAX_VAL_LEN
     \<and> length (buf_or_empty (b_meta inp)) \<le> MAX_VAL_LEN \<and> int64_range (b_expireAt inp)"

definition frame_of :: "batch_op \<Rightarrow> frame" where
  "frame_of inp =
     \<lparr>f_type = b_type inp, f_key = b_key inp, f_value = buf_or_empty (b_value inp),
      f_meta = (if buf_or_empty (b_meta inp) = [] then None else b_meta inp),
      f_expireAt = js_Number (b_expireAt inp)\<rparr>"

definition encoded :: "batch_op \<Rightarrow> buffer" where
  "encoded inp = MAGIC @ frame_body inp @ le_bytes 4 (unat (crc32 (frame_body inp) 0))"

lemma encodeFrame_iff: "encodeFrame inp = Inr bs \<longleftrightarrow> encodable inp \<and> bs = encoded inp"
  by (auto simp: encodeFrame_def encodable_def encoded_def frame_body_def Let_def)

lemma length_frame_body:
  "length (frame_body inp) = 20 + length (b_key inp) + length (buf_or_empty (b_value inp))
     + length (buf_or_empty (b_meta inp))"
  by (simp add: frame_body_def)

lemma length_encoded:
  "length (encoded inp) = 26 + length (b_key inp) + length (buf_or_empty (b_value inp))
     + length (buf_or_empty (b_meta inp))"
  by (simp add: encoded_def length_frame_body)

text \<open>Reads are relative to a prefix, and do not look past the bytes they need.\<close>

lemma readUIntLE_shift [codec_simps]:
  "readUIntLE k (pre @ xs) (length pre + i) = readUIntLE k xs i"
  by (simp add: readUIntLE_def add.assoc subarray_shift)

lemma readBigInt64LE_shift [codec_simps]:
  "readBigInt64LE (pre @ xs) (length pre + i) = readBigInt64LE xs i"
  by (simp add: readBigInt64LE_def add.assoc subarray_shift)

lemma frame_len_at_shift [codec_simps]:
  "frame_len_at (pre @ xs) (length pre + i) = frame_len_at xs i"
  by (simp add: frame_len_at_def add.assoc codec_simps)

lemma frame_at_shift [codec_simps]: "frame_at (pre @ xs) (length pre + i) = frame_at xs i"
  by (simp only: frame_at_def Let_def add.assoc codec_simps subarray_shift)

lemma magic_at_shift [codec_simps]: "magic_at (pre @ xs) (length pre + i) = magic_at xs i"
  by (simp only: magic_at_def add.assoc subarray_shift)

lemma crc_ok_at_shift [codec_simps]:
  "CRC_SIZE \<le> n \<Longrightarrow> crc_ok_at (pre @ xs) (length pre + i) n = crc_ok_at xs i n"
proof -
  assume "CRC_SIZE \<le> n"
  then have "length pre + i + n - CRC_SIZE = length pre + (i + n - CRC_SIZE)" by simp
  then show ?thesis
    by (simp only: crc_ok_at_def add.assoc codec_simps subarray_shift)
qed

lemma frame_len_ge: "26 \<le> frame_len_at buf pos"
  by (simp add: frame_len_at_def codec_consts)

lemma CRC_le_frame_len [codec_simps]: "CRC_SIZE \<le> frame_len_at buf pos"
  using frame_len_ge [of buf pos] by (simp add: CRC_SIZE_def)

lemma readFrameAt_shift: "readFrameAt (pre @ xs) (length pre + i) = readFrameAt xs i"
  by (simp add: readFrameAt_def Let_def codec_simps add.assoc del: add_2_eq_Suc add_2_eq_Suc')

lemma readFrameAt_shift0: "readFrameAt (pre @ xs) (length pre) = readFrameAt xs 0"
  using readFrameAt_shift [of pre xs 0] by simp

lemma le_nat_1 [simp]: "n < 256 \<Longrightarrow> le_nat (le_bytes 1 n) = n"
  and le_nat_2 [simp]: "n < 65536 \<Longrightarrow> le_nat (le_bytes 2 n) = n"
  and le_nat_4 [simp]: "n < 4294967296 \<Longrightarrow> le_nat (le_bytes 4 n) = n"
  by (rule le_nat_le_bytes, simp)+

lemma readUIntLE_field:
  "pos = length a \<Longrightarrow> n < 256 ^ k \<Longrightarrow> readUIntLE k (a @ le_bytes k n @ c) pos = n"
  by (simp add: readUIntLE_def subarray_def le_nat_le_bytes)

lemma encoded_layout:
  "encoded inp @ post =
     MAGIC @ le_bytes 1 (b_type inp) @ le_bytes 1 0 @ le_bytes 2 (length (b_key inp))
     @ le_bytes 4 (length (buf_or_empty (b_value inp))) @ le_bytes 4 (length (buf_or_empty (b_meta inp)))
     @ int64_bytes (b_expireAt inp) @ b_key inp @ buf_or_empty (b_value inp) @ buf_or_empty (b_meta inp)
     @ le_bytes 4 (unat (crc32 (frame_body inp) 0)) @ post"
  by (simp add: encoded_def frame_body_def)

declare le_bytes.simps [simp del]

lemma encoded_header:
  assumes "encodable inp"
  shows "readUIntLE 1 (encoded inp @ post) 2 = b_type inp"
    and "readUIntLE 2 (encoded inp @ post) 4 = length (b_key inp)"
    and "readUIntLE 4 (encoded inp @ post) 6 = length (buf_or_empty (b_value inp))"
    and "readUIntLE 4 (encoded inp @ post) 10 = length (buf_or_empty (b_meta inp))"
    and "readBigInt64LE (encoded inp @ post) 14 = b_expireAt inp"
  using assms
  by (simp_all add: encoded_layout readUIntLE_def readBigInt64LE_def subarray_def codec_consts
      encodable_def int64_of_int64_bytes del: One_nat_def)

lemma frame_len_at_encoded:
  "encodable inp \<Longrightarrow> frame_len_at (encoded inp @ post) 0 = length (encoded inp)"
  by (simp add: frame_len_at_def encoded_header length_encoded codec_consts)

lemma encoded_payload:
  fixes inp post
  defines "k \<equiv> length (b_key inp)"
    and "v \<equiv> length (buf_or_empty (b_value inp))"
    and "m \<equiv> length (buf_or_empty (b_meta inp))"
  shows "subarray (encoded inp @ post) 22 (22 + k) = b_key inp"
    and "subarray (encoded inp @ post) (22 + k) (22 + k + v) = buf_or_empty (b_value inp)"
    and "subarray (encoded inp @ post) (22 + k + v) (22 + k + v + m) = buf_or_empty (b_meta inp)"
  by (simp_all add: encoded_layout subarray_def codec_consts k_def v_def m_def del: One_nat_def)

lemma frame_at_encoded:
  assumes "encodable inp"
  shows "frame_at (encoded inp @ post) 0 = frame_of inp"
  using encoded_header [OF assms, of post] encoded_payload [of inp post]
  by (simp add: frame_at_def frame_of_def Let_def HEADER_SIZE_def buf_or_empty_def
      split: option.splits)

lemma magic_at_encoded: "magic_at (encoded inp @ post) 0"
  by (simp add: magic_at_def encoded_def subarray_def)

lemma crc_region_encoded:
  "subarray (encoded inp @ post) 2 (length (encoded inp) - 4) = frame_body inp"
  by (simp add: subarray_def encoded_def)

lemma crc_field_encoded:
  "subarray (encoded inp @ post) (length (encoded inp) - 4) (length (encoded inp) - 4 + 4)
   = le_bytes 4 (unat (crc32 (frame_body inp) 0))"
  by (simp add: subarray_def encoded_def)

lemma unat_u32: "unat (w :: u32) < 4294967296"
  using unsigned_less [of w, where ?'a = nat] by simp

lemma crc_ok_encoded: "crc_ok_at (encoded inp @ post) 0 (length (encoded inp))"
  using crc_region_encoded [of inp post] crc_field_encoded [of inp post]
  by (simp add: crc_ok_at_def CRC_SIZE_def readUIntLE_def unat_u32)

lemma readFrameAt_encoded:
  assumes "encodable inp"
  shows "readFrameAt (pre @ encoded inp @ post) (length pre) = Some (frame_of inp, length (encoded inp))"
proof -
  have "readUIntLE 2 (encoded inp @ post) 4 \<le> MAX_KEY_LEN"
    using assms by (simp add: encoded_header) (simp add: encodable_def)
  then have "readFrameAt (encoded inp @ post) 0 = Some (frame_of inp, length (encoded inp))"
    using crc_ok_encoded [of inp post] length_encoded [of inp]
    by (simp add: readFrameAt_def Let_def magic_at_encoded frame_len_at_encoded [OF assms]
        frame_at_encoded [OF assms] HEADER_SIZE_def CRC_SIZE_def)
  then show ?thesis by (simp add: readFrameAt_shift0)
qed

section \<open>Parsing what was written\<close>

lemma parse_loop_frame:
  assumes "encodable inp"
  shows "parse_loop mode (pre @ encoded inp @ post) (length pre) =
     (case parse_loop mode (pre @ encoded inp @ post) (length pre + length (encoded inp)) of
        (fs, cr, eof) \<Rightarrow> (frame_of inp # fs, cr, eof))"
  using readFrameAt_encoded [OF assms, of pre post] length_encoded [of inp]
  by (subst parse_loop.simps) simp

lemma parse_loop_frames:
  assumes "\<forall>inp \<in> set inps. encodable inp"
  shows "parse_loop mode (pre @ concat (map encoded inps) @ post) (length pre) =
     (case parse_loop mode (pre @ concat (map encoded inps) @ post)
             (length pre + length (concat (map encoded inps))) of
        (fs, cr, eof) \<Rightarrow> (map frame_of inps @ fs, cr, eof))"
  using assms
proof (induction inps arbitrary: pre)
  case Nil
  show ?case by (simp split: prod.split)
next
  case (Cons inp inps)
  let ?buf = "pre @ encoded inp @ (concat (map encoded inps) @ post)"
  have "parse_loop mode ?buf (length (pre @ encoded inp)) =
     (case parse_loop mode ?buf (length (pre @ encoded inp) + length (concat (map encoded inps))) of
        (fs, cr, eof) \<Rightarrow> (map frame_of inps @ fs, cr, eof))"
    using Cons.IH [of "pre @ encoded inp"] Cons.prems by simp
  moreover have "encodable inp" using Cons.prems by simp
  ultimately show ?case
    using parse_loop_frame [of inp mode pre "concat (map encoded inps) @ post"]
    by (simp add: add.assoc split: prod.splits)
qed

lemma parse_loop_end: "parse_loop mode buf (length buf) = ([], [], length buf)"
  by (subst parse_loop.simps) simp

text \<open>A prefix of a frame that is not the whole frame never validates at its start.\<close>

lemma readUIntLE_prefix: "pos + k \<le> length xs \<Longrightarrow> readUIntLE k (xs @ ys) pos = readUIntLE k xs pos"
  by (simp add: readUIntLE_def subarray_append_right)

lemma readFrameAt_torn:
  assumes "encodable inp" "encoded inp = torn @ rest" "rest \<noteq> []"
  shows "readFrameAt torn 0 = None"
proof (cases "length torn < HEADER_SIZE")
  case True
  then show ?thesis by (simp add: readFrameAt_def)
next
  case False
  then have len: "22 \<le> length torn" by (simp add: HEADER_SIZE_def)
  have "frame_len_at torn 0 = frame_len_at (encoded inp @ []) 0"
    using assms(2) len by (simp add: frame_len_at_def readUIntLE_prefix)
  also have "\<dots> = length torn + length rest"
    using frame_len_at_encoded [OF assms(1), of "[]"] assms(2) by simp
  finally show ?thesis
    using assms(3) by (simp add: readFrameAt_def Let_def)
qed

section \<open>Every byte is accounted for\<close>

definition frame_size :: "frame \<Rightarrow> nat" where
  "frame_size f = 26 + length (f_key f) + length (f_value f) + length (buf_or_empty (f_meta f))"

definition range_bytes :: "range list \<Rightarrow> nat" where
  "range_bytes rs = (\<Sum>(s, e) \<leftarrow> rs. e - s)"

lemma range_bytes_simps [simp]:
  "range_bytes [] = 0" "range_bytes ((s, e) # rs) = e - s + range_bytes rs"
  by (simp_all add: range_bytes_def)

lemma readFrameAt_size: "readFrameAt buf pos = Some (f, n) \<Longrightarrow> frame_size f = n"
  by (drule readFrameAt_Some)
    (auto simp: frame_size_def frame_at_def frame_len_at_def Let_def codec_consts buf_or_empty_def)

lemma parse_loop_accounts:
  "pos \<le> length buf \<Longrightarrow> parse_loop mode buf pos = (fs, cr, eof) \<Longrightarrow>
     pos + sum_list (map frame_size fs) + range_bytes cr = length buf \<and> eof \<le> length buf"
proof (induction mode buf pos arbitrary: fs cr eof rule: parse_loop.induct)
  case (1 mode buf pos)
  show ?case
  proof (cases "pos < length buf")
    case False
    then show ?thesis
      using "1.prems" by (auto simp: parse_loop_end)
  next
    case pos: True
    show ?thesis
    proof (cases "readFrameAt buf pos")
      case (Some fn)
      obtain f n where fn: "fn = (f, n)" by (cases fn)
      obtain fs' cr' eof' where rec: "parse_loop mode buf (pos + n) = (fs', cr', eof')"
        by (cases "parse_loop mode buf (pos + n)") auto
      have n: "pos + n \<le> length buf" "frame_size f = n"
        using Some fn readFrameAt_Some [of buf pos f n] readFrameAt_size by auto
      have "fs = f # fs'" "cr = cr'" "eof = eof'"
        using "1.prems" pos Some fn rec by (simp_all add: parse_loop.simps [of mode buf pos])
      then show ?thesis
        using "1.IH"(2) [OF pos Some [unfolded fn] refl n(1) rec] n(2) by simp
    next
      case None
      show ?thesis
      proof (cases "mode = Strict \<or> resync_scan buf (pos + 1) = None")
        case True
        then show ?thesis
          using "1.prems" pos None
          by (auto simp: parse_loop.simps [of mode buf pos] split: if_splits)
      next
        case False
        then obtain r where r: "mode \<noteq> Strict" "resync_scan buf (pos + 1) = Some r" by auto
        obtain fs' cr' eof' where rec: "parse_loop mode buf r = (fs', cr', eof')"
          by (cases "parse_loop mode buf r") auto
        have b: "pos + 1 \<le> r" "r \<le> length buf"
          using resync_scan_Some [OF r(2)] by auto
        have "fs = fs'" "cr = (pos, r) # cr'" "eof = eof'"
          using "1.prems" pos None r rec by (simp_all add: parse_loop.simps [of mode buf pos])
        then show ?thesis
          using "1.IH"(1) [OF pos None r b(2) rec] b(1) by simp
      qed
    qed
  qed
qed

section \<open>The streaming parser on a clean stream\<close>

lemma feed_loop_frame:
  assumes "encodable inp"
  shows "feed_loop (pre @ encoded inp @ post) (length pre) off =
     (case feed_loop (pre @ encoded inp @ post) (length pre + length (encoded inp))
             (off + length (encoded inp)) of
        (fs, pos', off', err) \<Rightarrow> (frame_of inp # fs, pos', off', err))"
proof -
  let ?buf = "pre @ encoded inp @ post"
  have "magic_at ?buf (length pre)" "frame_len_at ?buf (length pre) = length (encoded inp)"
    "frame_at ?buf (length pre) = frame_of inp"
    using magic_at_shift [of pre _ 0] frame_len_at_shift [of pre _ 0] frame_at_shift [of pre _ 0]
      frame_len_at_encoded [OF assms] frame_at_encoded [OF assms] magic_at_encoded by simp_all
  moreover have "crc_ok_at ?buf (length pre) (length (encoded inp))"
    using crc_ok_at_shift [of "length (encoded inp)" pre "encoded inp @ post" 0] crc_ok_encoded [of inp post]
      length_encoded [of inp] by (simp add: CRC_SIZE_def)
  ultimately show ?thesis
    using length_encoded [of inp]
    by (subst feed_loop.simps) (simp add: Let_def HEADER_SIZE_def)
qed

definition torn_prefix :: "buffer \<Rightarrow> bool" where
  "torn_prefix torn \<longleftrightarrow> torn = [] \<or> (\<exists>inp rest. encodable inp \<and> rest \<noteq> [] \<and> encoded inp = torn @ rest)"

lemma feed_loop_torn:
  assumes "torn_prefix torn"
  shows "feed_loop (pre @ torn) (length pre) off = ([], length pre, off, None)"
proof (cases "length torn < HEADER_SIZE")
  case True
  then show ?thesis by (subst feed_loop.simps) simp
next
  case False
  then have len: "22 \<le> length torn" by (simp add: HEADER_SIZE_def)
  then obtain inp rest where inp: "encodable inp" "rest \<noteq> []" "encoded inp = torn @ rest"
    using assms by (auto simp: torn_prefix_def)
  have "magic_at torn 0"
    using magic_at_encoded [of inp "[]"] inp(3) len by (simp add: magic_at_def subarray_append_right)
  moreover have "frame_len_at torn 0 = frame_len_at (encoded inp @ []) 0"
    using inp(3) len by (simp add: frame_len_at_def readUIntLE_prefix)
  then have "frame_len_at torn 0 = length torn + length rest"
    using frame_len_at_encoded [OF inp(1), of "[]"] inp(3) by simp
  ultimately show ?thesis
    using inp(2) magic_at_shift [of pre torn 0] frame_len_at_shift [of pre torn 0]
    by (subst feed_loop.simps) (simp add: Let_def)
qed

lemma feed_loop_stream:
  assumes "\<forall>inp \<in> set inps. encodable inp" "torn_prefix torn"
  shows "feed_loop (pre @ concat (map encoded inps) @ torn) (length pre) off =
     (map frame_of inps, length pre + length (concat (map encoded inps)),
      off + length (concat (map encoded inps)), None)"
  using assms(1)
proof (induction inps arbitrary: pre off)
  case Nil
  show ?case using feed_loop_torn [OF assms(2), of pre off] by simp
next
  case (Cons inp inps)
  have "feed_loop ((pre @ encoded inp) @ concat (map encoded inps) @ torn)
      (length (pre @ encoded inp)) (off + length (encoded inp)) =
     (map frame_of inps, length (pre @ encoded inp) + length (concat (map encoded inps)),
      off + length (encoded inp) + length (concat (map encoded inps)), None)"
    by (rule Cons.IH) (use Cons.prems in simp)
  then show ?case
    using Cons.prems feed_loop_frame [of inp pre "concat (map encoded inps) @ torn" off]
    by (simp add: add.assoc)
qed

text \<open>Feeding a list of chunks, collecting the frames; it stops at the first error.\<close>

fun feed_all :: "frame_parser \<Rightarrow> buffer list \<Rightarrow> frame list \<times> frame_parser \<times> corrupt_error option" where
  "feed_all p [] = ([], p, None)"
| "feed_all p (c # cs) =
     (case feed p c of
        (fs, p', Some e) \<Rightarrow> (fs, p', Some e)
      | (fs, p', None) \<Rightarrow> (case feed_all p' cs of (gs, p'', err) \<Rightarrow> (fs @ gs, p'', err)))"

text \<open>A prefix of the stream is a number of whole frames and a torn one.\<close>

lemma stream_prefix:
  assumes "\<forall>inp \<in> set inps. encodable inp" "concat (map encoded inps) = xs @ ys"
  shows "\<exists>ds rs torn. inps = ds @ rs \<and> xs = concat (map encoded ds) @ torn \<and> torn_prefix torn
     \<and> concat (map encoded rs) = torn @ ys"
  using assms
proof (induction inps arbitrary: xs)
  case Nil
  then show ?case by (simp add: torn_prefix_def)
next
  case (Cons inp inps)
  show ?case
  proof (cases "length xs < length (encoded inp)")
    case True
    then obtain rest where rest: "encoded inp = xs @ rest" "rest \<noteq> []"
      using Cons.prems(2) by (auto simp: append_eq_append_conv2)
    then have "torn_prefix xs"
      using Cons.prems(1) by (auto simp: torn_prefix_def)
    then show ?thesis
      using Cons.prems(2) by (intro exI [of _ "[]"] exI [of _ "inp # inps"] exI [of _ xs]) simp
  next
    case False
    then obtain zs where zs: "xs = encoded inp @ zs" "concat (map encoded inps) = zs @ ys"
      using Cons.prems(2) by (auto simp: append_eq_append_conv2)
    then obtain ds rs torn where "inps = ds @ rs" "zs = concat (map encoded ds) @ torn"
      "torn_prefix torn" "concat (map encoded rs) = torn @ ys"
      using Cons.IH [of zs] Cons.prems(1) by auto
    then show ?thesis
      using zs(1) by (intro exI [of _ "inp # ds"] exI [of _ rs] exI [of _ torn]) simp
  qed
qed

text \<open>A whole frame is never a proper prefix of another frame.\<close>

lemma torn_not_whole:
  assumes "encodable inp" "encodable inp'" "encoded inp' = (encoded inp @ xs) @ rest" "rest \<noteq> []"
  shows False
proof -
  have "frame_len_at (encoded inp @ xs @ rest) 0 = length (encoded inp)"
    by (rule frame_len_at_encoded [OF assms(1)])
  moreover have "frame_len_at (encoded inp' @ []) 0 = length (encoded inp')"
    by (rule frame_len_at_encoded [OF assms(2)])
  ultimately show False
    using assms(3,4) by simp
qed

lemma feed_stream:
  assumes "\<forall>inp \<in> set ds. encodable inp" "torn_prefix torn"
    and "p_pending p @ chunk = concat (map encoded ds) @ torn"
  shows "feed p chunk =
     (map frame_of ds, \<lparr>p_pending = torn, p_offset = p_offset p + length (concat (map encoded ds))\<rparr>, None)"
proof -
  have buf: "(if p_pending p \<noteq> [] then p_pending p @ chunk else chunk) = concat (map encoded ds) @ torn"
    using assms(3) by auto
  show ?thesis
    using feed_loop_stream [OF assms(1,2), of "[]" "p_offset p"]
    unfolding feed_def Let_def buf by simp
qed

lemma torn_prefix_frames:
  assumes "torn_prefix (concat (map encoded rs))" "\<forall>inp \<in> set rs. encodable inp"
  shows "rs = []"
proof (cases rs)
  case (Cons inp rs')
  have ne: "encoded inp \<noteq> []" using length_encoded [of inp] by auto
  then obtain inp' rest where "encodable inp'" "rest \<noteq> []"
    "encoded inp' = (encoded inp @ concat (map encoded rs')) @ rest"
    using assms(1) Cons by (auto simp: torn_prefix_def)
  then show ?thesis
    using torn_not_whole [of inp inp'] assms(2) Cons by auto
qed

lemma feed_all_stream:
  assumes "\<forall>inp \<in> set inps. encodable inp" "torn_prefix (p_pending p)"
    and "p_pending p @ concat chunks = concat (map encoded inps)"
  shows "feed_all p chunks =
     (map frame_of inps, \<lparr>p_pending = [], p_offset = p_offset p + length (concat (map encoded inps))\<rparr>, None)"
  using assms
proof (induction chunks arbitrary: p inps)
  case Nil
  then have "inps = []" using torn_prefix_frames [of inps] by simp
  then show ?case using Nil.prems(3) by simp
next
  case (Cons c cs)
  from Cons.prems(3) have "concat (map encoded inps) = (p_pending p @ c) @ concat cs" by simp
  from stream_prefix [OF Cons.prems(1) this] obtain ds rs torn where
    split: "inps = ds @ rs" "p_pending p @ c = concat (map encoded ds) @ torn" "torn_prefix torn"
      "concat (map encoded rs) = torn @ concat cs"
    by auto
  let ?p = "\<lparr>p_pending = torn, p_offset = p_offset p + length (concat (map encoded ds))\<rparr>"
  have "feed p c = (map frame_of ds, ?p, None)"
    by (rule feed_stream) (use Cons.prems(1) split in auto)
  moreover have "feed_all ?p cs = (map frame_of rs, \<lparr>p_pending = [],
      p_offset = p_offset ?p + length (concat (map encoded rs))\<rparr>, None)"
    by (rule Cons.IH) (use Cons.prems(1) split in auto)
  ultimately show ?case using split(1) by simp
qed

section \<open>Batch bodies\<close>

definition op_bytes :: "batch_op \<Rightarrow> buffer" where
  "op_bytes op = le_bytes 1 (b_type op) @ le_bytes 2 (length (b_key op))
     @ le_bytes 4 (length (buf_or_empty (b_value op))) @ le_bytes 4 (length (buf_or_empty (b_meta op)))
     @ int64_bytes (b_expireAt op) @ b_key op @ buf_or_empty (b_value op) @ buf_or_empty (b_meta op)"

text \<open>What a decoded operation looks like: the value is always present, an empty meta is absent.\<close>

definition norm_op :: "batch_op \<Rightarrow> batch_op" where
  "norm_op op = \<lparr>b_type = b_type op, b_key = b_key op, b_value = Some (buf_or_empty (b_value op)),
     b_meta = (if buf_or_empty (b_meta op) = [] then None else b_meta op),
     b_expireAt = js_Number (b_expireAt op)\<rparr>"

lemma encodeBatchOp_eq:
  "encodeBatchOp op = (if encodable op then Inr (op_bytes op) else Inl OutOfRange)"
  by (auto simp: encodeBatchOp_def encodable_def op_bytes_def Let_def codec_consts)

lemma encode_ops_eq:
  "encode_ops ops = (if \<forall>op \<in> set ops. encodable op then Inr (concat (map op_bytes ops)) else Inl OutOfRange)"
  by (induction ops) (auto simp: encodeBatchOp_eq)

lemma length_op_bytes:
  "length (op_bytes op) = 19 + length (b_key op) + length (buf_or_empty (b_value op))
     + length (buf_or_empty (b_meta op))"
  by (simp add: op_bytes_def)

lemma op_header:
  assumes "encodable op"
  shows "readUIntLE 1 (op_bytes op @ post) 0 = b_type op"
    and "readUIntLE 2 (op_bytes op @ post) 1 = length (b_key op)"
    and "readUIntLE 4 (op_bytes op @ post) 3 = length (buf_or_empty (b_value op))"
    and "readUIntLE 4 (op_bytes op @ post) 7 = length (buf_or_empty (b_meta op))"
    and "readBigInt64LE (op_bytes op @ post) 11 = b_expireAt op"
  using assms
  by (simp_all add: op_bytes_def readUIntLE_def readBigInt64LE_def subarray_def codec_consts
      encodable_def int64_of_int64_bytes del: One_nat_def)

lemma op_payload:
  fixes op post
  defines "k \<equiv> length (b_key op)"
    and "v \<equiv> length (buf_or_empty (b_value op))"
    and "m \<equiv> length (buf_or_empty (b_meta op))"
  shows "subarray (op_bytes op @ post) 19 (19 + k) = b_key op"
    and "subarray (op_bytes op @ post) (19 + k) (19 + k + v) = buf_or_empty (b_value op)"
    and "subarray (op_bytes op @ post) (19 + k + v) (19 + k + v + m) = buf_or_empty (b_meta op)"
  by (simp_all add: op_bytes_def subarray_def k_def v_def m_def del: One_nat_def)

lemma meta_norm: "(if length (buf_or_empty mo) \<noteq> 0 then Some (buf_or_empty mo) else None)
    = (if buf_or_empty mo = [] then None else mo)"
  by (simp add: buf_or_empty_def split: option.splits)

lemma decode_ops_op:
  assumes "encodable op"
  shows "decode_ops (Suc n) (pre @ op_bytes op @ post) (length pre) =
     (case decode_ops n (pre @ op_bytes op @ post) (length pre + length (op_bytes op)) of
        Inl e \<Rightarrow> Inl e | Inr ops \<Rightarrow> Inr (norm_op op # ops))"
proof -
  let ?b = "op_bytes op @ post" and ?p = "length pre"
  have hdr: "readUIntLE 1 (pre @ ?b) ?p = b_type op"
    "readUIntLE 2 (pre @ ?b) (?p + 1) = length (b_key op)"
    "readUIntLE 4 (pre @ ?b) (?p + 3) = length (buf_or_empty (b_value op))"
    "readUIntLE 4 (pre @ ?b) (?p + 7) = length (buf_or_empty (b_meta op))"
    "readBigInt64LE (pre @ ?b) (?p + 11) = b_expireAt op"
    using op_header [OF assms, of post] readUIntLE_shift [of _ pre ?b] readBigInt64LE_shift [of pre ?b]
      readUIntLE_shift [of 1 pre ?b 0] by (simp_all del: One_nat_def)
  let ?k = "length (b_key op)" and ?v = "length (buf_or_empty (b_value op))"
    and ?m = "length (buf_or_empty (b_meta op))"
  have pay: "subarray (pre @ ?b) (?p + 19) (?p + 19 + ?k) = b_key op"
    "subarray (pre @ ?b) (?p + 19 + ?k) (?p + 19 + ?k + ?v) = buf_or_empty (b_value op)"
    "subarray (pre @ ?b) (?p + 19 + ?k + ?v) (?p + 19 + ?k + ?v + ?m) = buf_or_empty (b_meta op)"
    using op_payload [of op post] subarray_shift [of pre ?b] by (simp_all only: add.assoc)
  have len: "length (pre @ ?b) = ?p + 19 + ?k + ?v + ?m + length post"
    using length_op_bytes [of op] by simp
  have "?p + length (op_bytes op) = ?p + 19 + ?k + ?v + ?m"
    using length_op_bytes [of op] by simp
  then show ?thesis
    unfolding decode_ops.simps Let_def hdr pay len meta_norm norm_op_def SUB_HEADER_def
    by (simp add: add.assoc)
qed

lemma decode_ops_stream:
  assumes "\<forall>op \<in> set ops. encodable op"
  shows "decode_ops (length ops) (pre @ concat (map op_bytes ops) @ post) (length pre) = Inr (map norm_op ops)"
  using assms
proof (induction ops arbitrary: pre)
  case Nil
  show ?case by simp
next
  case (Cons op ops)
  have "decode_ops (length ops) ((pre @ op_bytes op) @ concat (map op_bytes ops) @ post)
      (length (pre @ op_bytes op)) = Inr (map norm_op ops)"
    by (rule Cons.IH) (use Cons.prems in simp)
  then show ?case
    using Cons.prems decode_ops_op [of op "length ops" pre "concat (map op_bytes ops) @ post"]
    by (simp del: decode_ops.simps)
qed

section \<open>Properties\<close>

text \<open>
  A frame that \<open>encodeFrame\<close> wrote is read back by \<open>readFrameAt\<close> wherever it lies in a
  buffer: same type, key, value and metadata (an empty metadata blob reads back as
  absent), the expiry as a JavaScript number, and the frame's exact byte length.
\<close>

theorem encodeFrame_readFrameAt:
  assumes "encodeFrame inp = Inr bs"
  shows "readFrameAt (pre @ bs @ post) (length pre) = Some (frame_of inp, length bs)"
  using assms readFrameAt_encoded by (simp add: encodeFrame_iff)

definition sample_op :: batch_op where
  "sample_op = \<lparr>b_type = 1, b_key = [0x6b], b_value = Some [0x4d, 0x44], b_meta = None, b_expireAt = 7\<rparr>"

lemma encodable_sample [simp]: "encodable sample_op"
  by (simp add: encodable_def sample_op_def buf_or_empty_def int64_range_def codec_consts)

lemma encodeFrame_sample: "encodeFrame sample_op = Inr (encoded sample_op)"
  by (simp add: encodeFrame_iff)

theorem encodeFrame_readFrameAt_witness:
  "readFrameAt ([1, 2] @ encoded sample_op @ [3]) (length [1, 2 :: byte])
   = Some (frame_of sample_op, length (encoded sample_op))"
  by (rule encodeFrame_readFrameAt [OF encodeFrame_sample])

text \<open>
  A log that is the concatenation of encoded frames parses, in both corruption
  modes, to exactly those frames in order, with no corrupt range and the end of the
  buffer as the end offset.
\<close>

theorem parseBuffer_clean:
  assumes "map encodeFrame inps = map Inr bss"
  shows "parseBuffer (concat bss) mode = (map frame_of inps, [], length (concat bss))"
proof -
  have "length inps = length bss" using assms by (metis length_map)
  then have enc: "(\<forall>inp \<in> set inps. encodable inp) \<and> bss = map encoded inps"
    using assms by (induction inps bss rule: list_induct2) (auto simp: encodeFrame_iff)
  then show ?thesis
    using parse_loop_frames [of inps mode "[]" "[]"] parse_loop_end [of mode "concat (map encoded inps)"]
    by (simp add: parseBuffer_def)
qed

theorem parseBuffer_clean_witness:
  "parseBuffer (concat [encoded sample_op, encoded sample_op]) Resync
   = (map frame_of [sample_op, sample_op], [], length (concat [encoded sample_op, encoded sample_op]))"
  by (rule parseBuffer_clean) (simp add: encodeFrame_sample)

text \<open>
  C16: A crash that tears the last frame (any proper, non-empty prefix of it is on disk)
  loses only that frame: in strict mode every earlier frame is recovered, the torn bytes
  are the single corrupt range, and the end offset is where the torn frame started.
\<close>

theorem parseBuffer_torn_tail:
  assumes "map encodeFrame inps = map Inr bss" "encodeFrame last_inp = Inr (torn @ rest)"
    and "torn \<noteq> []" "rest \<noteq> []"
  shows "parseBuffer (concat bss @ torn) Strict =
     (map frame_of inps, [(length (concat bss), length (concat bss) + length torn)], length (concat bss))"
proof -
  have "length inps = length bss" using assms(1) by (metis length_map)
  then have enc: "(\<forall>inp \<in> set inps. encodable inp) \<and> bss = map encoded inps"
    using assms(1) by (induction inps bss rule: list_induct2) (auto simp: encodeFrame_iff)
  have "readFrameAt (concat bss @ torn) (length (concat bss)) = None"
    using readFrameAt_torn [of last_inp torn rest] assms(2,4)
    by (simp add: readFrameAt_shift0 encodeFrame_iff)
  then have "parse_loop Strict (concat bss @ torn) (length (concat bss)) =
     ([], [(length (concat bss), length (concat bss) + length torn)], length (concat bss))"
    using assms(3) by (subst parse_loop.simps) simp
  then show ?thesis
    using parse_loop_frames [of inps Strict "[]" torn] enc by (simp add: parseBuffer_def)
qed

theorem parseBuffer_torn_tail_witness:
  "parseBuffer (concat [encoded sample_op] @ take 5 (encoded sample_op)) Strict =
     (map frame_of [sample_op], [(length (concat [encoded sample_op]),
        length (concat [encoded sample_op]) + length (take 5 (encoded sample_op)))],
      length (concat [encoded sample_op]))"
proof (rule parseBuffer_torn_tail)
  show "encodeFrame sample_op = Inr (take 5 (encoded sample_op) @ drop 5 (encoded sample_op))"
    by (simp add: encodeFrame_sample)
qed (use length_encoded [of sample_op] in \<open>auto simp: encodeFrame_sample\<close>)

text \<open>
  Corruption of at most four consecutive bytes of a frame after its length fields and
  before its checksum (expiry, key, value or metadata) is always detected: the frame no
  longer validates at its position.
\<close>

theorem readFrameAt_detects_burst:
  assumes "encodeFrame inp = Inr (a @ good @ c)" "14 \<le> length a" "4 \<le> length c"
    and "length bad = length good" "length good \<le> 4" "bad \<noteq> good"
  shows "readFrameAt (pre @ (a @ bad @ c) @ post) (length pre) = None"
proof -
  let ?g = "a @ good @ c" and ?b = "a @ bad @ c"
  have enc: "encodable inp" "encoded inp = ?g" using assms(1) by (auto simp: encodeFrame_iff)
  have same: "readUIntLE k (?b @ post) i = readUIntLE k (?g @ post) i" if "i + k \<le> 14" for k i
    using that assms(2) by (simp add: readUIntLE_prefix)
  have flen: "frame_len_at (?b @ post) 0 = length ?b"
    using frame_len_at_encoded [OF enc(1), of post] enc(2) assms(4) same
    by (simp add: frame_len_at_def)
  define body crcb hd2 a' where "body = take (length c - 4) c" and "crcb = drop (length c - 4) c"
    and "hd2 = take 2 a" and "a' = drop 2 a"
  have body: "c = body @ crcb" "length crcb = 4" and a': "a = hd2 @ a'" "length hd2 = 2"
    using assms(2,3) by (simp_all add: body_def crcb_def hd2_def a'_def)
  have crc_b: "subarray (?b @ post) 2 (length ?b - 4) = a' @ bad @ body"
    and crc_g: "subarray (?g @ post) 2 (length ?g - 4) = a' @ good @ body"
    and st_b: "subarray (?b @ post) (length ?b - 4) (length ?b - 4 + 4) = crcb"
    and st_g: "subarray (?g @ post) (length ?g - 4) (length ?g - 4 + 4) = crcb"
    using a' body by (simp_all add: subarray_def)
  have "le_nat crcb = unat (crc32 (a' @ good @ body) 0)"
    using crc_ok_encoded [of inp post] enc(2) crc_g st_g
    by (simp add: crc_ok_at_def CRC_SIZE_def readUIntLE_def)
  moreover have "unat (crc32 (a' @ good @ body) 0) \<noteq> unat (crc32 (a' @ bad @ body) 0)"
    using crc32_burst [OF assms(4-6), of a' body 0] by (metis unsigned_word_eqI)
  ultimately have "\<not> crc_ok_at (?b @ post) 0 (length ?b)"
    using crc_b st_b by (simp add: crc_ok_at_def CRC_SIZE_def readUIntLE_def)
  then have "readFrameAt (?b @ post) 0 = None"
    by (simp only: readFrameAt_def Let_def flen) simp
  then show ?thesis by (simp only: readFrameAt_shift0)
qed

theorem readFrameAt_detects_burst_witness:
  "readFrameAt ([] @ (take 23 (encoded sample_op) @ [0, 0] @ drop 25 (encoded sample_op)) @ []) (length ([] :: buffer))
   = None"
proof (rule readFrameAt_detects_burst)
  have "take 23 (encoded sample_op) @ [0x4d, 0x44] @ drop 25 (encoded sample_op) = encoded sample_op"
    unfolding encoded_layout [of sample_op "[]", unfolded append_Nil2]
    by (simp add: sample_op_def buf_or_empty_def del: One_nat_def)
  then show "encodeFrame sample_op = Inr (take 23 (encoded sample_op) @ [0x4d, 0x44] @ drop 25 (encoded sample_op))"
    by (simp only: encodeFrame_sample)
qed (use length_encoded [of sample_op] in \<open>simp_all add: sample_op_def buf_or_empty_def\<close>)

text \<open>
  Parsing loses no byte silently: in both modes the sizes of the recovered frames and
  of the reported corrupt ranges add up to the length of the buffer.
\<close>

theorem parseBuffer_accounts_every_byte:
  assumes "parseBuffer buf mode = (fs, ranges, eof)"
  shows "sum_list (map frame_size fs) + range_bytes ranges = length buf \<and> eof \<le> length buf"
  using parse_loop_accounts [of 0 buf mode fs ranges eof] assms by (simp add: parseBuffer_def)

theorem parseBuffer_accounts_every_byte_witness:
  "sum_list (map frame_size []) + range_bytes [(0, 2)] = length [0, 0 :: byte] \<and> (0 :: nat) \<le> length [0, 0 :: byte]"
proof (rule parseBuffer_accounts_every_byte)
  show "parseBuffer [0, 0] Strict = ([], [(0, 2)], 0)"
    by (simp add: parseBuffer_def parse_loop.simps [of _ _ 0] readFrameAt_def HEADER_SIZE_def)
qed

text \<open>
  The streaming \<open>FrameParser\<close> does not depend on how the file is cut into chunks: fed
  a clean log in any chunks, it yields exactly the frames written, reports no error, and
  \<open>finish\<close> returns the number of bytes of the log.
\<close>

theorem feed_all_chunks:
  assumes "map encodeFrame inps = map Inr bss" "concat chunks = concat bss"
  shows "feed_all new_parser chunks =
       (map frame_of inps, \<lparr>p_pending = [], p_offset = length (concat bss)\<rparr>, None)
     \<and> fst (finish \<lparr>p_pending = [], p_offset = length (concat bss)\<rparr>) = Inr (length (concat bss))"
proof -
  have "length inps = length bss" using assms(1) by (metis length_map)
  then have enc: "(\<forall>inp \<in> set inps. encodable inp) \<and> bss = map encoded inps"
    using assms(1) by (induction inps bss rule: list_induct2) (auto simp: encodeFrame_iff)
  then show ?thesis
    using feed_all_stream [of inps new_parser chunks] assms(2)
    by (simp add: new_parser_def torn_prefix_def finish_def)
qed

theorem feed_all_chunks_witness:
  "feed_all new_parser [take 3 (encoded sample_op), drop 3 (encoded sample_op)] =
       (map frame_of [sample_op], \<lparr>p_pending = [], p_offset = length (concat [encoded sample_op])\<rparr>, None)
   \<and> fst (finish \<lparr>p_pending = [], p_offset = length (concat [encoded sample_op])\<rparr>)
     = Inr (length (concat [encoded sample_op]))"
  by (rule feed_all_chunks) (simp_all add: encodeFrame_sample)

text \<open>
  The parser's offset is not absolute after skipped garbage: when \<open>feed\<close> skips bytes in
  front of a frame, only the frame's length is added to \<open>offset\<close>, so \<open>finish\<close> returns an
  offset that is too small by the number of skipped bytes.
\<close>

theorem feed_offset_ignores_garbage:
  assumes "encodeFrame inp = Inr bs" "0x4d \<notin> set garbage"
  shows "feed new_parser (garbage @ bs) =
     ([frame_of inp], \<lparr>p_pending = [], p_offset = length (garbage @ bs) - length garbage\<rparr>, None)"
proof -
  have enc: "encodable inp" "bs = encoded inp" using assms(1) by (simp_all add: encodeFrame_iff)
  have loop: "feed_loop (garbage @ bs) (length garbage) 0 = ([frame_of inp], length garbage + length bs, length bs, None)"
    using feed_loop_stream [of "[inp]" "[]" garbage 0] enc by (simp add: torn_prefix_def)
  have no_magic: "\<not> magic_at (garbage @ bs) i" if "i < length garbage" for i
  proof -
    have "garbage ! i \<noteq> 0x4d" using assms(2) nth_mem [OF that] by metis
    then show ?thesis
      using that by (auto simp: magic_at_def MAGIC_def subarray_def Cons_nth_drop_Suc [symmetric])
  qed
  have found: "magic_at (garbage @ bs) (length garbage)"
    using magic_at_shift [of garbage bs 0] magic_at_encoded [of inp "[]"] enc(2) by simp
  have "feed_loop (garbage @ bs) 0 0 = ([frame_of inp], length garbage + length bs, length bs, None)"
  proof (cases "garbage = []")
    case True
    then show ?thesis using loop by simp
  next
    case False
    have "indexOfMagic (garbage @ bs) 1 = Some (length garbage)"
      unfolding indexOfMagic_def find_Some_iff
      using False found no_magic length_encoded [of inp] enc(2)
      by (intro exI [of _ "length garbage - 1"]) auto
    then show ?thesis
      using False no_magic [of 0] loop length_encoded [of inp] enc(2)
      by (subst feed_loop.simps) (simp add: HEADER_SIZE_def)
  qed
  then show ?thesis by (simp add: feed_def new_parser_def)
qed

theorem feed_offset_ignores_garbage_witness:
  "feed new_parser ([0, 0, 0] @ encoded sample_op) =
     ([frame_of sample_op], \<lparr>p_pending = [],
       p_offset = length ([0, 0, 0] @ encoded sample_op) - length [0, 0, 0 :: byte]\<rparr>, None)"
  by (rule feed_offset_ignores_garbage [OF encodeFrame_sample]) simp

text \<open>
  A batch body that \<open>encodeBatchOps\<close> wrote decodes to the same operations in the same
  order (values present, empty metadata absent, the expiry as a JavaScript number), and
  encoding fails exactly when there are more than 65535 operations or one does not fit
  its fields.
\<close>

theorem encodeBatchOps_decode:
  "(case encodeBatchOps ops of
      Inr body \<Rightarrow> decodeBatchOps body = Inr (map norm_op ops)
    | Inl e \<Rightarrow> length ops > 65535 \<or> (\<exists>op \<in> set ops. \<not> encodable op))"
proof (cases "length ops > 65535 \<or> (\<exists>op \<in> set ops. \<not> encodable op)")
  case True
  then show ?thesis by (auto simp: encodeBatchOps_def encode_ops_eq)
next
  case False
  then have "encodeBatchOps ops = Inr (le_bytes 2 (length ops) @ concat (map op_bytes ops))"
    by (auto simp: encodeBatchOps_def encode_ops_eq)
  moreover have "readUIntLE 2 (le_bytes 2 (length ops) @ concat (map op_bytes ops)) 0 = length ops"
    using False by (simp add: readUIntLE_def subarray_def)
  ultimately show ?thesis
    using decode_ops_stream [of ops "le_bytes 2 (length ops)" "[]"] False
    by (simp add: decodeBatchOps_def)
qed

end
