(* ===== verification/Codec_Scan.thy ===== *)
theory Codec_Scan
  imports Codec
begin

text \<open>
  The positioned-read scanner of \<open>packages/minidb/src/codec.ts\<close>: it walks a snapshot or
  log file through a file descriptor without copying the values, computing the checksum
  and searching for the magic in chunks of one mebibyte. The main result is that it sees
  exactly what the in-memory parser of \<open>Codec\<close> sees.

  A file is its content. A positioned read returns the bytes from the position on, up to
  the number asked for and the end of the file; reading at the end returns no byte. The
  operating system may also return fewer bytes than are there; such a short read is not
  modelled (the loop that would repeat it is).
\<close>

section \<open>Positioned reads\<close>

definition fs_readSync :: "buffer \<Rightarrow> nat \<Rightarrow> nat \<Rightarrow> buffer" where
  "fs_readSync fd len pos = take len (drop pos fd)"

text \<open>The loop of \<open>readExactSync\<close> and of \<open>readAtSync\<close>: read until \<open>len\<close> bytes are in.\<close>

function readExactSync :: "buffer \<Rightarrow> nat \<Rightarrow> nat \<Rightarrow> codec_error + buffer" where
  "readExactSync fd len pos =
     (if len = 0 then Inr []
      else let r = fs_readSync fd len pos in
           if r = [] then Inl ShortRead
           else case readExactSync fd (len - length r) (pos + length r) of
                  Inl e \<Rightarrow> Inl e
                | Inr rest \<Rightarrow> Inr (r @ rest))"
  by pat_completeness auto
termination
  by (relation "measure (\<lambda>(fd, len, pos). len)") (auto simp: Let_def)

declare readExactSync.simps [simp del]

lemma readExactSync_ok:
  "pos + len \<le> length fd \<Longrightarrow> readExactSync fd len pos = Inr (subarray fd pos (pos + len))"
  by (subst readExactSync.simps)
    (auto simp: fs_readSync_def subarray_def Let_def readExactSync.simps [of _ 0])

lemma readExactSync_short:
  assumes "length fd < pos + len" "len \<noteq> 0"
  shows "readExactSync fd len pos = Inl ShortRead"
proof (cases "pos < length fd")
  case True
  let ?r = "fs_readSync fd len pos"
  have len: "length ?r = length fd - pos" using assms True by (simp add: fs_readSync_def)
  have "fs_readSync fd (len - length ?r) (pos + length ?r) = []" "len - length ?r \<noteq> 0"
    using assms True by (simp_all add: fs_readSync_def)
  then have "readExactSync fd (len - length ?r) (pos + length ?r) = Inl ShortRead"
    by (subst readExactSync.simps) simp
  moreover have "?r \<noteq> []" using len True by auto
  ultimately show ?thesis
    using assms by (subst readExactSync.simps) (simp add: Let_def)
next
  case False
  then show ?thesis
    using assms by (subst readExactSync.simps) (simp add: fs_readSync_def Let_def)
qed

section \<open>One frame reference\<close>

definition CRC_CHUNK :: nat where "CRC_CHUNK = 1048576"
definition MAGIC_SCAN_CHUNK :: nat where "MAGIC_SCAN_CHUNK = 1048576"

record frame_ref =
  r_type :: nat
  r_key :: buffer
  r_meta :: "buffer option"
  r_expireAt :: int
  r_frameOff :: nat
  r_valueOff :: nat
  r_valLen :: nat
  r_frameLen :: nat

text \<open>The checksum loop of \<open>readFrameRefAt\<close>.\<close>

function crc_chunks :: "buffer \<Rightarrow> nat \<Rightarrow> nat \<Rightarrow> u32 \<Rightarrow> codec_error + u32" where
  "crc_chunks fd crcPos crcLeft crc =
     (if crcLeft > 0 then
        let len = min CRC_CHUNK crcLeft in
        (case readExactSync fd len crcPos of
           Inl e \<Rightarrow> Inl e
         | Inr buf \<Rightarrow> crc_chunks fd (crcPos + len) (crcLeft - len) (crc32 buf crc))
      else Inr crc)"
  by pat_completeness auto
termination
  by (relation "measure (\<lambda>(fd, crcPos, crcLeft, crc). crcLeft)") (auto simp: CRC_CHUNK_def)

declare crc_chunks.simps [simp del]

lemma crc_chunks_ok:
  "crcPos + crcLeft \<le> length fd \<Longrightarrow>
     crc_chunks fd crcPos crcLeft crc = Inr (crc32 (subarray fd crcPos (crcPos + crcLeft)) crc)"
proof (induction crcLeft arbitrary: crcPos crc rule: less_induct)
  case (less crcLeft)
  show ?case
  proof (cases "crcLeft > 0")
    case False
    then show ?thesis by (subst crc_chunks.simps) (simp add: subarray_def crc32.crc_nil)
  next
    case True
    define len where "len = min CRC_CHUNK crcLeft"
    have len: "len \<le> crcLeft" by (simp add: len_def)
    have read: "readExactSync fd len crcPos = Inr (subarray fd crcPos (crcPos + len))"
      using less.prems len by (intro readExactSync_ok) simp
    have "crc_chunks fd crcPos crcLeft crc =
        crc_chunks fd (crcPos + len) (crcLeft - len) (crc32 (subarray fd crcPos (crcPos + len)) crc)"
      using True read by (subst crc_chunks.simps) (simp add: Let_def len_def [symmetric])
    also have "\<dots> = Inr (crc32 (subarray fd (crcPos + len) (crcPos + crcLeft))
        (crc32 (subarray fd crcPos (crcPos + len)) crc))"
      using less.IH [of "crcLeft - len" "crcPos + len"] less.prems len True by (simp add: len_def CRC_CHUNK_def)
    also have "\<dots> = Inr (crc32 (subarray fd crcPos (crcPos + crcLeft)) crc)"
      using subarray_split [of crcPos "crcPos + len" "crcPos + crcLeft" fd] len
      by (simp flip: crc32.crc_append)
    finally show ?thesis .
  qed
qed

definition readFrameRefAt :: "buffer \<Rightarrow> nat \<Rightarrow> nat \<Rightarrow> codec_error + frame_ref option" where
  "readFrameRefAt fd pos fsize =
     (if fsize - pos < HEADER_SIZE then Inr None
      else (case readExactSync fd HEADER_SIZE pos of Inl e \<Rightarrow> Inl e | Inr header \<Rightarrow>
        (if \<not> magic_at header 0 then Inr None
         else
          (let type = readUIntLE 1 header 2;
               keyLen = readUIntLE 2 header 4;
               valLen = readUIntLE 4 header 6;
               metaLen = readUIntLE 4 header 10;
               frameLen = HEADER_SIZE + keyLen + valLen + metaLen + CRC_SIZE
           in
           (if keyLen > MAX_KEY_LEN then Inr None
            else if frameLen < HEADER_SIZE + CRC_SIZE then Inr None
            else if fsize - pos < frameLen then Inr None
            else (case crc_chunks fd (pos + 2) (frameLen - CRC_SIZE - 2) 0 of Inl e \<Rightarrow> Inl e | Inr crc \<Rightarrow>
              (case readExactSync fd CRC_SIZE (pos + frameLen - CRC_SIZE) of Inl e \<Rightarrow> Inl e | Inr stored \<Rightarrow>
                (if readUIntLE 4 stored 0 \<noteq> unat crc then Inr None
                 else
                  (let keyStart = pos + HEADER_SIZE;
                       valueOff = keyStart + keyLen;
                       metaStart = valueOff + valLen
                   in (case readExactSync fd keyLen keyStart of Inl e \<Rightarrow> Inl e | Inr key \<Rightarrow>
                      (case (if metaLen \<noteq> 0
                             then (case readExactSync fd metaLen metaStart of
                                     Inl e \<Rightarrow> Inl e | Inr m \<Rightarrow> Inr (Some m))
                             else Inr None) of
                         Inl e \<Rightarrow> Inl e
                       | Inr meta \<Rightarrow>
                           Inr (Some \<lparr>r_type = type, r_key = key, r_meta = meta,
                                  r_expireAt = js_Number (readBigInt64LE header 14),
                                  r_frameOff = pos, r_valueOff = valueOff, r_valLen = valLen,
                                  r_frameLen = frameLen\<rparr>))))))))))))"

text \<open>The frame a reference stands for: the value is read from the file.\<close>

definition frame_of_ref :: "buffer \<Rightarrow> frame_ref \<Rightarrow> frame" where
  "frame_of_ref fd r =
     \<lparr>f_type = r_type r, f_key = r_key r,
      f_value = subarray fd (r_valueOff r) (r_valueOff r + r_valLen r),
      f_meta = r_meta r, f_expireAt = r_expireAt r\<rparr>"

section \<open>Finding the next magic\<close>

function findMagicSync :: "buffer \<Rightarrow> nat \<Rightarrow> nat \<Rightarrow> nat option" where
  "findMagicSync fd pos fsize =
     (if pos < fsize then
        (let len = min MAGIC_SCAN_CHUNK (fsize - pos);
             buf = fs_readSync fd len pos;
             n = length buf
         in if n = 0 then None
            else (case indexOfMagic buf 0 of
                    Some idx \<Rightarrow> Some (pos + idx)
                  | None \<Rightarrow> if n < length MAGIC then None
                            else findMagicSync fd (pos + n - (length MAGIC - 1)) fsize))
      else None)"
  by pat_completeness auto
termination
  by (relation "measure (\<lambda>(fd, pos, fsize). fsize - pos)") (auto simp: Let_def)

declare findMagicSync.simps [simp del]

lemma magic_at_bound: "magic_at buf i \<Longrightarrow> i + 2 \<le> length buf"
proof -
  assume "magic_at buf i"
  then have "length (subarray buf i (i + 2)) = 2" by (simp add: magic_at_def)
  then show ?thesis by simp
qed

lemma indexOfMagic_iff:
  "indexOfMagic buf from = Some i \<longleftrightarrow> from \<le> i \<and> magic_at buf i \<and> (\<forall>j. from \<le> j \<and> j < i \<longrightarrow> \<not> magic_at buf j)"
proof
  assume "indexOfMagic buf from = Some i"
  then obtain k where k: "k < length [from..<length buf - 1]" "magic_at buf ([from..<length buf - 1] ! k)"
    "i = [from..<length buf - 1] ! k" "\<forall>j<k. \<not> magic_at buf ([from..<length buf - 1] ! j)"
    unfolding indexOfMagic_def find_Some_iff by auto
  have i: "i = from + k" using k(1,3) by simp
  have "\<not> magic_at buf j" if "from \<le> j" "j < i" for j
    using k(1) k(4) [rule_format, of "j - from"] that i by simp
  then show "from \<le> i \<and> magic_at buf i \<and> (\<forall>j. from \<le> j \<and> j < i \<longrightarrow> \<not> magic_at buf j)"
    using k i by simp
next
  assume i: "from \<le> i \<and> magic_at buf i \<and> (\<forall>j. from \<le> j \<and> j < i \<longrightarrow> \<not> magic_at buf j)"
  then have "i < length buf - 1" using magic_at_bound [of buf i] by simp
  then show "indexOfMagic buf from = Some i"
    unfolding indexOfMagic_def find_Some_iff using i by (intro exI [of _ "i - from"]) auto
qed

lemma indexOfMagic_None: "indexOfMagic buf from = None \<longleftrightarrow> (\<forall>i. from \<le> i \<longrightarrow> \<not> magic_at buf i)"
proof
  assume n: "indexOfMagic buf from = None"
  show "\<forall>i. from \<le> i \<longrightarrow> \<not> magic_at buf i"
  proof (intro allI impI notI)
    fix i assume "from \<le> i" "magic_at buf i"
    moreover have "i < length buf - 1" using magic_at_bound [OF \<open>magic_at buf i\<close>] by simp
    ultimately show False using n unfolding indexOfMagic_def find_None_iff by auto
  qed
next
  assume "\<forall>i. from \<le> i \<longrightarrow> \<not> magic_at buf i"
  then show "indexOfMagic buf from = None" unfolding indexOfMagic_def find_None_iff by simp
qed

lemma magic_at_chunk:
  "magic_at (take len (drop pos fd)) i \<longleftrightarrow> i + 2 \<le> len \<and> magic_at fd (pos + i)"
proof (cases "i + 2 \<le> len")
  case True
  then have "take 2 (drop i (take len (drop pos fd))) = take 2 (drop (pos + i) fd)"
    by (simp add: drop_take min_def add.commute)
  then show ?thesis using True by (simp add: magic_at_def subarray_def)
next
  case False
  then show ?thesis using magic_at_bound [of "take len (drop pos fd)" i] by auto
qed

lemma findMagicSync_eq: "findMagicSync fd pos (length fd) = indexOfMagic fd pos"
proof (induction "length fd - pos" arbitrary: pos rule: less_induct)
  case less
  show ?case
  proof (cases "pos < length fd")
    case False
    then have "\<not> magic_at fd i" if "pos \<le> i" for i
      using magic_at_bound [of fd i] that by auto
    then have "indexOfMagic fd pos = None" by (simp add: indexOfMagic_None)
    then show ?thesis using False by (subst findMagicSync.simps) simp
  next
    case True
    define len where "len = min MAGIC_SCAN_CHUNK (length fd - pos)"
    define buf where "buf = fs_readSync fd len pos"
    have len: "length buf = len" "0 < len" "len \<le> length fd - pos"
      using True by (auto simp: buf_def len_def fs_readSync_def MAGIC_SCAN_CHUNK_def)
    have chunk: "magic_at buf i \<longleftrightarrow> i + 2 \<le> len \<and> magic_at fd (pos + i)" for i
      unfolding buf_def fs_readSync_def by (rule magic_at_chunk)
    have unfold: "findMagicSync fd pos (length fd) =
       (case indexOfMagic buf 0 of Some idx \<Rightarrow> Some (pos + idx)
        | None \<Rightarrow> if len < 2 then None else findMagicSync fd (pos + len - 1) (length fd))"
    proof -
      have "buf \<noteq> []" using len by auto
      then show ?thesis
        using True len(1)
        by (subst findMagicSync.simps) (simp add: Let_def flip: len_def buf_def split: option.split)
    qed
    show ?thesis
    proof (cases "indexOfMagic buf 0")
      case (Some idx)
      then have idx: "magic_at fd (pos + idx)" "\<forall>j<idx. \<not> magic_at buf j" "idx + 2 \<le> len"
        by (auto simp: indexOfMagic_iff chunk)
      have "\<not> magic_at fd j" if "pos \<le> j" "j < pos + idx" for j
        using idx(2,3) chunk [of "j - pos"] that by auto
      then have "indexOfMagic fd pos = Some (pos + idx)"
        using idx(1) by (auto simp: indexOfMagic_iff)
      then show ?thesis using unfold Some by simp
    next
      case None
      then have no: "\<not> magic_at fd j" if "pos \<le> j" "j + 2 \<le> pos + len" for j
        using chunk [of "j - pos"] that by (auto simp: indexOfMagic_None)
      show ?thesis
      proof (cases "len < 2")
        case True
        then have "length fd = pos + 1"
          using len(2,3) by (auto simp: len_def MAGIC_SCAN_CHUNK_def)
        then have "\<not> magic_at fd j" if "pos \<le> j" for j
          using magic_at_bound [of fd j] that by auto
        then have "indexOfMagic fd pos = None" by (simp add: indexOfMagic_None)
        then show ?thesis using unfold None True by simp
      next
        case False
        have "findMagicSync fd (pos + len - 1) (length fd) = indexOfMagic fd (pos + len - 1)"
          by (rule less.hyps) (use False \<open>pos < length fd\<close> in simp)
        also have "\<dots> = indexOfMagic fd pos"
        proof (cases "indexOfMagic fd (pos + len - 1)")
          case None
          then have "\<not> magic_at fd j" if "pos \<le> j" for j
            using no [of j] that by (cases "j + 2 \<le> pos + len") (auto simp: indexOfMagic_None)
          then have "indexOfMagic fd pos = None" by (simp add: indexOfMagic_None)
          then show ?thesis using None by simp
        next
          case (Some i)
          then have "\<not> magic_at fd j" if "pos \<le> j" "j < i" for j
            using no [of j] that by (cases "j + 2 \<le> pos + len") (auto simp: indexOfMagic_iff)
          moreover have "pos \<le> i" "magic_at fd i"
            using Some len(2) by (auto simp: indexOfMagic_iff)
          ultimately have "indexOfMagic fd pos = Some i" by (simp add: indexOfMagic_iff)
          then show ?thesis using Some by simp
        qed
        finally show ?thesis using unfold None False by simp
      qed
    qed
  qed
qed

lemma findMagicSync_Some:
  "findMagicSync fd pos (length fd) = Some s \<Longrightarrow> pos \<le> s \<and> s < length fd - 1"
  by (auto simp: findMagicSync_eq dest: indexOfMagic_Some)

section \<open>The reference reader sees what the in-memory reader sees\<close>

text \<open>The reference to the frame whose header starts at \<open>pos\<close>.\<close>

definition ref_at :: "buffer \<Rightarrow> nat \<Rightarrow> frame_ref" where
  "ref_at fd pos =
     \<lparr>r_type = f_type (frame_at fd pos), r_key = f_key (frame_at fd pos), r_meta = f_meta (frame_at fd pos),
      r_expireAt = f_expireAt (frame_at fd pos), r_frameOff = pos,
      r_valueOff = pos + HEADER_SIZE + readUIntLE 2 fd (pos + 4), r_valLen = readUIntLE 4 fd (pos + 6),
      r_frameLen = frame_len_at fd pos\<rparr>"

lemma frame_of_ref_at [simp]: "frame_of_ref fd (ref_at fd pos) = frame_at fd pos"
  by (simp add: frame_of_ref_def ref_at_def frame_at_def Let_def)

lemma subarray_subarray:
  "i \<le> j \<Longrightarrow> p + j \<le> q \<Longrightarrow> subarray (subarray xs p q) i j = subarray xs (p + i) (p + j)"
  by (simp add: subarray_def drop_take min_def add.commute)

lemma header_fields:
  "i + k \<le> HEADER_SIZE \<Longrightarrow> readUIntLE k (subarray fd pos (pos + HEADER_SIZE)) i = readUIntLE k fd (pos + i)"
  "i + 8 \<le> HEADER_SIZE \<Longrightarrow> readBigInt64LE (subarray fd pos (pos + HEADER_SIZE)) i = readBigInt64LE fd (pos + i)"
  "magic_at (subarray fd pos (pos + HEADER_SIZE)) 0 = magic_at fd pos"
  by (simp_all add: readUIntLE_def readBigInt64LE_def magic_at_def subarray_subarray add.assoc HEADER_SIZE_def)

lemma readUIntLE_window:
  "readUIntLE k (subarray fd p (p + k)) 0 = readUIntLE k fd p"
  by (simp add: readUIntLE_def subarray_subarray)

lemma readUIntLE_bound: "readUIntLE k buf pos < 256 ^ k"
proof -
  have "readUIntLE k buf pos < 256 ^ length (subarray buf pos (pos + k))"
    unfolding readUIntLE_def by (rule le_nat_bound)
  also have "\<dots> \<le> 256 ^ k" by (rule power_increasing) simp_all
  finally show ?thesis .
qed

lemma readFrameRefAt_eq:
  assumes "pos \<le> length fd"
  shows "readFrameRefAt fd pos (length fd) =
    Inr (if readFrameAt fd pos = None then None else Some (ref_at fd pos))"
proof (cases "length fd - pos < HEADER_SIZE")
  case True
  then show ?thesis by (simp add: readFrameRefAt_def readFrameAt_def)
next
  case long: False
  let ?n = "frame_len_at fd pos"
  have header: "readExactSync fd HEADER_SIZE pos = Inr (subarray fd pos (pos + HEADER_SIZE))"
    using long assms by (intro readExactSync_ok) simp
  have fields: "readUIntLE 1 (subarray fd pos (pos + HEADER_SIZE)) 2 = readUIntLE 1 fd (pos + 2)"
    "readUIntLE 2 (subarray fd pos (pos + HEADER_SIZE)) 4 = readUIntLE 2 fd (pos + 4)"
    "readUIntLE 4 (subarray fd pos (pos + HEADER_SIZE)) 6 = readUIntLE 4 fd (pos + 6)"
    "readUIntLE 4 (subarray fd pos (pos + HEADER_SIZE)) 10 = readUIntLE 4 fd (pos + 10)"
    "readBigInt64LE (subarray fd pos (pos + HEADER_SIZE)) 14 = readBigInt64LE fd (pos + 14)"
    by (rule header_fields; simp add: HEADER_SIZE_def)+
  have n: "HEADER_SIZE + readUIntLE 2 fd (pos + 4) + readUIntLE 4 fd (pos + 6)
      + readUIntLE 4 fd (pos + 10) + CRC_SIZE = ?n" by (simp add: frame_len_at_def)
  show ?thesis
  proof (cases "\<not> magic_at fd pos \<or> length fd - pos < ?n")
    case True
    then show ?thesis
      using long
      by (auto simp: readFrameRefAt_def readFrameAt_def header fields header_fields(3) n Let_def
          simp del: One_nat_def)
  next
    case False
    have fits: "pos + ?n \<le> length fd" using False assms by auto
    have crc: "crc_chunks fd (pos + 2) (?n - CRC_SIZE - 2) 0
        = Inr (crc32 (subarray fd (pos + 2) (pos + ?n - CRC_SIZE)) 0)"
      using crc_chunks_ok [of "pos + 2" "?n - CRC_SIZE - 2" fd 0] fits frame_len_ge [of fd pos]
      by (simp add: CRC_SIZE_def)
    have stored: "readExactSync fd CRC_SIZE (pos + ?n - CRC_SIZE)
        = Inr (subarray fd (pos + ?n - CRC_SIZE) (pos + ?n - CRC_SIZE + CRC_SIZE))"
      using fits frame_len_ge [of fd pos] by (intro readExactSync_ok) (simp add: CRC_SIZE_def)
    have key: "readExactSync fd (readUIntLE 2 fd (pos + 4)) (pos + HEADER_SIZE)
        = Inr (subarray fd (pos + HEADER_SIZE) (pos + HEADER_SIZE + readUIntLE 2 fd (pos + 4)))"
      using fits n by (intro readExactSync_ok) simp
    have meta: "readExactSync fd (readUIntLE 4 fd (pos + 10))
          (pos + HEADER_SIZE + readUIntLE 2 fd (pos + 4) + readUIntLE 4 fd (pos + 6))
        = Inr (subarray fd (pos + HEADER_SIZE + readUIntLE 2 fd (pos + 4) + readUIntLE 4 fd (pos + 6))
            (pos + HEADER_SIZE + readUIntLE 2 fd (pos + 4) + readUIntLE 4 fd (pos + 6) + readUIntLE 4 fd (pos + 10)))"
      using fits n by (intro readExactSync_ok) simp
    have guards: "\<not> readUIntLE 2 fd (pos + 4) > MAX_KEY_LEN" "\<not> ?n < HEADER_SIZE + CRC_SIZE"
      using readUIntLE_bound [of 2 fd "pos + 4"] frame_len_ge [of fd pos] by (simp_all add: codec_consts)
    have window: "readUIntLE 4 (subarray fd (pos + ?n - CRC_SIZE) (pos + ?n)) 0
        = readUIntLE 4 fd (pos + ?n - CRC_SIZE)"
      using readUIntLE_window [of 4 fd "pos + ?n - 4"] frame_len_ge [of fd pos] by (simp add: CRC_SIZE_def)
    have n0: "readUIntLE 4 fd (pos + 10) = 0 \<Longrightarrow> HEADER_SIZE + readUIntLE 2 fd (pos + 4)
        + readUIntLE 4 fd (pos + 6) + CRC_SIZE = ?n" using n by simp
    show ?thesis
      using False long guards
      by (simp add: readFrameRefAt_def readFrameAt_def Let_def header crc stored key meta fields window n n0
          header_fields(3) ref_at_def frame_at_def crc_ok_at_def
          del: One_nat_def diff_diff_left)
  qed
qed

section \<open>Scanning a file\<close>

function resync_scan_fd :: "buffer \<Rightarrow> nat \<Rightarrow> codec_error + nat option" where
  "resync_scan_fd fd scan =
     (if scan < length fd - 1 then
        (case findMagicSync fd scan (length fd) of
           None \<Rightarrow> Inr None
         | Some s \<Rightarrow>
             (case readFrameRefAt fd s (length fd) of
                Inl e \<Rightarrow> Inl e
              | Inr (Some _) \<Rightarrow> Inr (Some s)
              | Inr None \<Rightarrow> resync_scan_fd fd (s + 1)))
      else Inr None)"
  by pat_completeness auto
termination
  by (relation "measure (\<lambda>(fd, scan). length fd - scan)") (auto dest!: findMagicSync_Some)

declare resync_scan_fd.simps [simp del]

lemma resync_scan_fd_eq: "resync_scan_fd fd scan = Inr (resync_scan fd scan)"
proof (induction fd scan rule: resync_scan_fd.induct)
  case (1 fd scan)
  show ?case
  proof (cases "scan < length fd - 1")
    case False
    then show ?thesis by (simp add: resync_scan_fd.simps [of fd] resync_scan.simps [of fd])
  next
    case scan: True
    show ?thesis
    proof (cases "indexOfMagic fd scan")
      case None
      then show ?thesis
        using scan by (simp add: resync_scan_fd.simps [of fd] resync_scan.simps [of fd] findMagicSync_eq)
    next
      case (Some s)
      then have "s \<le> length fd" by (auto dest: indexOfMagic_Some)
      then have read: "readFrameRefAt fd s (length fd) =
          Inr (if readFrameAt fd s = None then None else Some (ref_at fd s))"
        by (rule readFrameRefAt_eq)
      show ?thesis
      proof (cases "readFrameAt fd s = None")
        case True
        have "resync_scan_fd fd scan = resync_scan_fd fd (s + 1)"
          using scan Some True read by (subst resync_scan_fd.simps) (simp add: findMagicSync_eq)
        also have "\<dots> = Inr (resync_scan fd (s + 1))"
          using "1" [OF scan, of s None] scan Some True read by (simp add: findMagicSync_eq)
        also have "\<dots> = Inr (resync_scan fd scan)"
          using scan Some True by (subst (2) resync_scan.simps) simp
        finally show ?thesis .
      next
        case False
        then show ?thesis
          using scan Some read
          by (auto simp: resync_scan_fd.simps [of fd scan] resync_scan.simps [of fd scan] findMagicSync_eq)
      qed
    qed
  qed
qed

lemma readFrameRefAt_Some:
  "readFrameRefAt fd pos (length fd) = Inr (Some r) \<Longrightarrow> pos < length fd \<Longrightarrow> pos < length fd \<and> r_frameLen r \<ge> 26"
  using frame_len_ge [of fd pos] by (auto simp: readFrameRefAt_eq ref_at_def split: if_splits)

function scan_loop :: "corrupt_mode \<Rightarrow> buffer \<Rightarrow> nat \<Rightarrow> codec_error + (frame_ref list \<times> range list \<times> nat)" where
  "scan_loop mode fd pos =
     (if pos < length fd then
        (case readFrameRefAt fd pos (length fd) of
           Inl e \<Rightarrow> Inl e
         | Inr (Some r) \<Rightarrow>
             (case scan_loop mode fd (pos + r_frameLen r) of
                Inl e \<Rightarrow> Inl e
              | Inr (rs, cr, eof) \<Rightarrow> Inr (r # rs, cr, eof))
         | Inr None \<Rightarrow>
             (if mode = Strict then Inr ([], [(pos, length fd)], pos)
              else (case resync_scan_fd fd (pos + 1) of
                      Inl e \<Rightarrow> Inl e
                    | Inr None \<Rightarrow> Inr ([], [(pos, length fd)], pos)
                    | Inr (Some resume) \<Rightarrow>
                        (case scan_loop mode fd resume of
                           Inl e \<Rightarrow> Inl e
                         | Inr (rs, cr, eof) \<Rightarrow> Inr (rs, (pos, resume) # cr, eof)))))
      else Inr ([], [], pos))"
  by pat_completeness auto
termination
  by (relation "measure (\<lambda>(mode, fd, pos). length fd - pos)")
    (auto simp: resync_scan_fd_eq dest: readFrameRefAt_Some dest!: resync_scan_Some)

declare scan_loop.simps [simp del]

definition scanFrameRefsFd ::
    "buffer \<Rightarrow> corrupt_mode \<Rightarrow> nat \<Rightarrow> codec_error + (frame_ref list \<times> range list \<times> nat)" where
  "scanFrameRefsFd fd onCorrupt startOffset = scan_loop onCorrupt fd startOffset"

lemma scan_loop_eq:
  "\<exists>refs. scan_loop mode fd pos = Inr (refs, snd (parse_loop mode fd pos))
     \<and> map (frame_of_ref fd) refs = fst (parse_loop mode fd pos)"
proof (induction mode fd pos rule: parse_loop.induct)
  case (1 mode fd pos)
  show ?case
  proof (cases "pos < length fd")
    case False
    then show ?thesis by (simp add: scan_loop.simps [of mode fd pos] parse_loop.simps [of mode fd pos])
  next
    case pos: True
    then have read: "readFrameRefAt fd pos (length fd) =
        Inr (if readFrameAt fd pos = None then None else Some (ref_at fd pos))"
      by (intro readFrameRefAt_eq) simp
    note unfold = scan_loop.simps [of mode fd pos] parse_loop.simps [of mode fd pos] read resync_scan_fd_eq
    show ?thesis
    proof (cases "readFrameAt fd pos")
      case (Some p)
      obtain f n where p: "p = (f, n)" by (cases p)
      have fn: "f = frame_at fd pos" "n = frame_len_at fd pos"
        using readFrameAt_Some Some p by auto
      obtain refs where "scan_loop mode fd (pos + n) = Inr (refs, snd (parse_loop mode fd (pos + n)))"
          "map (frame_of_ref fd) refs = fst (parse_loop mode fd (pos + n))"
        using "1.IH"(2) [OF pos Some p [symmetric]] by blast
      moreover have "r_frameLen (ref_at fd pos) = n" by (simp add: ref_at_def fn)
      ultimately show ?thesis
        using pos Some p fn(1)
        by (intro exI [of _ "ref_at fd pos # refs"]) (simp add: unfold split: prod.split)
    next
      case None
      show ?thesis
      proof (cases "mode = Strict \<or> resync_scan fd (pos + 1) = None")
        case True
        then show ?thesis using pos None by (auto simp: unfold)
      next
        case False
        then obtain r where r: "resync_scan fd (pos + 1) = Some r" by auto
        obtain refs where "scan_loop mode fd r = Inr (refs, snd (parse_loop mode fd r))"
            "map (frame_of_ref fd) refs = fst (parse_loop mode fd r)"
          using "1.IH"(1) [OF pos None] False r by auto
        then show ?thesis
          using pos None False r
          by (intro exI [of _ refs]) (auto simp: unfold split: prod.split)
      qed
    qed
  qed
qed

section \<open>References into a batch\<close>

record batch_op_ref =
  o_type :: nat
  o_key :: buffer
  o_valueOff :: nat
  o_valLen :: nat
  o_meta :: "buffer option"
  o_expireAt :: int

fun scan_ops :: "nat \<Rightarrow> buffer \<Rightarrow> nat \<Rightarrow> nat \<Rightarrow> codec_error + batch_op_ref list" where
  "scan_ops 0 body bodyOff off = Inr []"
| "scan_ops (Suc n) body bodyOff off =
     (if off + SUB_HEADER > length body then Inl BatchHeaderTruncated
      else
        let type = readUIntLE 1 body off;
            keyLen = readUIntLE 2 body (off + 1);
            valLen = readUIntLE 4 body (off + 3);
            metaLen = readUIntLE 4 body (off + 7);
            expireAt = js_Number (readBigInt64LE body (off + 11));
            p = off + 19
        in if p + keyLen + valLen + metaLen > length body then Inl BatchPayloadTruncated
           else
             let q = p + keyLen + valLen;
                 op = \<lparr>o_type = type, o_key = subarray body p (p + keyLen),
                       o_valueOff = bodyOff + p + keyLen, o_valLen = valLen,
                       o_meta = (if metaLen \<noteq> 0 then Some (subarray body q (q + metaLen)) else None),
                       o_expireAt = expireAt\<rparr>
             in case scan_ops n body bodyOff (q + metaLen) of
                  Inl e \<Rightarrow> Inl e
                | Inr ops \<Rightarrow> Inr (op # ops))"

definition scanBatchOpRefs :: "buffer \<Rightarrow> nat \<Rightarrow> codec_error + batch_op_ref list" where
  "scanBatchOpRefs body bodyOff =
     (if length body < 2 then Inr [] else scan_ops (readUIntLE 2 body 0) body bodyOff 2)"

text \<open>The operation a reference stands for: the value is read from the file.\<close>

definition op_of_ref :: "buffer \<Rightarrow> batch_op_ref \<Rightarrow> batch_op" where
  "op_of_ref fd r =
     \<lparr>b_type = o_type r, b_key = o_key r,
      b_value = Some (subarray fd (o_valueOff r) (o_valueOff r + o_valLen r)),
      b_meta = o_meta r, b_expireAt = o_expireAt r\<rparr>"

lemma scan_ops_eq:
  "map_sum id (map (op_of_ref (pre @ body @ post))) (scan_ops n body (length pre) off) = decode_ops n body off"
proof (induction n arbitrary: off)
  case 0
  show ?case by simp
next
  case (Suc n)
  have inside: "subarray (pre @ body @ post) (length pre + a) (length pre + b) = subarray body a b"
    if "b \<le> length body" for a b
    using that by (simp only: subarray_shift) (simp add: subarray_append_right)
  define q where "q = off + 19 + readUIntLE 2 body (off + 1) + readUIntLE 4 body (off + 3)
     + readUIntLE 4 body (off + 7)"
  show ?case
    using Suc [of q]
    by (cases "scan_ops n body (length pre) q")
      (auto simp: Let_def op_of_ref_def inside add.assoc q_def split: sum.splits)
qed

section \<open>Properties\<close>

text \<open>C15: The file scanner sees exactly what the in-memory parser sees, in both corruption modes:
  on every file content it ends without a short read, reports the same corrupt ranges and
  the same end offset, and the references it returns denote the frames \<open>parseBuffer\<close>
  returns, in order. So the chunked checksum and the chunked search for the magic (whose
  chunks overlap by one byte) lose nothing.\<close>

theorem scanFrameRefsFd_eq_parseBuffer:
  "\<exists>refs. scanFrameRefsFd fd mode 0 = Inr (refs, snd (parseBuffer fd mode))
     \<and> map (frame_of_ref fd) refs = fst (parseBuffer fd mode)"
  unfolding scanFrameRefsFd_def parseBuffer_def by (rule scan_loop_eq)

text \<open>Scanning a batch body for references agrees with decoding it: with the body at
  offset \<open>bodyOff\<close> of the file, the same errors are raised, and the references denote the
  decoded operations, their values read at the absolute offsets.\<close>

theorem scanBatchOpRefs_eq_decode:
  "map_sum id (map (op_of_ref (pre @ body @ post))) (scanBatchOpRefs body (length pre)) = decodeBatchOps body"
  unfolding scanBatchOpRefs_def decodeBatchOps_def by (simp add: scan_ops_eq)

end
