(* ===== verification/Js_Map.thy ===== *)
theory Js_Map
  imports Prelude
begin

text \<open>
  JavaScript's \<open>Map\<close>: an insertion-ordered association list. Setting an existing key keeps
  its place, a new key goes last, iteration is in list order. The components that keep a
  \<open>Map\<close> use these operations; what they rely on is the locale \<open>ordered_map\<close>.
\<close>

type_synonym ('k, 'v) js_map = "('k \<times> 'v) list"

definition jm_get :: "('k, 'v) js_map \<Rightarrow> 'k \<Rightarrow> 'v option" where
  "jm_get m k = map_of m k"

fun jm_set :: "('k, 'v) js_map \<Rightarrow> 'k \<Rightarrow> 'v \<Rightarrow> ('k, 'v) js_map" where
  "jm_set [] k v = [(k, v)]"
| "jm_set ((a, b) # m) k v = (if a = k then (a, v) # m else (a, b) # jm_set m k v)"

definition jm_delete :: "('k, 'v) js_map \<Rightarrow> 'k \<Rightarrow> ('k, 'v) js_map" where
  "jm_delete m k = filter (\<lambda>(a, b). a \<noteq> k) m"

definition jm_has :: "('k, 'v) js_map \<Rightarrow> 'k \<Rightarrow> bool" where
  "jm_has m k \<longleftrightarrow> jm_get m k \<noteq> None"

definition jm_keys :: "('k, 'v) js_map \<Rightarrow> 'k list" where
  "jm_keys m = map fst m"

text \<open>A list that represents a \<open>Map\<close> has each key once.\<close>

definition jm_ok :: "('k, 'v) js_map \<Rightarrow> bool" where
  "jm_ok m \<longleftrightarrow> distinct (map fst m)"

lemma jm_keys_set: "jm_keys (jm_set m k v) = (if k \<in> set (jm_keys m) then jm_keys m else jm_keys m @ [k])"
  by (induction m) (force simp: jm_keys_def)+

lemma jm_get_None_iff: "jm_get m k = None \<longleftrightarrow> k \<notin> set (jm_keys m)"
  by (simp add: jm_get_def jm_keys_def map_of_eq_None_iff)

lemma jm_get_in_set: "jm_get m k = Some v \<Longrightarrow> (k, v) \<in> set m"
  by (simp add: jm_get_def map_of_SomeD)

lemma jm_get_iff: "jm_ok m \<Longrightarrow> jm_get m k = Some v \<longleftrightarrow> (k, v) \<in> set m"
  by (simp add: jm_get_def jm_ok_def)

lemma jm_delete_absent: "jm_get m k = None \<Longrightarrow> jm_delete m k = m"
  by (force simp: jm_get_None_iff jm_keys_def jm_delete_def filter_id_conv)

lemma set_jm_delete: "set (jm_delete m k) = {(a, b) \<in> set m. a \<noteq> k}"
  by (auto simp: jm_delete_def)

lemma set_jm_set: "jm_ok m \<Longrightarrow> set (jm_set m k v) = {(a, b) \<in> set m. a \<noteq> k} \<union> {(k, v)}"
  by (induction m) (force simp: jm_ok_def)+

text \<open>Replacing the record of a key in a sum over the map.\<close>

lemma sum_list_jm_delete:
  fixes f :: "'k \<times> 'v \<Rightarrow> int"
  shows "jm_ok m \<Longrightarrow> jm_get m k = Some v \<Longrightarrow>
    sum_list (map f (jm_delete m k)) = sum_list (map f m) - f (k, v)"
proof (induction m)
  case (Cons p m)
  obtain a b where p: "p = (a, b)" by (cases p)
  show ?case
  proof (cases "a = k")
    case True
    then have "jm_get m k = None"
      using Cons.prems by (simp add: p jm_ok_def jm_get_None_iff jm_keys_def)
    then show ?thesis
      using Cons.prems True p jm_delete_absent [of m k] by (simp add: jm_delete_def jm_get_def)
  next
    case False
    then show ?thesis
      using Cons p by (simp add: jm_delete_def jm_get_def jm_ok_def)
  qed
qed (simp add: jm_get_def)

lemma sum_list_jm_set:
  fixes f :: "'k \<times> 'v \<Rightarrow> int"
  shows "jm_ok m \<Longrightarrow>
    sum_list (map f (jm_set m k v))
    = sum_list (map f m) - (case jm_get m k of None \<Rightarrow> 0 | Some w \<Rightarrow> f (k, w)) + f (k, v)"
  by (induction m) (auto simp: jm_ok_def jm_get_def)

lemma length_jm_set: "length (jm_set m k v) = (if jm_has m k then length m else length m + 1)"
  by (induction m) (auto simp: jm_has_def jm_get_def)

section \<open>What clients of a \<open>Map\<close> rely on\<close>

locale ordered_map =
  fixes get :: "'m \<Rightarrow> 'k \<Rightarrow> 'v option"
    and set :: "'m \<Rightarrow> 'k \<Rightarrow> 'v \<Rightarrow> 'm"
    and delete :: "'m \<Rightarrow> 'k \<Rightarrow> 'm"
    and keys :: "'m \<Rightarrow> 'k list"
    and ok :: "'m \<Rightarrow> bool"
  assumes get_set: "get (set m k v) k' = (if k' = k then Some v else get m k')"
    and get_delete: "get (delete m k) k' = (if k' = k then None else get m k')"
    and keys_get: "get m k \<noteq> None \<longleftrightarrow> k \<in> List.set (keys m)"
    and keys_set: "keys (set m k v) = (if get m k = None then keys m @ [k] else keys m)"
    and keys_delete: "keys (delete m k) = filter (\<lambda>a. a \<noteq> k) (keys m)"
    and ok_keys: "ok m \<longleftrightarrow> distinct (keys m)"
begin

lemma ok_set: "ok m \<Longrightarrow> ok (set m k v)"
  by (auto simp: ok_keys keys_set keys_get [symmetric])

lemma ok_delete: "ok m \<Longrightarrow> ok (delete m k)"
  by (simp add: ok_keys keys_delete)

lemma keys_set_delete: "get m k \<noteq> None \<Longrightarrow> ok m \<Longrightarrow>
    keys (set (delete m k) k v) = filter (\<lambda>a. a \<noteq> k) (keys m) @ [k]"
  by (simp add: keys_set get_delete keys_delete)

lemma set_keys_set: "List.set (keys (set m k v)) = insert k (List.set (keys m))"
  using keys_get [of m k] by (auto simp: keys_set)

lemma set_keys_delete: "List.set (keys (delete m k)) = List.set (keys m) - {k}"
  by (auto simp: keys_delete)

lemma get_set_eq: "get (set m k v) = (get m)(k \<mapsto> v)"
  by (rule ext) (simp add: get_set)

lemma get_delete_eq: "get (delete m k) = (get m)(k := None)"
  by (rule ext) (simp add: get_delete)

lemma card_keys: "ok m \<Longrightarrow> card (dom (get m)) = length (keys m)"
proof -
  assume "ok m"
  have "dom (get m) = List.set (keys m)" using keys_get by (auto simp: dom_def)
  then show ?thesis using \<open>ok m\<close> by (simp add: ok_keys distinct_card)
qed

end

lemma jm_get_set: "jm_get (jm_set m k v) k' = (if k' = k then Some v else jm_get m k')"
  by (induction m) (auto simp: jm_get_def)

lemma jm_get_delete: "jm_get (jm_delete m k) k' = (if k' = k then None else jm_get m k')"
  by (induction m) (auto simp: jm_get_def jm_delete_def)

interpretation jm: ordered_map jm_get jm_set jm_delete jm_keys jm_ok
proof (unfold_locales, goal_cases)
  case (3 m k)
  show ?case by (simp add: jm_get_None_iff)
next
  case (4 m k v)
  show ?case by (simp add: jm_keys_set jm_get_None_iff)
next
  case (5 m k)
  show ?case by (induction m) (auto simp: jm_keys_def jm_delete_def)
next
  case (6 m)
  show ?case by (simp add: jm_ok_def jm_keys_def)
qed (simp_all add: jm_get_set jm_get_delete)

lemmas jm_simps = jm.get_set_eq jm.get_delete_eq jm_get_set jm_get_delete
lemmas jm_oks = jm.ok_set jm.ok_delete

end
