(* ===== verification/Min_Heap.thy ===== *)
theory Min_Heap
  imports Prelude "HOL-Library.Multiset"
begin

text \<open>
  The binary heap \<open>MinHeap\<close> of \<open>packages/minidb/src/store.ts\<close>, kept in an array: entry
  \<open>i\<close> has its parent at \<open>(i - 1) >> 1\<close>. The contract its client (the expiry loop of the
  store) relies on is the locale \<open>min_queue\<close>: pushing adds the entry, popping removes an
  entry with the least time.
\<close>

record heap_entry =
  he_t :: int
  he_k :: string
  he_seq :: nat

type_synonym min_heap = "heap_entry list"

definition heap_size :: "min_heap \<Rightarrow> nat" where
  "heap_size a = length a"

definition heap_clear :: min_heap where
  "heap_clear = []"

definition heap_peek :: "min_heap \<Rightarrow> heap_entry option" where
  "heap_peek a = (case a of [] \<Rightarrow> None | x # _ \<Rightarrow> Some x)"

definition swap :: "'a list \<Rightarrow> nat \<Rightarrow> nat \<Rightarrow> 'a list" where
  "swap a p i = a[p := a ! i, i := a ! p]"

text \<open>The loop of \<open>push\<close>.\<close>

fun sift_up :: "min_heap \<Rightarrow> nat \<Rightarrow> min_heap" where
  "sift_up a i =
     (if i > 0 then
        let p = (i - 1) div 2 in
        if he_t (a ! p) \<le> he_t (a ! i) then a else sift_up (swap a p i) p
      else a)"

declare sift_up.simps [simp del]

definition heap_push :: "min_heap \<Rightarrow> heap_entry \<Rightarrow> min_heap" where
  "heap_push a item = sift_up (a @ [item]) (length (a @ [item]) - 1)"

text \<open>The loop of \<open>pop\<close>: the smaller child, if it is smaller than the entry at \<open>i\<close>.\<close>

definition smallest_child :: "min_heap \<Rightarrow> nat \<Rightarrow> nat" where
  "smallest_child a i =
     (let s = i; l = 2 * i + 1; r = l + 1;
          s = (if l < length a \<and> he_t (a ! l) < he_t (a ! s) then l else s);
          s = (if r < length a \<and> he_t (a ! r) < he_t (a ! s) then r else s)
      in s)"

lemma smallest_child_cases:
  "smallest_child a i = i \<or> (i < smallest_child a i \<and> smallest_child a i < length a)"
  by (auto simp: smallest_child_def Let_def)

lemma length_swap [simp]: "length (swap a p i) = length a"
  by (simp add: swap_def)

function sift_down :: "min_heap \<Rightarrow> nat \<Rightarrow> min_heap" where
  "sift_down a i =
     (let s = smallest_child a i in
      if s = i then a else sift_down (swap a s i) s)"
  by pat_completeness auto
termination
proof (relation "measure (\<lambda>(a, i). length a - i)", goal_cases)
  case (2 a i s)
  then show ?case using smallest_child_cases [of a i] by auto
qed simp

declare sift_down.simps [simp del]

definition heap_pop :: "min_heap \<Rightarrow> heap_entry option \<times> min_heap" where
  "heap_pop a =
     (case a of
        [] \<Rightarrow> (None, [])
      | e # _ \<Rightarrow>
          let lst = last a; a' = butlast a in
          (Some e, if a' \<noteq> [] then sift_down (a'[0 := lst]) 0 else a'))"

section \<open>The heap property\<close>

definition heap_ok :: "min_heap \<Rightarrow> bool" where
  "heap_ok a \<longleftrightarrow> (\<forall>j. 0 < j \<and> j < length a \<longrightarrow> he_t (a ! ((j - 1) div 2)) \<le> he_t (a ! j))"

lemma heap_ok_Nil [simp]: "heap_ok []"
  by (simp add: heap_ok_def)

text \<open>The heap property but for the entry at \<open>i\<close>, which may be too small for its place
  (moving up) or too large (moving down).\<close>

definition up_ok :: "min_heap \<Rightarrow> nat \<Rightarrow> bool" where
  "up_ok a i \<longleftrightarrow> i < length a
     \<and> (\<forall>j. 0 < j \<and> j < length a \<and> j \<noteq> i \<longrightarrow> he_t (a ! ((j - 1) div 2)) \<le> he_t (a ! j))
     \<and> (\<forall>j. 0 < j \<and> j < length a \<and> (j - 1) div 2 = i \<and> 0 < i \<longrightarrow> he_t (a ! ((i - 1) div 2)) \<le> he_t (a ! j))"

definition down_ok :: "min_heap \<Rightarrow> nat \<Rightarrow> bool" where
  "down_ok a i \<longleftrightarrow> i < length a
     \<and> (\<forall>j. 0 < j \<and> j < length a \<and> (j - 1) div 2 \<noteq> i \<longrightarrow> he_t (a ! ((j - 1) div 2)) \<le> he_t (a ! j))
     \<and> (\<forall>j. 0 < j \<and> j < length a \<and> (j - 1) div 2 = i \<and> 0 < i \<longrightarrow> he_t (a ! ((i - 1) div 2)) \<le> he_t (a ! j))"

lemma nth_swap:
  "p < length a \<Longrightarrow> i < length a \<Longrightarrow>
     swap a p i ! j = (if j = i then a ! p else if j = p then a ! i else a ! j)"
  by (simp add: swap_def nth_list_update)

lemma mset_swap_at: "p < length a \<Longrightarrow> i < length a \<Longrightarrow> mset (swap a p i) = mset a"
  unfolding swap_def by (rule mset_swap)

lemma mset_sift_up: "i < length a \<Longrightarrow> mset (sift_up a i) = mset a"
proof (induction a i rule: sift_up.induct)
  case (1 a i)
  show ?case
  proof (cases "i > 0 \<and> \<not> he_t (a ! ((i - 1) div 2)) \<le> he_t (a ! i)")
    case True
    have "mset (sift_up (swap a ((i - 1) div 2) i) ((i - 1) div 2)) = mset (swap a ((i - 1) div 2) i)"
      using 1 True by auto
    then show ?thesis
      using True "1.prems" by (subst sift_up.simps) (simp add: Let_def mset_swap_at)
  next
    case False
    then show ?thesis by (subst sift_up.simps) (auto simp: Let_def)
  qed
qed

lemma up_ok_step:
  assumes "up_ok a i" "0 < i" "\<not> he_t (a ! ((i - 1) div 2)) \<le> he_t (a ! i)"
  shows "up_ok (swap a ((i - 1) div 2) i) ((i - 1) div 2)"
proof -
  define p where "p = (i - 1) div 2"
  have i: "i < length a" and p: "p < length a" and pi: "p \<noteq> i"
    using assms by (auto simp: up_ok_def p_def)
  have le: "he_t (a ! i) \<le> he_t (a ! p)" using assms(3) by (simp add: p_def)
  have heap: "0 < j \<Longrightarrow> j < length a \<Longrightarrow> j \<noteq> i \<Longrightarrow> he_t (a ! ((j - 1) div 2)) \<le> he_t (a ! j)" for j
    using assms(1) by (simp add: up_ok_def)
  have kids: "0 < j \<Longrightarrow> j < length a \<Longrightarrow> (j - 1) div 2 = i \<Longrightarrow> he_t (a ! p) \<le> he_t (a ! j)" for j
    using assms(1,2) by (simp add: up_ok_def p_def)
  have "he_t (swap a p i ! ((j - 1) div 2)) \<le> he_t (swap a p i ! j)"
    if j: "0 < j" "j < length a" "j \<noteq> p" for j
  proof (cases "j = i")
    case True
    then show ?thesis using le pi by (simp add: nth_swap [OF p i] p_def [symmetric] del: One_nat_def)
  next
    case False
    then show ?thesis
      using j heap [of j] kids [of j] le by (auto simp: nth_swap [OF p i] simp del: One_nat_def)
  qed
  moreover have "he_t (swap a p i ! ((p - 1) div 2)) \<le> he_t (swap a p i ! j)"
    if j: "0 < j" "j < length a" "(j - 1) div 2 = p" "0 < p" for j
  proof -
    have pp: "(p - 1) div 2 \<noteq> i" "(p - 1) div 2 \<noteq> p" using j(4) by (auto simp: p_def)
    have up: "he_t (a ! ((p - 1) div 2)) \<le> he_t (a ! p)" using heap [of p] j(4) p pi by simp
    have "j \<noteq> p" using j by auto
    then show ?thesis
      using j up heap [of j] pp pi by (auto simp: nth_swap [OF p i] simp del: One_nat_def)
  qed
  ultimately show ?thesis using p by (simp add: up_ok_def p_def [symmetric] del: One_nat_def)
qed

lemma sift_up_ok: "up_ok a i \<Longrightarrow> heap_ok (sift_up a i)"
proof (induction a i rule: sift_up.induct)
  case (1 a i)
  show ?case
  proof (cases "i > 0 \<and> \<not> he_t (a ! ((i - 1) div 2)) \<le> he_t (a ! i)")
    case True
    then have "up_ok (swap a ((i - 1) div 2) i) ((i - 1) div 2)"
      using "1.prems" by (intro up_ok_step) auto
    then have "heap_ok (sift_up (swap a ((i - 1) div 2) i) ((i - 1) div 2))"
      using True by (intro "1.IH") auto
    then show ?thesis using True by (subst sift_up.simps) (simp add: Let_def)
  next
    case False
    then have "heap_ok a" using "1.prems" by (auto simp: heap_ok_def up_ok_def)
    then show ?thesis using False by (subst sift_up.simps) (auto simp: Let_def)
  qed
qed

lemma mset_sift_down: "i < length a \<Longrightarrow> mset (sift_down a i) = mset a"
proof (induction a i rule: sift_down.induct)
  case (1 a i)
  show ?case
    using 1 smallest_child_cases [of a i]
    by (subst sift_down.simps) (auto simp: Let_def mset_swap_at)
qed

text \<open>What the child selection guarantees.\<close>

lemma smallest_child_le:
  assumes "0 < j" "j < length a" "(j - 1) div 2 = i"
  shows "he_t (a ! smallest_child a i) \<le> he_t (a ! j)"
proof -
  have "j = 2 * i + 1 \<or> j = 2 * i + 2" using assms by presburger
  then show ?thesis using assms(2) by (auto simp: smallest_child_def Let_def)
qed

lemma smallest_child_props:
  assumes "smallest_child a i \<noteq> i"
  shows "(smallest_child a i - 1) div 2 = i" "0 < smallest_child a i" "smallest_child a i < length a"
    "he_t (a ! smallest_child a i) < he_t (a ! i)"
  using assms by (auto simp: smallest_child_def Let_def split: if_splits)

lemma down_ok_step:
  assumes "down_ok a i" "smallest_child a i \<noteq> i"
  shows "down_ok (swap a (smallest_child a i) i) (smallest_child a i)"
proof -
  let ?s = "smallest_child a i"
  note s = smallest_child_props [OF assms(2)]
  have i: "i < length a" using assms(1) by (simp add: down_ok_def)
  have heap: "0 < j \<Longrightarrow> j < length a \<Longrightarrow> (j - 1) div 2 \<noteq> i \<Longrightarrow> he_t (a ! ((j - 1) div 2)) \<le> he_t (a ! j)" for j
    using assms(1) by (simp add: down_ok_def)
  have kids: "0 < i \<Longrightarrow> he_t (a ! ((i - 1) div 2)) \<le> he_t (a ! ?s)"
    using assms(1) s by (simp add: down_ok_def)
  have "he_t (swap a ?s i ! ((j - 1) div 2)) \<le> he_t (swap a ?s i ! j)"
    if "0 < j" "j < length a" "(j - 1) div 2 \<noteq> ?s" for j
  proof (cases "(j - 1) div 2 = i")
    case True
    then show ?thesis
      using that s smallest_child_le [of j a i] by (auto simp: nth_swap [OF s(3) i])
  next
    case False
    then have "j \<noteq> ?s" using s(1) by auto
    then show ?thesis
      using that False s heap [of j] kids by (auto simp: nth_swap [OF s(3) i])
  qed
  moreover have "he_t (swap a ?s i ! ((?s - 1) div 2)) \<le> he_t (swap a ?s i ! j)"
    if "0 < j" "j < length a" "(j - 1) div 2 = ?s" for j
  proof -
    have "j \<noteq> i" "j \<noteq> ?s" using that s by auto
    then show ?thesis
      using that s assms(2) heap [of j] by (auto simp: nth_swap [OF s(3) i])
  qed
  ultimately show ?thesis using s(3) by (simp add: down_ok_def)
qed

lemma sift_down_ok: "down_ok a i \<Longrightarrow> heap_ok (sift_down a i)"
proof (induction a i rule: sift_down.induct)
  case (1 a i)
  show ?case
  proof (cases "smallest_child a i = i")
    case False
    then have "heap_ok (sift_down (swap a (smallest_child a i) i) (smallest_child a i))"
      using "1.IH" [OF refl] down_ok_step "1.prems" by blast
    then show ?thesis using False by (subst sift_down.simps) (simp add: Let_def)
  next
    case True
    have "he_t (a ! ((j - 1) div 2)) \<le> he_t (a ! j)" if "0 < j" "j < length a" for j
      using smallest_child_le [OF that] "1.prems" that True by (cases "(j - 1) div 2 = i") (auto simp: down_ok_def)
    then show ?thesis using True by (subst sift_down.simps) (simp add: Let_def heap_ok_def)
  qed
qed

section \<open>The operations\<close>

lemma mset_heap_push: "mset (heap_push a x) = add_mset x (mset a)"
  by (simp add: heap_push_def mset_sift_up)

lemma heap_push_ok: "heap_ok a \<Longrightarrow> heap_ok (heap_push a x)"
  unfolding heap_push_def
proof (rule sift_up_ok)
  assume a: "heap_ok a"
  have par: "(j - 1) div 2 < length a" if "0 < j" "j < Suc (length a)" for j using that by linarith
  show "up_ok (a @ [x]) (length (a @ [x]) - 1)"
    unfolding up_ok_def
  proof (intro conjI allI impI)
    fix j assume "0 < j \<and> j < length (a @ [x]) \<and> j \<noteq> length (a @ [x]) - 1"
    then show "he_t ((a @ [x]) ! ((j - 1) div 2)) \<le> he_t ((a @ [x]) ! j)"
      using a par [of j] by (auto simp: heap_ok_def nth_append)
  next
    fix j assume "0 < j \<and> j < length (a @ [x]) \<and> (j - 1) div 2 = length (a @ [x]) - 1 \<and> 0 < length (a @ [x]) - 1"
    then show "he_t ((a @ [x]) ! ((length (a @ [x]) - 1 - 1) div 2)) \<le> he_t ((a @ [x]) ! j)"
      using par [of j] by auto
  qed simp
qed

lemma heap_top_least:
  assumes "heap_ok a" "i < length a"
  shows "he_t (a ! 0) \<le> he_t (a ! i)"
  using assms(2)
proof (induction i rule: less_induct)
  case (less i)
  show ?case
  proof (cases "i = 0")
    case False
    then have "he_t (a ! 0) \<le> he_t (a ! ((i - 1) div 2))"
      using less.prems by (intro less.IH) auto
    also have "\<dots> \<le> he_t (a ! i)" using assms(1) less.prems False by (simp add: heap_ok_def)
    finally show ?thesis .
  qed simp
qed

lemma heap_pop_Nil: "heap_pop [] = (None, [])"
  by (simp add: heap_pop_def)

lemma heap_pop_mset:
  assumes "heap_pop a = (Some x, a')"
  shows "mset a = add_mset x (mset a')" "heap_peek a = Some x"
proof -
  obtain rest where a: "a = x # rest" "a' = (if butlast a \<noteq> [] then sift_down ((butlast a)[0 := last a]) 0 else [])"
    using assms by (cases a) (auto simp: heap_pop_def Let_def split: if_splits)
  show "heap_peek a = Some x" using a(1) by (simp add: heap_peek_def)
  show "mset a = add_mset x (mset a')"
  proof (cases "rest = []")
    case False
    then have b: "butlast a = x # butlast rest" "last a = last rest" using a(1) by simp_all
    have "mset a' = mset (last rest # butlast rest)"
      using a(2) b by (simp add: mset_sift_down)
    also have "\<dots> = mset rest"
      using arg_cong [OF append_butlast_last_id [OF False], of mset] by simp
    finally show ?thesis using a(1) by simp
  qed (use a in simp)
qed

lemma heap_pop_ok: "heap_ok a \<Longrightarrow> heap_ok (snd (heap_pop a))"
proof (cases "butlast a = []")
  case True
  then show ?thesis by (cases a) (auto simp: heap_pop_def heap_ok_def Let_def)
next
  case False
  assume a: "heap_ok a"
  define b where "b = (butlast a)[0 := last a]"
  have len: "length b = length a - 1" "length a \<noteq> 0" using False by (auto simp: b_def)
  have nth: "0 < j \<Longrightarrow> j < length b \<Longrightarrow> b ! j = a ! j" for j
    by (simp add: b_def nth_butlast)
  have "down_ok b 0"
    unfolding down_ok_def
  proof (intro conjI allI impI)
    show "0 < length b" using False len by (cases a) auto
    fix j assume j: "0 < j \<and> j < length b \<and> (j - 1) div 2 \<noteq> 0"
    then have "b ! ((j - 1) div 2) = a ! ((j - 1) div 2)" "b ! j = a ! j" by (auto intro!: nth)
    then show "he_t (b ! ((j - 1) div 2)) \<le> he_t (b ! j)" using a j len by (auto simp: heap_ok_def)
  qed simp
  then show ?thesis
    using False sift_down_ok [of b 0] by (cases a) (auto simp: heap_pop_def Let_def b_def)
qed

section \<open>The contract\<close>

locale min_queue =
  fixes qsize :: "'q \<Rightarrow> nat"
    and peek :: "'q \<Rightarrow> 'e option"
    and push :: "'q \<Rightarrow> 'e \<Rightarrow> 'q"
    and pop :: "'q \<Rightarrow> 'e option \<times> 'q"
    and empty :: 'q
    and time :: "'e \<Rightarrow> int"
    and content :: "'q \<Rightarrow> 'e multiset"
    and ok :: "'q \<Rightarrow> bool"
  assumes size_content: "qsize q = size (content q)"
    and peek_None: "peek q = None \<longleftrightarrow> content q = {#}"
    and peek_least: "ok q \<Longrightarrow> peek q = Some e \<Longrightarrow> x \<in># content q \<Longrightarrow> time e \<le> time x"
    and push_content: "content (push q e) = add_mset e (content q)"
    and push_ok: "ok q \<Longrightarrow> ok (push q e)"
    and pop_content: "peek q = Some e \<Longrightarrow> fst (pop q) = Some e \<and> content q = add_mset e (content (snd (pop q)))"
    and pop_ok: "ok q \<Longrightarrow> ok (snd (pop q))"
    and empty_content: "content empty = {#}"
    and empty_ok: "ok empty"
begin

lemma pop_size: "peek q = Some e \<Longrightarrow> qsize q = Suc (qsize (snd (pop q)))"
  using pop_content [of q e] by (simp add: size_content)

lemma push_all: "content (foldl push q es) = content q + mset es"
  by (induction es arbitrary: q) (simp_all add: push_content)

lemma push_all_ok: "ok q \<Longrightarrow> ok (foldl push q es)"
  by (induction es arbitrary: q) (simp_all add: push_ok)

text \<open>When the least entry is later than \<open>now\<close>, so is every entry.\<close>

lemma none_due: "ok q \<Longrightarrow> (\<And>e. peek q = Some e \<Longrightarrow> now < time e) \<Longrightarrow> x \<in># content q \<Longrightarrow> now < time x"
proof -
  assume q: "ok q" "\<And>e. peek q = Some e \<Longrightarrow> now < time e" "x \<in># content q"
  then obtain e where "peek q = Some e" using peek_None [of q] by (cases "peek q") auto
  then show ?thesis using q peek_least [of q e x] by fastforce
qed

end

interpretation heap: min_queue heap_size heap_peek heap_push heap_pop heap_clear he_t mset heap_ok
proof (unfold_locales, goal_cases)
  case (1 q)
  show ?case by (simp add: heap_size_def)
next
  case (2 q)
  show ?case by (simp add: heap_peek_def split: list.split)
next
  case (3 q e x)
  have "e = q ! 0" using 3(2) by (cases q) (simp_all add: heap_peek_def)
  moreover obtain i where "i < length q" "x = q ! i" using 3(3) by (metis in_set_conv_nth set_mset_mset)
  ultimately show ?case using heap_top_least [OF 3(1)] by simp
next
  case (6 q e)
  have "heap_pop q = (Some e, snd (heap_pop q))"
    using 6 by (cases q) (auto simp: heap_peek_def heap_pop_def Let_def)
  then show ?case using heap_pop_mset(1) [of q e "snd (heap_pop q)"] by (simp add: prod_eq_iff)
qed (simp_all add: mset_heap_push heap_push_ok heap_pop_ok heap_clear_def heap_ok_Nil)

text \<open>Popping until the heap is empty.\<close>

function heap_drain :: "min_heap \<Rightarrow> heap_entry list" where
  "heap_drain a = (case heap_pop a of (None, _) \<Rightarrow> [] | (Some e, a') \<Rightarrow> e # heap_drain a')"
  by pat_completeness auto
termination
proof (relation "measure length", goal_cases)
  case (2 a p q x2)
  then have "mset a = add_mset x2 (mset q)" by (intro heap_pop_mset(1)) auto
  then have "size (mset a) = size (add_mset x2 (mset q))" by simp
  then show ?case by simp
qed simp

declare heap_drain.simps [simp del]

lemma heap_drain_props:
  "heap_ok a \<Longrightarrow> mset (heap_drain a) = mset a \<and> sorted (map he_t (heap_drain a))"
proof (induction a rule: heap_drain.induct)
  case (1 a)
  show ?case
  proof (cases "heap_peek a")
    case None
    then have "a = []" using heap.peek_None [of a] by simp
    then show ?thesis by (subst (1 2) heap_drain.simps) (simp add: heap_pop_Nil)
  next
    case (Some e)
    define b where "b = snd (heap_pop a)"
    have pop: "heap_pop a = (Some e, b)" and content: "mset a = add_mset e (mset b)"
      using heap.pop_content [OF Some] by (simp_all add: b_def prod_eq_iff)
    have drain: "heap_drain a = e # heap_drain b" using pop by (subst heap_drain.simps) simp
    have ih: "mset (heap_drain b) = mset b" "sorted (map he_t (heap_drain b))"
      using "1.IH" [OF pop [symmetric] refl] heap.pop_ok [OF "1.prems"] by (simp_all add: b_def)
    have "he_t e \<le> he_t x" if "x \<in> set (heap_drain b)" for x
    proof -
      have "x \<in># mset a" using that ih(1) content by (metis insert_iff set_mset_add_mset_insert set_mset_mset)
      then show ?thesis by (rule heap.peek_least [OF "1.prems" Some])
    qed
    then show ?thesis using ih content by (simp add: drain)
  qed
qed

section \<open>Properties\<close>

text \<open>Draining the heap sorts: popping until the heap is empty returns every entry that was
  pushed, each as often as it was pushed, in the order of their expiry times.\<close>

theorem heap_push_drain_sorts:
  "mset (heap_drain (foldl heap_push heap_clear es)) = mset es
     \<and> sorted (map he_t (heap_drain (foldl heap_push heap_clear es)))"
  using heap_drain_props [OF heap.push_all_ok [OF heap.empty_ok]] heap.push_all [of heap_clear es]
  by (simp add: heap_clear_def)

end
