(* ===== verification/Store.thy ===== *)
theory Store
  imports Js_Map Min_Heap Codec "HOL-Library.Char_ord" "HOL-Library.List_Lexorder"
begin

text \<open>
  The in-memory primary index of \<open>packages/minidb/src/store.ts\<close>: a map from keys to
  records with a time to live, an ordered key index, a heap of expiry times with stale
  entries, and byte and expiry counters. A key is its canonical string, one character per
  byte. The ordered index is the ascending list of its keys, which is what a skip list
  holds at its lowest level (\<open>packages/minidb/src/skiplist.ts\<close>); the towers above that
  level only speed up the search. Calls of the owner's \<open>onExpire\<close> are logged in \<open>s_notified\<close>.
\<close>

section \<open>Records\<close>

datatype value_file = SnapshotFile | WalFile

record value_loc =
  l_file :: value_file
  l_off :: nat
  l_len :: nat

datatype value_ref = Memory buffer | Disk value_loc

type_synonym dt = "(string \<times> int) list"

record store_record =
  sr_ref :: value_ref
  sr_expireAt :: int
  sr_seq :: nat
  sr_dt :: "dt option"

record store_entry =
  e_key :: buffer
  e_value :: buffer
  e_expireAt :: int
  e_dt :: "dt option"

definition toKStr :: "buffer \<Rightarrow> string" where
  "toKStr key = map (\<lambda>b. char_of (unat b)) key"

definition fromKStr :: "string \<Rightarrow> buffer" where
  "fromKStr kstr = map (\<lambda>c. word_of_nat (of_char c)) kstr"

lemma fromKStr_toKStr [simp]: "fromKStr (toKStr key) = key"
  by (simp add: fromKStr_def toKStr_def o_def unat_byte)

definition DISK_REF_BYTES :: nat where "DISK_REF_BYTES = 64"

section \<open>Byte estimates\<close>

text \<open>\<open>JSON.stringify\<close> of a string and of \<open>{ dt }\<close>, and the length in UTF-8.\<close>

definition backslash :: char where "backslash = char_of (92::nat)"
definition quote :: char where "quote = char_of (34::nat)"

definition json_char :: "char \<Rightarrow> string" where
  "json_char c =
     (let n = of_char c :: nat in
      if n = 34 \<or> n = 92 then [backslash, c]
      else if n = 8 then [backslash, CHR ''b'']
      else if n = 9 then [backslash, CHR ''t'']
      else if n = 10 then [backslash, CHR ''n'']
      else if n = 12 then [backslash, CHR ''f'']
      else if n = 13 then [backslash, CHR ''r'']
      else if n < 32 then [backslash, CHR ''u'', CHR ''0'', CHR ''0'', digit_char (n div 16),
        (if n mod 16 < 10 then digit_char (n mod 16) else char_of (87 + n mod 16))]
      else [c])"

definition json_string :: "string \<Rightarrow> string" where
  "json_string s = quote # concat (map json_char s) @ [quote]"

fun join :: "string \<Rightarrow> string list \<Rightarrow> string" where
  "join sep [] = []"
| "join sep [x] = x"
| "join sep (x # y # xs) = x @ sep @ join sep (y # xs)"

definition json_dt :: "dt \<Rightarrow> string" where
  "json_dt d = ''{'' @ json_string ''dt'' @ '':{''
     @ join '','' (map (\<lambda>(c, v). json_string c @ '':'' @ string_of_int v) d) @ ''}}''"

definition utf8_length :: "string \<Rightarrow> nat" where
  "utf8_length s = sum_list (map (\<lambda>c. if (of_char c :: nat) < 128 then 1 else 2) s)"

definition metaBytes :: "dt option \<Rightarrow> nat" where
  "metaBytes d = (case d of None \<Rightarrow> 0 | Some d' \<Rightarrow> utf8_length (json_dt d'))"

definition refBytes :: "value_ref \<Rightarrow> nat" where
  "refBytes ref = (case ref of Memory v \<Rightarrow> length v | Disk _ \<Rightarrow> DISK_REF_BYTES)"

text \<open>The bytes one entry of the map accounts for.\<close>

definition entry_bytes :: "string \<Rightarrow> store_record \<Rightarrow> nat" where
  "entry_bytes k r = length k + refBytes (sr_ref r) + metaBytes (sr_dt r)"

section \<open>The ordered key index\<close>

definition order_insert :: "string list \<Rightarrow> string \<Rightarrow> string list" where
  "order_insert xs k = insort k xs"

definition order_delete :: "string list \<Rightarrow> string \<Rightarrow> string list" where
  "order_delete xs k = remove1 k xs"

record range_options =
  ro_gte :: "string option"
  ro_gt :: "string option"
  ro_lte :: "string option"
  ro_lt :: "string option"
  ro_offset :: nat
  ro_count :: "nat option"
  ro_reverse :: bool

definition all_keys :: range_options where
  "all_keys = \<lparr>ro_gte = None, ro_gt = None, ro_lte = None, ro_lt = None,
     ro_offset = 0, ro_count = None, ro_reverse = False\<rparr>"

text \<open>The walking loop of \<open>range\<close>: stop at the first key past the bound, skip \<open>offset\<close>
  keys, take \<open>count\<close> (\<open>cnt = None\<close> is \<open>Infinity\<close>).\<close>

fun range_walk :: "(string \<Rightarrow> bool) \<Rightarrow> nat \<Rightarrow> nat option \<Rightarrow> string list \<Rightarrow> string list" where
  "range_walk stop offset cnt [] = []"
| "range_walk stop offset cnt (x # xs) =
     (if stop x then []
      else if offset > 0 then range_walk stop (offset - 1) cnt xs
      else if cnt \<noteq> Some 0 then x # range_walk stop offset (map_option (\<lambda>c. c - 1) cnt) xs
      else [])"

definition lowerBound :: "string list \<Rightarrow> string \<Rightarrow> bool \<Rightarrow> string list" where
  "lowerBound xs bound strict = dropWhile (\<lambda>x. if strict then x \<le> bound else x < bound) xs"

definition past :: "(string \<Rightarrow> string \<Rightarrow> bool) \<Rightarrow> string option \<Rightarrow> string \<Rightarrow> bool" where
  "past rel bound x \<longleftrightarrow> (case bound of None \<Rightarrow> False | Some b \<Rightarrow> rel x b)"

definition order_range :: "string list \<Rightarrow> range_options \<Rightarrow> string list" where
  "order_range xs opts =
     (if ro_reverse opts then
        (let start = (case ro_lte opts of
                        Some b \<Rightarrow> rev (take (length xs - length (lowerBound xs b True)) xs)
                      | None \<Rightarrow> (case ro_lt opts of
                          Some b \<Rightarrow> rev (take (length xs - length (lowerBound xs b False)) xs)
                        | None \<Rightarrow> rev xs))
         in range_walk (\<lambda>x. past (<) (ro_gte opts) x \<or> past (\<le>) (ro_gt opts) x)
              (ro_offset opts) (ro_count opts) start)
      else
        (let start = (case ro_gte opts of
                        Some b \<Rightarrow> lowerBound xs b (ro_gt opts \<noteq> None)
                      | None \<Rightarrow> (case ro_gt opts of
                          Some b \<Rightarrow> lowerBound xs b True
                        | None \<Rightarrow> xs))
         in range_walk (\<lambda>x. past (>) (ro_lte opts) x \<or> past (\<ge>) (ro_lt opts) x)
              (ro_offset opts) (ro_count opts) start))"

section \<open>The store\<close>

record store =
  s_map :: "(string, store_record) js_map"
  s_order :: "string list"
  s_heap :: min_heap
  s_seq :: nat
  s_bytes :: int
  s_expiring :: int
  s_maxPerTick :: nat
  s_expireTimeBudgetMs :: int
  s_expireAggressive :: bool
  s_notified :: "(string \<times> store_record) list"

definition new_store :: "nat \<Rightarrow> int \<Rightarrow> store" where
  "new_store maxPerTick budget =
     \<lparr>s_map = [], s_order = [], s_heap = [], s_seq = 0, s_bytes = 0, s_expiring = 0,
      s_maxPerTick = maxPerTick, s_expireTimeBudgetMs = budget, s_expireAggressive = False,
      s_notified = []\<rparr>"

definition store_size :: "store \<Rightarrow> int \<Rightarrow> nat" where
  "store_size st now =
     (if s_expiring st = 0 then length (s_map st)
      else length (filter (\<lambda>(k, r). sr_expireAt r = 0 \<or> sr_expireAt r > now) (s_map st)))"

text \<open>Reading a value: without a reader a disk reference cannot be read.\<close>

datatype store_error = NoValueReader

definition materialize :: "(value_loc \<Rightarrow> buffer) option \<Rightarrow> value_ref \<Rightarrow> store_error + buffer" where
  "materialize readValue ref =
     (case ref of
        Memory v \<Rightarrow> Inr v
      | Disk loc \<Rightarrow> (case readValue of None \<Rightarrow> Inl NoValueReader | Some rd \<Rightarrow> Inr (rd loc)))"

definition recordBytes :: "store \<Rightarrow> string \<Rightarrow> nat" where
  "recordBytes st k = (case jm_get (s_map st) k of None \<Rightarrow> 0 | Some r \<Rightarrow> entry_bytes k r)"

definition estimateSetBytes :: "string \<Rightarrow> buffer \<Rightarrow> dt option \<Rightarrow> bool \<Rightarrow> nat" where
  "estimateSetBytes k v d countValue =
     length k + (if countValue then length v else DISK_REF_BYTES) + metaBytes d"

definition store_remove :: "store \<Rightarrow> string \<Rightarrow> bool \<times> store" where
  "store_remove st k =
     (case jm_get (s_map st) k of
        None \<Rightarrow> (False, st)
      | Some r \<Rightarrow>
          (True, st\<lparr>s_map := jm_delete (s_map st) k,
                    s_bytes := s_bytes st - int (entry_bytes k r),
                    s_expiring := (if sr_expireAt r \<noteq> 0 then s_expiring st - 1 else s_expiring st),
                    s_order := order_delete (s_order st) k\<rparr>))"

definition expireKey :: "store \<Rightarrow> string \<Rightarrow> store_record \<Rightarrow> store" where
  "expireKey st k r =
     (case store_remove st k of
        (True, st') \<Rightarrow> st'\<lparr>s_notified := s_notified st' @ [(k, r)]\<rparr>
      | (False, st') \<Rightarrow> st')"

definition heap_item :: "string \<Rightarrow> store_record \<Rightarrow> heap_entry" where
  "heap_item k r = \<lparr>he_t = sr_expireAt r, he_k = k, he_seq = sr_seq r\<rparr>"

definition rebuildHeap :: "store \<Rightarrow> store" where
  "rebuildHeap st = st\<lparr>s_heap := foldl heap_push heap_clear
     (map (\<lambda>(k, r). heap_item k r) (filter (\<lambda>(k, r). sr_expireAt r \<noteq> 0) (s_map st)))\<rparr>"

definition setRef :: "store \<Rightarrow> string \<Rightarrow> value_ref \<Rightarrow> int \<Rightarrow> dt option \<Rightarrow> store" where
  "setRef st k ref expireAt d =
     (let prev = jm_get (s_map st) k;
          st1 = (case prev of
                   Some r \<Rightarrow> st\<lparr>s_expiring := (if sr_expireAt r \<noteq> 0 then s_expiring st - 1 else s_expiring st),
                               s_bytes := s_bytes st - int (recordBytes st k)\<rparr>
                 | None \<Rightarrow> st);
          seq = s_seq st1 + 1;
          r = \<lparr>sr_ref = ref, sr_expireAt = expireAt, sr_seq = seq, sr_dt = d\<rparr>;
          st2 = st1\<lparr>s_seq := seq,
                    s_map := jm_set (s_map st1) k r,
                    s_bytes := s_bytes st1 + int (length k + refBytes ref + metaBytes d),
                    s_order := (if prev = None then order_insert (s_order st1) k else s_order st1)\<rparr>
      in if expireAt \<noteq> 0 then
           let st3 = st2\<lparr>s_expiring := s_expiring st2 + 1,
                         s_heap := heap_push (s_heap st2) \<lparr>he_t = expireAt, he_k = k, he_seq = seq\<rparr>\<rparr>
           in if heap_size (s_heap st3) > length (s_map st3) * 2 + 64 then rebuildHeap st3 else st3
         else st2)"

definition store_set :: "store \<Rightarrow> string \<Rightarrow> buffer \<Rightarrow> int \<Rightarrow> dt option \<Rightarrow> store" where
  "store_set st k v expireAt d = setRef st k (Memory v) expireAt d"

definition getRecord :: "store \<Rightarrow> string \<Rightarrow> int \<Rightarrow> store_record option \<times> store" where
  "getRecord st k now =
     (case jm_get (s_map st) k of
        None \<Rightarrow> (None, st)
      | Some r \<Rightarrow>
          if sr_expireAt r \<noteq> 0 \<and> sr_expireAt r \<le> now then (None, expireKey st k r) else (Some r, st))"

definition store_get ::
    "(value_loc \<Rightarrow> buffer) option \<Rightarrow> store \<Rightarrow> string \<Rightarrow> int \<Rightarrow> (store_error + buffer option) \<times> store" where
  "store_get readValue st k now =
     (case jm_get (s_map st) k of
        None \<Rightarrow> (Inr None, st)
      | Some r \<Rightarrow>
          if sr_expireAt r \<noteq> 0 \<and> sr_expireAt r \<le> now then (Inr None, expireKey st k r)
          else (map_sum id Some (materialize readValue (sr_ref r)), st))"

definition store_del :: "store \<Rightarrow> string \<Rightarrow> bool \<times> store" where
  "store_del st k = store_remove st k"

definition store_has :: "store \<Rightarrow> string \<Rightarrow> int \<Rightarrow> bool \<times> store" where
  "store_has st k now =
     (case jm_get (s_map st) k of
        None \<Rightarrow> (False, st)
      | Some r \<Rightarrow>
          if sr_expireAt r \<noteq> 0 \<and> sr_expireAt r \<le> now then (False, expireKey st k r) else (True, st))"

text \<open>\<open>entries()\<close>: the live entries in map order, up to the first that cannot be read.\<close>

definition mk_entry :: "(value_loc \<Rightarrow> buffer) option \<Rightarrow> string \<Rightarrow> store_record \<Rightarrow> store_error + store_entry" where
  "mk_entry readValue k r =
     map_sum id (\<lambda>v. \<lparr>e_key = fromKStr k, e_value = v, e_expireAt = sr_expireAt r, e_dt = sr_dt r\<rparr>)
       (materialize readValue (sr_ref r))"

fun entries_of ::
    "(value_loc \<Rightarrow> buffer) option \<Rightarrow> int \<Rightarrow> (string \<times> store_record) list \<Rightarrow> store_entry list \<times> store_error option" where
  "entries_of readValue now [] = ([], None)"
| "entries_of readValue now ((k, r) # m) =
     (if sr_expireAt r \<noteq> 0 \<and> sr_expireAt r \<le> now then entries_of readValue now m
      else case mk_entry readValue k r of
             Inl e \<Rightarrow> ([], Some e)
           | Inr x \<Rightarrow> (case entries_of readValue now m of (xs, e) \<Rightarrow> (x # xs, e)))"

definition entries :: "(value_loc \<Rightarrow> buffer) option \<Rightarrow> store \<Rightarrow> int \<Rightarrow> store_entry list \<times> store_error option" where
  "entries readValue st now = entries_of readValue now (s_map st)"

text \<open>\<open>rawKeys\<close> and \<open>scan\<close>: the range of keys is taken first; each key is then looked up at
  the time the generator reaches it (\<open>clock i\<close> for the \<open>i\<close>-th key), reaping it if expired.\<close>

fun raw_keys :: "store \<Rightarrow> (nat \<Rightarrow> int) \<Rightarrow> nat \<Rightarrow> string list \<Rightarrow> string list \<times> store" where
  "raw_keys st clock i [] = ([], st)"
| "raw_keys st clock i (k # ks) =
     (case getRecord st k (clock i) of
        (None, st') \<Rightarrow> raw_keys st' clock (i + 1) ks
      | (Some _, st') \<Rightarrow> (case raw_keys st' clock (i + 1) ks of (xs, st'') \<Rightarrow> (k # xs, st'')))"

definition rawKeys :: "store \<Rightarrow> range_options \<Rightarrow> (nat \<Rightarrow> int) \<Rightarrow> string list \<times> store" where
  "rawKeys st opts clock = raw_keys st clock 0 (order_range (s_order st) opts)"

fun scan_keys ::
    "(value_loc \<Rightarrow> buffer) option \<Rightarrow> store \<Rightarrow> (nat \<Rightarrow> int) \<Rightarrow> nat \<Rightarrow> string list
      \<Rightarrow> store_entry list \<times> store_error option \<times> store" where
  "scan_keys readValue st clock i [] = ([], None, st)"
| "scan_keys readValue st clock i (k # ks) =
     (case getRecord st k (clock i) of
        (None, st') \<Rightarrow> scan_keys readValue st' clock (i + 1) ks
      | (Some r, st') \<Rightarrow>
          (case mk_entry readValue k r of
             Inl e \<Rightarrow> ([], Some e, st')
           | Inr x \<Rightarrow> (case scan_keys readValue st' clock (i + 1) ks of (xs, e, st'') \<Rightarrow> (x # xs, e, st''))))"

definition scan ::
    "(value_loc \<Rightarrow> buffer) option \<Rightarrow> store \<Rightarrow> range_options \<Rightarrow> (nat \<Rightarrow> int)
      \<Rightarrow> store_entry list \<times> store_error option \<times> store" where
  "scan readValue st opts clock = scan_keys readValue st clock 0 (order_range (s_order st) opts)"

text \<open>\<open>remapLocs\<close>: new locations for disk references.\<close>

definition remap_record :: "(string \<Rightarrow> value_loc \<Rightarrow> store_record \<Rightarrow> value_loc option) \<Rightarrow> string \<Rightarrow> store_record \<Rightarrow> store_record" where
  "remap_record remap k r =
     (case sr_ref r of
        Memory _ \<Rightarrow> r
      | Disk loc \<Rightarrow> (case remap k loc r of None \<Rightarrow> r | Some nxt \<Rightarrow> r\<lparr>sr_ref := Disk nxt\<rparr>))"

definition remapLocs :: "store \<Rightarrow> (string \<Rightarrow> value_loc \<Rightarrow> store_record \<Rightarrow> value_loc option) \<Rightarrow> store" where
  "remapLocs st remap = st\<lparr>s_map := map (\<lambda>(k, r). (k, remap_record remap k r)) (s_map st)\<rparr>"

lemma expireKey_heap [simp]: "s_heap (expireKey st k r) = s_heap st"
  by (simp add: expireKey_def store_remove_def split: option.split)

text \<open>The loop of \<open>activeExpire\<close>. The clock is read again once the quota is used up: \<open>clock n\<close>
  is what iteration \<open>n\<close> reads.\<close>

function expire_loop ::
    "store \<Rightarrow> int \<Rightarrow> int \<Rightarrow> (nat \<Rightarrow> int) \<Rightarrow> nat \<Rightarrow> nat \<Rightarrow> store \<times> nat" where
  "expire_loop st now deadline clock n reaped =
     (case heap_peek (s_heap st) of
        None \<Rightarrow> (st, reaped)
      | Some e \<Rightarrow>
          if he_t e \<le> now then
            if n \<ge> s_maxPerTick st \<and> n mod 16 = 0 \<and> clock n \<ge> deadline then (st, reaped)
            else
              let st1 = st\<lparr>s_heap := snd (heap_pop (s_heap st))\<rparr> in
              (case jm_get (s_map st1) (he_k e) of
                 Some r \<Rightarrow>
                   if sr_seq r = he_seq e \<and> sr_expireAt r \<noteq> 0 \<and> sr_expireAt r \<le> now
                   then expire_loop (expireKey st1 (he_k e) r) now deadline clock (n + 1) (reaped + 1)
                   else expire_loop st1 now deadline clock (n + 1) reaped
               | None \<Rightarrow> expire_loop st1 now deadline clock (n + 1) reaped)
          else (st, reaped))"
  by pat_completeness auto

termination
proof (relation "measure (\<lambda>(st, now, deadline, clock, n, reaped). length (s_heap st))", goal_cases)
  case (2 st now deadline clock n reaped e)
  then show ?case using heap.pop_size [of "s_heap st" e] by (simp add: heap_size_def)
next
  case (3 st now deadline clock n reaped e)
  then show ?case using heap.pop_size [of "s_heap st" e] by (simp add: heap_size_def)
next
  case (4 st now deadline clock n reaped e)
  then show ?case using heap.pop_size [of "s_heap st" e] by (simp add: heap_size_def)
qed simp

declare expire_loop.simps [simp del]

definition activeExpire :: "store \<Rightarrow> int \<Rightarrow> (nat \<Rightarrow> int) \<Rightarrow> store" where
  "activeExpire st now clock =
     (let deadline = now + (if s_expireAggressive st then max (s_expireTimeBudgetMs st) 10
                            else s_expireTimeBudgetMs st)
      in case expire_loop st now deadline clock 0 0 of
           (st', reaped) \<Rightarrow> st'\<lparr>s_expireAggressive := reaped \<ge> s_maxPerTick st'\<rparr>)"

text \<open>\<open>reapExpired\<close>: the loop over the map deletes only the entry it stands on.\<close>

fun reap_entries :: "store \<Rightarrow> int \<Rightarrow> (string \<times> store_record) list \<Rightarrow> nat \<Rightarrow> nat \<times> store" where
  "reap_entries st now [] n = (n, st)"
| "reap_entries st now ((k, r) # m) n =
     (if sr_expireAt r \<noteq> 0 \<and> sr_expireAt r \<le> now
      then reap_entries (expireKey st k r) now m (n + 1)
      else reap_entries st now m n)"

definition reapExpired :: "store \<Rightarrow> int \<Rightarrow> nat \<times> store" where
  "reapExpired st now = reap_entries st now (s_map st) 0"

section \<open>The invariant\<close>

definition record_expired :: "int \<Rightarrow> store_record \<Rightarrow> bool" where
  "record_expired now r \<longleftrightarrow> sr_expireAt r \<noteq> 0 \<and> sr_expireAt r \<le> now"

text \<open>The key index and the two counters describe the map.\<close>

definition index_ok :: "store \<Rightarrow> bool" where
  "index_ok st \<longleftrightarrow> jm_ok (s_map st)
     \<and> sorted (s_order st) \<and> distinct (s_order st) \<and> set (s_order st) = set (jm_keys (s_map st))
     \<and> s_bytes st = (\<Sum>(k, r)\<leftarrow>s_map st. int (entry_bytes k r))
     \<and> s_expiring st = (\<Sum>(k, r)\<leftarrow>s_map st. if sr_expireAt r \<noteq> 0 then 1 else 0)"

text \<open>Every record with an expiry time has its entry in the heap (which may hold stale
  entries too).\<close>

definition heap_covers :: "store \<Rightarrow> bool" where
  "heap_covers st \<longleftrightarrow> heap_ok (s_heap st)
     \<and> (\<forall>(k, r)\<in>set (s_map st). sr_expireAt r \<noteq> 0 \<longrightarrow> heap_item k r \<in> set (s_heap st))"

definition store_ok :: "store \<Rightarrow> bool" where
  "store_ok st \<longleftrightarrow> index_ok st \<and> heap_covers st"

lemma new_store_ok: "store_ok (new_store n b)"
  by (simp add: store_ok_def index_ok_def heap_covers_def new_store_def jm_ok_def jm_keys_def)

lemma store_remove_index_ok: "index_ok st \<Longrightarrow> index_ok (snd (store_remove st k))"
proof (cases "jm_get (s_map st) k")
  case (Some r)
  assume st: "index_ok st"
  then have ok: "jm_ok (s_map st)" by (simp add: index_ok_def)
  show ?thesis
    using st Some ok
    by (auto simp: index_ok_def store_remove_def order_delete_def jm.ok_delete jm.set_keys_delete
        sorted_remove1 sum_list_jm_delete [OF ok Some])
qed (simp add: store_remove_def)

lemma store_remove_covers: "heap_covers st \<Longrightarrow> heap_covers (snd (store_remove st k))"
  by (auto simp: heap_covers_def store_remove_def set_jm_delete split: option.split)

lemma store_remove_ok [inv_intros]: "store_ok st \<Longrightarrow> store_ok (snd (store_remove st k))"
  by (simp add: store_ok_def store_remove_index_ok store_remove_covers)

lemma index_ok_cong:
  "s_map st' = s_map st \<Longrightarrow> s_order st' = s_order st \<Longrightarrow> s_bytes st' = s_bytes st \<Longrightarrow>
     s_expiring st' = s_expiring st \<Longrightarrow> index_ok st' = index_ok st"
  by (simp add: index_ok_def)

lemma expireKey_eq:
  "expireKey st k r = (if jm_get (s_map st) k = None then st
     else (snd (store_remove st k))\<lparr>s_notified := s_notified st @ [(k, r)]\<rparr>)"
  by (auto simp: expireKey_def store_remove_def)

lemma expireKey_index_ok: "index_ok st \<Longrightarrow> index_ok (expireKey st k r)"
  using store_remove_index_ok [of st k] by (simp add: expireKey_eq index_ok_def)

lemma expireKey_ok [inv_intros]: "store_ok st \<Longrightarrow> store_ok (expireKey st k r)"
  using store_remove_covers [of st k]
  by (simp add: store_ok_def expireKey_index_ok) (simp add: expireKey_eq heap_covers_def)

lemma rebuildHeap_ok: "index_ok st \<Longrightarrow> store_ok (rebuildHeap st)"
proof -
  assume st: "index_ok st"
  let ?es = "map (\<lambda>(k, r). heap_item k r) (filter (\<lambda>(k, r). sr_expireAt r \<noteq> 0) (s_map st))"
  have "set (foldl heap_push heap_clear ?es) = set ?es"
    using heap.push_all [of heap_clear ?es] by (simp add: heap_clear_def flip: set_mset_mset)
  then have "heap_covers (rebuildHeap st)"
    using heap.push_all_ok [OF heap.empty_ok, of ?es] by (auto simp: heap_covers_def rebuildHeap_def)
  then show ?thesis using st by (simp add: store_ok_def index_ok_def rebuildHeap_def)
qed

lemma heap_size_rebuild: "length (s_heap (rebuildHeap st)) \<le> length (s_map st)"
proof -
  let ?es = "map (\<lambda>(k, r). heap_item k r) (filter (\<lambda>(k, r). sr_expireAt r \<noteq> 0) (s_map st))"
  have "length (foldl heap_push heap_clear ?es) = length ?es"
    by (rule mset_eq_length) (simp only: heap.push_all heap.empty_content add_0)
  then show ?thesis by (simp add: rebuildHeap_def)
qed

text \<open>The new map and the counters after \<open>setRef\<close>, before the heap is looked at.\<close>

lemma setRef_fields:
  fixes st k ref e d
  defines "r \<equiv> \<lparr>sr_ref = ref, sr_expireAt = e, sr_seq = s_seq st + 1, sr_dt = d\<rparr>"
  shows "s_map (setRef st k ref e d) = jm_set (s_map st) k r"
    and "s_order (setRef st k ref e d)
      = (if jm_get (s_map st) k = None then order_insert (s_order st) k else s_order st)"
    and "s_bytes (setRef st k ref e d) = s_bytes st - int (recordBytes st k) + int (entry_bytes k r)"
    and "s_expiring (setRef st k ref e d) = s_expiring st
      - (case jm_get (s_map st) k of None \<Rightarrow> 0 | Some p \<Rightarrow> if sr_expireAt p \<noteq> 0 then 1 else 0)
      + (if e \<noteq> 0 then 1 else 0)"
  by (auto simp: setRef_def Let_def r_def rebuildHeap_def entry_bytes_def recordBytes_def split: option.split)

lemma setRef_config [simp]: "s_expireTimeBudgetMs (setRef st k ref e d) = s_expireTimeBudgetMs st"
  by (auto simp: setRef_def Let_def rebuildHeap_def split: option.split)

lemma setRef_index_ok: "index_ok st \<Longrightarrow> index_ok (setRef st k ref e d)"
proof -
  assume st: "index_ok st"
  then have ok: "jm_ok (s_map st)" by (simp add: index_ok_def)
  have order: "k \<in> set (s_order st) \<longleftrightarrow> jm_get (s_map st) k \<noteq> None"
    using st by (simp add: index_ok_def jm_get_None_iff)
  show ?thesis
    unfolding index_ok_def setRef_fields
    using st ok order
    by (auto simp: index_ok_def jm.ok_set jm.set_keys_set order_insert_def sorted_insort distinct_insort
        set_insort_key recordBytes_def sum_list_jm_set [OF ok] split: option.split)
qed

lemma setRef_heap:
  fixes st k ref e d
  defines "x \<equiv> \<lparr>he_t = e, he_k = k, he_seq = s_seq st + 1\<rparr>"
  shows "(\<exists>st'. setRef st k ref e d = rebuildHeap st' \<and> index_ok st' = index_ok (setRef st k ref e d))
    \<or> (s_heap (setRef st k ref e d) = (if e = 0 then s_heap st else heap_push (s_heap st) x)
       \<and> (e \<noteq> 0 \<longrightarrow> length (s_heap (setRef st k ref e d)) \<le> length (s_map (setRef st k ref e d)) * 2 + 64))"
proof (cases "e = 0")
  case True
  then show ?thesis by (simp add: setRef_def Let_def split: option.split)
next
  case False
  define m where "m = jm_set (s_map st) k \<lparr>sr_ref = ref, sr_expireAt = e, sr_seq = s_seq st + 1, sr_dt = d\<rparr>"
  show ?thesis
  proof (cases "heap_size (heap_push (s_heap st) x) > length m * 2 + 64")
    case True
    then obtain st' where "setRef st k ref e d = rebuildHeap st'"
      using False by (cases "jm_get (s_map st) k") (auto simp: setRef_def Let_def m_def x_def)
    then show ?thesis by (auto simp: rebuildHeap_def index_ok_def)
  next
    case False': False
    then have "s_heap (setRef st k ref e d) = heap_push (s_heap st) x"
      using False by (cases "jm_get (s_map st) k") (auto simp: setRef_def Let_def m_def x_def)
    then show ?thesis
      using False' False by (simp add: setRef_fields m_def heap_size_def)
  qed
qed

lemma set_heap_push: "set (heap_push q x) = insert x (set q)"
  using mset_heap_push [of q x] by (metis set_mset_add_mset_insert set_mset_mset)

lemma setRef_ok [inv_intros]: "store_ok st \<Longrightarrow> store_ok (setRef st k ref e d)"
proof -
  assume st: "store_ok st"
  then have ix: "index_ok (setRef st k ref e d)" by (simp add: store_ok_def setRef_index_ok)
  have ok: "jm_ok (s_map st)" using st by (simp add: store_ok_def index_ok_def)
  from setRef_heap [of st k ref e d] show ?thesis
  proof
    assume "\<exists>st'. setRef st k ref e d = rebuildHeap st' \<and> index_ok st' = index_ok (setRef st k ref e d)"
    then show ?thesis using ix rebuildHeap_ok by metis
  next
    let ?x = "\<lparr>he_t = e, he_k = k, he_seq = s_seq st + 1\<rparr>"
    assume h: "s_heap (setRef st k ref e d) = (if e = 0 then s_heap st else heap_push (s_heap st) ?x)
       \<and> (e \<noteq> 0 \<longrightarrow> length (s_heap (setRef st k ref e d)) \<le> length (s_map (setRef st k ref e d)) * 2 + 64)"
    have "heap_covers (setRef st k ref e d)"
      using st ok h
      by (auto simp: heap_covers_def store_ok_def setRef_fields set_jm_set heap_push_ok set_heap_push heap_item_def)
    then show ?thesis using ix by (simp add: store_ok_def)
  qed
qed

text \<open>One turn of the expiry loop: the popped entry belongs to a record that is removed, or
  it is stale.\<close>

lemma expire_pop_covers:
  assumes "heap_covers st" "heap_peek (s_heap st) = Some e" "he_t e \<le> now"
    and "jm_ok (s_map st)"
    and stale: "\<And>r. jm_get (s_map st) (he_k e) = Some r \<Longrightarrow>
      \<not> (sr_seq r = he_seq e \<and> sr_expireAt r \<noteq> 0 \<and> sr_expireAt r \<le> now) \<or> gone"
    and "gone \<Longrightarrow> s_map st' = jm_delete (s_map st) (he_k e)"
    and "\<not> gone \<Longrightarrow> s_map st' = s_map st"
    and "s_heap st' = snd (heap_pop (s_heap st))"
  shows "heap_covers st'"
proof -
  have pop: "mset (s_heap st) = add_mset e (mset (s_heap st'))"
    using heap.pop_content [OF assms(2)] assms(8) by simp
  have heap: "x \<in> set (s_heap st) \<longleftrightarrow> x = e \<or> x \<in> set (s_heap st')" for x
    using arg_cong [OF pop, of set_mset] by simp
  have "heap_item k r \<in> set (s_heap st')" if kr: "(k, r) \<in> set (s_map st')" "sr_expireAt r \<noteq> 0" for k r
  proof -
    have old: "(k, r) \<in> set (s_map st)" "gone \<Longrightarrow> k \<noteq> he_k e"
      using kr assms(6,7) by (cases gone; simp add: set_jm_delete)+
    have "heap_item k r \<noteq> e"
    proof
      assume e: "heap_item k r = e"
      then have "\<not> gone" using old(2) by (auto simp: heap_item_def)
      moreover have "jm_get (s_map st) (he_k e) = Some r"
        using old(1) assms(4) e by (auto simp: jm_get_iff heap_item_def)
      ultimately show False using stale [of r] kr(2) e assms(3) by (auto simp: heap_item_def)
    qed
    moreover have "heap_item k r \<in> set (s_heap st)"
      using assms(1) old(1) kr(2) by (auto simp: heap_covers_def)
    ultimately show ?thesis using heap by blast
  qed
  moreover have "heap_ok (s_heap st')"
    using assms(1,8) heap.pop_ok by (simp add: heap_covers_def)
  ultimately show ?thesis by (auto simp: heap_covers_def)
qed

lemma expireKey_map: "s_map (expireKey st k r) = jm_delete (s_map st) k"
  by (auto simp: expireKey_eq store_remove_def jm_delete_absent)

lemma expireKey_maxPerTick [simp]: "s_maxPerTick (expireKey st k r) = s_maxPerTick st"
  by (auto simp: expireKey_eq store_remove_def)

text \<open>The four ways a turn can go.\<close>

lemma expire_loop_cases:
  obtains (stop) "expire_loop st now deadline clock n reaped = (st, reaped)"
      "\<And>e. heap_peek (s_heap st) = Some e \<Longrightarrow> now < he_t e"
  | (budget) e where "expire_loop st now deadline clock n reaped = (st, reaped)" "deadline \<le> clock n"
      "s_maxPerTick st \<le> n" "heap_peek (s_heap st) = Some e" "he_t e \<le> now"
  | (reap) e r where "heap_peek (s_heap st) = Some e" "he_t e \<le> now"
      "jm_get (s_map st) (he_k e) = Some r" "record_expired now r" "sr_seq r = he_seq e"
      "expire_loop st now deadline clock n reaped
       = expire_loop (expireKey (st\<lparr>s_heap := snd (heap_pop (s_heap st))\<rparr>) (he_k e) r) now deadline clock (n + 1) (reaped + 1)"
  | (stale) e where "heap_peek (s_heap st) = Some e" "he_t e \<le> now"
      "\<And>r. jm_get (s_map st) (he_k e) = Some r \<Longrightarrow> \<not> (sr_seq r = he_seq e \<and> record_expired now r)"
      "expire_loop st now deadline clock n reaped
       = expire_loop (st\<lparr>s_heap := snd (heap_pop (s_heap st))\<rparr>) now deadline clock (n + 1) reaped"
proof (cases "heap_peek (s_heap st)")
  case None
  then show ?thesis by (intro stop) (simp_all add: expire_loop.simps [of st now deadline clock n reaped])
next
  case (Some e)
  show ?thesis
  proof (cases "he_t e \<le> now")
    case False
    then show ?thesis using Some by (intro stop) (simp_all add: expire_loop.simps [of st now deadline clock n reaped])
  next
    case due: True
    show ?thesis
    proof (cases "n \<ge> s_maxPerTick st \<and> n mod 16 = 0 \<and> clock n \<ge> deadline")
      case True
      then show ?thesis using Some due by (intro budget) (simp_all add: expire_loop.simps [of st now deadline clock n reaped])
    next
      case go: False
      show ?thesis
      proof (cases "\<exists>r. jm_get (s_map st) (he_k e) = Some r \<and> sr_seq r = he_seq e \<and> record_expired now r")
        case True
        then obtain r where "jm_get (s_map st) (he_k e) = Some r" "sr_seq r = he_seq e" "record_expired now r"
          by blast
        then show ?thesis
          using Some due go 
          by (intro reap) (auto simp: record_expired_def Let_def expire_loop.simps [of st now deadline clock n reaped])
      next
        case False
        have "expire_loop st now deadline clock n reaped
            = expire_loop (st\<lparr>s_heap := snd (heap_pop (s_heap st))\<rparr>) now deadline clock (n + 1) reaped"
          using Some due go False
          by (subst expire_loop.simps) (auto simp: record_expired_def Let_def split: option.split)
        then show ?thesis using Some due False by (intro stale) auto
      qed
    qed
  qed
qed

text \<open>What every turn keeps, and what holds at the end, follows from these cases.\<close>

lemma expire_loop_induct [case_names stop budget reap stale]:
  assumes stop: "\<And>st n reaped. P st n reaped \<Longrightarrow> (\<And>e. heap_peek (s_heap st) = Some e \<Longrightarrow> now < he_t e) \<Longrightarrow> Q (st, reaped)"
    and budget: "\<And>st n reaped. P st n reaped \<Longrightarrow> deadline \<le> clock n \<Longrightarrow> Q (st, reaped)"
    and reap: "\<And>st n reaped e r. P st n reaped \<Longrightarrow> heap_peek (s_heap st) = Some e \<Longrightarrow> he_t e \<le> now \<Longrightarrow>
        jm_get (s_map st) (he_k e) = Some r \<Longrightarrow> record_expired now r \<Longrightarrow> sr_seq r = he_seq e \<Longrightarrow>
        P (expireKey (st\<lparr>s_heap := snd (heap_pop (s_heap st))\<rparr>) (he_k e) r) (n + 1) (reaped + 1)"
    and stale: "\<And>st n reaped e. P st n reaped \<Longrightarrow> heap_peek (s_heap st) = Some e \<Longrightarrow> he_t e \<le> now \<Longrightarrow>
        (\<And>r. jm_get (s_map st) (he_k e) = Some r \<Longrightarrow> \<not> (sr_seq r = he_seq e \<and> record_expired now r)) \<Longrightarrow>
        P (st\<lparr>s_heap := snd (heap_pop (s_heap st))\<rparr>) (n + 1) reaped"
  shows "P st n reaped \<Longrightarrow> Q (expire_loop st now deadline clock n reaped)"
proof (induction "length (s_heap st)" arbitrary: st n reaped rule: less_induct)
  case less
  have smaller: "length (snd (heap_pop (s_heap st))) < length (s_heap st)"
    if "heap_peek (s_heap st) = Some e" for e
    using heap.pop_size [OF that] by (simp add: heap_size_def)
  show ?case
  proof (cases rule: expire_loop_cases [of st now deadline clock n reaped])
    case s: stop
    show ?thesis unfolding s(1) by (rule stop [OF less.prems s(2)])
  next
    case b: (budget e)
    show ?thesis unfolding b(1) by (rule budget [OF less.prems b(2)])
  next
    case r: (reap e rr)
    show ?thesis
      unfolding r(6)
      by (rule less.hyps) (use smaller [OF r(1)] reap [OF less.prems r(1-5)] in simp_all)
  next
    case s: (stale e)
    show ?thesis
      unfolding s(4)
      by (rule less.hyps) (use smaller [OF s(1)] stale [OF less.prems s(1-3)] in simp_all)
  qed
qed

lemma expire_reap_ok:
  assumes "store_ok st" "heap_peek (s_heap st) = Some e" "he_t e \<le> now"
  shows "store_ok (expireKey (st\<lparr>s_heap := snd (heap_pop (s_heap st))\<rparr>) (he_k e) r)"
proof -
  let ?st1 = "st\<lparr>s_heap := snd (heap_pop (s_heap st))\<rparr>"
  have "heap_covers (expireKey ?st1 (he_k e) r)"
    by (rule expire_pop_covers [OF _ assms(2,3), where gone = True])
      (use assms(1) in \<open>auto simp: store_ok_def index_ok_def expireKey_map\<close>)
  moreover have "index_ok ?st1" using assms(1) by (simp add: store_ok_def index_ok_def)
  ultimately show ?thesis by (simp add: store_ok_def expireKey_index_ok)
qed

lemma expire_stale_ok:
  assumes "store_ok st" "heap_peek (s_heap st) = Some e" "he_t e \<le> now"
    and "\<And>r. jm_get (s_map st) (he_k e) = Some r \<Longrightarrow> \<not> (sr_seq r = he_seq e \<and> record_expired now r)"
  shows "store_ok (st\<lparr>s_heap := snd (heap_pop (s_heap st))\<rparr>)"
proof -
  let ?st1 = "st\<lparr>s_heap := snd (heap_pop (s_heap st))\<rparr>"
  have "heap_covers ?st1"
    by (rule expire_pop_covers [OF _ assms(2,3), where gone = False])
      (use assms(1,4) in \<open>auto simp: store_ok_def index_ok_def record_expired_def\<close>)
  then show ?thesis using assms(1) by (simp add: store_ok_def index_ok_def)
qed

lemma expire_loop_ok: "store_ok st \<Longrightarrow> store_ok (fst (expire_loop st now deadline clock n reaped))"
  by (rule expire_loop_induct [where P = "\<lambda>st n reaped. store_ok st" and Q = "\<lambda>p. store_ok (fst p)"])
    (auto intro: expire_reap_ok expire_stale_ok)

lemma activeExpire_ok [inv_intros]: "store_ok st \<Longrightarrow> store_ok (activeExpire st now clock)"
proof -
  assume st: "store_ok st"
  have upd: "store_ok (s\<lparr>s_expireAggressive := b\<rparr>) = store_ok s" for s b
    by (simp add: store_ok_def index_ok_def heap_covers_def)
  show ?thesis
    unfolding activeExpire_def Let_def
    using expire_loop_ok [OF st] by (auto simp: upd split: prod.split) (metis fst_conv)+
qed

lemma reap_entries_ok: "store_ok st \<Longrightarrow> store_ok (snd (reap_entries st now m n))"
  by (induction st now m n rule: reap_entries.induct) (auto intro: expireKey_ok)

lemma lookups_ok [inv_intros]:
  "store_ok st \<Longrightarrow> store_ok (snd (getRecord st k now))"
  "store_ok st \<Longrightarrow> store_ok (snd (store_get rd st k now))"
  "store_ok st \<Longrightarrow> store_ok (snd (store_has st k now))"
  by (auto simp: getRecord_def store_get_def store_has_def intro: expireKey_ok split: option.split)

lemma remap_record_simps [simp]:
  "sr_expireAt (remap_record f k r) = sr_expireAt r" "sr_seq (remap_record f k r) = sr_seq r"
  "sr_dt (remap_record f k r) = sr_dt r" "entry_bytes k (remap_record f k r) = entry_bytes k r"
  by (simp_all add: remap_record_def entry_bytes_def refBytes_def split: value_ref.split option.split)

lemma remapLocs_ok [inv_intros]: "store_ok st \<Longrightarrow> store_ok (remapLocs st f)"
  by (auto simp: store_ok_def index_ok_def heap_covers_def remapLocs_def jm_ok_def jm_keys_def heap_item_def
      o_def case_prod_unfold)

lemma raw_keys_ok: "store_ok st \<Longrightarrow> store_ok (snd (raw_keys st clock i ks))"
proof (induction ks arbitrary: st i)
  case (Cons k ks)
  then show ?case
    using lookups_ok(1) [OF Cons.prems, of k "clock i"]
    by (auto split: option.split prod.split) (metis snd_conv)+
qed simp

section \<open>The contents a client sees\<close>

text \<open>The abstract state: the live records at time \<open>now\<close>, without the bookkeeping.\<close>

definition view :: "int \<Rightarrow> store \<Rightarrow> string \<rightharpoonup> value_ref \<times> int \<times> dt option" where
  "view now st k =
     (case jm_get (s_map st) k of
        None \<Rightarrow> None
      | Some r \<Rightarrow> if record_expired now r then None else Some (sr_ref r, sr_expireAt r, sr_dt r))"

lemma view_remove: "view now (snd (store_remove st k)) = (view now st)(k := None)"
  by (rule ext) (auto simp: view_def store_remove_def jm_get_delete split: option.split)

lemma view_cong: "s_map st' = s_map st \<Longrightarrow> view now st' = view now st"
  by (rule ext) (simp add: view_def)

lemma view_expireKey: "view now (expireKey st k r) = (view now st)(k := None)"
  by (rule ext) (auto simp: view_def expireKey_map jm_get_delete split: option.split)

text \<open>Reaping an expired record changes nothing a client sees then or later.\<close>

lemma view_expireKey_expired:
  assumes "jm_get (s_map st) k = Some r" "record_expired now r" "now \<le> now'"
  shows "view now' (expireKey st k r') = view now' st"
proof -
  have "view now' st k = None" using assms by (auto simp: view_def record_expired_def)
  then show ?thesis by (auto simp: view_expireKey)
qed

lemma view_setRef:
  "view now (setRef st k ref e d)
     = (view now st)(k := if e \<noteq> 0 \<and> e \<le> now then None else Some (ref, e, d))"
  by (rule ext) (auto simp: view_def setRef_fields jm_get_set record_expired_def split: option.split)

lemma view_expire_loop:
  assumes "now \<le> now'"
  shows "view now' (fst (expire_loop st now deadline clock n reaped)) = view now' st"
proof (rule expire_loop_induct [where P = "\<lambda>s n reaped. view now' s = view now' st"
      and Q = "\<lambda>p. view now' (fst p) = view now' st"])
  fix s n reaped e r
  assume s: "view now' s = view now' st" "jm_get (s_map s) (he_k e) = Some r" "record_expired now r"
  let ?s1 = "s\<lparr>s_heap := snd (heap_pop (s_heap s))\<rparr>"
  have "view now' (expireKey ?s1 (he_k e) r) = view now' ?s1"
    using s assms by (intro view_expireKey_expired [of _ _ r now]) simp_all
  also have "\<dots> = view now' s" by (rule view_cong) simp
  finally show "view now' (expireKey ?s1 (he_k e) r) = view now' st" using s by simp
next
  fix s e assume "view now' s = view now' st"
  moreover have "view now' (s\<lparr>s_heap := snd (heap_pop (s_heap s))\<rparr>) = view now' s"
    by (rule view_cong) simp
  ultimately show "view now' (s\<lparr>s_heap := snd (heap_pop (s_heap s))\<rparr>) = view now' st" by simp
qed auto

text \<open>With the time budget never used up the loop ends with no entry due.\<close>

lemma expire_loop_none_due:
  assumes "store_ok st" "\<And>i. clock i < deadline"
  shows "(k, r) \<in> set (s_map (fst (expire_loop st now deadline clock n reaped))) \<Longrightarrow> \<not> record_expired now r"
proof -
  let ?Q = "\<lambda>p. \<forall>(k, r)\<in>set (s_map (fst p)). \<not> record_expired now r"
  have "?Q (expire_loop st now deadline clock n reaped)"
  proof (rule expire_loop_induct [where P = "\<lambda>s n reaped. store_ok s"])
    fix s n reaped
    assume s: "store_ok s" "\<And>e. heap_peek (s_heap s) = Some e \<Longrightarrow> now < he_t e"
    have "now < sr_expireAt r" if "(k, r) \<in> set (s_map s)" "sr_expireAt r \<noteq> 0" for k r
    proof -
      have "heap_item k r \<in># mset (s_heap s)" "heap_ok (s_heap s)"
        using s(1) that by (auto simp: store_ok_def heap_covers_def)
      then have "now < he_t (heap_item k r)" using heap.none_due s(2) by blast
      then show ?thesis by (simp add: heap_item_def)
    qed
    then show "?Q (s, reaped)" by (fastforce simp: record_expired_def)
  next
    fix s :: store and n reaped :: nat assume "deadline \<le> clock n"
    then show "?Q (s, reaped)" using assms(2) [of n] by simp
  qed (auto intro: expire_reap_ok expire_stale_ok assms(1))
  then show "(k, r) \<in> set (s_map (fst (expire_loop st now deadline clock n reaped))) \<Longrightarrow> \<not> record_expired now r"
    by auto
qed

text \<open>\<open>reapExpired\<close> filters the map.\<close>

lemma jm_delete_Cons_fresh:
  "k \<notin> set (jm_keys m) \<Longrightarrow> jm_delete (pre @ (k, r) # m) k = jm_delete pre k @ m"
  using jm_delete_absent [of m k] by (simp add: jm_get_None_iff) (simp add: jm_delete_def)

lemma reap_entries_map:
  "jm_ok (pre @ m) \<Longrightarrow> s_map st = pre @ m \<Longrightarrow>
     s_map (snd (reap_entries st now m n)) = pre @ filter (\<lambda>(k, r). \<not> record_expired now r) m
     \<and> fst (reap_entries st now m n) = n + length (filter (\<lambda>(k, r). record_expired now r) m)"
proof (induction m arbitrary: st pre n)
  case (Cons p m)
  obtain k r where p: "p = (k, r)" by (cases p)
  have fresh: "k \<notin> set (jm_keys m)" "k \<notin> set (jm_keys pre)"
    using Cons.prems(1) by (auto simp: p jm_ok_def jm_keys_def)
  show ?case
  proof (cases "record_expired now r")
    case True
    have "s_map (expireKey st k r) = pre @ m"
      using Cons.prems(2) fresh jm_delete_absent [of pre k]
      by (simp add: expireKey_map p jm_delete_Cons_fresh jm_get_None_iff)
    moreover have "jm_ok (pre @ m)" using Cons.prems(1) by (simp add: jm_ok_def)
    ultimately show ?thesis
      using Cons.IH [of pre "expireKey st k r" "n + 1"] True by (simp add: p record_expired_def)
  next
    case False
    then show ?thesis
      using Cons.IH [of "pre @ [p]" st n] Cons.prems by (auto simp: p record_expired_def)
  qed
qed simp

lemma reapExpired_map:
  assumes "store_ok st"
  shows "s_map (snd (reapExpired st now)) = filter (\<lambda>(k, r). \<not> record_expired now r) (s_map st)"
    and "fst (reapExpired st now) = length (filter (\<lambda>(k, r). record_expired now r) (s_map st))"
  using reap_entries_map [of "[]" "s_map st" st now 0] assms
  by (simp_all add: reapExpired_def store_ok_def index_ok_def)

lemma jm_get_filter:
  "jm_ok m \<Longrightarrow> jm_get (filter (\<lambda>(k, r). P r) m) k = (case jm_get m k of Some r \<Rightarrow> if P r then Some r else None | None \<Rightarrow> None)"
  by (induction m) (auto simp: jm_get_def jm_ok_def map_of_eq_None_iff split: option.split)

lemma view_reapExpired:
  assumes "store_ok st" "now \<le> now'"
  shows "view now' (snd (reapExpired st now)) = view now' st"
  using assms
  by (intro ext) (auto simp: view_def reapExpired_map jm_get_filter store_ok_def index_ok_def record_expired_def
      split: option.split)

section \<open>Runs of the store\<close>

datatype store_op =
    OpSet string value_ref int "dt option"
  | OpDel string
  | OpGet string int
  | OpHas string int
  | OpGetRecord string int
  | OpRawKeys range_options "nat \<Rightarrow> int"
  | OpActiveExpire int "nat \<Rightarrow> int"
  | OpReapExpired int
  | OpRemapLocs "string \<Rightarrow> value_loc \<Rightarrow> store_record \<Rightarrow> value_loc option"

fun store_step :: "store \<Rightarrow> store_op \<Rightarrow> store" where
  "store_step st (OpSet k ref e d) = setRef st k ref e d"
| "store_step st (OpDel k) = snd (store_del st k)"
| "store_step st (OpGet k now) = snd (store_get None st k now)"
| "store_step st (OpHas k now) = snd (store_has st k now)"
| "store_step st (OpGetRecord k now) = snd (getRecord st k now)"
| "store_step st (OpRawKeys opts clock) = snd (rawKeys st opts clock)"
| "store_step st (OpActiveExpire now clock) = activeExpire st now clock"
| "store_step st (OpReapExpired now) = snd (reapExpired st now)"
| "store_step st (OpRemapLocs f) = remapLocs st f"

interpretation store: op_machine store_step store_ok
proof
  fix st e assume "store_ok st"
  then show "store_ok (store_step st e)"
    by (cases e) (simp_all add: inv_intros store_del_def rawKeys_def raw_keys_ok reapExpired_def reap_entries_ok)
qed

text \<open>Counting the live keys.\<close>

lemma store_size_live:
  assumes "store_ok st"
  shows "store_size st now = card (dom (view now st))"
proof -
  let ?live = "filter (\<lambda>(k, r). \<not> record_expired now r) (s_map st)"
  have ok: "jm_ok (s_map st)" using assms by (simp add: store_ok_def index_ok_def)
  have "jm_ok ?live" using ok by (simp add: jm_ok_def distinct_map_filter)
  moreover have "dom (view now st) = dom (jm_get ?live)"
    by (auto simp: view_def jm_get_filter [OF ok] split: option.splits if_splits)
  ultimately have card: "card (dom (view now st)) = length ?live"
    using jm.card_keys [of ?live] by (simp add: jm_keys_def)
  have none: "?live = s_map st" if "s_expiring st = 0"
  proof -
    have "(\<Sum>(k, r)\<leftarrow>s_map st. if sr_expireAt r \<noteq> 0 then 1 else 0 :: int) = 0"
      using assms that by (simp add: store_ok_def index_ok_def)
    then have "\<forall>(k, r)\<in>set (s_map st). sr_expireAt r = 0"
      by (subst (asm) sum_list_nonneg_eq_0_iff) (force split: if_splits)+
    then show ?thesis by (auto simp: record_expired_def filter_id_conv)
  qed
  have "(\<lambda>(k :: string, r). sr_expireAt r = 0 \<or> sr_expireAt r > now) = (\<lambda>(k, r). \<not> record_expired now r)"
    by (auto simp: record_expired_def)
  then show ?thesis using card none by (simp add: store_size_def)
qed

lemma reap_raw_keys:
  assumes "store_ok st"
  shows "fst (raw_keys st (\<lambda>_. now) i ks) = filter (\<lambda>k. view now st k \<noteq> None) ks"
  using assms
proof (induction ks arbitrary: st i)
  case (Cons k ks)
  show ?case
  proof (cases "jm_get (s_map st) k")
    case None
    then show ?thesis using Cons by (simp add: getRecord_def view_def)
  next
    case (Some r)
    show ?thesis
    proof (cases "record_expired now r")
      case True
      have "view now (expireKey st k r) = view now st"
        using Some True by (intro view_expireKey_expired [of _ _ r now]) simp_all
      moreover have "view now st k = None" using Some True by (simp add: view_def)
      ultimately show ?thesis
        using Some True Cons.IH [OF expireKey_ok [OF Cons.prems]]
        by (simp add: getRecord_def record_expired_def)
    next
      case False
      then have "view now st k \<noteq> None" using Some by (simp add: view_def)
      then show ?thesis
        using Some False Cons.IH [OF Cons.prems]
        by (auto simp: getRecord_def record_expired_def case_prod_unfold)
    qed
  qed
qed simp

lemma range_all: "order_range xs all_keys = xs"
proof -
  have "range_walk (\<lambda>x. False) 0 None xs = xs" by (induction xs) auto
  then show ?thesis by (simp add: order_range_def all_keys_def past_def)
qed

abbreviation store_after :: "nat \<Rightarrow> int \<Rightarrow> store_op list \<Rightarrow> store" where
  "store_after maxPerTick budget ops \<equiv> run_ops store_step (new_store maxPerTick budget) ops"

lemma store_after_ok: "store_ok (store_after maxPerTick budget ops)"
  by (rule store.run_ok [OF new_store_ok])

section \<open>Properties\<close>

text \<open>C5: After every sequence of operations from the empty store, the bookkeeping is exact:
  the key index lists the keys of the map in ascending order without repetition, \<open>bytes\<close> is
  the sum of the entries' sizes, \<open>expiring\<close> counts the records with an expiry time, the
  heap is a heap, and every record with an expiry time has its entry in it.\<close>

theorem store_run_invariant:
  "store_ok (store_after maxPerTick budget ops)"
  by (rule store_after_ok)

text \<open>In every reachable state \<open>size\<close> is the number of keys that are live at the time of the
  call, also on the fast path taken when no record has an expiry time.\<close>

theorem store_size_counts_live:
  "store_size (store_after maxPerTick budget ops) now
     = card (dom (view now (store_after maxPerTick budget ops)))"
  by (rule store_size_live [OF store_after_ok])

text \<open>C6: The writes refine map updates: at any time \<open>now\<close> the contents after \<open>setRef\<close> are the
  contents before with the key bound to the new value (or unbound, if it is already
  expired), and after \<open>del\<close> the contents before without the key; \<open>del\<close> reports whether the
  map had the key.\<close>

theorem store_writes_refine_map:
  "view now (setRef st k ref e d) = (view now st)(k := if e \<noteq> 0 \<and> e \<le> now then None else Some (ref, e, d))
   \<and> view now (snd (store_del st k)) = (view now st)(k := None)
   \<and> fst (store_del st k) = jm_has (s_map st) k"
  by (simp add: view_setRef store_del_def view_remove)
    (simp add: store_remove_def jm_has_def split: option.split)

text \<open>The reads return the live contents: \<open>get\<close> returns the value of the live record (read
  from disk when it is a disk reference), \<open>has\<close> and \<open>getRecord\<close> agree with it, and the lazy
  expiration they do changes nothing that is visible then or later.\<close>

theorem store_reads_see_view:
  assumes "now \<le> now'"
  shows "fst (store_get rd st k now)
      = (case view now st k of None \<Rightarrow> Inr None | Some (ref, e, d) \<Rightarrow> map_sum id Some (materialize rd ref))
    \<and> (fst (store_has st k now) \<longleftrightarrow> view now st k \<noteq> None)
    \<and> map_option (\<lambda>r. (sr_ref r, sr_expireAt r, sr_dt r)) (fst (getRecord st k now)) = view now st k
    \<and> view now' (snd (store_get rd st k now)) = view now' st
    \<and> view now' (snd (store_has st k now)) = view now' st
    \<and> view now' (snd (getRecord st k now)) = view now' st"
proof (cases "jm_get (s_map st) k")
  case None
  then show ?thesis by (simp add: store_get_def store_has_def getRecord_def view_def)
next
  case (Some r)
  show ?thesis
  proof (cases "record_expired now r")
    case True
    then show ?thesis
      using Some view_expireKey_expired [OF Some True assms, of r]
      by (simp add: store_get_def store_has_def getRecord_def view_def [of now] record_expired_def [symmetric])
  next
    case False
    then show ?thesis
      using Some
      by (simp add: store_get_def store_has_def getRecord_def view_def [of now] record_expired_def [symmetric])
  qed
qed

theorem store_reads_see_view_witness:
  "let st = store_set (new_store 100 2) ''k'' [1, 2] 50 None in
     fst (store_get None st ''k'' 49) = Inr (Some [1, 2]) \<and> fst (store_get None st ''k'' 50) = Inr None
     \<and> view 60 (snd (store_get None st ''k'' 50)) = view 60 st"
proof -
  let ?st = "store_set (new_store 100 2) ''k'' [1, 2] 50 None"
  have v: "view now ?st = (view now (new_store 100 2))(''k'' := if 50 \<le> now then None else Some (Memory [1, 2], 50, None))"
    for now by (simp add: store_set_def view_setRef)
  show ?thesis
    using store_reads_see_view [of 49 49 None ?st "''k''"] store_reads_see_view [of 50 60 None ?st "''k''"] v
    by (simp add: materialize_def)
qed

text \<open>A tick of active expiration never changes what is visible from then on; in a reachable
  state, when the clock stays before the deadline, it leaves no expired record behind,
  although the heap also holds stale entries of overwritten and deleted keys.\<close>

theorem activeExpire_reaps_all:
  assumes "now \<le> now'"
    and "st = store_after maxPerTick budget ops"
    and "\<And>i. clock i < now + (if s_expireAggressive st then max (s_expireTimeBudgetMs st) 10 else s_expireTimeBudgetMs st)"
  shows "view now' (activeExpire st now clock) = view now' st
    \<and> (\<forall>(k, r)\<in>set (s_map (activeExpire st now clock)). \<not> (sr_expireAt r \<noteq> 0 \<and> sr_expireAt r \<le> now))"
proof -
  define deadline where
    "deadline = now + (if s_expireAggressive st then max (s_expireTimeBudgetMs st) 10 else s_expireTimeBudgetMs st)"
  obtain st' reaped where loop: "expire_loop st now deadline clock 0 0 = (st', reaped)" by (meson surj_pair)
  have act: "activeExpire st now clock = st'\<lparr>s_expireAggressive := reaped \<ge> s_maxPerTick st'\<rparr>"
    using loop by (simp add: activeExpire_def deadline_def)
  have "view now' st' = view now' st"
    using view_expire_loop [OF assms(1), of st deadline clock 0 0] loop by simp
  moreover have "view now' (activeExpire st now clock) = view now' st'"
    unfolding act by (rule view_cong) simp
  moreover have "store_ok st" unfolding assms(2) by (rule store_after_ok)
  then have "\<not> (sr_expireAt r \<noteq> 0 \<and> sr_expireAt r \<le> now)"
    if "(k, r) \<in> set (s_map (activeExpire st now clock))" for k r
    using expire_loop_none_due [of st clock deadline k r now 0 0] loop assms(3) that
    by (simp add: act record_expired_def deadline_def)
  ultimately show ?thesis by auto
qed

theorem activeExpire_reaps_all_witness:
  "let st = store_after 100 2 [OpSet ''a'' (Memory []) 5 None, OpSet ''a'' (Memory []) 9 None,
       OpSet ''b'' (Memory []) 7 None] in
     view 8 (activeExpire st 8 (\<lambda>_. 8)) = view 8 st
     \<and> (\<forall>(k, r)\<in>set (s_map (activeExpire st 8 (\<lambda>_. 8))). \<not> (sr_expireAt r \<noteq> 0 \<and> sr_expireAt r \<le> 8))"
proof -
  let ?ops = "[OpSet ''a'' (Memory []) 5 None, OpSet ''a'' (Memory []) 9 None, OpSet ''b'' (Memory []) 7 None]"
  let ?st = "store_after 100 2 ?ops"
  have "s_expireTimeBudgetMs ?st = 2"
    by (simp add: setRef_config new_store_def)
  then have "8 < 8 + (if s_expireAggressive ?st then max (s_expireTimeBudgetMs ?st) 10 else s_expireTimeBudgetMs ?st)"
    by simp
  then show ?thesis
    using activeExpire_reaps_all [of 8 8 ?st 100 2 ?ops "\<lambda>_. 8"] by (simp only: Let_def) simp
qed

text \<open>In a reachable state \<open>reapExpired\<close> removes exactly the expired records, returns how many
  they were, and changes nothing that is visible then or later.\<close>

theorem reapExpired_exact:
  assumes "now \<le> now'" "st = store_after maxPerTick budget ops"
  shows "s_map (snd (reapExpired st now)) = filter (\<lambda>(k, r). \<not> record_expired now r) (s_map st)
    \<and> fst (reapExpired st now) = length (filter (\<lambda>(k, r). record_expired now r) (s_map st))
    \<and> view now' (snd (reapExpired st now)) = view now' st"
proof -
  have ok: "store_ok st" unfolding assms(2) by (rule store_after_ok)
  show ?thesis using reapExpired_map [OF ok, of now] view_reapExpired [OF ok assms(1)] by simp
qed

theorem reapExpired_exact_witness:
  "let st = store_after 100 2 [OpSet ''a'' (Memory []) 5 None, OpSet ''b'' (Memory []) 0 None] in
     fst (reapExpired st 5) = 1 \<and> view 6 (snd (reapExpired st 5)) = view 6 st"
proof -
  let ?ops = "[OpSet ''a'' (Memory []) 5 None, OpSet ''b'' (Memory []) 0 None]"
  have "length (filter (\<lambda>(k, r). record_expired 5 r) (s_map (store_after 100 2 ?ops))) = 1"
    by (simp add: setRef_fields new_store_def record_expired_def)
  then show ?thesis
    using reapExpired_exact [of 5 6 "store_after 100 2 ?ops" 100 2 ?ops] by (simp add: Let_def)
qed

text \<open>The heap of expiry times stays bounded under overwrites: after a \<open>setRef\<close> with an
  expiry time it has at most twice as many entries as the map has keys, plus 64.\<close>

theorem setRef_bounds_heap:
  "e \<noteq> 0 \<Longrightarrow> length (s_heap (setRef st k ref e d)) \<le> 2 * length (s_map (setRef st k ref e d)) + 64"
proof -
  assume e: "e \<noteq> 0"
  have "length (s_heap (rebuildHeap s)) \<le> 2 * length (s_map (rebuildHeap s)) + 64" for s
    using heap_size_rebuild [of s] by (simp add: rebuildHeap_def)
  then show ?thesis using setRef_heap [of st k ref e d] e by (metis mult.commute)
qed

theorem setRef_bounds_heap_witness:
  "length (s_heap (setRef (new_store 100 2) ''k'' (Memory []) 5 None)) \<le> 66"
proof -
  have "length (s_map (setRef (new_store 100 2) ''k'' (Memory []) 5 None)) = 1"
    by (simp add: setRef_fields new_store_def)
  then show ?thesis using setRef_bounds_heap [of 5 "new_store 100 2" "''k''" "Memory []" None] by simp
qed

text \<open>In a reachable state a full ordered key scan yields exactly the live keys, in ascending
  order and each once.\<close>

theorem rawKeys_live_sorted:
  "let st = store_after maxPerTick budget ops; ks = fst (rawKeys st all_keys (\<lambda>_. now))
   in set ks = dom (view now st) \<and> sorted ks \<and> distinct ks"
proof -
  define st where "st = store_after maxPerTick budget ops"
  have ok: "store_ok st" unfolding st_def by (rule store_after_ok)
  have keys: "fst (rawKeys st all_keys (\<lambda>_. now)) = filter (\<lambda>k. view now st k \<noteq> None) (s_order st)"
    by (simp add: rawKeys_def range_all reap_raw_keys [OF ok])
  have order: "sorted (s_order st)" "distinct (s_order st)" "set (s_order st) = set (jm_keys (s_map st))"
    using ok by (simp_all add: store_ok_def index_ok_def)
  have "k \<in> set (jm_keys (s_map st))" if "view now st k \<noteq> None" for k
    using that jm_get_None_iff [of "s_map st" k] by (auto simp: view_def split: option.splits)
  then show ?thesis
    using order by (auto simp: keys Let_def sorted_filter [where f = "\<lambda>x. x", simplified] simp flip: st_def)
qed

end
