(* ===== verification/Recovery.thy ===== *)
theory Recovery
  imports Codec_Scan Store
begin

text \<open>
  Startup recovery and replica catch-up, \<open>packages/minidb/src/recovery.ts\<close>: the snapshot is
  loaded, the log is replayed on top, the last write of a key wins, and a torn tail of the
  log is cut off.

  \<open>JSON.parse\<close> of a record's metadata is the argument \<open>json\<close>, which may fail; the results
  hold for every such function. \<open>Date.clock()\<close> is read anew for every record with a time to live: the reading is an
  arbitrary function \<open>clock\<close> of the file and the place in it where the record's value starts, which tells all records apart.
\<close>

datatype recovery_error = ScanFailed codec_error | ReadFailed codec_error | MetaInvalid

datatype value_mode = MemoryMode | DiskMode

type_synonym clock = "value_file \<Rightarrow> nat \<Rightarrow> int"

definition readAtSync :: "buffer \<Rightarrow> nat \<Rightarrow> nat \<Rightarrow> recovery_error + buffer" where
  "readAtSync fd off len =
     (if len = 0 then Inr [] else map_sum ReadFailed id (readExactSync fd len off))"

definition parseMeta :: "(buffer \<Rightarrow> dt option option) \<Rightarrow> buffer option \<Rightarrow> recovery_error + dt option" where
  "parseMeta json meta =
     (case meta of
        None \<Rightarrow> Inr None
      | Some m \<Rightarrow> (case json m of None \<Rightarrow> Inl MetaInvalid | Some d \<Rightarrow> Inr d))"

record recovered_op =
  rop_type :: nat
  rop_key :: buffer
  rop_ref :: "value_ref option"
  rop_expireAt :: int
  rop_dt :: "dt option"

definition del_op :: "buffer \<Rightarrow> recovered_op" where
  "del_op key = \<lparr>rop_type = TYPE_DEL, rop_key = key, rop_ref = None, rop_expireAt = 0, rop_dt = None\<rparr>"

text \<open>A generator's result: the operations it yields and the error it ends with, if any.\<close>

type_synonym op_stream = "recovered_op list \<times> recovery_error option"

definition setRefToOps ::
    "(buffer \<Rightarrow> dt option option) \<Rightarrow> clock \<Rightarrow> buffer \<Rightarrow> nat \<Rightarrow> nat \<Rightarrow> buffer option \<Rightarrow> int
      \<Rightarrow> value_file \<Rightarrow> buffer \<Rightarrow> value_mode \<Rightarrow> op_stream" where
  "setRefToOps json clock key valueOff valLen meta expireAt fl fd valueMode =
     (if expireAt \<noteq> 0 \<and> expireAt \<le> clock fl valueOff then ([del_op key], None)
      else (case parseMeta json meta of
              Inl e \<Rightarrow> ([], Some e)
            | Inr d \<Rightarrow>
                (case (if valueMode = DiskMode
                       then Inr (Disk \<lparr>l_file = fl, l_off = valueOff, l_len = valLen\<rparr>)
                       else map_sum id Memory (readAtSync fd valueOff valLen)) of
                   Inl e \<Rightarrow> ([], Some e)
                 | Inr ref \<Rightarrow>
                     ([\<lparr>rop_type = TYPE_SET, rop_key = key, rop_ref = Some ref,
                        rop_expireAt = expireAt, rop_dt = d\<rparr>], None))))"

fun batchToOps ::
    "(buffer \<Rightarrow> dt option option) \<Rightarrow> clock \<Rightarrow> value_file \<Rightarrow> buffer \<Rightarrow> value_mode \<Rightarrow> batch_op_ref list \<Rightarrow> op_stream" where
  "batchToOps json clock fl fd valueMode [] = ([], None)"
| "batchToOps json clock fl fd valueMode (op # ops) =
     (case (if o_type op = TYPE_SET
            then setRefToOps json clock (o_key op) (o_valueOff op) (o_valLen op) (o_meta op) (o_expireAt op) fl fd valueMode
            else if o_type op = TYPE_DEL then ([del_op (o_key op)], None)
            else ([], None)) of
        (xs, Some e) \<Rightarrow> (xs, Some e)
      | (xs, None) \<Rightarrow> (case batchToOps json clock fl fd valueMode ops of (ys, e) \<Rightarrow> (xs @ ys, e)))"

definition frameToOps ::
    "(buffer \<Rightarrow> dt option option) \<Rightarrow> clock \<Rightarrow> frame_ref \<Rightarrow> value_file \<Rightarrow> buffer \<Rightarrow> value_mode \<Rightarrow> op_stream" where
  "frameToOps json clock f fl fd valueMode =
     (if r_type f = TYPE_SET then
        setRefToOps json clock (r_key f) (r_valueOff f) (r_valLen f) (r_meta f) (r_expireAt f) fl fd valueMode
      else if r_type f = TYPE_DEL then ([del_op (r_key f)], None)
      else if r_type f = TYPE_BATCH then
        (case readAtSync fd (r_valueOff f) (r_valLen f) of
           Inl e \<Rightarrow> ([], None)
         | Inr body \<Rightarrow>
             (case scanBatchOpRefs body (r_valueOff f) of
                Inl e \<Rightarrow> ([], None)
              | Inr ops \<Rightarrow> batchToOps json clock fl fd valueMode ops))
      else ([], None))"

definition apply_op :: "store \<Rightarrow> recovered_op \<Rightarrow> store" where
  "apply_op st op =
     (if rop_type op = TYPE_SET then
        (case rop_ref op of
           Some ref \<Rightarrow> setRef st (toKStr (rop_key op)) ref (rop_expireAt op) (rop_dt op)
         | None \<Rightarrow> st)
      else if rop_type op = TYPE_DEL then snd (store_del st (toKStr (rop_key op)))
      else st)"

fun applyFrames ::
    "(buffer \<Rightarrow> dt option option) \<Rightarrow> clock \<Rightarrow> frame_ref list \<Rightarrow> value_file \<Rightarrow> buffer \<Rightarrow> store \<Rightarrow> value_mode
      \<Rightarrow> store \<times> recovery_error option" where
  "applyFrames json clock [] fl fd st valueMode = (st, None)"
| "applyFrames json clock (f # fs) fl fd st valueMode =
     (case frameToOps json clock f fl fd valueMode of
        (ops, err) \<Rightarrow>
          let st' = foldl apply_op st ops in
          (case err of
             Some e \<Rightarrow> (st', Some e)
           | None \<Rightarrow> applyFrames json clock fs fl fd st' valueMode))"

record disk_file =
  d_content :: buffer
  d_dev :: nat
  d_ino :: nat

record recovery_info =
  i_snapshotFrames :: nat
  i_walFrames :: nat
  i_truncatedWal :: bool
  i_corruptRanges :: "range list"
  i_snapshotCorruptRanges :: "range list"
  i_lostBytes :: nat
  i_walScanEnd :: nat
  i_walDev :: nat
  i_walIno :: nat

text \<open>One file of \<open>recover\<close>: scan it and apply what was found.\<close>

definition load_file ::
    "(buffer \<Rightarrow> dt option option) \<Rightarrow> clock \<Rightarrow> corrupt_mode \<Rightarrow> value_file \<Rightarrow> buffer \<Rightarrow> store \<Rightarrow> value_mode
      \<Rightarrow> store \<times> (recovery_error + nat \<times> range list \<times> nat)" where
  "load_file json clock mode fl fd st valueMode =
     (case scanFrameRefsFd fd mode 0 of
        Inl e \<Rightarrow> (st, Inl (ScanFailed e))
      | Inr (frames, corrupt, eof) \<Rightarrow>
          (case applyFrames json clock frames fl fd st valueMode of
             (st', Some e) \<Rightarrow> (st', Inl e)
           | (st', None) \<Rightarrow> (st', Inr (length frames, corrupt, eof))))"

text \<open>\<open>recover\<close>: the result, the store and the log file as it is left.\<close>

definition recover ::
    "(buffer \<Rightarrow> dt option option) \<Rightarrow> clock \<Rightarrow> buffer option \<Rightarrow> disk_file option \<Rightarrow> store \<Rightarrow> corrupt_mode \<Rightarrow> bool \<Rightarrow> value_mode
      \<Rightarrow> (recovery_error + recovery_info) \<times> store \<times> disk_file option" where
  "recover json clock snap wal st mode trunc valueMode =
     (case (case snap of
              None \<Rightarrow> (st, Inr (0, [], 0))
            | Some fd \<Rightarrow> load_file json clock mode SnapshotFile fd st valueMode) of
        (st1, Inl e) \<Rightarrow> (Inl e, st1, wal)
      | (st1, Inr (snapshotFrames, snapshotCorrupt, _)) \<Rightarrow>
          (case wal of
             None \<Rightarrow>
               (Inr \<lparr>i_snapshotFrames = snapshotFrames, i_walFrames = 0, i_truncatedWal = False,
                     i_corruptRanges = [], i_snapshotCorruptRanges = snapshotCorrupt,
                     i_lostBytes = range_bytes ([] @ snapshotCorrupt),
                     i_walScanEnd = 0, i_walDev = 0, i_walIno = 0\<rparr>, st1, None)
           | Some w \<Rightarrow>
               (case load_file json clock mode WalFile (d_content w) st1 valueMode of
                  (st2, Inl e) \<Rightarrow> (Inl e, st2, wal)
                | (st2, Inr (walFrames, walCorrupt, eof)) \<Rightarrow>
                    (let torn = (walCorrupt \<noteq> [] \<and> snd (last walCorrupt) = length (d_content w));
                         truncated = (torn \<and> trunc)
                     in (Inr \<lparr>i_snapshotFrames = snapshotFrames, i_walFrames = walFrames,
                              i_truncatedWal = truncated, i_corruptRanges = walCorrupt,
                              i_snapshotCorruptRanges = snapshotCorrupt,
                              i_lostBytes = range_bytes (walCorrupt @ snapshotCorrupt),
                              i_walScanEnd = eof, i_walDev = d_dev w, i_walIno = d_ino w\<rparr>,
                         st2,
                         Some (if truncated
                               then w\<lparr>d_content := take (fst (last walCorrupt)) (d_content w)\<rparr>
                               else w))))))"

text \<open>\<open>catchUpWal\<close>: \<open>apply\<close> is the caller's callback, threaded over its state. \<open>None\<close> is the
  result \<open>null\<close>, which asks the caller to reopen.\<close>

definition catchUpWal ::
    "disk_file option \<Rightarrow> int \<Rightarrow> nat \<times> nat \<Rightarrow> ('s \<Rightarrow> frame_ref \<Rightarrow> buffer \<Rightarrow> 's) \<Rightarrow> 's
      \<Rightarrow> (recovery_error + (int \<times> nat) option) \<times> 's" where
  "catchUpWal wal offset anchor apply s =
     (case wal of
        None \<Rightarrow> (Inr None, s)
      | Some w \<Rightarrow>
          (if (d_dev w, d_ino w) \<noteq> anchor then (Inr None, s)
           else let fd = d_content w; fsize = length fd in
             (if offset < 0 \<or> offset > int fsize then (Inr None, s)
              else (case scanFrameRefsFd fd Strict (nat offset) of
                      Inl e \<Rightarrow> (Inl (ScanFailed e), s)
                    | Inr (frames, _, eof) \<Rightarrow>
                        (if length frames = 0 \<and> eof < fsize then
                           (let n = min (length MAGIC) (fsize - nat offset) in
                            (case readAtSync fd (nat offset) n of
                               Inl e \<Rightarrow> (Inl e, s)
                             | Inr head \<Rightarrow>
                                 (if take n MAGIC \<noteq> head then (Inr None, s)
                                  else (Inr (Some (offset, 0)), s))))
                         else (Inr (Some (int eof, length frames)),
                               foldl (\<lambda>s f. apply s f fd) s frames))))))"

section \<open>What the files say\<close>

text \<open>The specification: the contents as a map from keys to value bytes, expiry time and date
  columns, and the effect of one frame on it.\<close>

type_synonym contents = "string \<rightharpoonup> buffer \<times> int \<times> dt option"

definition put :: "(buffer \<Rightarrow> dt option) \<Rightarrow> int \<Rightarrow> buffer \<Rightarrow> buffer \<Rightarrow> buffer option \<Rightarrow> int \<Rightarrow> contents \<Rightarrow> contents" where
  "put dtof now key v meta e c =
     c(toKStr key := if e \<noteq> 0 \<and> e \<le> now then None
                     else Some (v, e, case meta of None \<Rightarrow> None | Some m \<Rightarrow> dtof m))"

definition batch_effect :: "(buffer \<Rightarrow> dt option) \<Rightarrow> int \<Rightarrow> contents \<Rightarrow> batch_op \<Rightarrow> contents" where
  "batch_effect dtof now c op =
     (if b_type op = TYPE_SET then put dtof now (b_key op) (buf_or_empty (b_value op)) (b_meta op) (b_expireAt op) c
      else if b_type op = TYPE_DEL then c(toKStr (b_key op) := None)
      else c)"

definition frame_effect :: "(buffer \<Rightarrow> dt option) \<Rightarrow> int \<Rightarrow> contents \<Rightarrow> frame \<Rightarrow> contents" where
  "frame_effect dtof now c f =
     (if f_type f = TYPE_SET then put dtof now (f_key f) (f_value f) (f_meta f) (f_expireAt f) c
      else if f_type f = TYPE_DEL then c(toKStr (f_key f) := None)
      else if f_type f = TYPE_BATCH then
        (case decodeBatchOps (f_value f) of
           Inl e \<Rightarrow> c
         | Inr ops \<Rightarrow> foldl (batch_effect dtof now) c ops)
      else c)"

text \<open>The contents of a store: disk references are read from the files.\<close>

definition deref :: "(value_file \<Rightarrow> buffer) \<Rightarrow> value_ref \<Rightarrow> buffer" where
  "deref files ref =
     (case ref of
        Memory v \<Rightarrow> v
      | Disk loc \<Rightarrow> subarray (files (l_file loc)) (l_off loc) (l_off loc + l_len loc))"

definition contents_of :: "(value_file \<Rightarrow> buffer) \<Rightarrow> int \<Rightarrow> store \<Rightarrow> contents" where
  "contents_of files now st k = map_option (\<lambda>(ref, e, d). (deref files ref, e, d)) (view now st k)"

lemma contents_setRef:
  "contents_of files now (setRef st k ref e d)
     = (contents_of files now st)(k := if e \<noteq> 0 \<and> e \<le> now then None else Some (deref files ref, e, d))"
  by (rule ext) (simp add: contents_of_def view_setRef)

lemma contents_del: "contents_of files now (snd (store_del st k)) = (contents_of files now st)(k := None)"
  by (rule ext) (simp add: contents_of_def store_del_def view_remove)

section \<open>Replay implements the specification\<close>

lemma readAtSync_ok: "off + len \<le> length fd \<Longrightarrow> readAtSync fd off len = Inr (subarray fd off (off + len))"
  by (simp add: readAtSync_def readExactSync_ok) (simp add: subarray_def)

text \<open>All readings of the clock lie before \<open>now\<close>.\<close>

definition clock_before :: "clock \<Rightarrow> int \<Rightarrow> bool" where
  "clock_before clock now \<longleftrightarrow> (\<forall>fl off. clock fl off \<le> now)"

text \<open>A set, in both value modes.\<close>

lemma setRefToOps_effect:
  assumes "off + len \<le> length (files fl)" "\<And>m. meta = Some m \<Longrightarrow> json m = Some (dtof m)" "clock_before clock now"
  shows "\<exists>ops. setRefToOps json clock key off len meta e fl (files fl) vm = (ops, None)
    \<and> contents_of files now (foldl apply_op st ops)
      = put dtof now key (subarray (files fl) off (off + len)) meta e (contents_of files now st)"
proof (cases "e \<noteq> 0 \<and> e \<le> clock fl off")
  case True
  then show ?thesis
    using assms(3) [unfolded clock_before_def, rule_format, of fl off] by (simp add: setRefToOps_def del_op_def apply_op_def put_def contents_del TYPE_SET_def TYPE_DEL_def)
next
  case False
  define d where "d = (case meta of None \<Rightarrow> None | Some m \<Rightarrow> dtof m)"
  have meta: "parseMeta json meta = Inr d"
    using assms(2) by (simp add: parseMeta_def d_def split: option.split)
  obtain ref where ref: "(if vm = DiskMode then Inr (Disk \<lparr>l_file = fl, l_off = off, l_len = len\<rparr>)
      else map_sum id Memory (readAtSync (files fl) off len)) = Inr ref"
      "deref files ref = subarray (files fl) off (off + len)"
    using readAtSync_ok [OF assms(1)] by (cases vm) (auto simp: deref_def)
  show ?thesis
    by (simp add: setRefToOps_def if_not_P [OF False] meta ref apply_op_def put_def contents_setRef TYPE_SET_def
        flip: d_def)
qed

lemma scan_ops_bounds:
  "scan_ops n body bodyOff off = Inr ops \<Longrightarrow> op \<in> set ops \<Longrightarrow> o_valueOff op + o_valLen op \<le> bodyOff + length body"
proof (induction n arbitrary: off ops)
  case (Suc n)
  show ?case
    using Suc.prems Suc.IH by (auto simp: Let_def split: if_splits sum.splits)
qed simp

lemma batchToOps_effect:
  assumes "\<And>op. op \<in> set ops \<Longrightarrow> o_valueOff op + o_valLen op \<le> length (files fl)"
    and json: "\<And>op m. op \<in> set ops \<Longrightarrow> o_type op = TYPE_SET \<Longrightarrow> o_meta op = Some m \<Longrightarrow> json m = Some (dtof m)"
    and clock: "clock_before clock now"
  shows "\<exists>xs. batchToOps json clock fl (files fl) vm ops = (xs, None)
    \<and> contents_of files now (foldl apply_op st xs)
      = foldl (batch_effect dtof now) (contents_of files now st) (map (op_of_ref (files fl)) ops)"
  using assms(1,2)
proof (induction ops arbitrary: st)
  case Nil
  show ?case by simp
next
  case (Cons op ops)
  let ?one = "if o_type op = TYPE_SET
      then setRefToOps json clock (o_key op) (o_valueOff op) (o_valLen op) (o_meta op) (o_expireAt op) fl (files fl) vm
      else if o_type op = TYPE_DEL then ([del_op (o_key op)], None) else ([], None)"
  obtain xs where xs: "?one = (xs, None)" "contents_of files now (foldl apply_op st xs)
      = batch_effect dtof now (contents_of files now st) (op_of_ref (files fl) op)"
  proof (cases "o_type op = TYPE_SET")
    case True
    then show ?thesis
      using that setRefToOps_effect [of "o_valueOff op" "o_valLen op" files fl "o_meta op" json dtof clock now "o_key op"
          "o_expireAt op" vm st] Cons.prems(1) [of op] Cons.prems(2) [of op] clock
      by (auto simp: batch_effect_def op_of_ref_def buf_or_empty_def)
  next
    case False
    then show ?thesis
      using that
      by (cases "o_type op = TYPE_DEL")
        (auto simp: batch_effect_def op_of_ref_def del_op_def apply_op_def contents_del TYPE_SET_def TYPE_DEL_def)
  qed
  obtain ys where "batchToOps json clock fl (files fl) vm ops = (ys, None)"
      "contents_of files now (foldl apply_op (foldl apply_op st xs) ys)
        = foldl (batch_effect dtof now) (contents_of files now (foldl apply_op st xs)) (map (op_of_ref (files fl)) ops)"
    using Cons.IH [of "foldl apply_op st xs"] Cons.prems by auto
  then show ?case using xs by simp
qed

text \<open>The metadata that replaying a frame may parse.\<close>

definition frame_metas :: "frame \<Rightarrow> buffer set" where
  "frame_metas f =
     (if f_type f = TYPE_SET then set_option (f_meta f)
      else if f_type f = TYPE_BATCH then
        (case decodeBatchOps (f_value f) of
           Inl e \<Rightarrow> {}
         | Inr ops \<Rightarrow> {m. \<exists>op \<in> set ops. b_type op = TYPE_SET \<and> b_meta op = Some m})
      else {})"

lemma frameToOps_effect:
  assumes fits: "r_valueOff f + r_valLen f \<le> length (files fl)"
    and json: "\<And>m. m \<in> frame_metas (frame_of_ref (files fl) f) \<Longrightarrow> json m = Some (dtof m)" and clock: "clock_before clock now"
  shows "\<exists>ops. frameToOps json clock f fl (files fl) vm = (ops, None)
    \<and> contents_of files now (foldl apply_op st ops)
      = frame_effect dtof now (contents_of files now st) (frame_of_ref (files fl) f)"
proof -
  consider "r_type f = TYPE_SET" | "r_type f = TYPE_DEL" | "r_type f = TYPE_BATCH"
    | "r_type f \<noteq> TYPE_SET" "r_type f \<noteq> TYPE_DEL" "r_type f \<noteq> TYPE_BATCH" by blast
  then show ?thesis
  proof cases
    case 1
    then show ?thesis
      using setRefToOps_effect [where files = files and fl = fl and json = json and dtof = dtof and meta = "r_meta f" and clock = clock and now = now
          and key = "r_key f" and e = "r_expireAt f" and vm = vm and st = st, OF fits] json clock
      by (simp add: frameToOps_def frame_effect_def frame_of_ref_def frame_metas_def)
  next
    case 2
    then show ?thesis
      by (simp add: frameToOps_def frame_effect_def frame_of_ref_def del_op_def apply_op_def contents_del
          TYPE_SET_def TYPE_DEL_def)
  next
    case 3
    let ?fd = "files fl" and ?off = "r_valueOff f" and ?len = "r_valLen f"
    let ?body = "subarray ?fd ?off (?off + ?len)"
    have split: "take ?off ?fd @ ?body @ drop (?off + ?len) ?fd = ?fd"
    proof -
      have "drop ?off ?fd = ?body @ drop (?off + ?len) ?fd"
        by (simp add: subarray_def flip: drop_drop add.commute)
      then show ?thesis by (metis append_take_drop_id)
    qed
    have len: "length (take ?off ?fd) = ?off" "length ?body = ?len" using fits by simp_all
    have dec: "map_sum id (map (op_of_ref ?fd)) (scanBatchOpRefs ?body ?off) = decodeBatchOps ?body"
      using scan_ops_eq [of "take ?off ?fd" ?body "drop (?off + ?len) ?fd"] split len(1)
      by (simp add: scanBatchOpRefs_def decodeBatchOps_def)
    have type: "r_type f \<noteq> TYPE_SET" "r_type f \<noteq> TYPE_DEL" using 3 by (simp_all add: codec_consts)
    show ?thesis
    proof (cases "scanBatchOpRefs ?body ?off")
      case (Inl e)
      then show ?thesis
        using 3 type dec readAtSync_ok [OF fits]
        by (simp add: frameToOps_def frame_effect_def frame_of_ref_def flip: dec)
    next
      case (Inr ops)
      have "o_valueOff op + o_valLen op \<le> length ?fd" if "op \<in> set ops" for op
        using scan_ops_bounds [of _ ?body ?off 2 ops op] Inr that len fits
        by (fastforce simp: scanBatchOpRefs_def split: if_splits)
      moreover have "json m = Some (dtof m)" if "op \<in> set ops" "o_type op = TYPE_SET" "o_meta op = Some m" for op m
      proof (rule json)
        have "decodeBatchOps ?body = Inr (map (op_of_ref ?fd) ops)" using dec Inr by simp
        then show "m \<in> frame_metas (frame_of_ref ?fd f)"
          using 3 type that by (auto simp: frame_metas_def frame_of_ref_def op_of_ref_def intro!: bexI [of _ op])
      qed
      ultimately show ?thesis
        using batchToOps_effect [where files = files and fl = fl and json = json and dtof = dtof and ops = ops and vm = vm and st = st, OF _ _ clock]
          3 type Inr readAtSync_ok [OF fits]
        by (simp add: frameToOps_def frame_effect_def frame_of_ref_def flip: dec)
    qed
  next
    case 4
    then show ?thesis by (simp add: frameToOps_def frame_effect_def frame_of_ref_def)
  qed
qed

lemma applyFrames_effect:
  assumes "\<And>f. f \<in> set refs \<Longrightarrow> r_valueOff f + r_valLen f \<le> length (files fl)"
    and "\<And>f m. f \<in> set refs \<Longrightarrow> m \<in> frame_metas (frame_of_ref (files fl) f) \<Longrightarrow> json m = Some (dtof m)" and clock: "clock_before clock now"
  shows "\<exists>st'. applyFrames json clock refs fl (files fl) st vm = (st', None)
    \<and> contents_of files now st'
      = foldl (frame_effect dtof now) (contents_of files now st) (map (frame_of_ref (files fl)) refs)"
  using assms(1,2)
proof (induction refs arbitrary: st)
  case (Cons f refs)
  obtain ops where ops: "frameToOps json clock f fl (files fl) vm = (ops, None)"
      "contents_of files now (foldl apply_op st ops)
       = frame_effect dtof now (contents_of files now st) (frame_of_ref (files fl) f)"
    using frameToOps_effect [where files = files and fl = fl and json = json and dtof = dtof and f = f and vm = vm and st = st, OF _ _ clock] Cons.prems by auto
  moreover have "\<exists>st'. applyFrames json clock refs fl (files fl) (foldl apply_op st ops) vm = (st', None)
    \<and> contents_of files now st'
      = foldl (frame_effect dtof now) (contents_of files now (foldl apply_op st ops)) (map (frame_of_ref (files fl)) refs)"
    by (rule Cons.IH) (use Cons.prems in auto)
  ultimately show ?case by simp
qed simp

section \<open>Loading a file\<close>

lemma ref_at_fits:
  "pos + frame_len_at fd pos \<le> length fd \<Longrightarrow> r_valueOff (ref_at fd pos) + r_valLen (ref_at fd pos) \<le> length fd"
  by (simp add: ref_at_def frame_len_at_def)

lemma scan_loop_fits:
  "scan_loop mode fd pos = Inr (refs, cr, eof) \<Longrightarrow> f \<in> set refs \<Longrightarrow> r_valueOff f + r_valLen f \<le> length fd"
proof (induction mode fd pos arbitrary: refs cr eof rule: scan_loop.induct)
  case (1 mode fd pos)
  have read: "readFrameRefAt fd pos (length fd) = Inr (if readFrameAt fd pos = None then None else Some (ref_at fd pos))"
    if "pos < length fd" using that by (intro readFrameRefAt_eq) simp
  note unfold = scan_loop.simps [of mode fd pos]
  consider "\<not> pos < length fd" | p where "pos < length fd" "readFrameAt fd pos = Some p"
    | "pos < length fd" "readFrameAt fd pos = None" by fastforce
  then show ?case
  proof cases
    case 1
    then show ?thesis using "1.prems" by (simp add: unfold)
  next
    case (2 p)
    have fits: "pos + frame_len_at fd pos \<le> length fd"
      using 2(2) readFrameAt_Some [of fd pos "fst p" "snd p"] by simp
    obtain refs' where refs: "refs = ref_at fd pos # refs'"
        "scan_loop mode fd (pos + r_frameLen (ref_at fd pos)) = Inr (refs', cr, eof)"
      using "1.prems"(1) 2 read by (auto simp: unfold split: sum.splits)
    show ?thesis
      using "1.prems"(2) "1.IH"(2) [OF 2(1) _ refl refs(2)] read 2 ref_at_fits [OF fits] by (auto simp: refs(1))
  next
    case 3
    then show ?thesis
      using "1.prems" "1.IH"(1) [OF 3(1)] read
      by (auto simp: unfold split: if_splits sum.splits option.splits)
  qed
qed

lemma load_file_effect:
  assumes json: "\<And>f m. f \<in> set (fst (parseBuffer (files fl) mode)) \<Longrightarrow> m \<in> frame_metas f \<Longrightarrow> json m = Some (dtof m)"
    and clock: "clock_before clock now"
  shows "\<exists>st'. load_file json clock mode fl (files fl) st vm
      = (st', Inr (length (fst (parseBuffer (files fl) mode)), snd (parseBuffer (files fl) mode)))
    \<and> contents_of files now st'
      = foldl (frame_effect dtof now) (contents_of files now st) (fst (parseBuffer (files fl) mode))"
proof -
  obtain refs where refs: "scan_loop mode (files fl) 0 = Inr (refs, snd (parseBuffer (files fl) mode))"
      "map (frame_of_ref (files fl)) refs = fst (parseBuffer (files fl) mode)"
    using scan_loop_eq [of mode "files fl" 0] by (auto simp: parseBuffer_def)
  have "r_valueOff f + r_valLen f \<le> length (files fl)" if "f \<in> set refs" for f
    using scan_loop_fits [of mode "files fl" 0 refs _ _ f] refs(1) that by (metis prod.collapse)
  moreover have "json m = Some (dtof m)" if "f \<in> set refs" "m \<in> frame_metas (frame_of_ref (files fl) f)" for f m
    by (rule json [OF _ that(2)]) (use that(1) in \<open>auto simp flip: refs(2)\<close>)
  ultimately obtain st' where "applyFrames json clock refs fl (files fl) st vm = (st', None)"
      "contents_of files now st'
       = foldl (frame_effect dtof now) (contents_of files now st) (map (frame_of_ref (files fl)) refs)"
    using applyFrames_effect [where files = files and fl = fl and json = json and dtof = dtof and refs = refs, OF _ _ clock]
    by blast
  moreover have "length refs = length (fst (parseBuffer (files fl) mode))"
    using arg_cong [OF refs(2), of length] by simp
  ultimately show ?thesis
    using refs by (cases "parseBuffer (files fl) mode") (simp add: load_file_def scanFrameRefsFd_def)
qed

text \<open>The files of a directory, and the frames recovery finds in them.\<close>

definition files_of :: "buffer option \<Rightarrow> disk_file option \<Rightarrow> value_file \<Rightarrow> buffer" where
  "files_of snap wal fl =
     (case fl of
        SnapshotFile \<Rightarrow> (case snap of None \<Rightarrow> [] | Some c \<Rightarrow> c)
      | WalFile \<Rightarrow> (case wal of None \<Rightarrow> [] | Some w \<Rightarrow> d_content w))"

definition recovered_frames :: "corrupt_mode \<Rightarrow> buffer option \<Rightarrow> disk_file option \<Rightarrow> frame list" where
  "recovered_frames mode snap wal =
     fst (parseBuffer (files_of snap wal SnapshotFile) mode) @ fst (parseBuffer (files_of snap wal WalFile) mode)"

lemma parseBuffer_Nil: "parseBuffer [] mode = ([], [], 0)"
  using parse_loop_end [of mode "[]"] by (simp add: parseBuffer_def)

lemma recover_effect:
  assumes json: "\<And>f m. f \<in> set (recovered_frames mode snap wal) \<Longrightarrow> m \<in> frame_metas f \<Longrightarrow> json m = Some (dtof m)"
    and clock: "clock_before clock now"
  shows "\<exists>info st' wal'. recover json clock snap wal st mode trunc vm = (Inr info, st', wal')
    \<and> contents_of (files_of snap wal) now st'
      = foldl (frame_effect dtof now) (contents_of (files_of snap wal) now st) (recovered_frames mode snap wal)"
proof -
  let ?F = "files_of snap wal"
  have j: "json m = Some (dtof m)" if "f \<in> set (fst (parseBuffer (?F fl) mode))" "m \<in> frame_metas f" for fl f m
    by (rule json [OF _ that(2)]) (use that(1) in \<open>cases fl; simp add: recovered_frames_def\<close>)
  have load: "\<exists>st'. load_file json clock mode fl (?F fl) st vm
      = (st', Inr (length (fst (parseBuffer (?F fl) mode)), snd (parseBuffer (?F fl) mode)))
    \<and> contents_of ?F now st'
      = foldl (frame_effect dtof now) (contents_of ?F now st) (fst (parseBuffer (?F fl) mode))" for fl st
    by (rule load_file_effect [OF _ clock]) (rule j)
  obtain st1 n1 cr1 e1 where st1:
      "(case snap of None \<Rightarrow> (st, Inr (0, [], 0))
        | Some fd \<Rightarrow> load_file json clock mode SnapshotFile fd st vm) = (st1, Inr (n1, cr1, e1))"
      "contents_of ?F now st1
       = foldl (frame_effect dtof now) (contents_of ?F now st) (fst (parseBuffer (?F SnapshotFile) mode))"
    using load [of SnapshotFile st]
    by (cases snap) (auto simp: files_of_def parseBuffer_Nil, metis prod.collapse)
  show ?thesis
  proof (cases wal)
    case None
    then show ?thesis
      using st1 by (simp add: recover_def recovered_frames_def files_of_def [of _ _ WalFile] parseBuffer_Nil)
  next
    case (Some w)
    obtain st2 where st2: "load_file json clock mode WalFile (d_content w) st1 vm
        = (st2, Inr (length (fst (parseBuffer (?F WalFile) mode)), snd (parseBuffer (?F WalFile) mode)))"
        "contents_of ?F now st2
         = foldl (frame_effect dtof now) (contents_of ?F now st1) (fst (parseBuffer (?F WalFile) mode))"
      using load [of WalFile st1] Some
      by (auto simp: files_of_def)
    then show ?thesis
      using st1 Some
      by (cases "snd (parseBuffer (?F WalFile) mode)") (simp add: recover_def recovered_frames_def Let_def)
  qed
qed

section \<open>Growing files\<close>

text \<open>A frame that validates keeps validating when bytes are appended.\<close>

lemma frame_at_append:
  assumes "pos + frame_len_at c pos \<le> length c"
  shows "frame_len_at (c @ m) pos = frame_len_at c pos" "ref_at (c @ m) pos = ref_at c pos"
proof -
  have len: "pos + 22 \<le> length c" using assms frame_len_ge [of c pos] by simp
  have fields: "readUIntLE 1 (c @ m) (pos + 2) = readUIntLE 1 c (pos + 2)"
    "readUIntLE 2 (c @ m) (pos + 4) = readUIntLE 2 c (pos + 4)"
    "readUIntLE 4 (c @ m) (pos + 6) = readUIntLE 4 c (pos + 6)"
    "readUIntLE 4 (c @ m) (pos + 10) = readUIntLE 4 c (pos + 10)"
    "readBigInt64LE (c @ m) (pos + 14) = readBigInt64LE c (pos + 14)"
    using len by (simp_all add: readUIntLE_prefix readBigInt64LE_def subarray_append_right)
  show flen: "frame_len_at (c @ m) pos = frame_len_at c pos" by (simp add: frame_len_at_def fields)
  show "ref_at (c @ m) pos = ref_at c pos"
    using assms
    by (simp add: ref_at_def frame_at_def flen fields Let_def frame_len_at_def [of c] subarray_append_right
        del: One_nat_def add_2_eq_Suc')
qed

lemma readFrameAt_append:
  assumes "readFrameAt c pos = Some p"
  shows "readFrameAt (c @ m) pos \<noteq> None"
proof -
  have fits: "pos + frame_len_at c pos \<le> length c"
    using assms readFrameAt_Some [of c pos "fst p" "snd p"] by simp
  have n: "26 \<le> frame_len_at c pos" by (rule frame_len_ge)
  have magic: "magic_at (c @ m) pos = magic_at c pos"
    using fits n by (simp add: magic_at_def subarray_append_right)
  have crc: "crc_ok_at (c @ m) pos (frame_len_at c pos) = crc_ok_at c pos (frame_len_at c pos)"
    using fits n by (simp add: crc_ok_at_def CRC_SIZE_def readUIntLE_prefix subarray_append_right)
  have key: "readUIntLE 2 (c @ m) (pos + 4) = readUIntLE 2 c (pos + 4)"
    using fits n by (simp add: readUIntLE_prefix)
  show ?thesis
    using assms fits n
    by (auto simp: readFrameAt_def Let_def magic crc key frame_at_append(1) [OF fits] HEADER_SIZE_def split: if_splits)
qed

text \<open>A strict scan of a grown file is the old scan continued where it stopped.\<close>

lemma strict_scan_append:
  "scan_loop Strict c pos = Inr (rs, cr, eof) \<Longrightarrow> pos \<le> length c \<Longrightarrow>
     pos \<le> eof \<and> eof \<le> length c
     \<and> scan_loop Strict (c @ m) pos
       = (case scan_loop Strict (c @ m) eof of Inl e \<Rightarrow> Inl e | Inr (rs', q) \<Rightarrow> Inr (rs @ rs', q))"
proof (induction "length c - pos" arbitrary: pos rs rule: less_induct)
  case less
  have self: "x = (case x of Inl e \<Rightarrow> Inl e | Inr (rs', q) \<Rightarrow> Inr ([] @ rs', q))"
    for x :: "codec_error + frame_ref list \<times> range list \<times> nat"
    by (auto split: sum.split)
  consider "pos = length c" | p where "pos < length c" "readFrameAt c pos = Some p"
    | "pos < length c" "readFrameAt c pos = None" using less.prems(2) by (cases "readFrameAt c pos") force+
  then show ?case
  proof cases
    case 1
    then have e: "rs = []" "eof = pos" using less.prems(1) by (simp_all add: scan_loop.simps [of Strict c])
    show ?thesis unfolding e using less.prems(2) self by blast
  next
    case (2 p)
    have read: "readFrameRefAt c pos (length c) = Inr (Some (ref_at c pos))"
      using readFrameRefAt_eq [of pos c] 2 by simp
    have fits: "pos + frame_len_at c pos \<le> length c"
      using 2(2) readFrameAt_Some [of c pos "fst p" "snd p"] by simp
    have read': "readFrameRefAt (c @ m) pos (length (c @ m)) = Inr (Some (ref_at c pos))"
      using readFrameRefAt_eq [of pos "c @ m"] readFrameAt_append [OF 2(2), of m] 2(1) frame_at_append(2) [OF fits]
      by simp
    have len: "r_frameLen (ref_at c pos) = frame_len_at c pos" by (simp add: ref_at_def)
    obtain rs0 where rs: "rs = ref_at c pos # rs0"
        "scan_loop Strict c (pos + frame_len_at c pos) = Inr (rs0, cr, eof)"
      using less.prems(1) 2 read by (auto simp: scan_loop.simps [of Strict c pos] len split: sum.splits)
    have ih: "pos + frame_len_at c pos \<le> eof \<and> eof \<le> length c
       \<and> scan_loop Strict (c @ m) (pos + frame_len_at c pos)
         = (case scan_loop Strict (c @ m) eof of Inl e \<Rightarrow> Inl e | Inr (rs', q) \<Rightarrow> Inr (rs0 @ rs', q))"
      using frame_len_ge [of c pos] 2(1) by (intro less.hyps rs(2) fits) simp
    show ?thesis
      using ih 2(1) read' rs(1)
      by (subst scan_loop.simps [of Strict "c @ m" pos]) (auto simp: len split: sum.split)
  next
    case 3
    then have e: "rs = []" "eof = pos"
      using less.prems(1) readFrameRefAt_eq [of pos c] by (simp_all add: scan_loop.simps [of Strict c pos])
    show ?thesis unfolding e using less.prems(2) self by blast
  qed
qed

text \<open>The strict scan never fails, and catch-up in terms of it.\<close>

lemma strict_scan_Inr: "\<exists>rs cr eof. scan_loop Strict c pos = Inr (rs, cr, eof)"
  using scan_loop_eq [of Strict c pos] by (metis prod.collapse)

lemma catchUpWal_Some:
  assumes "catchUpWal (Some w) offset anchor apply s = (Inr (Some (offset', n)), s')"
  shows "\<exists>rs cr eof. scan_loop Strict (d_content w) (nat offset) = Inr (rs, cr, eof)
    \<and> offset' = int eof \<and> n = length rs \<and> s' = foldl (\<lambda>s f. apply s f (d_content w)) s rs
    \<and> 0 \<le> offset \<and> offset \<le> int (length (d_content w)) \<and> (d_dev w, d_ino w) = anchor"
proof -
  obtain rs cr eof where scan: "scan_loop Strict (d_content w) (nat offset) = Inr (rs, cr, eof)"
    using strict_scan_Inr by blast
  have guards: "(d_dev w, d_ino w) = anchor" "0 \<le> offset" "offset \<le> int (length (d_content w))"
    using assms by (auto simp: catchUpWal_def Let_def split: if_splits)
  have "eof = nat offset" if "rs = []"
    using scan that guards(2,3)
    by (subst (asm) scan_loop.simps) (auto split: if_splits sum.splits option.splits)
  then show ?thesis
    using assms scan guards
    by (auto simp: catchUpWal_def Let_def scanFrameRefsFd_def split: if_splits sum.splits)
qed

text \<open>Catching up on whole frames.\<close>

lemma catchUpWal_frames:
  assumes "\<forall>inp\<in>set inps. encodable inp" "inps \<noteq> []"
  shows "catchUpWal (Some \<lparr>d_content = pre @ concat (map encoded inps), d_dev = dev, d_ino = ino\<rparr>) (int (length pre))
      (dev, ino) (\<lambda>s f fd. (\<lambda>(s :: nat) f. Suc s) s f) k
    = (Inr (Some (int (length (pre @ concat (map encoded inps))), length inps)), length inps + k)"
proof -
  let ?c = "pre @ concat (map encoded inps)"
  have "parse_loop Strict ?c (length pre) = (map frame_of inps, [], length ?c)"
    using parse_loop_frames [of inps Strict pre "[]"] parse_loop_end [of Strict ?c] assms(1) by simp
  then obtain rs where rs: "scan_loop Strict ?c (length pre) = Inr (rs, [], length ?c)"
      "map (frame_of_ref ?c) rs = map frame_of inps"
    using scan_loop_eq [of Strict ?c "length pre"] by auto
  have len: "length rs = length inps" using arg_cong [OF rs(2), of length] by simp
  have "foldl (\<lambda>(s :: nat) f. Suc s) k rs = length rs + k" for rs :: "frame_ref list"
    by (induction rs arbitrary: k) simp_all
  then show ?thesis using rs(1) len assms(2) by (simp add: catchUpWal_def scanFrameRefsFd_def Let_def)
qed

section \<open>Properties\<close>

text \<open>Replay of a part of a file does not look at what follows.\<close>

lemma readAtSync_append: "off + len \<le> length c \<Longrightarrow> readAtSync (c @ t) off len = readAtSync c off len"
  by (simp add: readAtSync_ok subarray_append_right)

lemma setRefToOps_append:
  "off + len \<le> length c \<Longrightarrow> setRefToOps json clock key off len meta e fl (c @ t) vm = setRefToOps json clock key off len meta e fl c vm"
  unfolding setRefToOps_def by (simp only: readAtSync_append)

lemma batchToOps_append:
  "(\<And>op. op \<in> set ops \<Longrightarrow> o_valueOff op + o_valLen op \<le> length c) \<Longrightarrow> batchToOps json clock fl (c @ t) vm ops = batchToOps json clock fl c vm ops"
  by (induction ops) (simp_all add: setRefToOps_append)

lemma frameToOps_append:
  assumes "r_valueOff f + r_valLen f \<le> length c"
  shows "frameToOps json clock f fl (c @ t) vm = frameToOps json clock f fl c vm"
proof -
  let ?body = "subarray c (r_valueOff f) (r_valueOff f + r_valLen f)"
  have "batchToOps json clock fl (c @ t) vm ops = batchToOps json clock fl c vm ops" if "scanBatchOpRefs ?body (r_valueOff f) = Inr ops" for ops
  proof (rule batchToOps_append)
    fix op assume "op \<in> set ops"
    then show "o_valueOff op + o_valLen op \<le> length c"
      using scan_ops_bounds [of _ ?body "r_valueOff f" 2 ops op] that assms by (fastforce simp: scanBatchOpRefs_def split: if_splits)
  qed
  then show ?thesis
    unfolding frameToOps_def setRefToOps_append [OF assms] readAtSync_append [OF assms] readAtSync_ok [OF assms] by (simp split: sum.split)
qed

lemma applyFrames_append:
  "(\<And>f. f \<in> set refs \<Longrightarrow> r_valueOff f + r_valLen f \<le> length c) \<Longrightarrow> applyFrames json clock refs fl (c @ t) st vm = applyFrames json clock refs fl c st vm"
  by (induction refs arbitrary: st) (simp_all add: frameToOps_append Let_def split: prod.split option.split)

text \<open>C1: Recovery implements last-writer-wins replay: whatever the two files hold (clean, torn or
  corrupted), in both corruption modes and both value modes, and whenever the clock is read during the
  recovery, it succeeds, and from then on (at every time that is not before the readings of the clock) the contents of
  the recovered store, with disk references read from the files, are those obtained by
  applying the frames of the snapshot and then those of the log to the empty map, in order, without the records that have expired;
  a batch applies as a whole or, if its body is malformed, not at all. The assumption
  is that \<open>JSON.parse\<close> succeeds on the metadata of the records in these frames.\<close>

theorem recover_last_writer_wins:
  assumes "\<And>f m. f \<in> set (recovered_frames mode snap wal) \<Longrightarrow> m \<in> frame_metas f \<Longrightarrow> json m = Some (dtof m)"
    and "\<And>fl off. clock fl off \<le> now"
  shows "\<exists>info st wal'. recover json clock snap wal (new_store maxPerTick budget) mode trunc valueMode = (Inr info, st, wal')
    \<and> contents_of (files_of snap wal) now st
      = foldl (frame_effect dtof now) Map.empty (recovered_frames mode snap wal)"
proof -
  have "contents_of (files_of snap wal) now (new_store maxPerTick budget) = Map.empty"
    by (rule ext) (simp add: contents_of_def view_def new_store_def jm_get_def)
  moreover have "clock_before clock now" using assms(2) by (simp add: clock_before_def)
  ultimately show ?thesis
    using recover_effect [of mode snap wal json dtof clock now "new_store maxPerTick budget" trunc valueMode] assms(1) by simp
qed

text \<open>The metadata of the record is a date column; other bytes do not parse.\<close>

definition stamped_op :: batch_op where
  "stamped_op = sample_op\<lparr>b_meta := Some [123, 125]\<rparr>"

lemma stamped_encodable: "encodable stamped_op"
  by (simp add: encodable_def stamped_op_def sample_op_def buf_or_empty_def int64_range_def codec_consts)

theorem recover_last_writer_wins_witness:
  "\<exists>info st wal'. recover (\<lambda>m. if m = [123, 125] then Some None else None) (\<lambda>fl off. 3) (Some (encoded stamped_op)) None (new_store 100 2) Resync True DiskMode
      = (Inr info, st, wal')
    \<and> contents_of (files_of (Some (encoded stamped_op)) None) 5 st
      = foldl (frame_effect (\<lambda>m. None) 5) Map.empty (recovered_frames Resync (Some (encoded stamped_op)) None)"
proof (rule recover_last_writer_wins)
  fix f m assume "f \<in> set (recovered_frames Resync (Some (encoded stamped_op)) None)" "m \<in> frame_metas f"
  moreover have "recovered_frames Resync (Some (encoded stamped_op)) None = [frame_of stamped_op]"
    using parse_loop_frames [of "[stamped_op]" Resync "[]" "[]"] parse_loop_end [of Resync "encoded stamped_op"] stamped_encodable
    by (simp add: recovered_frames_def files_of_def parseBuffer_Nil) (simp add: parseBuffer_def)
  ultimately show "(if m = [123, 125] then Some None else None) = Some None"
    by (auto simp: frame_metas_def frame_of_def stamped_op_def sample_op_def buf_or_empty_def TYPE_SET_def)
qed simp

text \<open>C2: A crash while the last frame is appended costs that frame only, and recovery repairs
  the file: from a log of whole frames followed by a proper prefix of another one, strict
  recovery yields exactly the store that recovering the log of the whole frames yields, with the effects of these frames in order, reports the torn bytes as lost, and cuts the file back
  to the whole frames. The assumption is that \<open>JSON.parse\<close> succeeds on the metadata of the records in the whole frames.\<close>

theorem recover_truncates_torn_tail:
  assumes "map encodeFrame inps = map Inr bss" "encodeFrame last_inp = Inr (torn @ rest)"
    and "torn \<noteq> []" "rest \<noteq> []"
    and "\<And>inp m. inp \<in> set inps \<Longrightarrow> m \<in> frame_metas (frame_of inp) \<Longrightarrow> json m = Some (dtof m)"
    and "\<And>fl off. clock fl off \<le> now"
  shows "\<exists>info clean st'. recover json clock None (Some \<lparr>d_content = concat bss @ torn, d_dev = dev, d_ino = ino\<rparr>) st Strict True vm
      = (Inr info, st', Some \<lparr>d_content = concat bss, d_dev = dev, d_ino = ino\<rparr>)
    \<and> recover json clock None (Some \<lparr>d_content = concat bss, d_dev = dev, d_ino = ino\<rparr>) st Strict True vm
      = (Inr clean, st', Some \<lparr>d_content = concat bss, d_dev = dev, d_ino = ino\<rparr>)
    \<and> contents_of (\<lambda>fl. concat bss) now st' = foldl (frame_effect dtof now) (contents_of (\<lambda>fl. concat bss) now st) (map frame_of inps)
    \<and> i_truncatedWal info \<and> i_lostBytes info = length torn \<and> i_walFrames info = length inps
    \<and> i_walScanEnd info = length (concat bss)"
proof -
  let ?c = "concat bss"
  let ?n = "length ?c"
  have len: "length inps = length bss" using assms(1) by (metis length_map)
  then have enc: "(\<forall>inp \<in> set inps. encodable inp) \<and> bss = map encoded inps"
    using assms(1) by (induction inps bss rule: list_induct2) (auto simp: encodeFrame_iff)
  have parse: "parseBuffer ?c Strict = (map frame_of inps, [], ?n)"
    using parse_loop_frames [of inps Strict "[]" "[]"] parse_loop_end [of Strict ?c] enc by (simp add: parseBuffer_def)
  then obtain rs where rs: "scan_loop Strict ?c 0 = Inr (rs, [], ?n)" "map (frame_of_ref ?c) rs = map frame_of inps"
    using scan_loop_eq [of Strict ?c 0] by (auto simp: parseBuffer_def)
  have "readFrameAt (?c @ torn) ?n = None"
    using readFrameAt_torn [of last_inp torn rest] assms(2,4) by (simp add: readFrameAt_shift0 encodeFrame_iff)
  then have "scan_loop Strict (?c @ torn) ?n = Inr ([], [(?n, ?n + length torn)], ?n)"
    using assms(3) readFrameRefAt_eq [of ?n "?c @ torn"] by (subst scan_loop.simps) simp
  then have scan: "scan_loop Strict (?c @ torn) 0 = Inr (rs, [(?n, ?n + length torn)], ?n)"
    using strict_scan_append [OF rs(1), of torn] by simp
  have metas: "json m = Some (dtof m)" if "f \<in> set rs" "m \<in> frame_metas (frame_of_ref ?c f)" for f m
  proof -
    have "frame_of_ref ?c f \<in> set (map frame_of inps)" unfolding rs(2) [symmetric] using that(1) by simp
    then show ?thesis using assms(5) that(2) by auto
  qed
  have "clock_before clock now" using assms(6) by (simp add: clock_before_def)
  then have "\<exists>st'. applyFrames json clock rs WalFile ((\<lambda>fl. ?c) WalFile) st vm = (st', None) \<and> contents_of (\<lambda>fl. ?c) now st'
      = foldl (frame_effect dtof now) (contents_of (\<lambda>fl. ?c) now st) (map (frame_of_ref ((\<lambda>fl. ?c) WalFile)) rs)"
    by (intro applyFrames_effect) (use scan_loop_fits [OF rs(1)] metas in auto)
  then obtain st' where st': "applyFrames json clock rs WalFile ?c st vm = (st', None)"
      "contents_of (\<lambda>fl. ?c) now st' = foldl (frame_effect dtof now) (contents_of (\<lambda>fl. ?c) now st) (map frame_of inps)"
    by (auto simp: rs(2))
  have same: "applyFrames json clock rs WalFile (?c @ torn) st vm = (st', None)"
    using applyFrames_append [of rs ?c json clock WalFile torn st vm] scan_loop_fits [OF rs(1)] st' by simp
  have "length rs = length inps" using arg_cong [OF rs(2), of length] by simp
  then show ?thesis
    using scan rs(1) same st' by (simp add: recover_def load_file_def scanFrameRefsFd_def Let_def)
qed

theorem recover_truncates_torn_tail_witness:
  "\<exists>info clean st'. recover (\<lambda>m. if m = [123, 125] then Some None else None) (\<lambda>fl off. 3) None
      (Some \<lparr>d_content = concat [encoded stamped_op] @ take 5 (encoded sample_op), d_dev = 1, d_ino = 2\<rparr>)
      (new_store 100 2) Strict True MemoryMode
      = (Inr info, st', Some \<lparr>d_content = concat [encoded stamped_op], d_dev = 1, d_ino = 2\<rparr>)
    \<and> recover (\<lambda>m. if m = [123, 125] then Some None else None) (\<lambda>fl off. 3) None
      (Some \<lparr>d_content = concat [encoded stamped_op], d_dev = 1, d_ino = 2\<rparr>) (new_store 100 2) Strict True MemoryMode
      = (Inr clean, st', Some \<lparr>d_content = concat [encoded stamped_op], d_dev = 1, d_ino = 2\<rparr>)
    \<and> contents_of (\<lambda>fl. concat [encoded stamped_op]) 5 st'
      = foldl (frame_effect (\<lambda>m. None) 5) (contents_of (\<lambda>fl. concat [encoded stamped_op]) 5 (new_store 100 2)) (map frame_of [stamped_op])
    \<and> i_truncatedWal info \<and> i_lostBytes info = length (take 5 (encoded sample_op)) \<and> i_walFrames info = length [stamped_op]
    \<and> i_walScanEnd info = length (concat [encoded stamped_op])"
proof (rule recover_truncates_torn_tail)
  show "encodeFrame sample_op = Inr (take 5 (encoded sample_op) @ drop 5 (encoded sample_op))"
    by (simp add: encodeFrame_sample)
  show "map encodeFrame [stamped_op] = map Inr [encoded stamped_op]" using stamped_encodable by (simp add: encodeFrame_iff)
  show "(if m = [123, 125] then Some None else None) = Some None" if "inp \<in> set [stamped_op]" "m \<in> frame_metas (frame_of inp)" for inp m
    using that by (auto simp: frame_metas_def frame_of_def stamped_op_def sample_op_def buf_or_empty_def TYPE_SET_def)
qed (use length_encoded [of sample_op] in \<open>auto simp: encodeFrame_sample\<close>)

text \<open>Replica catch-up is resumable: catching up on a log, and again from the offset it
  returned once the log has grown, applies the same frames in the same order and ends at the
  same offset as one catch-up on the grown log, also when the first one stopped at a frame
  that was only partly written. (The frame handler must not depend on the file beyond
  the frame, as the two calls see different files.)\<close>

theorem catchUpWal_resumes:
  assumes "catchUpWal (Some w) offset anchor (\<lambda>s f fd. app s f) s = (Inr (Some (offset1, n1)), s1)"
    and "catchUpWal (Some w') offset1 anchor (\<lambda>s f fd. app s f) s1 = (Inr (Some (offset2, n2)), s2)"
    and "w' = w\<lparr>d_content := d_content w @ ext\<rparr>" "n1 + n2 > 0"
  shows "catchUpWal (Some w') offset anchor (\<lambda>s f fd. app s f) s = (Inr (Some (offset2, n1 + n2)), s2)"
proof -
  obtain rs1 cr1 eof1 where 1: "scan_loop Strict (d_content w) (nat offset) = Inr (rs1, cr1, eof1)"
      "offset1 = int eof1" "n1 = length rs1" "s1 = foldl app s rs1"
      "0 \<le> offset" "offset \<le> int (length (d_content w))" "(d_dev w, d_ino w) = anchor"
    using catchUpWal_Some [OF assms(1)] by blast
  obtain rs2 cr2 eof2 where 2: "scan_loop Strict (d_content w @ ext) eof1 = Inr (rs2, cr2, eof2)"
      "offset2 = int eof2" "n2 = length rs2" "s2 = foldl app s1 rs2"
    using catchUpWal_Some [OF assms(2)] 1(2) assms(3) by auto
  have "scan_loop Strict (d_content w @ ext) (nat offset) = Inr (rs1 @ rs2, cr2, eof2)"
    using strict_scan_append [OF 1(1), of ext] 1(5,6) 2(1) by simp
  then show ?thesis
    using 1 2 assms(3,4) by (auto simp: catchUpWal_def Let_def scanFrameRefsFd_def)
qed

theorem catchUpWal_resumes_witness:
  "let log = encoded sample_op @ encoded sample_op; count = (\<lambda>(s :: nat) f (fd :: buffer). Suc s) in
     catchUpWal (Some \<lparr>d_content = log, d_dev = 1, d_ino = 2\<rparr>) 0 (1, 2) count 0
     = (Inr (Some (int (length log), 1 + 1)), 2)"
proof -
  let ?e = "encoded sample_op" and ?count = "\<lambda>(s :: nat) f. Suc s"
  let ?w = "\<lparr>d_content = ?e, d_dev = 1, d_ino = 2\<rparr>"
  have one: "catchUpWal (Some ?w) 0 (1, 2) (\<lambda>s f fd. ?count s f) 0 = (Inr (Some (int (length ?e), 1)), 1)"
    using catchUpWal_frames [of "[sample_op]" "[]" 1 2 0] by simp
  have two: "catchUpWal (Some (?w\<lparr>d_content := d_content ?w @ ?e\<rparr>)) (int (length ?e)) (1, 2) (\<lambda>s f fd. ?count s f) 1
      = (Inr (Some (int (length (?e @ ?e)), 1)), 2)"
    using catchUpWal_frames [of "[sample_op]" ?e 1 2 1] by simp
  show ?thesis
    using catchUpWal_resumes [OF one two refl] by (simp add: Let_def)
qed

end
