(* ===== verification/Tool_Access.thy ===== *)
theory Tool_Access
  imports Prelude
begin

text \<open>
  Resource accesses of tool calls, \<open>packages/agent-core/src/loop/tool-access.ts\<close>: what a tool
  call reads or writes, and when two calls must not run at the same time. The main result
  reads the syntactic conflict test as what it is meant to decide: two calls conflict
  exactly when some location is touched by both and written by one of them.
\<close>

datatype tool_file_operation = ReadOp | WriteOp | ReadWriteOp | SearchOp

datatype tool_resource_access =
    FileAccess tool_file_operation string bool
  | AllAccess

type_synonym tool_accesses = "tool_resource_access list"

section \<open>Constructors\<close>

definition ta_none :: tool_accesses where "ta_none = []"
definition ta_all :: tool_accesses where "ta_all = [AllAccess]"

definition ta_file :: "tool_file_operation \<Rightarrow> string \<Rightarrow> bool \<Rightarrow> tool_accesses" where
  "ta_file operation path recursive = [FileAccess operation path recursive]"

definition readFile :: "string \<Rightarrow> tool_accesses" where "readFile path = ta_file ReadOp path False"
definition readTree :: "string \<Rightarrow> tool_accesses" where "readTree path = ta_file ReadOp path True"
definition writeFile :: "string \<Rightarrow> tool_accesses" where "writeFile path = ta_file WriteOp path False"
definition writeTree :: "string \<Rightarrow> tool_accesses" where "writeTree path = ta_file WriteOp path True"
definition readWriteFile :: "string \<Rightarrow> tool_accesses" where "readWriteFile path = ta_file ReadWriteOp path False"
definition readWriteTree :: "string \<Rightarrow> tool_accesses" where "readWriteTree path = ta_file ReadWriteOp path True"
definition searchTree :: "string \<Rightarrow> tool_accesses" where "searchTree path = ta_file SearchOp path True"

section \<open>Paths\<close>

abbreviation slash :: char where "slash \<equiv> CHR ''/''"

definition backslash_char :: char where "backslash_char = char_of (92 :: nat)"

text \<open>\<open>toLowerCase\<close> on code units up to 255: the letters \<open>A\<close> to \<open>Z\<close> and the accented
  capitals 192 to 222 (215 is the multiplication sign).\<close>

definition lower_char :: "char \<Rightarrow> char" where
  "lower_char c =
     (let n = of_char c :: nat in
      if (65 \<le> n \<and> n \<le> 90) \<or> (192 \<le> n \<and> n \<le> 222 \<and> n \<noteq> 215) then char_of (n + 32) else c)"

definition toLowerCase :: "string \<Rightarrow> string" where
  "toLowerCase s = map lower_char s"

text \<open>\<open>replaceAll(/\/+/g, '/')\<close>: every run of slashes becomes one.\<close>

fun collapse_slashes :: "string \<Rightarrow> string" where
  "collapse_slashes [] = []"
| "collapse_slashes [c] = [c]"
| "collapse_slashes (c # d # s) =
     (if c = slash \<and> d = slash then collapse_slashes (d # s) else c # collapse_slashes (d # s))"

definition normalizePath :: "string \<Rightarrow> string" where
  "normalizePath path =
     (let normalized = collapse_slashes (map (\<lambda>c. if c = backslash_char then slash else c) path);
          folded = toLowerCase normalized
      in if length folded > 1 \<and> endsWith folded ''/'' then butlast folded else folded)"

section \<open>Conflicts\<close>

fun fileOperationWrites :: "tool_file_operation \<Rightarrow> bool" where
  "fileOperationWrites ReadOp = False"
| "fileOperationWrites SearchOp = False"
| "fileOperationWrites WriteOp = True"
| "fileOperationWrites ReadWriteOp = True"

definition fileOperationsConflict :: "tool_file_operation \<Rightarrow> tool_file_operation \<Rightarrow> bool" where
  "fileOperationsConflict left right \<longleftrightarrow> fileOperationWrites left \<or> fileOperationWrites right"

definition dir_prefix :: "string \<Rightarrow> string" where
  "dir_prefix p = (if endsWith p ''/'' then p else p @ ''/'')"

definition fileAccessesOverlap :: "string \<Rightarrow> bool \<Rightarrow> string \<Rightarrow> bool \<Rightarrow> bool" where
  "fileAccessesOverlap left_path left_rec right_path right_rec \<longleftrightarrow>
     (let leftPath = normalizePath left_path; rightPath = normalizePath right_path in
      leftPath = rightPath
      \<or> (left_rec \<and> startsWith rightPath (dir_prefix leftPath))
      \<or> (right_rec \<and> startsWith leftPath (dir_prefix rightPath)))"

fun resourceAccessesConflict :: "tool_resource_access \<Rightarrow> tool_resource_access \<Rightarrow> bool" where
  "resourceAccessesConflict (FileAccess lop lpath lrec) (FileAccess rop rpath rrec) =
     (fileOperationsConflict lop rop \<and> fileAccessesOverlap lpath lrec rpath rrec)"
| "resourceAccessesConflict _ _ = True"

definition conflict :: "tool_accesses \<Rightarrow> tool_accesses \<Rightarrow> bool" where
  "conflict left right \<longleftrightarrow> list_ex (\<lambda>l. list_ex (\<lambda>r. resourceAccessesConflict l r) right) left"

section \<open>What a conflict means\<close>

text \<open>The normalised locations an access touches: the path itself, and with a recursive
  access everything below it.\<close>

fun covers :: "tool_resource_access \<Rightarrow> string \<Rightarrow> bool" where
  "covers AllAccess p = True"
| "covers (FileAccess op path recursive) p =
     (p = normalizePath path \<or> (recursive \<and> startsWith p (dir_prefix (normalizePath path))))"

fun access_writes :: "tool_resource_access \<Rightarrow> bool" where
  "access_writes AllAccess = True"
| "access_writes (FileAccess op path recursive) = fileOperationWrites op"

lemma startsWith_refl [simp]: "startsWith s s"
  by (simp add: startsWith_def)

lemma startsWith_comparable:
  "startsWith s p \<Longrightarrow> startsWith s q \<Longrightarrow> startsWith p q \<or> startsWith q p"
  by (simp add: startsWith_def) (metis append_take_drop_id linear take_append take_take min.absorb1 min.absorb2)

lemma dir_prefix_nested:
  "startsWith (dir_prefix b) (dir_prefix a) \<Longrightarrow> a = b \<or> startsWith b (dir_prefix a) \<or> startsWith a (dir_prefix b)"
proof -
  assume "startsWith (dir_prefix b) (dir_prefix a)"
  then obtain z where z: "dir_prefix b = dir_prefix a @ z" by (auto simp: startsWith_iff_append)
  show ?thesis
  proof (cases "endsWith b ''/''")
    case True
    then have "b = dir_prefix a @ z" using z by (simp add: dir_prefix_def)
    then show ?thesis by simp
  next
    case False
    then have b: "b @ ''/'' = dir_prefix a @ z" using z by (simp add: dir_prefix_def)
    show ?thesis
    proof (cases z rule: rev_cases)
      case Nil
      then have eq: "dir_prefix a = b @ ''/''" using b by simp
      then show ?thesis
        using False by (cases "endsWith a ''/''") (auto simp: dir_prefix_def startsWith_iff_append)
    next
      case (snoc z' c)
      then have "b = dir_prefix a @ z'" using b by simp
      then show ?thesis by simp
    qed
  qed
qed

lemma overlap_iff_common:
  "fileAccessesOverlap lp lr rp rr \<longleftrightarrow>
     (\<exists>p. covers (FileAccess lop lp lr) p \<and> covers (FileAccess rop rp rr) p)"
proof
  assume "fileAccessesOverlap lp lr rp rr"
  then show "\<exists>p. covers (FileAccess lop lp lr) p \<and> covers (FileAccess rop rp rr) p"
    by (auto simp: fileAccessesOverlap_def Let_def)
next
  assume "\<exists>p. covers (FileAccess lop lp lr) p \<and> covers (FileAccess rop rp rr) p"
  then obtain p where "covers (FileAccess lop lp lr) p" "covers (FileAccess rop rp rr) p" by blast
  then consider "normalizePath lp = normalizePath rp"
    | "lr" "startsWith (normalizePath rp) (dir_prefix (normalizePath lp))"
    | "rr" "startsWith (normalizePath lp) (dir_prefix (normalizePath rp))"
    | "lr" "rr" "startsWith p (dir_prefix (normalizePath lp))" "startsWith p (dir_prefix (normalizePath rp))"
    by auto
  then show "fileAccessesOverlap lp lr rp rr"
  proof cases
    case 4
    have "normalizePath lp = normalizePath rp \<or> startsWith (normalizePath rp) (dir_prefix (normalizePath lp))
        \<or> startsWith (normalizePath lp) (dir_prefix (normalizePath rp))"
      using startsWith_comparable [OF 4(3,4)] dir_prefix_nested by metis
    then show ?thesis using 4(1,2) by (auto simp: fileAccessesOverlap_def Let_def)
  qed (auto simp: fileAccessesOverlap_def Let_def)
qed

lemma fileAccessesOverlap_sym: "fileAccessesOverlap lp lr rp rr = fileAccessesOverlap rp rr lp lr"
  by (auto simp: fileAccessesOverlap_def Let_def)

lemma resourceAccessesConflict_sym: "resourceAccessesConflict l r = resourceAccessesConflict r l"
  using fileAccessesOverlap_sym by (cases l; cases r) (auto simp: fileOperationsConflict_def)

lemma conflict_sym: "conflict l r = conflict r l"
  by (auto simp: conflict_def list_ex_iff) (metis resourceAccessesConflict_sym)+

lemma conflict_none [simp]: "\<not> conflict ta_none r" "\<not> conflict l ta_none"
  by (simp_all add: conflict_def ta_none_def list_ex_iff)

section \<open>Normal forms of paths\<close>

lemma lower_char_slash [simp]: "lower_char c = slash \<longleftrightarrow> c = slash"
  and lower_char_backslash [simp]: "lower_char c = backslash_char \<longleftrightarrow> c = backslash_char"
proof -
  have bound: "(of_char c :: nat) < 256" by simp
  have "(of_char (lower_char c) :: nat)
      = (let n = of_char c :: nat in
         if (65 \<le> n \<and> n \<le> 90) \<or> (192 \<le> n \<and> n \<le> 222 \<and> n \<noteq> 215) then n + 32 else n)"
    by (auto simp: lower_char_def Let_def)
  then have low: "(of_char (lower_char c) :: nat) = of_char c \<or> (97 :: nat) \<le> of_char (lower_char c) \<and> (65 :: nat) \<le> of_char c
      \<and> (of_char c \<le> (90 :: nat) \<or> 192 \<le> (of_char c :: nat))"
    by (auto simp: Let_def split: if_splits)
  have code: "c = d \<longleftrightarrow> (of_char c :: nat) = of_char d" for c d :: char by simp
  show "lower_char c = slash \<longleftrightarrow> c = slash"
    unfolding code using low by (auto simp del: of_char_eq_iff)
  show "lower_char c = backslash_char \<longleftrightarrow> c = backslash_char"
    unfolding code backslash_char_def using low by (auto simp del: of_char_eq_iff)
qed

lemma lower_char_idem [simp]: "lower_char (lower_char c) = lower_char c"
proof -
  define n where "n = (of_char c :: nat)"
  have "n < 256" by (simp add: n_def)
  have "lower_char c = (if (65 \<le> n \<and> n \<le> 90) \<or> (192 \<le> n \<and> n \<le> 222 \<and> n \<noteq> 215) then char_of (n + 32) else c)"
    by (simp add: lower_char_def n_def Let_def)
  moreover have "(of_char (char_of (n + 32) :: char) :: nat) = n + 32" if "n \<le> 222" using that by simp
  ultimately show ?thesis
    using \<open>n < 256\<close> by (auto simp: lower_char_def [of "char_of (n + 32)"] n_def [symmetric] Let_def)
qed

lemma set_collapse: "set (collapse_slashes s) = set s"
  by (induction s rule: collapse_slashes.induct) auto

lemma hd_collapse: "s \<noteq> [] \<Longrightarrow> collapse_slashes s \<noteq> [] \<and> hd (collapse_slashes s) = hd s"
  by (induction s rule: collapse_slashes.induct) auto

lemma collapse_Cons:
  "collapse_slashes (c # s) = (if c = slash \<and> s \<noteq> [] \<and> hd s = slash then collapse_slashes s else c # collapse_slashes s)"
  by (cases s) auto

lemma collapse_idem: "collapse_slashes (collapse_slashes s) = collapse_slashes s"
proof (induction s rule: collapse_slashes.induct)
  case (3 c d s)
  show ?case
    using 3 hd_collapse [of "d # s"] by (auto simp: collapse_Cons [of c "collapse_slashes (d # s)"])
qed simp_all

lemma collapse_lower: "collapse_slashes (map lower_char s) = map lower_char (collapse_slashes s)"
  by (induction s rule: collapse_slashes.induct) auto

text \<open>In a path without double slashes the last character but one of a path that ends in a
  slash is not a slash, and dropping the last character leaves no double slash.\<close>

lemma collapse_fix_Cons: "collapse_slashes (c # s) = c # s \<longleftrightarrow> collapse_slashes s = s \<and> \<not> (c = slash \<and> s \<noteq> [] \<and> hd s = slash)"
proof -
  have "length (collapse_slashes s) \<le> length s" for s
    by (induction s rule: collapse_slashes.induct) auto
  from this [of s] have "collapse_slashes s \<noteq> c # s" by (metis impossible_Cons)
  then show ?thesis by (auto simp: collapse_Cons)
qed

lemma collapse_fix_butlast: "collapse_slashes s = s \<Longrightarrow> collapse_slashes (butlast s) = butlast s"
proof (induction s)
  case (Cons c s)
  have "butlast s \<noteq> [] \<Longrightarrow> hd (butlast s) = hd s" by (cases s) auto
  then show ?case using Cons by (cases s) (auto simp: collapse_fix_Cons simp del: collapse_slashes.simps)
qed simp

lemma collapse_fix_last: "collapse_slashes (s @ [slash, slash]) \<noteq> s @ [slash, slash]"
  by (induction s) (auto simp: collapse_fix_Cons simp del: collapse_slashes.simps(3))

lemma normalizePath_eq:
  "normalizePath path =
     (let f = toLowerCase (collapse_slashes (map (\<lambda>c. if c = backslash_char then slash else c) path))
      in if length f > 1 \<and> endsWith f ''/'' then butlast f else f)"
  by (simp add: normalizePath_def Let_def)

lemma normalizePath_fixed:
  assumes "backslash_char \<notin> set s" "collapse_slashes s = s" "map lower_char s = s"
    and "length s > 1 \<Longrightarrow> \<not> endsWith s ''/''"
  shows "normalizePath s = s"
proof -
  have "map (\<lambda>c. if c = backslash_char then slash else c) s = s"
    using assms(1) by (auto intro: map_idI)
  then show ?thesis using assms by (auto simp: normalizePath_eq toLowerCase_def)
qed

section \<open>Properties\<close>

text \<open>Two sets of accesses conflict exactly when one of them is unrestricted, or there is a
  location that both touch and at least one of them writes: the test on path strings (equal
  normalised paths, or one below a recursive other) decides whether the subtrees meet.\<close>

theorem conflict_iff_shared_write:
  "conflict left right \<longleftrightarrow>
     (\<exists>l\<in>set left. \<exists>r\<in>set right. (access_writes l \<or> access_writes r) \<and> (\<exists>p. covers l p \<and> covers r p))"
proof -
  have "resourceAccessesConflict l r \<longleftrightarrow> (access_writes l \<or> access_writes r) \<and> (\<exists>p. covers l p \<and> covers r p)" for l r
  proof (cases l; cases r)
    fix lop lp lr rop rp rr
    assume "l = FileAccess lop lp lr" "r = FileAccess rop rp rr"
    then show ?thesis
      using overlap_iff_common [of lp lr rp rr lop rop] by (simp add: fileOperationsConflict_def)
  qed auto
  then show ?thesis by (simp add: conflict_def list_ex_iff)
qed

text \<open>Normalising a path is idempotent: separators, repeated and trailing slashes and letter
  case are all settled by one application, so comparing normalised paths is an equivalence
  on paths.\<close>

theorem normalizePath_idem: "normalizePath (normalizePath path) = normalizePath path"
proof -
  define c where "c = collapse_slashes (map (\<lambda>c. if c = backslash_char then slash else c) path)"
  define f where "f = toLowerCase c"
  have "(of_char backslash_char :: nat) \<noteq> of_char slash" by (simp add: backslash_char_def)
  then have "backslash_char \<noteq> slash" by metis
  then have "backslash_char \<notin> set c" unfolding c_def set_collapse by auto
  moreover have "collapse_slashes c = c" by (simp add: c_def collapse_idem)
  moreover have "backslash_char = lower_char x \<longleftrightarrow> x = backslash_char" for x
    using lower_char_backslash [of x] by (auto simp del: lower_char_backslash)
  ultimately have f: "backslash_char \<notin> set f" "collapse_slashes f = f" "map lower_char f = f"
    by (auto simp: f_def toLowerCase_def collapse_lower o_def)
  have n: "normalizePath path = (if length f > 1 \<and> endsWith f ''/'' then butlast f else f)"
    by (simp add: normalizePath_eq c_def f_def Let_def)
  show ?thesis
  proof (cases "length f > 1 \<and> endsWith f ''/''")
    case False
    then show ?thesis using n f by (auto intro!: normalizePath_fixed)
  next
    case True
    have "normalizePath (butlast f) = butlast f"
    proof (rule normalizePath_fixed)
      show "backslash_char \<notin> set (butlast f)" using f(1) by (meson in_set_butlastD)
      show "collapse_slashes (butlast f) = butlast f" using f(2) by (rule collapse_fix_butlast)
      show "map lower_char (butlast f) = butlast f" using f(3) by (metis map_butlast)
      show "\<not> endsWith (butlast f) ''/''"
      proof
        assume e: "endsWith (butlast f) ''/''"
        have "f = butlast f @ [slash]" using True by (metis append_butlast_last_id endsWith_singleton)
        moreover have "butlast f = butlast (butlast f) @ [slash]"
          using e by (metis append_butlast_last_id endsWith_singleton)
        ultimately have "f = butlast (butlast f) @ [slash, slash]" by (metis append.assoc append_Cons append_Nil)
        then show False using f(2) collapse_fix_last by metis
      qed
    qed
    then show ?thesis using n True by simp
  qed
qed

end
