(* ===== verification/Tool_Scheduler.thy ===== *)
theory Tool_Scheduler
  imports Tool_Access "HOL-Library.Multiset"
begin

text \<open>
  The tool-call scheduler of one model step, \<open>packages/agent-core/src/loop/tool-scheduler.ts\<close>.
  A task runs when it conflicts with no active task and with no task queued before it.

  A task is identified by the number of the \<open>add\<close> call that created it (the code uses
  object identity). \<open>t_throws\<close> says whether its \<open>start\<close> callback throws synchronously
  instead of returning a promise. The settling of a started task's promise, which calls
  \<open>finish\<close>, is an event of the environment. \<open>sc_settled\<close> and \<open>sc_tasks\<close> record the history:
  the tasks that have finished, and the accesses of every task ever added.

  \<open>start\<close>, \<open>finish\<close> and \<open>startQueuedTasks\<close> call each other and need not return, so they are
  defined with fuel; \<open>None\<close> is a call that needs more.
\<close>

record task =
  t_id :: nat
  t_accesses :: tool_accesses
  t_throws :: bool

record scheduler =
  sc_active :: "task list"
  sc_queued :: "task list"
  sc_settled :: "nat list"
  sc_tasks :: "tool_accesses list"

definition new_scheduler :: scheduler where
  "new_scheduler = \<lparr>sc_active = [], sc_queued = [], sc_settled = [], sc_tasks = []\<rparr>"

definition task_conflict :: "task \<Rightarrow> task \<Rightarrow> bool" where
  "task_conflict a b \<longleftrightarrow> conflict (t_accesses a) (t_accesses b)"

definition conflictsWithAny :: "task \<Rightarrow> task list \<Rightarrow> bool" where
  "conflictsWithAny t candidates \<longleftrightarrow> list_ex (\<lambda>c. task_conflict t c) candidates"

definition isBlocked :: "scheduler \<Rightarrow> task \<Rightarrow> task list \<Rightarrow> bool" where
  "isBlocked st t queuedBefore \<longleftrightarrow> conflictsWithAny t (sc_active st) \<or> conflictsWithAny t queuedBefore"

fun start :: "nat \<Rightarrow> scheduler \<Rightarrow> task \<Rightarrow> scheduler option"
  and finish :: "nat \<Rightarrow> scheduler \<Rightarrow> task \<Rightarrow> scheduler option"
  and startQueuedTasks :: "nat \<Rightarrow> scheduler \<Rightarrow> scheduler option"
  and queue_loop :: "nat \<Rightarrow> scheduler \<Rightarrow> task list \<Rightarrow> task list \<Rightarrow> (scheduler \<times> task list) option"
where
  "start 0 st t = None"
| "start (Suc n) st t =
     (let st1 = st\<lparr>sc_active := sc_active st @ [t]\<rparr> in
      if t_throws t then finish n st1 t else Some st1)"
| "finish 0 st t = None"
| "finish (Suc n) st t =
     startQueuedTasks n (st\<lparr>sc_active := remove1 t (sc_active st), sc_settled := sc_settled st @ [t_id t]\<rparr>)"
| "startQueuedTasks 0 st = None"
| "startQueuedTasks (Suc n) st =
     (case queue_loop n st (sc_queued st) [] of
        None \<Rightarrow> None
      | Some (st', stillQueued) \<Rightarrow> Some (st'\<lparr>sc_queued := stillQueued\<rparr>))"
| "queue_loop n st [] stillQueued = Some (st, stillQueued)"
| "queue_loop n st (t # ts) stillQueued =
     (if isBlocked st t stillQueued then queue_loop n st ts (stillQueued @ [t])
      else (case start n st t of
              None \<Rightarrow> None
            | Some st' \<Rightarrow> queue_loop n st' ts stillQueued))"

definition sched_add :: "nat \<Rightarrow> scheduler \<Rightarrow> tool_accesses \<Rightarrow> bool \<Rightarrow> scheduler option" where
  "sched_add fuel st accesses throws =
     (let t = \<lparr>t_id = length (sc_tasks st), t_accesses = accesses, t_throws = throws\<rparr>;
          st1 = st\<lparr>sc_tasks := sc_tasks st @ [accesses]\<rparr>
      in if isBlocked st1 t (sc_queued st1) then Some (st1\<lparr>sc_queued := sc_queued st1 @ [t]\<rparr>)
         else start fuel st1 t)"

section \<open>Relations of conflict\<close>

text \<open>What the scheduling argument needs of the conflict test: it is symmetric.\<close>

locale conflict_relation =
  fixes confl :: "'a \<Rightarrow> 'a \<Rightarrow> bool"
  assumes confl_sym: "confl a b \<longleftrightarrow> confl b a"
begin

lemma exclusive_snoc:
  "sorted_wrt (\<lambda>a b. \<not> confl a b) (xs @ [x])
     \<longleftrightarrow> sorted_wrt (\<lambda>a b. \<not> confl a b) xs \<and> (\<forall>y\<in>set xs. \<not> confl x y)"
  by (auto simp: sorted_wrt_append confl_sym)

lemma exclusive_remove:
  "sorted_wrt (\<lambda>a b. \<not> confl a b) xs \<Longrightarrow> sorted_wrt (\<lambda>a b. \<not> confl a b) (remove1 x xs)"
  by (induction xs) (auto dest: notin_set_remove1)

lemma exclusive_members:
  "sorted_wrt (\<lambda>a b. \<not> confl a b) xs \<Longrightarrow> a \<in> set xs \<Longrightarrow> b \<in> set xs \<Longrightarrow> a \<noteq> b \<Longrightarrow> \<not> confl a b"
  by (auto simp: sorted_wrt_iff_nth_less in_set_conv_nth confl_sym) (metis confl_sym linorder_neqE_nat)

end

interpretation task: conflict_relation task_conflict
  by unfold_locales (simp add: task_conflict_def conflict_sym)

abbreviation exclusive :: "task list \<Rightarrow> bool" where
  "exclusive ts \<equiv> sorted_wrt (\<lambda>a b. \<not> task_conflict a b) ts"

section \<open>Tasks that start asynchronously\<close>

text \<open>What one pass over the queue does when no start throws: the active tasks and the tasks
  still queued.\<close>

fun admit :: "task list \<Rightarrow> task list \<Rightarrow> task list \<Rightarrow> task list \<times> task list" where
  "admit act still [] = (act, still)"
| "admit act still (t # ts) =
     (if conflictsWithAny t act \<or> conflictsWithAny t still then admit act (still @ [t]) ts
      else admit (act @ [t]) still ts)"

lemma queue_loop_admit:
  "\<forall>t\<in>set ts. \<not> t_throws t \<Longrightarrow>
     queue_loop (Suc n) st ts still
     = Some (st\<lparr>sc_active := fst (admit (sc_active st) still ts)\<rparr>, snd (admit (sc_active st) still ts))"
  by (induction ts arbitrary: st still) (auto simp: isBlocked_def)

lemma finish_admit:
  assumes "\<forall>t\<in>set (sc_queued st). \<not> t_throws t"
  shows "finish (Suc (Suc (Suc n))) st t =
    (let (act, still) = admit (remove1 t (sc_active st)) [] (sc_queued st) in
     Some (st\<lparr>sc_active := act, sc_queued := still, sc_settled := sc_settled st @ [t_id t]\<rparr>))"
  using assms by (simp add: queue_loop_admit case_prod_unfold Let_def)

text \<open>The machine of asynchronous tasks: tasks are added, and active tasks settle.\<close>

datatype sched_event = TaskAdded tool_accesses | TaskSettled nat

definition FUEL :: nat where "FUEL = 3"

fun sched_step :: "scheduler \<Rightarrow> sched_event \<Rightarrow> scheduler" where
  "sched_step st (TaskAdded accesses) =
     (case sched_add FUEL st accesses False of None \<Rightarrow> st | Some st' \<Rightarrow> st')"
| "sched_step st (TaskSettled i) =
     (case find (\<lambda>t. t_id t = i) (sc_active st) of
        None \<Rightarrow> st
      | Some t \<Rightarrow> (case finish FUEL st t of None \<Rightarrow> st | Some st' \<Rightarrow> st'))"

declare sched_step.simps [simp del]

section \<open>The invariant\<close>

text \<open>A queue in which every task waits for an active task or for one queued before it.\<close>

fun all_blocked :: "task list \<Rightarrow> task list \<Rightarrow> task list \<Rightarrow> bool" where
  "all_blocked act before [] = True"
| "all_blocked act before (t # ts) \<longleftrightarrow>
     (conflictsWithAny t act \<or> conflictsWithAny t before) \<and> all_blocked act (before @ [t]) ts"

definition task_ids :: "task list \<Rightarrow> nat set" where
  "task_ids ts = t_id ` set ts"

text \<open>Each added task is in one place, the queue is in order of addition, and of two conflicting
  tasks the later one starts only once the earlier one has settled.\<close>

definition sched_ids_ok :: "scheduler \<Rightarrow> bool" where
  "sched_ids_ok st \<longleftrightarrow>
     distinct (map t_id (sc_active st)) \<and> sorted_wrt (<) (map t_id (sc_queued st)) \<and> distinct (sc_settled st)
     \<and> task_ids (sc_active st) \<inter> task_ids (sc_queued st) = {}
     \<and> (task_ids (sc_active st) \<union> task_ids (sc_queued st)) \<inter> set (sc_settled st) = {}
     \<and> task_ids (sc_active st) \<union> task_ids (sc_queued st) \<union> set (sc_settled st) = {0..<length (sc_tasks st)}
     \<and> (\<forall>t\<in>set (sc_active st) \<union> set (sc_queued st). \<not> t_throws t \<and> t_accesses t = sc_tasks st ! t_id t)"

definition ordered_start :: "scheduler \<Rightarrow> bool" where
  "ordered_start st \<longleftrightarrow>
     (\<forall>a b. a < b \<and> b \<in> task_ids (sc_active st) \<union> set (sc_settled st)
        \<and> conflict (sc_tasks st ! a) (sc_tasks st ! b) \<longrightarrow> a \<in> set (sc_settled st))"

definition sched_ok :: "scheduler \<Rightarrow> bool" where
  "sched_ok st \<longleftrightarrow> exclusive (sc_active st) \<and> all_blocked (sc_active st) [] (sc_queued st)
     \<and> sched_ids_ok st \<and> ordered_start st"

lemma new_scheduler_ok: "sched_ok new_scheduler"
  by (simp add: sched_ok_def sched_ids_ok_def ordered_start_def new_scheduler_def task_ids_def)

lemma conflictsWithAny_iff: "conflictsWithAny t ts \<longleftrightarrow> (\<exists>c\<in>set ts. task_conflict t c)"
  by (simp add: conflictsWithAny_def list_ex_iff)

lemma all_blocked_snoc:
  "all_blocked act before (xs @ [t]) \<longleftrightarrow>
     all_blocked act before xs \<and> (conflictsWithAny t act \<or> conflictsWithAny t (before @ xs))"
  by (induction xs arbitrary: before) auto

lemma all_blocked_mono:
  "all_blocked act before xs \<Longrightarrow> set act \<subseteq> set act' \<Longrightarrow> all_blocked act' before xs"
  by (induction xs arbitrary: before) (auto simp: conflictsWithAny_iff)

lemma all_blocked_first: "all_blocked act [] q \<Longrightarrow> q \<noteq> [] \<Longrightarrow> act \<noteq> []"
  by (cases q) (auto simp: conflictsWithAny_iff)

text \<open>One pass over the queue.\<close>

lemma admit_exclusive: "exclusive act \<Longrightarrow> exclusive (fst (admit act still ts))"
proof (induction ts arbitrary: act still)
  case (Cons t ts)
  then show ?case by (auto simp: task.exclusive_snoc conflictsWithAny_iff)
qed simp

lemma admit_blocked:
  "all_blocked act [] still \<Longrightarrow> all_blocked (fst (admit act still ts)) [] (snd (admit act still ts))"
proof (induction ts arbitrary: act still)
  case (Cons t ts)
  have "all_blocked (act @ [t]) [] still" using Cons.prems by (rule all_blocked_mono) auto
  then show ?case using Cons by (simp add: all_blocked_snoc)
qed simp

lemma admit_mset:
  "mset (fst (admit act still ts)) + mset (snd (admit act still ts)) = mset act + mset still + mset ts"
  by (induction ts arbitrary: act still) simp_all

lemma admit_sorted:
  "sorted_wrt (<) (map t_id (still @ ts)) \<Longrightarrow> sorted_wrt (<) (map t_id (snd (admit act still ts)))"
proof (induction ts arbitrary: act still)
  case (Cons t ts)
  have "sorted_wrt (<) (map t_id (still @ ts))" using Cons.prems by (auto simp: sorted_wrt_append)
  then show ?case using Cons by simp
qed simp

text \<open>A task that leaves the queue conflicts with no task that was active or still queued,
  and with none that came before it in the queue.\<close>

lemma admit_started:
  "b \<in> set ts \<Longrightarrow> b \<in> set (fst (admit act still ts)) \<Longrightarrow>
     distinct (map t_id (act @ still @ ts)) \<Longrightarrow> sorted_wrt (<) (map t_id ts) \<Longrightarrow>
     a \<in> set act \<union> set still \<or> (a \<in> set ts \<and> t_id a < t_id b) \<Longrightarrow> \<not> task_conflict b a"
proof (induction ts arbitrary: act still)
  case (Cons t ts)
  let ?blocked = "conflictsWithAny t act \<or> conflictsWithAny t still"
  have sub: "set (fst (admit act still ts)) \<subseteq> set act \<union> set still \<union> set ts" for act still
    using admit_mset [of act still ts, THEN arg_cong [of _ _ set_mset]] by auto
  show ?case
  proof (cases "b = t")
    case True
    have "a \<in> set act \<union> set still"
      using Cons.prems True by auto
    moreover have "\<not> ?blocked"
    proof
      assume "?blocked"
      then have "b \<in> set (fst (admit act (still @ [t]) ts))" using Cons.prems(2) by simp
      have "mset (fst (admit act (still @ [t]) ts)) + mset (snd (admit act (still @ [t]) ts))
          = mset (act @ still @ t # ts)"
        by (simp add: admit_mset)
      moreover have "distinct (act @ still @ t # ts)" using Cons.prems(3) unfolding distinct_map by (rule conjunct1)
      moreover have "t \<in> set (snd (admit act (still @ [t]) ts))"
      proof -
        have "set still' \<subseteq> set (snd (admit act' still' ts))" for act' still'
          by (induction ts arbitrary: act' still') (auto, fastforce+)
        then show ?thesis by fastforce
      qed
      ultimately have "b \<notin> set (fst (admit act (still @ [t]) ts))"
        using True
        by (metis (no_types) distinct_append mset_append mset_eq_imp_distinct_iff disjoint_iff)
      then show False using \<open>b \<in> set (fst (admit act (still @ [t]) ts))\<close> by blast
    qed
    ultimately show ?thesis using True by (auto simp: conflictsWithAny_iff)
  next
    case False
    then have b: "b \<in> set ts" using Cons.prems(1) by simp
    show ?thesis
    proof (cases ?blocked)
      case True
      then show ?thesis using Cons.prems b by (intro Cons.IH [of act "still @ [t]"]) auto
    next
      case False
      then show ?thesis using Cons.prems b by (intro Cons.IH [of "act @ [t]" still]) auto
    qed
  qed
qed simp

section \<open>Every step keeps the invariant\<close>

text \<open>The three fuel levels of an asynchronous step are enough.\<close>

lemma sched_add_async:
  "sched_add FUEL st accesses False =
     (let t = \<lparr>t_id = length (sc_tasks st), t_accesses = accesses, t_throws = False\<rparr>;
          st1 = st\<lparr>sc_tasks := sc_tasks st @ [accesses]\<rparr>
      in Some (if isBlocked st1 t (sc_queued st1) then st1\<lparr>sc_queued := sc_queued st1 @ [t]\<rparr>
               else st1\<lparr>sc_active := sc_active st1 @ [t]\<rparr>))"
  by (simp add: sched_add_def FUEL_def numeral_3_eq_3 Let_def)

lemma task_ids_simps [simp]: "task_ids [] = {}" "task_ids (xs @ ys) = task_ids xs \<union> task_ids ys"
  "task_ids (x # xs) = insert (t_id x) (task_ids xs)"
  by (simp_all add: task_ids_def image_Un)

lemma set_task_ids: "set (map t_id ts) = task_ids ts"
  by (simp add: task_ids_def)

text \<open>A fresh task goes to the end of one of the two lists.\<close>

lemma sched_ids_add:
  assumes ids: "sched_ids_ok st" and t: "t_id t = length (sc_tasks st)" "\<not> t_throws t"
  shows "sched_ids_ok (st\<lparr>sc_tasks := sc_tasks st @ [t_accesses t], sc_queued := sc_queued st @ [t]\<rparr>)"
    and "sched_ids_ok (st\<lparr>sc_tasks := sc_tasks st @ [t_accesses t], sc_active := sc_active st @ [t]\<rparr>)"
proof -
  let ?n = "length (sc_tasks st)" and ?A = "task_ids (sc_active st)" and ?Q = "task_ids (sc_queued st)"
  have u: "?A \<union> ?Q \<union> set (sc_settled st) = {0..<?n}" using ids by (simp add: sched_ids_ok_def)
  then have fresh: "?n \<notin> ?A" "?n \<notin> ?Q" "?n \<notin> set (sc_settled st)" by auto
  have u': "insert ?n (?A \<union> ?Q \<union> set (sc_settled st)) = {0..<Suc ?n}"
    unfolding u atLeast0_lessThan_Suc by simp
  have acc: "\<forall>x\<in>set (sc_active st) \<union> set (sc_queued st). \<not> t_throws x \<and> t_accesses x = (sc_tasks st @ [t_accesses t]) ! t_id x"
  proof
    fix x assume x: "x \<in> set (sc_active st) \<union> set (sc_queued st)"
    then have "t_id x < ?n" using u by (auto simp: task_ids_def)
    then show "\<not> t_throws x \<and> t_accesses x = (sc_tasks st @ [t_accesses t]) ! t_id x"
      using ids x by (auto simp: sched_ids_ok_def nth_append)
  qed
  have last: "\<forall>i\<in>set (map t_id (sc_queued st)). i < ?n"
    unfolding set_task_ids using u by auto
  note parts = ids [unfolded sched_ids_ok_def]
  show "sched_ids_ok (st\<lparr>sc_tasks := sc_tasks st @ [t_accesses t], sc_queued := sc_queued st @ [t]\<rparr>)"
    unfolding sched_ids_ok_def
    using parts fresh t u' acc last by (simp add: sorted_wrt_append Un_insert_right Un_insert_left)
  show "sched_ids_ok (st\<lparr>sc_tasks := sc_tasks st @ [t_accesses t], sc_active := sc_active st @ [t]\<rparr>)"
    unfolding sched_ids_ok_def
    using parts fresh t u' acc by (simp add: Un_insert_right Un_insert_left set_task_ids flip: set_task_ids)
qed

lemma sched_task_of:
  assumes "sched_ids_ok st" "a < length (sc_tasks st)" "a \<notin> set (sc_settled st)"
  shows "\<exists>c\<in>set (sc_active st) \<union> set (sc_queued st). t_id c = a"
proof -
  have "a \<in> task_ids (sc_active st) \<union> task_ids (sc_queued st) \<union> set (sc_settled st)"
    using assms(1,2) by (simp add: sched_ids_ok_def)
  then show ?thesis using assms(3) by (auto simp: task_ids_def)
qed

lemma added_ok:
  assumes "sched_ok st"
  shows "sched_ok (sched_step st (TaskAdded accesses))"
proof -
  let ?n = "length (sc_tasks st)"
  define t where "t = \<lparr>t_id = ?n, t_accesses = accesses, t_throws = False\<rparr>"
  have t: "t_id t = ?n" "t_accesses t = accesses" "\<not> t_throws t" by (simp_all add: t_def)
  have ids: "sched_ids_ok st" and ord: "ordered_start st" and ex: "exclusive (sc_active st)"
    and bl: "all_blocked (sc_active st) [] (sc_queued st)"
    using assms by (simp_all add: sched_ok_def)
  have small: "\<And>i. i \<in> task_ids (sc_active st) \<union> task_ids (sc_queued st) \<union> set (sc_settled st) \<Longrightarrow> i < ?n"
    using ids by (auto simp: sched_ids_ok_def)
  have acc: "(sc_tasks st @ [accesses]) ! t_id x = t_accesses x" if "x \<in> set (sc_active st) \<union> set (sc_queued st)" for x
    using ids small [of "t_id x"] that by (auto simp: sched_ids_ok_def task_ids_def nth_append)
  have fresh: "?n \<notin> task_ids (sc_active st)" "?n \<notin> task_ids (sc_queued st)" "?n \<notin> set (sc_settled st)"
    using small by blast+
  have old: "a \<in> set (sc_settled st)"
    if "a < b" "b \<in> task_ids (sc_active st) \<union> set (sc_settled st)"
      "conflict ((sc_tasks st @ [accesses]) ! a) ((sc_tasks st @ [accesses]) ! b)" for a b
  proof -
    have "b < ?n" using small that(2) by blast
    then have "conflict (sc_tasks st ! a) (sc_tasks st ! b)" using that(1,3) by (simp add: nth_append)
    then show ?thesis using ord that(1,2) unfolding ordered_start_def by blast
  qed
  show ?thesis
  proof (cases "isBlocked (st\<lparr>sc_tasks := sc_tasks st @ [accesses]\<rparr>) t (sc_queued st)")
    case True
    have step: "sched_step st (TaskAdded accesses)
        = st\<lparr>sc_tasks := sc_tasks st @ [accesses], sc_queued := sc_queued st @ [t]\<rparr>"
      using True by (simp add: sched_step.simps sched_add_async t_def Let_def)
    have "sched_ids_ok (sched_step st (TaskAdded accesses))"
      using sched_ids_add(1) [OF ids t(1,3)] t(2) by (simp add: step)
    moreover have "ordered_start (sched_step st (TaskAdded accesses))"
      using old by (auto simp: step ordered_start_def)
    moreover have "all_blocked (sc_active st) [] (sc_queued st @ [t])"
      using bl True by (simp add: all_blocked_snoc isBlocked_def)
    ultimately show ?thesis using ex by (simp add: sched_ok_def step)
  next
    case False
    have step: "sched_step st (TaskAdded accesses)
        = st\<lparr>sc_tasks := sc_tasks st @ [accesses], sc_active := sc_active st @ [t]\<rparr>"
      using False by (simp add: sched_step.simps sched_add_async t_def Let_def)
    have free: "\<not> task_conflict t c" if "c \<in> set (sc_active st) \<union> set (sc_queued st)" for c
      using False that by (auto simp: isBlocked_def conflictsWithAny_iff)
    have "sched_ids_ok (sched_step st (TaskAdded accesses))"
      using sched_ids_add(2) [OF ids t(1,3)] t(2) by (simp add: step)
    moreover have "a \<in> set (sc_settled st)" if ac: "a < ?n" "conflict ((sc_tasks st @ [accesses]) ! a) accesses" for a
    proof (rule ccontr)
      assume "a \<notin> set (sc_settled st)"
      then obtain c where "c \<in> set (sc_active st) \<union> set (sc_queued st)" "t_id c = a"
        using sched_task_of [OF ids ac(1)] by blast
      then show False using free [of c] acc [of c] ac(2) t by (simp add: task_conflict_def conflict_sym)
    qed
    then have "ordered_start (sched_step st (TaskAdded accesses))"
      using old t by (auto simp: step ordered_start_def task_ids_def)
    moreover have "exclusive (sc_active st @ [t])"
      using ex free by (simp add: task.exclusive_snoc)
    moreover have "all_blocked (sc_active st @ [t]) [] (sc_queued st)"
      using bl by (rule all_blocked_mono) auto
    ultimately show ?thesis by (simp add: sched_ok_def step)
  qed
qed

lemma settled_ok:
  assumes "sched_ok st"
  shows "sched_ok (sched_step st (TaskSettled i))"
proof (cases "find (\<lambda>t. t_id t = i) (sc_active st)")
  case None
  then show ?thesis using assms by (simp add: sched_step.simps)
next
  case (Some t)
  have t: "t \<in> set (sc_active st)" "t_id t = i"
    using Some by (auto simp: find_Some_iff)
  have ids: "sched_ids_ok st" and ord: "ordered_start st" and ex: "exclusive (sc_active st)"
    using assms by (simp_all add: sched_ok_def)
  define act0 where "act0 = remove1 t (sc_active st)"
  define act where "act = fst (admit act0 [] (sc_queued st))"
  define still where "still = snd (admit act0 [] (sc_queued st))"
  have async: "\<forall>x\<in>set (sc_queued st). \<not> t_throws x" using ids by (simp add: sched_ids_ok_def)
  have step: "sched_step st (TaskSettled i)
      = st\<lparr>sc_active := act, sc_queued := still, sc_settled := sc_settled st @ [i]\<rparr>"
    using Some finish_admit [OF async, of 0 t] t(2)
    by (simp add: sched_step.simps FUEL_def numeral_3_eq_3 act_def still_def act0_def case_prod_unfold Let_def del: finish.simps)
  have dist: "distinct (map t_id (sc_active st @ sc_queued st))"
    using ids by (auto simp: sched_ids_ok_def task_ids_def strict_sorted_iff)
  have active: "mset (sc_active st) = add_mset t (mset act0)" using t(1) by (simp add: act0_def)
  have content: "mset act + mset still = mset act0 + mset (sc_queued st)"
    using admit_mset [of act0 "[]" "sc_queued st"] by (simp add: act_def still_def)
  have "mset (map t_id (t # act @ still)) = mset (map t_id (sc_active st @ sc_queued st))"
    using content active by (simp flip: image_mset_union)
  then have dist': "distinct (map t_id (t # act @ still))"
    using dist mset_eq_imp_distinct_iff by blast
  have dist0: "distinct (map t_id (act0 @ [] @ sc_queued st))"
  proof -
    have "mset (map t_id (t # act0 @ [] @ sc_queued st)) = mset (map t_id (sc_active st @ sc_queued st))"
      using active by simp
    then have "distinct (map t_id (t # act0 @ [] @ sc_queued st))"
      using dist mset_eq_imp_distinct_iff by blast
    then show ?thesis by simp
  qed
  have sets: "set (sc_active st) = insert t (set act0)" "set act \<union> set still = set act0 \<union> set (sc_queued st)"
    using arg_cong [OF active, of set_mset] arg_cong [OF content, of set_mset] by simp_all
  have sorted: "sorted_wrt (<) (map t_id (sc_queued st))" using ids by (simp add: sched_ids_ok_def)
  have still_sorted: "sorted_wrt (<) (map t_id still)"
    using admit_sorted [of "[]" "sc_queued st" act0] sorted by (simp add: still_def)
  have all: "task_ids act \<union> task_ids still \<union> {i} = task_ids (sc_active st) \<union> task_ids (sc_queued st)"
    using arg_cong [OF sets(2), of "image t_id"] sets(1) t(2) by (auto simp: task_ids_def image_Un)
  have apart: "distinct (map t_id act)" "task_ids act \<inter> task_ids still = {}" "i \<notin> task_ids act \<union> task_ids still"
    using dist' t(2) by (auto simp: task_ids_def)
  have i: "i \<in> task_ids (sc_active st)" using t by (auto simp: task_ids_def)
  have ids': "sched_ids_ok (sched_step st (TaskSettled i))"
    unfolding step sched_ids_ok_def
  proof (simp, intro conjI)
    note parts = ids [unfolded sched_ids_ok_def]
    show "distinct (map t_id act)" "sorted_wrt (<) (map t_id still)" "task_ids act \<inter> task_ids still = {}"
      by fact+
    show "distinct (sc_settled st)" using parts by blast
    show "i \<notin> set (sc_settled st)" using parts i by blast
    show "i \<notin> task_ids act" "i \<notin> task_ids still" using apart by auto
    show "(task_ids act \<union> task_ids still) \<inter> set (sc_settled st) = {}" using parts all by blast
    show "insert i (task_ids act \<union> task_ids still \<union> set (sc_settled st)) = {0..<length (sc_tasks st)}"
      using parts all by blast
    show "\<forall>t\<in>set act \<union> set still. \<not> t_throws t \<and> t_accesses t = sc_tasks st ! t_id t"
      using parts sets by blast
  qed
  have "a \<in> set (sc_settled st) \<union> {i}"
    if ab: "a < b" "b \<in> task_ids act \<union> set (sc_settled st) \<union> {i}" "conflict (sc_tasks st ! a) (sc_tasks st ! b)" for a b
  proof (cases "b \<in> task_ids (sc_active st) \<union> set (sc_settled st)")
    case True
    then show ?thesis using ord ab unfolding ordered_start_def by blast
  next
    case False
    then obtain tb where tb: "tb \<in> set act" "t_id tb = b" using ab(2) t by (auto simp: task_ids_def)
    then have q: "tb \<in> set (sc_queued st)" using False sets by (auto simp: task_ids_def)
    show ?thesis
    proof (rule ccontr)
      assume out: "a \<notin> set (sc_settled st) \<union> {i}"
      have "b < length (sc_tasks st)" using ids q tb(2) by (auto simp: sched_ids_ok_def task_ids_def)
      then obtain ta where ta: "ta \<in> set (sc_active st) \<union> set (sc_queued st)" "t_id ta = a"
        using sched_task_of [OF ids, of a] ab(1) out by auto
      have "ta \<noteq> t" using out ta(2) t(2) by auto
      then have "ta \<in> set act0 \<union> set [] \<or> (ta \<in> set (sc_queued st) \<and> t_id ta < t_id tb)"
        using ta sets(1) tb(2) ab(1) by auto
      then have "\<not> task_conflict tb ta"
        using admit_started [OF q _ dist0 sorted, of ta] tb(1) by (simp add: act_def)
      moreover have "t_accesses ta = sc_tasks st ! a" "t_accesses tb = sc_tasks st ! b"
        using ids ta tb q by (auto simp: sched_ids_ok_def)
      ultimately show False using ab(3) by (simp add: task_conflict_def conflict_sym)
    qed
  qed
  then have "ordered_start (sched_step st (TaskSettled i))"
    by (auto simp: step ordered_start_def)
  moreover have "exclusive act" unfolding act_def act0_def by (intro admit_exclusive task.exclusive_remove ex)
  moreover have "all_blocked act [] still" unfolding act_def still_def by (rule admit_blocked) simp
  ultimately show ?thesis using ids' by (simp add: sched_ok_def step)
qed

interpretation scheduler: op_machine sched_step sched_ok
proof
  fix st e assume "sched_ok st"
  then show "sched_ok (sched_step st e)" by (cases e) (simp_all only: added_ok settled_ok)
qed

definition pending :: "scheduler \<Rightarrow> nat" where
  "pending st = length (sc_active st) + length (sc_queued st)"

lemma settled_pending:
  assumes "sched_ok st" "t \<in> set (sc_active st)"
  shows "Suc (pending (sched_step st (TaskSettled (t_id t)))) = pending st"
proof -
  obtain u where u: "find (\<lambda>x. t_id x = t_id t) (sc_active st) = Some u"
    using assms(2) by (metis (mono_tags, lifting) find_None_iff2 not_Some_eq)
  then have mem: "u \<in> set (sc_active st)" by (auto simp: find_Some_iff)
  have async: "\<forall>x\<in>set (sc_queued st). \<not> t_throws x" using assms(1) by (simp add: sched_ok_def sched_ids_ok_def)
  let ?r = "admit (remove1 u (sc_active st)) [] (sc_queued st)"
  have "length (fst ?r) + length (snd ?r) = length (remove1 u (sc_active st)) + length (sc_queued st)"
    using arg_cong [OF admit_mset [of "remove1 u (sc_active st)" "[]" "sc_queued st"], of size]
    by (simp only: size_union size_mset) simp
  moreover have "length (remove1 u (sc_active st)) = length (sc_active st) - 1" "sc_active st \<noteq> []"
    using mem by (auto simp: length_remove1)
  ultimately show ?thesis
    using u finish_admit [OF async, of 0 u]
    by (simp add: pending_def sched_step.simps FUEL_def numeral_3_eq_3 case_prod_unfold Let_def del: finish.simps)
qed

text \<open>Settling an active task again and again, whichever comes first in the list.\<close>

fun settle_all :: "nat \<Rightarrow> scheduler \<Rightarrow> scheduler" where
  "settle_all 0 st = st"
| "settle_all (Suc n) st =
     (case sc_active st of [] \<Rightarrow> st | t # _ \<Rightarrow> settle_all n (sched_step st (TaskSettled (t_id t))))"

lemma settle_all_empties:
  "sched_ok st \<Longrightarrow> pending st \<le> n \<Longrightarrow> sc_active (settle_all n st) = [] \<and> sc_queued (settle_all n st) = []
     \<and> sched_ok (settle_all n st)"
proof (induction n arbitrary: st)
  case (Suc n)
  show ?case
  proof (cases "sc_active st")
    case Nil
    then have "sc_queued st = []" using Suc.prems(1) all_blocked_first by (fastforce simp: sched_ok_def)
    then show ?thesis using Nil Suc.prems(1) by simp
  next
    case (Cons t ts)
    have "Suc (pending (sched_step st (TaskSettled (t_id t)))) = pending st"
      using Cons by (intro settled_pending Suc.prems) simp
    then show ?thesis
      using Suc.IH [OF settled_ok [OF Suc.prems(1)], of "t_id t"] Suc.prems(2) Cons by simp
  qed
qed (simp add: pending_def)

lemma settle_all_tasks: "sc_tasks (settle_all n st) = sc_tasks st" if "sched_ok st"
  using that
proof (induction n arbitrary: st)
  case (Suc n)
  have "sc_tasks (sched_step st (TaskSettled i)) = sc_tasks st" for i
  proof -
    have async: "\<forall>x\<in>set (sc_queued st). \<not> t_throws x" using Suc.prems by (simp add: sched_ok_def sched_ids_ok_def)
    show ?thesis
      using finish_admit [OF async, of 0]
      by (auto simp: sched_step.simps FUEL_def numeral_3_eq_3 case_prod_unfold Let_def simp del: finish.simps
          split: option.split)
  qed
  then show ?case using Suc.IH [OF settled_ok [OF Suc.prems]] by (simp split: list.split)
qed simp

abbreviation sched_after :: "sched_event list \<Rightarrow> scheduler" where
  "sched_after evs \<equiv> run_ops sched_step new_scheduler evs"

lemma sched_after_ok: "sched_ok (sched_after evs)"
  by (rule scheduler.run_ok [OF new_scheduler_ok])

section \<open>Properties\<close>

text \<open>C19: Mutual exclusion: in every state reached by adding tasks and settling them, in any
  order, two different active tasks never conflict.\<close>

theorem scheduler_mutual_exclusion:
  assumes "a \<in> set (sc_active (sched_after evs))" "b \<in> set (sc_active (sched_after evs))" "a \<noteq> b"
  shows "\<not> conflict (t_accesses a) (t_accesses b)"
  using task.exclusive_members [OF _ assms] sched_after_ok [of evs]
  by (simp add: sched_ok_def task_conflict_def)

theorem scheduler_mutual_exclusion_witness:
  "\<not> conflict (readFile ''/a'') (readFile ''/a'')"
proof -
  let ?evs = "[TaskAdded (readFile ''/a''), TaskAdded (readFile ''/a'')]"
  let ?a = "\<lparr>t_id = 0, t_accesses = readFile ''/a'', t_throws = False\<rparr>"
  let ?b = "\<lparr>t_id = 1, t_accesses = readFile ''/a'', t_throws = False\<rparr>"
  have "sc_active (sched_after ?evs) = [?a, ?b]"
    by (simp add: sched_step.simps sched_add_async new_scheduler_def isBlocked_def conflictsWithAny_def
        task_conflict_def conflict_def readFile_def ta_file_def fileOperationsConflict_def)
  then show ?thesis using scheduler_mutual_exclusion [of ?a ?evs ?b] by simp
qed

text \<open>C20: Order: of two conflicting tasks the one added first goes first. In every reachable
  state, if the later one is active or has settled, the earlier one has settled.\<close>

theorem scheduler_conflicts_in_order:
  assumes "st = sched_after evs" "a < b" "conflict (sc_tasks st ! a) (sc_tasks st ! b)"
    and "b \<in> task_ids (sc_active st) \<union> set (sc_settled st)"
  shows "a \<in> set (sc_settled st)"
  using sched_after_ok [of evs] assms unfolding sched_ok_def ordered_start_def by blast

theorem scheduler_conflicts_in_order_witness:
  "(0 :: nat) \<in> set (sc_settled (sched_after [TaskAdded ta_all, TaskAdded ta_all, TaskSettled 0]))"
proof (rule scheduler_conflicts_in_order [of _ "[TaskAdded ta_all, TaskAdded ta_all, TaskSettled 0]" 0 1])
  have st: "sched_after [TaskAdded ta_all, TaskAdded ta_all, TaskSettled 0]
      = \<lparr>sc_active = [\<lparr>t_id = 1, t_accesses = ta_all, t_throws = False\<rparr>], sc_queued = [], sc_settled = [0],
         sc_tasks = [ta_all, ta_all]\<rparr>"
    by (simp add: sched_step.simps sched_add_def new_scheduler_def isBlocked_def conflictsWithAny_def
        task_conflict_def conflict_def ta_all_def FUEL_def numeral_3_eq_3)
  show "conflict (sc_tasks (sched_after [TaskAdded ta_all, TaskAdded ta_all, TaskSettled 0]) ! 0)
      (sc_tasks (sched_after [TaskAdded ta_all, TaskAdded ta_all, TaskSettled 0]) ! 1)"
    by (simp only: st) (simp add: conflict_def ta_all_def)
  show "(1 :: nat) \<in> task_ids (sc_active (sched_after [TaskAdded ta_all, TaskAdded ta_all, TaskSettled 0]))
      \<union> set (sc_settled (sched_after [TaskAdded ta_all, TaskAdded ta_all, TaskSettled 0]))"
    by (simp only: st) simp
qed simp_all

text \<open>C21: As long as no start callback throws synchronously, no task is lost or stuck: from every state
  reached by adding such tasks and settling running ones, settling active tasks as many times as tasks are pending
  leaves none active and none queued, and every task that was ever added has settled, exactly once. (A queued
  task whose start throws is the exception: \<open>queued_sync_throw_never_returns\<close>.)\<close>

theorem scheduler_drains:
  "let st = sched_after evs; fin = settle_all (pending st) st in
     sc_active fin = [] \<and> sc_queued fin = [] \<and> set (sc_settled fin) = {0..<length (sc_tasks st)}
     \<and> distinct (sc_settled fin)"
proof -
  have ok: "sched_ok (sched_after evs)" by (rule sched_after_ok)
  let ?fin = "settle_all (pending (sched_after evs)) (sched_after evs)"
  have fin: "sc_active ?fin = []" "sc_queued ?fin = []" "sched_ok ?fin"
    using settle_all_empties [OF ok order_refl] by simp_all
  then show ?thesis
    using settle_all_tasks [OF ok] by (auto simp: Let_def sched_ok_def sched_ids_ok_def)
qed

text \<open>C38: A task whose start callback throws synchronously must not be queued: if the first queued
  task is no longer blocked and its start throws, no amount of fuel lets
  \<open>startQueuedTasks\<close> return. The failed start finishes the task, which starts the queue
  again while it still holds the task.\<close>

theorem queued_sync_throw_never_returns:
  assumes "sc_queued st = t # ts" "t_throws t" "\<not> conflictsWithAny t (sc_active st)" "t \<notin> set (sc_active st)"
  shows "startQueuedTasks fuel st = None"
  using assms
proof (induction fuel arbitrary: st rule: less_induct)
  case (less fuel)
  show ?case
  proof (cases fuel)
    case (Suc n)
    have start: "start n st t = None"
    proof (cases n)
      case (Suc k)
      show ?thesis
      proof (cases k)
        case (Suc j)
        have "remove1 t (sc_active st @ [t]) = sc_active st" using less.prems(4) by (simp add: remove1_append)
        then show ?thesis
          using less.IH [of j "st\<lparr>sc_active := sc_active st, sc_settled := sc_settled st @ [t_id t]\<rparr>"] less.prems
            \<open>fuel = Suc n\<close> \<open>n = Suc k\<close> Suc by simp
      qed (use \<open>n = Suc k\<close> less.prems in simp)
    qed simp
    have "\<not> isBlocked st t []" using less.prems(3) by (simp add: isBlocked_def conflictsWithAny_def)
    then have "queue_loop n st (t # ts) [] = None" using start by simp
    then show ?thesis using Suc less.prems(1) by (simp del: queue_loop.simps)
  qed simp
qed

theorem queued_sync_throw_never_returns_witness:
  "startQueuedTasks 1000 \<lparr>sc_active = [], sc_queued = [\<lparr>t_id = 1, t_accesses = ta_all, t_throws = True\<rparr>],
     sc_settled = [0], sc_tasks = [ta_all, ta_all]\<rparr> = None"
  by (rule queued_sync_throw_never_returns [of _ "\<lparr>t_id = 1, t_accesses = ta_all, t_throws = True\<rparr>" "[]"])
    (simp_all add: conflictsWithAny_def)

end
