(* ===== verification/Head_Tail_Buffer.thy ===== *)
theory Head_Tail_Buffer
  imports Prelude
begin

text \<open>
  The capped output buffer of shell sessions,
  \<open>packages/agent-core/src/agent/shell-session/head-tail-buffer.ts\<close>. It keeps the first half
  of its budget from the start of the output and the rest from the end. The result is that
  it does so exactly, whatever the chunks the output arrives in.
\<close>

record head_tail_buffer =
  b_maxBytes :: nat
  b_headBudget :: nat
  b_tailBudget :: nat
  b_head :: string
  b_tail :: string
  b_omittedBytes :: nat

definition new_buffer :: "nat \<Rightarrow> head_tail_buffer" where
  "new_buffer maxBytes =
     \<lparr>b_maxBytes = maxBytes, b_headBudget = maxBytes div 2, b_tailBudget = maxBytes - maxBytes div 2,
      b_head = [], b_tail = [], b_omittedBytes = 0\<rparr>"

definition formatOutputOmissionMarker :: "nat \<Rightarrow> string" where
  "formatOutputOmissionMarker omittedBytes = ''... '' @ string_of_nat omittedBytes @ '' bytes omitted ...''"

definition retainedBytes :: "head_tail_buffer \<Rightarrow> nat" where
  "retainedBytes b = length (b_head b) + length (b_tail b)"

definition totalBytes :: "head_tail_buffer \<Rightarrow> nat" where
  "totalBytes b = retainedBytes b + b_omittedBytes b"

definition pushToTail :: "head_tail_buffer \<Rightarrow> string \<Rightarrow> head_tail_buffer" where
  "pushToTail b chunk =
     (if chunk = [] then b
      else if b_tailBudget b = 0 then b\<lparr>b_omittedBytes := b_omittedBytes b + length chunk\<rparr>
      else if length chunk \<ge> b_tailBudget b then
        let kept = drop (length chunk - b_tailBudget b) chunk in
        b\<lparr>b_omittedBytes := b_omittedBytes b + (length (b_tail b) + (length chunk - length kept)),
          b_tail := kept\<rparr>
      else
        let tail' = b_tail b @ chunk; excess = int (length tail') - int (b_tailBudget b) in
        if excess > 0 then
          b\<lparr>b_tail := drop (nat excess) tail', b_omittedBytes := b_omittedBytes b + nat excess\<rparr>
        else b\<lparr>b_tail := tail'\<rparr>)"

definition push :: "head_tail_buffer \<Rightarrow> string \<Rightarrow> head_tail_buffer" where
  "push b chunk =
     (if chunk = [] then b
      else if b_maxBytes b = 0 then b\<lparr>b_omittedBytes := b_omittedBytes b + length chunk\<rparr>
      else
        let remainingHead = int (b_headBudget b) - int (length (b_head b));
            headLen = nat (min (max remainingHead 0) (int (length chunk)));
            b1 = (if headLen > 0 then b\<lparr>b_head := b_head b @ take headLen chunk\<rparr> else b)
        in pushToTail b1 (drop headLen chunk))"

definition toStringWithOmissionMarker :: "head_tail_buffer \<Rightarrow> string" where
  "toStringWithOmissionMarker b =
     (if b_omittedBytes b = 0 then b_head b @ b_tail b
      else b_head b @ [CHR 0x0A] @ formatOutputOmissionMarker (b_omittedBytes b) @ [CHR 0x0A] @ b_tail b)"

record drain_snapshot =
  d_output :: string
  d_omittedBytes :: nat
  d_totalBytes :: nat

definition drain :: "head_tail_buffer \<Rightarrow> drain_snapshot \<times> head_tail_buffer" where
  "drain b =
     (\<lparr>d_output = toStringWithOmissionMarker b, d_omittedBytes = b_omittedBytes b, d_totalBytes = totalBytes b\<rparr>,
      b\<lparr>b_head := [], b_tail := [], b_omittedBytes := 0\<rparr>)"

section \<open>The buffer holds the two ends of the output\<close>

text \<open>The buffer of capacity \<open>m\<close> after the output \<open>s\<close>, however it was cut into chunks.\<close>

definition holds :: "nat \<Rightarrow> string \<Rightarrow> head_tail_buffer" where
  "holds m s =
     \<lparr>b_maxBytes = m, b_headBudget = m div 2, b_tailBudget = m - m div 2,
      b_head = take (m div 2) s, b_tail = drop (max (m div 2) (length s - (m - m div 2))) s,
      b_omittedBytes = length s - m\<rparr>"

lemma holds_new: "new_buffer m = holds m []"
  by (simp add: new_buffer_def holds_def)

lemma push_empty: "push b [] = b"
  by (simp add: push_def)

text \<open>The part of a chunk that goes to the tail, once the head is full.\<close>

lemma pushToTail_holds:
  assumes "0 < m" "m div 2 \<le> length s" "c \<noteq> []"
  shows "pushToTail (holds m s) c = holds m (s @ c)"
proof -
  define h t where "h = m div 2" and "t = m - h"
  have m: "m = h + t" "0 < t" "h \<le> length s" using assms by (auto simp: h_def t_def)
  have fields: "m div 2 = h" "m - h = t" by (simp_all add: h_def t_def)
  have head: "take h (s @ c) = take h s" using m by simp
  show ?thesis
  proof (cases "length c \<ge> t")
    case True
    have tail: "drop (max h (length s + length c - t)) (s @ c) = drop (length c - t) c"
      using True m by (simp add: max_def)
    have om: "length s - m + (length s - max h (length s - t) + (length c - t)) = length s + length c - m"
      using True m(1,3) by (cases "t \<le> length s") (auto simp: max_def)
    have kept: "length c - (length c - t) = t" using True by simp
    show ?thesis
      using True m(2) assms(3) om
      by (simp add: pushToTail_def holds_def fields Let_def kept head tail del: take_append drop_append)
  next
    case False
    define a where "a = max h (length s - t)"
    have a: "a \<le> length s" using m(3) by (simp add: a_def)
    have guards: "c \<noteq> []" "t \<noteq> 0" "\<not> t \<le> length c" using False m(2) assms(3) by simp_all
    show ?thesis
    proof (cases "length s - a + length c \<le> t")
      case True
      then have "a = h" "max h (length s + length c - t) = h" "length s + length c - m = length s - m"
        using m length_greater_0_conv [THEN iffD2, OF assms(3)]
        by (cases "t \<le> length s"; auto simp: a_def max_def split: if_splits)+
      moreover have "\<not> 0 < int (length s - a) + int (length c) - int t" using True by simp
      moreover have "drop h (s @ c) = drop h s @ c" using m(3) by simp
      ultimately show ?thesis
        by (simp add: pushToTail_def holds_def fields Let_def guards head a_def [symmetric] del: take_append drop_append)
    next
      case excess: False
      define e where "e = length s - a + length c - t"
      have e: "nat (int (length s - a) + int (length c) - int t) = e" "0 < int (length s - a) + int (length c) - int t"
        using excess by (auto simp: e_def)
      have "drop e (drop a s @ c) = drop (e + a) (s @ c)" using a by simp
      also have "e + a = max h (length s + length c - t)"
        using excess m(3) by (auto simp: e_def a_def max_def split: if_splits)
      finally have tail: "drop e (drop a s @ c) = drop (max h (length s + length c - t)) (s @ c)" .
      have om: "length s - m + e = length s + length c - m"
        using excess m(1,3) by (auto simp: e_def a_def max_def split: if_splits)
      have "t < length s - a + length c" using excess by simp
      then show ?thesis
        using m(3)
        by (simp add: pushToTail_def holds_def fields Let_def guards head e om tail del: drop_append drop_drop flip: a_def)
    qed
  qed
qed

lemma push_holds: "push (holds m s) c = holds m (s @ c)"
proof (cases "c = [] \<or> m = 0")
  case True
  then show ?thesis by (auto simp: push_def holds_def)
next
  case False
  define r where "r = min (m div 2 - length s) (length c)"
  have r: "nat (min (max (int (m div 2) - int (length (take (m div 2) s))) 0) (int (length c))) = r"
    by (auto simp: r_def min_def max_def)
  have fill: "(holds m s)\<lparr>b_head := take (m div 2) s @ take r c\<rparr> = holds m (s @ take r c)"
  proof (cases "m div 2 \<le> length s")
    case True
    then show ?thesis by (simp add: r_def holds_def)
  next
    case False
    then have short: "length s \<le> m div 2" "length (s @ take r c) \<le> m div 2" by (auto simp: r_def)
    have empty: "drop (max (m div 2) k) u = []" if "length u \<le> m div 2" for k and u :: string
      using that by simp
    have none: "length u - m = 0" if "length u \<le> m div 2" for u :: string using that by simp
    show ?thesis
      unfolding holds_def empty [OF short(1)] empty [OF short(2)] none [OF short(1)] none [OF short(2)]
        take_all [OF short(1)] take_all [OF short(2)]
      by simp
  qed
  have sel: "b_maxBytes (holds m s) = m" "b_headBudget (holds m s) = m div 2" "b_head (holds m s) = take (m div 2) s"
    by (simp_all add: holds_def)
  have "(if r > 0 then (holds m s)\<lparr>b_head := take (m div 2) s @ take r c\<rparr> else holds m s) = holds m (s @ take r c)"
    unfolding fill by simp
  then have "push (holds m s) c = pushToTail (holds m (s @ take r c)) (drop r c)"
    unfolding push_def Let_def sel r using False by simp
  also have "\<dots> = holds m ((s @ take r c) @ drop r c)"
  proof (cases "drop r c = []")
    case True
    then show ?thesis by (simp add: pushToTail_def)
  next
    case rest: False
    then have "m div 2 \<le> length (s @ take r c)" using False by (auto simp: r_def min_def)
    then show ?thesis using False rest by (intro pushToTail_holds) auto
  qed
  finally show ?thesis by simp
qed

lemma cut_point:
  fixes n m :: nat
  shows "n \<le> m \<Longrightarrow> max (m div 2) (n - (m - m div 2)) = m div 2"
    and "\<not> n \<le> m \<Longrightarrow> max (m div 2) (n - (m - m div 2)) = n - (m - m div 2)"
  by auto

lemma pushes_hold: "foldl push (holds m s) chunks = holds m (s @ concat chunks)"
  by (induction chunks arbitrary: s) (simp_all add: push_holds)

section \<open>Properties\<close>

text \<open>However the output is cut into chunks, a buffer of capacity \<open>m\<close> holds its first
  \<open>m div 2\<close> characters and, after these, its last \<open>m - m div 2\<close>; it omits exactly what exceeds
  the capacity, and output that fits is kept whole.\<close>

theorem buffer_keeps_both_ends:
  "let b = foldl push (new_buffer m) chunks; s = concat chunks in
     b_head b = take (m div 2) s
     \<and> b_tail b = drop (max (m div 2) (length s - (m - m div 2))) s
     \<and> b_omittedBytes b = length s - m \<and> totalBytes b = length s \<and> retainedBytes b = min m (length s)"
proof -
  let ?s = "concat chunks" and ?b = "holds m (concat chunks)"
  have "length (b_head ?b) + length (b_tail ?b) = min m (length ?s)"
    using cut_point [of "length ?s" m] by (cases "length ?s \<le> m") (simp_all add: holds_def)
  then show ?thesis
    by (simp add: Let_def holds_new pushes_hold totalBytes_def retainedBytes_def) (simp add: holds_def min_def)
qed

text \<open>Draining returns what was pushed since the last drain, with the marker exactly when
  something was omitted, and leaves a fresh buffer of the same capacity.\<close>

theorem drain_resets:
  "let b = foldl push (new_buffer m) chunks; s = concat chunks in
     snd (drain b) = new_buffer m
     \<and> d_omittedBytes (fst (drain b)) = length s - m
     \<and> d_output (fst (drain b)) =
         (if length s \<le> m then s
          else take (m div 2) s @ [CHR 0x0A] @ formatOutputOmissionMarker (length s - m) @ [CHR 0x0A]
               @ drop (length s - (m - m div 2)) s)"
proof -
  have "take (m div 2) s @ drop (max (m div 2) (length s - (m - m div 2))) s = s" if "length s \<le> m" for s :: string
    using cut_point(1) [OF that] by simp
  moreover have "max (m div 2) (length s - (m - m div 2)) = length s - (m - m div 2)" if "\<not> length s \<le> m" for s :: string
    using cut_point(2) [OF that] .
  ultimately show ?thesis
    by (simp add: Let_def holds_new pushes_hold drain_def toStringWithOmissionMarker_def) (simp add: holds_def)
qed

end
