(* ===== verification/Circuit_Breaker.thy ===== *)
theory Circuit_Breaker
  imports Js_Map
begin

text \<open>
  The rejection circuit breaker of the guardian reviewer,
  \<open>packages/agent-core/src/agent/guardian/circuit-breaker.ts\<close>: per turn, the number of
  consecutive denials, a sliding window of recent verdicts, and a flag that is set once too
  many were denials.
\<close>

definition GUARDIAN_MAX_CONSECUTIVE_DENIALS :: nat where "GUARDIAN_MAX_CONSECUTIVE_DENIALS = 3"
definition GUARDIAN_MAX_WINDOW_DENIALS :: nat where "GUARDIAN_MAX_WINDOW_DENIALS = 10"
definition GUARDIAN_DENIAL_WINDOW_SIZE :: nat where "GUARDIAN_DENIAL_WINDOW_SIZE = 50"

record breaker_limits =
  bl_maxConsecutiveDenials :: nat
  bl_maxWindowDenials :: nat
  bl_windowSize :: nat

record breaker_trip =
  bt_tripped :: bool
  bt_consecutiveDenials :: nat
  bt_windowDenials :: nat

record breaker_turn =
  tn_consecutiveDenials :: nat
  tn_recentDenials :: "bool list"
  tn_tripped :: bool

record breaker =
  br_turns :: "(string, breaker_turn) js_map"
  br_limits :: breaker_limits

definition new_breaker :: "breaker_limits \<Rightarrow> breaker" where
  "new_breaker limits = \<lparr>br_turns = [], br_limits = limits\<rparr>"

definition fresh_turn :: breaker_turn where
  "fresh_turn = \<lparr>tn_consecutiveDenials = 0, tn_recentDenials = [], tn_tripped = False\<rparr>"

definition tripped :: "breaker \<Rightarrow> string \<Rightarrow> bool" where
  "tripped br turnId = (case jm_get (br_turns br) turnId of None \<Rightarrow> False | Some t \<Rightarrow> tn_tripped t)"

text \<open>\<open>turn(turnId)\<close>: the record of the turn, created if missing. It is mutated in place, so
  the callers store it back under its key.\<close>

definition turn_of :: "breaker \<Rightarrow> string \<Rightarrow> breaker_turn" where
  "turn_of br turnId = (case jm_get (br_turns br) turnId of None \<Rightarrow> fresh_turn | Some t \<Rightarrow> t)"

definition recordRecent :: "breaker_limits \<Rightarrow> breaker_turn \<Rightarrow> bool \<Rightarrow> breaker_turn" where
  "recordRecent limits t denied =
     (let recent = tn_recentDenials t @ [denied] in
      t\<lparr>tn_recentDenials := (if length recent > bl_windowSize limits then tl recent else recent)\<rparr>)"

definition deny_turn :: "breaker_limits \<Rightarrow> breaker_turn \<Rightarrow> breaker_turn \<times> breaker_trip" where
  "deny_turn limits t0 =
     (let t1 = t0\<lparr>tn_consecutiveDenials := tn_consecutiveDenials t0 + 1\<rparr>;
          t2 = recordRecent limits t1 True;
          windowDenials = length (filter id (tn_recentDenials t2));
          justTripped = (\<not> tn_tripped t2 \<and>
             (tn_consecutiveDenials t2 \<ge> bl_maxConsecutiveDenials limits
              \<or> windowDenials \<ge> bl_maxWindowDenials limits));
          t3 = (if justTripped then t2\<lparr>tn_tripped := True\<rparr> else t2)
      in (t3, \<lparr>bt_tripped = justTripped, bt_consecutiveDenials = tn_consecutiveDenials t3,
               bt_windowDenials = windowDenials\<rparr>))"

definition recordDenial :: "breaker \<Rightarrow> string \<Rightarrow> breaker_trip \<times> breaker" where
  "recordDenial br turnId =
     (case deny_turn (br_limits br) (turn_of br turnId) of
        (t, trip) \<Rightarrow> (trip, br\<lparr>br_turns := jm_set (br_turns br) turnId t\<rparr>))"

definition recordNonDenial :: "breaker \<Rightarrow> string \<Rightarrow> breaker" where
  "recordNonDenial br turnId =
     (let t = recordRecent (br_limits br) ((turn_of br turnId)\<lparr>tn_consecutiveDenials := 0\<rparr>) False
      in br\<lparr>br_turns := jm_set (br_turns br) turnId t\<rparr>)"

definition clearTurn :: "breaker \<Rightarrow> string \<Rightarrow> breaker" where
  "clearTurn br turnId = br\<lparr>br_turns := jm_delete (br_turns br) turnId\<rparr>"

text \<open>\<open>pruneExcept\<close>: delete every key but one while iterating over the keys.\<close>

definition pruneExcept :: "breaker \<Rightarrow> string \<Rightarrow> breaker" where
  "pruneExcept br keepTurnId =
     br\<lparr>br_turns := foldl (\<lambda>m turnId. if turnId \<noteq> keepTurnId then jm_delete m turnId else m)
          (br_turns br) (jm_keys (br_turns br))\<rparr>"

section \<open>A turn's record summarises its history\<close>

text \<open>The specification: the verdicts of a turn in order (\<open>True\<close> is a denial).\<close>

definition trailing_denials :: "bool list \<Rightarrow> nat" where
  "trailing_denials h = length (takeWhile id (rev h))"

definition window :: "nat \<Rightarrow> bool list \<Rightarrow> bool list" where
  "window n h = drop (length h - n) h"

definition trips :: "breaker_limits \<Rightarrow> bool list \<Rightarrow> bool" where
  "trips limits h \<longleftrightarrow> h \<noteq> [] \<and> last h
     \<and> (trailing_denials h \<ge> bl_maxConsecutiveDenials limits
        \<or> length (filter id (window (bl_windowSize limits) h)) \<ge> bl_maxWindowDenials limits)"

definition summary :: "breaker_limits \<Rightarrow> bool list \<Rightarrow> breaker_turn" where
  "summary limits h =
     \<lparr>tn_consecutiveDenials = trailing_denials h, tn_recentDenials = window (bl_windowSize limits) h,
      tn_tripped = (\<exists>k\<le>length h. trips limits (take k h))\<rparr>"

lemma window_snoc:
  "(let r = window n h @ [d] in if length r > n then tl r else r) = window n (h @ [d])"
proof (cases "length h < n")
  case True
  then show ?thesis by (simp add: window_def Let_def)
next
  case False
  have "tl (drop k h @ [d]) = drop (Suc k) (h @ [d])" if "k \<le> length h" for k
    using that by (cases "k = length h") (simp_all add: drop_Suc tl_append2 flip: tl_drop)
  from this [of "length h - n"] show ?thesis
    using False by (simp add: window_def Let_def Suc_diff_le)
qed

lemma summary_tripped_snoc:
  "tn_tripped (summary limits (h @ [d])) \<longleftrightarrow> tn_tripped (summary limits h) \<or> trips limits (h @ [d])"
  by (auto simp: summary_def le_Suc_eq)

lemma recordRecent_window:
  "tn_recentDenials t = window (bl_windowSize limits) h \<Longrightarrow>
     recordRecent limits t d = t\<lparr>tn_recentDenials := window (bl_windowSize limits) (h @ [d])\<rparr>"
  using window_snoc [of "bl_windowSize limits" h d] by (simp add: recordRecent_def Let_def)

lemma fresh_summary: "fresh_turn = summary limits []"
  by (simp add: fresh_turn_def summary_def trailing_denials_def window_def trips_def)

lemma deny_summary:
  "deny_turn limits (summary limits h)
     = (summary limits (h @ [True]),
        \<lparr>bt_tripped = (trips limits (h @ [True]) \<and> \<not> tn_tripped (summary limits h)),
         bt_consecutiveDenials = trailing_denials (h @ [True]),
         bt_windowDenials = length (filter id (window (bl_windowSize limits) (h @ [True])))\<rparr>)"
proof -
  let ?s = "summary limits h"
  have recent: "recordRecent limits (?s\<lparr>tn_consecutiveDenials := Suc (tn_consecutiveDenials ?s)\<rparr>) True
     = ?s\<lparr>tn_consecutiveDenials := trailing_denials (h @ [True]),
          tn_recentDenials := window (bl_windowSize limits) (h @ [True])\<rparr>"
    by (subst recordRecent_window [where h = h]) (simp_all add: summary_def trailing_denials_def)
  define P Q where "P = tn_tripped ?s" and "Q = trips limits (h @ [True])"
  have after: "summary limits (h @ [True]) = ?s\<lparr>tn_consecutiveDenials := trailing_denials (h @ [True]),
      tn_recentDenials := window (bl_windowSize limits) (h @ [True]), tn_tripped := P \<or> Q\<rparr>"
    by (rule breaker_turn.equality) (simp_all add: summary_tripped_snoc P_def Q_def, simp_all add: summary_def)
  have Q: "(trailing_denials (h @ [True]) \<ge> bl_maxConsecutiveDenials limits
      \<or> length (filter id (window (bl_windowSize limits) (h @ [True]))) \<ge> bl_maxWindowDenials limits) = Q"
    by (simp add: Q_def trips_def)
  obtain a b where s: "?s = \<lparr>tn_consecutiveDenials = a, tn_recentDenials = b, tn_tripped = P\<rparr>"
    by (simp add: summary_def P_def)
  show ?thesis
    unfolding deny_turn_def Let_def Suc_eq_plus1 [symmetric] recent after
    unfolding s Q_def [symmetric]
    using Q by (cases P; cases Q) simp_all
qed

lemma allow_summary:
  "recordRecent limits ((summary limits h)\<lparr>tn_consecutiveDenials := 0\<rparr>) False = summary limits (h @ [False])"
proof -
  have "tn_tripped (summary limits (h @ [False])) = tn_tripped (summary limits h)"
    using summary_tripped_snoc [of limits h False] by (simp add: trips_def)
  then show ?thesis
    by (subst recordRecent_window [where h = h]) (simp_all add: summary_def trailing_denials_def)
qed

section \<open>Runs\<close>

datatype breaker_op = Denial string | NonDenial string | ClearTurn string | PruneExcept string

fun breaker_step :: "breaker \<Rightarrow> breaker_op \<Rightarrow> breaker" where
  "breaker_step br (Denial i) = snd (recordDenial br i)"
| "breaker_step br (NonDenial i) = recordNonDenial br i"
| "breaker_step br (ClearTurn i) = clearTurn br i"
| "breaker_step br (PruneExcept i) = pruneExcept br i"

text \<open>The verdicts of turn \<open>i\<close> since it was last cleared.\<close>

fun history_step :: "string \<Rightarrow> bool list \<Rightarrow> breaker_op \<Rightarrow> bool list" where
  "history_step i h (Denial j) = (if i = j then h @ [True] else h)"
| "history_step i h (NonDenial j) = (if i = j then h @ [False] else h)"
| "history_step i h (ClearTurn j) = (if i = j then [] else h)"
| "history_step i h (PruneExcept j) = (if i = j then h else [])"

definition history :: "string \<Rightarrow> breaker_op list \<Rightarrow> bool list" where
  "history i ops = foldl (history_step i) [] ops"

lemma prune_get:
  "jm_get (foldl (\<lambda>m j. if j \<noteq> keep then jm_delete m j else m) m ks) i
     = (if i \<in> set ks \<and> i \<noteq> keep then None else jm_get m i)"
  by (induction ks arbitrary: m) (auto simp: jm_get_delete)

lemma turn_of_prune: "turn_of (pruneExcept br keep) i = (if i = keep then turn_of br i else fresh_turn)"
  using jm_get_None_iff [of "br_turns br" i] by (auto simp: turn_of_def pruneExcept_def prune_get)

lemma turn_of_step:
  assumes "\<And>i. turn_of br i = summary (br_limits br) (h i)"
  shows "turn_of (breaker_step br op) i = summary (br_limits br) (history_step i (h i) op)"
proof (cases op)
  case (Denial j)
  then show ?thesis
    using assms by (simp add: recordDenial_def deny_summary)
      (simp add: turn_of_def jm_get_set)
next
  case (NonDenial j)
  then show ?thesis
    using assms by (simp add: recordNonDenial_def allow_summary Let_def) (simp add: turn_of_def jm_get_set)
next
  case (ClearTurn j)
  then show ?thesis
    using assms by (simp add: clearTurn_def fresh_summary [symmetric]) (simp add: turn_of_def jm_get_delete)
next
  case (PruneExcept j)
  then show ?thesis using assms fresh_summary by (simp add: turn_of_prune)
qed

lemma breaker_limits_step [simp]: "br_limits (breaker_step br op) = br_limits br"
  by (cases op) (simp_all add: recordDenial_def recordNonDenial_def clearTurn_def pruneExcept_def Let_def case_prod_unfold)

lemma turn_of_run:
  "turn_of (run_ops breaker_step (new_breaker limits) ops) i = summary limits (history i ops)"
proof -
  have "turn_of (run_ops breaker_step br ops) i = summary (br_limits br) (foldl (history_step i) (h i) ops)"
    if "\<And>i. turn_of br i = summary (br_limits br) (h i)" for br h
    using that
  proof (induction ops arbitrary: br h)
    case (Cons op ops)
    show ?case
      using Cons.IH [of "breaker_step br op" "\<lambda>i. history_step i (h i) op"] turn_of_step [OF Cons.prems]
      by simp
  qed simp
  from this [of "new_breaker limits" "\<lambda>_. []"] show ?thesis
    by (simp add: history_def turn_of_def new_breaker_def jm_get_def fresh_summary)
qed

lemma tripped_turn_of: "tripped br i = tn_tripped (turn_of br i)"
  by (simp add: tripped_def turn_of_def fresh_turn_def split: option.split)

section \<open>Properties\<close>

text \<open>The breaker of a turn is tripped exactly when at some point since the turn was last
  cleared a denial completed either the limit of consecutive denials or the limit of
  denials within the window; what happens to other turns does not matter.\<close>

theorem breaker_tripped_iff:
  "tripped (run_ops breaker_step (new_breaker limits) ops) i
     \<longleftrightarrow> (\<exists>k\<le>length (history i ops). trips limits (take k (history i ops)))"
  by (simp add: tripped_turn_of turn_of_run) (simp add: summary_def)

text \<open>\<open>recordDenial\<close> reports \<open>tripped\<close> only on the denial that makes the breaker trip: the
  report is true exactly when the breaker was not tripped before and is afterwards. It also
  returns the number of consecutive denials, this one included.\<close>

theorem recordDenial_reports_transition:
  "let br = run_ops breaker_step (new_breaker limits) ops in
     (bt_tripped (fst (recordDenial br i)) \<longleftrightarrow> \<not> tripped br i \<and> tripped (snd (recordDenial br i)) i)
     \<and> bt_consecutiveDenials (fst (recordDenial br i)) = trailing_denials (history i ops @ [True])"
proof -
  let ?br = "run_ops breaker_step (new_breaker limits) ops"
  have lim: "br_limits (run_ops breaker_step br ops) = br_limits br" for br
    by (induction ops arbitrary: br) simp_all
  have turn: "turn_of ?br i = summary limits (history i ops)" by (rule turn_of_run)
  have after: "turn_of (snd (recordDenial ?br i)) i = summary limits (history i ops @ [True])"
    using turn_of_run [of limits "ops @ [Denial i]" i]
    by (simp add: run_ops_append history_def)
  have "fst (recordDenial ?br i) = snd (deny_turn limits (summary limits (history i ops)))"
    using lim [of "new_breaker limits"] turn by (simp add: recordDenial_def case_prod_unfold new_breaker_def)
  then show ?thesis
    using summary_tripped_snoc [of limits "history i ops" True]
    by (auto simp: Let_def tripped_turn_of after turn deny_summary)
qed

end
