(* ===== verification/Compaction_Strategy.thy ===== *)
theory Compaction_Strategy
  imports Prelude Complex_Main "HOL-Library.Extended_Nat"
begin

text \<open>
  When the conversation is compacted, \<open>packages/agent-core/src/agent/compaction/strategy.ts\<close>.
  Sizes and ratios are JavaScript numbers; they are real numbers here.
\<close>

record compaction_config =
  cc_triggerRatio :: real
  cc_blockRatio :: real
  cc_reservedContextSize :: real
  cc_maxCompactionPerTurn :: enat
  cc_maxOverflowCompactionAttempts :: nat

definition DEFAULT_COMPACTION_CONFIG :: compaction_config where
  "DEFAULT_COMPACTION_CONFIG =
     \<lparr>cc_triggerRatio = 85 / 100, cc_blockRatio = 85 / 100, cc_reservedContextSize = 50000,
      cc_maxCompactionPerTurn = \<infinity>, cc_maxOverflowCompactionAttempts = 3\<rparr>"

definition shouldUseReservedContext :: "compaction_config \<Rightarrow> real \<Rightarrow> real \<Rightarrow> bool" where
  "shouldUseReservedContext config maxSize usedSize \<longleftrightarrow>
     (let reservedSize = cc_reservedContextSize config in
      reservedSize > 0 \<and> reservedSize < maxSize \<and> usedSize + reservedSize \<ge> maxSize)"

definition shouldCompact :: "compaction_config \<Rightarrow> real \<Rightarrow> real \<Rightarrow> bool" where
  "shouldCompact config maxSize usedSize \<longleftrightarrow>
     (if maxSize \<le> 0 then False
      else usedSize \<ge> maxSize * cc_triggerRatio config \<or> shouldUseReservedContext config maxSize usedSize)"

definition shouldBlock :: "compaction_config \<Rightarrow> real \<Rightarrow> real \<Rightarrow> bool" where
  "shouldBlock config maxSize usedSize \<longleftrightarrow>
     (if maxSize \<le> 0 then False
      else usedSize \<ge> maxSize * cc_blockRatio config \<or> shouldUseReservedContext config maxSize usedSize)"

definition checkAfterStep :: "compaction_config \<Rightarrow> bool" where
  "checkAfterStep config \<longleftrightarrow> cc_triggerRatio config \<noteq> cc_blockRatio config"

section \<open>Properties\<close>

text \<open>Compaction is demanded at a threshold of the used size: once demanded it stays demanded
  as the conversation grows, a blocking compaction is also a demanded one when the block
  ratio is not below the trigger ratio, and as long as compaction is not demanded with the
  default configuration there is room: less than 85 percent is used and, in a window of
  more than 50000 tokens, the reserved 50000 tokens are free.\<close>

theorem compaction_threshold:
  assumes "used \<le> used'"
  shows "(shouldCompact config maxSize used \<longrightarrow> shouldCompact config maxSize used')
    \<and> (cc_triggerRatio config \<le> cc_blockRatio config \<and> shouldBlock config maxSize used
       \<longrightarrow> shouldCompact config maxSize used)
    \<and> (maxSize > 0 \<and> \<not> shouldCompact DEFAULT_COMPACTION_CONFIG maxSize used \<longrightarrow>
       used < 85 / 100 * maxSize \<and> (maxSize > 50000 \<longrightarrow> used + 50000 < maxSize))"
proof (intro conjI impI)
  assume "shouldCompact config maxSize used"
  then show "shouldCompact config maxSize used'"
    using assms by (auto simp: shouldCompact_def shouldUseReservedContext_def Let_def split: if_splits)
next
  assume b: "cc_triggerRatio config \<le> cc_blockRatio config \<and> shouldBlock config maxSize used"
  then have "maxSize > 0" by (auto simp: shouldBlock_def split: if_splits)
  then have le: "maxSize * cc_triggerRatio config \<le> maxSize * cc_blockRatio config"
    using b by (simp add: mult_left_mono)
  show "shouldCompact config maxSize used"
    using b \<open>maxSize > 0\<close> order_trans [OF le, of used] by (auto simp: shouldCompact_def shouldBlock_def)
next
  assume c: "maxSize > 0 \<and> \<not> shouldCompact DEFAULT_COMPACTION_CONFIG maxSize used"
  then show "used < 85 / 100 * maxSize"
    by (auto simp: shouldCompact_def DEFAULT_COMPACTION_CONFIG_def)
  show "used + 50000 < maxSize" if "maxSize > 50000"
    using c that by (auto simp: shouldCompact_def shouldUseReservedContext_def DEFAULT_COMPACTION_CONFIG_def)
qed

theorem compaction_threshold_witness:
  "shouldCompact DEFAULT_COMPACTION_CONFIG 200000 150000 \<and> shouldCompact DEFAULT_COMPACTION_CONFIG 200000 160000
   \<and> 140000 + 50000 < (200000 :: real)"
proof -
  have "shouldCompact DEFAULT_COMPACTION_CONFIG 200000 150000"
    "\<not> shouldCompact DEFAULT_COMPACTION_CONFIG 200000 140000"
    by (simp_all add: shouldCompact_def shouldUseReservedContext_def DEFAULT_COMPACTION_CONFIG_def)
  then show ?thesis
    using compaction_threshold [of 150000 160000 DEFAULT_COMPACTION_CONFIG 200000]
      compaction_threshold [of 140000 140000 DEFAULT_COMPACTION_CONFIG 200000] by simp
qed

end
