(* ===== verification/Retry.thy ===== *)
theory Retry
  imports Prelude Complex_Main
begin

text \<open>
  One model request with retries, \<open>packages/agent-core/src/loop/retry.ts\<close>: exponential backoff
  with jitter, a server's \<open>Retry-After\<close>, and the gates that bound how long the turn loop may
  wait before the wait is moved out of the session.

  The provider is the argument \<open>chat\<close>: what attempt \<open>k\<close> returns or throws. The abort signal
  is observed at two points of an attempt: when its failure is handled (\<open>sg_failed\<close>) and
  while the loop sleeps (\<open>sg_sleep\<close>). \<open>Math.random()\<close> is the argument \<open>rnd\<close>. Waits are real
  numbers. The effects are a list of events: calls of the provider, of the trace, of the
  rate-limit channel, of the log and of the dispatcher, and the sleeps.
\<close>

section \<open>Error values\<close>

text \<open>A thrown value: nothing, a primitive, or an object of the heap of error objects.\<close>

datatype js_value = Undefined | Null | Prim string | Ref nat

record err_obj =
  eo_isError :: bool
  eo_isStatusError :: bool
  eo_name :: string
  eo_message :: string
  eo_traceId :: "string option"
  eo_requestId :: "string option"
  eo_rateLimit :: "nat option"
  eo_retryAfterMs :: "real option"
  eo_statusCode :: "nat option"
  eo_cause :: js_value

type_synonym err_heap = "err_obj list"

definition obj_at :: "err_heap \<Rightarrow> js_value \<Rightarrow> err_obj option" where
  "obj_at hp v = (case v of Ref i \<Rightarrow> if i < length hp then Some (hp ! i) else None | _ \<Rightarrow> None)"

text \<open>\<open>findAPIStatusError\<close>: walk the chain of causes, each object once.\<close>

function find_status :: "err_heap \<Rightarrow> js_value \<Rightarrow> nat list \<Rightarrow> nat option" where
  "find_status hp current visited =
     (case current of
        Ref i \<Rightarrow>
          (if i < length hp \<and> i \<notin> set visited then
             (if eo_isStatusError (hp ! i) then Some i
              else find_status hp (eo_cause (hp ! i)) (i # visited))
           else None)
      | _ \<Rightarrow> None)"
  by pat_completeness auto
termination
proof (relation "measure (\<lambda>(hp, current, visited). card ({0..<length hp} - set visited))", goal_cases)
  case (2 hp current visited i)
  let ?A = "{0..<length hp} - set visited"
  have "i \<in> ?A" using 2(2) by simp
  then have "card (?A - {i}) < card ?A" by (intro card_Diff1_less) simp_all
  moreover have "{0..<length hp} - set (i # visited) = ?A - {i}" by auto
  ultimately show ?case by (simp only: in_measure case_prod_conv)
qed simp

declare find_status.simps [simp del]

definition findAPIStatusError :: "err_heap \<Rightarrow> js_value \<Rightarrow> err_obj option" where
  "findAPIStatusError hp error = map_option (\<lambda>i. hp ! i) (find_status hp error [])"

definition readRetryAfterMs :: "err_heap \<Rightarrow> js_value \<Rightarrow> real option" where
  "readRetryAfterMs hp error =
     (case obj_at hp error of
        None \<Rightarrow> None
      | Some ob \<Rightarrow>
          (case eo_retryAfterMs ob of
             Some v \<Rightarrow> if v > 0 then Some v else None
           | None \<Rightarrow> None))"

definition maybeStatusCode :: "err_heap \<Rightarrow> js_value \<Rightarrow> nat option" where
  "maybeStatusCode hp error = (case obj_at hp error of None \<Rightarrow> None | Some ob \<Rightarrow> eo_statusCode ob)"

definition isAbortError :: "err_heap \<Rightarrow> js_value \<Rightarrow> bool" where
  "isAbortError hp error =
     (case obj_at hp error of None \<Rightarrow> False | Some ob \<Rightarrow> eo_isError ob \<and> eo_name ob = ''AbortError'')"

section \<open>Backoff\<close>

definition DEFAULT_MAX_RETRY_ATTEMPTS :: nat where "DEFAULT_MAX_RETRY_ATTEMPTS = 10"
definition BASE_DELAY_MS :: real where "BASE_DELAY_MS = 500"
definition MAX_DELAY_MS :: real where "MAX_DELAY_MS = 32000"
definition RETRY_FACTOR :: real where "RETRY_FACTOR = 2"
definition JITTER_FACTOR :: real where "JITTER_FACTOR = 1 / 4"
definition DEFAULT_FOREGROUND_MAX_DELAY_MS :: real where "DEFAULT_FOREGROUND_MAX_DELAY_MS = 60000"
definition DEFAULT_FOREGROUND_MAX_TOTAL_WAIT_MS :: real where "DEFAULT_FOREGROUND_MAX_TOTAL_WAIT_MS = 150000"

definition base_delay :: "nat \<Rightarrow> real" where
  "base_delay i = min (BASE_DELAY_MS * RETRY_FACTOR ^ i) MAX_DELAY_MS"

definition retryBackoffDelays :: "nat \<Rightarrow> (nat \<Rightarrow> real) \<Rightarrow> real list" where
  "retryBackoffDelays maxAttempts rnd =
     map (\<lambda>i. base_delay i + rnd i * JITTER_FACTOR * base_delay i) [0..<maxAttempts - 1]"

section \<open>Gates\<close>

record foreground_gate =
  fg_maxDelayMs :: "real option"
  fg_maxTotalWaitMs :: "real option"
  fg_autoResume :: "bool option"

record pause =
  ps_resumeAfterMs :: real
  ps_attempts :: nat
  ps_totalWaitMs :: real
  ps_requestId :: "string option"
  ps_traceId :: "string option"

definition or_default :: "'a option \<Rightarrow> 'a \<Rightarrow> 'a" where
  "or_default v d = (case v of None \<Rightarrow> d | Some x \<Rightarrow> x)"

definition gate_maxDelay :: "foreground_gate option \<Rightarrow> real" where
  "gate_maxDelay gate = or_default (Option.bind gate fg_maxDelayMs) DEFAULT_FOREGROUND_MAX_DELAY_MS"

definition gate_maxTotalWait :: "foreground_gate option \<Rightarrow> real" where
  "gate_maxTotalWait gate = or_default (Option.bind gate fg_maxTotalWaitMs) DEFAULT_FOREGROUND_MAX_TOTAL_WAIT_MS"

definition gate_autoResume :: "foreground_gate option \<Rightarrow> bool" where
  "gate_autoResume gate = or_default (Option.bind gate fg_autoResume) True"

definition applyForegroundGates ::
    "err_heap \<Rightarrow> foreground_gate option \<Rightarrow> js_value \<Rightarrow> real \<Rightarrow> nat \<Rightarrow> real \<Rightarrow> pause + real" where
  "applyForegroundGates hp gate error delayMs attempt totalWaitMs =
     (let singleBreached = delayMs > gate_maxDelay gate;
          cumulativeBreached = totalWaitMs + delayMs > gate_maxTotalWait gate
      in if \<not> singleBreached \<and> \<not> cumulativeBreached then Inr delayMs
         else if \<not> gate_autoResume gate then Inr (min delayMs (gate_maxDelay gate))
         else let statusError = findAPIStatusError hp error in
           Inl \<lparr>ps_resumeAfterMs = delayMs, ps_attempts = attempt, ps_totalWaitMs = totalWaitMs + delayMs,
                ps_requestId = Option.bind statusError eo_requestId,
                ps_traceId = Option.bind statusError eo_traceId\<rparr>)"

section \<open>The request loop\<close>

record response =
  rs_traceId :: "string option"
  rs_body :: nat

record error_fields =
  ef_errorName :: string
  ef_errorMessage :: string
  ef_statusCode :: "nat option"

datatype retry_event =
    TraceReset
  | TraceCapture "string option"
  | ChatCall nat "string option"
  | RateLimit nat
  | FailureLogged nat nat
  | PauseLogged nat
  | StepRetrying nat nat nat real error_fields
  | Slept real

datatype retry_outcome = Response response | Thrown js_value | Paused pause | Aborted

record signal_obs =
  sg_failed :: "nat \<Rightarrow> bool"
  sg_sleep :: "nat \<Rightarrow> bool"

fun typeof :: "js_value \<Rightarrow> string" where
  "typeof Undefined = ''undefined''"
| "typeof Null = ''object''"
| "typeof (Prim s) = ''string''"
| "typeof (Ref i) = ''object''"

fun js_String :: "js_value \<Rightarrow> string" where
  "js_String Undefined = ''undefined''"
| "js_String Null = ''null''"
| "js_String (Prim s) = s"
| "js_String (Ref i) = ''[object Object]''"

definition retryErrorFields :: "err_heap \<Rightarrow> js_value \<Rightarrow> error_fields" where
  "retryErrorFields hp error =
     (case obj_at hp error of
        Some ob \<Rightarrow>
          if eo_isError ob
          then \<lparr>ef_errorName = eo_name ob, ef_errorMessage = eo_message ob, ef_statusCode = maybeStatusCode hp error\<rparr>
          else \<lparr>ef_errorName = typeof error, ef_errorMessage = js_String error, ef_statusCode = maybeStatusCode hp error\<rparr>
      | None \<Rightarrow> \<lparr>ef_errorName = typeof error, ef_errorMessage = js_String error, ef_statusCode = maybeStatusCode hp error\<rparr>)"

text \<open>The attempt label that \<open>paramsForAttempt\<close> adds to the request's log fields from the
  second attempt on.\<close>

definition attempt_label :: "nat \<Rightarrow> nat \<Rightarrow> string option" where
  "attempt_label attempt maxAttempts =
     (if attempt = 1 then None else Some (string_of_nat attempt @ ''/'' @ string_of_nat maxAttempts))"

definition captureAttemptTraceId :: "err_heap \<Rightarrow> js_value \<Rightarrow> retry_event list" where
  "captureAttemptTraceId hp error =
     (case Option.bind (findAPIStatusError hp error) eo_traceId of None \<Rightarrow> [] | Some t \<Rightarrow> [TraceCapture (Some t)])"

definition captureAttemptRateLimit :: "err_heap \<Rightarrow> js_value \<Rightarrow> retry_event list" where
  "captureAttemptRateLimit hp error =
     (case Option.bind (findAPIStatusError hp error) eo_rateLimit of None \<Rightarrow> [] | Some r \<Rightarrow> [RateLimit r])"

definition logRequestFailure :: "err_heap \<Rightarrow> js_value \<Rightarrow> bool \<Rightarrow> nat \<Rightarrow> nat \<Rightarrow> retry_event list" where
  "logRequestFailure hp error aborted attempt maxAttempts =
     (if isAbortError hp error \<or> aborted then [] else [FailureLogged attempt maxAttempts])"

function retry_loop ::
    "err_heap \<Rightarrow> (nat \<Rightarrow> js_value + response) \<Rightarrow> (js_value \<Rightarrow> bool) \<Rightarrow> foreground_gate option \<Rightarrow> signal_obs
      \<Rightarrow> real list \<Rightarrow> nat \<Rightarrow> nat \<Rightarrow> real \<Rightarrow> retry_outcome \<times> retry_event list" where
  "retry_loop hp chat retryable gate sig delays maxAttempts attempt totalWaitMs =
     (let call = [TraceReset, ChatCall attempt (attempt_label attempt maxAttempts)] in
      case chat attempt of
        Inr r \<Rightarrow> (Response r, call @ [TraceCapture (rs_traceId r)])
      | Inl error \<Rightarrow>
          (let ev = call @ captureAttemptTraceId hp error @ captureAttemptRateLimit hp error in
           if attempt \<ge> maxAttempts \<or> \<not> retryable error then
             (Thrown error, ev @ logRequestFailure hp error (sg_failed sig attempt) attempt maxAttempts)
           else
             (let delayMs = (case readRetryAfterMs hp error of
                               Some d \<Rightarrow> d
                             | None \<Rightarrow> if attempt - 1 < length delays then delays ! (attempt - 1) else 0)
              in if sg_failed sig attempt then (Aborted, ev)
                 else case applyForegroundGates hp gate error delayMs attempt totalWaitMs of
                        Inl p \<Rightarrow> (Paused p, ev @ [PauseLogged attempt])
                      | Inr d \<Rightarrow>
                          (let ev' = ev @ [StepRetrying attempt (attempt + 1) maxAttempts d (retryErrorFields hp error)] in
                           if sg_sleep sig attempt then (Aborted, ev')
                           else case retry_loop hp chat retryable gate sig delays maxAttempts (attempt + 1) (totalWaitMs + d) of
                                  (out, ev'') \<Rightarrow> (out, ev' @ [Slept d] @ ev'')))))"
  by pat_completeness auto
termination
  by (relation "measure (\<lambda>(hp, chat, retryable, gate, sig, delays, maxAttempts, attempt, totalWaitMs). maxAttempts - attempt)")
    auto

declare retry_loop.simps [simp del]

definition chatWithRetry ::
    "err_heap \<Rightarrow> (nat \<Rightarrow> js_value + response) \<Rightarrow> (js_value \<Rightarrow> bool) option \<Rightarrow> nat option \<Rightarrow> foreground_gate option
      \<Rightarrow> signal_obs \<Rightarrow> (nat \<Rightarrow> real) \<Rightarrow> retry_outcome \<times> retry_event list" where
  "chatWithRetry hp chat isRetryableError maxAttemptsOpt gate sig rnd =
     (let maxAttempts = or_default maxAttemptsOpt DEFAULT_MAX_RETRY_ATTEMPTS in
      if isRetryableError = None \<or> maxAttempts \<le> 1 then
        (let effectiveMaxAttempts = max maxAttempts 1;
             call = [TraceReset, ChatCall 1 (attempt_label 1 effectiveMaxAttempts)]
         in case chat 1 of
              Inr r \<Rightarrow> (Response r, call @ [TraceCapture (rs_traceId r)])
            | Inl error \<Rightarrow>
                (Thrown error,
                 call @ captureAttemptTraceId hp error @ captureAttemptRateLimit hp error
                      @ logRequestFailure hp error (sg_failed sig 1) 1 effectiveMaxAttempts))
      else retry_loop hp chat (the isRetryableError) gate sig (retryBackoffDelays maxAttempts rnd) maxAttempts 1 0)"

section \<open>Observing a run\<close>

fun sleeps :: "retry_event list \<Rightarrow> real list" where
  "sleeps [] = []"
| "sleeps (Slept d # es) = d # sleeps es"
| "sleeps (_ # es) = sleeps es"

fun calls :: "retry_event list \<Rightarrow> (nat \<times> string option) list" where
  "calls [] = []"
| "calls (ChatCall k l # es) = (k, l) # calls es"
| "calls (_ # es) = calls es"

lemma sleeps_append [simp]: "sleeps (xs @ ys) = sleeps xs @ sleeps ys"
  by (induction xs rule: sleeps.induct) simp_all

lemma calls_append [simp]: "calls (xs @ ys) = calls xs @ calls ys"
  by (induction xs rule: calls.induct) simp_all

lemma capture_silent [simp]:
  "sleeps (captureAttemptTraceId hp e) = []" "calls (captureAttemptTraceId hp e) = []"
  "sleeps (captureAttemptRateLimit hp e) = []" "calls (captureAttemptRateLimit hp e) = []"
  "sleeps (logRequestFailure hp e b m n) = []" "calls (logRequestFailure hp e b m n) = []"
  by (simp_all add: captureAttemptTraceId_def captureAttemptRateLimit_def logRequestFailure_def split: option.split)

text \<open>The ways an attempt can go.\<close>

lemma retry_loop_cases [case_names success failure aborted paused interrupted again]:
  fixes hp chat retryable gate sig delays maxAttempts attempt waited
  defines "out \<equiv> fst (retry_loop hp chat retryable gate sig delays maxAttempts attempt waited)"
    and "evs \<equiv> snd (retry_loop hp chat retryable gate sig delays maxAttempts attempt waited)"
    and "label \<equiv> attempt_label attempt maxAttempts"
  obtains r where "chat attempt = Inr r" "out = Response r" "calls evs = [(attempt, label)]" "sleeps evs = []"
  | e where "chat attempt = Inl e" "attempt \<ge> maxAttempts \<or> \<not> retryable e" "out = Thrown e"
      "calls evs = [(attempt, label)]" "sleeps evs = []"
  | e where "chat attempt = Inl e" "attempt < maxAttempts" "retryable e" "sg_failed sig attempt"
      "out = Aborted" "calls evs = [(attempt, label)]" "sleeps evs = []"
  | e delay p where "chat attempt = Inl e" "attempt < maxAttempts" "retryable e"
      "applyForegroundGates hp gate e delay attempt waited = Inl p"
      "out = Paused p" "calls evs = [(attempt, label)]" "sleeps evs = []"
  | e d where "chat attempt = Inl e" "attempt < maxAttempts" "retryable e" "sg_sleep sig attempt"
      "out = Aborted" "calls evs = [(attempt, label)]" "sleeps evs = []"
  | e delay d where "chat attempt = Inl e" "attempt < maxAttempts" "retryable e"
      "applyForegroundGates hp gate e delay attempt waited = Inr d"
      "out = fst (retry_loop hp chat retryable gate sig delays maxAttempts (attempt + 1) (waited + d))"
      "calls evs = (attempt, label) # calls (snd (retry_loop hp chat retryable gate sig delays maxAttempts (attempt + 1) (waited + d)))"
      "sleeps evs = d # sleeps (snd (retry_loop hp chat retryable gate sig delays maxAttempts (attempt + 1) (waited + d)))"
proof (cases "chat attempt")
  case (Inr r)
  then show ?thesis
    by (intro that(1)) (simp_all add: out_def evs_def label_def retry_loop.simps [of hp chat retryable gate sig delays maxAttempts attempt])
next
  case (Inl e)
  define delay where "delay = (case readRetryAfterMs hp e of
      Some d \<Rightarrow> d | None \<Rightarrow> if attempt - 1 < length delays then delays ! (attempt - 1) else 0)"
  note unfold = retry_loop.simps [of hp chat retryable gate sig delays maxAttempts attempt waited]
    out_def evs_def label_def Let_def delay_def [symmetric]
  show ?thesis
  proof (cases "attempt \<ge> maxAttempts \<or> \<not> retryable e")
    case True
    then show ?thesis using Inl by (intro that(2) [of e]) (auto simp: unfold)
  next
    case go: False
    show ?thesis
    proof (cases "sg_failed sig attempt")
      case True
      then show ?thesis using Inl go by (intro that(3) [of e]) (auto simp: unfold)
    next
      case live: False
      show ?thesis
      proof (cases "applyForegroundGates hp gate e delay attempt waited")
        case (Inl p)
        then show ?thesis
          using \<open>chat attempt = Inl e\<close> go live by (intro that(4) [of e delay p]) (auto simp: unfold)
      next
        case (Inr d)
        show ?thesis
        proof (cases "sg_sleep sig attempt")
          case True
          then show ?thesis
            using \<open>chat attempt = Inl e\<close> go live Inr by (intro that(5) [of e]) (auto simp: unfold)
        next
          case False
          then show ?thesis
            using \<open>chat attempt = Inl e\<close> go live Inr
            by (intro that(6) [of e delay d]) (auto simp: unfold case_prod_unfold)
        qed
      qed
    qed
  qed
qed

lemma gates_bound:
  assumes "applyForegroundGates hp gate e delay attempt waited = Inr d"
  shows "d \<le> gate_maxDelay gate" "gate_autoResume gate \<Longrightarrow> waited + d \<le> gate_maxTotalWait gate"
  using assms by (auto simp: applyForegroundGates_def Let_def split: if_splits)

lemma retry_loop_sleeps:
  fixes hp chat retryable gate sig delays maxAttempts attempt waited
  defines "ds \<equiv> sleeps (snd (retry_loop hp chat retryable gate sig delays maxAttempts attempt waited))"
  shows "(\<forall>d\<in>set ds. d \<le> gate_maxDelay gate)
    \<and> (gate_autoResume gate \<longrightarrow> ds \<noteq> [] \<longrightarrow> waited + sum_list ds \<le> gate_maxTotalWait gate)"
  unfolding ds_def
proof (induction "maxAttempts - attempt" arbitrary: attempt waited rule: less_induct)
  case less
  show ?case
  proof (cases rule: retry_loop_cases [of chat attempt hp retryable gate sig delays maxAttempts waited])
    case (again e delay d)
    let ?ds = "sleeps (snd (retry_loop hp chat retryable gate sig delays maxAttempts (attempt + 1) (waited + d)))"
    have "(\<forall>d\<in>set ?ds. d \<le> gate_maxDelay gate)
      \<and> (gate_autoResume gate \<longrightarrow> ?ds \<noteq> [] \<longrightarrow> (waited + d) + sum_list ?ds \<le> gate_maxTotalWait gate)"
      by (rule less.hyps) (use again in simp)
    then show ?thesis
      using gates_bound [OF again(4)] by (cases ?ds) (auto simp: again(7) add.assoc)
  qed simp_all
qed

text \<open>A run that starts with call number \<open>a\<close> and makes \<open>n\<close> calls.\<close>

definition attempts_ok ::
    "(nat \<Rightarrow> js_value + response) \<Rightarrow> (js_value \<Rightarrow> bool) \<Rightarrow> nat \<Rightarrow> nat \<Rightarrow> nat \<Rightarrow> retry_outcome \<times> retry_event list \<Rightarrow> bool" where
  "attempts_ok chat retryable maxAttempts a n res \<longleftrightarrow>
     calls (snd res) = map (\<lambda>k. (k, attempt_label k maxAttempts)) [a..<a + n]
     \<and> (\<forall>k. a \<le> k \<and> k + 1 < a + n \<longrightarrow> (\<exists>e. chat k = Inl e \<and> retryable e))
     \<and> (\<forall>r. fst res = Response r \<longrightarrow> chat (a + n - 1) = Inr r)
     \<and> (\<forall>e. fst res = Thrown e \<longrightarrow> chat (a + n - 1) = Inl e \<and> (a + n - 1 \<ge> maxAttempts \<or> \<not> retryable e))"

lemma attempts_ok_again:
  assumes "attempts_ok chat retryable maxAttempts (a + 1) n res" "chat a = Inl e" "retryable e" "1 \<le> n"
    and "fst res' = fst res" "calls (snd res') = (a, attempt_label a maxAttempts) # calls (snd res)"
  shows "attempts_ok chat retryable maxAttempts a (n + 1) res'"
  unfolding attempts_ok_def
proof (intro conjI allI impI)
  have "[a..<a + (n + 1)] = a # [a + 1..<a + 1 + n]" by (simp add: upt_conv_Cons del: upt_Suc)
  then show "calls (snd res') = map (\<lambda>k. (k, attempt_label k maxAttempts)) [a..<a + (n + 1)]"
    using assms(1,6) by (simp add: attempts_ok_def del: upt_Suc)
  fix k assume "a \<le> k \<and> k + 1 < a + (n + 1)"
  then show "\<exists>e. chat k = Inl e \<and> retryable e"
    using assms(1,2,3) by (cases "k = a") (auto simp: attempts_ok_def)
next
  fix r assume "fst res' = Response r"
  then show "chat (a + (n + 1) - 1) = Inr r" using assms(1,5) by (simp add: attempts_ok_def)
next
  fix x assume "fst res' = Thrown x"
  then show "chat (a + (n + 1) - 1) = Inl x" "a + (n + 1) - 1 \<ge> maxAttempts \<or> \<not> retryable x"
    using assms(1,5) by (simp_all add: attempts_ok_def)
qed

lemma attempts_ok_one:
  assumes "calls (snd res) = [(a, attempt_label a maxAttempts)]"
    and "\<And>r. fst res = Response r \<Longrightarrow> chat a = Inr r"
    and "\<And>e. fst res = Thrown e \<Longrightarrow> chat a = Inl e \<and> (a \<ge> maxAttempts \<or> \<not> retryable e)"
  shows "attempts_ok chat retryable maxAttempts a 1 res"
  using assms by (auto simp: attempts_ok_def)

lemma retry_loop_calls:
  "attempt \<le> maxAttempts \<Longrightarrow> \<exists>n. 1 \<le> n \<and> attempt + n \<le> maxAttempts + 1
    \<and> attempts_ok chat retryable maxAttempts attempt n
        (retry_loop hp chat retryable gate sig delays maxAttempts attempt waited)"
proof (induction "maxAttempts - attempt" arbitrary: attempt waited rule: less_induct)
  case less
  let ?res = "retry_loop hp chat retryable gate sig delays maxAttempts attempt waited"
  have one: ?case if "attempts_ok chat retryable maxAttempts attempt 1 ?res"
    using that less.prems by (intro exI [of _ 1]) simp
  show ?case
  proof (cases rule: retry_loop_cases [of chat attempt hp retryable gate sig delays maxAttempts waited])
    case (again e delay d)
    obtain n where n: "1 \<le> n" "attempt + 1 + n \<le> maxAttempts + 1"
      "attempts_ok chat retryable maxAttempts (attempt + 1) n
        (retry_loop hp chat retryable gate sig delays maxAttempts (attempt + 1) (waited + d))"
    proof -
      have "maxAttempts - (attempt + 1) < maxAttempts - attempt" "attempt + 1 \<le> maxAttempts" using again(2) by auto
      from less.hyps [OF this, of "waited + d"] show ?thesis using that by blast
    qed
    have "attempts_ok chat retryable maxAttempts attempt (n + 1) ?res"
      by (rule attempts_ok_again [OF n(3) again(1,3) n(1) again(5,6)])
    then show ?thesis using n(2) by (intro exI [of _ "n + 1"]) simp
  qed (rule one, rule attempts_ok_one; simp)+
qed

text \<open>Without auto-resume the gates never refuse a wait.\<close>

lemma gates_no_pause: "\<not> gate_autoResume gate \<Longrightarrow> \<exists>d. applyForegroundGates hp gate e delay attempt waited = Inr d"
  by (simp add: applyForegroundGates_def Let_def)

lemma retry_loop_succeeds:
  assumes "chat k = Inr r" "attempt \<le> k" "k \<le> maxAttempts" "\<not> gate_autoResume gate"
    and "\<And>j. attempt \<le> j \<Longrightarrow> j < k \<Longrightarrow> (\<exists>e. chat j = Inl e \<and> retryable e) \<and> \<not> sg_failed sig j \<and> \<not> sg_sleep sig j"
  shows "fst (retry_loop hp chat retryable gate sig delays maxAttempts attempt waited) = Response r"
  using assms(2,5)
proof (induction "k - attempt" arbitrary: attempt waited)
  case 0
  then have "attempt = k" by simp
  then show ?case using assms(1) by (simp add: retry_loop.simps Let_def)
next
  case (Suc n)
  then have lt: "attempt < k" by simp
  obtain e where e: "chat attempt = Inl e" "retryable e" "\<not> sg_failed sig attempt" "\<not> sg_sleep sig attempt"
    using Suc.prems(2) [of attempt] lt by auto
  show ?case
  proof (cases rule: retry_loop_cases [of chat attempt hp retryable gate sig delays maxAttempts waited])
    case (again e' delay d)
    show ?thesis unfolding again(5) using Suc.hyps(2) lt Suc.prems(2) by (intro Suc.hyps(1)) auto
  next
    case (paused e' delay p)
    then show ?thesis using gates_no_pause [OF assms(4)] by (metis sum.distinct(1))
  qed (use e lt assms(3) in auto)
qed

section \<open>Chains of causes\<close>

text \<open>The \<open>n\<close>-th value on the chain of causes.\<close>

fun cause_at :: "err_heap \<Rightarrow> js_value \<Rightarrow> nat \<Rightarrow> js_value" where
  "cause_at hp v 0 = v"
| "cause_at hp v (Suc n) = (case obj_at hp v of None \<Rightarrow> Undefined | Some ob \<Rightarrow> cause_at hp (eo_cause ob) n)"

definition status_at :: "err_heap \<Rightarrow> js_value \<Rightarrow> nat \<Rightarrow> bool" where
  "status_at hp v n \<longleftrightarrow> (case obj_at hp (cause_at hp v n) of None \<Rightarrow> False | Some ob \<Rightarrow> eo_isStatusError ob)"

lemma status_at_simps:
  "status_at hp v 0 \<longleftrightarrow> (case obj_at hp v of None \<Rightarrow> False | Some ob \<Rightarrow> eo_isStatusError ob)"
  "status_at hp v (Suc n) \<longleftrightarrow> (case obj_at hp v of None \<Rightarrow> False | Some ob \<Rightarrow> status_at hp (eo_cause ob) n)"
  by (auto simp: status_at_def obj_at_def split: option.split js_value.split)

lemma find_status_Some:
  "find_status hp v visited = Some i \<Longrightarrow>
     \<exists>n. cause_at hp v n = Ref i \<and> i < length hp \<and> eo_isStatusError (hp ! i) \<and> (\<forall>m<n. \<not> status_at hp v m)"
proof (induction hp v visited rule: find_status.induct)
  case (1 hp v visited)
  from "1.prems" obtain j where v: "v = Ref j" "j < length hp" "j \<notin> set visited"
    by (subst (asm) find_status.simps) (auto split: js_value.splits if_splits)
  show ?case
  proof (cases "eo_isStatusError (hp ! j)")
    case True
    then have "i = j" using "1.prems" v by (subst (asm) find_status.simps) simp
    then show ?thesis using True v by (intro exI [of _ 0]) simp
  next
    case False
    then have "find_status hp (eo_cause (hp ! j)) (j # visited) = Some i"
      using "1.prems" v by (subst (asm) find_status.simps) simp
    then obtain n where n: "cause_at hp (eo_cause (hp ! j)) n = Ref i" "i < length hp" "eo_isStatusError (hp ! i)"
        "\<forall>m<n. \<not> status_at hp (eo_cause (hp ! j)) m"
      using "1.IH" [OF v(1)] v False by blast
    have obj: "obj_at hp v = Some (hp ! j)" using v by (simp add: obj_at_def)
    have "\<not> status_at hp v m" if "m < Suc n" for m
      using that n(4) False obj by (cases m) (simp_all add: status_at_simps)
    then show ?thesis using n obj by (intro exI [of _ "Suc n"]) simp
  qed
qed

text \<open>Once the walk returns to an object it has seen, no status error lies ahead: the objects
  seen are closed under \<open>cause\<close>.\<close>

lemma closed_no_status:
  assumes "\<And>j. j \<in> V \<Longrightarrow> j < length hp \<and> \<not> eo_isStatusError (hp ! j) \<and> eo_cause (hp ! j) \<in> Ref ` V"
  shows "i \<in> V \<Longrightarrow> \<not> status_at hp (Ref i) n"
proof (induction n arbitrary: i)
  case 0
  then show ?case using assms by (simp add: status_at_simps obj_at_def)
next
  case (Suc n)
  obtain k where "eo_cause (hp ! i) = Ref k" "k \<in> V" using assms [OF Suc.prems] by auto
  then show ?case using assms [OF Suc.prems] Suc.IH [of k] by (simp add: status_at_simps obj_at_def)
qed

lemma no_obj_no_status: "obj_at hp v = None \<Longrightarrow> \<not> status_at hp v n"
  by (cases n) (simp_all add: status_at_simps)

lemma find_status_None:
  assumes "\<And>j. j \<in> set visited \<Longrightarrow>
      j < length hp \<and> \<not> eo_isStatusError (hp ! j) \<and> eo_cause (hp ! j) \<in> insert v (Ref ` set visited)"
    and "find_status hp v visited = None"
  shows "\<not> status_at hp v n"
  using assms
proof (induction hp v visited arbitrary: n rule: find_status.induct)
  case (1 hp v visited)
  show ?case
  proof (cases "obj_at hp v")
    case None
    then show ?thesis by (rule no_obj_no_status)
  next
    case (Some ob)
    then obtain i where v: "v = Ref i" "i < length hp" "ob = hp ! i"
      by (auto simp: obj_at_def split: js_value.splits if_splits)
    show ?thesis
    proof (cases "i \<in> set visited")
      case True
      then show ?thesis
        unfolding v(1) using "1.prems"(1) by (intro closed_no_status [of "set visited"]) (auto simp: v(1))
    next
      case False
      have no: "\<not> eo_isStatusError (hp ! i)" "find_status hp (eo_cause (hp ! i)) (i # visited) = None"
        using "1.prems"(2) v False by (subst (asm) find_status.simps, auto split: if_splits)+
      have "\<not> status_at hp (eo_cause (hp ! i)) m" for m
        using v False no "1.prems"(1) by (intro "1.IH" [OF v(1)]) (auto simp: v(1))
      then show ?thesis using no Some v by (cases n) (simp_all add: status_at_simps)
    qed
  qed
qed

section \<open>Properties\<close>

text \<open>Looking for the status error behind a failure always ends, on cyclic chains of causes
  too, and finds the first status error on the chain, if there is one.\<close>

theorem findAPIStatusError_first:
  "case findAPIStatusError hp error of
     None \<Rightarrow> \<forall>n. \<not> status_at hp error n
   | Some ob \<Rightarrow> \<exists>n. obj_at hp (cause_at hp error n) = Some ob \<and> eo_isStatusError ob \<and> (\<forall>m<n. \<not> status_at hp error m)"
proof (cases "find_status hp error []")
  case None
  then show ?thesis using find_status_None [of "[]" hp error] by (simp add: findAPIStatusError_def)
next
  case (Some i)
  then obtain n where "cause_at hp error n = Ref i" "i < length hp" "eo_isStatusError (hp ! i)"
      "\<forall>m<n. \<not> status_at hp error m"
    using find_status_Some by blast
  then have "obj_at hp (cause_at hp error n) = Some (hp ! i) \<and> eo_isStatusError (hp ! i) \<and> (\<forall>m<n. \<not> status_at hp error m)"
    by (simp add: obj_at_def)
  then show ?thesis using Some by (auto simp: findAPIStatusError_def)
qed

text \<open>C40: The loop never waits longer than its gates allow: every single wait is at most the
  single-wait cap, and with auto-resume on the waits of one request together are at most the
  cumulative cap.\<close>

theorem retry_waits_bounded:
  "let ds = sleeps (snd (chatWithRetry hp chat isRetryable maxAttempts gate sig rnd)) in
     (\<forall>d\<in>set ds. d \<le> gate_maxDelay gate)
     \<and> (gate_autoResume gate \<and> ds \<noteq> [] \<longrightarrow> sum_list ds \<le> gate_maxTotalWait gate)"
  using retry_loop_sleeps [of hp chat "the isRetryable" gate sig
      "retryBackoffDelays (or_default maxAttempts DEFAULT_MAX_RETRY_ATTEMPTS) rnd"
      "or_default maxAttempts DEFAULT_MAX_RETRY_ATTEMPTS" 1 0]
  by (auto simp: chatWithRetry_def Let_def split: sum.split)

theorem retry_waits_bounded_witness:
  "let ds = sleeps (snd (chatWithRetry [] (\<lambda>k. if k < 3 then Inl (Prim ''overloaded'') else Inr \<lparr>rs_traceId = None, rs_body = 7\<rparr>)
       (Some (\<lambda>_. True)) (Some 5) None \<lparr>sg_failed = (\<lambda>_. False), sg_sleep = (\<lambda>_. False)\<rparr> (\<lambda>_. 0))) in
     (\<forall>d\<in>set ds. d \<le> 60000) \<and> (ds \<noteq> [] \<longrightarrow> sum_list ds \<le> 150000)"
  using retry_waits_bounded [of "[]" "\<lambda>k. if k < 3 then Inl (Prim ''overloaded'') else Inr \<lparr>rs_traceId = None, rs_body = 7\<rparr>"
      "Some (\<lambda>_. True)" "Some 5" None "\<lparr>sg_failed = (\<lambda>_. False), sg_sleep = (\<lambda>_. False)\<rparr>" "\<lambda>_. 0"]
  by (simp add: gate_maxDelay_def gate_maxTotalWait_def gate_autoResume_def or_default_def
      DEFAULT_FOREGROUND_MAX_DELAY_MS_def DEFAULT_FOREGROUND_MAX_TOTAL_WAIT_MS_def Let_def)

text \<open>The attempts: the provider is called with the numbers 1, 2, 3 and so on, at least once
  and at most \<open>maxAttempts\<close> times; every call but the last failed with a retryable error; a
  response that is returned is the one of the last call, and an error that is thrown is the
  one of the last call, which was not retryable or used up the budget.\<close>

theorem retry_attempts:
  assumes "1 < maxAttempts"
  shows "let res = chatWithRetry hp chat (Some retryable) (Some maxAttempts) gate sig rnd in
    \<exists>n. 1 \<le> n \<and> n \<le> maxAttempts
      \<and> calls (snd res) = map (\<lambda>k. (k, attempt_label k maxAttempts)) [1..<1 + n]
      \<and> (\<forall>k. 1 \<le> k \<and> k < n \<longrightarrow> (\<exists>e. chat k = Inl e \<and> retryable e))
      \<and> (\<forall>r. fst res = Response r \<longrightarrow> chat n = Inr r)
      \<and> (\<forall>e. fst res = Thrown e \<longrightarrow> chat n = Inl e \<and> (n = maxAttempts \<or> \<not> retryable e))"
proof -
  let ?res = "retry_loop hp chat retryable gate sig (retryBackoffDelays maxAttempts rnd) maxAttempts 1 0"
  obtain n where n: "1 \<le> n" "1 + n \<le> maxAttempts + 1" "attempts_ok chat retryable maxAttempts 1 n ?res"
    using retry_loop_calls [of 1 maxAttempts chat retryable hp gate sig "retryBackoffDelays maxAttempts rnd" 0] assms
    by auto
  have res: "chatWithRetry hp chat (Some retryable) (Some maxAttempts) gate sig rnd = ?res"
    using assms by (simp add: chatWithRetry_def or_default_def Let_def)
  show ?thesis
    unfolding res Let_def using n by (intro exI [of _ n]) (auto simp: attempts_ok_def)
qed

theorem retry_attempts_witness:
  "let chat = (\<lambda>k. if k < 2 then Inl (Prim ''overloaded'') else Inr \<lparr>rs_traceId = None, rs_body = 7\<rparr>);
       res = chatWithRetry [] chat (Some (\<lambda>_. True)) (Some 5) None
         \<lparr>sg_failed = (\<lambda>_. False), sg_sleep = (\<lambda>_. False)\<rparr> (\<lambda>_. 0) in
     \<exists>n. 1 \<le> n \<and> n \<le> 5 \<and> calls (snd res) = map (\<lambda>k. (k, attempt_label k 5)) [1..<1 + n]"
  using retry_attempts [of 5 "[]" "\<lambda>k. if k < 2 then Inl (Prim ''overloaded'') else Inr \<lparr>rs_traceId = None, rs_body = 7\<rparr>"
      "\<lambda>_. True" None "\<lparr>sg_failed = (\<lambda>_. False), sg_sleep = (\<lambda>_. False)\<rparr>" "\<lambda>_. 0"]
  by (simp only: Let_def) (elim meta_impE exE conjE, simp, intro exI conjI, assumption+)

text \<open>The request succeeds when it can: with auto-resume off, if some attempt within the
  budget responds, the earlier ones fail with retryable errors and the turn is not aborted,
  then that response is returned.\<close>

theorem retry_returns_first_success:
  assumes "1 < maxAttempts" "chat k = Inr r" "1 \<le> k" "k \<le> maxAttempts" "\<not> gate_autoResume gate"
    and "\<And>j. 1 \<le> j \<Longrightarrow> j < k \<Longrightarrow> (\<exists>e. chat j = Inl e \<and> retryable e) \<and> \<not> sg_failed sig j \<and> \<not> sg_sleep sig j"
  shows "fst (chatWithRetry hp chat (Some retryable) (Some maxAttempts) gate sig rnd) = Response r"
proof -
  have "fst (retry_loop hp chat retryable gate sig (retryBackoffDelays maxAttempts rnd) maxAttempts 1 0) = Response r"
    by (rule retry_loop_succeeds [OF assms(2-6)])
  then show ?thesis using assms(1) by (simp add: chatWithRetry_def or_default_def Let_def)
qed

theorem retry_returns_first_success_witness:
  "fst (chatWithRetry [] (\<lambda>k. if k < 3 then Inl (Prim ''overloaded'') else Inr \<lparr>rs_traceId = None, rs_body = 7\<rparr>)
     (Some (\<lambda>_. True)) (Some 5) (Some \<lparr>fg_maxDelayMs = None, fg_maxTotalWaitMs = Some 1, fg_autoResume = Some False\<rparr>)
     \<lparr>sg_failed = (\<lambda>_. False), sg_sleep = (\<lambda>_. False)\<rparr> (\<lambda>_. 0)) = Response \<lparr>rs_traceId = None, rs_body = 7\<rparr>"
  by (rule retry_returns_first_success [of 5 _ 3]) (simp_all add: gate_autoResume_def or_default_def)

text \<open>The computed backoff: there is one delay per retry, the \<open>i\<close>-th lies between the
  exponential base (500 milliseconds doubled \<open>i\<close> times, at most 32 seconds) and a quarter
  more, so no computed wait exceeds 40 seconds, and the base reaches its cap at the seventh
  retry.\<close>

theorem backoff_bounds:
  assumes "i < maxAttempts - 1" "0 \<le> rnd i" "rnd i < 1"
  shows "length (retryBackoffDelays maxAttempts rnd) = maxAttempts - 1
    \<and> base_delay i \<le> retryBackoffDelays maxAttempts rnd ! i
    \<and> retryBackoffDelays maxAttempts rnd ! i < 5 / 4 * base_delay i
    \<and> retryBackoffDelays maxAttempts rnd ! i < 40000
    \<and> (base_delay i = 32000 \<longleftrightarrow> 6 \<le> i)"
proof -
  let ?d = "retryBackoffDelays maxAttempts rnd ! i"
  have d: "?d = base_delay i + rnd i * (base_delay i / 4)"
    using assms(1) by (simp add: retryBackoffDelays_def JITTER_FACTOR_def)
  have pos: "0 < base_delay i" "base_delay i \<le> 32000"
    by (simp_all add: base_delay_def BASE_DELAY_MS_def RETRY_FACTOR_def MAX_DELAY_MS_def)
  have jitter: "0 \<le> rnd i * (base_delay i / 4)" "rnd i * (base_delay i / 4) < 1 * (base_delay i / 4)"
    using assms(2,3) pos(1) by (simp, intro mult_strict_right_mono) simp_all
  have "(32000 \<le> 500 * (2 :: real) ^ i) \<longleftrightarrow> (2 :: real) ^ 6 \<le> 2 ^ i" by simp
  also have "\<dots> \<longleftrightarrow> 6 \<le> i" by (rule power_increasing_iff) simp
  finally have "base_delay i = 32000 \<longleftrightarrow> 6 \<le> i"
    by (auto simp: base_delay_def BASE_DELAY_MS_def RETRY_FACTOR_def MAX_DELAY_MS_def min_def)
  then show ?thesis
    using d pos jitter by (simp add: retryBackoffDelays_def [of maxAttempts rnd, THEN arg_cong [where f = length]])
qed

theorem backoff_bounds_witness:
  "1000 \<le> retryBackoffDelays 10 (\<lambda>_. 1 / 2) ! 1 \<and> retryBackoffDelays 10 (\<lambda>_. 1 / 2) ! 1 < 1250"
  using backoff_bounds [of 1 10 "\<lambda>_. 1 / 2"]
  by (simp add: base_delay_def BASE_DELAY_MS_def RETRY_FACTOR_def MAX_DELAY_MS_def)

end
