(* ===== verification/Run_Turn.thy ===== *)
theory Run_Turn
  imports Prelude
begin

text \<open>
  The turn loop, \<open>packages/agent-core/src/loop/run-turn.ts\<close>: steps are run until one ends
  without tool use and the host does not continue, the step limit is reached, the turn is
  aborted, or a step fails.

  One step (\<open>executeLoopStep\<close>), the continuation hook and the abort signal are the
  environment \<open>turn_env\<close>, arguments of the loop indexed by the step number: whether the
  signal is aborted when step \<open>k\<close> is about to run, what step \<open>k\<close> does with the media projection
  it is given, whether the host continues after step \<open>k\<close>, and what the signal says when
  an error of step \<open>k\<close> is caught. Without a step limit the loop need not end, so it takes fuel.
\<close>

record token_usage =
  u_inputOther :: nat
  u_output :: nat
  u_inputCacheRead :: nat
  u_inputCacheCreation :: nat

definition emptyUsage :: token_usage where
  "emptyUsage = \<lparr>u_inputOther = 0, u_output = 0, u_inputCacheRead = 0, u_inputCacheCreation = 0\<rparr>"

definition addUsage :: "token_usage \<Rightarrow> token_usage \<Rightarrow> token_usage" where
  "addUsage a b =
     \<lparr>u_inputOther = u_inputOther a + u_inputOther b, u_output = u_output a + u_output b,
      u_inputCacheRead = u_inputCacheRead a + u_inputCacheRead b,
      u_inputCacheCreation = u_inputCacheCreation a + u_inputCacheCreation b\<rparr>"

datatype step_stop = EndTurn | MaxTokens | ToolUse | Filtered | PausedStop | UnknownStop

datatype turn_stop = StoppedBy step_stop | TurnAborted

datatype media_projection = NormalMedia | MediaDegraded | MediaStripped

datatype loop_error =
    MaxStepsExceeded nat
  | AbortErr bool string
  | OtherErr string

fun isAbort :: "loop_error \<Rightarrow> bool" where
  "isAbort (AbortErr _ _) = True"
| "isAbort _ = False"

fun isUserCancellation :: "loop_error \<Rightarrow> bool" where
  "isUserCancellation (AbortErr user _) = user"
| "isUserCancellation _ = False"

fun isMaxStepsExceeded :: "loop_error \<Rightarrow> bool" where
  "isMaxStepsExceeded (MaxStepsExceeded _) = True"
| "isMaxStepsExceeded _ = False"

text \<open>The message of an error. The advice that \<open>createMaxStepsExceededError\<close> appends to its
  message is left out.\<close>

fun errorMessage :: "loop_error \<Rightarrow> string" where
  "errorMessage (MaxStepsExceeded n) = ''Turn exceeded maxSteps='' @ string_of_nat n"
| "errorMessage (AbortErr _ m) = m"
| "errorMessage (OtherErr m) = m"

text \<open>What a step does: the usages it records, the trace it captured, and its result.\<close>

record step_result =
  sr_stopReason :: step_stop
  sr_mediaDegradedResendUsed :: bool
  sr_mediaStrippedResendUsed :: bool

record step_run =
  st_usages :: "token_usage list"
  st_trace :: "string option"
  st_result :: "loop_error + step_result"

record turn_env =
  te_aborted :: "nat \<Rightarrow> bool"
  te_step :: "nat \<Rightarrow> media_projection \<Rightarrow> step_run"
  te_continue :: "nat \<Rightarrow> loop_error + bool"
  te_sigAborted :: "nat \<Rightarrow> bool"
  te_sigUser :: "nat \<Rightarrow> bool"

datatype interrupt_reason = IrAborted | IrMaxSteps | IrError | IrUserCancelled

record interrupted_event =
  ie_reason :: interrupt_reason
  ie_attemptedSteps :: nat
  ie_activeStep :: "nat option"
  ie_message :: "string option"
  ie_interruptReason :: interrupt_reason
  ie_traceId :: "string option"

record turn_result =
  tr_stopReason :: turn_stop
  tr_steps :: nat
  tr_usage :: token_usage

record turn_state =
  ts_usage :: token_usage
  ts_steps :: nat
  ts_activeStep :: "nat option"
  ts_trace :: "string option"
  ts_mediaDegraded :: bool
  ts_mediaStripped :: bool

definition init_turn :: turn_state where
  "init_turn = \<lparr>ts_usage = emptyUsage, ts_steps = 0, ts_activeStep = None, ts_trace = None,
     ts_mediaDegraded = False, ts_mediaStripped = False\<rparr>"

type_synonym turn_out = "(loop_error + turn_result) \<times> interrupted_event list"

definition makeInterruptedEvent ::
    "interrupt_reason \<Rightarrow> turn_state \<Rightarrow> string option \<Rightarrow> interrupt_reason \<Rightarrow> interrupted_event" where
  "makeInterruptedEvent reason s message interruptReason =
     \<lparr>ie_reason = reason, ie_attemptedSteps = ts_steps s, ie_activeStep = ts_activeStep s,
      ie_message = message, ie_interruptReason = interruptReason, ie_traceId = ts_trace s\<rparr>"

text \<open>The \<open>catch\<close> block.\<close>

definition catch_error :: "turn_env \<Rightarrow> turn_state \<Rightarrow> loop_error \<Rightarrow> turn_out" where
  "catch_error env s error =
     (if isAbort error \<or> te_sigAborted env (ts_steps s) then
        (let interruptReason =
               (if te_sigUser env (ts_steps s) \<or> isUserCancellation error then IrUserCancelled else IrAborted)
         in (Inr \<lparr>tr_stopReason = TurnAborted, tr_steps = ts_steps s, tr_usage = ts_usage s\<rparr>,
             [makeInterruptedEvent IrAborted s None interruptReason]))
      else
        (let reason = (if isMaxStepsExceeded error then IrMaxSteps else IrError)
         in (Inl error, [makeInterruptedEvent reason s (Some (errorMessage error)) reason])))"

text \<open>The projection the next step builds its messages from.\<close>

definition next_projection :: "turn_state \<Rightarrow> media_projection" where
  "next_projection s =
     (if ts_mediaStripped s then MediaStripped
      else if ts_mediaDegraded s then MediaDegraded else NormalMedia)"

text \<open>An aborted signal throws its reason, a user cancellation or another abort error.\<close>

fun turn_loop :: "nat \<Rightarrow> turn_env \<Rightarrow> nat option \<Rightarrow> turn_state \<Rightarrow> turn_out option" where
  "turn_loop 0 env maxSteps s = None"
| "turn_loop (Suc fuel) env maxSteps s =
     (if te_aborted env (ts_steps s) then
        Some (catch_error env s (AbortErr (te_sigUser env (ts_steps s)) ''Aborted''))
      else if (case maxSteps of None \<Rightarrow> False | Some m \<Rightarrow> m > 0 \<and> ts_steps s \<ge> m) then
        Some (catch_error env s (MaxStepsExceeded (the maxSteps)))
      else
        (let s1 = s\<lparr>ts_steps := ts_steps s + 1, ts_activeStep := Some (ts_steps s + 1), ts_trace := None\<rparr>;
             run = te_step env (ts_steps s1) (next_projection s1);
             s2 = s1\<lparr>ts_usage := foldl addUsage (ts_usage s1) (st_usages run), ts_trace := st_trace run\<rparr>
         in case st_result run of
              Inl error \<Rightarrow> Some (catch_error env s2 error)
            | Inr r \<Rightarrow>
                (let s3 = s2\<lparr>ts_activeStep := None,
                             ts_mediaDegraded := ts_mediaDegraded s2 \<or> sr_mediaDegradedResendUsed r,
                             ts_mediaStripped := ts_mediaStripped s2 \<or> sr_mediaStrippedResendUsed r\<rparr>
                 in if sr_stopReason r = ToolUse then turn_loop fuel env maxSteps s3
                    else (case te_continue env (ts_steps s3) of
                            Inl error \<Rightarrow> Some (catch_error env s3 error)
                          | Inr True \<Rightarrow> turn_loop fuel env maxSteps s3
                          | Inr False \<Rightarrow>
                              Some (Inr \<lparr>tr_stopReason = StoppedBy (sr_stopReason r), tr_steps = ts_steps s3,
                                         tr_usage = ts_usage s3\<rparr>, [])))))"

declare turn_loop.simps(2) [simp del]

definition runTurn :: "nat \<Rightarrow> turn_env \<Rightarrow> nat option \<Rightarrow> turn_out option" where
  "runTurn fuel env maxSteps = turn_loop fuel env maxSteps init_turn"

section \<open>What a turn's result says\<close>

text \<open>The usages recorded by the steps up to \<open>n\<close>, with the projection each was given.\<close>

fun projections :: "turn_env \<Rightarrow> nat \<Rightarrow> media_projection list" where
  "projections env 0 = []"
| "projections env (Suc n) =
     (let ps = projections env n;
          used = (\<lambda>f. \<exists>i<n. case st_result (te_step env (i + 1) (ps ! i)) of Inl _ \<Rightarrow> False | Inr r \<Rightarrow> f r)
      in ps @ [if used sr_mediaStrippedResendUsed then MediaStripped
               else if used sr_mediaDegradedResendUsed then MediaDegraded else NormalMedia])"

definition turn_usage :: "turn_env \<Rightarrow> nat \<Rightarrow> token_usage" where
  "turn_usage env n =
     foldl addUsage emptyUsage
       (concat (map (\<lambda>i. st_usages (te_step env (i + 1) (projections env n ! i))) [0..<n]))"

lemma length_projections [simp]: "length (projections env n) = n"
  by (induction n) (simp_all add: Let_def)

lemma projections_prefix: "i < n \<Longrightarrow> projections env (Suc n) ! i = projections env n ! i"
  by (simp add: Let_def nth_append)

definition resend_used :: "turn_env \<Rightarrow> nat \<Rightarrow> (step_result \<Rightarrow> bool) \<Rightarrow> bool" where
  "resend_used env n f \<longleftrightarrow>
     (\<exists>i<n. case st_result (te_step env (i + 1) (projections env n ! i)) of Inl _ \<Rightarrow> False | Inr r \<Rightarrow> f r)"

lemma projection_last:
  "projections env (Suc n) ! n =
     (if resend_used env n sr_mediaStrippedResendUsed then MediaStripped
      else if resend_used env n sr_mediaDegradedResendUsed then MediaDegraded else NormalMedia)"
  by (auto simp: resend_used_def Let_def nth_append)

declare projections.simps(2) [simp del]

lemma resend_used_Suc:
  "resend_used env (Suc n) f \<longleftrightarrow> resend_used env n f
     \<or> (case st_result (te_step env (n + 1) (projections env (Suc n) ! n)) of Inl _ \<Rightarrow> False | Inr r \<Rightarrow> f r)"
  unfolding resend_used_def
  by (auto simp: less_Suc_eq projections_prefix)

lemma turn_usage_Suc:
  "turn_usage env (Suc n)
     = foldl addUsage (turn_usage env n) (st_usages (te_step env (n + 1) (projections env (Suc n) ! n)))"
proof -
  define f where "f m i = st_usages (te_step env (i + 1) (projections env m ! i))" for m i
  have usage: "turn_usage env m = foldl addUsage emptyUsage (concat (map (f m) [0..<m]))" for m
    by (simp add: turn_usage_def f_def [abs_def])
  have "map (f (Suc n)) [0..<n] = map (f n) [0..<n]"
    by (rule map_cong) (simp_all add: f_def projections_prefix)
  then have "turn_usage env (Suc n) = foldl addUsage (turn_usage env n) (f (Suc n) n)"
    unfolding usage by (simp del: map_eq_conv)
  then show ?thesis by (simp add: f_def)
qed

text \<open>The loop state says what the steps so far have done.\<close>

definition turn_ok :: "turn_env \<Rightarrow> turn_state \<Rightarrow> bool" where
  "turn_ok env s \<longleftrightarrow> ts_usage s = turn_usage env (ts_steps s)
     \<and> (ts_mediaStripped s \<longleftrightarrow> resend_used env (ts_steps s) sr_mediaStrippedResendUsed)
     \<and> (ts_mediaDegraded s \<longleftrightarrow> resend_used env (ts_steps s) sr_mediaDegradedResendUsed)"

lemma init_turn_ok: "turn_ok env init_turn"
  by (simp add: turn_ok_def init_turn_def turn_usage_def resend_used_def)

lemma turn_ok_projection: "turn_ok env s \<Longrightarrow> next_projection s = projections env (Suc (ts_steps s)) ! ts_steps s"
  by (simp add: turn_ok_def next_projection_def projection_last)

definition turn_sound :: "turn_env \<Rightarrow> nat option \<Rightarrow> turn_out \<Rightarrow> bool" where
  "turn_sound env maxSteps out \<longleftrightarrow>
     (case fst out of
        Inr r \<Rightarrow> tr_usage r = turn_usage env (tr_steps r)
          \<and> tr_stopReason r \<noteq> StoppedBy ToolUse
          \<and> (\<forall>m. maxSteps = Some m \<and> 0 < m \<longrightarrow> tr_steps r \<le> m)
          \<and> (if tr_stopReason r = TurnAborted
             then \<exists>ev. snd out = [ev] \<and> ie_reason ev = IrAborted \<and> ie_attemptedSteps ev = tr_steps r
             else snd out = [])
      | Inl e \<Rightarrow> \<exists>ev. snd out = [ev] \<and> ie_message ev = Some (errorMessage e)
          \<and> (\<forall>m. maxSteps = Some m \<and> 0 < m \<longrightarrow> ie_attemptedSteps ev \<le> m)
          \<and> ie_reason ev = (if isMaxStepsExceeded e then IrMaxSteps else IrError))"

lemma catch_error_sound:
  assumes "ts_usage s = turn_usage env (ts_steps s)" "\<And>m. maxSteps = Some m \<Longrightarrow> 0 < m \<Longrightarrow> ts_steps s \<le> m"
  shows "turn_sound env maxSteps (catch_error env s e)"
  using assms by (auto simp: turn_sound_def catch_error_def Let_def makeInterruptedEvent_def)

lemma turn_loop_sound:
  "turn_loop fuel env maxSteps s = Some out \<Longrightarrow> turn_ok env s \<Longrightarrow>
     (\<And>m. maxSteps = Some m \<Longrightarrow> 0 < m \<Longrightarrow> ts_steps s \<le> m) \<Longrightarrow> turn_sound env maxSteps out"
proof (induction fuel arbitrary: s)
  case (Suc fuel)
  let ?n = "ts_steps s"
  define run where "run = te_step env (Suc ?n) (projections env (Suc ?n) ! ?n)"
  define s2 where "s2 = s\<lparr>ts_steps := Suc ?n, ts_activeStep := Some (Suc ?n),
      ts_usage := foldl addUsage (ts_usage s) (st_usages run), ts_trace := st_trace run\<rparr>"
  define s3 where "s3 r = s2\<lparr>ts_activeStep := None, ts_mediaDegraded := ts_mediaDegraded s2 \<or> sr_mediaDegradedResendUsed r,
      ts_mediaStripped := ts_mediaStripped s2 \<or> sr_mediaStrippedResendUsed r\<rparr>" for r :: step_result
  have proj: "next_projection (s\<lparr>ts_steps := x, ts_activeStep := y, ts_trace := z\<rparr>) = projections env (Suc ?n) ! ?n" for x y z
    using turn_ok_projection [OF Suc.prems(2)] by (auto simp: next_projection_def)
  show ?case
  proof (cases "te_aborted env ?n \<or> (case maxSteps of None \<Rightarrow> False | Some m \<Rightarrow> m > 0 \<and> ?n \<ge> m)")
    case True
    then obtain e where "out = catch_error env s e"
      using Suc.prems(1) by (auto simp: turn_loop.simps split: if_splits)
    then show ?thesis using Suc.prems(2,3) by (auto simp: turn_ok_def intro: catch_error_sound)
  next
    case False
    then have below: "Suc ?n \<le> m" if "maxSteps = Some m" "0 < m" for m using that by auto
    have unfold: "turn_loop (Suc fuel) env maxSteps s =
      (case st_result run of
         Inl error \<Rightarrow> Some (catch_error env s2 error)
       | Inr r \<Rightarrow>
           if sr_stopReason r = ToolUse then turn_loop fuel env maxSteps (s3 r)
           else (case te_continue env (Suc ?n) of
                   Inl error \<Rightarrow> Some (catch_error env (s3 r) error)
                 | Inr True \<Rightarrow> turn_loop fuel env maxSteps (s3 r)
                 | Inr False \<Rightarrow>
                     Some (Inr \<lparr>tr_stopReason = StoppedBy (sr_stopReason r), tr_steps = Suc ?n,
                                tr_usage = ts_usage (s3 r)\<rparr>, [])))"
      using False
      by (simp add: turn_loop.simps proj Let_def run_def [symmetric] split: sum.split bool.split)
        (simp add: s3_def s2_def split: bool.split)
    have usage: "ts_usage s2 = turn_usage env (Suc ?n)" "ts_steps s2 = Suc ?n"
      using Suc.prems(2) by (simp_all add: s2_def run_def turn_ok_def turn_usage_Suc)
    show ?thesis
    proof (cases "st_result run")
      case (Inl e)
      then have "out = catch_error env s2 e" using Suc.prems(1) unfold by simp
      then show ?thesis using catch_error_sound [of s2 env maxSteps e] usage below by simp
    next
      case (Inr r)
      have s3: "ts_steps (s3 r) = Suc ?n" "ts_usage (s3 r) = turn_usage env (Suc ?n)"
        using usage by (simp_all add: s3_def)
      have ok: "turn_ok env (s3 r)"
        using Suc.prems(2) Inr usage
        by (auto simp: turn_ok_def s3 resend_used_Suc run_def [simplified, symmetric])
          (auto simp: s3_def s2_def run_def)
      have rec: "turn_sound env maxSteps out" if "turn_loop fuel env maxSteps (s3 r) = Some out"
        using Suc.IH [OF that ok] below s3(1) by simp
      show ?thesis
      proof (cases "sr_stopReason r = ToolUse")
        case True
        then show ?thesis using rec Suc.prems(1) unfold Inr by simp
      next
        case stop: False
        show ?thesis
        proof (cases "te_continue env (Suc ?n)")
          case (Inl e)
          then have "out = catch_error env (s3 r) e" using Suc.prems(1) unfold Inr stop \<open>st_result run = Inr r\<close> by simp
          then show ?thesis using catch_error_sound [of "s3 r" env maxSteps e] s3 below by simp
        next
          case (Inr c)
          then show ?thesis
            using rec Suc.prems(1) unfold \<open>st_result run = Inr r\<close> stop below s3(2)
            by (cases c) (auto simp: turn_sound_def)
        qed
      qed
    qed
  qed
qed simp

text \<open>With a step limit the loop ends: every turn of it either ends the loop or takes a step.\<close>

lemma turn_loop_returns:
  "0 < m \<Longrightarrow> ts_steps s \<le> m \<Longrightarrow> \<exists>out. turn_loop (m - ts_steps s + 1 + k) env (Some m) s = Some out"
proof (induction "m - ts_steps s" arbitrary: s)
  case 0
  then show ?case by (auto simp: turn_loop.simps)
next
  case (Suc n)
  let ?more = "\<lambda>s'. turn_loop (n + 1 + k) env (Some m) s'"
  have more: "\<exists>out. ?more s' = Some out" if "ts_steps s' = Suc (ts_steps s)" for s'
  proof -
    have n: "m - ts_steps s' = n" "ts_steps s' \<le> m" using Suc.hyps(2) that by simp_all
    then show ?thesis using Suc.hyps(1) [of s', unfolded n(1)] Suc.prems(1) by blast
  qed
  have more': "\<exists>a b. turn_loop (Suc (n + k)) env (Some m) s' = Some (a, b)" if "ts_steps s' = Suc (ts_steps s)" for s'
    using more [OF that] by simp
  have fuel: "m - ts_steps s + 1 + k = Suc (n + 1 + k)" using Suc.hyps(2) by simp
  show ?case
    unfolding fuel using Suc.prems(1) by (subst turn_loop.simps) (auto simp: Let_def intro: more' split: sum.split bool.split)
qed

section \<open>Properties\<close>

text \<open>C39: A turn with a step limit \<open>m\<close> always comes to an end: whatever the model, the tools and
  the hooks do, the loop returns or throws after at most \<open>m\<close> steps (\<open>m + 1\<close> rounds of fuel
  are enough).\<close>

theorem runTurn_terminates:
  "0 < m \<Longrightarrow> \<exists>out. runTurn (m + 1) env (Some m) = Some out"
  using turn_loop_returns [of m init_turn 0 env] by (simp add: runTurn_def init_turn_def)

definition looping_env :: turn_env where
  "looping_env = \<lparr>te_aborted = (\<lambda>_. False),
     te_step = (\<lambda>k p. \<lparr>st_usages = [], st_trace = None,
        st_result = Inr \<lparr>sr_stopReason = ToolUse, sr_mediaDegradedResendUsed = False, sr_mediaStrippedResendUsed = False\<rparr>\<rparr>),
     te_continue = (\<lambda>_. Inr False), te_sigAborted = (\<lambda>_. False), te_sigUser = (\<lambda>_. False)\<rparr>"

theorem runTurn_terminates_witness: "\<exists>out. runTurn (2 + 1) looping_env (Some 2) = Some out"
  by (rule runTurn_terminates) simp

text \<open>What a finished turn reports is true of its steps: the usage is the sum of the usages
  the steps recorded, each step having been given the media projection that the resends of
  the earlier steps call for; the turn never stops with tool use and never exceeds its step
  limit; it announces an interruption exactly once if it is aborted or throws, with the
  matching reason, and not at all otherwise.\<close>

theorem runTurn_result_sound:
  "runTurn fuel env maxSteps = Some out \<Longrightarrow> turn_sound env maxSteps out"
  unfolding runTurn_def by (rule turn_loop_sound [OF _ init_turn_ok]) (auto simp: init_turn_def)

theorem runTurn_result_sound_witness:
  "turn_sound looping_env (Some 1) (the (runTurn 2 looping_env (Some 1)))"
proof (rule runTurn_result_sound [of 2])
  show "runTurn 2 looping_env (Some 1) = Some (the (runTurn 2 looping_env (Some 1)))"
    by (simp add: runTurn_def numeral_2_eq_2 turn_loop.simps looping_env_def init_turn_def)
qed

end
