(* ===== verification/Goal.thy ===== *)
theory Goal
  imports Js_Map
begin

text \<open>
  Goal mode, \<open>packages/agent-core/src/agent/goal/\<close>: the durable goal of an agent, its
  lifecycle, its budgets, the evidence ledger and the completion gate, and the records from
  which the goal is rebuilt when the agent is resumed.

  The state of \<open>GoalMode\<close> is \<open>gm_state\<close>; \<open>gm_records\<close> is what it wrote to the agent's record
  log, \<open>gm_events\<close> what it emitted (or pushed to the replay builder), \<open>gm_reminders\<close> the
  system reminders it appended to the context. \<open>Date.now()\<close> is read at several
  places of one operation; each operation is given its readings as a function \<open>clk\<close>, whose
  value at \<open>k\<close> is what the \<open>k\<close>-th of these places reads (a place that is not reached leaves its
  reading unused). Nothing relates the readings: they need not be equal, nor ordered.
  \<open>randomUUID()\<close> is an argument of \<open>createGoal\<close>.
\<close>

section \<open>Constants and configuration\<close>

definition MAX_GOAL_OBJECTIVE_LENGTH :: nat where "MAX_GOAL_OBJECTIVE_LENGTH = 4000"
definition MAX_GOAL_COMPLETION_CRITERION_LENGTH :: nat where
  "MAX_GOAL_COMPLETION_CRITERION_LENGTH = MAX_GOAL_OBJECTIVE_LENGTH"
definition MAX_GOAL_EVIDENCE_RECEIPTS :: nat where "MAX_GOAL_EVIDENCE_RECEIPTS = 50"
definition DEFAULT_COMPLETION_GATE_ENABLED :: bool where "DEFAULT_COMPLETION_GATE_ENABLED = True"
definition GOAL_EVIDENCE_LEASE_TURNS_DEFAULT :: int where "GOAL_EVIDENCE_LEASE_TURNS_DEFAULT = 5"
definition GOAL_EVIDENCE_LEASE_MS_DEFAULT :: int where "GOAL_EVIDENCE_LEASE_MS_DEFAULT = 1800000"
definition MAX_GATE_USABLE_RECEIPT_HINTS :: nat where "MAX_GATE_USABLE_RECEIPT_HINTS = 5"
definition GOAL_TIER_SMALL_MAX_OBJECTIVE_LENGTH :: nat where "GOAL_TIER_SMALL_MAX_OBJECTIVE_LENGTH = 280"
definition GOAL_TIER_MEDIUM_MAX_OBJECTIVE_LENGTH :: nat where "GOAL_TIER_MEDIUM_MAX_OBJECTIVE_LENGTH = 1200"
definition DEFAULT_TIERED_BUDGETS_ENABLED :: bool where "DEFAULT_TIERED_BUDGETS_ENABLED = True"

definition GOAL_CANCELLED_REMINDER :: string where
  "GOAL_CANCELLED_REMINDER =
     ''The user cancelled the current goal. Ignore earlier active-goal reminders for that goal. ''
     @ ''Handle the next user request normally unless the user starts or resumes a goal.''"

definition GOAL_FORK_CLEARED_REMINDER :: string where
  "GOAL_FORK_CLEARED_REMINDER =
     ''This fork does not have a current goal. Ignore earlier active-goal reminders from the source session. ''
     @ ''Handle requests normally unless the user starts a new goal.''"

type_synonym clock_reads = "nat \<Rightarrow> int"

text \<open>The readings left after the first \<open>k\<close> places.\<close>

definition later :: "nat \<Rightarrow> clock_reads \<Rightarrow> clock_reads" where
  "later k clk = (\<lambda>i. clk (k + i))"

datatype goal_tier = SmallTier | MediumTier | LargeTier
datatype goal_status = GActive | GPaused | GBlocked | GComplete
datatype goal_actor = UserActor | ModelActor | RuntimeActor | SystemActor

fun tier_turns :: "goal_tier \<Rightarrow> int" where
  "tier_turns SmallTier = 10" | "tier_turns MediumTier = 40" | "tier_turns LargeTier = 120"

fun tier_tokens :: "goal_tier \<Rightarrow> int" where
  "tier_tokens SmallTier = 300000" | "tier_tokens MediumTier = 1500000" | "tier_tokens LargeTier = 6000000"

record goal_config =
  gc_completionGate :: "bool option"
  gc_evidenceLeaseTurns :: "int option"
  gc_evidenceLeaseMs :: "int option"
  gc_tieredBudgets :: "bool option"
  gc_tierTurns :: "goal_tier \<Rightarrow> int option"
  gc_tierTokens :: "goal_tier \<Rightarrow> int option"

definition opt_else :: "'a option \<Rightarrow> 'a \<Rightarrow> 'a" where
  "opt_else v d = (case v of None \<Rightarrow> d | Some x \<Rightarrow> x)"

section \<open>Data\<close>

record budget_limits =
  bg_tokenBudget :: "int option"
  bg_turnBudget :: "int option"
  bg_wallClockBudgetMs :: "int option"

definition no_limits :: budget_limits where
  "no_limits = \<lparr>bg_tokenBudget = None, bg_turnBudget = None, bg_wallClockBudgetMs = None\<rparr>"

text \<open>The object spread \<open>{ ...a, ...b }\<close>: the fields that \<open>b\<close> has win.\<close>

definition merge_limits :: "budget_limits \<Rightarrow> budget_limits \<Rightarrow> budget_limits" where
  "merge_limits a b =
     \<lparr>bg_tokenBudget = (if bg_tokenBudget b = None then bg_tokenBudget a else bg_tokenBudget b),
      bg_turnBudget = (if bg_turnBudget b = None then bg_turnBudget a else bg_turnBudget b),
      bg_wallClockBudgetMs = (if bg_wallClockBudgetMs b = None then bg_wallClockBudgetMs a else bg_wallClockBudgetMs b)\<rparr>"

record evidence_receipt =
  rc_receiptId :: string
  rc_toolName :: string
  rc_turnId :: int
  rc_capturedAtMs :: int
  rc_goalTurnAtCapture :: int
  rc_mutationIndexAtCapture :: nat
  rc_treeAtCapture :: "string option"
  rc_ok :: bool
  rc_summary :: string

record evidence_state =
  ev_receipts :: "(string, evidence_receipt) js_map"
  ev_toolMutationIndex :: nat
  ev_lastMutationGoalTurn :: "int option"
  ev_latestTree :: "string option"
  ev_pendingReceiptIds :: "string list"
  ev_pendingTurnId :: int
  ev_pendingStep :: int

definition createGoalEvidenceState :: evidence_state where
  "createGoalEvidenceState =
     \<lparr>ev_receipts = [], ev_toolMutationIndex = 0, ev_lastMutationGoalTurn = None, ev_latestTree = None,
      ev_pendingReceiptIds = [], ev_pendingTurnId = -1, ev_pendingStep = -1\<rparr>"

record goal_state =
  gs_goalId :: string
  gs_objective :: string
  gs_completionCriterion :: "string option"
  gs_status :: goal_status
  gs_turnsUsed :: int
  gs_tokensUsed :: int
  gs_wallClockMs :: int
  gs_wallClockResumedAt :: "int option"
  gs_budgetLimits :: budget_limits
  gs_terminalReason :: "string option"
  gs_terminalReasonCode :: "string option"
  gs_terminalReasonDetail :: "string option"
  gs_evidence :: evidence_state

record reason_input =
  ri_reason :: "string option"
  ri_reasonCode :: "string option"
  ri_reasonDetail :: "string option"

record budget_report =
  rp_tokenBudget :: "int option"
  rp_turnBudget :: "int option"
  rp_wallClockBudgetMs :: "int option"
  rp_remainingTokens :: "int option"
  rp_remainingTurns :: "int option"
  rp_remainingWallClockMs :: "int option"
  rp_tokenBudgetReached :: bool
  rp_turnBudgetReached :: bool
  rp_wallClockBudgetReached :: bool
  rp_overBudget :: bool

record gate_snapshot =
  gn_mutationsObserved :: nat
  gn_usableReceipts :: nat
  gn_staleReceipts :: int
  gn_lastMutationGoalTurn :: "int option"

record goal_snapshot =
  sn_goalId :: string
  sn_objective :: string
  sn_completionCriterion :: "string option"
  sn_status :: goal_status
  sn_turnsUsed :: int
  sn_tokensUsed :: int
  sn_wallClockMs :: int
  sn_budget :: budget_report
  sn_terminalReason :: "string option"
  sn_terminalReasonCode :: "string option"
  sn_terminalReasonDetail :: "string option"
  sn_completionGate :: "gate_snapshot option"

record goal_stats =
  gt_turnsUsed :: int
  gt_tokensUsed :: int
  gt_wallClockMs :: int

text \<open>The change announced with a snapshot: kind, status, the three reason fields, statistics
  and actor. (\<open>Created\<close> occurs only in the replay builder.)\<close>

datatype goal_change =
    Created
  | Lifecycle goal_status reason_input "goal_actor option"
  | Completion goal_status reason_input goal_stats "goal_actor option"

datatype goal_event =
    GoalUpdated "goal_snapshot option" "goal_change option"
  | ReplayPushed goal_snapshot goal_change

record update_record =
  ur_status :: "goal_status option"
  ur_tokensUsed :: "int option"
  ur_turnsUsed :: "int option"
  ur_wallClockMs :: "int option"
  ur_budgetLimits :: "budget_limits option"
  ur_reason :: reason_input
  ur_actor :: "goal_actor option"

datatype goal_record =
    GoalCreate string string "string option" goal_actor
  | GoalUpdate update_record
  | GoalClear
  | Forked

datatype goal_error = GOAL_OBJECTIVE_EMPTY | GOAL_OBJECTIVE_TOO_LONG | GOAL_ALREADY_EXISTS
  | GOAL_STATUS_INVALID goal_status | GOAL_NOT_RESUMABLE goal_status | GOAL_NOT_FOUND

record goal_mode =
  gm_state :: "goal_state option"
  gm_records :: "goal_record list"
  gm_events :: "goal_event list"
  gm_reminders :: "string list"

definition new_goal_mode :: goal_mode where
  "new_goal_mode = \<lparr>gm_state = None, gm_records = [], gm_events = [], gm_reminders = []\<rparr>"

definition no_reason :: reason_input where
  "no_reason = \<lparr>ri_reason = None, ri_reasonCode = None, ri_reasonDetail = None\<rparr>"

section \<open>Helpers (\<open>helpers.ts\<close>)\<close>

definition inferGoalTier :: "string \<Rightarrow> goal_tier" where
  "inferGoalTier objective =
     (if length objective \<le> GOAL_TIER_SMALL_MAX_OBJECTIVE_LENGTH then SmallTier
      else if length objective \<le> GOAL_TIER_MEDIUM_MAX_OBJECTIVE_LENGTH then MediumTier
      else LargeTier)"

definition liveWallClockMs :: "goal_state \<Rightarrow> int \<Rightarrow> int" where
  "liveWallClockMs s now =
     (case gs_wallClockResumedAt s of
        Some t \<Rightarrow> if gs_status s = GActive then gs_wallClockMs s + max 0 (now - t) else gs_wallClockMs s
      | None \<Rightarrow> gs_wallClockMs s)"

definition reached :: "int option \<Rightarrow> int \<Rightarrow> bool" where
  "reached budget used = (case budget of None \<Rightarrow> False | Some b \<Rightarrow> used \<ge> b)"

definition remaining :: "int option \<Rightarrow> int \<Rightarrow> int option" where
  "remaining budget used = map_option (\<lambda>b. max 0 (b - used)) budget"

definition computeBudgetReport :: "goal_state \<Rightarrow> int \<Rightarrow> budget_report" where
  "computeBudgetReport s now =
     (let limits = gs_budgetLimits s;
          wallClockMs = liveWallClockMs s now;
          tokenReached = reached (bg_tokenBudget limits) (gs_tokensUsed s);
          turnReached = reached (bg_turnBudget limits) (gs_turnsUsed s);
          wallReached = reached (bg_wallClockBudgetMs limits) wallClockMs
      in \<lparr>rp_tokenBudget = bg_tokenBudget limits, rp_turnBudget = bg_turnBudget limits,
          rp_wallClockBudgetMs = bg_wallClockBudgetMs limits,
          rp_remainingTokens = remaining (bg_tokenBudget limits) (gs_tokensUsed s),
          rp_remainingTurns = remaining (bg_turnBudget limits) (gs_turnsUsed s),
          rp_remainingWallClockMs = remaining (bg_wallClockBudgetMs limits) wallClockMs,
          rp_tokenBudgetReached = tokenReached, rp_turnBudgetReached = turnReached,
          rp_wallClockBudgetReached = wallReached,
          rp_overBudget = (tokenReached \<or> turnReached \<or> wallReached)\<rparr>)"

definition normalizeCompletionCriterion :: "string option \<Rightarrow> string option" where
  "normalizeCompletionCriterion v =
     (case map_option trim v of
        None \<Rightarrow> None
      | Some t \<Rightarrow>
          if t = [] then None
          else Some (if length t > MAX_GOAL_COMPLETION_CRITERION_LENGTH
                     then take MAX_GOAL_COMPLETION_CRITERION_LENGTH t else t))"

section \<open>The completion gate (\<open>completion-gate.ts\<close>)\<close>

datatype rejection_code = No_evidence | Unknown_receipt | Receipt_failed | Stale_after_mutation | Stale_tree
  | Lease_expired_turns | Lease_expired_wall_clock

datatype gate_basis = Inactive | Gate_disabled | Not_required | Evidence_passed

record rejection =
  rj_receiptId :: string
  rj_code :: rejection_code
  rj_reason :: string

record receipt_summary =
  rs_receiptId :: string
  rs_toolName :: string
  rs_summary :: string

record gate_verdict =
  vd_allowed :: bool
  vd_basis :: "gate_basis option"
  vd_reason :: "rejection_code option"
  vd_rejections :: "rejection list"
  vd_usableReceipts :: "receipt_summary list"

record gate_check =
  gk_toolMutationIndex :: nat
  gk_latestTree :: "string option"
  gk_turnsUsed :: int
  gk_now :: int
  gk_leaseTurns :: int
  gk_leaseMs :: int

definition completionGateEnforced :: "goal_state \<Rightarrow> bool" where
  "completionGateEnforced s \<longleftrightarrow> gs_completionCriterion s \<noteq> None
     \<or> ev_toolMutationIndex (gs_evidence s) > 0
     \<or> list_ex (\<lambda>(k, r). rc_treeAtCapture r \<noteq> None) (ev_receipts (gs_evidence s))"

definition gateCheckContext :: "goal_state \<Rightarrow> int \<Rightarrow> int \<Rightarrow> int \<Rightarrow> gate_check" where
  "gateCheckContext s leaseTurns leaseMs now =
     \<lparr>gk_toolMutationIndex = ev_toolMutationIndex (gs_evidence s), gk_latestTree = ev_latestTree (gs_evidence s),
      gk_turnsUsed = gs_turnsUsed s, gk_now = now, gk_leaseTurns = leaseTurns, gk_leaseMs = leaseMs\<rparr>"

definition checkGateReceipt :: "evidence_receipt \<Rightarrow> gate_check \<Rightarrow> rejection_code option" where
  "checkGateReceipt r check =
     (if \<not> rc_ok r then Some Receipt_failed
      else if rc_mutationIndexAtCapture r < gk_toolMutationIndex check then Some Stale_after_mutation
      else if rc_treeAtCapture r \<noteq> None \<and> rc_treeAtCapture r \<noteq> gk_latestTree check then Some Stale_tree
      else if gk_turnsUsed check - rc_goalTurnAtCapture r > gk_leaseTurns check then Some Lease_expired_turns
      else if gk_now check - rc_capturedAtMs r > gk_leaseMs check then Some Lease_expired_wall_clock
      else None)"

definition quoted :: "string \<Rightarrow> string" where
  "quoted s = char_of (34 :: nat) # s @ [char_of (34 :: nat)]"

text \<open>\<open>Math.round(d / 1000)\<close> of an integer is \<open>(d + 500) div 1000\<close>.\<close>

definition gateRejectionReason :: "evidence_receipt \<Rightarrow> rejection_code \<Rightarrow> gate_check \<Rightarrow> string" where
  "gateRejectionReason r code check =
     (let what = ''Receipt '' @ quoted (rc_receiptId r) @ '' ('' @ rc_toolName r @ '': '' @ rc_summary r @ '')'' in
      case code of
        Receipt_failed \<Rightarrow> what @ '' captured a failed tool result; failed results can never sign off completion.''
      | Stale_after_mutation \<Rightarrow> what @ '' was captured before your latest code change.''
      | Stale_tree \<Rightarrow> what @ '' was captured before the workspace last changed on disk.''
      | Lease_expired_turns \<Rightarrow>
          what @ '' is '' @ string_of_int (gk_turnsUsed check - rc_goalTurnAtCapture r)
            @ '' goal turns old, beyond the '' @ string_of_int (gk_leaseTurns check) @ ''-turn evidence lease.''
      | Lease_expired_wall_clock \<Rightarrow>
          what @ '' is '' @ string_of_int ((gk_now check - rc_capturedAtMs r + 500) div 1000)
            @ ''s old, beyond the '' @ string_of_int (gk_leaseMs check) @ ''ms wall-clock evidence lease.''
      | _ \<Rightarrow> [])"

text \<open>The loop of \<open>listUsableGateReceipts\<close>: the accumulator keeps the last few.\<close>

fun usable_loop :: "gate_check \<Rightarrow> receipt_summary list \<Rightarrow> evidence_receipt list \<Rightarrow> receipt_summary list" where
  "usable_loop check acc [] = acc"
| "usable_loop check acc (r # rs) =
     (if checkGateReceipt r check \<noteq> None then usable_loop check acc rs
      else let acc' = acc @ [\<lparr>rs_receiptId = rc_receiptId r, rs_toolName = rc_toolName r, rs_summary = rc_summary r\<rparr>]
           in usable_loop check (if length acc' > MAX_GATE_USABLE_RECEIPT_HINTS then tl acc' else acc') rs)"

definition listUsableGateReceipts :: "goal_state \<Rightarrow> gate_check \<Rightarrow> receipt_summary list" where
  "listUsableGateReceipts s check = usable_loop check [] (map snd (ev_receipts (gs_evidence s)))"

definition allowCompletionGate :: "gate_basis \<Rightarrow> gate_verdict" where
  "allowCompletionGate basis =
     \<lparr>vd_allowed = True, vd_basis = Some basis, vd_reason = None, vd_rejections = [], vd_usableReceipts = []\<rparr>"

section \<open>\<open>GoalMode\<close> (\<open>goal-mode.ts\<close>): internals\<close>

record gate_config =
  gg_enabled :: bool
  gg_leaseTurns :: int
  gg_leaseMs :: int

definition completionGateConfig :: "goal_config \<Rightarrow> gate_config" where
  "completionGateConfig config =
     \<lparr>gg_enabled = opt_else (gc_completionGate config) DEFAULT_COMPLETION_GATE_ENABLED,
      gg_leaseTurns = opt_else (gc_evidenceLeaseTurns config) GOAL_EVIDENCE_LEASE_TURNS_DEFAULT,
      gg_leaseMs = opt_else (gc_evidenceLeaseMs config) GOAL_EVIDENCE_LEASE_MS_DEFAULT\<rparr>"

definition resolveTieredBudgetDefaults ::
  "goal_config \<Rightarrow> string \<Rightarrow> goal_tier option \<Rightarrow> budget_limits option" where
  "resolveTieredBudgetDefaults config objective sizeHint =
     (if \<not> opt_else (gc_tieredBudgets config) DEFAULT_TIERED_BUDGETS_ENABLED then None
      else let tier = opt_else sizeHint (inferGoalTier objective) in
        Some \<lparr>bg_tokenBudget = Some (opt_else (gc_tierTokens config tier) (tier_tokens tier)),
              bg_turnBudget = Some (opt_else (gc_tierTurns config tier) (tier_turns tier)),
              bg_wallClockBudgetMs = None\<rparr>)"

definition computeCompletionGateSnapshot :: "goal_config \<Rightarrow> int \<Rightarrow> goal_state \<Rightarrow> gate_snapshot option" where
  "computeCompletionGateSnapshot config now s =
     (let gate = completionGateConfig config in
      if \<not> gg_enabled gate \<or> \<not> completionGateEnforced s then None
      else let check = gateCheckContext s (gg_leaseTurns gate) (gg_leaseMs gate) now;
               usable = length (filter (\<lambda>(k, r). checkGateReceipt r check = None) (ev_receipts (gs_evidence s)))
           in Some \<lparr>gn_mutationsObserved = ev_toolMutationIndex (gs_evidence s), gn_usableReceipts = usable,
                    gn_staleReceipts = int (length (ev_receipts (gs_evidence s))) - int usable,
                    gn_lastMutationGoalTurn = ev_lastMutationGoalTurn (gs_evidence s)\<rparr>)"

definition statsOf :: "int \<Rightarrow> goal_state \<Rightarrow> goal_stats" where
  "statsOf now s =
     \<lparr>gt_turnsUsed = gs_turnsUsed s, gt_tokensUsed = gs_tokensUsed s, gt_wallClockMs = liveWallClockMs s now\<rparr>"

definition toSnapshot :: "goal_config \<Rightarrow> clock_reads \<Rightarrow> goal_state \<Rightarrow> goal_snapshot" where
  "toSnapshot config clk s =
     \<lparr>sn_goalId = gs_goalId s, sn_objective = gs_objective s,
      sn_completionCriterion = gs_completionCriterion s, sn_status = gs_status s,
      sn_turnsUsed = gs_turnsUsed s, sn_tokensUsed = gs_tokensUsed s,
      sn_wallClockMs = liveWallClockMs s (clk 0), sn_budget = computeBudgetReport s (clk 1),
      sn_terminalReason = gs_terminalReason s, sn_terminalReasonCode = gs_terminalReasonCode s,
      sn_terminalReasonDetail = gs_terminalReasonDetail s,
      sn_completionGate = computeCompletionGateSnapshot config (clk 2) s\<rparr>"

definition emitGoalUpdated ::
  "goal_snapshot option \<Rightarrow> goal_change option \<Rightarrow> goal_mode \<Rightarrow> goal_mode" where
  "emitGoalUpdated snapshot change m = m\<lparr>gm_events := gm_events m @ [GoalUpdated snapshot change]\<rparr>"

text \<open>\<open>persistState(state, { silent, change })\<close>.\<close>

definition persistState ::
  "goal_config \<Rightarrow> clock_reads \<Rightarrow> goal_state option \<Rightarrow> bool \<Rightarrow> goal_change option \<Rightarrow> goal_mode \<Rightarrow> goal_mode" where
  "persistState config clk s silent change m =
     (let m' = m\<lparr>gm_state := s\<rparr> in
      if silent then m' else emitGoalUpdated (map_option (toSnapshot config clk) s) change m')"

definition logRecord :: "goal_record \<Rightarrow> goal_mode \<Rightarrow> goal_mode" where
  "logRecord r m = m\<lparr>gm_records := gm_records m @ [r]\<rparr>"

definition empty_update :: update_record where
  "empty_update = \<lparr>ur_status = None, ur_tokensUsed = None, ur_turnsUsed = None, ur_wallClockMs = None,
     ur_budgetLimits = None, ur_reason = no_reason, ur_actor = None\<rparr>"

definition appendGoalUpdate :: "update_record \<Rightarrow> goal_mode \<Rightarrow> goal_mode" where
  "appendGoalUpdate u = logRecord (GoalUpdate u)"

definition appendStatusUpdate :: "int \<Rightarrow> goal_state \<Rightarrow> goal_actor \<Rightarrow> reason_input \<Rightarrow> goal_mode \<Rightarrow> goal_mode" where
  "appendStatusUpdate now s actor input =
     appendGoalUpdate (empty_update\<lparr>ur_status := Some (gs_status s), ur_reason := input,
       ur_wallClockMs := Some (liveWallClockMs s now), ur_actor := Some actor\<rparr>)"

definition applyTerminalReason :: "reason_input \<Rightarrow> goal_state \<Rightarrow> goal_state" where
  "applyTerminalReason input s = s\<lparr>gs_terminalReason := ri_reason input,
     gs_terminalReasonCode := ri_reasonCode input, gs_terminalReasonDetail := ri_reasonDetail input\<rparr>"

definition applyStatus :: "int \<Rightarrow> goal_status \<Rightarrow> goal_state \<Rightarrow> goal_state" where
  "applyStatus now status s =
     (let s1 = (case gs_wallClockResumedAt s of
                  Some t \<Rightarrow> if gs_status s = GActive
                            then s\<lparr>gs_wallClockMs := gs_wallClockMs s + max 0 (now - t), gs_wallClockResumedAt := None\<rparr>
                            else s
                | None \<Rightarrow> s);
          s2 = (if status = GActive then s1\<lparr>gs_wallClockResumedAt := Some now\<rparr> else s1)
      in s2\<lparr>gs_status := status\<rparr>)"

definition clearInternal :: "goal_config \<Rightarrow> clock_reads \<Rightarrow> bool \<Rightarrow> goal_mode \<Rightarrow> goal_mode" where
  "clearInternal config clk emit m =
     (case gm_state m of
        None \<Rightarrow> m
      | Some s \<Rightarrow> logRecord GoalClear (persistState config clk None (\<not> emit) None m))"

definition appendSystemReminder :: "string \<Rightarrow> goal_mode \<Rightarrow> goal_mode" where
  "appendSystemReminder t m = m\<lparr>gm_reminders := gm_reminders m @ [t]\<rparr>"

section \<open>Rebuilding the goal from the records\<close>

definition restoreCreate ::
  "goal_config \<Rightarrow> clock_reads \<Rightarrow> string \<Rightarrow> string \<Rightarrow> string option \<Rightarrow> goal_mode \<Rightarrow> goal_mode" where
  "restoreCreate config clk goalId objective criterion m =
     (let s = \<lparr>gs_goalId = goalId, gs_objective = objective, gs_completionCriterion = criterion,
               gs_status = GActive, gs_turnsUsed = 0, gs_tokensUsed = 0, gs_wallClockMs = 0,
               gs_wallClockResumedAt = None, gs_budgetLimits = no_limits, gs_terminalReason = None,
               gs_terminalReasonCode = None, gs_terminalReasonDetail = None,
               gs_evidence = createGoalEvidenceState\<rparr>
      in m\<lparr>gm_state := Some s, gm_events := gm_events m @ [ReplayPushed (toSnapshot config clk s) Created]\<rparr>)"

definition restore_fields :: "update_record \<Rightarrow> goal_state \<Rightarrow> goal_state" where
  "restore_fields u s =
     (let s1 = (case ur_status u of
                  None \<Rightarrow> s
                | Some st \<Rightarrow>
                    applyTerminalReason (if st = GActive then no_reason else ur_reason u)
                      (s\<lparr>gs_status := st, gs_wallClockResumedAt := None\<rparr>));
          s2 = (case ur_turnsUsed u of None \<Rightarrow> s1 | Some v \<Rightarrow> s1\<lparr>gs_turnsUsed := v\<rparr>);
          s3 = (case ur_tokensUsed u of None \<Rightarrow> s2 | Some v \<Rightarrow> s2\<lparr>gs_tokensUsed := v\<rparr>);
          s4 = (case ur_wallClockMs u of
                  None \<Rightarrow> s3 | Some v \<Rightarrow> s3\<lparr>gs_wallClockMs := v, gs_wallClockResumedAt := None\<rparr>)
      in (case ur_budgetLimits u of None \<Rightarrow> s4 | Some v \<Rightarrow> s4\<lparr>gs_budgetLimits := v\<rparr>))"

definition restoreUpdate :: "goal_config \<Rightarrow> clock_reads \<Rightarrow> update_record \<Rightarrow> goal_mode \<Rightarrow> goal_mode" where
  "restoreUpdate config clk u m =
     (case gm_state m of
        None \<Rightarrow> m
      | Some s0 \<Rightarrow>
          let s = restore_fields u s0; m' = m\<lparr>gm_state := Some s\<rparr>
          in (case ur_status u of
                None \<Rightarrow> m'
              | Some st \<Rightarrow>
                  m'\<lparr>gm_events := gm_events m @
                    [ReplayPushed (toSnapshot config clk s)
                       (if st = GComplete then Completion st (ur_reason u) (statsOf (clk 3) s) (ur_actor u)
                        else Lifecycle st (ur_reason u) (ur_actor u))]\<rparr>))"

definition restoreClear :: "goal_mode \<Rightarrow> goal_mode" where
  "restoreClear m = m\<lparr>gm_state := None\<rparr>"

definition restoreForked :: "goal_mode \<Rightarrow> goal_mode" where
  "restoreForked m =
     (let m' = m\<lparr>gm_state := None\<rparr> in
      if gm_state m = None then m' else appendSystemReminder GOAL_FORK_CLEARED_REMINDER m')"

text \<open>The goal cases of \<open>restoreAgentRecord\<close> in \<open>agent/records/index.ts\<close>, and the replay of a log.\<close>

fun restoreAgentRecord :: "goal_config \<Rightarrow> clock_reads \<Rightarrow> goal_record \<Rightarrow> goal_mode \<Rightarrow> goal_mode" where
  "restoreAgentRecord config clk (GoalCreate i ob c a) m = restoreCreate config clk i ob c m"
| "restoreAgentRecord config clk (GoalUpdate u) m = restoreUpdate config clk u m"
| "restoreAgentRecord config clk GoalClear m = restoreClear m"
| "restoreAgentRecord config clk Forked m = restoreForked m"

fun replay :: "goal_config \<Rightarrow> clock_reads \<Rightarrow> goal_record list \<Rightarrow> goal_mode \<Rightarrow> goal_mode" where
  "replay config clk [] m = m"
| "replay config clk (r # rs) m = replay config (later 4 clk) rs (restoreAgentRecord config clk r m)"

definition normalizeAfterReplay :: "goal_config \<Rightarrow> clock_reads \<Rightarrow> goal_mode \<Rightarrow> goal_mode" where
  "normalizeAfterReplay config clk m =
     (case gm_state m of
        None \<Rightarrow> m
      | Some s0 \<Rightarrow>
          let s = s0\<lparr>gs_wallClockResumedAt := None\<rparr>; m0 = m\<lparr>gm_state := Some s\<rparr> in
          if gs_status s = GComplete then clearInternal config clk False m0
          else if gs_status s = GActive then
            let input = \<lparr>ri_reason = Some ''Paused after agent resume'',
                         ri_reasonCode = Some ''agent_resume'', ri_reasonDetail = None\<rparr>;
                s' = applyTerminalReason input (applyStatus (clk 0) GPaused s)
            in appendStatusUpdate (clk 1) s' RuntimeActor input (persistState config clk (Some s') True None m0)
          else m0)"

section \<open>Reads, creation and lifecycle\<close>

definition getGoal :: "goal_config \<Rightarrow> clock_reads \<Rightarrow> goal_mode \<Rightarrow> goal_snapshot option" where
  "getGoal config clk m = map_option (toSnapshot config clk) (gm_state m)"

definition getActiveGoal :: "goal_config \<Rightarrow> clock_reads \<Rightarrow> goal_mode \<Rightarrow> goal_snapshot option" where
  "getActiveGoal config clk m =
     (case gm_state m of
        None \<Rightarrow> None
      | Some s \<Rightarrow> if gs_status s \<noteq> GActive then None else Some (toSnapshot config clk s))"

record create_input =
  ci_objective :: string
  ci_completionCriterion :: "string option"
  ci_replace :: bool
  ci_sizeHint :: "goal_tier option"

definition createGoal ::
  "goal_config \<Rightarrow> clock_reads \<Rightarrow> string \<Rightarrow> create_input \<Rightarrow> goal_actor \<Rightarrow> goal_mode
     \<Rightarrow> (goal_error + goal_snapshot) \<times> goal_mode" where
  "createGoal config clk uuid input actor m =
     (let objective = trim (ci_objective input) in
      if length objective = 0 then (Inl GOAL_OBJECTIVE_EMPTY, m)
      else if length objective > MAX_GOAL_OBJECTIVE_LENGTH then (Inl GOAL_OBJECTIVE_TOO_LONG, m)
      else if gm_state m \<noteq> None \<and> \<not> ci_replace input then (Inl GOAL_ALREADY_EXISTS, m)
      else
        let m0 = (if gm_state m \<noteq> None then clearInternal config clk True m else m);
            s0 = \<lparr>gs_goalId = uuid, gs_objective = objective,
                  gs_completionCriterion = normalizeCompletionCriterion (ci_completionCriterion input),
                  gs_status = GActive, gs_turnsUsed = 0, gs_tokensUsed = 0, gs_wallClockMs = 0,
                  gs_wallClockResumedAt = Some (clk 0), gs_budgetLimits = no_limits, gs_terminalReason = None,
                  gs_terminalReasonCode = None, gs_terminalReasonDetail = None,
                  gs_evidence = createGoalEvidenceState\<rparr>;
            tiered = resolveTieredBudgetDefaults config objective (ci_sizeHint input);
            s = (case tiered of
                   None \<Rightarrow> s0
                 | Some b \<Rightarrow> s0\<lparr>gs_budgetLimits := merge_limits (gs_budgetLimits s0) b\<rparr>);
            m1 = persistState config (later 1 clk) (Some s) False None m0;
            m2 = logRecord (GoalCreate (gs_goalId s) (gs_objective s) (gs_completionCriterion s) actor) m1;
            m3 = (if tiered = None then m2
                  else appendGoalUpdate (empty_update\<lparr>ur_budgetLimits := Some (gs_budgetLimits s)\<rparr>) m2)
        in (Inr (toSnapshot config (later 4 clk) s), m3))"

text \<open>The common tail of \<open>pauseGoal\<close>, \<open>pauseActiveGoal\<close> and \<open>markBlocked\<close>: the four statements
  that stop an active goal.\<close>

definition stop_active ::
  "goal_config \<Rightarrow> clock_reads \<Rightarrow> goal_status \<Rightarrow> reason_input \<Rightarrow> goal_actor \<Rightarrow> goal_state \<Rightarrow> goal_mode
     \<Rightarrow> goal_snapshot \<times> goal_mode" where
  "stop_active config clk status input actor s m =
     (let s' = applyTerminalReason input (applyStatus (clk 0) status s);
          m1 = persistState config (later 1 clk) (Some s') False (Some (Lifecycle status input (Some actor))) m
      in (toSnapshot config (later 5 clk) s', appendStatusUpdate (clk 4) s' actor input m1))"

definition pauseGoal ::
  "goal_config \<Rightarrow> clock_reads \<Rightarrow> reason_input \<Rightarrow> goal_actor \<Rightarrow> goal_mode \<Rightarrow> (goal_error + goal_snapshot) \<times> goal_mode" where
  "pauseGoal config clk input actor m =
     (case gm_state m of
        None \<Rightarrow> (Inl GOAL_NOT_FOUND, m)
      | Some s \<Rightarrow>
          if gs_status s = GPaused then (Inr (toSnapshot config clk s), m)
          else if gs_status s \<noteq> GActive then (Inl (GOAL_STATUS_INVALID (gs_status s)), m)
          else apfst Inr (stop_active config clk GPaused input actor s m))"

definition pauseActiveGoal ::
  "goal_config \<Rightarrow> clock_reads \<Rightarrow> reason_input \<Rightarrow> goal_actor \<Rightarrow> goal_mode \<Rightarrow> goal_snapshot option \<times> goal_mode" where
  "pauseActiveGoal config clk input actor m =
     (case gm_state m of
        None \<Rightarrow> (None, m)
      | Some s \<Rightarrow>
          if gs_status s \<noteq> GActive then (None, m)
          else apfst Some (stop_active config clk GPaused input actor s m))"

definition resumeGoal ::
  "goal_config \<Rightarrow> clock_reads \<Rightarrow> reason_input \<Rightarrow> goal_actor \<Rightarrow> goal_mode \<Rightarrow> (goal_error + goal_snapshot) \<times> goal_mode" where
  "resumeGoal config clk input actor m =
     (case gm_state m of
        None \<Rightarrow> (Inl GOAL_NOT_FOUND, m)
      | Some s \<Rightarrow>
          if gs_status s = GActive then (Inr (toSnapshot config clk s), m)
          else if gs_status s \<noteq> GPaused \<and> gs_status s \<noteq> GBlocked
            then (Inl (GOAL_NOT_RESUMABLE (gs_status s)), m)
          else
            let s' = applyStatus (clk 0) GActive (applyTerminalReason no_reason s);
                change = Lifecycle GActive (no_reason\<lparr>ri_reason := ri_reason input\<rparr>) (Some actor);
                m1 = persistState config (later 1 clk) (Some s') False (Some change) m
            in (Inr (toSnapshot config (later 5 clk) s'), appendStatusUpdate (clk 4) s' actor input m1))"

definition setBudgetLimits ::
  "goal_config \<Rightarrow> clock_reads \<Rightarrow> budget_limits \<Rightarrow> goal_actor \<Rightarrow> goal_mode \<Rightarrow> (goal_error + goal_snapshot) \<times> goal_mode" where
  "setBudgetLimits config clk limits actor m =
     (case gm_state m of
        None \<Rightarrow> (Inl GOAL_NOT_FOUND, m)
      | Some s \<Rightarrow>
          let s' = s\<lparr>gs_budgetLimits := merge_limits (gs_budgetLimits s) limits\<rparr>;
              m1 = persistState config clk (Some s') False None m
          in (Inr (toSnapshot config (later 3 clk) s'),
              appendGoalUpdate (empty_update\<lparr>ur_budgetLimits := Some (gs_budgetLimits s'),
                                              ur_actor := Some actor\<rparr>) m1))"

definition cancelGoal ::
  "goal_config \<Rightarrow> clock_reads \<Rightarrow> goal_actor \<Rightarrow> goal_mode \<Rightarrow> (goal_error + goal_snapshot) \<times> goal_mode" where
  "cancelGoal config clk actor m =
     (case gm_state m of
        None \<Rightarrow> (Inl GOAL_NOT_FOUND, m)
      | Some s \<Rightarrow>
          let m1 = clearInternal config clk True m
          in (Inr (toSnapshot config clk s),
              if actor = UserActor then appendSystemReminder GOAL_CANCELLED_REMINDER m1 else m1))"

definition markBlocked ::
  "goal_config \<Rightarrow> clock_reads \<Rightarrow> reason_input \<Rightarrow> goal_actor \<Rightarrow> goal_mode \<Rightarrow> goal_snapshot option \<times> goal_mode" where
  "markBlocked config clk input actor m =
     (case gm_state m of
        None \<Rightarrow> (None, m)
      | Some s \<Rightarrow>
          if gs_status s \<noteq> GActive then (None, m)
          else apfst Some (stop_active config clk GBlocked input actor s m))"

text \<open>The source mutates the state object in place, so \<open>this.state\<close> already is the completed
  state while the update is logged and announced; then it is cleared.\<close>

definition markComplete ::
  "goal_config \<Rightarrow> clock_reads \<Rightarrow> reason_input \<Rightarrow> goal_actor \<Rightarrow> goal_mode \<Rightarrow> goal_snapshot option \<times> goal_mode" where
  "markComplete config clk input actor m =
     (case gm_state m of
        None \<Rightarrow> (None, m)
      | Some s \<Rightarrow>
          if gs_status s \<noteq> GActive then (None, m)
          else
            let s' = applyTerminalReason input (applyStatus (clk 0) GComplete s);
                snapshot = toSnapshot config (later 1 clk) s';
                m1 = appendStatusUpdate (clk 4) s' actor input (m\<lparr>gm_state := Some s'\<rparr>);
                m2 = emitGoalUpdated (Some snapshot)
                       (Some (Completion GComplete (no_reason\<lparr>ri_reason := ri_reason input\<rparr>)
                                (statsOf (clk 5) s') (Some actor))) m1
            in (Some snapshot, clearInternal config clk True m2))"

definition pauseOnInterrupt ::
  "goal_config \<Rightarrow> clock_reads \<Rightarrow> reason_input \<Rightarrow> goal_mode \<Rightarrow> goal_snapshot option \<times> goal_mode" where
  "pauseOnInterrupt config clk input = pauseActiveGoal config clk input UserActor"

section \<open>Accounting\<close>

definition recordTokenUsage :: "goal_config \<Rightarrow> clock_reads \<Rightarrow> int \<Rightarrow> goal_mode \<Rightarrow> goal_snapshot option \<times> goal_mode" where
  "recordTokenUsage config clk tokenDelta m =
     (case gm_state m of
        None \<Rightarrow> (None, m)
      | Some s \<Rightarrow>
          if gs_status s \<noteq> GActive then (None, m)
          else let s' = s\<lparr>gs_tokensUsed := gs_tokensUsed s + max 0 tokenDelta\<rparr>
               in (Some (toSnapshot config clk s'),
                   appendGoalUpdate (empty_update\<lparr>ur_tokensUsed := Some (gs_tokensUsed s')\<rparr>)
                     (persistState config clk (Some s') True None m)))"

definition incrementTurn :: "goal_config \<Rightarrow> clock_reads \<Rightarrow> goal_mode \<Rightarrow> goal_snapshot option \<times> goal_mode" where
  "incrementTurn config clk m =
     (case gm_state m of
        None \<Rightarrow> (None, m)
      | Some s \<Rightarrow>
          if gs_status s \<noteq> GActive then (None, m)
          else let s' = s\<lparr>gs_turnsUsed := gs_turnsUsed s + 1\<rparr>
               in (Some (toSnapshot config (later 3 clk) s'),
                   appendGoalUpdate (empty_update\<lparr>ur_turnsUsed := Some (gs_turnsUsed s')\<rparr>)
                     (persistState config clk (Some s') False None m)))"

section \<open>Evidence\<close>

record evidence_input =
  ei_receiptId :: string
  ei_toolName :: string
  ei_turnId :: int
  ei_step :: int
  ei_ok :: bool
  ei_summary :: string

definition capture_receipt :: "int \<Rightarrow> int \<Rightarrow> evidence_input \<Rightarrow> evidence_state \<Rightarrow> evidence_state" where
  "capture_receipt now turnsUsed input ev =
     (let pending = (if ev_pendingReceiptIds ev \<noteq> []
                        \<and> (ev_pendingTurnId ev \<noteq> ei_turnId input \<or> ev_pendingStep ev \<noteq> ei_step input)
                     then [] else ev_pendingReceiptIds ev);
          receipts = (if length (ev_receipts ev) \<ge> MAX_GOAL_EVIDENCE_RECEIPTS
                      then (case jm_keys (ev_receipts ev) of
                              [] \<Rightarrow> ev_receipts ev
                            | oldest # _ \<Rightarrow> jm_delete (ev_receipts ev) oldest)
                      else ev_receipts ev)
      in ev\<lparr>ev_pendingTurnId := ei_turnId input, ev_pendingStep := ei_step input,
            ev_pendingReceiptIds := pending @ [ei_receiptId input],
            ev_receipts := jm_set receipts (ei_receiptId input)
              \<lparr>rc_receiptId = ei_receiptId input, rc_toolName = ei_toolName input, rc_turnId = ei_turnId input,
               rc_capturedAtMs = now, rc_goalTurnAtCapture = turnsUsed,
               rc_mutationIndexAtCapture = ev_toolMutationIndex ev, rc_treeAtCapture = None,
               rc_ok = ei_ok input, rc_summary = ei_summary input\<rparr>\<rparr>)"

definition recordEvidence :: "clock_reads \<Rightarrow> evidence_input \<Rightarrow> goal_mode \<Rightarrow> goal_mode" where
  "recordEvidence clk input m =
     (case gm_state m of
        None \<Rightarrow> m
      | Some s \<Rightarrow>
          if gs_status s \<noteq> GActive then m
          else m\<lparr>gm_state := Some (s\<lparr>gs_evidence := capture_receipt (clk 0) (gs_turnsUsed s) input (gs_evidence s)\<rparr>)\<rparr>)"

definition recordMutation :: "goal_mode \<Rightarrow> goal_mode" where
  "recordMutation m =
     (case gm_state m of
        None \<Rightarrow> m
      | Some s \<Rightarrow>
          if gs_status s \<noteq> GActive then m
          else m\<lparr>gm_state := Some (s\<lparr>gs_evidence := (gs_evidence s)
                   \<lparr>ev_toolMutationIndex := ev_toolMutationIndex (gs_evidence s) + 1,
                    ev_lastMutationGoalTurn := Some (gs_turnsUsed s)\<rparr>\<rparr>)\<rparr>)"

text \<open>\<open>receipt.treeAtCapture = tree\<close> on each pending receipt that is still in the ledger.\<close>

fun stamp_loop :: "string \<Rightarrow> string list \<Rightarrow> (string, evidence_receipt) js_map \<Rightarrow> (string, evidence_receipt) js_map" where
  "stamp_loop tree [] rs = rs"
| "stamp_loop tree (i # is) rs =
     stamp_loop tree is (case jm_get rs i of
                           None \<Rightarrow> rs
                         | Some r \<Rightarrow> jm_set rs i (r\<lparr>rc_treeAtCapture := Some tree\<rparr>))"

definition stamp_evidence :: "string option \<Rightarrow> int \<Rightarrow> int \<Rightarrow> evidence_state \<Rightarrow> evidence_state" where
  "stamp_evidence tree turnId step ev =
     (let ev1 = (if tree \<noteq> None then ev\<lparr>ev_latestTree := tree\<rparr> else ev) in
      if ev_pendingReceiptIds ev1 = [] then ev1
      else let ev2 = ev1\<lparr>ev_pendingReceiptIds := []\<rparr> in
        (case tree of
           None \<Rightarrow> ev2
         | Some t \<Rightarrow>
             if ev_pendingTurnId ev2 \<noteq> turnId \<or> ev_pendingStep ev2 \<noteq> step then ev2
             else ev2\<lparr>ev_receipts := stamp_loop t (ev_pendingReceiptIds ev1) (ev_receipts ev2)\<rparr>))"

definition stampReceiptTrees :: "string option \<Rightarrow> int \<Rightarrow> int \<Rightarrow> goal_mode \<Rightarrow> goal_mode" where
  "stampReceiptTrees tree turnId step m =
     (case gm_state m of
        None \<Rightarrow> m
      | Some s \<Rightarrow> m\<lparr>gm_state := Some (s\<lparr>gs_evidence := stamp_evidence tree turnId step (gs_evidence s)\<rparr>)\<rparr>)"

definition getEvidenceReceipts :: "goal_mode \<Rightarrow> evidence_receipt list" where
  "getEvidenceReceipts m =
     (case gm_state m of None \<Rightarrow> [] | Some s \<Rightarrow> map snd (ev_receipts (gs_evidence s)))"

definition getMutationState :: "goal_mode \<Rightarrow> nat \<times> int option" where
  "getMutationState m =
     (case gm_state m of
        None \<Rightarrow> (0, None)
      | Some s \<Rightarrow> (ev_toolMutationIndex (gs_evidence s), ev_lastMutationGoalTurn (gs_evidence s)))"

definition unknown_receipt :: "string \<Rightarrow> rejection" where
  "unknown_receipt receiptId = \<lparr>rj_receiptId = receiptId, rj_code = Unknown_receipt,
     rj_reason = ''Receipt '' @ quoted receiptId @ '' is not in the goal evidence ledger ''
       @ ''(it may be evicted, mistyped, or from before a restart).''\<rparr>"

text \<open>The loop over the cited ids: \<open>None\<close> when a receipt passes, otherwise all rejections.\<close>

fun gate_loop :: "gate_check \<Rightarrow> (string, evidence_receipt) js_map \<Rightarrow> rejection list \<Rightarrow> string list
    \<Rightarrow> rejection list option" where
  "gate_loop check rs acc [] = Some acc"
| "gate_loop check rs acc (i # is) =
     (case jm_get rs i of
        None \<Rightarrow> gate_loop check rs (acc @ [unknown_receipt i]) is
      | Some r \<Rightarrow>
          (case checkGateReceipt r check of
             None \<Rightarrow> None
           | Some code \<Rightarrow>
               gate_loop check rs
                 (acc @ [\<lparr>rj_receiptId = i, rj_code = code, rj_reason = gateRejectionReason r code check\<rparr>]) is))"

definition evaluateCompletionGate ::
  "goal_config \<Rightarrow> clock_reads \<Rightarrow> string list \<Rightarrow> goal_mode \<Rightarrow> gate_verdict" where
  "evaluateCompletionGate config clk citedIds m =
     (case gm_state m of
        None \<Rightarrow> allowCompletionGate Inactive
      | Some s \<Rightarrow>
          let gate = completionGateConfig config;
              check = gateCheckContext s (gg_leaseTurns gate) (gg_leaseMs gate) (clk 0);
              usable = listUsableGateReceipts s check
          in if gs_status s \<noteq> GActive then allowCompletionGate Inactive
             else if \<not> gg_enabled gate then allowCompletionGate Gate_disabled
             else if \<not> completionGateEnforced s then allowCompletionGate Not_required
             else if citedIds = [] then
               \<lparr>vd_allowed = False, vd_basis = None, vd_reason = Some No_evidence, vd_rejections = [],
                vd_usableReceipts = usable\<rparr>
             else (case gate_loop check (ev_receipts (gs_evidence s)) [] citedIds of
                     None \<Rightarrow> \<lparr>vd_allowed = True, vd_basis = Some Evidence_passed, vd_reason = None,
                               vd_rejections = [], vd_usableReceipts = usable\<rparr>
                   | Some rejections \<Rightarrow>
                       \<lparr>vd_allowed = False, vd_basis = None,
                        vd_reason = Some (case rejections of [] \<Rightarrow> No_evidence | r # _ \<Rightarrow> rj_code r),
                        vd_rejections = rejections, vd_usableReceipts = usable\<rparr>))"

section \<open>The \<open>UpdateGoal\<close> tool\<close>

text \<open>What \<open>UpdateGoalTool\<close> returns; the prompt texts built from a verdict or a snapshot are left
  to their builders. \<open>currentGoal\<close> is the snapshot read when the call was resolved.\<close>

datatype update_status = SetActive | SetComplete | SetBlocked

datatype update_outcome =
    Goal_not_resumed | Goal_resumed | Resume_threw goal_error
  | Gate_rejected gate_verdict | Goal_not_completed | Goal_completed goal_snapshot
  | Goal_not_blocked | Goal_blocked goal_snapshot

definition updateGoal_execute ::
  "goal_config \<Rightarrow> clock_reads \<Rightarrow> update_status \<Rightarrow> string list option \<Rightarrow> goal_snapshot option \<Rightarrow> goal_mode
     \<Rightarrow> update_outcome \<times> goal_mode" where
  "updateGoal_execute config clk status evidence currentGoal m =
     (case status of
        SetActive \<Rightarrow>
          if currentGoal = None then (Goal_not_resumed, m)
          else (case resumeGoal config clk no_reason ModelActor m of
                  (Inl e, m') \<Rightarrow> (Resume_threw e, m')
                | (Inr _, m') \<Rightarrow> (Goal_resumed, m'))
      | SetComplete \<Rightarrow>
          let verdict = evaluateCompletionGate config clk (opt_else evidence []) m in
          if \<not> vd_allowed verdict then (Gate_rejected verdict, m)
          else (case markComplete config (later 1 clk) no_reason ModelActor m of
                  (None, m') \<Rightarrow> (Goal_not_completed, m')
                | (Some sn, m') \<Rightarrow> (Goal_completed sn, m'))
      | SetBlocked \<Rightarrow>
          (case markBlocked config clk no_reason ModelActor m of
             (None, m') \<Rightarrow> (Goal_not_blocked, m')
           | (Some sn, m') \<Rightarrow> (Goal_blocked sn, m')))"

section \<open>Operations as a machine\<close>

text \<open>\<open>Agent.resume\<close>: the records of the log are replayed into a fresh \<open>GoalMode\<close> (while
  \<open>logRecord\<close> is gated), then the result is reconciled.\<close>

definition resume_agent :: "goal_config \<Rightarrow> clock_reads \<Rightarrow> goal_mode \<Rightarrow> goal_mode" where
  "resume_agent config clk m =
     normalizeAfterReplay config (later (4 * length (gm_records m)) clk) ((replay config clk (gm_records m) new_goal_mode)\<lparr>gm_records := gm_records m\<rparr>)"

datatype goal_op =
    CreateOp string create_input goal_actor
  | PauseOp reason_input goal_actor
  | PauseActiveOp reason_input goal_actor
  | InterruptOp reason_input
  | ResumeOp reason_input goal_actor
  | BudgetOp budget_limits goal_actor
  | CancelOp goal_actor
  | BlockOp reason_input goal_actor
  | CompleteOp reason_input goal_actor
  | UpdateOp update_status "string list option" "goal_snapshot option"
  | TokensOp int
  | TurnOp
  | EvidenceOp evidence_input
  | MutationOp
  | StampOp "string option" int int
  | RestartOp

fun goal_step :: "goal_config \<Rightarrow> goal_mode \<Rightarrow> clock_reads \<times> goal_op \<Rightarrow> goal_mode" where
  "goal_step c m (clk, CreateOp i inp a) = snd (createGoal c clk i inp a m)"
| "goal_step c m (clk, PauseOp r a) = snd (pauseGoal c clk r a m)"
| "goal_step c m (clk, PauseActiveOp r a) = snd (pauseActiveGoal c clk r a m)"
| "goal_step c m (clk, InterruptOp r) = snd (pauseOnInterrupt c clk r m)"
| "goal_step c m (clk, ResumeOp r a) = snd (resumeGoal c clk r a m)"
| "goal_step c m (clk, BudgetOp b a) = snd (setBudgetLimits c clk b a m)"
| "goal_step c m (clk, CancelOp a) = snd (cancelGoal c clk a m)"
| "goal_step c m (clk, BlockOp r a) = snd (markBlocked c clk r a m)"
| "goal_step c m (clk, CompleteOp r a) = snd (markComplete c clk r a m)"
| "goal_step c m (clk, UpdateOp st e g) = snd (updateGoal_execute c clk st e g m)"
| "goal_step c m (clk, TokensOp n) = snd (recordTokenUsage c clk n m)"
| "goal_step c m (clk, TurnOp) = snd (incrementTurn c clk m)"
| "goal_step c m (clk, EvidenceOp i) = recordEvidence clk i m"
| "goal_step c m (clk, MutationOp) = recordMutation m"
| "goal_step c m (clk, StampOp t n k) = stampReceiptTrees t n k m"
| "goal_step c m (clk, RestartOp) = resume_agent c clk m"

abbreviation goal_run :: "goal_config \<Rightarrow> (clock_reads \<times> goal_op) list \<Rightarrow> goal_mode" where
  "goal_run c ops \<equiv> run_ops (goal_step c) new_goal_mode ops"

section \<open>Invariant\<close>

definition receipt_ok :: "int \<Rightarrow> nat \<Rightarrow> string \<times> evidence_receipt \<Rightarrow> bool" where
  "receipt_ok turnsUsed idx = (\<lambda>(k, r). rc_receiptId r = k \<and> rc_mutationIndexAtCapture r \<le> idx
     \<and> rc_goalTurnAtCapture r \<le> turnsUsed)"

definition evidence_ok :: "int \<Rightarrow> evidence_state \<Rightarrow> bool" where
  "evidence_ok turnsUsed ev \<longleftrightarrow> jm_ok (ev_receipts ev)
     \<and> length (ev_receipts ev) \<le> MAX_GOAL_EVIDENCE_RECEIPTS
     \<and> list_all (receipt_ok turnsUsed (ev_toolMutationIndex ev)) (ev_receipts ev)"

definition goal_ok :: "goal_state \<Rightarrow> bool" where
  "goal_ok s \<longleftrightarrow> gs_status s \<noteq> GComplete
     \<and> (gs_wallClockResumedAt s \<noteq> None \<longleftrightarrow> gs_status s = GActive)
     \<and> 0 \<le> gs_turnsUsed s \<and> 0 \<le> gs_tokensUsed s \<and> 0 \<le> gs_wallClockMs s
     \<and> (gs_status s = GActive \<longrightarrow> gs_terminalReason s = None \<and> gs_terminalReasonCode s = None
          \<and> gs_terminalReasonDetail s = None)
     \<and> evidence_ok (gs_turnsUsed s) (gs_evidence s)"

text \<open>What the record log keeps of a goal: everything but the running wall-clock interval and the
  (memory-only) evidence ledger; the accumulated time is the logged one, \<open>w\<close>.\<close>

definition durable_at :: "int \<Rightarrow> goal_state \<Rightarrow> goal_state" where
  "durable_at w s = s\<lparr>gs_wallClockMs := w, gs_wallClockResumedAt := None, gs_evidence := createGoalEvidenceState\<rparr>"

text \<open>The logged time is the state's, except after a resume: \<open>applyStatus\<close> reads the clock to
  start the interval and \<open>appendStatusUpdate\<close> reads it again for the record. \<open>C\<close> holds the readings
  of the operations performed so far.\<close>

definition time_ok :: "clock_reads set \<Rightarrow> goal_state \<Rightarrow> int \<Rightarrow> bool" where
  "time_ok C s w \<longleftrightarrow> w = gs_wallClockMs s \<or> gs_status s = GActive \<and>
     (\<exists>clk\<in>C. gs_wallClockResumedAt s = Some (clk 0) \<and> w = gs_wallClockMs s + max 0 (clk 4 - clk 0))"

text \<open>The fold that \<open>replay\<close> performs on the state alone.\<close>

fun restore_state :: "goal_record \<Rightarrow> goal_state option \<Rightarrow> goal_state option" where
  "restore_state (GoalCreate i ob c a) s =
     Some \<lparr>gs_goalId = i, gs_objective = ob, gs_completionCriterion = c,
       gs_status = GActive, gs_turnsUsed = 0, gs_tokensUsed = 0, gs_wallClockMs = 0,
       gs_wallClockResumedAt = None, gs_budgetLimits = no_limits, gs_terminalReason = None,
       gs_terminalReasonCode = None, gs_terminalReasonDetail = None, gs_evidence = createGoalEvidenceState\<rparr>"
| "restore_state (GoalUpdate u) s = map_option (restore_fields u) s"
| "restore_state GoalClear s = None"
| "restore_state Forked s = None"

lemma gm_state_restore: "gm_state (restoreAgentRecord c t r m) = restore_state r (gm_state m)"
  by (cases r) (auto simp: restoreCreate_def restoreUpdate_def restoreClear_def restoreForked_def
      appendSystemReminder_def Let_def split: option.splits)

lemma gm_state_replay: "gm_state (replay c t rs m) = fold restore_state rs (gm_state m)"
  by (induction c t rs m rule: replay.induct) (simp_all add: gm_state_restore)

lemma replay_new: "gm_state (replay c t rs new_goal_mode) = fold restore_state rs None"
  by (simp add: gm_state_replay new_goal_mode_def)

text \<open>The log says the same as the live state.\<close>

definition in_sync :: "clock_reads set \<Rightarrow> goal_mode \<Rightarrow> bool" where
  "in_sync C m \<longleftrightarrow>
     (case gm_state m of
        None \<Rightarrow> fold restore_state (gm_records m) None = None
      | Some s \<Rightarrow> \<exists>w. fold restore_state (gm_records m) None = Some (durable_at w s) \<and> time_ok C s w)"

definition goal_mode_ok :: "clock_reads set \<Rightarrow> goal_mode \<Rightarrow> bool" where
  "goal_mode_ok C m \<longleftrightarrow> pred_option goal_ok (gm_state m) \<and> in_sync C m"

lemma in_sync_None: "gm_state m = None \<Longrightarrow> in_sync C m \<longleftrightarrow> fold restore_state (gm_records m) None = None"
  by (simp add: in_sync_def)

lemma in_sync_SomeE:
  assumes "in_sync C m" "gm_state m = Some s"
  obtains w where "fold restore_state (gm_records m) None = Some (durable_at w s)" "time_ok C s w"
  using assms by (auto simp: in_sync_def)

text \<open>One logged update on top of a log in sync.\<close>

lemma in_sync_update:
  assumes "in_sync C m" "gm_state m = Some s"
    "\<And>w. time_ok C s w \<Longrightarrow> \<exists>w'. restore_fields u (durable_at w s) = durable_at w' s' \<and> time_ok C s' w'"
    "gm_records m' = gm_records m @ [GoalUpdate u]" "gm_state m' = Some s'"
  shows "in_sync C m'"
proof -
  obtain w where "fold restore_state (gm_records m) None = Some (durable_at w s)" "time_ok C s w"
    using assms(1,2) by (rule in_sync_SomeE)
  then show ?thesis
    using assms(3) [of w] assms(4,5) by (auto simp: in_sync_def)
qed

lemma in_sync_same:
  assumes "in_sync C m" "gm_state m = Some s" "\<And>w. durable_at w s' = durable_at w s"
    "\<And>w. time_ok C s w \<Longrightarrow> time_ok C s' w" "gm_records m' = gm_records m" "gm_state m' = Some s'"
  shows "in_sync C m'"
  using assms by (auto simp: in_sync_def)

lemmas goal_effects = persistState_def emitGoalUpdated_def logRecord_def appendGoalUpdate_def
  appendStatusUpdate_def clearInternal_def appendSystemReminder_def Let_def

text \<open>Stopping an active goal and restarting a stopped one.\<close>

lemma durable_stop:
  assumes "status \<noteq> GActive" "gs_status s = GActive"
  shows "restore_fields (empty_update\<lparr>ur_status := Some status, ur_reason := i,
      ur_wallClockMs := Some (liveWallClockMs (applyTerminalReason i (applyStatus now status s)) now'),
      ur_actor := Some a\<rparr>) (durable_at w s)
    = durable_at (gs_wallClockMs (applyTerminalReason i (applyStatus now status s)))
        (applyTerminalReason i (applyStatus now status s))"
  using assms by (auto simp: durable_at_def applyTerminalReason_def applyStatus_def restore_fields_def
      empty_update_def liveWallClockMs_def Let_def split: option.splits)

lemma durable_resume:
  assumes "gs_status s \<noteq> GActive"
  shows "restore_fields (empty_update\<lparr>ur_status := Some GActive, ur_reason := i,
      ur_wallClockMs := Some (liveWallClockMs (applyStatus now GActive (applyTerminalReason no_reason s)) now'),
      ur_actor := Some a\<rparr>) (durable_at w s)
    = durable_at (gs_wallClockMs s + max 0 (now' - now)) (applyStatus now GActive (applyTerminalReason no_reason s))"
  using assms by (auto simp: durable_at_def applyTerminalReason_def applyStatus_def restore_fields_def
      empty_update_def liveWallClockMs_def Let_def split: option.splits)

lemma time_ok_resume:
  assumes "gs_status s \<noteq> GActive" "clk \<in> C"
  shows "time_ok C (applyStatus (clk 0) GActive (applyTerminalReason no_reason s))
    (gs_wallClockMs s + max 0 (clk 4 - clk 0))"
  using assms by (auto simp: time_ok_def applyStatus_def applyTerminalReason_def Let_def split: option.splits)

lemma goal_ok_stop:
  "goal_ok s \<Longrightarrow> gs_status s = GActive \<Longrightarrow> status \<in> {GPaused, GBlocked} \<Longrightarrow>
   goal_ok (applyTerminalReason i (applyStatus now status s))"
  by (auto simp: goal_ok_def applyTerminalReason_def applyStatus_def Let_def split: option.splits)

lemma goal_ok_resume:
  "goal_ok s \<Longrightarrow> gs_status s \<noteq> GActive \<Longrightarrow> goal_ok (applyStatus now GActive (applyTerminalReason no_reason s))"
  by (auto simp: goal_ok_def applyTerminalReason_def applyStatus_def no_reason_def Let_def split: option.splits)

lemma stop_active_ok:
  assumes "goal_mode_ok C m" "gm_state m = Some s" "gs_status s = GActive" "status \<in> {GPaused, GBlocked}"
  shows "goal_mode_ok C (snd (stop_active c clk status i a s m))"
proof -
  let ?s = "applyTerminalReason i (applyStatus (clk 0) status s)"
  have na: "status \<noteq> GActive" using assms(4) by auto
  have "in_sync C (snd (stop_active c clk status i a s m))"
  proof (rule in_sync_update [OF _ assms(2)])
    show "\<exists>w'. restore_fields (empty_update\<lparr>ur_status := Some status, ur_reason := i,
        ur_wallClockMs := Some (liveWallClockMs ?s (clk 4)), ur_actor := Some a\<rparr>) (durable_at w s)
      = durable_at w' ?s \<and> time_ok C ?s w'" for w
      using durable_stop [OF na assms(3)] by (auto simp: time_ok_def)
  qed (use assms in \<open>auto simp: goal_mode_ok_def stop_active_def goal_effects applyTerminalReason_def applyStatus_def\<close>)
  moreover have "gm_state (snd (stop_active c clk status i a s m)) = Some ?s"
    by (simp add: stop_active_def goal_effects)
  ultimately show ?thesis
    using assms goal_ok_stop [of s status i "clk 0"] by (auto simp: goal_mode_ok_def)
qed

lemma clear_ok: "goal_mode_ok C m \<Longrightarrow> goal_mode_ok C (clearInternal c clk e m)"
  by (auto simp: goal_mode_ok_def clearInternal_def persistState_def emitGoalUpdated_def logRecord_def Let_def in_sync_None
      split: option.splits)

lemma clearInternal_state [simp]: "gm_state (clearInternal c clk e m) = None"
  by (auto simp: goal_effects split: option.splits)

lemma create_ok:
  assumes "goal_mode_ok C m"
  shows "goal_mode_ok C (snd (createGoal c clk uuid inp a m))"
proof (cases "snd (createGoal c clk uuid inp a m) = m")
  case False
  have inp: "trim (ci_objective inp) \<noteq> []" "\<not> length (trim (ci_objective inp)) > MAX_GOAL_OBJECTIVE_LENGTH"
    "gm_state m \<noteq> None \<Longrightarrow> ci_replace inp"
    by (rule notI, use False in \<open>simp add: createGoal_def Let_def\<close>)+
      (rule ccontr, use False in \<open>simp add: createGoal_def Let_def\<close>)
  show ?thesis
    by (cases "gm_state m = None"; cases "resolveTieredBudgetDefaults c (trim (ci_objective inp)) (ci_sizeHint inp)")
      (use assms inp in \<open>auto simp: createGoal_def goal_effects goal_ok_def evidence_ok_def createGoalEvidenceState_def
        jm_ok_def in_sync_def durable_at_def time_ok_def goal_mode_ok_def restore_fields_def empty_update_def\<close>)
qed (use assms in simp)

lemma pause_ok: "goal_mode_ok C m \<Longrightarrow> goal_mode_ok C (snd (pauseGoal c clk i a m))"
  by (auto simp: pauseGoal_def stop_active_ok split: option.splits)

lemma pauseActive_ok: "goal_mode_ok C m \<Longrightarrow> goal_mode_ok C (snd (pauseActiveGoal c clk i a m))"
  by (auto simp: pauseActiveGoal_def stop_active_ok split: option.splits)

lemma block_ok: "goal_mode_ok C m \<Longrightarrow> goal_mode_ok C (snd (markBlocked c clk i a m))"
  by (auto simp: markBlocked_def stop_active_ok split: option.splits)

lemma resume_ok:
  assumes "goal_mode_ok C m" "clk \<in> C"
  shows "goal_mode_ok C (snd (resumeGoal c clk i a m))"
proof (cases "snd (resumeGoal c clk i a m) = m")
  case False
  then obtain s where s: "gm_state m = Some s" "gs_status s \<noteq> GActive" "gs_status s = GPaused \<or> gs_status s = GBlocked"
    by (auto simp: resumeGoal_def split: option.splits if_splits)
  let ?s = "applyStatus (clk 0) GActive (applyTerminalReason no_reason s)"
  have st: "gm_state (snd (resumeGoal c clk i a m)) = Some ?s"
    using s by (auto simp: resumeGoal_def goal_effects)
  have "in_sync C (snd (resumeGoal c clk i a m))"
  proof (rule in_sync_update [OF _ s(1)])
    show "\<exists>w'. restore_fields (empty_update\<lparr>ur_status := Some GActive, ur_reason := i,
        ur_wallClockMs := Some (liveWallClockMs ?s (clk 4)), ur_actor := Some a\<rparr>) (durable_at w s)
      = durable_at w' ?s \<and> time_ok C ?s w'" for w
      using durable_resume [OF s(2)] time_ok_resume [OF s(2) assms(2)] by blast
  qed (use assms s in \<open>auto simp: goal_mode_ok_def resumeGoal_def goal_effects applyStatus_def\<close>)
  then show ?thesis
    using assms s st goal_ok_resume [of s "clk 0"] by (auto simp: goal_mode_ok_def)
qed (use assms in simp)

text \<open>Updates that log one changed counter or limit.\<close>

lemma in_sync_fieldI:
  assumes "goal_mode_ok C m" "gm_state m = Some s" "goal_ok s'"
    "\<And>w. restore_fields u (durable_at w s) = durable_at w s'" "\<And>w. time_ok C s w \<Longrightarrow> time_ok C s' w"
    "gm_records m' = gm_records m @ [GoalUpdate u]" "gm_state m' = Some s'"
  shows "goal_mode_ok C m'"
proof -
  have "in_sync C m'"
    by (rule in_sync_update [OF _ assms(2) _ assms(6,7)]) (use assms(1,4,5) in \<open>auto simp: goal_mode_ok_def\<close>)
  then show ?thesis
    using assms(3,7) by (simp add: goal_mode_ok_def)
qed

lemma goal_ok_of: "goal_mode_ok C m \<Longrightarrow> gm_state m = Some s \<Longrightarrow> goal_ok s"
  by (simp add: goal_mode_ok_def)

lemma evidence_ok_mono: "evidence_ok n ev \<Longrightarrow> n \<le> n' \<Longrightarrow> evidence_ok n' ev"
  by (auto simp: evidence_ok_def receipt_ok_def list_all_iff)

lemma budget_ok:
  assumes "goal_mode_ok C m"
  shows "goal_mode_ok C (snd (setBudgetLimits c clk b a m))"
proof (cases "gm_state m")
  case (Some s)
  show ?thesis
    by (rule in_sync_fieldI [OF assms Some,
          where s' = "s\<lparr>gs_budgetLimits := merge_limits (gs_budgetLimits s) b\<rparr>"
            and u = "empty_update\<lparr>ur_budgetLimits := Some (merge_limits (gs_budgetLimits s) b), ur_actor := Some a\<rparr>"])
      (use goal_ok_of [OF assms Some] in \<open>auto simp: Some setBudgetLimits_def goal_effects goal_ok_def durable_at_def time_ok_def
        restore_fields_def empty_update_def\<close>)
qed (use assms in \<open>simp add: setBudgetLimits_def\<close>)

lemma tokens_ok:
  assumes "goal_mode_ok C m"
  shows "goal_mode_ok C (snd (recordTokenUsage c clk n m))"
proof (cases "gm_state m")
  case (Some s)
  show ?thesis
  proof (cases "gs_status s = GActive")
    case True
    show ?thesis
      by (rule in_sync_fieldI [OF assms Some,
            where s' = "s\<lparr>gs_tokensUsed := gs_tokensUsed s + max 0 n\<rparr>"
              and u = "empty_update\<lparr>ur_tokensUsed := Some (gs_tokensUsed s + max 0 n)\<rparr>"])
        (use True goal_ok_of [OF assms Some] in \<open>auto simp: Some recordTokenUsage_def goal_effects goal_ok_def durable_at_def time_ok_def
          restore_fields_def empty_update_def\<close>)
  qed (use assms Some in \<open>simp add: recordTokenUsage_def\<close>)
qed (use assms in \<open>simp add: recordTokenUsage_def\<close>)

lemma turn_ok:
  assumes "goal_mode_ok C m"
  shows "goal_mode_ok C (snd (incrementTurn c clk m))"
proof (cases "gm_state m")
  case (Some s)
  show ?thesis
  proof (cases "gs_status s = GActive")
    case True
    have ok: "goal_ok (s\<lparr>gs_turnsUsed := gs_turnsUsed s + 1\<rparr>)"
      using goal_ok_of [OF assms Some] evidence_ok_mono [of "gs_turnsUsed s" "gs_evidence s" "gs_turnsUsed s + 1"]
      by (simp add: goal_ok_def)
    show ?thesis
      by (rule in_sync_fieldI [OF assms Some ok, where u = "empty_update\<lparr>ur_turnsUsed := Some (gs_turnsUsed s + 1)\<rparr>"])
        (simp_all add: True Some incrementTurn_def goal_effects durable_at_def time_ok_def restore_fields_def empty_update_def)
  qed (use assms Some in \<open>simp add: incrementTurn_def\<close>)
qed (use assms in \<open>simp add: incrementTurn_def\<close>)

lemma complete_ok: "goal_mode_ok C m \<Longrightarrow> goal_mode_ok C (snd (markComplete c clk i a m))"
  by (auto simp: markComplete_def goal_effects goal_mode_ok_def in_sync_def split: option.splits)

lemma cancel_ok:
  assumes "goal_mode_ok C m"
  shows "goal_mode_ok C (snd (cancelGoal c clk a m))"
proof -
  have "goal_mode_ok C (clearInternal c clk True m)" by (rule clear_ok [OF assms])
  then show ?thesis
    using assms by (auto simp: cancelGoal_def Let_def goal_mode_ok_def in_sync_def appendSystemReminder_def split: option.splits)
qed

lemma update_ok: "goal_mode_ok C m \<Longrightarrow> clk \<in> C \<Longrightarrow> goal_mode_ok C (snd (updateGoal_execute c clk st e g m))"
  using resume_ok [of C m clk c no_reason ModelActor] complete_ok [of C m c "later 1 clk" no_reason ModelActor]
    block_ok [of C m c clk no_reason ModelActor]
  by (auto simp: updateGoal_execute_def Let_def split: update_status.split prod.splits sum.split option.split)

text \<open>The evidence operations touch the ledger only.\<close>

lemma evidence_only_ok:
  assumes "goal_mode_ok C m" "gm_state m = Some s" "evidence_ok (gs_turnsUsed s) ev"
  shows "goal_mode_ok C (m\<lparr>gm_state := Some (s\<lparr>gs_evidence := ev\<rparr>)\<rparr>)"
  using assms in_sync_same [OF _ assms(2), of C "s\<lparr>gs_evidence := ev\<rparr>" "m\<lparr>gm_state := Some (s\<lparr>gs_evidence := ev\<rparr>)\<rparr>"]
  by (simp add: goal_mode_ok_def goal_ok_def durable_at_def time_ok_def)

lemma stamp_loop_props:
  "jm_ok rs \<Longrightarrow> list_all (receipt_ok n idx) rs \<Longrightarrow>
   jm_ok (stamp_loop t is rs) \<and> length (stamp_loop t is rs) = length rs
   \<and> list_all (receipt_ok n idx) (stamp_loop t is rs)"
proof (induction t "is" rs rule: stamp_loop.induct)
  case (2 tree i "is" rs)
  show ?case
  proof (cases "jm_get rs i")
    case (Some r)
    let ?rs = "jm_set rs i (r\<lparr>rc_treeAtCapture := Some tree\<rparr>)"
    have "receipt_ok n idx (i, r)"
      using 2(3) jm_get_in_set [OF Some] by (auto simp: list_all_iff)
    then have "list_all (receipt_ok n idx) ?rs"
      using 2(2,3) by (auto simp: list_all_iff set_jm_set receipt_ok_def)
    moreover have "jm_ok ?rs" "length ?rs = length rs"
      using 2(2) Some by (auto simp: jm_oks length_jm_set jm_has_def)
    ultimately show ?thesis
      using 2(1) Some by simp
  qed (use 2 in simp)
qed simp

lemma stamp_evidence_ok: "evidence_ok n ev \<Longrightarrow> evidence_ok n (stamp_evidence t tid st ev)"
  using stamp_loop_props [of "ev_receipts ev" n "ev_toolMutationIndex ev" _ "ev_pendingReceiptIds ev"]
  by (auto simp: evidence_ok_def stamp_evidence_def Let_def split: option.split)

lemma length_jm_delete_first: "jm_ok ((k, v) # m) \<Longrightarrow> jm_delete ((k, v) # m) k = m"
  by (force simp: jm_ok_def jm_delete_def filter_id_conv)

text \<open>The ledger after the oldest receipt was evicted to make room.\<close>

lemma evicted_ok:
  assumes "evidence_ok n ev"
  shows "\<exists>rs. (if length (ev_receipts ev) \<ge> MAX_GOAL_EVIDENCE_RECEIPTS
               then (case jm_keys (ev_receipts ev) of [] \<Rightarrow> ev_receipts ev
                     | oldest # _ \<Rightarrow> jm_delete (ev_receipts ev) oldest)
               else ev_receipts ev) = rs
    \<and> jm_ok rs \<and> length rs < MAX_GOAL_EVIDENCE_RECEIPTS \<and> list_all (receipt_ok n (ev_toolMutationIndex ev)) rs"
proof (cases "ev_receipts ev")
  case Nil
  then show ?thesis by (simp add: MAX_GOAL_EVIDENCE_RECEIPTS_def jm_ok_def)
next
  case (Cons p rs)
  obtain k v where p: "p = (k, v)" by (cases p)
  have "jm_delete (ev_receipts ev) k = rs" "jm_ok rs"
    using assms Cons p length_jm_delete_first [of k v rs] by (auto simp: evidence_ok_def jm_ok_def)
  then show ?thesis
    using assms Cons p by (auto simp: evidence_ok_def jm_keys_def)
qed

lemma capture_ok: "evidence_ok n ev \<Longrightarrow> evidence_ok n (capture_receipt now n i ev)"
  using evicted_ok [of n ev]
  by (auto simp: capture_receipt_def Let_def evidence_ok_def jm_oks length_jm_set list_all_iff set_jm_set receipt_ok_def)

lemma evidence_ops_ok:
  assumes "goal_mode_ok C m"
  shows "goal_mode_ok C (recordEvidence clk i m)" "goal_mode_ok C (recordMutation m)"
    "goal_mode_ok C (stampReceiptTrees t tid st m)"
proof -
  have ev: "evidence_ok (gs_turnsUsed s) (gs_evidence s)" if "gm_state m = Some s" for s
    using goal_ok_of [OF assms that] by (simp add: goal_ok_def)
  show "goal_mode_ok C (recordEvidence clk i m)"
    using assms ev evidence_only_ok [OF assms] capture_ok by (auto simp: recordEvidence_def split: option.split)
  show "goal_mode_ok C (stampReceiptTrees t tid st m)"
    using assms ev evidence_only_ok [OF assms] stamp_evidence_ok by (auto simp: stampReceiptTrees_def split: option.split)
  have "evidence_ok (gs_turnsUsed s) ((gs_evidence s)\<lparr>ev_toolMutationIndex := ev_toolMutationIndex (gs_evidence s) + 1,
            ev_lastMutationGoalTurn := Some (gs_turnsUsed s)\<rparr>)" if "gm_state m = Some s" for s
    using ev [OF that] by (fastforce simp: evidence_ok_def list_all_iff receipt_ok_def)
  then show "goal_mode_ok C (recordMutation m)"
    using assms evidence_only_ok [OF assms] by (auto simp: recordMutation_def split: option.split)
qed

text \<open>A restart.\<close>

definition resume_reason :: reason_input where
  "resume_reason = \<lparr>ri_reason = Some ''Paused after agent resume'', ri_reasonCode = Some ''agent_resume'',
     ri_reasonDetail = None\<rparr>"

definition parked :: "goal_state \<Rightarrow> goal_state" where
  "parked s = (if gs_status s = GActive then applyTerminalReason resume_reason (s\<lparr>gs_status := GPaused\<rparr>) else s)"

lemma applyStatus_idle: "gs_wallClockResumedAt s = None \<Longrightarrow> applyStatus now GPaused s = s\<lparr>gs_status := GPaused\<rparr>"
  by (simp add: applyStatus_def)

lemma time_ok_nonneg: "goal_ok s \<Longrightarrow> time_ok C s w \<Longrightarrow> 0 \<le> w"
  by (auto simp: goal_ok_def time_ok_def)

lemma goal_ok_parked: "goal_ok s \<Longrightarrow> 0 \<le> w \<Longrightarrow> goal_ok (parked (durable_at w s))"
  by (auto simp: goal_ok_def parked_def durable_at_def applyTerminalReason_def evidence_ok_def createGoalEvidenceState_def jm_ok_def)

lemma durable_parked:
  "gs_status s = GActive \<Longrightarrow> restore_fields (empty_update\<lparr>ur_status := Some GPaused, ur_reason := resume_reason,
     ur_wallClockMs := Some w, ur_actor := Some RuntimeActor\<rparr>) (durable_at w s)
   = durable_at w (parked (durable_at w s))"
  by (simp add: durable_at_def parked_def applyTerminalReason_def restore_fields_def empty_update_def)

lemma resume_agent_None:
  "gm_state m = None \<Longrightarrow> in_sync C m \<Longrightarrow> gm_state (resume_agent c clk m) = None \<and> gm_records (resume_agent c clk m) = gm_records m"
  by (simp add: resume_agent_def normalizeAfterReplay_def replay_new in_sync_None)

lemma resume_agent_Some:
  assumes "fold restore_state (gm_records m) None = Some (durable_at w s)" "goal_ok s"
  shows "gm_state (resume_agent c clk m) = Some (parked (durable_at w s))"
    and "gm_records (resume_agent c clk m) = gm_records m @
      (if gs_status s = GActive
       then [GoalUpdate (empty_update\<lparr>ur_status := Some GPaused, ur_reason := resume_reason,
               ur_wallClockMs := Some w, ur_actor := Some RuntimeActor\<rparr>)]
       else [])"
  using assms by (auto simp: resume_agent_def normalizeAfterReplay_def replay_new durable_at_def
      applyStatus_idle goal_ok_def parked_def resume_reason_def applyTerminalReason_def liveWallClockMs_def goal_effects)

lemma restart_ok:
  assumes "goal_mode_ok C m"
  shows "goal_mode_ok C (resume_agent c clk m)"
proof (cases "gm_state m")
  case None
  then show ?thesis
    using assms resume_agent_None [OF None, of C c clk] by (simp add: goal_mode_ok_def in_sync_None)
next
  case (Some s)
  have ok: "goal_ok s" by (rule goal_ok_of [OF assms Some])
  obtain w where w: "fold restore_state (gm_records m) None = Some (durable_at w s)" "time_ok C s w"
    using assms Some by (auto simp: goal_mode_ok_def elim: in_sync_SomeE)
  note st = resume_agent_Some [OF w(1) ok, of c clk]
  have "time_ok C (parked (durable_at w s)) w"
    by (simp add: time_ok_def parked_def durable_at_def applyTerminalReason_def)
  moreover have "durable_at w (durable_at w s) = durable_at w s" by (simp add: durable_at_def)
  ultimately have "in_sync C (resume_agent c clk m)"
    using st w(1) durable_parked [of s w] by (cases "gs_status s = GActive") (auto simp: in_sync_def parked_def durable_at_def)
  then show ?thesis
    using st goal_ok_parked [OF ok time_ok_nonneg [OF ok w(2)]] by (simp add: goal_mode_ok_def)
qed

interpretation goal: guarded_machine "goal_step c" "goal_mode_ok C" "\<lambda>e. fst e \<in> C" for c C
proof
  fix s :: goal_mode and e :: "clock_reads \<times> goal_op"
  assume ok: "goal_mode_ok C s" and C: "fst e \<in> C"
  obtain clk x where e: "e = (clk, x)" by (cases e)
  show "goal_mode_ok C (goal_step c s e)"
    using ok C by (cases x) (simp_all add: e create_ok pause_ok pauseActive_ok pauseOnInterrupt_def resume_ok
        budget_ok cancel_ok block_ok complete_ok update_ok tokens_ok turn_ok evidence_ops_ok restart_ok)
qed

lemma new_goal_mode_ok: "goal_mode_ok C new_goal_mode"
  by (simp add: goal_mode_ok_def new_goal_mode_def in_sync_def)

lemma goal_run_ok: "goal_mode_ok (fst ` set ops) (goal_run c ops)"
  by (rule goal.guarded_run_ok [OF new_goal_mode_ok]) (auto simp: list_all_iff)

section \<open>Properties\<close>

text \<open>
  C9: At every moment of a goal's life (creation with or without replacement, pause, resume, interrupt,
  blocking, completion, cancellation, budget changes, accounting, evidence, model updates and
  restarts, in any order, with any clock readings at any of the places that read the clock),
  replaying the record log from nothing rebuilds the goal as it is: the same id, objective,
  criterion, status, counters, budgets and stop reason, or none when there is none. The
  accumulated time of a stopped goal is rebuilt exactly; that of an active goal too, or it is larger
  by what the clock advanced between two readings of the one operation that activated the
  goal (\<open>resumeGoal\<close> reads the clock to start the interval and again to log the time). The running
  interval and the evidence ledger are lost.
\<close>

theorem goal_replay_faithful:
  "case gm_state (goal_run c ops) of
     None \<Rightarrow> gm_state (replay c t (gm_records (goal_run c ops)) new_goal_mode) = None
   | Some s \<Rightarrow> \<exists>w. gm_state (replay c t (gm_records (goal_run c ops)) new_goal_mode)
         = Some (s\<lparr>gs_wallClockMs := w, gs_wallClockResumedAt := None, gs_evidence := createGoalEvidenceState\<rparr>)
       \<and> (w = gs_wallClockMs s \<or>
          gs_status s = GActive \<and>
          (\<exists>clk\<in>fst ` set ops. gs_wallClockResumedAt s = Some (clk 0)
             \<and> w = gs_wallClockMs s + max 0 (clk 4 - clk 0)))"
  using goal_run_ok [of ops c]
  by (simp add: goal_mode_ok_def in_sync_def replay_new durable_at_def time_ok_def split: option.splits)

text \<open>
  In every reachable state the stored goal is never \<open>complete\<close>, its clock runs exactly while
  it is active, an active goal has no stop reason, the counters are not negative, and the
  ledger holds at most 50 receipts, each under its own id and none from the future of the
  mutation index or the turn counter.
\<close>

theorem goal_run_invariant: "pred_option goal_ok (gm_state (goal_run c ops))"
  using goal_run_ok [of ops c] by (simp add: goal_mode_ok_def)

text \<open>The gate loop finds a receipt exactly when one of the cited ids has a passing one.\<close>

lemma gate_loop_None:
  "gate_loop check rs acc is = None \<longleftrightarrow> (\<exists>i\<in>set is. \<exists>r. jm_get rs i = Some r \<and> checkGateReceipt r check = None)"
  by (induction check rs acc "is" rule: gate_loop.induct) (auto split: option.splits)

lemma gate_loop_Some:
  "gate_loop check rs acc is = Some rej \<Longrightarrow> map rj_receiptId rej = map rj_receiptId acc @ is"
  by (induction check rs acc "is" arbitrary: rej rule: gate_loop.induct)
    (auto simp: unknown_receipt_def split: option.splits)

lemma checkGateReceipt_None:
  "checkGateReceipt r check = None \<longleftrightarrow> rc_ok r \<and> rc_mutationIndexAtCapture r \<ge> gk_toolMutationIndex check
     \<and> (rc_treeAtCapture r = None \<or> rc_treeAtCapture r = gk_latestTree check)
     \<and> gk_turnsUsed check - rc_goalTurnAtCapture r \<le> gk_leaseTurns check
     \<and> gk_now check - rc_capturedAtMs r \<le> gk_leaseMs check"
  by (auto simp: checkGateReceipt_def)


text \<open>A gated goal: active, with the gate switched on and something to verify.\<close>

definition gated :: "goal_config \<Rightarrow> goal_mode \<Rightarrow> goal_state \<Rightarrow> bool" where
  "gated c m s \<longleftrightarrow> gm_state m = Some s \<and> gs_status s = GActive \<and> gg_enabled (completionGateConfig c)
     \<and> completionGateEnforced s"

lemma gated_verdict:
  assumes "gated c m s"
  shows "vd_allowed (evaluateCompletionGate c clk ids m) \<longleftrightarrow>
    (\<exists>i\<in>set ids. \<exists>r. jm_get (ev_receipts (gs_evidence s)) i = Some r \<and>
       checkGateReceipt r (gateCheckContext s (gg_leaseTurns (completionGateConfig c))
         (gg_leaseMs (completionGateConfig c)) (clk 0)) = None)"
  using assms by (simp add: gated_def evaluateCompletionGate_def Let_def gate_loop_None [symmetric, where acc = "[]"]
      split: option.split)

text \<open>
  On a gated goal the model's \<open>UpdateGoal(complete)\<close> completes exactly when it cites a receipt
  of the ledger whose tool result succeeded, that was captured at or after the last mutation,
  whose tree (if any) is the latest one and whose two leases have not run out. Otherwise the
  call is rejected and nothing at all changes.
\<close>

theorem updateGoal_complete_gate:
  assumes "gated c m s"
  shows "(if \<exists>i\<in>set (opt_else evidence []). \<exists>r. jm_get (ev_receipts (gs_evidence s)) i = Some r
             \<and> rc_ok r \<and> rc_mutationIndexAtCapture r \<ge> ev_toolMutationIndex (gs_evidence s)
             \<and> (rc_treeAtCapture r = None \<or> rc_treeAtCapture r = ev_latestTree (gs_evidence s))
             \<and> gs_turnsUsed s - rc_goalTurnAtCapture r \<le> gg_leaseTurns (completionGateConfig c)
             \<and> clk 0 - rc_capturedAtMs r \<le> gg_leaseMs (completionGateConfig c)
          then (\<exists>sn. fst (updateGoal_execute c clk SetComplete evidence g m) = Goal_completed sn \<and> sn_status sn = GComplete)
             \<and> gm_state (snd (updateGoal_execute c clk SetComplete evidence g m)) = None
          else (\<exists>v. updateGoal_execute c clk SetComplete evidence g m = (Gate_rejected v, m)))"
proof -
  have st: "gm_state m = Some s" "gs_status s = GActive" using assms by (auto simp: gated_def)
  have ok: "vd_allowed (evaluateCompletionGate c clk (opt_else evidence []) m) \<longleftrightarrow>
    (\<exists>i\<in>set (opt_else evidence []). \<exists>r. jm_get (ev_receipts (gs_evidence s)) i = Some r
       \<and> rc_ok r \<and> rc_mutationIndexAtCapture r \<ge> ev_toolMutationIndex (gs_evidence s)
       \<and> (rc_treeAtCapture r = None \<or> rc_treeAtCapture r = ev_latestTree (gs_evidence s))
       \<and> gs_turnsUsed s - rc_goalTurnAtCapture r \<le> gg_leaseTurns (completionGateConfig c)
       \<and> clk 0 - rc_capturedAtMs r \<le> gg_leaseMs (completionGateConfig c))"
    by (simp add: gated_verdict [OF assms] checkGateReceipt_None gateCheckContext_def)
  show ?thesis
  proof (cases "vd_allowed (evaluateCompletionGate c clk (opt_else evidence []) m)")
    case True
    have "\<exists>sn. fst (updateGoal_execute c clk SetComplete evidence g m) = Goal_completed sn \<and> sn_status sn = GComplete"
      using True st by (simp add: updateGoal_execute_def markComplete_def Let_def toSnapshot_def
          applyTerminalReason_def applyStatus_def)
    moreover have "gm_state (snd (updateGoal_execute c clk SetComplete evidence g m)) = None"
      using True st by (simp add: updateGoal_execute_def markComplete_def Let_def)
    ultimately show ?thesis using True unfolding ok by (simp only: if_True simp_thms)
  next
    case False
    have "updateGoal_execute c clk SetComplete evidence g m =
        (Gate_rejected (evaluateCompletionGate c clk (opt_else evidence []) m), m)"
      using False by (simp add: updateGoal_execute_def Let_def)
    then show ?thesis using False unfolding ok by (simp only: if_False) blast
  qed
qed

definition sample_config :: goal_config where
  "sample_config = \<lparr>gc_completionGate = None, gc_evidenceLeaseTurns = None, gc_evidenceLeaseMs = None,
     gc_tieredBudgets = None, gc_tierTurns = (\<lambda>_. None), gc_tierTokens = (\<lambda>_. None)\<rparr>"

definition sample_ops :: "(clock_reads \<times> goal_op) list" where
  "sample_ops =
    [(\<lambda>_. 0, CreateOp ''g1'' \<lparr>ci_objective = ''fix the bug'', ci_completionCriterion = None, ci_replace = False,
                          ci_sizeHint = None\<rparr> UserActor),
     (\<lambda>_. 10, TurnOp), (\<lambda>_. 20, MutationOp),
     (\<lambda>_. 30, EvidenceOp \<lparr>ei_receiptId = ''call_1'', ei_toolName = ''Bash'', ei_turnId = 1, ei_step = 2, ei_ok = True,
                       ei_summary = ''tests pass''\<rparr>)]"

definition sample_evidence :: evidence_state where
  "sample_evidence =
    \<lparr>ev_receipts = [(''call_1'', \<lparr>rc_receiptId = ''call_1'', rc_toolName = ''Bash'', rc_turnId = 1,
        rc_capturedAtMs = 30, rc_goalTurnAtCapture = 1, rc_mutationIndexAtCapture = 1, rc_treeAtCapture = None,
        rc_ok = True, rc_summary = ''tests pass''\<rparr>)],
     ev_toolMutationIndex = 1, ev_lastMutationGoalTurn = Some 1, ev_latestTree = None,
     ev_pendingReceiptIds = [''call_1''], ev_pendingTurnId = 1, ev_pendingStep = 2\<rparr>"

definition sample_goal :: goal_state where
  "sample_goal =
    \<lparr>gs_goalId = ''g1'', gs_objective = ''fix the bug'', gs_completionCriterion = None, gs_status = GActive,
     gs_turnsUsed = 1, gs_tokensUsed = 0, gs_wallClockMs = 0, gs_wallClockResumedAt = Some 0,
     gs_budgetLimits = \<lparr>bg_tokenBudget = Some 300000, bg_turnBudget = Some 10, bg_wallClockBudgetMs = None\<rparr>,
     gs_terminalReason = None, gs_terminalReasonCode = None, gs_terminalReasonDetail = None,
     gs_evidence = sample_evidence\<rparr>"

lemma sample_run: "gm_state (goal_run sample_config sample_ops) = Some sample_goal"
  by (simp add: sample_ops_def sample_goal_def sample_config_def sample_evidence_def createGoal_def new_goal_mode_def trim_def is_space_def
      resolveTieredBudgetDefaults_def opt_else_def DEFAULT_TIERED_BUDGETS_ENABLED_def inferGoalTier_def
      GOAL_TIER_SMALL_MAX_OBJECTIVE_LENGTH_def MAX_GOAL_OBJECTIVE_LENGTH_def goal_effects merge_limits_def no_limits_def
      normalizeCompletionCriterion_def incrementTurn_def recordMutation_def recordEvidence_def capture_receipt_def
      createGoalEvidenceState_def MAX_GOAL_EVIDENCE_RECEIPTS_def jm_keys_def)


lemmas sample_defs = sample_goal_def sample_config_def sample_evidence_def completionGateConfig_def opt_else_def
  DEFAULT_COMPLETION_GATE_ENABLED_def GOAL_EVIDENCE_LEASE_TURNS_DEFAULT_def GOAL_EVIDENCE_LEASE_MS_DEFAULT_def
  completionGateEnforced_def jm_get_def

lemma sample_gated: "gated sample_config (goal_run sample_config sample_ops) sample_goal"
  unfolding gated_def sample_run by (simp add: sample_defs)

theorem updateGoal_complete_gate_witness:
  "gated sample_config (goal_run sample_config sample_ops) sample_goal
   \<and> gm_state (snd (updateGoal_execute sample_config (\<lambda>_. 40) SetComplete (Some [''call_1'']) None
                       (goal_run sample_config sample_ops))) = None"
proof -
  have "\<exists>i\<in>set (opt_else (Some [''call_1'']) []). \<exists>r. jm_get (ev_receipts (gs_evidence sample_goal)) i = Some r
     \<and> rc_ok r \<and> rc_mutationIndexAtCapture r \<ge> ev_toolMutationIndex (gs_evidence sample_goal)
     \<and> (rc_treeAtCapture r = None \<or> rc_treeAtCapture r = ev_latestTree (gs_evidence sample_goal))
     \<and> gs_turnsUsed sample_goal - rc_goalTurnAtCapture r \<le> gg_leaseTurns (completionGateConfig sample_config)
     \<and> 40 - rc_capturedAtMs r \<le> gg_leaseMs (completionGateConfig sample_config)"
    by (simp add: sample_defs)
  with updateGoal_complete_gate [OF sample_gated, of "Some [''call_1'']" "\<lambda>_. 40" None] sample_gated
  show ?thesis by (simp only: if_True simp_thms)
qed

text \<open>What an edit leaves behind: the mutation index is positive and every receipt that succeeded is
  older than it.\<close>

definition all_stale :: "goal_mode \<Rightarrow> bool" where
  "all_stale m \<longleftrightarrow> pred_option (\<lambda>s. ev_toolMutationIndex (gs_evidence s) > 0 \<and>
     (\<forall>r\<in>snd ` set (ev_receipts (gs_evidence s)).
        rc_ok r \<longrightarrow> rc_mutationIndexAtCapture r < ev_toolMutationIndex (gs_evidence s))) (gm_state m)"

text \<open>Operations that can bring no usable evidence: all but the capture of a successful result, the
  creation of a goal and a restart of the agent.\<close>

fun brings_no_evidence :: "goal_op \<Rightarrow> bool" where
  "brings_no_evidence (CreateOp i inp a) = False"
| "brings_no_evidence (EvidenceOp i) = (\<not> ei_ok i)"
| "brings_no_evidence RestartOp = False"
| "brings_no_evidence _ = True"

lemma all_stale_mono:
  assumes "all_stale m" "\<And>s'. gm_state m' = Some s' \<Longrightarrow> \<exists>s. gm_state m = Some s \<and> gs_evidence s' = gs_evidence s"
  shows "all_stale m'"
  using assms by (cases "gm_state m'") (fastforce simp: all_stale_def)+

lemma lifecycle_keeps_evidence:
  "gm_state (snd (pauseGoal c clk r a m)) = Some s' \<Longrightarrow> \<exists>s. gm_state m = Some s \<and> gs_evidence s' = gs_evidence s"
  "gm_state (snd (pauseActiveGoal c clk r a m)) = Some s' \<Longrightarrow> \<exists>s. gm_state m = Some s \<and> gs_evidence s' = gs_evidence s"
  "gm_state (snd (resumeGoal c clk r a m)) = Some s' \<Longrightarrow> \<exists>s. gm_state m = Some s \<and> gs_evidence s' = gs_evidence s"
  "gm_state (snd (setBudgetLimits c clk b a m)) = Some s' \<Longrightarrow> \<exists>s. gm_state m = Some s \<and> gs_evidence s' = gs_evidence s"
  "gm_state (snd (cancelGoal c clk a m)) = Some s' \<Longrightarrow> \<exists>s. gm_state m = Some s \<and> gs_evidence s' = gs_evidence s"
  "gm_state (snd (markBlocked c clk r a m)) = Some s' \<Longrightarrow> \<exists>s. gm_state m = Some s \<and> gs_evidence s' = gs_evidence s"
  "gm_state (snd (markComplete c clk r a m)) = Some s' \<Longrightarrow> \<exists>s. gm_state m = Some s \<and> gs_evidence s' = gs_evidence s"
  "gm_state (snd (recordTokenUsage c clk n m)) = Some s' \<Longrightarrow> \<exists>s. gm_state m = Some s \<and> gs_evidence s' = gs_evidence s"
  "gm_state (snd (incrementTurn c clk m)) = Some s' \<Longrightarrow> \<exists>s. gm_state m = Some s \<and> gs_evidence s' = gs_evidence s"
  by (auto simp: pauseGoal_def pauseActiveGoal_def resumeGoal_def setBudgetLimits_def cancelGoal_def markBlocked_def
      markComplete_def recordTokenUsage_def incrementTurn_def stop_active_def goal_effects applyTerminalReason_def
      applyStatus_def split: option.splits if_splits)

lemma update_keeps_evidence:
  "gm_state (snd (updateGoal_execute c clk st e g m)) = Some s' \<Longrightarrow> \<exists>s. gm_state m = Some s \<and> gs_evidence s' = gs_evidence s"
  using lifecycle_keeps_evidence(3) [of c clk no_reason ModelActor m s']
    lifecycle_keeps_evidence(7) [of c "later 1 clk" no_reason ModelActor m s']
    lifecycle_keeps_evidence(6) [of c clk no_reason ModelActor m s']
  by (auto simp: updateGoal_execute_def Let_def split: update_status.splits prod.splits sum.splits option.splits if_splits)

lemma set_jm_set_subset: "set (jm_set m k v) \<subseteq> insert (k, v) (set m)"
  by (induction m) (auto split: if_splits)

lemma stamp_loop_receipts:
  "\<forall>r\<in>snd ` set rs. rc_ok r \<longrightarrow> rc_mutationIndexAtCapture r < k \<Longrightarrow>
   \<forall>r\<in>snd ` set (stamp_loop t is rs). rc_ok r \<longrightarrow> rc_mutationIndexAtCapture r < k"
proof (induction t "is" rs rule: stamp_loop.induct)
  case (2 tree i "is" rs)
  have "\<forall>r\<in>snd ` set (jm_set rs i (r0\<lparr>rc_treeAtCapture := Some tree\<rparr>)). rc_ok r \<longrightarrow> rc_mutationIndexAtCapture r < k"
    if "jm_get rs i = Some r0" for r0
    using 2(2) jm_get_in_set [OF that] set_jm_set_subset [of rs i "r0\<lparr>rc_treeAtCapture := Some tree\<rparr>"] by fastforce
  then show ?case
    using 2 by (auto split: option.split)
qed simp

lemma stamp_keeps_stale: "all_stale m \<Longrightarrow> all_stale (stampReceiptTrees t n k m)"
proof (cases "gm_state m")
  case (Some s)
  let ?rs = "ev_receipts (gs_evidence s)" and ?k = "ev_toolMutationIndex (gs_evidence s)"
  assume "all_stale m"
  then have "?k > 0" "\<forall>r\<in>snd ` set ?rs. rc_ok r \<longrightarrow> rc_mutationIndexAtCapture r < ?k"
    using Some by (simp_all add: all_stale_def)
  moreover from this(2) have "\<forall>r\<in>snd ` set (stamp_loop x ids ?rs). rc_ok r \<longrightarrow> rc_mutationIndexAtCapture r < ?k" for x ids
    by (rule stamp_loop_receipts)
  ultimately have "?k > 0 \<and> (\<forall>r\<in>snd ` set (ev_receipts (stamp_evidence t n k (gs_evidence s))).
      rc_ok r \<longrightarrow> rc_mutationIndexAtCapture r < ?k)"
    by (auto simp: stamp_evidence_def Let_def split: option.split)
  moreover have "ev_toolMutationIndex (stamp_evidence t n k (gs_evidence s)) = ?k"
    by (simp add: stamp_evidence_def Let_def split: option.split)
  ultimately show ?thesis
    using Some by (simp add: all_stale_def stampReceiptTrees_def)
qed (simp add: stampReceiptTrees_def)

lemma capture_failed_stale:
  assumes "\<not> ei_ok i" "\<forall>r\<in>snd ` set (ev_receipts ev). rc_ok r \<longrightarrow> rc_mutationIndexAtCapture r < k"
  shows "\<forall>r\<in>snd ` set (ev_receipts (capture_receipt now n i ev)). rc_ok r \<longrightarrow> rc_mutationIndexAtCapture r < k"
proof -
  have "snd ` set (ev_receipts (capture_receipt now n i ev)) \<subseteq>
      {r. \<not> rc_ok r} \<union> snd ` set (ev_receipts ev)"
    unfolding capture_receipt_def Let_def
    using assms(1) by (auto simp: jm_delete_def dest!: set_jm_set_subset [THEN subsetD] split: if_splits list.splits)
  then show ?thesis
    using assms(2) by blast
qed

lemma failed_evidence_keeps_stale: "\<not> ei_ok i \<Longrightarrow> all_stale m \<Longrightarrow> all_stale (recordEvidence clk i m)"
  using capture_failed_stale [of i "gs_evidence (the (gm_state m))" "ev_toolMutationIndex (gs_evidence (the (gm_state m)))"
      "clk 0" "gs_turnsUsed (the (gm_state m))"]
  by (cases "gm_state m") (auto simp: all_stale_def recordEvidence_def capture_receipt_def Let_def)

lemma mutation_makes_stale:
  assumes "goal_mode_ok C m" "gm_state m = Some s" "gs_status s = GActive"
  shows "all_stale (recordMutation m)"
proof -
  have "evidence_ok (gs_turnsUsed s) (gs_evidence s)"
    using goal_ok_of [OF assms(1,2)] by (simp add: goal_ok_def)
  then show ?thesis
    using assms by (fastforce simp: all_stale_def recordMutation_def evidence_ok_def list_all_iff receipt_ok_def)
qed

lemma mutation_keeps_stale: "all_stale m \<Longrightarrow> all_stale (recordMutation m)"
  by (cases "gm_state m") (fastforce simp: all_stale_def recordMutation_def)+

interpretation stale: guarded_machine "goal_step c" all_stale "\<lambda>e. brings_no_evidence (snd e)" for c
proof
  fix s :: goal_mode and e :: "clock_reads \<times> goal_op"
  assume st: "all_stale s" and e: "brings_no_evidence (snd e)"
  obtain clk x where x: "e = (clk, x)" by (cases e)
  note keep = all_stale_mono [OF st]
  show "all_stale (goal_step c s e)"
    using e unfolding x
    by (cases x) (simp_all add: keep lifecycle_keeps_evidence update_keeps_evidence pauseOnInterrupt_def
        stamp_keeps_stale failed_evidence_keeps_stale mutation_keeps_stale st)
qed

lemma stale_gate:
  assumes "all_stale m" "gg_enabled (completionGateConfig c)"
  shows "updateGoal_execute c clk SetComplete evidence g m =
    (case getActiveGoal c clk m of
       None \<Rightarrow> (Goal_not_completed, m)
     | Some _ \<Rightarrow> (Gate_rejected (evaluateCompletionGate c clk (opt_else evidence []) m), m))"
proof (cases "getActiveGoal c clk m")
  case None
  then show ?thesis
    by (auto simp: getActiveGoal_def updateGoal_execute_def evaluateCompletionGate_def allowCompletionGate_def
        markComplete_def Let_def split: option.splits if_splits)
next
  case (Some sn)
  then obtain s where s: "gm_state m = Some s" "gs_status s = GActive"
    by (auto simp: getActiveGoal_def split: option.splits if_splits)
  have stale: "ev_toolMutationIndex (gs_evidence s) > 0"
    "\<forall>r\<in>snd ` set (ev_receipts (gs_evidence s)). rc_ok r \<longrightarrow> rc_mutationIndexAtCapture r < ev_toolMutationIndex (gs_evidence s)"
    using assms(1) s by (simp_all add: all_stale_def)
  have gated: "gated c m s"
    using s assms(2) stale(1) by (simp add: gated_def completionGateEnforced_def)
  have "\<not> vd_allowed (evaluateCompletionGate c clk (opt_else evidence []) m)"
    using stale(2) by (fastforce simp: gated_verdict [OF gated] checkGateReceipt_None gateCheckContext_def dest: jm_get_in_set)
  then show ?thesis
    using Some by (simp add: updateGoal_execute_def Let_def)
qed

text \<open>
  C10: Evidence does not outlive an edit. With the gate on, once an edit is recorded on an active goal,
  and whatever happens then short of three things (a successful tool result being captured as
  evidence, a goal being created, the agent being restarted), the model's \<open>UpdateGoal(complete)\<close>
  completes nothing, whatever receipts it cites: while the goal is active the call is
  rejected by the gate, otherwise it reports that there is no active goal, and in both cases
  goal, ledger, log and events are unchanged.
\<close>

theorem mutation_voids_evidence:
  assumes "gm_state (goal_run c ops) = Some s" "gs_status s = GActive" "gg_enabled (completionGateConfig c)"
    "list_all (\<lambda>e. brings_no_evidence (snd e)) ops'"
  shows "updateGoal_execute c clk SetComplete evidence g (goal_run c (ops @ (t, MutationOp) # ops')) =
    (case getActiveGoal c clk (goal_run c (ops @ (t, MutationOp) # ops')) of
       None \<Rightarrow> (Goal_not_completed, goal_run c (ops @ (t, MutationOp) # ops'))
     | Some _ \<Rightarrow>
         (Gate_rejected (evaluateCompletionGate c clk (opt_else evidence []) (goal_run c (ops @ (t, MutationOp) # ops'))),
          goal_run c (ops @ (t, MutationOp) # ops')))"
proof (rule stale_gate [OF _ assms(3)])
  have "all_stale (recordMutation (goal_run c ops))"
    by (rule mutation_makes_stale [OF goal_run_ok assms(1,2)])
  from stale.guarded_run_ok [OF this assms(4), of c]
  show "all_stale (goal_run c (ops @ (t, MutationOp) # ops'))" by (simp add: run_ops_append)
qed

definition sample_failed :: evidence_input where
  "sample_failed = \<lparr>ei_receiptId = ''call_2'', ei_toolName = ''Bash'', ei_turnId = 2, ei_step = 1, ei_ok = False,
     ei_summary = ''tests fail''\<rparr>"

theorem mutation_voids_evidence_witness:
  "fst (updateGoal_execute sample_config (\<lambda>_. 50) SetComplete (Some [''call_1'', ''call_2'']) None
          (goal_run sample_config (sample_ops @ (\<lambda>_. 45, MutationOp) # [(\<lambda>_. 46, TurnOp), (\<lambda>_. 47, EvidenceOp sample_failed)])))
   \<in> {Goal_not_completed} \<union> range Gate_rejected"
proof -
  have "gs_status sample_goal = GActive" "gg_enabled (completionGateConfig sample_config)"
    by (simp_all add: sample_defs)
  moreover have "list_all (\<lambda>e. brings_no_evidence (snd e)) [(\<lambda>_. 46, TurnOp), (\<lambda>_. 47, EvidenceOp sample_failed)]"
    by (simp add: sample_failed_def)
  ultimately show ?thesis
    using mutation_voids_evidence [OF sample_run, of "[(\<lambda>_. 46, TurnOp), (\<lambda>_. 47, EvidenceOp sample_failed)]" "\<lambda>_. 50"
        "Some [''call_1'', ''call_2'']" None "\<lambda>_. 45"]
    by (auto split: option.split)
qed

text \<open>
  A restart forgets that there was an edit. The mutation index lives in the memory-only ledger, so
  for every reachable goal without a completion criterion, edited or not, restarting the agent
  and resuming the goal lets \<open>UpdateGoal(complete)\<close> complete it without any evidence, although
  the gate is documented to fail safe across a restart.
\<close>

theorem restart_forgets_mutation:
  assumes "gm_state (goal_run c ops) = Some s" "gs_completionCriterion s = None"
  shows "\<exists>sn. fst (updateGoal_execute c clk SetComplete evidence g
      (goal_run c (ops @ [(t, RestartOp), (t', ResumeOp r a)]))) = Goal_completed sn"
proof -
  have ok: "goal_ok s" by (rule goal_ok_of [OF goal_run_ok assms(1)])
  obtain w where w: "fold restore_state (gm_records (goal_run c ops)) None = Some (durable_at w s)"
    using goal_run_ok [of ops c] assms(1) by (auto simp: goal_mode_ok_def elim: in_sync_SomeE)
  let ?p = "parked (durable_at w s)"
  have p: "gm_state (goal_run c (ops @ [(t, RestartOp)])) = Some ?p"
    using resume_agent_Some(1) [OF w ok] by (simp add: run_ops_append)
  have "gs_status ?p = GPaused \<or> gs_status ?p = GBlocked" "gs_completionCriterion ?p = None"
    "gs_evidence ?p = createGoalEvidenceState"
    using ok assms(2) by (cases "gs_status s"; simp add: parked_def durable_at_def applyTerminalReason_def goal_ok_def)+
  then obtain s' where "gm_state (goal_run c (ops @ [(t, RestartOp), (t', ResumeOp r a)])) = Some s'"
    "gs_status s' = GActive" "\<not> completionGateEnforced s'"
    using p by (auto simp: run_ops_append resumeGoal_def goal_effects applyStatus_def applyTerminalReason_def
        completionGateEnforced_def createGoalEvidenceState_def split: option.split)
  then show ?thesis
    by (simp add: updateGoal_execute_def evaluateCompletionGate_def allowCompletionGate_def markComplete_def Let_def)
qed

theorem restart_forgets_mutation_witness:
  "ev_toolMutationIndex (gs_evidence sample_goal) = 1 \<and>
   (\<exists>sn. fst (updateGoal_execute sample_config (\<lambda>_. 90) SetComplete None None
      (goal_run sample_config (sample_ops @ [(\<lambda>_. 60, RestartOp), (\<lambda>_. 70, ResumeOp no_reason UserActor)])))
      = Goal_completed sn)"
  using restart_forgets_mutation [OF sample_run, of "\<lambda>_. 90" None None "\<lambda>_. 60" "\<lambda>_. 70" no_reason UserActor]
  by (simp add: sample_goal_def sample_evidence_def)

end
