(* ===== verification/Transcript_Model.thy ===== *)
theory Transcript_Model
  imports Js_Map
begin

text \<open>
  The data of the transcript package, \<open>packages/transcript/src/model/\<close> and
  \<open>ops/operation.ts\<close>: turns with their steps and frames, markers and task references, the
  global entities and the operations that carry changes of them.

  The reducer compares object-valued fields with \<open>===\<close> and never looks inside them. Such a
  field is a \<open>jsref\<close>, the identity of the object; two fields are \<open>===\<close> when their
  references are equal. Strings and numbers are compared by value.
\<close>

type_synonym jsref = nat

section \<open>Ids\<close>

text \<open>
  \<open>Number(s)\<close> of an id's numeric part: blanks are trimmed, the empty string is 0, and an optionally
  signed run of decimal digits is its value as a double. Any other text is treated as \<open>NaN\<close>;
  the ids of the transcript never use JavaScript's other literal forms (fractions, exponents, hexadecimal).
\<close>

definition string_to_number :: "string \<Rightarrow> int option" where
  "string_to_number s =
     (let t = trim s;
          neg = (t \<noteq> [] \<and> hd t = CHR ''-'');
          body = (if t \<noteq> [] \<and> (hd t = CHR ''-'' \<or> hd t = CHR ''+'') then tl t else t)
      in if t = [] then Some 0
         else if body = [] \<or> \<not> list_all is_digit body then None
         else Some (js_Number (if neg then - int (digits_value body) else int (digits_value body))))"

definition turnId :: "nat \<Rightarrow> string" where
  "turnId ordinal = CHR ''t'' # string_of_nat ordinal"

definition stepId :: "string \<Rightarrow> nat \<Rightarrow> string" where
  "stepId turn ordinal = turn @ ''.'' @ string_of_nat ordinal"

definition frameId :: "string \<Rightarrow> nat \<Rightarrow> string" where
  "frameId step ordinal = step @ ''.f'' @ string_of_nat ordinal"

definition turnOrdinal :: "string \<Rightarrow> int" where
  "turnOrdinal i = (case string_to_number (drop 1 i) of None \<Rightarrow> 0 | Some n \<Rightarrow> n)"

definition compareTurnIds :: "string \<Rightarrow> string \<Rightarrow> int" where
  "compareTurnIds a b = turnOrdinal a - turnOrdinal b"

section \<open>Frames, steps and turns\<close>

datatype text_role = Assistant | User

record text_frame =
  tx_frameId :: string
  tx_role :: text_role
  tx_text :: string
  tx_attachmentIds :: "jsref option"
  tx_taskId :: "string option"

record thinking_frame =
  th_frameId :: string
  th_text :: string

datatype tool_frame_state = TfRunning | TfDone | TfError

record tool_frame =
  tl_frameId :: string
  tl_toolCallId :: string
  tl_name :: string
  tl_view :: "string option"
  tl_state :: tool_frame_state
  tl_input :: "jsref option"
  tl_output :: "jsref option"
  tl_display :: "jsref option"
  tl_error :: "string option"
  tl_inputText :: "string option"
  tl_progress :: "jsref option"
  tl_taskId :: "string option"
  tl_approvalId :: "string option"
  tl_todoId :: "string option"
  tl_agentRefs :: "jsref option"

datatype notice_level = LvError | LvWarning | LvInfo

record notice_frame =
  no_frameId :: string
  no_level :: notice_level
  no_source :: "string option"
  no_message :: string
  no_detail :: "jsref option"

datatype frame = TextFrame text_frame | ThinkingFrame thinking_frame | ToolFrame tool_frame | NoticeFrame notice_frame

fun frame_id :: "frame \<Rightarrow> string" where
  "frame_id (TextFrame f) = tx_frameId f"
| "frame_id (ThinkingFrame f) = th_frameId f"
| "frame_id (ToolFrame f) = tl_frameId f"
| "frame_id (NoticeFrame f) = no_frameId f"

datatype step_state = StRunning | StCompleted | StInterrupted | StFailed

text \<open>A step is its header, as it travels in \<open>step.upsert\<close>, extended by its frames.\<close>

record step_header =
  sp_stepId :: string
  sp_turnId :: string
  sp_ordinal :: int
  sp_state :: step_state
  sp_startedAt :: "string option"
  sp_endedAt :: "string option"
  sp_usage :: "jsref option"
  sp_finishReason :: "string option"
  sp_timing :: "jsref option"
  sp_retry :: "jsref option"
  sp_endReason :: "string option"
  sp_endMessage :: "string option"

record step = step_header +
  sp_frames :: "frame list"

datatype origin_kind = OgUser | OgCron | OgTask | OgHook | OgCompaction | OgSide | OgOther

record turn_origin =
  og_kind :: origin_kind
  og_taskId :: "string option"
  og_payload :: "jsref option"

datatype turn_state = TuQueued | TuRunning | TuCompleted | TuFailed | TuCancelled

record turn_header =
  tn_turnId :: string
  tn_ordinal :: int
  tn_state :: turn_state
  tn_origin :: turn_origin
  tn_prompt :: "string option"
  tn_attachmentIds :: "jsref option"
  tn_startedAt :: "string option"
  tn_endedAt :: "string option"
  tn_usage :: "jsref option"
  tn_durationMs :: "int option"
  tn_error :: "string option"

record turn = turn_header +
  tn_steps :: "step list"

section \<open>Items of the timeline\<close>

text \<open>Markers and task references are compared as whole objects; \<open>mk_obj\<close> and \<open>tr_obj\<close> are
  the identities of those objects.\<close>

record marker =
  mk_obj :: jsref
  mk_markerId :: string
  mk_marker :: string
  mk_payload :: "jsref option"
  mk_at :: "string option"

record task_ref =
  tr_obj :: jsref
  tr_refId :: string
  tr_taskId :: string
  tr_at :: "string option"

datatype item = Turn turn | Marker marker | TaskRef task_ref

fun itemIdOf :: "item \<Rightarrow> string" where
  "itemIdOf (Turn t) = tn_turnId t"
| "itemIdOf (Marker m) = mk_markerId m"
| "itemIdOf (TaskRef r) = tr_refId r"

fun is_turn :: "item \<Rightarrow> bool" where
  "is_turn (Turn t) = True"
| "is_turn _ = False"

text \<open>\<open>entry === item\<close> for an \<open>item\<close> that is a marker or a task reference.\<close>

fun same_object :: "item \<Rightarrow> item \<Rightarrow> bool" where
  "same_object (Marker a) (Marker b) \<longleftrightarrow> mk_obj a = mk_obj b"
| "same_object (TaskRef a) (TaskRef b) \<longleftrightarrow> tr_obj a = tr_obj b"
| "same_object _ _ \<longleftrightarrow> False"

section \<open>Global entities\<close>

datatype task_kind = TkShell | TkSubagent | TkTool | TkOther
datatype task_state = TsRunning | TsCompleted | TsFailed | TsTimedOut | TsKilled | TsLost

record ttask =
  tk_taskId :: string
  tk_kind :: task_kind
  tk_state :: task_state
  tk_detached :: bool
  tk_description :: "string option"
  tk_agentId :: "string option"
  tk_outputTail :: string
  tk_startedAt :: "string option"
  tk_endedAt :: "string option"
  tk_resultSummary :: "string option"
  tk_error :: "string option"
  tk_stateReason :: "string option"
  tk_usage :: "jsref option"

datatype interaction_kind = IkApproval | IkQuestion
datatype interaction_state = IsPending | IsApproved | IsRejected | IsCancelled | IsAnswered | IsDismissed

record interaction =
  ia_interactionId :: string
  ia_interactionKind :: interaction_kind
  ia_toolCallId :: "string option"
  ia_state :: interaction_state
  ia_request :: "jsref option"
  ia_response :: "jsref option"

record attachment =
  at_attachmentId :: string
  at_mediaType :: string
  at_name :: "string option"
  at_size :: "int option"
  at_source :: "jsref option"
  at_placeholder :: "string option"

record todo =
  td_todoId :: string
  td_items :: jsref
  td_updatedAt :: "string option"

datatype prompt_status = PrRunning | PrQueued | PrBlocked | PrCompleted | PrFailed | PrAborted

record tprompt =
  pr_promptId :: string
  pr_status :: prompt_status
  pr_userMessageId :: "string option"
  pr_content :: "jsref option"
  pr_createdAt :: string
  pr_finishedAt :: "string option"
  pr_steeredAt :: "string option"

record modes_meta =
  md_plan :: "jsref option"
  md_swarm :: "jsref option"

datatype activity = AcIdle | AcTurn | AcDisposing | AcUnknown
datatype permission_mode = PmManual | PmYolo | PmAuto

record agent_status =
  ag_model :: "string option"
  ag_thinkingEffort :: "string option"
  ag_usage :: "jsref option"
  ag_contextTokens :: "int option"
  ag_maxContextTokens :: "int option"
  ag_contextUsage :: "jsref option"
  ag_permission :: "permission_mode option"
  ag_phase :: "jsref option"

record transcript_meta =
  me_goal :: "jsref option"
  me_modes :: "modes_meta option"
  me_activity :: "activity option"
  me_agent :: "agent_status option"

text \<open>A mode key of \<open>meta.merge\<close>: absent, \<open>null\<close>, or the badge.\<close>

datatype mode_patch = Absent | Null | Badge jsref

record modes_merge =
  mp_plan :: mode_patch
  mp_swarm :: mode_patch

record meta_merge =
  mm_goal :: "jsref option"
  mm_modes :: "modes_merge option"
  mm_activity :: "activity option"
  mm_agent :: "agent_status option"

section \<open>Operations\<close>

datatype append_target = FrameTarget string string string | TaskTarget string

record append_op =
  ap_target :: append_target
  ap_offset :: nat
  ap_text :: string

record transcript_snapshot =
  ss_items :: "item list"
  ss_tasks :: "ttask list"
  ss_interactions :: "interaction list"
  ss_attachments :: "attachment list"
  ss_todos :: "todo list"
  ss_prompts :: "tprompt list"
  ss_meta :: transcript_meta
  ss_hasMoreOlder :: "bool option"

datatype operation =
    ResetOp string transcript_snapshot
  | TurnUpsert turn_header
  | StepUpsert string step_header
  | FrameUpsert string string frame
  | Append append_op
  | MarkerUpsert marker "int option"
  | TaskRefUpsert task_ref "int option"
  | TaskUpsert ttask
  | InteractionUpsert interaction
  | AttachmentUpsert attachment
  | TodoUpsert todo
  | PromptUpsert tprompt
  | MetaMerge meta_merge
  | ItemsRemove "string list"

text \<open>The state behind one \<open>AgentTranscript\<close> (\<open>AgentState\<close> of \<open>ops/apply.ts\<close>). The set of
  pending interactions is a list in insertion order.\<close>

record agent_state =
  as_items :: "item list"
  as_tasks :: "(string, ttask) js_map"
  as_interactions :: "(string, interaction) js_map"
  as_attachments :: "(string, attachment) js_map"
  as_todos :: "(string, todo) js_map"
  as_prompts :: "(string, tprompt) js_map"
  as_meta :: transcript_meta
  as_pendingInteractions :: "string list"
  as_hasMoreOlder :: bool

definition EMPTY_AGENT_STATE :: agent_state where
  "EMPTY_AGENT_STATE =
     \<lparr>as_items = [], as_tasks = [], as_interactions = [], as_attachments = [], as_todos = [], as_prompts = [],
      as_meta = \<lparr>me_goal = None, me_modes = None, me_activity = None, me_agent = None\<rparr>,
      as_pendingInteractions = [], as_hasMoreOlder = False\<rparr>"

record apply_result =
  ar_state :: agent_state
  ar_changed :: bool
  ar_gap :: "(nat \<times> nat) option"

section \<open>Ids are read back\<close>

lemma string_to_number_of_nat: "string_to_number (string_of_nat n) = Some (js_Number (int n))"
proof -
  obtain c s where cs: "string_of_nat n = c # s" "is_digit c"
    using string_of_nat_props [of n] by (cases "string_of_nat n") auto
  have "c \<noteq> CHR ''-''" "c \<noteq> CHR ''+''"
    using cs(2) by (auto simp: is_digit_def)
  then show ?thesis
    using string_of_nat_props [of n] cs trim_digits [of "c # s"] by (simp add: string_to_number_def Let_def)
qed

lemma turnOrdinal_turnId: "n \<le> 2 ^ 53 \<Longrightarrow> turnOrdinal (turnId n) = int n"
  by (simp add: turnOrdinal_def turnId_def string_to_number_of_nat js_Number_exact)

end
