(* ===== verification/Transcript.thy ===== *)
theory Transcript
  imports Transcript_Model
begin

text \<open>
  The transcript reducer \<open>packages/transcript/src/ops/apply.ts\<close> and the store
  \<open>store/agentTranscript.ts\<close> around it: one function per operation kind, in the order of the
  source, each returning the next state, whether it changed, and the gap of a failed append.
\<close>

definition unchanged :: "agent_state \<Rightarrow> apply_result" where
  "unchanged s = \<lparr>ar_state = s, ar_changed = False, ar_gap = None\<rparr>"

definition changed_to :: "agent_state \<Rightarrow> apply_result" where
  "changed_to s = \<lparr>ar_state = s, ar_changed = True, ar_gap = None\<rparr>"

definition gap_at :: "agent_state \<Rightarrow> nat \<times> nat \<Rightarrow> apply_result" where
  "gap_at s g = \<lparr>ar_state = s, ar_changed = False, ar_gap = Some g\<rparr>"

section \<open>Reset\<close>

text \<open>\<open>new Map(xs.map((x) => [id(x), x]))\<close> and the set of pending ids.\<close>

definition jm_of :: "('a \<Rightarrow> 'k) \<Rightarrow> 'a list \<Rightarrow> ('k, 'a) js_map" where
  "jm_of key xs = foldl (\<lambda>m x. jm_set m (key x) x) [] xs"

definition set_add :: "'a \<Rightarrow> 'a list \<Rightarrow> 'a list" where
  "set_add x xs = (if x \<in> set xs then xs else xs @ [x])"

definition pending_of :: "interaction list \<Rightarrow> string list" where
  "pending_of is = foldl (\<lambda>p i. if ia_state i = IsPending then set_add (ia_interactionId i) p else p) [] is"

definition applyReset :: "transcript_snapshot \<Rightarrow> apply_result" where
  "applyReset sn = changed_to
     \<lparr>as_items = ss_items sn, as_tasks = jm_of tk_taskId (ss_tasks sn),
      as_interactions = jm_of ia_interactionId (ss_interactions sn),
      as_attachments = jm_of at_attachmentId (ss_attachments sn), as_todos = jm_of td_todoId (ss_todos sn),
      as_prompts = jm_of pr_promptId (ss_prompts sn), as_meta = ss_meta sn,
      as_pendingInteractions = pending_of (ss_interactions sn),
      as_hasMoreOlder = (ss_hasMoreOlder sn = Some True)\<rparr>"

section \<open>Turns, steps and frames\<close>

definition turnHeaderToTurn :: "turn_header \<Rightarrow> step list \<Rightarrow> turn" where
  "turnHeaderToTurn header steps = turn_header.extend header \<lparr>tn_steps = steps\<rparr>"

definition stepHeaderToStep :: "step_header \<Rightarrow> frame list \<Rightarrow> step" where
  "stepHeaderToStep header frames = step_header.extend header \<lparr>sp_frames = frames\<rparr>"

definition skeletonTurn :: "string \<Rightarrow> turn" where
  "skeletonTurn i =
     \<lparr>tn_turnId = i, tn_ordinal = turnOrdinal i, tn_state = TuRunning,
      tn_origin = \<lparr>og_kind = OgOther, og_taskId = None, og_payload = None\<rparr>, tn_prompt = None,
      tn_attachmentIds = None, tn_startedAt = None, tn_endedAt = None, tn_usage = None, tn_durationMs = None,
      tn_error = None, tn_steps = []\<rparr>"

definition skeletonStep :: "string \<Rightarrow> string \<Rightarrow> step" where
  "skeletonStep si ti =
     \<lparr>sp_stepId = si, sp_turnId = ti,
      sp_ordinal = (case string_to_number (drop (length ti + 1) si) of None \<Rightarrow> 0 | Some n \<Rightarrow> n),
      sp_state = StRunning, sp_startedAt = None, sp_endedAt = None, sp_usage = None, sp_finishReason = None,
      sp_timing = None, sp_retry = None, sp_endReason = None, sp_endMessage = None, sp_frames = []\<rparr>"

fun find_turn :: "item list \<Rightarrow> string \<Rightarrow> turn option" where
  "find_turn [] i = None"
| "find_turn (Turn t # xs) i = (if tn_turnId t = i then Some t else find_turn xs i)"
| "find_turn (_ # xs) i = find_turn xs i"

definition getTurn :: "agent_state \<Rightarrow> string \<Rightarrow> turn option" where
  "getTurn s i = find_turn (as_items s) i"

text \<open>The two placement loops: \<open>splice\<close> before the first turn whose ordinal passes a test.\<close>

fun insert_before :: "(int \<Rightarrow> bool) \<Rightarrow> item \<Rightarrow> item list \<Rightarrow> item list" where
  "insert_before P x [] = [x]"
| "insert_before P x (Turn t # xs) = (if P (tn_ordinal t) then x # Turn t # xs else Turn t # insert_before P x xs)"
| "insert_before P x (y # xs) = y # insert_before P x xs"

definition insertTurn :: "item list \<Rightarrow> turn \<Rightarrow> item list" where
  "insertTurn items turn = insert_before (\<lambda>n. n > tn_ordinal turn) (Turn turn) items"

definition replaceTurn :: "item list \<Rightarrow> string \<Rightarrow> (turn \<Rightarrow> turn) \<Rightarrow> item list" where
  "replaceTurn items i f =
     map (\<lambda>e. case e of Turn t \<Rightarrow> if tn_turnId t = i then Turn (f t) else e | _ \<Rightarrow> e) items"

definition turnEquals :: "turn \<Rightarrow> turn_header \<Rightarrow> bool" where
  "turnEquals t h \<longleftrightarrow> tn_ordinal t = tn_ordinal h \<and> tn_state t = tn_state h \<and> tn_prompt t = tn_prompt h
     \<and> tn_attachmentIds t = tn_attachmentIds h \<and> tn_startedAt t = tn_startedAt h
     \<and> tn_endedAt t = tn_endedAt h \<and> og_kind (tn_origin t) = og_kind (tn_origin h)
     \<and> og_payload (tn_origin t) = og_payload (tn_origin h) \<and> tn_usage t = tn_usage h
     \<and> tn_durationMs t = tn_durationMs h \<and> tn_error t = tn_error h"

definition applyTurnUpsert :: "agent_state \<Rightarrow> turn_header \<Rightarrow> apply_result" where
  "applyTurnUpsert s header =
     (case getTurn s (tn_turnId header) of
        Some existing \<Rightarrow>
          if turnEquals existing header then unchanged s
          else changed_to (s\<lparr>as_items := replaceTurn (as_items s) (tn_turnId header)
                               (\<lambda>turn. turnHeaderToTurn header (tn_steps turn))\<rparr>)
      | None \<Rightarrow> changed_to (s\<lparr>as_items := insertTurn (as_items s) (turnHeaderToTurn header [])\<rparr>))"

definition stepEquals :: "step \<Rightarrow> step_header \<Rightarrow> bool" where
  "stepEquals t h \<longleftrightarrow> sp_ordinal t = sp_ordinal h \<and> sp_state t = sp_state h \<and> sp_startedAt t = sp_startedAt h
     \<and> sp_endedAt t = sp_endedAt h \<and> sp_usage t = sp_usage h \<and> sp_finishReason t = sp_finishReason h
     \<and> sp_timing t = sp_timing h \<and> sp_retry t = sp_retry h \<and> sp_endReason t = sp_endReason h
     \<and> sp_endMessage t = sp_endMessage h"

definition find_step :: "step list \<Rightarrow> string \<Rightarrow> step option" where
  "find_step steps i = find (\<lambda>t. sp_stepId t = i) steps"

definition find_frame :: "frame list \<Rightarrow> string \<Rightarrow> frame option" where
  "find_frame frames i = find (\<lambda>f. frame_id f = i) frames"

text \<open>\<open>steps.toSorted((a, b) => a.ordinal - b.ordinal)\<close> is a stable sort.\<close>

definition sort_steps :: "step list \<Rightarrow> step list" where
  "sort_steps steps = sort_key sp_ordinal steps"

text \<open>The last statement of the step and frame upserts: put the turn back, or insert it.\<close>

definition place_turn :: "agent_state \<Rightarrow> string \<Rightarrow> turn \<Rightarrow> agent_state" where
  "place_turn s i turn =
     s\<lparr>as_items := (if getTurn s i \<noteq> None then replaceTurn (as_items s) i (\<lambda>_. turn)
                   else insertTurn (as_items s) turn)\<rparr>"

definition applyStepUpsert :: "agent_state \<Rightarrow> string \<Rightarrow> step_header \<Rightarrow> apply_result" where
  "applyStepUpsert s i header =
     (let turn = (case getTurn s i of Some t \<Rightarrow> t | None \<Rightarrow> skeletonTurn i) in
      case find_step (tn_steps turn) (sp_stepId header) of
        Some current \<Rightarrow>
          if stepEquals current header then unchanged s
          else changed_to (place_turn s i (turn\<lparr>tn_steps :=
                 map (\<lambda>t. if sp_stepId t = sp_stepId header then stepHeaderToStep header (sp_frames t) else t)
                   (tn_steps turn)\<rparr>))
      | None \<Rightarrow>
          changed_to (place_turn s i (turn\<lparr>tn_steps := sort_steps (tn_steps turn @ [stepHeaderToStep header []])\<rparr>)))"

fun frameEquals :: "frame \<Rightarrow> frame \<Rightarrow> bool" where
  "frameEquals (TextFrame a) (TextFrame b) \<longleftrightarrow> tx_text a = tx_text b \<and> tx_role a = tx_role b
     \<and> tx_attachmentIds a = tx_attachmentIds b \<and> tx_taskId a = tx_taskId b"
| "frameEquals (ThinkingFrame a) (ThinkingFrame b) \<longleftrightarrow> th_text a = th_text b"
| "frameEquals (ToolFrame a) (ToolFrame b) \<longleftrightarrow> tl_state a = tl_state b \<and> tl_toolCallId a = tl_toolCallId b
     \<and> tl_name a = tl_name b \<and> tl_view a = tl_view b \<and> tl_input a = tl_input b \<and> tl_output a = tl_output b
     \<and> tl_display a = tl_display b \<and> tl_error a = tl_error b \<and> tl_inputText a = tl_inputText b
     \<and> tl_progress a = tl_progress b \<and> tl_taskId a = tl_taskId b \<and> tl_approvalId a = tl_approvalId b
     \<and> tl_todoId a = tl_todoId b \<and> tl_agentRefs a = tl_agentRefs b"
| "frameEquals (NoticeFrame a) (NoticeFrame b) \<longleftrightarrow> no_message a = no_message b \<and> no_level a = no_level b
     \<and> no_detail a = no_detail b"
| "frameEquals _ _ \<longleftrightarrow> False"

definition replace_frame :: "string \<Rightarrow> frame \<Rightarrow> frame list \<Rightarrow> frame list" where
  "replace_frame i new frames = map (\<lambda>f. if frame_id f = i then new else f) frames"

definition replace_step :: "string \<Rightarrow> step \<Rightarrow> step list \<Rightarrow> step list" where
  "replace_step i new steps = map (\<lambda>t. if sp_stepId t = i then new else t) steps"

definition applyFrameUpsert :: "agent_state \<Rightarrow> string \<Rightarrow> string \<Rightarrow> frame \<Rightarrow> apply_result" where
  "applyFrameUpsert s ti si frame =
     (let turn = (case getTurn s ti of Some t \<Rightarrow> t | None \<Rightarrow> skeletonTurn ti);
          existingStep = find_step (tn_steps turn) si;
          step = (case existingStep of Some t \<Rightarrow> t | None \<Rightarrow> skeletonStep si ti);
          current = find_frame (sp_frames step) (frame_id frame);
          frames = (if current \<noteq> None then replace_frame (frame_id frame) frame (sp_frames step)
                    else sp_frames step @ [frame]);
          nextStep = step\<lparr>sp_frames := frames\<rparr>;
          steps = (if existingStep \<noteq> None then replace_step si nextStep (tn_steps turn)
                   else sort_steps (tn_steps turn @ [nextStep]))
      in if (case current of Some f \<Rightarrow> frameEquals f frame | None \<Rightarrow> False) then unchanged s
         else changed_to (place_turn s ti (turn\<lparr>tn_steps := steps\<rparr>)))"

section \<open>Append\<close>

record append_result =
  mg_text :: string
  mg_changed :: bool
  mg_gap :: "(nat \<times> nat) option"

definition appendAtOffset :: "string \<Rightarrow> nat \<Rightarrow> string \<Rightarrow> append_result" where
  "appendAtOffset loc offset chunk =
     (if offset > length loc then \<lparr>mg_text = loc, mg_changed = False, mg_gap = Some (length loc, offset)\<rparr>
      else if startsWithAt loc chunk offset then \<lparr>mg_text = loc, mg_changed = False, mg_gap = None\<rparr>
      else let overlap = length loc - offset in
        if drop offset loc \<noteq> take overlap chunk
        then \<lparr>mg_text = loc, mg_changed = False, mg_gap = Some (length loc, offset)\<rparr>
        else let novel = (if overlap > 0 then drop overlap chunk else chunk) in
          if length novel = 0 then \<lparr>mg_text = loc, mg_changed = False, mg_gap = None\<rparr>
          else let head = (if offset = length loc then loc else take offset loc)
               in \<lparr>mg_text = head @ chunk, mg_changed = True, mg_gap = None\<rparr>)"

fun frame_text :: "frame \<Rightarrow> string option" where
  "frame_text (TextFrame f) = Some (tx_text f)"
| "frame_text (ThinkingFrame f) = Some (th_text f)"
| "frame_text _ = None"

fun set_frame_text :: "string \<Rightarrow> frame \<Rightarrow> frame" where
  "set_frame_text t (TextFrame f) = TextFrame (f\<lparr>tx_text := t\<rparr>)"
| "set_frame_text t (ThinkingFrame f) = ThinkingFrame (f\<lparr>th_text := t\<rparr>)"
| "set_frame_text t f = f"

text \<open>The look-up chain \<open>turn?.steps.find(...)?.frames.find(...)\<close> of an append target.\<close>

definition append_frame_target :: "agent_state \<Rightarrow> string \<Rightarrow> string \<Rightarrow> string \<Rightarrow> (turn \<times> step \<times> frame \<times> string) option" where
  "append_frame_target s ti si fi =
     (case getTurn s ti of
        None \<Rightarrow> None
      | Some turn \<Rightarrow>
          (case find_step (tn_steps turn) si of
             None \<Rightarrow> None
           | Some step \<Rightarrow>
               (case find_frame (sp_frames step) fi of
                  None \<Rightarrow> None
                | Some frame \<Rightarrow> map_option (\<lambda>t. (turn, step, frame, t)) (frame_text frame))))"

definition applyTaskAppend :: "agent_state \<Rightarrow> string \<Rightarrow> append_op \<Rightarrow> apply_result" where
  "applyTaskAppend s i op =
     (let task = jm_get (as_tasks s) i;
          current = (case task of Some t \<Rightarrow> tk_outputTail t | None \<Rightarrow> []);
          merged = appendAtOffset current (ap_offset op) (ap_text op)
      in case mg_gap merged of
           Some g \<Rightarrow> gap_at s g
         | None \<Rightarrow>
             if \<not> mg_changed merged then unchanged s
             else let nextTask = (case task of
                        Some t \<Rightarrow> t\<lparr>tk_outputTail := mg_text merged\<rparr>
                      | None \<Rightarrow> \<lparr>tk_taskId = i, tk_kind = TkOther, tk_state = TsRunning, tk_detached = False,
                                 tk_description = None, tk_agentId = None, tk_outputTail = mg_text merged,
                                 tk_startedAt = None, tk_endedAt = None, tk_resultSummary = None,
                                 tk_error = None, tk_stateReason = None, tk_usage = None\<rparr>)
                  in changed_to (s\<lparr>as_tasks := jm_set (as_tasks s) i nextTask\<rparr>))"

definition applyAppend :: "agent_state \<Rightarrow> append_op \<Rightarrow> apply_result" where
  "applyAppend s op =
     (case ap_target op of
        TaskTarget i \<Rightarrow> applyTaskAppend s i op
      | FrameTarget ti si fi \<Rightarrow>
          (case append_frame_target s ti si fi of
             None \<Rightarrow> gap_at s (0, ap_offset op)
           | Some (turn, step, frame, text) \<Rightarrow>
               let merged = appendAtOffset text (ap_offset op) (ap_text op) in
               (case mg_gap merged of
                  Some g \<Rightarrow> gap_at s g
                | None \<Rightarrow>
                    if \<not> mg_changed merged then unchanged s
                    else let nextFrame = set_frame_text (mg_text merged) frame;
                             nextStep = step\<lparr>sp_frames := replace_frame fi nextFrame (sp_frames step)\<rparr>;
                             nextTurn = turn\<lparr>tn_steps := replace_step si nextStep (tn_steps turn)\<rparr>
                         in changed_to (s\<lparr>as_items := replaceTurn (as_items s) ti (\<lambda>_. nextTurn)\<rparr>))))"

section \<open>Standalone items\<close>

definition applyItemUpsert :: "agent_state \<Rightarrow> item \<Rightarrow> string \<Rightarrow> int option \<Rightarrow> apply_result" where
  "applyItemUpsert s item i beforeTurn =
     (if list_ex (\<lambda>e. itemIdOf e = i) (as_items s) then
        if list_all (\<lambda>e. itemIdOf e = i \<longrightarrow> same_object e item) (as_items s) then unchanged s
        else changed_to (s\<lparr>as_items :=
               map (\<lambda>e. if itemIdOf e \<noteq> i then e else if same_object e item then e else item) (as_items s)\<rparr>)
      else case beforeTurn of
             Some b \<Rightarrow> changed_to (s\<lparr>as_items := insert_before (\<lambda>n. n \<ge> b) item (as_items s)\<rparr>)
           | None \<Rightarrow> changed_to (s\<lparr>as_items := as_items s @ [item]\<rparr>))"

text \<open>The tool calls shown inside a turn.\<close>

definition turn_tool_calls :: "turn \<Rightarrow> string list" where
  "turn_tool_calls turn =
     concat (map (\<lambda>step. concat (map (\<lambda>f. case f of ToolFrame t \<Rightarrow> [tl_toolCallId t] | _ \<Rightarrow> []) (sp_frames step)))
       (tn_steps turn))"

definition removed_tool_calls :: "item list \<Rightarrow> string list \<Rightarrow> string list" where
  "removed_tool_calls items ids =
     concat (map (\<lambda>e. case e of Turn t \<Rightarrow> if tn_turnId t \<in> set ids then turn_tool_calls t else [] | _ \<Rightarrow> []) items)"

definition anchored_in :: "string list \<Rightarrow> interaction \<Rightarrow> bool" where
  "anchored_in calls i \<longleftrightarrow> (case ia_toolCallId i of None \<Rightarrow> False | Some c \<Rightarrow> c \<in> set calls)"

definition applyItemsRemove :: "agent_state \<Rightarrow> string list \<Rightarrow> apply_result" where
  "applyItemsRemove s ids =
     (let items = filter (\<lambda>e. itemIdOf e \<notin> set ids) (as_items s);
          calls = removed_tool_calls (as_items s) ids;
          dead = map ia_interactionId (filter (anchored_in calls) (map snd (as_interactions s)))
      in if length items = length (as_items s) then unchanged s
         else changed_to (s\<lparr>as_items := items,
                as_interactions := foldl jm_delete (as_interactions s) dead,
                as_pendingInteractions := filter (\<lambda>i. i \<notin> set dead) (as_pendingInteractions s)\<rparr>))"

section \<open>Entities and metadata\<close>

definition taskEquals :: "ttask \<Rightarrow> ttask \<Rightarrow> bool" where
  "taskEquals a b \<longleftrightarrow> tk_kind a = tk_kind b \<and> tk_state a = tk_state b \<and> tk_detached a = tk_detached b
     \<and> tk_description a = tk_description b \<and> tk_agentId a = tk_agentId b \<and> tk_outputTail a = tk_outputTail b
     \<and> tk_startedAt a = tk_startedAt b \<and> tk_endedAt a = tk_endedAt b \<and> tk_resultSummary a = tk_resultSummary b
     \<and> tk_error a = tk_error b \<and> tk_stateReason a = tk_stateReason b \<and> tk_usage a = tk_usage b"

definition applyTaskUpsert :: "agent_state \<Rightarrow> ttask \<Rightarrow> apply_result" where
  "applyTaskUpsert s task =
     (if (case jm_get (as_tasks s) (tk_taskId task) of Some c \<Rightarrow> taskEquals c task | None \<Rightarrow> False) then unchanged s
      else changed_to (s\<lparr>as_tasks := jm_set (as_tasks s) (tk_taskId task) task\<rparr>))"

definition interactionEquals :: "interaction \<Rightarrow> interaction \<Rightarrow> bool" where
  "interactionEquals a b \<longleftrightarrow> ia_interactionKind a = ia_interactionKind b \<and> ia_toolCallId a = ia_toolCallId b
     \<and> ia_state a = ia_state b \<and> ia_request a = ia_request b \<and> ia_response a = ia_response b"

definition applyInteractionUpsert :: "agent_state \<Rightarrow> interaction \<Rightarrow> apply_result" where
  "applyInteractionUpsert s i =
     (if (case jm_get (as_interactions s) (ia_interactionId i) of Some c \<Rightarrow> interactionEquals c i | None \<Rightarrow> False)
      then unchanged s
      else changed_to (s\<lparr>as_interactions := jm_set (as_interactions s) (ia_interactionId i) i,
             as_pendingInteractions :=
               (if ia_state i = IsPending then set_add (ia_interactionId i) (as_pendingInteractions s)
                else filter (\<lambda>x. x \<noteq> ia_interactionId i) (as_pendingInteractions s))\<rparr>))"

definition attachmentEquals :: "attachment \<Rightarrow> attachment \<Rightarrow> bool" where
  "attachmentEquals a b \<longleftrightarrow> at_mediaType a = at_mediaType b \<and> at_name a = at_name b \<and> at_size a = at_size b
     \<and> at_source a = at_source b \<and> at_placeholder a = at_placeholder b"

definition applyAttachmentUpsert :: "agent_state \<Rightarrow> attachment \<Rightarrow> apply_result" where
  "applyAttachmentUpsert s a =
     (if (case jm_get (as_attachments s) (at_attachmentId a) of Some c \<Rightarrow> attachmentEquals c a | None \<Rightarrow> False)
      then unchanged s
      else changed_to (s\<lparr>as_attachments := jm_set (as_attachments s) (at_attachmentId a) a\<rparr>))"

definition todoEquals :: "todo \<Rightarrow> todo \<Rightarrow> bool" where
  "todoEquals a b \<longleftrightarrow> td_items a = td_items b \<and> td_updatedAt a = td_updatedAt b"

definition applyTodoUpsert :: "agent_state \<Rightarrow> todo \<Rightarrow> apply_result" where
  "applyTodoUpsert s t =
     (if (case jm_get (as_todos s) (td_todoId t) of Some c \<Rightarrow> todoEquals c t | None \<Rightarrow> False) then unchanged s
      else changed_to (s\<lparr>as_todos := jm_set (as_todos s) (td_todoId t) t\<rparr>))"

definition promptEquals :: "tprompt \<Rightarrow> tprompt \<Rightarrow> bool" where
  "promptEquals a b \<longleftrightarrow> pr_status a = pr_status b \<and> pr_userMessageId a = pr_userMessageId b
     \<and> pr_content a = pr_content b \<and> pr_createdAt a = pr_createdAt b \<and> pr_finishedAt a = pr_finishedAt b
     \<and> pr_steeredAt a = pr_steeredAt b"

definition applyPromptUpsert :: "agent_state \<Rightarrow> tprompt \<Rightarrow> apply_result" where
  "applyPromptUpsert s p =
     (if (case jm_get (as_prompts s) (pr_promptId p) of Some c \<Rightarrow> promptEquals c p | None \<Rightarrow> False) then unchanged s
      else changed_to (s\<lparr>as_prompts := jm_set (as_prompts s) (pr_promptId p) p\<rparr>))"

text \<open>\<open>b ?? a\<close> of two optional values.\<close>

definition coalesce :: "'a option \<Rightarrow> 'a option \<Rightarrow> 'a option" where
  "coalesce b a = (case b of None \<Rightarrow> a | Some x \<Rightarrow> Some x)"

fun patch_mode :: "mode_patch \<Rightarrow> jsref option \<Rightarrow> jsref option" where
  "patch_mode Null old = None"
| "patch_mode Absent old = old"
| "patch_mode (Badge b) old = Some b"

text \<open>The spread \<open>{ ...old, ...new }\<close> of two agent statuses.\<close>

definition merge_agent :: "agent_status option \<Rightarrow> agent_status \<Rightarrow> agent_status" where
  "merge_agent old new =
     (case old of
        None \<Rightarrow> new
      | Some a \<Rightarrow>
          \<lparr>ag_model = coalesce (ag_model new) (ag_model a),
           ag_thinkingEffort = coalesce (ag_thinkingEffort new) (ag_thinkingEffort a),
           ag_usage = coalesce (ag_usage new) (ag_usage a),
           ag_contextTokens = coalesce (ag_contextTokens new) (ag_contextTokens a),
           ag_maxContextTokens = coalesce (ag_maxContextTokens new) (ag_maxContextTokens a),
           ag_contextUsage = coalesce (ag_contextUsage new) (ag_contextUsage a),
           ag_permission = coalesce (ag_permission new) (ag_permission a),
           ag_phase = coalesce (ag_phase new) (ag_phase a)\<rparr>)"

text \<open>A merged \<open>modes\<close> or \<open>agent\<close> is a new object and so never \<open>===\<close> to the old one;
  a carried over one is \<open>===\<close>.\<close>

definition applyMetaMerge :: "agent_state \<Rightarrow> meta_merge \<Rightarrow> apply_result" where
  "applyMetaMerge s m =
     (let old = as_meta s;
          old_plan = Option.bind (me_modes old) md_plan;
          old_swarm = Option.bind (me_modes old) md_swarm;
          modes = (case mm_modes m of
                     Some p \<Rightarrow> Some \<lparr>md_plan = patch_mode (mp_plan p) old_plan,
                                    md_swarm = patch_mode (mp_swarm p) old_swarm\<rparr>
                   | None \<Rightarrow> me_modes old);
          next_modes = (if modes = Some \<lparr>md_plan = None, md_swarm = None\<rparr> then None else modes);
          next = \<lparr>me_goal = coalesce (mm_goal m) (me_goal old), me_modes = next_modes,
                  me_activity = coalesce (mm_activity m) (me_activity old),
                  me_agent = (case mm_agent m of Some a \<Rightarrow> Some (merge_agent (me_agent old) a)
                              | None \<Rightarrow> me_agent old)\<rparr>;
          modes_same = (if mm_modes m = None then next_modes = me_modes old
                        else next_modes = None \<and> me_modes old = None)
      in if me_goal next = me_goal old \<and> me_activity next = me_activity old \<and> modes_same \<and> mm_agent m = None
         then unchanged s else changed_to (s\<lparr>as_meta := next\<rparr>))"

section \<open>The reducer\<close>

fun applyOperation :: "agent_state \<Rightarrow> operation \<Rightarrow> apply_result" where
  "applyOperation s (ResetOp i sn) = applyReset sn"
| "applyOperation s (TurnUpsert h) = applyTurnUpsert s h"
| "applyOperation s (StepUpsert i h) = applyStepUpsert s i h"
| "applyOperation s (FrameUpsert ti si f) = applyFrameUpsert s ti si f"
| "applyOperation s (Append op) = applyAppend s op"
| "applyOperation s (MarkerUpsert m b) = applyItemUpsert s (Marker m) (mk_markerId m) b"
| "applyOperation s (TaskRefUpsert r b) = applyItemUpsert s (TaskRef r) (tr_refId r) b"
| "applyOperation s (TaskUpsert t) = applyTaskUpsert s t"
| "applyOperation s (InteractionUpsert i) = applyInteractionUpsert s i"
| "applyOperation s (AttachmentUpsert a) = applyAttachmentUpsert s a"
| "applyOperation s (TodoUpsert t) = applyTodoUpsert s t"
| "applyOperation s (PromptUpsert p) = applyPromptUpsert s p"
| "applyOperation s (MetaMerge m) = applyMetaMerge s m"
| "applyOperation s (ItemsRemove ids) = applyItemsRemove s ids"

section \<open>\<open>AgentTranscript\<close>\<close>

fun op_target :: "operation \<Rightarrow> append_target option" where
  "op_target (Append op) = Some (ap_target op)"
| "op_target _ = None"

record applied_ops =
  ao_accepted :: "operation list"
  ao_gap :: "(append_target option \<times> nat \<times> nat) option"

text \<open>The loop of \<open>apply\<close>: accepted operations, last gap, state.\<close>

fun apply_loop :: "agent_state \<Rightarrow> applied_ops \<Rightarrow> operation list \<Rightarrow> applied_ops \<times> agent_state" where
  "apply_loop s acc [] = (acc, s)"
| "apply_loop s acc (op # ops) =
     (let result = applyOperation s op in
      case ar_gap result of
        Some g \<Rightarrow> apply_loop s (acc\<lparr>ao_gap := Some (op_target op, g)\<rparr>) ops
      | None \<Rightarrow>
          if \<not> ar_changed result then apply_loop s acc ops
          else apply_loop (ar_state result) (acc\<lparr>ao_accepted := ao_accepted acc @ [op]\<rparr>) ops)"

record agent_transcript =
  tt_agentId :: string
  tt_state :: agent_state
  tt_events :: "operation list list"

text \<open>\<open>apply\<close>, with the change events handed to the listeners in \<open>tt_events\<close>.\<close>

definition transcript_apply :: "operation list \<Rightarrow> agent_transcript \<Rightarrow> applied_ops \<times> agent_transcript" where
  "transcript_apply ops t =
     (let (applied, s) = apply_loop (tt_state t) \<lparr>ao_accepted = [], ao_gap = None\<rparr> ops
      in (applied, t\<lparr>tt_state := s,
            tt_events := (if ao_accepted applied \<noteq> [] then tt_events t @ [ao_accepted applied] else tt_events t)\<rparr>))"

fun snapshot_loop :: "nat \<Rightarrow> nat \<Rightarrow> item list \<Rightarrow> item list" where
  "snapshot_loop skip seen [] = []"
| "snapshot_loop skip seen (e # es) =
     (if is_turn e then (if seen + 1 \<le> skip then snapshot_loop skip (seen + 1) es
                         else e # snapshot_loop skip (seen + 1) es)
      else if seen > skip then e # snapshot_loop skip seen es
      else snapshot_loop skip seen es)"

definition transcript_snapshot :: "nat option \<Rightarrow> agent_state \<Rightarrow> transcript_snapshot" where
  "transcript_snapshot window s =
     (let turnCount = length (filter is_turn (as_items s));
          cut = (case window of Some n \<Rightarrow> turnCount > n | None \<Rightarrow> False)
      in \<lparr>ss_items = (if cut then snapshot_loop (turnCount - the window) 0 (as_items s) else as_items s),
          ss_tasks = map snd (as_tasks s), ss_interactions = map snd (as_interactions s),
          ss_attachments = map snd (as_attachments s), ss_todos = map snd (as_todos s),
          ss_prompts = map snd (as_prompts s), ss_meta = as_meta s,
          ss_hasMoreOlder = Some (cut \<or> as_hasMoreOlder s)\<rparr>)"

section \<open>Looking things up after a change\<close>

lemma find_replace:
  "key new = i \<Longrightarrow> find (\<lambda>t. key t = i) (map (\<lambda>t. if key t = i then new else t) xs)
     = map_option (\<lambda>_. new) (find (\<lambda>t. key t = i) xs)"
  by (induction xs) auto

lemma find_update:
  "(\<And>t. key t = i \<Longrightarrow> key (f t) = i) \<Longrightarrow>
   find (\<lambda>t. key t = i) (map (\<lambda>t. if key t = i then f t else t) xs) = map_option f (find (\<lambda>t. key t = i) xs)"
  by (induction xs) auto

lemma find_SomeD: "find P xs = Some x \<Longrightarrow> x \<in> set xs \<and> P x"
  by (induction xs) (auto split: if_splits)

lemma find_unique:
  assumes "x \<in> set xs" "P x" "\<And>y. y \<in> set xs \<Longrightarrow> P y \<Longrightarrow> y = x"
  shows "find P xs = Some x"
proof (cases "find P xs")
  case None
  then show ?thesis using assms(1,2) by (auto simp: find_None_iff)
next
  case (Some y)
  then show ?thesis using assms(3) [of y] find_SomeD [of P xs y] by simp
qed

lemma find_step_replace [simp]:
  "sp_stepId new = i \<Longrightarrow> find_step (replace_step i new steps) i = map_option (\<lambda>_. new) (find_step steps i)"
  unfolding find_step_def replace_step_def by (rule find_replace)

lemma find_step_header:
  "sp_stepId h = i \<Longrightarrow>
   find_step (map (\<lambda>t. if sp_stepId t = i then stepHeaderToStep h (sp_frames t) else t) steps) i
     = map_option (\<lambda>t. stepHeaderToStep h (sp_frames t)) (find_step steps i)"
  unfolding find_step_def by (rule find_update) (simp add: stepHeaderToStep_def step_header.defs)

lemma find_step_sorted:
  "find_step steps (sp_stepId new) = None \<Longrightarrow> find_step (sort_steps (steps @ [new])) (sp_stepId new) = Some new"
  unfolding find_step_def sort_steps_def by (rule find_unique) (auto simp: find_None_iff)

lemma find_step_id: "find_step steps i = Some t \<Longrightarrow> sp_stepId t = i"
  unfolding find_step_def by (drule find_SomeD) simp

lemma find_frame_id: "find_frame frames i = Some f \<Longrightarrow> frame_id f = i"
  unfolding find_frame_def by (drule find_SomeD) simp

lemma find_frame_replace [simp]:
  "frame_id new = i \<Longrightarrow> find_frame (replace_frame i new frames) i = map_option (\<lambda>_. new) (find_frame frames i)"
  unfolding find_frame_def replace_frame_def by (rule find_replace)

lemma find_frame_snoc: "find_frame frames (frame_id f) = None \<Longrightarrow> find_frame (frames @ [f]) (frame_id f) = Some f"
  unfolding find_frame_def by (induction frames) (auto split: if_splits)

lemma find_turn_id: "find_turn xs i = Some t \<Longrightarrow> tn_turnId t = i"
  by (induction xs i rule: find_turn.induct) (auto split: if_splits)

lemma find_turn_replace:
  "(\<And>t. tn_turnId t = i \<Longrightarrow> tn_turnId (f t) = i) \<Longrightarrow>
   find_turn (replaceTurn xs i f) i = map_option f (find_turn xs i)"
  unfolding replaceTurn_def by (induction xs i rule: find_turn.induct) auto

lemma find_turn_insert:
  "find_turn xs (tn_turnId t) = None \<Longrightarrow> find_turn (insert_before P (Turn t) xs) (tn_turnId t) = Some t"
  by (induction P "Turn t" xs rule: insert_before.induct) (auto split: if_splits)

lemma getTurn_place:
  assumes "tn_turnId turn = i"
  shows "getTurn (place_turn s i turn) i = Some turn"
proof (cases "getTurn s i")
  case None
  then show ?thesis
    using assms find_turn_insert [of "as_items s" turn] by (simp add: place_turn_def getTurn_def insertTurn_def)
next
  case (Some t)
  then show ?thesis
    using assms find_turn_replace [of i "\<lambda>_. turn" "as_items s"] by (simp add: place_turn_def getTurn_def)
qed

lemma turnHeader_fields [simp]:
  "tn_turnId (turnHeaderToTurn h steps) = tn_turnId h" "tn_steps (turnHeaderToTurn h steps) = steps"
  "turnEquals (turnHeaderToTurn h steps) h" "sp_stepId (stepHeaderToStep k frames) = sp_stepId k"
  "sp_frames (stepHeaderToStep k frames) = frames" "stepEquals (stepHeaderToStep k frames) k"
  "tn_ordinal (turnHeaderToTurn h steps) = tn_ordinal h" "sp_ordinal (stepHeaderToStep k frames) = sp_ordinal k"
  by (simp_all add: turnHeaderToTurn_def turn_header.defs turnEquals_def stepHeaderToStep_def step_header.defs stepEquals_def)

lemma skeleton_fields [simp]:
  "tn_turnId (skeletonTurn i) = i" "tn_steps (skeletonTurn i) = []" "tn_ordinal (skeletonTurn i) = turnOrdinal i"
  "sp_stepId (skeletonStep j i) = j" "sp_frames (skeletonStep j i) = []"
  by (simp_all add: skeletonTurn_def skeletonStep_def)

lemma frameEquals_refl [simp]: "frameEquals f f"
  by (cases f) simp_all

lemma result_fields [simp]:
  "ar_state (unchanged s) = s" "ar_state (changed_to s) = s" "ar_state (gap_at s g) = s"
  "ar_changed (unchanged s) = False" "ar_changed (changed_to s) = True" "ar_changed (gap_at s g) = False"
  "ar_gap (unchanged s) = None" "ar_gap (changed_to s) = None" "ar_gap (gap_at s g) = Some g"
  by (simp_all add: unchanged_def changed_to_def gap_at_def)

section \<open>Every operation is idempotent\<close>

definition absorbed :: "agent_state \<Rightarrow> operation \<Rightarrow> bool" where
  "absorbed s op \<longleftrightarrow> ar_state (applyOperation s op) = s"

lemma absorbed_turn: "absorbed (ar_state (applyTurnUpsert s h)) (TurnUpsert h)"
proof (cases "getTurn s (tn_turnId h)")
  case None
  then have "getTurn (s\<lparr>as_items := insertTurn (as_items s) (turnHeaderToTurn h [])\<rparr>) (tn_turnId h)
      = Some (turnHeaderToTurn h [])"
    using find_turn_insert [of "as_items s" "turnHeaderToTurn h []"] by (simp add: getTurn_def insertTurn_def)
  then show ?thesis
    using None by (simp add: absorbed_def applyTurnUpsert_def)
next
  case (Some t)
  then have "getTurn (s\<lparr>as_items := replaceTurn (as_items s) (tn_turnId h) (\<lambda>u. turnHeaderToTurn h (tn_steps u))\<rparr>)
      (tn_turnId h) = Some (turnHeaderToTurn h (tn_steps t))"
    by (simp add: getTurn_def find_turn_replace)
  then show ?thesis
    using Some by (simp add: absorbed_def applyTurnUpsert_def)
qed

text \<open>The turn that the step and frame operations start from.\<close>

definition turn_or_skeleton :: "agent_state \<Rightarrow> string \<Rightarrow> turn" where
  "turn_or_skeleton s i = (case getTurn s i of Some t \<Rightarrow> t | None \<Rightarrow> skeletonTurn i)"

lemma turn_or_skeleton_id [simp]: "tn_turnId (turn_or_skeleton s i) = i"
  by (auto simp: turn_or_skeleton_def getTurn_def dest: find_turn_id split: option.split)

lemma turn_or_skeleton_place [simp]: "tn_turnId t = i \<Longrightarrow> turn_or_skeleton (place_turn s i t) i = t"
  by (simp add: turn_or_skeleton_def getTurn_place)

lemma absorbed_step: "absorbed (ar_state (applyStepUpsert s i h)) (StepUpsert i h)"
proof (cases "ar_changed (applyStepUpsert s i h)")
  case False
  then show ?thesis
    by (auto simp: absorbed_def applyStepUpsert_def Let_def split: option.splits if_splits)
next
  case True
  then obtain steps t where st: "ar_state (applyStepUpsert s i h) = place_turn s i ((turn_or_skeleton s i)\<lparr>tn_steps := steps\<rparr>)"
    and f: "find_step steps (sp_stepId h) = Some t" "stepEquals t h"
    using find_step_sorted [of _ "stepHeaderToStep h []"]
    by (auto simp: applyStepUpsert_def turn_or_skeleton_def [symmetric] Let_def find_step_header split: option.splits if_splits)
  then show ?thesis
    by (simp add: absorbed_def applyStepUpsert_def turn_or_skeleton_def [symmetric] Let_def)
qed

text \<open>The step that a frame operation starts from, and the steps with the frame put in.\<close>

definition step_or_skeleton :: "turn \<Rightarrow> string \<Rightarrow> string \<Rightarrow> step" where
  "step_or_skeleton turn si ti = (case find_step (tn_steps turn) si of Some t \<Rightarrow> t | None \<Rightarrow> skeletonStep si ti)"

definition put_frame :: "frame \<Rightarrow> frame list \<Rightarrow> frame list" where
  "put_frame f frames =
     (if find_frame frames (frame_id f) \<noteq> None then replace_frame (frame_id f) f frames else frames @ [f])"

definition put_step :: "step \<Rightarrow> step list \<Rightarrow> step list" where
  "put_step t steps =
     (if find_step steps (sp_stepId t) \<noteq> None then replace_step (sp_stepId t) t steps else sort_steps (steps @ [t]))"

lemma step_or_skeleton_id [simp]: "sp_stepId (step_or_skeleton turn si ti) = si"
  by (auto simp: step_or_skeleton_def dest: find_step_id split: option.split)

lemma find_put_frame [simp]: "find_frame (put_frame f frames) (frame_id f) = Some f"
  by (auto simp: put_frame_def find_frame_snoc)

lemma find_put_step [simp]: "find_step (put_step t steps) (sp_stepId t) = Some t"
  by (auto simp: put_step_def find_step_sorted)

lemma find_put_step' [simp]: "sp_stepId t = i \<Longrightarrow> find_step (put_step t steps) i = Some t"
  using find_put_step [of t steps] by simp

text \<open>A frame upsert is a no-op on an equal frame and otherwise puts the frame into its step.\<close>

lemma applyFrameUpsert_eq:
  "applyFrameUpsert s ti si f =
     (let turn = turn_or_skeleton s ti; step = step_or_skeleton turn si ti in
      if (case find_frame (sp_frames step) (frame_id f) of Some g \<Rightarrow> frameEquals g f | None \<Rightarrow> False) then unchanged s
      else changed_to (place_turn s ti (turn\<lparr>tn_steps :=
             put_step (step\<lparr>sp_frames := put_frame f (sp_frames step)\<rparr>) (tn_steps turn)\<rparr>)))"
  unfolding applyFrameUpsert_def Let_def turn_or_skeleton_def [symmetric]
  unfolding step_or_skeleton_def [symmetric]
  by (simp add: put_frame_def put_step_def)

lemma absorbed_frame: "absorbed (ar_state (applyFrameUpsert s ti si f)) (FrameUpsert ti si f)"
proof (cases "ar_changed (applyFrameUpsert s ti si f)")
  case False
  then show ?thesis
    by (auto simp: absorbed_def applyFrameUpsert_eq Let_def split: option.splits if_splits)
next
  case True
  let ?turn = "turn_or_skeleton s ti"
  let ?step = "step_or_skeleton ?turn si ti"
  let ?new = "?step\<lparr>sp_frames := put_frame f (sp_frames ?step)\<rparr>"
  have st: "ar_state (applyFrameUpsert s ti si f) = place_turn s ti (?turn\<lparr>tn_steps := put_step ?new (tn_steps ?turn)\<rparr>)"
    using True by (auto simp: applyFrameUpsert_eq Let_def split: option.splits if_splits)
  have "step_or_skeleton (?turn\<lparr>tn_steps := put_step ?new (tn_steps ?turn)\<rparr>) si ti = ?new"
    unfolding step_or_skeleton_def [of "?turn\<lparr>tn_steps := put_step ?new (tn_steps ?turn)\<rparr>"] by simp
  then show ?thesis
    by (simp add: absorbed_def st applyFrameUpsert_eq Let_def)
qed

subsection \<open>Appends\<close>

text \<open>The three outcomes of placing a chunk.\<close>

lemma appendAtOffset_eq:
  "appendAtOffset loc off chunk =
     (if off > length loc \<or> \<not> startsWithAt loc chunk off \<and> drop off loc \<noteq> take (length loc - off) chunk
      then \<lparr>mg_text = loc, mg_changed = False, mg_gap = Some (length loc, off)\<rparr>
      else if startsWithAt loc chunk off then \<lparr>mg_text = loc, mg_changed = False, mg_gap = None\<rparr>
      else \<lparr>mg_text = take off loc @ chunk, mg_changed = True, mg_gap = None\<rparr>)"
proof -
  have "startsWithAt loc chunk off" if "drop off loc = take (length loc - off) chunk" "drop (length loc - off) chunk = []"
    using that by (simp add: startsWithAt_def startsWith_def)
  then show ?thesis
    by (auto simp: appendAtOffset_def Let_def)
qed

lemma appendAtOffset_cases:
  obtains (gap) "mg_gap (appendAtOffset loc off chunk) = Some (length loc, off)"
      "mg_text (appendAtOffset loc off chunk) = loc"
  | (dup) "mg_gap (appendAtOffset loc off chunk) = None" "\<not> mg_changed (appendAtOffset loc off chunk)"
      "mg_text (appendAtOffset loc off chunk) = loc"
  | (new) "mg_gap (appendAtOffset loc off chunk) = None" "mg_changed (appendAtOffset loc off chunk)" "off \<le> length loc"
      "drop off loc = take (length loc - off) chunk" "mg_text (appendAtOffset loc off chunk) = take off loc @ chunk"
  unfolding appendAtOffset_eq
  by (cases "off > length loc \<or> \<not> startsWithAt loc chunk off \<and> drop off loc \<noteq> take (length loc - off) chunk";
      cases "startsWithAt loc chunk off") auto

lemma appendAtOffset_again:
  assumes "mg_gap (appendAtOffset loc off chunk) = None"
  shows "\<not> mg_changed (appendAtOffset (mg_text (appendAtOffset loc off chunk)) off chunk)
    \<and> mg_gap (appendAtOffset (mg_text (appendAtOffset loc off chunk)) off chunk) = None"
  by (rule appendAtOffset_cases [of loc off chunk])
    (use assms in \<open>auto simp: appendAtOffset_eq startsWithAt_def startsWith_def\<close>)

lemma frame_id_set_text [simp]: "frame_id (set_frame_text t f) = frame_id f"
  by (cases f) simp_all

lemma frame_text_set_text [simp]: "frame_text f = Some u \<Longrightarrow> frame_text (set_frame_text t f) = Some t"
  by (cases f) simp_all

lemma append_frame_target_Some:
  "append_frame_target s ti si fi = Some (turn, step, f, text) \<longleftrightarrow>
     getTurn s ti = Some turn \<and> find_step (tn_steps turn) si = Some step \<and> find_frame (sp_frames step) fi = Some f
     \<and> frame_text f = Some text"
  by (auto simp: append_frame_target_def split: option.splits)

lemma append_frame_target_replaced:
  assumes "append_frame_target s ti si fi = Some (turn, step, f, text)"
  shows "append_frame_target (s\<lparr>as_items := replaceTurn (as_items s) ti (\<lambda>_. turn\<lparr>tn_steps :=
      replace_step si (step\<lparr>sp_frames := replace_frame fi (set_frame_text t f) (sp_frames step)\<rparr>) (tn_steps turn)\<rparr>)\<rparr>)
      ti si fi
    = Some (turn\<lparr>tn_steps := replace_step si (step\<lparr>sp_frames := replace_frame fi (set_frame_text t f) (sp_frames step)\<rparr>)
        (tn_steps turn)\<rparr>, step\<lparr>sp_frames := replace_frame fi (set_frame_text t f) (sp_frames step)\<rparr>,
        set_frame_text t f, t)"
  using assms find_turn_id [of "as_items s" ti turn] find_step_id [of "tn_steps turn" si step]
    find_frame_id [of "sp_frames step" fi f]
  by (auto simp: append_frame_target_Some getTurn_def find_turn_replace)

lemma absorbed_append: "absorbed (ar_state (applyAppend s op)) (Append op)"
proof (cases "ap_target op")
  case (TaskTarget i)
  show ?thesis
    using appendAtOffset_again [of "case jm_get (as_tasks s) i of Some t \<Rightarrow> tk_outputTail t | None \<Rightarrow> []"
        "ap_offset op" "ap_text op"]
    by (auto simp: absorbed_def applyAppend_def TaskTarget applyTaskAppend_def Let_def jm_get_set split: option.splits)
next
  case (FrameTarget ti si fi)
  show ?thesis
  proof (cases "append_frame_target s ti si fi")
    case None
    then show ?thesis by (simp add: absorbed_def applyAppend_def FrameTarget)
  next
    case (Some x)
    then obtain turn step f u where x: "append_frame_target s ti si fi = Some (turn, step, f, u)"
      by (cases x) auto
    show ?thesis
      using appendAtOffset_again [of u "ap_offset op" "ap_text op"] append_frame_target_replaced [OF x]
      by (simp add: absorbed_def applyAppend_def FrameTarget x Let_def split: option.split)
  qed
qed

subsection \<open>Items, entities and metadata\<close>

lemma insert_before_ids: "set (map itemIdOf (insert_before P x xs)) = insert (itemIdOf x) (set (map itemIdOf xs))"
  by (induction P x xs rule: insert_before.induct) auto

lemma set_insert_before: "set (insert_before P x xs) = insert x (set xs)"
  by (induction P x xs rule: insert_before.induct) auto

lemma itemUpsert_settled:
  assumes "list_ex (\<lambda>e. itemIdOf e = i) (as_items s)"
    "list_all (\<lambda>e. itemIdOf e = i \<longrightarrow> same_object e item) (as_items s)"
  shows "ar_state (applyItemUpsert s item i b) = s"
  using assms by (simp add: applyItemUpsert_def)

lemma absorbed_item:
  assumes "itemIdOf item = i" "same_object item item"
  shows "ar_state (applyItemUpsert (ar_state (applyItemUpsert s item i b)) item i b) = ar_state (applyItemUpsert s item i b)"
proof (rule itemUpsert_settled)
  let ?xs = "as_items (ar_state (applyItemUpsert s item i b))"
  show "list_ex (\<lambda>e. itemIdOf e = i) ?xs"
    using assms by (auto simp: applyItemUpsert_def list_ex_iff set_insert_before split: option.split)
  show "list_all (\<lambda>e. itemIdOf e = i \<longrightarrow> same_object e item) ?xs"
    using assms by (auto simp: applyItemUpsert_def list_ex_iff list_all_iff set_insert_before split: option.split)
qed

lemma absorbed_remove: "absorbed (ar_state (applyItemsRemove s ids)) (ItemsRemove ids)"
  by (auto simp: absorbed_def applyItemsRemove_def Let_def)

lemma coalesce_again [simp]: "coalesce a (coalesce a b) = coalesce a b"
  by (simp add: coalesce_def split: option.split)

lemma patch_again [simp]: "patch_mode p (patch_mode p x) = patch_mode p x"
  by (cases p) auto

lemma patch_None: "patch_mode p x = None \<Longrightarrow> patch_mode p None = None"
  by (cases p) auto

lemma merge_agent_again: "merge_agent (Some (merge_agent x a)) a = merge_agent x a"
  by (cases x) (auto simp: merge_agent_def coalesce_def split: option.split)

lemma absorbed_meta: "absorbed (ar_state (applyMetaMerge s m)) (MetaMerge m)"
  by (cases "mm_modes m"; cases "mm_agent m"; cases "me_modes (as_meta s)")
    (auto simp: absorbed_def applyMetaMerge_def Let_def merge_agent_again dest: patch_None)

lemma absorbed_entities:
  "absorbed (ar_state (applyTaskUpsert s t)) (TaskUpsert t)"
  "absorbed (ar_state (applyInteractionUpsert s i)) (InteractionUpsert i)"
  "absorbed (ar_state (applyAttachmentUpsert s a)) (AttachmentUpsert a)"
  "absorbed (ar_state (applyTodoUpsert s d)) (TodoUpsert d)"
  "absorbed (ar_state (applyPromptUpsert s p)) (PromptUpsert p)"
  by (auto simp: absorbed_def applyTaskUpsert_def taskEquals_def applyInteractionUpsert_def interactionEquals_def
      applyAttachmentUpsert_def attachmentEquals_def applyTodoUpsert_def todoEquals_def applyPromptUpsert_def
      promptEquals_def jm_get_set)

end
