(* ===== verification/Transcript_Sync.thy ===== *)
theory Transcript_Sync
  imports Transcript
begin

text \<open>
  What the transcript reducer promises to the two ends of the channel: duplicates are absorbed,
  streamed text is never rewritten, a flushed frame makes lost chunks irrelevant, the derived index of pending interactions and
  the order of the turns are kept, and a snapshot restores the state it was taken of.
\<close>

section \<open>Duplicates\<close>

lemma absorbed_operation: "absorbed (ar_state (applyOperation s op)) op"
proof (cases op)
  case (MarkerUpsert m b)
  then show ?thesis using absorbed_item [of "Marker m" "mk_markerId m" s b] by (simp add: absorbed_def)
next
  case (TaskRefUpsert r b)
  then show ?thesis using absorbed_item [of "TaskRef r" "tr_refId r" s b] by (simp add: absorbed_def)
qed (simp_all add: absorbed_turn absorbed_step absorbed_frame absorbed_append absorbed_remove absorbed_meta
    absorbed_entities, simp add: absorbed_def applyReset_def)

text \<open>
  Delivering an operation twice is the same as delivering it once, in every state and for every
  kind of operation, \<open>append\<close> and \<open>reset\<close> included.
\<close>

theorem applyOperation_idempotent:
  "ar_state (applyOperation (ar_state (applyOperation s op)) op) = ar_state (applyOperation s op)"
  using absorbed_operation [of s op] by (simp add: absorbed_def)

section \<open>Batches\<close>

lemma gap_state: "ar_gap (applyOperation s op) \<noteq> None \<Longrightarrow> ar_state (applyOperation s op) = s"
  by (cases op) (auto simp: applyReset_def applyTurnUpsert_def applyStepUpsert_def applyFrameUpsert_eq applyAppend_def
      applyTaskAppend_def applyItemUpsert_def applyTaskUpsert_def applyInteractionUpsert_def applyAttachmentUpsert_def
      applyTodoUpsert_def applyPromptUpsert_def applyMetaMerge_def applyItemsRemove_def Let_def
      split: option.splits append_target.splits if_splits)

lemma unchanged_state: "\<not> ar_changed (applyOperation s op) \<Longrightarrow> ar_state (applyOperation s op) = s"
  by (cases op) (auto simp: applyReset_def applyTurnUpsert_def applyStepUpsert_def applyFrameUpsert_eq applyAppend_def
      applyTaskAppend_def applyItemUpsert_def applyTaskUpsert_def applyInteractionUpsert_def applyAttachmentUpsert_def
      applyTodoUpsert_def applyPromptUpsert_def applyMetaMerge_def applyItemsRemove_def Let_def
      split: option.splits append_target.splits if_splits)

text \<open>The state after a batch is the fold of the reducer over it.\<close>

definition apply_all :: "agent_state \<Rightarrow> operation list \<Rightarrow> agent_state" where
  "apply_all s ops = foldl (\<lambda>s op. ar_state (applyOperation s op)) s ops"

lemma apply_loop_state: "snd (apply_loop s acc ops) = apply_all s ops"
  by (induction s acc ops rule: apply_loop.induct)
    (auto simp: apply_all_def Let_def gap_state unchanged_state split: option.split)

section \<open>Streams\<close>

text \<open>
  Streamed text is placed exactly: let the text received so far be the first \<open>k\<close> characters of the
  producer's text and let a chunk of that text arrive with its offset. If it starts beyond \<open>k\<close>,
  the gap is reported with both positions and nothing changes; otherwise the text
  becomes the longer of the two prefixes, whether the chunk is new, a duplicate or overlapping.
\<close>

theorem append_places_chunk:
  assumes "k \<le> length full" "off + n \<le> length full"
  shows "(mg_gap (appendAtOffset (take k full) off (take n (drop off full))) = (if off > k then Some (k, off) else None))
    \<and> mg_text (appendAtOffset (take k full) off (take n (drop off full)))
        = (if off > k then take k full else take (max k (off + n)) full)"
proof (cases "off > k")
  case True
  then show ?thesis using assms by (simp add: appendAtOffset_eq)
next
  case off: False
  have agree: "drop off (take k full) = take (k - off) (drop off full)" by (rule drop_take)
  show ?thesis
  proof (cases "off + n \<le> k")
    case True
    then have "startsWithAt (take k full) (take n (drop off full)) off"
      using assms by (simp add: startsWithAt_def startsWith_def agree min_def)
    then show ?thesis using True off assms by (simp add: appendAtOffset_eq max_def)
  next
    case False
    then have "\<not> startsWithAt (take k full) (take n (drop off full)) off"
      using assms off by (auto simp: startsWithAt_def startsWith_def dest: arg_cong [of _ _ length])
    moreover have "drop off (take k full) = take (k - off) (take n (drop off full))"
      using False by (simp add: agree min_def)
    moreover have "take off (take k full) @ take n (drop off full) = take (off + n) full"
      using off by (simp add: take_add min_def)
    ultimately show ?thesis
      using False off assms by (simp add: appendAtOffset_eq max_def min_def)
  qed
qed

theorem append_places_chunk_witness:
  "mg_text (appendAtOffset (take 3 ''hello'') 2 (take 3 (drop 2 ''hello''))) = ''hello''"
  using append_places_chunk [of 3 "''hello''" 2 3] by simp

section \<open>Well-formed states\<close>

fun turns :: "item list \<Rightarrow> turn list" where
  "turns [] = []"
| "turns (Turn t # xs) = t # turns xs"
| "turns (_ # xs) = turns xs"

definition turn_wf :: "turn \<Rightarrow> bool" where
  "turn_wf t \<longleftrightarrow> tn_ordinal t = turnOrdinal (tn_turnId t) \<and> distinct (map sp_stepId (tn_steps t))
     \<and> list_all (\<lambda>st. distinct (map frame_id (sp_frames st))) (tn_steps t)"

definition items_ok :: "item list \<Rightarrow> bool" where
  "items_ok xs \<longleftrightarrow> distinct (map tn_turnId (turns xs)) \<and> sorted (map tn_ordinal (turns xs))
     \<and> list_all turn_wf (turns xs)"

definition entities_ok :: "('a \<Rightarrow> 'k) \<Rightarrow> ('k, 'a) js_map \<Rightarrow> bool" where
  "entities_ok key m \<longleftrightarrow> jm_ok m \<and> list_all (\<lambda>(k, v). key v = k) m"

definition pending_ok :: "agent_state \<Rightarrow> bool" where
  "pending_ok s \<longleftrightarrow> distinct (as_pendingInteractions s)
     \<and> set (as_pendingInteractions s)
       = {i. \<exists>v. jm_get (as_interactions s) i = Some v \<and> ia_state v = IsPending}"

definition state_ok :: "agent_state \<Rightarrow> bool" where
  "state_ok s \<longleftrightarrow> items_ok (as_items s) \<and> entities_ok tk_taskId (as_tasks s)
     \<and> entities_ok ia_interactionId (as_interactions s) \<and> entities_ok at_attachmentId (as_attachments s)
     \<and> entities_ok td_todoId (as_todos s) \<and> entities_ok pr_promptId (as_prompts s) \<and> pending_ok s"

text \<open>Operations as a producer emits them: a turn's ordinal is the number in its id, and a snapshot
  is one of a well-formed state.\<close>

definition snapshot_ok :: "transcript_snapshot \<Rightarrow> bool" where
  "snapshot_ok sn \<longleftrightarrow> items_ok (ss_items sn) \<and> distinct (map tk_taskId (ss_tasks sn))
     \<and> distinct (map ia_interactionId (ss_interactions sn)) \<and> distinct (map at_attachmentId (ss_attachments sn))
     \<and> distinct (map td_todoId (ss_todos sn)) \<and> distinct (map pr_promptId (ss_prompts sn))"

fun op_ok :: "operation \<Rightarrow> bool" where
  "op_ok (ResetOp i sn) = snapshot_ok sn"
| "op_ok (TurnUpsert h) = (tn_ordinal h = turnOrdinal (tn_turnId h))"
| "op_ok _ = True"

subsection \<open>The timeline\<close>

lemma find_turn_turns: "find_turn xs i = find (\<lambda>t. tn_turnId t = i) (turns xs)"
  by (induction xs i rule: find_turn.induct) auto

lemma turns_insert_item: "\<not> is_turn x \<Longrightarrow> turns (insert_before P x xs) = turns xs"
  by (cases x; induction P x xs rule: insert_before.induct) auto

lemma turns_append: "turns (xs @ ys) = turns xs @ turns ys"
  by (induction xs rule: turns.induct) auto

lemma turns_replace: "turns (replaceTurn xs i f) = map (\<lambda>t. if tn_turnId t = i then f t else t) (turns xs)"
  unfolding replaceTurn_def by (induction xs rule: turns.induct) auto

lemma turns_filter: "turns (filter (\<lambda>e. itemIdOf e \<notin> S) xs) = filter (\<lambda>t. tn_turnId t \<notin> S) (turns xs)"
  by (induction xs rule: turns.induct) auto

lemma turns_item_upsert:
  "\<not> is_turn item \<Longrightarrow> turns (map (\<lambda>e. if itemIdOf e \<noteq> i then e else if same_object e item then e else item) xs)
     = filter (\<lambda>t. tn_turnId t \<noteq> i) (turns xs)"
  by (induction xs rule: turns.induct) (cases item; auto)+

lemma set_turns_insert: "set (turns (insert_before P (Turn t) xs)) = insert t (set (turns xs))"
  by (induction P "Turn t" xs rule: insert_before.induct) auto

lemma items_ok_insert:
  assumes "items_ok xs" "turn_wf t" "find_turn xs (tn_turnId t) = None"
  shows "items_ok (insertTurn xs t)"
proof -
  let ?ys = "insert_before (\<lambda>n. n > tn_ordinal t) (Turn t) xs"
  have "sorted (map tn_ordinal (turns xs)) \<Longrightarrow> sorted (map tn_ordinal (turns ?ys))"
    by (induction "\<lambda>n. n > tn_ordinal t" "Turn t" xs rule: insert_before.induct) (auto simp: set_turns_insert)
  moreover have "distinct (map tn_turnId (turns xs)) \<Longrightarrow> tn_turnId t \<notin> tn_turnId ` set (turns xs)
      \<Longrightarrow> distinct (map tn_turnId (turns ?ys))"
    by (induction "\<lambda>n. n > tn_ordinal t" "Turn t" xs rule: insert_before.induct) (auto simp: set_turns_insert)
  moreover have "tn_turnId t \<notin> tn_turnId ` set (turns xs)"
    using assms(3) by (auto simp: find_turn_turns find_None_iff)
  ultimately show ?thesis
    using assms(1,2) by (auto simp: items_ok_def insertTurn_def list_all_iff set_turns_insert)
qed

lemma items_ok_replace:
  assumes "items_ok xs"
    "\<And>t. t \<in> set (turns xs) \<Longrightarrow> tn_turnId t = i \<Longrightarrow> turn_wf t \<Longrightarrow> turn_wf (f t) \<and> tn_turnId (f t) = i"
  shows "items_ok (replaceTurn xs i f)"
proof -
  have same: "tn_turnId (if tn_turnId t = i then f t else t) = tn_turnId t"
    "tn_ordinal (if tn_turnId t = i then f t else t) = tn_ordinal t" if "t \<in> set (turns xs)" for t
    using assms(1) assms(2) [OF that] that by (auto simp: items_ok_def turn_wf_def list_all_iff)
  have "map tn_turnId (turns (replaceTurn xs i f)) = map tn_turnId (turns xs)"
    "map tn_ordinal (turns (replaceTurn xs i f)) = map tn_ordinal (turns xs)"
    by (simp_all add: turns_replace same)
  moreover have "list_all turn_wf (turns (replaceTurn xs i f))"
    using assms by (auto simp: items_ok_def list_all_iff turns_replace)
  ultimately show ?thesis
    using assms(1) unfolding items_ok_def by metis
qed

lemma items_ok_subset:
  "items_ok xs \<Longrightarrow> turns ys = filter P (turns xs) \<Longrightarrow> items_ok ys"
  by (auto simp: items_ok_def list_all_iff distinct_map_filter intro: sorted_filter)

lemma items_ok_place:
  assumes "items_ok (as_items s)" "turn_wf turn" "tn_turnId turn = i"
  shows "items_ok (as_items (place_turn s i turn))"
  using assms by (auto simp: place_turn_def getTurn_def intro!: items_ok_insert items_ok_replace)

lemma turn_or_skeleton_wf: "items_ok (as_items s) \<Longrightarrow> turn_wf (turn_or_skeleton s i)"
  by (auto simp: turn_or_skeleton_def getTurn_def find_turn_turns items_ok_def list_all_iff turn_wf_def
      dest!: find_SomeD split: option.split)

lemma distinct_put_frame: "distinct (map frame_id fs) \<Longrightarrow> distinct (map frame_id (put_frame f fs))"
  by (auto simp: put_frame_def replace_frame_def find_frame_def find_None_iff comp_def if_distrib cong: if_cong)

lemma ids_replace_step: "sp_stepId t = i \<Longrightarrow> map sp_stepId (replace_step i t steps) = map sp_stepId steps"
  by (simp add: replace_step_def)

lemma distinct_sort_steps: "distinct (map sp_stepId (sort_steps steps)) \<longleftrightarrow> distinct (map sp_stepId steps)"
  by (simp add: sort_steps_def distinct_map)

lemma set_sort_steps [simp]: "set (sort_steps steps) = set steps"
  by (simp add: sort_steps_def)

lemma set_replace_step: "set (replace_step i t steps) \<subseteq> insert t (set steps)"
  by (auto simp: replace_step_def)

lemma turn_wf_put_step:
  assumes "turn_wf turn" "distinct (map frame_id (sp_frames t))"
  shows "turn_wf (turn\<lparr>tn_steps := put_step t (tn_steps turn)\<rparr>)"
proof -
  have "set (put_step t (tn_steps turn)) \<subseteq> insert t (set (tn_steps turn))"
    using set_replace_step by (auto simp: put_step_def)
  moreover have "distinct (map sp_stepId (put_step t (tn_steps turn)))"
    using assms(1) by (auto simp: turn_wf_def put_step_def ids_replace_step distinct_sort_steps find_step_def find_None_iff)
  ultimately show ?thesis
    using assms by (auto simp: turn_wf_def list_all_iff)
qed

text \<open>One lemma per operation that touches the timeline.\<close>

lemma items_ok_turnUpsert:
  "items_ok (as_items s) \<Longrightarrow> tn_ordinal h = turnOrdinal (tn_turnId h) \<Longrightarrow> items_ok (as_items (ar_state (applyTurnUpsert s h)))"
  by (auto simp: applyTurnUpsert_def getTurn_def turn_wf_def split: option.split
      intro!: items_ok_insert items_ok_replace)

lemma turn_wf_header_step:
  assumes "turn_wf turn"
  shows "turn_wf (turn\<lparr>tn_steps := map (\<lambda>t. if sp_stepId t = sp_stepId h then stepHeaderToStep h (sp_frames t) else t)
           (tn_steps turn)\<rparr>)"
proof -
  have eq: "map sp_stepId (map (\<lambda>t. if sp_stepId t = sp_stepId h then stepHeaderToStep h (sp_frames t) else t) (tn_steps turn))
      = map sp_stepId (tn_steps turn)"
    by simp
  have "distinct (map sp_stepId (map (\<lambda>t. if sp_stepId t = sp_stepId h then stepHeaderToStep h (sp_frames t) else t)
      (tn_steps turn)))"
    using assms unfolding eq by (simp add: turn_wf_def)
  then show ?thesis
    using assms by (auto simp: turn_wf_def list_all_iff)
qed

lemma items_ok_stepUpsert:
  assumes "items_ok (as_items s)"
  shows "items_ok (as_items (ar_state (applyStepUpsert s i h)))"
proof -
  note wf = turn_or_skeleton_wf [OF assms, of i]
  have "find_step (tn_steps (turn_or_skeleton s i)) (sp_stepId h) = None \<Longrightarrow>
    turn_wf ((turn_or_skeleton s i)\<lparr>tn_steps := sort_steps (tn_steps (turn_or_skeleton s i) @ [stepHeaderToStep h []])\<rparr>)"
    using turn_wf_put_step [OF wf, of "stepHeaderToStep h []"] by (simp add: put_step_def)
  then show ?thesis
    using assms turn_wf_header_step [OF wf, of h]
    unfolding applyStepUpsert_def turn_or_skeleton_def [symmetric] Let_def
    by (auto split: option.split intro!: items_ok_place)
qed

lemma items_ok_frameUpsert:
  assumes "items_ok (as_items s)"
  shows "items_ok (as_items (ar_state (applyFrameUpsert s ti si f)))"
proof -
  note wf = turn_or_skeleton_wf [OF assms, of ti]
  let ?step = "step_or_skeleton (turn_or_skeleton s ti) si ti"
  have "distinct (map frame_id (sp_frames ?step))"
    using wf by (auto simp: step_or_skeleton_def turn_wf_def list_all_iff find_step_def dest!: find_SomeD split: option.split)
  then have "turn_wf ((turn_or_skeleton s ti)\<lparr>tn_steps :=
      put_step (?step\<lparr>sp_frames := put_frame f (sp_frames ?step)\<rparr>) (tn_steps (turn_or_skeleton s ti))\<rparr>)"
    by (intro turn_wf_put_step [OF wf]) (simp add: distinct_put_frame)
  from items_ok_place [OF assms this] show ?thesis
    using assms by (simp add: applyFrameUpsert_eq Let_def)
qed

lemma items_ok_append:
  assumes "items_ok (as_items s)"
  shows "items_ok (as_items (ar_state (applyAppend s op)))"
proof (cases "ap_target op")
  case (TaskTarget i)
  then show ?thesis using assms by (simp add: applyAppend_def applyTaskAppend_def Let_def split: option.split)
next
  case (FrameTarget ti si fi)
  show ?thesis
  proof (cases "append_frame_target s ti si fi")
    case None
    then show ?thesis using assms by (simp add: applyAppend_def FrameTarget)
  next
    case (Some x)
    then obtain turn step f u where x: "append_frame_target s ti si fi = Some (turn, step, f, u)"
      by (cases x) auto
    then have at: "getTurn s ti = Some turn" "find_step (tn_steps turn) si = Some step" "find_frame (sp_frames step) fi = Some f"
      by (simp_all add: append_frame_target_Some)
    have wf: "turn_wf turn" "tn_turnId turn = ti"
      using turn_or_skeleton_wf [OF assms, of ti] at(1) find_turn_id [of "as_items s" ti turn]
      by (auto simp: turn_or_skeleton_def getTurn_def)
    have ids: "sp_stepId step = si" "frame_id f = fi" "distinct (map frame_id (sp_frames step))"
      using find_step_id [OF at(2)] find_frame_id [OF at(3)] wf(1) find_SomeD [OF at(2) [unfolded find_step_def]]
      by (simp_all add: turn_wf_def list_all_iff)
    have "turn_wf (turn\<lparr>tn_steps := replace_step si (step\<lparr>sp_frames := replace_frame fi (set_frame_text t f) (sp_frames step)\<rparr>)
        (tn_steps turn)\<rparr>)" for t
      using turn_wf_put_step [OF wf(1), of "step\<lparr>sp_frames := put_frame (set_frame_text t f) (sp_frames step)\<rparr>"]
        distinct_put_frame [OF ids(3), of "set_frame_text t f"] at ids
      by (simp add: put_step_def put_frame_def)
    then have "items_ok (replaceTurn (as_items s) ti (\<lambda>_. turn\<lparr>tn_steps := replace_step si
        (step\<lparr>sp_frames := replace_frame fi (set_frame_text t f) (sp_frames step)\<rparr>) (tn_steps turn)\<rparr>))" for t
      using wf by (intro items_ok_replace [OF assms]) simp
    then show ?thesis
      using assms x by (simp add: applyAppend_def FrameTarget Let_def split: option.split)
  qed
qed

lemma items_ok_itemUpsert:
  assumes "items_ok (as_items s)" "\<not> is_turn item"
  shows "items_ok (as_items (ar_state (applyItemUpsert s item i b)))"
proof -
  have last: "turns (as_items s @ [item]) = filter (\<lambda>_. True) (turns (as_items s))"
    using assms(2) by (cases item) (simp_all add: turns_append)
  have "items_ok (insert_before P item (as_items s))" for P
    by (rule items_ok_subset [OF assms(1), where P = "\<lambda>_. True"]) (simp add: turns_insert_item [OF assms(2)])
  then show ?thesis
    using assms(1) items_ok_subset [OF assms(1) last] items_ok_subset [OF assms(1) turns_item_upsert [OF assms(2)], of i]
    by (simp add: applyItemUpsert_def split: option.split)
qed

subsection \<open>Entities and the index of pending interactions\<close>

lemma entities_ok_set: "entities_ok key m \<Longrightarrow> key v = k \<Longrightarrow> entities_ok key (jm_set m k v)"
  by (auto simp: entities_ok_def jm_oks list_all_iff set_jm_set)

lemma entities_ok_delete1: "entities_ok key m \<Longrightarrow> entities_ok key (jm_delete m k)"
  by (auto simp: entities_ok_def jm_oks list_all_iff set_jm_delete)

lemma entities_ok_delete: "entities_ok key m \<Longrightarrow> entities_ok key (foldl jm_delete m ks)"
  by (induction ks arbitrary: m) (simp_all add: entities_ok_delete1)

lemma jm_set_fresh: "k \<notin> fst ` set m \<Longrightarrow> jm_set m k v = m @ [(k, v)]"
  by (induction m) auto

lemma jm_of_distinct: "distinct (map key xs) \<Longrightarrow> jm_of key xs = map (\<lambda>x. (key x, x)) xs"
proof (induction xs rule: rev_induct)
  case (snoc x xs)
  then show ?case
    by (force simp: jm_of_def intro: jm_set_fresh)
qed (simp add: jm_of_def)

lemma entities_ok_of: "distinct (map key xs) \<Longrightarrow> entities_ok key (jm_of key xs)"
  by (auto simp: jm_of_distinct entities_ok_def jm_ok_def list_all_iff comp_def)

lemma entities_values: "entities_ok key m \<Longrightarrow> map (\<lambda>x. (key x, x)) (map snd m) = m"
  by (induction m) (auto simp: entities_ok_def jm_ok_def)

lemma entities_distinct: "entities_ok key m \<Longrightarrow> distinct (map key (map snd m))"
proof -
  assume ok: "entities_ok key m"
  then have eq: "map key (map snd m) = map fst m"
    by (auto simp: entities_ok_def list_all_iff)
  show ?thesis unfolding eq using ok by (simp add: entities_ok_def jm_ok_def)
qed

lemma jm_get_foldl_delete: "jm_get (foldl jm_delete m ks) k = (if k \<in> set ks then None else jm_get m k)"
  by (induction ks arbitrary: m) (auto simp: jm_get_delete)

lemma set_pending_of:
  "distinct (pending_of is) \<and> set (pending_of is) = {ia_interactionId i | i. i \<in> set is \<and> ia_state i = IsPending}"
proof (induction "is" rule: rev_induct)
  case (snoc i "is")
  have "pending_of (is @ [i]) = (if ia_state i = IsPending then set_add (ia_interactionId i) (pending_of is) else pending_of is)"
    by (simp add: pending_of_def)
  then show ?case using snoc.IH by (auto simp: set_add_def)
qed (simp add: pending_of_def)

lemma jm_get_of: "distinct (map key xs) \<Longrightarrow> jm_get (jm_of key xs) k = Some v \<longleftrightarrow> v \<in> set xs \<and> key v = k"
  using entities_ok_of [of key xs] by (auto simp: jm_get_iff entities_ok_def) (auto simp: jm_of_distinct)

lemma reset_ok: "snapshot_ok sn \<Longrightarrow> state_ok (ar_state (applyReset sn))"
  using set_pending_of [of "ss_interactions sn"]
  by (auto simp: snapshot_ok_def state_ok_def applyReset_def entities_ok_of pending_ok_def jm_get_of)

lemma interaction_ok:
  assumes "state_ok s"
  shows "pending_ok (ar_state (applyInteractionUpsert s i))"
  using assms by (auto simp: state_ok_def pending_ok_def applyInteractionUpsert_def jm_get_set set_add_def)

lemma remove_ok:
  assumes "state_ok s"
  shows "state_ok (ar_state (applyItemsRemove s ids))"
proof -
  have "items_ok (filter (\<lambda>e. itemIdOf e \<notin> set ids) (as_items s))"
    using assms by (intro items_ok_subset [OF _ turns_filter]) (simp add: state_ok_def)
  then show ?thesis
    using assms by (auto simp: state_ok_def applyItemsRemove_def Let_def entities_ok_delete pending_ok_def jm_get_foldl_delete)
qed

lemma task_append_ok:
  "state_ok s \<Longrightarrow> state_ok (ar_state (applyTaskAppend s i op))"
  by (auto simp: state_ok_def applyTaskAppend_def Let_def pending_ok_def split: option.split
      intro!: entities_ok_set) (auto simp: entities_ok_def list_all_iff dest!: jm_get_in_set)

text \<open>Operations on the timeline leave the rest alone.\<close>

lemma timeline_only:
  "\<exists>xs. ar_state (applyTurnUpsert s h) = s\<lparr>as_items := xs\<rparr>"
  "\<exists>xs. ar_state (applyStepUpsert s i k) = s\<lparr>as_items := xs\<rparr>"
  "\<exists>xs. ar_state (applyFrameUpsert s ti si f) = s\<lparr>as_items := xs\<rparr>"
  "\<exists>xs. ar_state (applyItemUpsert s item j b) = s\<lparr>as_items := xs\<rparr>"
proof -
  have same: "\<exists>xs. s = s\<lparr>as_items := xs\<rparr>" by (rule exI [of _ "as_items s"]) simp
  show "\<exists>xs. ar_state (applyTurnUpsert s h) = s\<lparr>as_items := xs\<rparr>"
    using same by (auto simp: applyTurnUpsert_def split: option.split)
  show "\<exists>xs. ar_state (applyStepUpsert s i k) = s\<lparr>as_items := xs\<rparr>"
    using same by (auto simp: applyStepUpsert_def place_turn_def Let_def split: option.split)
  show "\<exists>xs. ar_state (applyFrameUpsert s ti si f) = s\<lparr>as_items := xs\<rparr>"
    using same by (auto simp: applyFrameUpsert_eq place_turn_def Let_def)
  show "\<exists>xs. ar_state (applyItemUpsert s item j b) = s\<lparr>as_items := xs\<rparr>"
    using same by (auto simp: applyItemUpsert_def split: option.split)
qed

lemma state_ok_timeline:
  "state_ok s \<Longrightarrow> \<exists>xs. s' = s\<lparr>as_items := xs\<rparr> \<Longrightarrow> items_ok (as_items s') \<Longrightarrow> state_ok s'"
  by (auto simp: state_ok_def pending_ok_def)

lemma frame_append_ok:
  assumes "state_ok s" "ap_target op = FrameTarget ti si fi"
  shows "state_ok (ar_state (applyAppend s op))"
proof (rule state_ok_timeline [OF assms(1)])
  show "\<exists>xs. ar_state (applyAppend s op) = s\<lparr>as_items := xs\<rparr>"
    using exI [of "\<lambda>xs. s = s\<lparr>as_items := xs\<rparr>" "as_items s"]
    by (auto simp: applyAppend_def assms(2) Let_def split: option.split)
  show "items_ok (as_items (ar_state (applyAppend s op)))"
    using assms(1) by (intro items_ok_append) (simp add: state_ok_def)
qed

lemma applyOperation_ok:
  assumes "state_ok s" "op_ok op"
  shows "state_ok (ar_state (applyOperation s op))"
proof (cases op)
  case (TurnUpsert h)
  then show ?thesis
    using assms state_ok_timeline [OF assms(1) timeline_only(1)] items_ok_turnUpsert [of s h] by (simp add: state_ok_def)
next
  case (StepUpsert i h)
  then show ?thesis
    using assms state_ok_timeline [OF assms(1) timeline_only(2)] items_ok_stepUpsert [of s i h] by (simp add: state_ok_def)
next
  case (FrameUpsert ti si f)
  then show ?thesis
    using assms state_ok_timeline [OF assms(1) timeline_only(3)] items_ok_frameUpsert [of s ti si f] by (simp add: state_ok_def)
next
  case (MarkerUpsert m b)
  then show ?thesis
    using assms state_ok_timeline [OF assms(1) timeline_only(4)] items_ok_itemUpsert [of s "Marker m" "mk_markerId m" b]
    by (simp add: state_ok_def)
next
  case (TaskRefUpsert r b)
  then show ?thesis
    using assms state_ok_timeline [OF assms(1) timeline_only(4)] items_ok_itemUpsert [of s "TaskRef r" "tr_refId r" b]
    by (simp add: state_ok_def)
next
  case (Append x)
  then show ?thesis
    using assms frame_append_ok [OF assms(1), of x] task_append_ok [OF assms(1)]
    by (cases "ap_target x") (auto simp: applyAppend_def [of _ x])
next
  case (InteractionUpsert i)
  then show ?thesis
    using assms interaction_ok [OF assms(1), of i] by (auto simp: state_ok_def applyInteractionUpsert_def entities_ok_set)
next
  case (ResetOp i sn)
  then show ?thesis using assms by (simp add: reset_ok)
next
  case (ItemsRemove ids)
  then show ?thesis using assms by (simp add: remove_ok)
qed (use assms in \<open>auto simp: state_ok_def pending_ok_def applyTaskUpsert_def applyAttachmentUpsert_def
      applyTodoUpsert_def applyPromptUpsert_def applyMetaMerge_def entities_ok_set Let_def\<close>)

interpretation transcript: guarded_machine "\<lambda>s op. ar_state (applyOperation s op)" state_ok op_ok
  by unfold_locales (rule applyOperation_ok)

lemma empty_state_ok: "state_ok EMPTY_AGENT_STATE"
  by (simp add: state_ok_def EMPTY_AGENT_STATE_def items_ok_def entities_ok_def jm_ok_def pending_ok_def jm_get_def)

lemma reachable_ok: "list_all op_ok ops \<Longrightarrow> state_ok (apply_all EMPTY_AGENT_STATE ops)"
  using transcript.guarded_run_ok [OF empty_state_ok, of ops] by (simp add: apply_all_def run_ops_foldl)

text \<open>
  C18: In every state reached by operations as producers emit them, the turns stand in the order of their
  ordinals, each id once, with unique step and frame ids inside; every entity is filed once under its own
  id; and the index of pending interactions lists exactly the interactions that are pending, each once.
\<close>

theorem transcript_invariant:
  assumes "list_all op_ok ops"
  shows "state_ok (apply_all EMPTY_AGENT_STATE ops)"
  by (rule reachable_ok [OF assms])

definition sample_interaction :: interaction where
  "sample_interaction = \<lparr>ia_interactionId = ''i1'', ia_interactionKind = IkApproval, ia_toolCallId = Some ''c1'',
     ia_state = IsPending, ia_request = None, ia_response = None\<rparr>"

definition sample_tool :: frame where
  "sample_tool = ToolFrame \<lparr>tl_frameId = ''c1'', tl_toolCallId = ''c1'', tl_name = ''Bash'', tl_view = None,
     tl_state = TfRunning, tl_input = None, tl_output = None, tl_display = None, tl_error = None, tl_inputText = None,
     tl_progress = None, tl_taskId = None, tl_approvalId = None, tl_todoId = None, tl_agentRefs = None\<rparr>"

definition sample_ops :: "operation list" where
  "sample_ops = [FrameUpsert ''t1'' ''t1.1'' sample_tool, InteractionUpsert sample_interaction]"

lemma sample_ops_ok: "list_all op_ok sample_ops"
  by (simp add: sample_ops_def)

theorem transcript_invariant_witness: "list_all op_ok sample_ops \<and> state_ok (apply_all EMPTY_AGENT_STATE sample_ops)"
  using transcript_invariant [OF sample_ops_ok] sample_ops_ok by simp

section \<open>Snapshots\<close>

lemma snapshot_of_ok: "state_ok s \<Longrightarrow> snapshot_ok (transcript_snapshot None s)"
  by (simp add: state_ok_def snapshot_ok_def transcript_snapshot_def entities_distinct del: map_map)

lemma jm_of_values: "entities_ok key m \<Longrightarrow> jm_of key (map snd m) = m"
  using jm_of_distinct [OF entities_distinct] entities_values by metis

lemma pending_of_values:
  assumes "state_ok s"
  shows "set (pending_of (map snd (as_interactions s))) = set (as_pendingInteractions s)"
proof -
  have ent: "entities_ok ia_interactionId (as_interactions s)" and p: "pending_ok s"
    using assms by (simp_all add: state_ok_def)
  have "v \<in> set (map snd (as_interactions s)) \<longleftrightarrow> jm_get (as_interactions s) (ia_interactionId v) = Some v" for v
    using jm_get_of [OF entities_distinct [OF ent]] by (simp add: jm_of_values [OF ent])
  moreover have "jm_get (as_interactions s) i = Some v \<Longrightarrow> ia_interactionId v = i" for i v
    using ent by (auto simp: entities_ok_def list_all_iff dest!: jm_get_in_set)
  ultimately show ?thesis
    using set_pending_of [of "map snd (as_interactions s)"] p unfolding pending_ok_def by (auto simp del: set_map)
qed

text \<open>
  A reset carrying the full snapshot of a reachable state rebuilds that state on the other end: the same
  timeline, entities, metadata and paging flag, and the same set of pending interactions.
\<close>

theorem snapshot_restores:
  assumes "list_all op_ok ops"
  shows "\<exists>p. set p = set (as_pendingInteractions (apply_all EMPTY_AGENT_STATE ops)) \<and>
    ar_state (applyOperation s' (ResetOp agent (transcript_snapshot None (apply_all EMPTY_AGENT_STATE ops))))
      = (apply_all EMPTY_AGENT_STATE ops)\<lparr>as_pendingInteractions := p\<rparr>"
proof -
  let ?s = "apply_all EMPTY_AGENT_STATE ops"
  have ok: "state_ok ?s" by (rule reachable_ok [OF assms])
  then have "ar_state (applyReset (transcript_snapshot None ?s))
      = ?s\<lparr>as_pendingInteractions := pending_of (map snd (as_interactions ?s))\<rparr>"
    by (simp add: state_ok_def applyReset_def transcript_snapshot_def jm_of_values)
  then show ?thesis
    using pending_of_values [OF ok] by (intro exI [of _ "pending_of (map snd (as_interactions ?s))"]) simp
qed

theorem snapshot_restores_witness:
  "\<exists>p. set p = set (as_pendingInteractions (apply_all EMPTY_AGENT_STATE sample_ops)) \<and>
    ar_state (applyOperation EMPTY_AGENT_STATE (ResetOp ''main'' (transcript_snapshot None (apply_all EMPTY_AGENT_STATE sample_ops))))
      = (apply_all EMPTY_AGENT_STATE sample_ops)\<lparr>as_pendingInteractions := p\<rparr>"
  by (rule snapshot_restores [OF sample_ops_ok])

section \<open>Flushes\<close>

lemma replace_same:
  "distinct (map key xs) \<Longrightarrow> x \<in> set xs \<Longrightarrow> key x = i \<Longrightarrow> map (\<lambda>t. if key t = i then x else t) xs = xs"
  by (rule map_idI) (auto simp: distinct_map dest: inj_onD)

lemma replace_frame_twice: "frame_id a = i \<Longrightarrow> replace_frame i b (replace_frame i a xs) = replace_frame i b xs"
  by (simp add: replace_frame_def)

lemma replace_step_twice: "sp_stepId a = i \<Longrightarrow> replace_step i b (replace_step i a xs) = replace_step i b xs"
  by (simp add: replace_step_def)

lemma frameEquals_text: "frame_text g = Some u \<Longrightarrow> frame_id g = frame_id f \<Longrightarrow> frameEquals g f \<Longrightarrow> g = f"
  by (cases g; cases f) auto

lemma replaceTurn_twice:
  "tn_turnId a = i \<Longrightarrow> replaceTurn (replaceTurn xs i (\<lambda>_. a)) i (\<lambda>_. b) = replaceTurn xs i (\<lambda>_. b)"
  by (auto simp: replaceTurn_def split: item.split)

lemma replaceTurn_same: "distinct (map tn_turnId (turns xs)) \<Longrightarrow> find_turn xs i = Some t \<Longrightarrow> replaceTurn xs i (\<lambda>_. t) = xs"
proof (induction xs i rule: find_turn.induct)
  case (2 u xs i)
  show ?case
  proof (cases "tn_turnId u = i")
    case True
    then have "u = t" using 2(3) by simp
    moreover have "find_turn xs i = None" using True 2(2) by (auto simp: find_turn_turns find_None_iff) (metis imageI)
    moreover have "replaceTurn xs i f = xs" if "find_turn xs i = None" for f
      using that unfolding replaceTurn_def by (induction xs i rule: find_turn.induct) (auto split: if_splits)
    ultimately show ?thesis using True by (simp add: replaceTurn_def)
  qed (use 2 in \<open>auto simp: replaceTurn_def\<close>)
qed (auto simp: replaceTurn_def)

text \<open>The state with one frame of an existing step replaced.\<close>

definition with_frame :: "agent_state \<Rightarrow> turn \<Rightarrow> step \<Rightarrow> frame \<Rightarrow> agent_state" where
  "with_frame s turn step f = s\<lparr>as_items := replaceTurn (as_items s) (tn_turnId turn) (\<lambda>_. turn\<lparr>tn_steps :=
     replace_step (sp_stepId step) (step\<lparr>sp_frames := replace_frame (frame_id f) f (sp_frames step)\<rparr>) (tn_steps turn)\<rparr>)\<rparr>"

lemma upsert_with_frame:
  assumes "state_ok s" "append_frame_target s ti si (frame_id f) = Some (turn, step, g, u)"
  shows "ar_state (applyFrameUpsert s ti si f) = with_frame s turn step f"
proof -
  have at: "getTurn s ti = Some turn" "find_step (tn_steps turn) si = Some step"
      "find_frame (sp_frames step) (frame_id f) = Some g" "frame_text g = Some u"
    using assms(2) by (simp_all add: append_frame_target_Some)
  have sk: "turn_or_skeleton s ti = turn" "step_or_skeleton turn si ti = step"
    using at by (simp_all add: turn_or_skeleton_def step_or_skeleton_def)
  have ids: "tn_turnId turn = ti" "sp_stepId step = si" "frame_id g = frame_id f"
    using at find_turn_id [of "as_items s" ti turn] find_step_id [OF at(2)] find_frame_id [OF at(3)] by (simp_all add: getTurn_def)
  show ?thesis
  proof (cases "frameEquals g f")
    case True
    then have gf: "g = f" using frameEquals_text [OF at(4) ids(3)] by simp
    have wf: "items_ok (as_items s)" "turn_wf turn"
      using assms(1) turn_or_skeleton_wf [of s ti] sk by (simp_all add: state_ok_def)
    have mem: "step \<in> set (tn_steps turn)" "f \<in> set (sp_frames step)"
      using find_SomeD [OF at(2) [unfolded find_step_def]] find_SomeD [OF at(3) [unfolded find_frame_def]] gf by auto
    have "replace_frame (frame_id f) f (sp_frames step) = sp_frames step"
      using wf(2) mem unfolding replace_frame_def by (intro replace_same) (auto simp: turn_wf_def list_all_iff)
    moreover have "replace_step si step (tn_steps turn) = tn_steps turn"
      using wf(2) mem(1) ids(2) unfolding replace_step_def by (intro replace_same) (auto simp: turn_wf_def)
    moreover have "replaceTurn (as_items s) ti (\<lambda>_. turn) = as_items s"
      using wf(1) at(1) by (intro replaceTurn_same) (auto simp: items_ok_def getTurn_def)
    ultimately have "with_frame s turn step f = s"
      by (simp add: with_frame_def ids)
    then show ?thesis
      using True at(3) by (simp add: applyFrameUpsert_eq Let_def sk)
  next
    case False
    then show ?thesis
      using at ids by (simp add: applyFrameUpsert_eq Let_def sk with_frame_def put_frame_def put_step_def place_turn_def)
  qed
qed

lemma upsert_absorbs_append:
  assumes "state_ok s" "ap_target op = FrameTarget ti si (frame_id f)"
  shows "ar_state (applyFrameUpsert (ar_state (applyAppend s op)) ti si f) = ar_state (applyFrameUpsert s ti si f)"
proof (cases "append_frame_target s ti si (frame_id f)")
  case None
  then show ?thesis by (simp add: applyAppend_def assms(2))
next
  case (Some x)
  then obtain turn step g u where x: "append_frame_target s ti si (frame_id f) = Some (turn, step, g, u)"
    by (cases x) auto
  have ids: "tn_turnId turn = ti" "sp_stepId step = si" "frame_id g = frame_id f"
    using x find_turn_id [of "as_items s" ti turn] find_step_id [of "tn_steps turn" si step]
      find_frame_id [of "sp_frames step" "frame_id f" g] by (auto simp: append_frame_target_Some getTurn_def)
  let ?m = "appendAtOffset u (ap_offset op) (ap_text op)"
  let ?step = "step\<lparr>sp_frames := replace_frame (frame_id f) (set_frame_text (mg_text ?m) g) (sp_frames step)\<rparr>"
  let ?turn = "turn\<lparr>tn_steps := replace_step si ?step (tn_steps turn)\<rparr>"
  let ?s = "s\<lparr>as_items := replaceTurn (as_items s) ti (\<lambda>_. ?turn)\<rparr>"
  show ?thesis
  proof (cases "mg_gap ?m = None \<and> mg_changed ?m")
    case True
    then have st: "ar_state (applyAppend s op) = ?s"
      by (simp add: applyAppend_def assms(2) x Let_def)
    have "state_ok ?s"
      using frame_append_ok [OF assms] st by simp
    then have "ar_state (applyFrameUpsert ?s ti si f) = with_frame ?s ?turn ?step f"
      by (rule upsert_with_frame [OF _ append_frame_target_replaced [OF x]])
    also have "\<dots> = with_frame s turn step f"
      using ids by (simp add: with_frame_def replaceTurn_twice replace_frame_twice replace_step_twice)
    finally show ?thesis
      using st upsert_with_frame [OF assms(1) x] by simp
  next
    case False
    then show ?thesis
      by (auto simp: applyAppend_def assms(2) x Let_def split: option.split)
  qed
qed

text \<open>
  C17: A lost stream does no harm once the frame is flushed: in every state reached by well-formed operations
  (a turn's ordinal is the number in its id, snapshots are of well-formed states), whatever chunks were
  appended to a frame (all, some, none, duplicated, overlapping, contradicting each other or out of order), upserting
  the whole frame leads to the same state as upserting it without them. This is what lets a lower
  grade drop the chunks.
\<close>

theorem flush_absorbs_appends:
  assumes "list_all op_ok ops" "list_all (\<lambda>c. ap_target c = FrameTarget ti si (frame_id f)) chunks"
  shows "apply_all (apply_all EMPTY_AGENT_STATE ops) (map Append chunks @ [FrameUpsert ti si f])
    = apply_all (apply_all EMPTY_AGENT_STATE ops) [FrameUpsert ti si f]"
proof -
  have "apply_all s (map Append cs @ [FrameUpsert ti si f]) = apply_all s [FrameUpsert ti si f]"
    if "state_ok s" "list_all (\<lambda>c. ap_target c = FrameTarget ti si (frame_id f)) cs" for s cs
    using that
  proof (induction cs arbitrary: s)
    case (Cons c cs)
    have "state_ok (ar_state (applyOperation s (Append c)))"
      using Cons.prems(1) by (intro applyOperation_ok) simp_all
    then show ?case
      using Cons upsert_absorbs_append [of s c ti si f] by (simp add: apply_all_def)
  qed simp
  from this [OF reachable_ok [OF assms(1)] assms(2)] show ?thesis .
qed

definition sample_text :: frame where
  "sample_text = TextFrame \<lparr>tx_frameId = ''t1.1.f1'', tx_role = Assistant, tx_text = ''hello'', tx_attachmentIds = None, tx_taskId = None\<rparr>"

theorem flush_absorbs_appends_witness:
  "apply_all (apply_all EMPTY_AGENT_STATE sample_ops)
     (map Append [\<lparr>ap_target = FrameTarget ''t1'' ''t1.1'' ''t1.1.f1'', ap_offset = 0, ap_text = ''hel''\<rparr>]
       @ [FrameUpsert ''t1'' ''t1.1'' sample_text])
   = apply_all (apply_all EMPTY_AGENT_STATE sample_ops) [FrameUpsert ''t1'' ''t1.1'' sample_text]"
  by (rule flush_absorbs_appends [OF sample_ops_ok]) (simp add: sample_text_def)

section \<open>What the equality tests overlook\<close>

text \<open>An upsert that changes only the task a turn originates from is taken for a duplicate.\<close>

theorem turn_upsert_overlooks_origin_task:
  "getTurn s (tn_turnId h) = Some (turnHeaderToTurn (h\<lparr>tn_origin := (tn_origin h)\<lparr>og_taskId := x\<rparr>\<rparr>) steps) \<Longrightarrow>
   applyOperation s (TurnUpsert h) = unchanged s"
  by (simp add: applyTurnUpsert_def turnEquals_def turnHeaderToTurn_def turn_header.defs)

text \<open>An upsert that changes only the source of a notice is taken for a duplicate.\<close>

theorem notice_upsert_overlooks_source: "frameEquals (NoticeFrame (n\<lparr>no_source := x\<rparr>)) (NoticeFrame n)"
  by simp

end
