(* ===== verification/Transcript_Paging.thy ===== *)
theory Transcript_Paging
  imports Transcript_Sync
begin

text \<open>
  Subscription grades (\<open>packages/transcript/src/granularity/\<close>) and turn-granular pagination
  (\<open>packages/transcript/src/pagination/paginate.ts\<close>).
\<close>

section \<open>Grades\<close>

datatype grade = Off | TurnGrade | Block | Delta

fun GRADE_RANK :: "grade \<Rightarrow> nat" where
  "GRADE_RANK Off = 0" | "GRADE_RANK TurnGrade = 1" | "GRADE_RANK Block = 2" | "GRADE_RANK Delta = 3"

text \<open>A grade specification maps agent ids to grades; an entry may be \<open>undefined\<close>.\<close>

type_synonym grade_spec = "(string, grade option) js_map"

definition spec_entry :: "grade_spec \<Rightarrow> string \<Rightarrow> grade option" where
  "spec_entry spec i = (case jm_get spec i of None \<Rightarrow> None | Some g \<Rightarrow> g)"

definition gradeFor :: "grade_spec option \<Rightarrow> string \<Rightarrow> grade" where
  "gradeFor spec agentId =
     (case spec of
        None \<Rightarrow> Off
      | Some sp \<Rightarrow>
          (case spec_entry sp agentId of
             Some g \<Rightarrow> g
           | None \<Rightarrow> (case spec_entry sp ''*'' of Some g \<Rightarrow> g | None \<Rightarrow> Off)))"

definition needsResetOnTransition :: "grade \<Rightarrow> grade \<Rightarrow> bool" where
  "needsResetOnTransition prev nxt \<longleftrightarrow> GRADE_RANK nxt > GRADE_RANK prev"

definition detach_one :: "grade_spec \<Rightarrow> string \<Rightarrow> grade_spec" where
  "detach_one sp i = (if i = ''*'' then jm_delete sp ''*'' else jm_set sp i (Some Off))"

definition detachGrades :: "grade_spec option \<Rightarrow> string list \<Rightarrow> grade_spec option" where
  "detachGrades spec agentIds =
     (case spec of
        None \<Rightarrow> None
      | Some sp \<Rightarrow>
          let nxt = foldl detach_one sp agentIds in
          if list_ex (\<lambda>(k, g). g \<noteq> None \<and> g \<noteq> Some Off) nxt then Some nxt else None)"

fun admits :: "grade \<Rightarrow> operation \<Rightarrow> bool" where
  "admits g (Append op) = (GRADE_RANK g \<ge> GRADE_RANK Delta)"
| "admits g (StepUpsert i h) = (GRADE_RANK g \<ge> GRADE_RANK Block)"
| "admits g (FrameUpsert ti si f) = (GRADE_RANK g \<ge> GRADE_RANK Block)"
| "admits g op = True"

definition filterOpsForGrade :: "grade \<Rightarrow> operation list \<Rightarrow> operation list" where
  "filterOpsForGrade g ops = (if GRADE_RANK g = 0 then [] else filter (admits g) ops)"

fun is_append :: "operation \<Rightarrow> bool" where
  "is_append (Append op) = True"
| "is_append _ = False"

definition isAppendOnly :: "operation list \<Rightarrow> bool" where
  "isAppendOnly ops \<longleftrightarrow> length ops > 0 \<and> list_all is_append ops"

fun strip_steps :: "item \<Rightarrow> item" where
  "strip_steps (Turn t) = Turn (t\<lparr>tn_steps := []\<rparr>)"
| "strip_steps x = x"

definition redactSnapshotForGrade :: "grade \<Rightarrow> transcript_snapshot \<Rightarrow> transcript_snapshot" where
  "redactSnapshotForGrade g sn =
     (if GRADE_RANK g \<ge> GRADE_RANK Block then sn else sn\<lparr>ss_items := map strip_steps (ss_items sn)\<rparr>)"

section \<open>Pages\<close>

record page_query =
  pq_beforeTurn :: "string option"
  pq_afterTurn :: "string option"
  pq_pageSize :: int

record turn_page =
  pg_items :: "item list"
  pg_hasMore :: bool

record segment =
  sg_items :: "item list"
  sg_turnId :: "string option"

definition flush :: "item list \<Rightarrow> string option \<Rightarrow> segment list" where
  "flush current currentTurn = (if length current > 0 then [\<lparr>sg_items = current, sg_turnId = currentTurn\<rparr>] else [])"

fun split_loop :: "item list \<Rightarrow> string option \<Rightarrow> item list \<Rightarrow> segment list" where
  "split_loop current currentTurn [] = flush current currentTurn"
| "split_loop current currentTurn (Turn t # xs) = flush current currentTurn @ split_loop [Turn t] (Some (tn_turnId t)) xs"
| "split_loop current currentTurn (x # xs) = split_loop (current @ [x]) currentTurn xs"

definition splitSegments :: "item list \<Rightarrow> segment list" where
  "splitSegments items = split_loop [] None items"

definition flatten :: "segment list \<Rightarrow> item list" where
  "flatten segments = concat (map sg_items segments)"

datatype direction = Older | Newer

text \<open>\<open>xs.slice(-n)\<close> for \<open>n \<ge> 1\<close> are the last \<open>n\<close> elements.\<close>

definition slice_last :: "nat \<Rightarrow> 'a list \<Rightarrow> 'a list" where
  "slice_last n xs = drop (length xs - n) xs"

definition page :: "segment list \<Rightarrow> nat \<Rightarrow> direction \<Rightarrow> turn_page" where
  "page segments pageSize dir =
     (let head = (case segments of [] \<Rightarrow> [] | s # _ \<Rightarrow> if sg_turnId s = None then [s] else []);
          turnSegments = (if head \<noteq> [] then tl segments else segments)
      in case dir of
           Older \<Rightarrow>
             let selected = slice_last pageSize turnSegments;
                 reachesFirstTurn = (length selected = length turnSegments)
             in \<lparr>pg_items = flatten ((if reachesFirstTurn then head else []) @ selected),
                 pg_hasMore = (length turnSegments > length selected \<and> length selected > 0)\<rparr>
         | Newer \<Rightarrow>
             let selected = take pageSize turnSegments
             in \<lparr>pg_items = flatten selected,
                 pg_hasMore = (length turnSegments > length selected \<and> length selected > 0)\<rparr>)"

text \<open>\<open>seg.turnId\<close> used as a condition: neither \<open>undefined\<close> nor the empty string.\<close>

definition truthy :: "string option \<Rightarrow> bool" where
  "truthy i \<longleftrightarrow> i \<noteq> None \<and> i \<noteq> Some []"

definition paginateTurns :: "item list \<Rightarrow> page_query \<Rightarrow> turn_page" where
  "paginateTurns items query =
     (let pageSize = nat (max 1 (pq_pageSize query));
          segments = splitSegments items
      in if length segments = 0 then \<lparr>pg_items = [], pg_hasMore = False\<rparr>
         else case pq_afterTurn query of
           Some a \<Rightarrow> page (filter (\<lambda>s. truthy (sg_turnId s) \<and> compareTurnIds (the (sg_turnId s)) a > 0) segments) pageSize Newer
         | None \<Rightarrow>
             (case pq_beforeTurn query of
                Some b \<Rightarrow> page (filter (\<lambda>s. \<not> truthy (sg_turnId s) \<or> compareTurnIds (the (sg_turnId s)) b < 0) segments)
                            pageSize Older
              | None \<Rightarrow> page segments pageSize Older))"

text \<open>Scrolling back: fetch the newest page, then the page before its first turn, until there is
  no more. \<open>None\<close> when the fuel does not suffice.\<close>

fun scroll_back :: "nat \<Rightarrow> item list \<Rightarrow> int \<Rightarrow> string option \<Rightarrow> item list option" where
  "scroll_back 0 items pageSize cursor = None"
| "scroll_back (Suc n) items pageSize cursor =
     (let p = paginateTurns items \<lparr>pq_beforeTurn = cursor, pq_afterTurn = None, pq_pageSize = pageSize\<rparr> in
      if \<not> pg_hasMore p then Some (pg_items p)
      else map_option (\<lambda>older. older @ pg_items p)
             (scroll_back n items pageSize (map_option tn_turnId (case turns (pg_items p) of [] \<Rightarrow> None | t # _ \<Rightarrow> Some t))))"

section \<open>Segments\<close>

definition seg_wf :: "segment \<Rightarrow> bool" where
  "seg_wf s \<longleftrightarrow> (\<exists>t rest. sg_items s = Turn t # rest \<and> sg_turnId s = Some (tn_turnId t) \<and> turns rest = [])"

definition head_wf :: "segment list \<Rightarrow> bool" where
  "head_wf hs \<longleftrightarrow> hs = [] \<or> (\<exists>h. hs = [h] \<and> sg_turnId h = None)"

lemma flatten_append [simp]: "flatten (xs @ ys) = flatten xs @ flatten ys" and flatten_Nil [simp]: "flatten [] = []"
  by (simp_all add: flatten_def)

lemma flatten_split: "flatten (split_loop current ct xs) = current @ xs"
  by (induction current ct xs rule: split_loop.induct) (auto simp: flatten_def flush_def)

lemma split_loop_turn:
  "seg_wf \<lparr>sg_items = cur, sg_turnId = ct\<rparr> \<Longrightarrow> list_all seg_wf (split_loop cur ct xs)
     \<and> map sg_turnId (split_loop cur ct xs) = ct # map (\<lambda>t. Some (tn_turnId t)) (turns xs)"
proof (induction cur ct xs rule: split_loop.induct)
  case (2 cur ct t xs)
  have "seg_wf \<lparr>sg_items = [Turn t], sg_turnId = Some (tn_turnId t)\<rparr>" by (simp add: seg_wf_def)
  then show ?case using 2 by (auto simp: flush_def) (auto simp: seg_wf_def)
qed (auto simp: flush_def seg_wf_def turns_append)

lemma split_loop_head:
  "\<exists>hs ts. split_loop cur None xs = hs @ ts \<and> head_wf hs \<and> list_all seg_wf ts
     \<and> map sg_turnId ts = map (\<lambda>t. Some (tn_turnId t)) (turns xs)"
proof (induction cur "None :: string option" xs rule: split_loop.induct)
  case (1 cur)
  show ?case by (intro exI [of _ "flush cur None"] exI [of _ "[]"]) (simp add: flush_def head_wf_def)
next
  case (2 cur t xs)
  have "seg_wf \<lparr>sg_items = [Turn t], sg_turnId = Some (tn_turnId t)\<rparr>" by (simp add: seg_wf_def)
  then show ?case
    using split_loop_turn [of "[Turn t]" "Some (tn_turnId t)" xs]
    by (intro exI [of _ "flush cur None"] exI [of _ "split_loop [Turn t] (Some (tn_turnId t)) xs"])
      (simp add: flush_def head_wf_def)
qed simp_all

text \<open>A page toward older turns, of a timeline cut after some turn.\<close>

lemma page_older:
  assumes "head_wf hs" "list_all seg_wf ts" "n \<ge> 1"
  shows "page (hs @ ts) n Older =
    (if length ts \<le> n then \<lparr>pg_items = flatten (hs @ ts), pg_hasMore = False\<rparr>
     else \<lparr>pg_items = flatten (drop (length ts - n) ts), pg_hasMore = True\<rparr>)"
proof -
  have "(case hs @ ts of [] \<Rightarrow> [] | s # _ \<Rightarrow> if sg_turnId s = None then [s] else []) = hs"
    using assms(1,2) by (auto simp: head_wf_def seg_wf_def split: list.split)
  then have "page (hs @ ts) n Older =
    (let selected = slice_last n ts in
     \<lparr>pg_items = flatten ((if length selected = length ts then hs else []) @ selected),
      pg_hasMore = (length ts > length selected \<and> length selected > 0)\<rparr>)"
    using assms(1) unfolding page_def Let_def by (auto simp: head_wf_def)
  then show ?thesis
    using assms(3) by (auto simp: slice_last_def Let_def)
qed

lemma turns_flatten:
  "list_all seg_wf ts \<Longrightarrow> map (\<lambda>t. Some (tn_turnId t)) (turns (flatten ts)) = map sg_turnId ts"
  by (induction ts) (auto simp: flatten_def seg_wf_def turns_append)

text \<open>The cursor that stands before segment \<open>j\<close>, and the segments it admits.\<close>

definition cursor_at :: "segment list \<Rightarrow> nat \<Rightarrow> string option \<Rightarrow> bool" where
  "cursor_at ts j c \<longleftrightarrow> (c = None \<and> j = length ts) \<or> (j < length ts \<and> c = sg_turnId (ts ! j))"

lemma filter_before:
  assumes "sorted_wrt (\<lambda>a b. f a < f b) ts" "j < length ts"
  shows "filter (\<lambda>s. f s < (f (ts ! j) :: int)) ts = take j ts"
proof -
  have "filter (\<lambda>s. f s < f (ts ! j)) (take j ts) = take j ts"
    using assms by (auto simp: filter_id_conv in_set_conv_nth sorted_wrt_iff_nth_less)
  moreover have "f (ts ! j) \<le> f s" if s: "s \<in> set (drop j ts)" for s
  proof -
    obtain i where "s = ts ! (j + i)" "j + i < length ts" using s by (auto simp: in_set_conv_nth)
    then show ?thesis using assms(1) by (cases "i = 0") (auto simp: sorted_wrt_iff_nth_less intro: less_imp_le)
  qed
  then have "filter (\<lambda>s. f s < f (ts ! j)) (drop j ts) = []"
    by (fastforce simp: filter_empty_conv)
  ultimately show ?thesis
    using filter_append [of "\<lambda>s. f s < f (ts ! j)" "take j ts" "drop j ts"] by simp
qed

definition ascending :: "segment list \<Rightarrow> bool" where
  "ascending ts \<longleftrightarrow> sorted_wrt (\<lambda>a b. turnOrdinal (the (sg_turnId a)) < turnOrdinal (the (sg_turnId b))) ts
     \<and> list_all (\<lambda>s. sg_turnId s \<noteq> Some []) ts"

lemma paginate_at:
  assumes "splitSegments items = hs @ ts" "head_wf hs" "list_all seg_wf ts" "ascending ts" "cursor_at ts j c" "hs @ ts \<noteq> []"
  shows "paginateTurns items \<lparr>pq_beforeTurn = c, pq_afterTurn = None, pq_pageSize = psize\<rparr>
    = page (hs @ take j ts) (nat (max 1 psize)) Older"
proof (cases c)
  case None
  then have "j = length ts"
    using assms(3,5) by (auto simp: cursor_at_def seg_wf_def list_all_length)
  then show ?thesis
    using None assms(1,6) by (auto simp: paginateTurns_def Let_def)
next
  case (Some b)
  then have j: "j < length ts" "sg_turnId (ts ! j) = Some b" using assms(5) by (auto simp: cursor_at_def)
  have truthy: "truthy (sg_turnId s)" if "s \<in> set ts" for s
    using that assms(3,4) by (auto simp: truthy_def ascending_def list_all_iff seg_wf_def)
  have "filter (\<lambda>s. \<not> truthy (sg_turnId s) \<or> compareTurnIds (the (sg_turnId s)) b < 0) ts
      = filter (\<lambda>s. turnOrdinal (the (sg_turnId s)) < turnOrdinal (the (sg_turnId (ts ! j)))) ts"
    using truthy j by (intro filter_cong) (auto simp: compareTurnIds_def)
  also have "\<dots> = take j ts"
    using filter_before [of "\<lambda>s. turnOrdinal (the (sg_turnId s))" ts j] assms(4) j by (simp add: ascending_def)
  finally have "filter (\<lambda>s. \<not> truthy (sg_turnId s) \<or> compareTurnIds (the (sg_turnId s)) b < 0) (hs @ ts) = hs @ take j ts"
    using assms(2) by (auto simp: head_wf_def truthy_def)
  then show ?thesis
    using Some assms(1,6) by (auto simp add: paginateTurns_def Let_def simp del: filter_append)
qed

lemma scroll_back_from:
  assumes "splitSegments items = hs @ ts" "head_wf hs" "list_all seg_wf ts" "ascending ts" "hs @ ts \<noteq> []"
  shows "j \<le> length ts \<Longrightarrow> cursor_at ts j c \<Longrightarrow> j < fuel \<Longrightarrow>
    scroll_back fuel items psize c = Some (flatten (hs @ take j ts))"
proof (induction fuel arbitrary: j c)
  case (Suc fuel)
  let ?n = "nat (max 1 psize)"
  have wf: "list_all seg_wf (take j ts)" using assms(3) by (simp add: list_all_iff) (meson in_set_takeD)
  have p: "paginateTurns items \<lparr>pq_beforeTurn = c, pq_afterTurn = None, pq_pageSize = psize\<rparr> =
      (if j \<le> ?n then \<lparr>pg_items = flatten (hs @ take j ts), pg_hasMore = False\<rparr>
       else \<lparr>pg_items = flatten (drop (j - ?n) (take j ts)), pg_hasMore = True\<rparr>)"
    using paginate_at [OF assms(1-4) Suc.prems(2) assms(5)] page_older [OF assms(2) wf, of ?n] Suc.prems(1) by simp
  show ?case
  proof (cases "j \<le> ?n")
    case True
    then show ?thesis using p by simp
  next
    case False
    let ?k = "j - ?n"
    have "map (\<lambda>t. Some (tn_turnId t)) (turns (flatten (drop ?k (take j ts)))) = map sg_turnId (drop ?k (take j ts))"
      using wf by (intro turns_flatten) (auto simp: list_all_iff dest: in_set_dropD)
    moreover have "drop ?k (take j ts) = ts ! ?k # drop (Suc ?k) (take j ts)"
      using False Suc.prems(1) by (subst Cons_nth_drop_Suc [symmetric]) auto
    ultimately obtain t us where t: "turns (flatten (drop ?k (take j ts))) = t # us" "Some (tn_turnId t) = sg_turnId (ts ! ?k)"
      by auto
    have "scroll_back fuel items psize (sg_turnId (ts ! ?k)) = Some (flatten (hs @ take ?k ts))"
      using False Suc.prems by (intro Suc.IH) (auto simp: cursor_at_def)
    moreover have "flatten (take ?k ts) @ flatten (drop ?k (take j ts)) = flatten (take j ts)"
      using append_take_drop_id [of ?k "take j ts"] flatten_append [of "take ?k (take j ts)" "drop ?k (take j ts)"]
      by (simp add: min_def)
    ultimately show ?thesis
      using p False t by simp
  qed
qed simp

text \<open>
  Paging back loses nothing: on a timeline whose turns have ascending ordinals, fetching the newest page and
  then, as long as there is more, the page before its first turn, puts together exactly the
  timeline, each turn, marker and task reference once and in order, for every page size
  (one round per turn is always enough).
\<close>

theorem paging_complete:
  assumes "sorted_wrt (<) (map (\<lambda>t. turnOrdinal (tn_turnId t)) (turns items))"
    "list_all (\<lambda>t. tn_turnId t \<noteq> []) (turns items)" "fuel > length (turns items)"
  shows "scroll_back fuel items pageSize None = Some items"
proof (cases "items = []")
  case True
  then show ?thesis using assms(3) by (cases fuel) (simp_all add: paginateTurns_def splitSegments_def flush_def)
next
  case False
  obtain hs ts where seg: "splitSegments items = hs @ ts" "head_wf hs" "list_all seg_wf ts"
    "map sg_turnId ts = map (\<lambda>t. Some (tn_turnId t)) (turns items)"
    using split_loop_head [of "[]" items] unfolding splitSegments_def by blast
  have flat: "flatten (hs @ ts) = items" using flatten_split [of "[]" None items] seg(1) by (simp add: splitSegments_def)
  have ids: "map (\<lambda>s. turnOrdinal (the (sg_turnId s))) ts = map (\<lambda>t. turnOrdinal (tn_turnId t)) (turns items)"
    using arg_cong [OF seg(4), of "map (\<lambda>i. turnOrdinal (the i))"] by (simp add: comp_def)
  have "sorted_wrt (<) (map (\<lambda>s. turnOrdinal (the (sg_turnId s))) ts)" unfolding ids by (rule assms(1))
  moreover have "sg_turnId s \<noteq> Some []" if "s \<in> set ts" for s
  proof -
    have "sg_turnId s \<in> (\<lambda>t. Some (tn_turnId t)) ` set (turns items)"
      using arg_cong [OF seg(4), of set] that by auto
    then show ?thesis using assms(2) by (auto simp: list_all_iff)
  qed
  ultimately have asc: "ascending ts" by (simp add: ascending_def sorted_wrt_map list_all_iff)
  have "length ts = length (turns items)" using arg_cong [OF seg(4), of length] by simp
  moreover have "hs @ ts \<noteq> []" using flat False by auto
  ultimately show ?thesis
    using scroll_back_from [OF seg(1-3) asc, of "length ts" None fuel pageSize] flat assms(3)
    by (simp add: cursor_at_def)
qed

lemma turnId_nonempty: "turnId n \<noteq> []"
  by (simp add: turnId_def)

definition sample_turn :: "nat \<Rightarrow> item" where
  "sample_turn n = Turn (skeletonTurn (turnId n))"

definition sample_marker :: item where
  "sample_marker = Marker \<lparr>mk_obj = 0, mk_markerId = ''m'', mk_marker = ''undo'', mk_payload = None, mk_at = None\<rparr>"

theorem paging_complete_witness:
  "scroll_back 3 [sample_marker, sample_turn 1, sample_marker, sample_turn 2] 1 None
     = Some [sample_marker, sample_turn 1, sample_marker, sample_turn 2]"
  by (rule paging_complete) (simp_all add: sample_turn_def sample_marker_def turnOrdinal_turnId turnId_nonempty)

section \<open>Grades and removals\<close>

definition removal_ops :: "operation list" where
  "removal_ops = TurnUpsert (turn_header.truncate (skeletonTurn ''t1'')) # sample_ops @ [ItemsRemove [''t1'']]"

text \<open>
  A subscriber at grade \<open>turn\<close> does not follow removals completely. When a turn with a tool call that
  awaits approval is removed, the full state drops the interaction anchored to the call, but the filtered
  stream carries the removal without the frames that tell which interactions it kills, and the subscriber goes on
  listing the interaction as pending.
\<close>

theorem turn_grade_keeps_dead_interaction:
  "as_pendingInteractions (apply_all EMPTY_AGENT_STATE removal_ops) = []
   \<and> as_pendingInteractions (apply_all EMPTY_AGENT_STATE (filterOpsForGrade TurnGrade removal_ops)) = [''i1'']"
  by (simp add: removal_ops_def sample_ops_def apply_all_def filterOpsForGrade_def EMPTY_AGENT_STATE_def applyFrameUpsert_eq sample_tool_def
      sample_interaction_def turn_or_skeleton_def step_or_skeleton_def getTurn_def find_step_def find_frame_def Let_def
      place_turn_def insertTurn_def replaceTurn_def put_step_def put_frame_def sort_steps_def applyInteractionUpsert_def jm_get_def
      set_add_def applyItemsRemove_def removed_tool_calls_def turn_tool_calls_def anchored_in_def applyTurnUpsert_def
      turnHeaderToTurn_def turn_header.defs skeletonTurn_def skeletonStep_def)

end
