(* ===== verification/Cron_Lock.thy ===== *)
theory Cron_Lock
  imports Prelude
begin

text \<open>
  The lock that elects one session as owner of a project's cron schedule,
  \<open>packages/agent-core/src/tools/cron/lock.ts\<close>, as the interleaving of the file operations of several
  sessions. A session is a number with an identity and a process id; one \<open>Proceed\<close> is one file operation
  of a session, and between any two of them any other session may run.

  The file system is modelled as the operations see it: a directory entry that names a file by number, and
  the content of each file. \<open>writeFile\<close> opens (creating or truncating) and then writes, \<open>readFile\<close> opens and
  then reads, so a file can be seen created but not yet written, and a file that was unlinked can still
  be written by whoever has it open. The record is written by one operation. The directory of
  the lock exists. \<open>process.kill(pid, 0)\<close> is the argument \<open>alive\<close>.
\<close>

section \<open>The lock file\<close>

record ProjectCronLockRecord =
  lr_sessionId :: string
  lr_pid :: int
  lr_acquiredAt :: int

text \<open>What a file holds: nothing yet, something that is no lock record, or a record.\<close>

datatype lock_content = Blank | Corrupt | Written ProjectCronLockRecord

record lock_fs =
  fs_entry :: "nat option"
  fs_content :: "nat \<Rightarrow> lock_content"
  fs_next :: nat

text \<open>The second half of \<open>readLock\<close>: \<open>JSON.parse\<close> throws on an empty file.\<close>

fun readLock :: "lock_content \<Rightarrow> ProjectCronLockRecord option" where
  "readLock (Written r) = Some r"
| "readLock _ = None"

definition create_file :: "lock_fs \<Rightarrow> nat \<times> lock_fs" where
  "create_file fs = (fs_next fs, fs\<lparr>fs_entry := Some (fs_next fs), fs_content := (fs_content fs)(fs_next fs := Blank),
     fs_next := fs_next fs + 1\<rparr>)"

text \<open>\<open>tryCreateExclusive\<close> up to the open with flag \<open>wx\<close>: it succeeds only where there is no file.\<close>

definition tryCreateExclusive :: "lock_fs \<Rightarrow> nat option \<times> lock_fs" where
  "tryCreateExclusive fs = (if fs_entry fs = None then apfst Some (create_file fs) else (None, fs))"

text \<open>The open of \<open>writeFile\<close> without a flag: it truncates the file, or creates it.\<close>

definition open_truncate :: "lock_fs \<Rightarrow> nat \<times> lock_fs" where
  "open_truncate fs = (case fs_entry fs of
     None \<Rightarrow> create_file fs
   | Some i \<Rightarrow> (i, fs\<lparr>fs_content := (fs_content fs)(i := Blank)\<rparr>))"

definition write_file :: "nat \<Rightarrow> ProjectCronLockRecord \<Rightarrow> lock_fs \<Rightarrow> lock_fs" where
  "write_file i rec fs = fs\<lparr>fs_content := (fs_content fs)(i := Written rec)\<rparr>"

definition isProcessAlive :: "(int \<Rightarrow> bool) \<Rightarrow> int \<Rightarrow> bool" where
  "isProcessAlive alive pid \<longleftrightarrow> pid > 0 \<and> alive pid"

section \<open>Sessions\<close>

text \<open>Where a session stands: outside, before its next file operation within an acquisition or a
  release, or at rest after one. \<open>Writing\<close> and \<open>Rewriting\<close> hold the open file.\<close>

datatype progress =
    Outside
  | Creating ProjectCronLockRecord
  | Writing ProjectCronLockRecord nat
  | Opening ProjectCronLockRecord
  | Reading ProjectCronLockRecord nat
  | Refreshing ProjectCronLockRecord
  | Rewriting ProjectCronLockRecord nat
  | Unlinking ProjectCronLockRecord
  | Recreating ProjectCronLockRecord
  | Owner
  | Refused
  | ReleaseOpening
  | ReleaseReading nat
  | ReleaseUnlinking

record lock_state =
  lk_fs :: lock_fs
  lk_at :: "nat \<Rightarrow> progress"

record lock_env =
  le_identity :: "nat \<Rightarrow> string"
  le_pid :: "nat \<Rightarrow> int"
  le_alive :: "int \<Rightarrow> bool"

definition lock_record :: "lock_env \<Rightarrow> nat \<Rightarrow> int \<Rightarrow> ProjectCronLockRecord" where
  "lock_record ev s nowMs = \<lparr>lr_sessionId = le_identity ev s, lr_pid = le_pid ev s, lr_acquiredAt = nowMs\<rparr>"

text \<open>What follows the failed exclusive create, once the existing lock has been read.\<close>

definition after_read :: "lock_env \<Rightarrow> nat \<Rightarrow> ProjectCronLockRecord \<Rightarrow> ProjectCronLockRecord option \<Rightarrow> progress" where
  "after_read ev s rec existing =
     (case existing of
        Some r \<Rightarrow>
          if lr_sessionId r = le_identity ev s then (if lr_pid r \<noteq> le_pid ev s then Refreshing rec else Owner)
          else if isProcessAlive (le_alive ev) (lr_pid r) then Refused
          else Unlinking rec
      | None \<Rightarrow> Unlinking rec)"

definition release_read :: "lock_env \<Rightarrow> nat \<Rightarrow> ProjectCronLockRecord option \<Rightarrow> progress" where
  "release_read ev s existing =
     (case existing of
        Some r \<Rightarrow> if lr_sessionId r = le_identity ev s then ReleaseUnlinking else Outside
      | None \<Rightarrow> Outside)"

text \<open>One file operation of a session: \<open>tryAcquireProjectCronLock\<close> and \<open>releaseProjectCronLock\<close>, cut at
  their file operations. A failed open of \<open>readLock\<close> counts as no lock.\<close>

definition lock_op :: "lock_env \<Rightarrow> nat \<Rightarrow> lock_fs \<Rightarrow> progress \<Rightarrow> lock_fs \<times> progress" where
  "lock_op ev s fs p =
     (case p of
        Creating rec \<Rightarrow>
          (case tryCreateExclusive fs of (Some i, fs') \<Rightarrow> (fs', Writing rec i) | (None, fs') \<Rightarrow> (fs', Opening rec))
      | Writing rec i \<Rightarrow> (write_file i rec fs, Owner)
      | Opening rec \<Rightarrow>
          (fs, case fs_entry fs of None \<Rightarrow> after_read ev s rec None | Some i \<Rightarrow> Reading rec i)
      | Reading rec i \<Rightarrow> (fs, after_read ev s rec (readLock (fs_content fs i)))
      | Refreshing rec \<Rightarrow> (case open_truncate fs of (i, fs') \<Rightarrow> (fs', Rewriting rec i))
      | Rewriting rec i \<Rightarrow> (write_file i rec fs, Owner)
      | Unlinking rec \<Rightarrow> (fs\<lparr>fs_entry := None\<rparr>, Recreating rec)
      | Recreating rec \<Rightarrow>
          (case tryCreateExclusive fs of (Some i, fs') \<Rightarrow> (fs', Writing rec i) | (None, fs') \<Rightarrow> (fs', Refused))
      | ReleaseOpening \<Rightarrow>
          (fs, case fs_entry fs of None \<Rightarrow> release_read ev s None | Some i \<Rightarrow> ReleaseReading i)
      | ReleaseReading i \<Rightarrow> (fs, release_read ev s (readLock (fs_content fs i)))
      | ReleaseUnlinking \<Rightarrow> (fs\<lparr>fs_entry := None\<rparr>, Outside)
      | _ \<Rightarrow> (fs, p))"

datatype lock_act = Acquire nat int | Release nat | Proceed nat

definition lock_step :: "lock_env \<Rightarrow> lock_state \<Rightarrow> lock_act \<Rightarrow> lock_state" where
  "lock_step ev st act =
     (case act of
        Acquire s nowMs \<Rightarrow>
          if lk_at st s \<in> {Outside, Refused} then st\<lparr>lk_at := (lk_at st)(s := Creating (lock_record ev s nowMs))\<rparr> else st
      | Release s \<Rightarrow>
          if lk_at st s = Owner then st\<lparr>lk_at := (lk_at st)(s := ReleaseOpening)\<rparr> else st
      | Proceed s \<Rightarrow>
          (let (fs', p) = lock_op ev s (lk_fs st) (lk_at st s)
           in st\<lparr>lk_fs := fs', lk_at := (lk_at st)(s := p)\<rparr>))"

text \<open>All sessions outside, with no lock file or with one.\<close>

definition lock_start :: "lock_content option \<Rightarrow> lock_state" where
  "lock_start lf = \<lparr>lk_fs = \<lparr>fs_entry = map_option (\<lambda>_. 0) lf, fs_content = (\<lambda>_. case lf of None \<Rightarrow> Blank | Some c \<Rightarrow> c),
     fs_next = 1\<rparr>, lk_at = (\<lambda>_. Outside)\<rparr>"

definition owners :: "lock_state \<Rightarrow> nat set" where
  "owners st = {s. lk_at st s = Owner}"

section \<open>Exclusion while the lock is not given up\<close>

text \<open>Sessions that can be told apart and whose processes live.\<close>

definition live_sessions :: "lock_env \<Rightarrow> bool" where
  "live_sessions ev \<longleftrightarrow>
     inj (le_identity ev) \<and> (\<forall>s. le_pid ev s > 0 \<and> le_alive ev (le_pid ev s))"

text \<open>The lock is absent or names a living process.\<close>

definition live_lock :: "lock_env \<Rightarrow> lock_content option \<Rightarrow> bool" where
  "live_lock ev lf \<longleftrightarrow> lf = None \<or> (\<exists>r. lf = Some (Written r) \<and> isProcessAlive (le_alive ev) (lr_pid r))"

fun keeps_lock :: "lock_act \<Rightarrow> bool" where
  "keeps_lock (Release _) = False"
| "keeps_lock _ = True"

text \<open>The race: a session reads a file that another has created or truncated and not yet written.\<close>

definition reads_blank :: "lock_state \<Rightarrow> lock_act \<Rightarrow> bool" where
  "reads_blank st act \<longleftrightarrow>
     (case act of
        Proceed s \<Rightarrow> (case lk_at st s of Reading rec i \<Rightarrow> fs_content (lk_fs st) i = Blank | _ \<Rightarrow> False)
      | _ \<Rightarrow> False)"

fun race_free :: "lock_env \<Rightarrow> lock_state \<Rightarrow> lock_act list \<Rightarrow> bool" where
  "race_free ev st [] \<longleftrightarrow> True"
| "race_free ev st (a # as) \<longleftrightarrow> \<not> reads_blank st a \<and> race_free ev (lock_step ev st a) as"

text \<open>The entry names a file that is being written, or one with the record of a living process.\<close>

definition fs_live :: "lock_env \<Rightarrow> lock_fs \<Rightarrow> bool" where
  "fs_live ev fs \<longleftrightarrow> (\<forall>i. fs_entry fs = Some i \<longrightarrow>
     fs_content fs i = Blank \<or> (\<exists>r. fs_content fs i = Written r \<and> isProcessAlive (le_alive ev) (lr_pid r)))"

definition held_by :: "lock_env \<Rightarrow> lock_fs \<Rightarrow> nat \<Rightarrow> bool" where
  "held_by ev fs s \<longleftrightarrow> (\<exists>i r. fs_entry fs = Some i \<and> fs_content fs i = Written r \<and> lr_sessionId r = le_identity ev s)"

definition being_written :: "lock_fs \<Rightarrow> nat \<Rightarrow> bool" where
  "being_written fs i \<longleftrightarrow> fs_entry fs = Some i \<and> fs_content fs i = Blank"

abbreviation own_record :: "lock_env \<Rightarrow> nat \<Rightarrow> ProjectCronLockRecord \<Rightarrow> bool" where
  "own_record ev s rec \<equiv> \<exists>t. rec = lock_record ev s t"

fun session_ok :: "lock_env \<Rightarrow> lock_fs \<Rightarrow> nat \<Rightarrow> progress \<Rightarrow> bool" where
  "session_ok ev fs s Outside \<longleftrightarrow> True"
| "session_ok ev fs s (Creating rec) \<longleftrightarrow> own_record ev s rec"
| "session_ok ev fs s Refused \<longleftrightarrow> True"
| "session_ok ev fs s (Writing rec i) \<longleftrightarrow> own_record ev s rec \<and> being_written fs i"
| "session_ok ev fs s (Rewriting rec i) \<longleftrightarrow> own_record ev s rec \<and> being_written fs i"
| "session_ok ev fs s (Opening rec) \<longleftrightarrow> own_record ev s rec \<and> fs_entry fs \<noteq> None"
| "session_ok ev fs s (Reading rec i) \<longleftrightarrow> own_record ev s rec \<and> fs_entry fs = Some i"
| "session_ok ev fs s (Refreshing rec) \<longleftrightarrow> own_record ev s rec \<and> held_by ev fs s"
| "session_ok ev fs s Owner \<longleftrightarrow> held_by ev fs s"
| "session_ok ev fs s _ \<longleftrightarrow> False"

fun writes :: "progress \<Rightarrow> bool" where
  "writes (Writing _ _) = True"
| "writes (Rewriting _ _) = True"
| "writes _ = False"

definition lock_ok :: "lock_env \<Rightarrow> lock_state \<Rightarrow> bool" where
  "lock_ok ev st \<longleftrightarrow> fs_live ev (lk_fs st) \<and> (\<forall>s. session_ok ev (lk_fs st) s (lk_at st s))
     \<and> (\<forall>s u. writes (lk_at st s) \<and> writes (lk_at st u) \<longrightarrow> s = u)"

text \<open>Whoever reads a live lock ends as its owner, refreshes it or is refused.\<close>

lemma after_read_live:
  "isProcessAlive (le_alive ev) (lr_pid r) \<Longrightarrow>
   after_read ev s rec (Some r) =
     (if lr_sessionId r = le_identity ev s then (if lr_pid r \<noteq> le_pid ev s then Refreshing rec else Owner) else Refused)"
  by (simp add: after_read_def)

text \<open>One operation leaves the file alone; or it creates it where there was none; or it empties it while it
  names the session; or it writes the session's record into the file it has emptied or created.\<close>

lemma lock_op_cases:
  assumes lf: "fs_live ev fs" and p: "session_ok ev fs s p"
    and nb: "\<forall>rec i. p = Reading rec i \<longrightarrow> fs_content fs i \<noteq> Blank"
  obtains (same) q where "lock_op ev s fs p = (fs, q)" "session_ok ev fs s q" "\<not> writes q"
  | (created) rec where "lock_op ev s fs p = (snd (create_file fs), Writing rec (fs_next fs))" "own_record ev s rec"
      "fs_entry fs = None"
  | (emptied) rec i where "lock_op ev s fs p = (fs\<lparr>fs_content := (fs_content fs)(i := Blank)\<rparr>, Rewriting rec i)"
      "own_record ev s rec" "held_by ev fs s" "fs_entry fs = Some i"
  | (written) rec i where "lock_op ev s fs p = (write_file i rec fs, Owner)" "own_record ev s rec" "writes p"
      "being_written fs i"
proof (cases p)
  case (Creating rec)
  show thesis
  proof (cases "fs_entry fs")
    case None
    then show thesis
      using created [of rec] Creating p by (simp add: lock_op_def tryCreateExclusive_def create_file_def)
  next
    case (Some i)
    then show thesis
      using same [of "Opening rec"] Creating p by (simp add: lock_op_def tryCreateExclusive_def)
  qed
next
  case (Opening rec)
  then obtain i where "fs_entry fs = Some i" using p by auto
  then show thesis using same [of "Reading rec i"] Opening p by (simp add: lock_op_def)
next
  case (Reading rec i)
  then obtain r where r: "fs_content fs i = Written r" "isProcessAlive (le_alive ev) (lr_pid r)"
    using lf p nb by (auto simp: fs_live_def)
  then show thesis
    using same [of "after_read ev s rec (Some r)"] Reading p by (auto simp: lock_op_def after_read_live held_by_def)
next
  case (Refreshing rec)
  then obtain i where "fs_entry fs = Some i" using p by (auto simp: held_by_def)
  then show thesis using emptied [of i rec] Refreshing p by (simp add: lock_op_def open_truncate_def)
qed (use p same written in \<open>auto simp: lock_op_def\<close>)

text \<open>What the other sessions rely on survives each of these operations.\<close>

lemma others_keep_created:
  "session_ok ev fs u q \<Longrightarrow> fs_entry fs = None \<Longrightarrow> session_ok ev (snd (create_file fs)) u q \<and> \<not> writes q"
  by (cases q) (auto simp: create_file_def held_by_def being_written_def)

lemma others_keep_emptied:
  assumes "session_ok ev fs u q" "fs_entry fs = Some i" "held_by ev fs s" "inj (le_identity ev)" "u \<noteq> s"
  shows "session_ok ev (fs\<lparr>fs_content := (fs_content fs)(i := Blank)\<rparr>) u q \<and> \<not> writes q"
  using assms by (cases q) (auto simp: held_by_def being_written_def dest: injD)

lemma others_keep_written:
  "session_ok ev fs u q \<Longrightarrow> being_written fs i \<Longrightarrow> \<not> writes q \<Longrightarrow> session_ok ev (write_file i rec fs) u q"
  by (cases q) (auto simp: held_by_def being_written_def write_file_def)

lemma live_written:
  "live_sessions ev \<Longrightarrow> own_record ev s rec \<Longrightarrow> fs_live ev fs \<Longrightarrow> fs_live ev (write_file i rec fs)"
  by (auto simp: live_sessions_def fs_live_def write_file_def lock_record_def isProcessAlive_def)

lemma lock_step_ok:
  assumes live: "live_sessions ev" and ok: "lock_ok ev st" and act: "keeps_lock act" "\<not> reads_blank st act"
  shows "lock_ok ev (lock_step ev st act)"
proof (cases act)
  case (Proceed s)
  have inj: "inj (le_identity ev)" using live by (simp add: live_sessions_def)
  have lf: "fs_live ev (lk_fs st)" and at: "session_ok ev (lk_fs st) u (lk_at st u)"
    and one: "writes (lk_at st u) \<Longrightarrow> writes (lk_at st v) \<Longrightarrow> u = v" for u v
    using ok by (auto simp: lock_ok_def)
  have nb: "\<forall>rec i. lk_at st s = Reading rec i \<longrightarrow> fs_content (lk_fs st) i \<noteq> Blank"
    using act(2) Proceed by (simp add: reads_blank_def split: progress.splits)
  show ?thesis
    using lf at [of s] nb
  proof (cases rule: lock_op_cases)
    case (same q)
    then show ?thesis using Proceed lf at one by (auto simp: lock_step_def lock_ok_def)
  next
    case (created rec)
    have "fs_live ev (snd (create_file (lk_fs st)))" by (simp add: fs_live_def create_file_def)
    moreover have "being_written (snd (create_file (lk_fs st))) (fs_next (lk_fs st))"
      by (simp add: being_written_def create_file_def)
    ultimately show ?thesis
      using Proceed created others_keep_created [OF at created(3)] by (auto simp: lock_step_def lock_ok_def)
  next
    case (emptied rec i)
    have "fs_live ev ((lk_fs st)\<lparr>fs_content := (fs_content (lk_fs st))(i := Blank)\<rparr>)"
      using lf by (auto simp: fs_live_def)
    moreover have "being_written ((lk_fs st)\<lparr>fs_content := (fs_content (lk_fs st))(i := Blank)\<rparr>) i"
      using emptied by (simp add: being_written_def)
    ultimately show ?thesis
      using Proceed emptied others_keep_emptied [OF at emptied(4,3) inj] by (auto simp: lock_step_def lock_ok_def)
  next
    case (written rec i)
    have "held_by ev (write_file i rec (lk_fs st)) s"
      using written by (auto simp: held_by_def write_file_def being_written_def lock_record_def)
    moreover have "\<not> writes (lk_at st u)" if "u \<noteq> s" for u
      using one [of u s] written(3) that by auto
    ultimately show ?thesis
      using Proceed written live_written [OF live written(2) lf] others_keep_written [OF at written(4)]
      by (auto simp: lock_step_def lock_ok_def)
  qed
qed (use ok act in \<open>auto simp: lock_step_def lock_ok_def\<close>)

lemma lock_run_ok:
  assumes "live_sessions ev"
  shows "lock_ok ev st \<Longrightarrow> list_all keeps_lock acts \<Longrightarrow> race_free ev st acts \<Longrightarrow> lock_ok ev (run_ops (lock_step ev) st acts)"
  by (induction acts arbitrary: st) (simp_all add: lock_step_ok [OF assms])

lemma lock_start_ok: "live_lock ev lf \<Longrightarrow> lock_ok ev (lock_start lf)"
  by (auto simp: live_lock_def lock_ok_def lock_start_def fs_live_def)

text \<open>
  C35: Exclusion can be lost in three ways only: a dead or unreadable lock at the start, a release, or a session that
  reads the file between another's opening and writing it. If the lock file is absent or names a living process at the
  start, the sessions are told apart by their identities and all their processes live, none
  gives the lock up, and no session reads a lock file that is still empty (\<open>race_free\<close>), then, however
  their file operations interleave otherwise, at most one session owns the schedule, and the lock file names it.
\<close>

theorem lock_excludes:
  assumes "live_sessions ev" "live_lock ev lf" "list_all keeps_lock acts" "race_free ev (lock_start lf) acts"
    and "s \<in> owners (run_ops (lock_step ev) (lock_start lf) acts)"
    and "u \<in> owners (run_ops (lock_step ev) (lock_start lf) acts)"
  shows "s = u \<and> held_by ev (lk_fs (run_ops (lock_step ev) (lock_start lf) acts)) s"
proof -
  let ?st = "run_ops (lock_step ev) (lock_start lf) acts"
  have "lock_ok ev ?st"
    by (rule lock_run_ok [OF assms(1) lock_start_ok [OF assms(2)] assms(3,4)])
  then have ok: "session_ok ev (lk_fs ?st) v (lk_at ?st v)" for v
    by (simp add: lock_ok_def)
  have h: "held_by ev (lk_fs ?st) s" "held_by ev (lk_fs ?st) u"
    using ok [of s] ok [of u] assms(5,6) by (auto simp: owners_def)
  then have "le_identity ev s = le_identity ev u" by (auto simp: held_by_def)
  then show ?thesis using assms(1) h by (auto simp: live_sessions_def dest: injD)
qed

definition two_sessions :: lock_env where
  "two_sessions = \<lparr>le_identity = (\<lambda>s. replicate s (CHR ''s'')), le_pid = (\<lambda>s. int s + 100), le_alive = (\<lambda>p. p \<ge> 100)\<rparr>"

lemma two_sessions_live: "live_sessions two_sessions"
  by (auto simp: live_sessions_def two_sessions_def inj_def dest: arg_cong [of _ _ length])

lemmas lock_run_defs = lock_start_def lock_step_def lock_op_def tryCreateExclusive_def create_file_def open_truncate_def
  write_file_def after_read_def release_read_def lock_record_def isProcessAlive_def

definition orderly_acts :: "lock_act list" where
  "orderly_acts = [Acquire 1 0, Acquire 2 0, Proceed 1, Proceed 2, Proceed 1, Proceed 2, Proceed 2]"

theorem lock_excludes_witness:
  "1 \<in> owners (run_ops (lock_step two_sessions) (lock_start None) orderly_acts)
   \<and> 2 \<notin> owners (run_ops (lock_step two_sessions) (lock_start None) orderly_acts)"
proof -
  have "1 \<in> owners (run_ops (lock_step two_sessions) (lock_start None) orderly_acts)"
    "race_free two_sessions (lock_start None) orderly_acts" "list_all keeps_lock orderly_acts"
    by (simp_all add: owners_def lock_run_defs two_sessions_def orderly_acts_def reads_blank_def)
  then show ?thesis
    using lock_excludes [OF two_sessions_live, of None orderly_acts 1 2] by (auto simp: live_lock_def)
qed

section \<open>Two owners\<close>

text \<open>
  C36: Two sessions can both win a free lock, although the module promises that the exclusive create lets only one win.
  For any two sessions, living or not, with no lock file at the start and without any release: the first
  creates the file; the second fails to create it, reads it before the first has written its record, takes the empty
  file for a corrupt lock, unlinks it and creates its own; the first then writes its record into the file it
  has open. Both own the schedule.
\<close>

theorem fresh_lock_two_owners:
  assumes "s \<noteq> u"
  shows "owners (run_ops (lock_step ev) (lock_start None)
     [Acquire s t, Proceed s, Acquire u t', Proceed u, Proceed u, Proceed u, Proceed u, Proceed u, Proceed u, Proceed s])
   = {s, u}"
  using assms by (auto simp: owners_def lock_run_defs split: if_splits)

theorem fresh_lock_two_owners_witness:
  "live_sessions two_sessions \<and>
   owners (run_ops (lock_step two_sessions) (lock_start None)
     [Acquire 1 0, Proceed 1, Acquire 2 5, Proceed 2, Proceed 2, Proceed 2, Proceed 2, Proceed 2, Proceed 2, Proceed 1])
   = {1, 2}"
  using fresh_lock_two_owners [of 1 2 two_sessions 0 5] two_sessions_live by simp

text \<open>
  Of the sessions recovering a stale lock, too, more than one can succeed: each has read the stale lock, the first
  unlinks it and creates its own, and the second unlinks that one and creates its own in turn.
\<close>

theorem stale_lock_two_owners:
  "\<not> isProcessAlive (le_alive two_sessions) 7 \<and>
   owners (run_ops (lock_step two_sessions) (lock_start (Some (Written \<lparr>lr_sessionId = ''dead'', lr_pid = 7, lr_acquiredAt = 0\<rparr>)))
     [Acquire 1 0, Acquire 2 0, Proceed 1, Proceed 1, Proceed 1, Proceed 2, Proceed 2, Proceed 2,
      Proceed 1, Proceed 1, Proceed 1, Proceed 2, Proceed 2, Proceed 2])
   = {1, 2}"
  by (auto simp: owners_def lock_run_defs two_sessions_def split: if_splits)

text \<open>
  And a session that fails to create the file and then finds it gone, because its owner has just released it, goes
  on to unlink what is there: the lock a third session holds by then.
\<close>

theorem released_lock_two_owners:
  "owners (run_ops (lock_step two_sessions) (lock_start None)
     [Acquire 1 0, Proceed 1, Proceed 1, Acquire 2 0, Proceed 2, Release 1, Proceed 1, Proceed 1, Proceed 1, Proceed 2,
      Acquire 3 0, Proceed 3, Proceed 3, Proceed 2, Proceed 2, Proceed 2]) = {2, 3}"
  by (auto simp: owners_def lock_run_defs two_sessions_def split: if_splits)

end
