(* ===== verification/Local_Date.thy ===== *)
theory Local_Date
  imports Prelude
begin

text \<open>
  The \<open>Date\<close> objects of the language, as far as the cron code uses them. A date is its time value,
  milliseconds since the epoch; the getters and setters work on local time, by the algorithms of the
  ECMAScript specification (\<open>Day\<close>, \<open>DayFromYear\<close>, \<open>MakeDay\<close>, \<open>MakeTime\<close>, \<open>LocalTime\<close>, \<open>UTC\<close>).

  The time zone of the host is a \<open>zone\<close>: the offset before the first transition and the list of
  transitions, each the instant and the offset from it on. A local time that occurs twice denotes its
  first occurrence, and a local time that is skipped is read with the offset before the transition.
  Times stay far inside the range of time values, so that clipping plays no role.

  The second half shows that the calendar is sound: months tile the days, in order, so that
  \<open>MakeDay\<close> and the year, month and date of a day are inverse to each other.
\<close>

section \<open>Days, years and months\<close>

definition msPerDay :: int where "msPerDay = 86400000"

definition Day :: "int \<Rightarrow> int" where "Day t = t div msPerDay"

definition TimeWithinDay :: "int \<Rightarrow> int" where "TimeWithinDay t = t mod msPerDay"

definition DayFromYear :: "int \<Rightarrow> int" where
  "DayFromYear y = 365 * (y - 1970) + (y - 1969) div 4 - (y - 1901) div 100 + (y - 1601) div 400"

definition leap_year :: "int \<Rightarrow> bool" where
  "leap_year y \<longleftrightarrow> 4 dvd y \<and> (100 dvd y \<longrightarrow> 400 dvd y)"

text \<open>The first day of a month within its year, months counted from 0.\<close>

definition month_starts :: "bool \<Rightarrow> int list" where
  "month_starts leap =
     (if leap then [0, 31, 60, 91, 121, 152, 182, 213, 244, 274, 305, 335, 366]
      else [0, 31, 59, 90, 120, 151, 181, 212, 243, 273, 304, 334, 365])"

lemma succ_div_mod:
  fixes x k :: int
  assumes k: "0 < k"
  shows "(x + 1) div k = (if x mod k + 1 = k then x div k + 1 else x div k)"
    and "(x + 1) mod k = (if x mod k + 1 = k then 0 else x mod k + 1)"
proof -
  have e: "x + 1 = k * (x div k) + (x mod k + 1)" by simp
  have b: "0 \<le> x mod k + 1" "x mod k < k"
    using k pos_mod_sign [OF k, of x] by simp_all
  have wrap: "x + 1 = k * (x div k + 1) + 0" if "x mod k + 1 = k"
    using e unfolding that by (simp add: distrib_left)
  have "x mod k + 1 < k" if "x mod k + 1 \<noteq> k"
    using b that by simp
  note stay = int_div_pos_eq [OF e b(1) this] int_mod_pos_eq [OF e b(1) this]
  show "(x + 1) div k = (if x mod k + 1 = k then x div k + 1 else x div k)"
    using stay(1) int_div_pos_eq [OF wrap] k by simp
  show "(x + 1) mod k = (if x mod k + 1 = k then 0 else x mod k + 1)"
    using stay(2) int_mod_pos_eq [OF wrap] k by simp
qed

lemma div_succ: "0 < k \<Longrightarrow> (x + 1) div k = x div k + (if k dvd x + 1 then 1 else 0)" for x k :: int
proof -
  assume k: "0 < k"
  have "x mod k + 1 \<noteq> 0" using pos_mod_sign [OF k, of x] by linarith
  then show ?thesis using k by (simp add: succ_div_mod dvd_eq_mod_eq_0)
qed

lemma dvd_shift: "k dvd c \<Longrightarrow> k dvd y - c \<longleftrightarrow> k dvd y" for k c y :: int
  by (metis diff_add_cancel dvd_add_left_iff)

lemma DayFromYear_succ: "DayFromYear (y + 1) = DayFromYear y + (if leap_year y then 366 else 365)"
proof -
  define a b c :: int where "a = (if 4 dvd y then 1 else 0)" "b = (if 100 dvd y then 1 else 0)"
    "c = (if 400 dvd y then 1 else 0)"
  note abc = this
  have shift: "(y + 1 - n) div k = (y - n) div k + (if k dvd y then 1 else 0)"
    if "0 < k" "k dvd n - 1" for k n
  proof -
    have "y + 1 - n = y - n + 1" "y - n + 1 = y - (n - 1)" by simp_all
    then show ?thesis using div_succ [OF that(1), of "y - n"] dvd_shift [OF that(2), of y] by metis
  qed
  have q: "(y + 1 - 1969) div 4 = (y - 1969) div 4 + a"
    unfolding abc by (rule shift) simp_all
  have q': "(y + 1 - 1901) div 100 = (y - 1901) div 100 + b"
    unfolding abc by (rule shift) simp_all
  have q'': "(y + 1 - 1601) div 400 = (y - 1601) div 400 + c"
    unfolding abc by (rule shift) simp_all
  have count: "(if P \<and> (Q \<longrightarrow> R) then 366 else 365) = 365 + (if P then 1 else 0) - (if Q then 1 else 0) + (if R then 1 else 0 :: int)"
    if "R \<Longrightarrow> Q" "Q \<Longrightarrow> P" for P Q R
    using that by (cases P; cases Q; cases R; simp)
  have d: "(if leap_year y then 366 else 365) = 365 + a - b + c"
    unfolding leap_year_def abc
    by (rule count) (erule dvd_trans [rotated], simp)+
  have "365 * (y + 1 - 1970) + (u + a) - (v + b) + (w + c) = 365 * (y - 1970) + u - v + w + (365 + a - b + c)"
    for u v w by simp
  then show ?thesis
    unfolding DayFromYear_def q q' q'' d by this
qed

text \<open>The year that holds a day, by search from a close year.\<close>

function year_search :: "int \<Rightarrow> int \<Rightarrow> int" where
  "year_search d y =
     (if DayFromYear (y + 1) \<le> d then year_search d (y + 1)
      else if d < DayFromYear y then year_search d (y - 1)
      else y)"
  by pat_completeness auto
termination
proof (relation "measure (\<lambda>(d, y). nat (if d < DayFromYear y then DayFromYear y - d + 1000 else d - DayFromYear y))", goal_cases)
  case 1
  then show ?case by simp
next
  case (2 d y)
  then show ?case using DayFromYear_succ [of y] by (auto split: if_splits)
next
  case (3 d y)
  then show ?case using DayFromYear_succ [of "y - 1"] by (auto split: if_splits)
qed

declare year_search.simps [simp del]

definition YearFromDay :: "int \<Rightarrow> int" where
  "YearFromDay d = year_search d (1970 + d div 366)"

definition MonthFromDay :: "int \<Rightarrow> int" where
  "MonthFromDay d =
     (let y = YearFromDay d
      in int (length (takeWhile (\<lambda>s. s \<le> d - DayFromYear y) (tl (month_starts (leap_year y))))))"

text \<open>The day of the year and month, the month possibly outside 0..11, and the date of a day.\<close>

definition MakeDay :: "int \<Rightarrow> int \<Rightarrow> int \<Rightarrow> int" where
  "MakeDay year month dt =
     (let ym = year + month div 12
      in DayFromYear ym + month_starts (leap_year ym) ! nat (month mod 12) + dt - 1)"

definition DateFromDay :: "int \<Rightarrow> int" where
  "DateFromDay d = d - MakeDay (YearFromDay d) (MonthFromDay d) 1 + 1"

definition WeekDay :: "int \<Rightarrow> int" where
  "WeekDay d = (d + 4) mod 7"

section \<open>Local time\<close>

type_synonym zone = "int \<times> (int \<times> int) list"

fun offset_from :: "int \<Rightarrow> (int \<times> int) list \<Rightarrow> int \<Rightarrow> int" where
  "offset_from off [] t = off"
| "offset_from off ((inst, off') # ts) t = (if t < inst then off else offset_from off' ts t)"

definition LocalTime :: "zone \<Rightarrow> int \<Rightarrow> int" where
  "LocalTime z t = t + offset_from (fst z) (snd z) t"

fun utc_from :: "int \<Rightarrow> (int \<times> int) list \<Rightarrow> int \<Rightarrow> int" where
  "utc_from off [] t = t - off"
| "utc_from off ((inst, off') # ts) t =
     (if t - off < inst then t - off
      else if t - off' < inst then t - off
      else utc_from off' ts t)"

definition UTC :: "zone \<Rightarrow> int \<Rightarrow> int" where
  "UTC z t = utc_from (fst z) (snd z) t"

definition HourFromTime :: "int \<Rightarrow> int" where "HourFromTime t = TimeWithinDay t div 3600000"
definition MinFromTime :: "int \<Rightarrow> int" where "MinFromTime t = TimeWithinDay t div 60000 mod 60"
definition SecFromTime :: "int \<Rightarrow> int" where "SecFromTime t = TimeWithinDay t div 1000 mod 60"
definition msFromTime :: "int \<Rightarrow> int" where "msFromTime t = TimeWithinDay t mod 1000"

definition MakeTime :: "int \<Rightarrow> int \<Rightarrow> int \<Rightarrow> int \<Rightarrow> int" where
  "MakeTime h m s ms = h * 3600000 + m * 60000 + s * 1000 + ms"

definition MakeDate :: "int \<Rightarrow> int \<Rightarrow> int" where "MakeDate day time = day * msPerDay + time"

section \<open>Getters and setters\<close>

definition getMonth :: "zone \<Rightarrow> int \<Rightarrow> int" where "getMonth z t = MonthFromDay (Day (LocalTime z t))"
definition getDate :: "zone \<Rightarrow> int \<Rightarrow> int" where "getDate z t = DateFromDay (Day (LocalTime z t))"
definition getDay :: "zone \<Rightarrow> int \<Rightarrow> int" where "getDay z t = WeekDay (Day (LocalTime z t))"
definition getHours :: "zone \<Rightarrow> int \<Rightarrow> int" where "getHours z t = HourFromTime (LocalTime z t)"
definition getMinutes :: "zone \<Rightarrow> int \<Rightarrow> int" where "getMinutes z t = MinFromTime (LocalTime z t)"

text \<open>The setters read the parts they are not given from the local time.\<close>

definition setMonth :: "zone \<Rightarrow> int \<Rightarrow> int \<Rightarrow> int" where
  "setMonth z t month =
     (let l = LocalTime z t
      in UTC z (MakeDate (MakeDay (YearFromDay (Day l)) month (DateFromDay (Day l))) (TimeWithinDay l)))"

definition setDate :: "zone \<Rightarrow> int \<Rightarrow> int \<Rightarrow> int" where
  "setDate z t dt =
     (let l = LocalTime z t
      in UTC z (MakeDate (MakeDay (YearFromDay (Day l)) (MonthFromDay (Day l)) dt) (TimeWithinDay l)))"

definition setHours4 :: "zone \<Rightarrow> int \<Rightarrow> int \<Rightarrow> int \<Rightarrow> int \<Rightarrow> int \<Rightarrow> int" where
  "setHours4 z t h m s ms = UTC z (MakeDate (Day (LocalTime z t)) (MakeTime h m s ms))"

definition setHours :: "zone \<Rightarrow> int \<Rightarrow> int \<Rightarrow> int" where
  "setHours z t h =
     (let l = LocalTime z t
      in UTC z (MakeDate (Day l) (MakeTime h (MinFromTime l) (SecFromTime l) (msFromTime l))))"

definition setMinutes3 :: "zone \<Rightarrow> int \<Rightarrow> int \<Rightarrow> int \<Rightarrow> int \<Rightarrow> int" where
  "setMinutes3 z t m s ms =
     (let l = LocalTime z t in UTC z (MakeDate (Day l) (MakeTime (HourFromTime l) m s ms)))"

definition setMinutes :: "zone \<Rightarrow> int \<Rightarrow> int \<Rightarrow> int" where
  "setMinutes z t m =
     (let l = LocalTime z t
      in UTC z (MakeDate (Day l) (MakeTime (HourFromTime l) m (SecFromTime l) (msFromTime l))))"

definition setSeconds2 :: "zone \<Rightarrow> int \<Rightarrow> int \<Rightarrow> int \<Rightarrow> int" where
  "setSeconds2 z t s ms =
     (let l = LocalTime z t in UTC z (MakeDate (Day l) (MakeTime (HourFromTime l) (MinFromTime l) s ms)))"

section \<open>The calendar is sound\<close>

lemma year_search_bounds:
  "DayFromYear (year_search d y) \<le> d \<and> d < DayFromYear (year_search d y + 1)"
  by (induction d y rule: year_search.induct) (subst (1 2) year_search.simps, auto)

lemma YearFromDay_bounds: "DayFromYear (YearFromDay d) \<le> d" "d < DayFromYear (YearFromDay d + 1)"
  using year_search_bounds [of d "1970 + d div 366"] by (simp_all add: YearFromDay_def)

text \<open>Months are numbered through, \<open>12 * year + month\<close>; \<open>month_first\<close> is the first day of one.\<close>

definition month_first :: "int \<Rightarrow> int" where
  "month_first k = DayFromYear (k div 12) + month_starts (leap_year (k div 12)) ! nat (k mod 12)"

definition month_index :: "int \<Rightarrow> int" where
  "month_index d = 12 * YearFromDay d + MonthFromDay d"

lemma MakeDay_month_first: "MakeDay y m dt = month_first (12 * y + m) + dt - 1"
  by (simp add: MakeDay_def month_first_def Let_def mult.commute)

lemma month_starts_step:
  "m < 12 \<Longrightarrow> month_starts leap ! m < month_starts leap ! Suc m"
  "m < 12 \<Longrightarrow> month_starts leap ! Suc m \<le> month_starts leap ! m + 31"
  by (auto simp: month_starts_def less_Suc_eq numeral_eq_Suc)

lemma length_month_starts [simp]: "length (month_starts leap) = 13"
  by (simp add: month_starts_def)

lemma month_starts_ends [simp]:
  "month_starts leap ! 0 = 0" "month_starts leap ! 12 = (if leap then 366 else 365)"
  by (simp_all add: month_starts_def)

lemma month_first_succ:
  "month_first (k + 1) = DayFromYear (k div 12) + month_starts (leap_year (k div 12)) ! Suc (nat (k mod 12))"
proof (cases "k mod 12 = 11")
  case True
  then have k: "(k + 1) div 12 = k div 12 + 1" "(k + 1) mod 12 = 0"
    by (simp_all add: succ_div_mod)
  have twelve: "Suc (nat 11) = 12" by simp
  have "DayFromYear (y + 1) + month_starts (leap_year (y + 1)) ! nat 0 = DayFromYear y + month_starts (leap_year y) ! 12" for y
    by (simp add: DayFromYear_succ)
  then show ?thesis
    unfolding month_first_def True k twelve by this
next
  case False
  then have "(k + 1) div 12 = k div 12" "(k + 1) mod 12 = k mod 12 + 1"
    by (simp_all add: succ_div_mod)
  moreover have "nat (k mod 12 + 1) = Suc (nat (k mod 12))" by simp
  ultimately show ?thesis
    unfolding month_first_def by simp
qed

lemma month_first_less_succ: "month_first k < month_first (k + 1)"
proof -
  have "nat (k mod 12) < 12" by simp
  from month_starts_step(1) [OF this] show ?thesis
    by (simp only: month_first_succ) (simp add: month_first_def)
qed

lemma month_first_mono: "j \<le> k \<Longrightarrow> month_first j \<le> month_first k"
proof (induction "nat (k - j)" arbitrary: k)
  case (Suc n)
  then have "month_first j \<le> month_first (k - 1)" by simp
  then show ?case using month_first_less_succ [of "k - 1"] by simp
qed simp

text \<open>A sorted list and the number of its elements up to a bound.\<close>

lemma takeWhile_sorted_bounds:
  fixes v :: int
  assumes "sorted_wrt (<) (a # xs)" "a \<le> v" "v < last (a # xs)"
  shows "(a # xs) ! length (takeWhile (\<lambda>s. s \<le> v) xs) \<le> v \<and> v < xs ! length (takeWhile (\<lambda>s. s \<le> v) xs)
    \<and> length (takeWhile (\<lambda>s. s \<le> v) xs) < length xs"
  using assms by (induction xs arbitrary: a) auto

lemma sorted_month_starts: "sorted_wrt (<) (month_starts leap)"
  by (simp add: month_starts_def)

lemma month_index_bounds:
  "0 \<le> MonthFromDay d" "MonthFromDay d < 12"
  "month_first (month_index d) \<le> d" "d < month_first (month_index d + 1)"
proof -
  define y where "y = YearFromDay d"
  let ?s = "month_starts (leap_year y)"
  define m where "m = length (takeWhile (\<lambda>s. s \<le> d - DayFromYear y) (tl ?s))"
  have mm: "MonthFromDay d = int m"
    by (simp add: MonthFromDay_def y_def m_def Let_def)
  have "d < DayFromYear y + (if leap_year y then 366 else 365)" "DayFromYear y \<le> d"
    using YearFromDay_bounds [of d] by (simp_all add: y_def DayFromYear_succ)
  moreover have "?s = 0 # tl ?s" "last ?s = (if leap_year y then 366 else 365)"
    by (simp_all add: month_starts_def)
  ultimately have b: "?s ! m \<le> d - DayFromYear y \<and> d - DayFromYear y < tl ?s ! m \<and> m < length (tl ?s)"
    using takeWhile_sorted_bounds [of 0 "tl ?s" "d - DayFromYear y"] sorted_month_starts [of "leap_year y"]
    unfolding m_def by simp
  then have m12: "m < 12" by simp
  then show "0 \<le> MonthFromDay d" "MonthFromDay d < 12" by (simp_all add: mm)
  have k: "month_index d div 12 = y" "month_index d mod 12 = int m"
    using m12 by (simp_all add: month_index_def y_def [symmetric] mm)
  show "month_first (month_index d) \<le> d"
    using b by (simp add: month_first_def k)
  show "d < month_first (month_index d + 1)"
    using b nth_tl [of m ?s] unfolding month_first_succ k by simp
qed

lemma month_index_eqI:
  assumes "month_first k \<le> d" "d < month_first (k + 1)"
  shows "month_index d = k"
proof (rule ccontr)
  assume "month_index d \<noteq> k"
  then consider "month_index d + 1 \<le> k" | "k + 1 \<le> month_index d" by linarith
  then show False
  proof cases
    case 1
    from month_first_mono [OF this] show False using assms month_index_bounds(4) [of d] by simp
  next
    case 2
    from month_first_mono [OF this] show False using assms month_index_bounds(3) [of d] by simp
  qed
qed

text \<open>Year, month and date of a day and \<open>MakeDay\<close> are inverse to each other.\<close>

lemma DateFromDay_eq: "DateFromDay d = d - month_first (month_index d) + 1"
  by (simp add: DateFromDay_def MakeDay_month_first month_index_def)

lemma year_month_of_index: "YearFromDay d = month_index d div 12" "MonthFromDay d = month_index d mod 12"
  using month_index_bounds(1,2) [of d] by (simp_all add: month_index_def)

lemma MakeDay_parts: "MakeDay (YearFromDay d) (MonthFromDay d) (DateFromDay d) = d"
  by (simp add: MakeDay_month_first DateFromDay_eq month_index_def)

lemma DateFromDay_bounds: "1 \<le> DateFromDay d" "DateFromDay d \<le> 31"
proof -
  show "1 \<le> DateFromDay d" using month_index_bounds(3) [of d] by (simp add: DateFromDay_eq)
  have "nat (month_index d mod 12) < 12" by simp
  from month_starts_step(2) [OF this, of "leap_year (month_index d div 12)"]
  have "month_first (month_index d + 1) \<le> month_first (month_index d) + 31"
    unfolding month_first_succ by (simp add: month_first_def)
  then show "DateFromDay d \<le> 31"
    using month_index_bounds(4) [of d] by (simp add: DateFromDay_eq)
qed

section \<open>Times of the day\<close>

text \<open>Minutes, hours and days as divisions of the time line.\<close>

lemma mod_then_div: "0 < b \<Longrightarrow> 0 < c \<Longrightarrow> a mod (b * c) div b = a div b mod c" for a b c :: int
  by (simp add: zmod_zmult2_eq)

lemma Day_hours: "Day t = t div 3600000 div 24"
  using zdiv_zmult2_eq [of 24 t 3600000] by (simp add: Day_def msPerDay_def)

lemma HourFromTime_eq: "HourFromTime t = t div 3600000 mod 24"
  using mod_then_div [of 3600000 24 t] by (simp add: HourFromTime_def TimeWithinDay_def msPerDay_def)

lemma MinFromTime_eq: "MinFromTime t = t div 60000 mod 60"
proof -
  have "t mod (60000 * 1440) div 60000 mod 60 = t div 60000 mod 1440 mod 60"
    using mod_then_div [of 60000 1440 t] by simp
  also have "\<dots> = t div 60000 mod 60" by (rule mod_mod_cancel) simp
  finally show ?thesis by (simp add: MinFromTime_def TimeWithinDay_def msPerDay_def)
qed

lemma MakeDate_hour:
  "MakeDate (Day t) (MakeTime (HourFromTime t) m s ms) = t div 3600000 * 3600000 + m * 60000 + s * 1000 + ms"
proof -
  have "24 * (q div 24) + q mod 24 = q" for q :: int by simp
  from this [of "t div 3600000"] show ?thesis
    unfolding MakeDate_def MakeTime_def Day_hours HourFromTime_eq msPerDay_def by linarith
qed

lemma MakeDate_minute:
  "MakeDate (Day t) (MakeTime (HourFromTime t) (MinFromTime t) s ms) = t div 60000 * 60000 + s * 1000 + ms"
proof -
  have "t div 3600000 = t div 60000 div 60"
    using zdiv_zmult2_eq [of 60 t 60000] by simp
  then have "t div 60000 = 60 * (t div 3600000) + t div 60000 mod 60" by simp
  then show ?thesis
    unfolding MakeDate_hour MinFromTime_eq by simp
qed

lemma on_the_minute:
  assumes "60000 dvd t"
  shows "SecFromTime t = 0" "msFromTime t = 0"
proof -
  obtain q where q: "t = 60000 * q" using assms ..
  have "t mod (60000 * 1440) = 60000 * (q mod 1440)"
    by (simp add: q mult_mod_right)
  then have r: "TimeWithinDay t = 60000 * (q mod 1440)"
    by (simp add: TimeWithinDay_def msPerDay_def)
  have "60000 * u mod 1000 = 0" "60000 * u div 1000 mod 60 = 0" for u :: int
  proof -
    have "60000 * u = 1000 * (60 * u)" by simp
    then show "60000 * u mod 1000 = 0" "60000 * u div 1000 mod 60 = 0"
      by simp_all
  qed
  then show "SecFromTime t = 0" "msFromTime t = 0"
    by (simp_all add: SecFromTime_def msFromTime_def r)
qed

section \<open>Fixed offsets\<close>

text \<open>In a zone without transitions, local time is the time value shifted by the offset.\<close>

lemma fixed_zone [simp]: "LocalTime (off, []) t = t + off" "UTC (off, []) l = l - off"
  by (simp_all add: LocalTime_def UTC_def)

end
