(* ===== verification/Cron_Expr.thy ===== *)
theory Cron_Expr
  imports Complex_Main Local_Date
begin

text \<open>
  Cron expressions, \<open>packages/agent-core/src/tools/cron/cron-expr.ts\<close>: the parser with its errors, the
  search for the next run in local time, and the display text.

  A \<open>Set\<close> of numbers is the list of its elements in insertion order. A thrown \<open>Error\<close> is a value of
  \<open>cron_error\<close>, one constructor per \<open>throw\<close> with the parts its message names. \<open>parseInt\<close> of a run of
  digits is its exact value: beyond \<open>2^53\<close> every value fails the same range test, and a step of that
  size leaves only the first value of a range.
\<close>

section \<open>Data\<close>

type_synonym num_set = "int list"

definition set_add :: "num_set \<Rightarrow> int \<Rightarrow> num_set" where
  "set_add out v = (if v \<in> set out then out else out @ [v])"

record ParsedCronExpression =
  ce_raw :: string
  ce_minutes :: num_set
  ce_hours :: num_set
  ce_daysOfMonth :: num_set
  ce_months :: num_set
  ce_daysOfWeek :: num_set
  ce_daysOfMonthWildcard :: bool
  ce_daysOfWeekWildcard :: bool

definition MINUTE_RANGE :: "int \<times> int" where "MINUTE_RANGE = (0, 59)"
definition HOUR_RANGE :: "int \<times> int" where "HOUR_RANGE = (0, 23)"
definition DOM_RANGE :: "int \<times> int" where "DOM_RANGE = (1, 31)"
definition MONTH_RANGE :: "int \<times> int" where "MONTH_RANGE = (1, 12)"
definition DOW_RANGE :: "int \<times> int" where "DOW_RANGE = (0, 7)"

datatype int_role = StepRole | ValueRole | LowerRole | UpperRole

datatype cron_error =
    ExpressionEmpty
  | FieldCount nat
  | FieldEmpty string
  | TermEmpty string
  | NoValues string
  | NotDigits string int_role string
  | StepEmpty string string
  | StepNotPositive string string
  | StepNeedsRange string string
  | ValueOutOfRange string int int int
  | RangeOutOfBounds string int int int int

section \<open>Parsing\<close>

text \<open>\<open>s.split(c)\<close> for a single character and \<open>s.split(/\s+/)\<close>.\<close>

function split_on :: "char \<Rightarrow> string \<Rightarrow> string list" where
  "split_on c s =
     (case dropWhile (\<lambda>x. x \<noteq> c) s of
        [] \<Rightarrow> [s]
      | _ # r \<Rightarrow> takeWhile (\<lambda>x. x \<noteq> c) s # split_on c r)"
  by pat_completeness auto
termination
proof (relation "measure (\<lambda>(c, s). length s)", goal_cases)
  case (2 c s x r)
  then show ?case using length_dropWhile_le [of "\<lambda>x. x \<noteq> c" s] by simp
qed simp

function split_ws :: "string \<Rightarrow> string list" where
  "split_ws s =
     (case dropWhile (\<lambda>x. \<not> is_space x) s of
        [] \<Rightarrow> [s]
      | _ # r \<Rightarrow> takeWhile (\<lambda>x. \<not> is_space x) s # split_ws (dropWhile is_space r))"
  by pat_completeness auto
termination
proof (relation "measure length", goal_cases)
  case (2 s x r)
  then show ?case
    using length_dropWhile_le [of "\<lambda>x. \<not> is_space x" s] length_dropWhile_le [of is_space r] by simp
qed simp

declare split_on.simps [simp del] split_ws.simps [simp del]

definition indexOf :: "string \<Rightarrow> char \<Rightarrow> nat option" where
  "indexOf s c = (if c \<in> set s then Some (length (takeWhile (\<lambda>x. x \<noteq> c) s)) else None)"

definition isWildcard :: "string \<Rightarrow> bool" where
  "isWildcard field \<longleftrightarrow> field = ''*''"

definition parseCronInt :: "string \<Rightarrow> string \<Rightarrow> int_role \<Rightarrow> cron_error + int" where
  "parseCronInt raw name role =
     (if raw = [] \<or> \<not> list_all is_digit raw then Inl (NotDigits name role raw)
      else Inr (int (digits_value raw)))"

text \<open>\<open>for (let v = lo; v <= hi; v += step) out.add(v)\<close>, with a positive step.\<close>

function add_range :: "num_set \<Rightarrow> int \<Rightarrow> int \<Rightarrow> int \<Rightarrow> num_set" where
  "add_range out v hi step =
     (if v \<le> hi \<and> 0 < step then add_range (set_add out v) (v + step) hi step else out)"
  by pat_completeness auto
termination
  by (relation "measure (\<lambda>(out, v, hi, step). nat (hi + 1 - v))") auto

declare add_range.simps [simp del]

text \<open>The step of a term, with the part before the slash; the flag is \<open>slash !== -1\<close>.\<close>

definition term_step :: "string \<Rightarrow> string \<Rightarrow> cron_error + string \<times> int \<times> bool" where
  "term_step trm name =
     (case indexOf trm (CHR ''/'') of
        None \<Rightarrow> Inr (trm, 1, False)
      | Some slash \<Rightarrow>
          (let rangePart = take slash trm; stepStr = drop (slash + 1) trm in
           if stepStr = [] then Inl (StepEmpty name trm)
           else case parseCronInt stepStr name StepRole of
                  Inl e \<Rightarrow> Inl e
                | Inr parsedStep \<Rightarrow>
                    if parsedStep \<le> 0 then Inl (StepNotPositive name stepStr)
                    else if rangePart = [] then Inl (StepNeedsRange name trm)
                    else Inr (rangePart, parsedStep, True)))"

definition addTerm :: "num_set \<Rightarrow> string \<Rightarrow> int \<Rightarrow> int \<Rightarrow> string \<Rightarrow> cron_error + num_set" where
  "addTerm out trm mn mx name =
     (case term_step trm name of
        Inl e \<Rightarrow> Inl e
      | Inr (rangePart, step, slashed) \<Rightarrow>
          if rangePart = ''*'' then Inr (add_range out mn mx step)
          else (case indexOf rangePart (CHR ''-'') of
                  None \<Rightarrow>
                    (case parseCronInt rangePart name ValueRole of
                       Inl e \<Rightarrow> Inl e
                     | Inr single \<Rightarrow>
                         if single < mn \<or> single > mx then Inl (ValueOutOfRange name single mn mx)
                         else if slashed then Inr (add_range out single mx step)
                         else Inr (set_add out single))
                | Some dash \<Rightarrow>
                    (case parseCronInt (take dash rangePart) name LowerRole of
                       Inl e \<Rightarrow> Inl e
                     | Inr lo \<Rightarrow>
                         (case parseCronInt (drop (dash + 1) rangePart) name UpperRole of
                            Inl e \<Rightarrow> Inl e
                          | Inr hi \<Rightarrow>
                              if lo < mn \<or> hi > mx \<or> lo > hi then Inl (RangeOutOfBounds name lo hi mn mx)
                              else Inr (add_range out lo hi step)))))"

fun add_terms :: "num_set \<Rightarrow> string list \<Rightarrow> int \<Rightarrow> int \<Rightarrow> string \<Rightarrow> cron_error + num_set" where
  "add_terms out [] mn mx name = Inr out"
| "add_terms out (t # ts) mn mx name =
     (if t = [] then Inl (TermEmpty name)
      else case addTerm out t mn mx name of
             Inl e \<Rightarrow> Inl e
           | Inr out' \<Rightarrow> add_terms out' ts mn mx name)"

definition parseField :: "string \<Rightarrow> int \<times> int \<Rightarrow> string \<Rightarrow> cron_error + num_set" where
  "parseField field rng name =
     (if field = [] then Inl (FieldEmpty name)
      else case add_terms [] (split_on (CHR '','') field) (fst rng) (snd rng) name of
             Inl e \<Rightarrow> Inl e
           | Inr out \<Rightarrow> if out = [] then Inl (NoValues name) else Inr out)"

definition fold_dow :: "num_set \<Rightarrow> num_set" where
  "fold_dow dowRaw = foldl (\<lambda>out v. set_add out (if v = 7 then 0 else v)) [] dowRaw"

definition parseCronExpression :: "string \<Rightarrow> cron_error + ParsedCronExpression" where
  "parseCronExpression expr =
     (let trimmed = trim expr in
      if trimmed = [] then Inl ExpressionEmpty
      else case split_ws trimmed of
        [minField, hourField, domField, monthField, dowField] \<Rightarrow>
          (case parseField minField MINUTE_RANGE ''minute'' of
             Inl e \<Rightarrow> Inl e
           | Inr minutes \<Rightarrow>
          (case parseField hourField HOUR_RANGE ''hour'' of
             Inl e \<Rightarrow> Inl e
           | Inr hours \<Rightarrow>
          (case parseField domField DOM_RANGE ''day-of-month'' of
             Inl e \<Rightarrow> Inl e
           | Inr daysOfMonth \<Rightarrow>
          (case parseField monthField MONTH_RANGE ''month'' of
             Inl e \<Rightarrow> Inl e
           | Inr months \<Rightarrow>
          (case parseField dowField DOW_RANGE ''day-of-week'' of
             Inl e \<Rightarrow> Inl e
           | Inr dowRaw \<Rightarrow>
               Inr \<lparr>ce_raw = trimmed, ce_minutes = minutes, ce_hours = hours, ce_daysOfMonth = daysOfMonth,
                    ce_months = months, ce_daysOfWeek = fold_dow dowRaw,
                    ce_daysOfMonthWildcard = isWildcard domField,
                    ce_daysOfWeekWildcard = isWildcard dowField\<rparr>)))))
      | _ \<Rightarrow> Inl (FieldCount (length (split_ws trimmed))))"

section \<open>The next run\<close>

definition MS_PER_MINUTE :: int where "MS_PER_MINUTE = 60000"

definition HARD_ITERATION_CAP :: nat where "HARD_ITERATION_CAP = 10000000"

definition dayMatches :: "zone \<Rightarrow> ParsedCronExpression \<Rightarrow> int \<Rightarrow> bool" where
  "dayMatches z e date =
     (let domOk = (getDate z date \<in> set (ce_daysOfMonth e));
          dowOk = (getDay z date \<in> set (ce_daysOfWeek e))
      in if ce_daysOfMonthWildcard e \<and> ce_daysOfWeekWildcard e then True
         else if ce_daysOfMonthWildcard e then dowOk
         else if ce_daysOfWeekWildcard e then domOk
         else domOk \<or> dowOk)"

definition advanceMonth :: "zone \<Rightarrow> int \<Rightarrow> int" where
  "advanceMonth z date =
     (let d1 = setDate z date 1; d2 = setHours4 z d1 0 0 0 0 in setMonth z d2 (getMonth z d2 + 1))"

definition advanceDay :: "zone \<Rightarrow> int \<Rightarrow> int" where
  "advanceDay z date = (let d1 = setHours4 z date 0 0 0 0 in setDate z d1 (getDate z d1 + 1))"

definition advanceHour :: "zone \<Rightarrow> int \<Rightarrow> int" where
  "advanceHour z date = (let d1 = setMinutes3 z date 0 0 0 in setHours z d1 (getHours z d1 + 1))"

definition advanceMinute :: "zone \<Rightarrow> int \<Rightarrow> int" where
  "advanceMinute z date = (let d1 = setSeconds2 z date 0 0 in setMinutes z d1 (getMinutes z d1 + 1))"

function next_loop :: "zone \<Rightarrow> ParsedCronExpression \<Rightarrow> int \<Rightarrow> int \<Rightarrow> nat \<Rightarrow> int option" where
  "next_loop z e deadlineMs date iterations =
     (if date \<le> deadlineMs \<and> iterations < HARD_ITERATION_CAP then
        if getMonth z date + 1 \<notin> set (ce_months e) then next_loop z e deadlineMs (advanceMonth z date) (iterations + 1)
        else if \<not> dayMatches z e date then next_loop z e deadlineMs (advanceDay z date) (iterations + 1)
        else if getHours z date \<notin> set (ce_hours e) then next_loop z e deadlineMs (advanceHour z date) (iterations + 1)
        else if getMinutes z date \<notin> set (ce_minutes e) then next_loop z e deadlineMs (advanceMinute z date) (iterations + 1)
        else Some date
      else None)"
  by pat_completeness auto
termination
  by (relation "measure (\<lambda>(z, e, deadlineMs, date, iterations). HARD_ITERATION_CAP - iterations)") auto

declare next_loop.simps [simp del]

definition nextRunWithinMinutes :: "zone \<Rightarrow> ParsedCronExpression \<Rightarrow> int \<Rightarrow> int \<Rightarrow> int option" where
  "nextRunWithinMinutes z e fromMs capMinutes =
     (let start = setSeconds2 z fromMs 0 0
      in next_loop z e (fromMs + capMinutes * MS_PER_MINUTE) (start + MS_PER_MINUTE) 0)"

definition computeNextCronRun :: "zone \<Rightarrow> ParsedCronExpression \<Rightarrow> int \<Rightarrow> int option" where
  "computeNextCronRun z e fromMs = nextRunWithinMinutes z e fromMs (5 * 366 * 24 * 60)"

definition hasFireWithinYears :: "zone \<Rightarrow> ParsedCronExpression \<Rightarrow> real \<Rightarrow> int \<Rightarrow> bool" where
  "hasFireWithinYears z e years fromMs =
     (let cap = max 1 \<lfloor>years * 366 * 24 * 60\<rfloor> in nextRunWithinMinutes z e fromMs cap \<noteq> None)"

section \<open>Display\<close>

definition MONTH_NAMES :: "string list" where
  "MONTH_NAMES = [''January'', ''February'', ''March'', ''April'', ''May'', ''June'', ''July'', ''August'',
     ''September'', ''October'', ''November'', ''December'']"

definition DAY_NAMES :: "string list" where
  "DAY_NAMES = [''Sunday'', ''Monday'', ''Tuesday'', ''Wednesday'', ''Thursday'', ''Friday'', ''Saturday'']"

definition isFullRange :: "num_set \<Rightarrow> int \<Rightarrow> int \<Rightarrow> bool" where
  "isFullRange xs mn mx \<longleftrightarrow> int (length xs) = mx - mn + 1 \<and> list_all (\<lambda>v. v \<in> set xs) [mn..mx]"

text \<open>The check that the sorted values are equally spaced returns the value expected next.\<close>

fun step_scan :: "int \<Rightarrow> int \<Rightarrow> int list \<Rightarrow> int option" where
  "step_scan expected step [] = Some expected"
| "step_scan expected step (v # vs) = (if v \<noteq> expected then None else step_scan (expected + step) step vs)"

definition detectStep :: "num_set \<Rightarrow> int \<Rightarrow> int \<Rightarrow> int option" where
  "detectStep xs mn mx =
     (case sort xs of
        v0 # v1 # _ \<Rightarrow>
          if v0 \<noteq> mn then None
          else if v1 - v0 \<le> 0 then None
          else (case step_scan mn (v1 - v0) (sort xs) of
                  None \<Rightarrow> None
                | Some expected \<Rightarrow> if expected - (v1 - v0) > mx then None else Some (v1 - v0))
      | _ \<Rightarrow> None)"

fun join :: "string \<Rightarrow> string list \<Rightarrow> string" where
  "join sep [] = []"
| "join sep [s] = s"
| "join sep (s # t # ss) = s @ sep @ join sep (t # ss)"

definition formatDows :: "num_set \<Rightarrow> string option" where
  "formatDows xs =
     (let values = sort xs in
      if values = [] then None
      else if values = [1, 2, 3, 4, 5] then Some ''weekdays''
      else if values = [0, 6] then Some ''weekends''
      else Some (join '', '' (map (\<lambda>v. DAY_NAMES ! nat v) values)))"

definition pad :: "int \<Rightarrow> string" where
  "pad n = (if n < 10 then CHR ''0'' # string_of_int n else string_of_int n)"

definition cronToHuman :: "ParsedCronExpression \<Rightarrow> string" where
  "cronToHuman e =
     (let allMin = isFullRange (ce_minutes e) 0 59;
          allHour = isFullRange (ce_hours e) 0 23;
          allDom = ce_daysOfMonthWildcard e;
          allMonth = isFullRange (ce_months e) 1 12;
          allDow = ce_daysOfWeekWildcard e;
          oneMin = (length (ce_minutes e) = 1);
          oneHour = (length (ce_hours e) = 1);
          m = hd (ce_minutes e);
          h = hd (ce_hours e);
          at_time = ''at '' @ pad h @ '':'' @ pad m;
          rest3 = (if oneMin \<and> oneHour \<and> length (ce_daysOfMonth e) = 1 \<and> \<not> ce_daysOfMonthWildcard e
                      \<and> length (ce_months e) = 1 \<and> allDow
                   then at_time @ '' on day '' @ string_of_int (hd (ce_daysOfMonth e)) @ '' of ''
                        @ MONTH_NAMES ! nat (hd (ce_months e) - 1)
                   else ce_raw e);
          rest2 = (if oneMin \<and> oneHour \<and> allDom \<and> allMonth then
                     if allDow then at_time @ '' every day''
                     else (case formatDows (ce_daysOfWeek e) of
                             Some dowStr \<Rightarrow> at_time @ '' on '' @ dowStr
                           | None \<Rightarrow> rest3)
                   else rest3);
          rest1 = (if oneMin \<and> allDom \<and> allMonth \<and> allDow then
                     (case detectStep (ce_hours e) 0 23 of
                        Some step \<Rightarrow> if step > 1 then ''every '' @ string_of_int step @ '' hours at minute '' @ pad m else rest2
                      | None \<Rightarrow> rest2)
                   else rest2)
      in if allHour \<and> allDom \<and> allMonth \<and> allDow then
           (case detectStep (ce_minutes e) 0 59 of
              Some step \<Rightarrow>
                if step > 1 then ''every '' @ string_of_int step @ '' minutes''
                else if allMin then ''every minute''
                else if oneMin then ''at minute '' @ string_of_int m @ '' of every hour''
                else rest1
            | None \<Rightarrow>
                if allMin then ''every minute''
                else if oneMin then ''at minute '' @ string_of_int m @ '' of every hour''
                else rest1)
         else rest1)"

section \<open>What the parser returns\<close>

lemma set_set_add [simp]: "set (set_add out v) = insert v (set out)"
  by (auto simp: set_add_def)

lemma distinct_set_add [simp]: "distinct out \<Longrightarrow> distinct (set_add out v)"
  by (simp add: set_add_def)

lemma set_add_range:
  "0 < step \<Longrightarrow> set (add_range out v hi step) = set out \<union> {w. v \<le> w \<and> w \<le> hi \<and> step dvd w - v}"
proof (induction out v hi step rule: add_range.induct)
  case (1 out v hi step)
  show ?case
  proof (cases "v \<le> hi")
    case True
    have "step dvd w - (v + step) \<longleftrightarrow> step dvd w - v" for w
      using dvd_shift [of step step "w - v"] by (simp add: algebra_simps)
    moreover have "w = v \<or> v + step \<le> w" if "v \<le> w" "step dvd w - v" for w
      using that zdvd_not_zless [of "w - v" step] by force
    ultimately have "insert v {w. v + step \<le> w \<and> w \<le> hi \<and> step dvd w - (v + step)}
        = {w. v \<le> w \<and> w \<le> hi \<and> step dvd w - v}"
      using True 1(2) by auto
    then show ?thesis
      using 1 True by (subst add_range.simps) auto
  next
    case False
    then show ?thesis by (subst add_range.simps) auto
  qed
qed

lemma distinct_add_range: "distinct out \<Longrightarrow> distinct (add_range out v hi step)"
proof (induction out v hi step rule: add_range.induct)
  case (1 out v hi step)
  then show ?case by (subst add_range.simps) auto
qed

lemma term_step_positive: "term_step trm name = Inr (r, step, slashed) \<Longrightarrow> 0 < step"
  by (auto simp: term_step_def Let_def split: option.splits if_splits sum.splits)

text \<open>A term adds at least one value, and only values of the field's range.\<close>

lemma addTerm_range:
  assumes "addTerm out trm mn mx name = Inr out'" "mn \<le> mx" "distinct out"
  shows "distinct out' \<and> set out \<subseteq> set out' \<and> set out' \<subseteq> set out \<union> {mn..mx} \<and> out' \<noteq> []"
proof -
  obtain r step slashed where r: "term_step trm name = Inr (r, step, slashed)" and step: "0 < step"
    using assms(1) term_step_positive by (fastforce simp: addTerm_def split: sum.splits)
  consider lo hi where "out' = add_range out lo hi step" "mn \<le> lo" "hi \<le> mx" "lo \<le> hi"
    | v where "out' = set_add out v" "mn \<le> v" "v \<le> mx"
    using assms(1,2) r by (fastforce simp: addTerm_def split: if_splits option.splits sum.splits)
  then show ?thesis
  proof cases
    case 1
    have "lo \<in> set out'" using 1 step by (simp add: set_add_range)
    then have "out' \<noteq> []" by auto
    then show ?thesis
      using 1 step assms(3) by (auto simp: set_add_range distinct_add_range)
  next
    case 2
    then have "v \<in> set out'" by simp
    then have "out' \<noteq> []" by auto
    then show ?thesis using 2 assms(3) by auto
  qed
qed

lemma add_terms_range:
  "add_terms out ts mn mx name = Inr out' \<Longrightarrow> mn \<le> mx \<Longrightarrow> distinct out \<Longrightarrow>
   distinct out' \<and> set out \<subseteq> set out' \<and> set out' \<subseteq> set out \<union> {mn..mx}"
proof (induction ts arbitrary: out)
  case (Cons t ts)
  then obtain o1 where o1: "addTerm out t mn mx name = Inr o1" "add_terms o1 ts mn mx name = Inr out'"
    by (auto split: if_splits sum.splits)
  from addTerm_range [OF o1(1)] Cons.IH [OF o1(2)] Cons.prems show ?case by auto
qed simp

lemma parseField_range:
  "parseField field (mn, mx) name = Inr xs \<Longrightarrow> mn \<le> mx \<Longrightarrow> xs \<noteq> [] \<and> distinct xs \<and> set xs \<subseteq> {mn..mx}"
  using add_terms_range [of "[]" "split_on (CHR '','') field" mn mx name xs]
  by (auto simp: parseField_def split: if_splits sum.splits)

lemma fold_dow_range:
  assumes "xs \<noteq> []" "set xs \<subseteq> {0..7}"
  shows "fold_dow xs \<noteq> [] \<and> distinct (fold_dow xs) \<and> set (fold_dow xs) \<subseteq> {0..6}"
    "set (fold_dow xs) = (\<lambda>v. if v = 7 then 0 else v) ` set xs"
proof -
  let ?f = "\<lambda>v :: int. if v = 7 then 0 else v"
  have "distinct out \<Longrightarrow> set (foldl (\<lambda>out v. set_add out (?f v)) out xs) = set out \<union> ?f ` set xs
      \<and> distinct (foldl (\<lambda>out v. set_add out (?f v)) out xs)" for out xs
    by (induction xs arbitrary: out) auto
  from this [of "[]" xs] have f: "set (fold_dow xs) = ?f ` set xs" "distinct (fold_dow xs)"
    by (simp_all add: fold_dow_def)
  show "set (fold_dow xs) = ?f ` set xs" by (rule f)
  have "set (fold_dow xs) \<subseteq> {0..6}"
    using assms(2) unfolding f by force
  moreover have "fold_dow xs \<noteq> []"
    using f(1) assms(1) by (metis image_is_empty list.set(1) set_empty)
  ultimately show "fold_dow xs \<noteq> [] \<and> distinct (fold_dow xs) \<and> set (fold_dow xs) \<subseteq> {0..6}"
    using f(2) by simp
qed

lemma split_on_star: "split_on (CHR '','') ''*'' = [''*'']"
  by (subst split_on.simps) simp

lemma parseField_star: "mn \<le> mx \<Longrightarrow> parseField ''*'' (mn, mx) name = Inr xs \<Longrightarrow> set xs = {mn..mx}"
  by (auto simp: parseField_def split_on_star addTerm_def term_step_def indexOf_def set_add_range split: if_splits)

lemma parse_fields:
  assumes "parseCronExpression s = Inr e"
  obtains f1 f2 f3 f4 f5 dow where "split_ws (trim s) = [f1, f2, f3, f4, f5]" "ce_raw e = trim s"
    "parseField f1 (0, 59) ''minute'' = Inr (ce_minutes e)" "parseField f2 (0, 23) ''hour'' = Inr (ce_hours e)"
    "parseField f3 (1, 31) ''day-of-month'' = Inr (ce_daysOfMonth e)" "parseField f4 (1, 12) ''month'' = Inr (ce_months e)"
    "parseField f5 (0, 7) ''day-of-week'' = Inr dow" "ce_daysOfWeek e = fold_dow dow"
    "ce_daysOfMonthWildcard e \<longleftrightarrow> f3 = ''*''" "ce_daysOfWeekWildcard e \<longleftrightarrow> f5 = ''*''"
  using assms
  by (auto simp: parseCronExpression_def Let_def MINUTE_RANGE_def HOUR_RANGE_def DOM_RANGE_def MONTH_RANGE_def
        DOW_RANGE_def isWildcard_def split: if_splits list.splits sum.splits)

text \<open>The type of a parsed expression: five non-empty sets within the ranges of their fields, and full
  day sets where the field is the wildcard.\<close>

lemma parseCronExpression_ok:
  assumes "parseCronExpression s = Inr e"
  shows "set (ce_minutes e) \<subseteq> {0..59} \<and> set (ce_hours e) \<subseteq> {0..23} \<and> set (ce_daysOfMonth e) \<subseteq> {1..31}
       \<and> set (ce_months e) \<subseteq> {1..12} \<and> set (ce_daysOfWeek e) \<subseteq> {0..6}
       \<and> (\<forall>xs \<in> {ce_minutes e, ce_hours e, ce_daysOfMonth e, ce_months e, ce_daysOfWeek e}. xs \<noteq> [] \<and> distinct xs)
       \<and> (ce_daysOfMonthWildcard e \<longrightarrow> set (ce_daysOfMonth e) = {1..31})
       \<and> (ce_daysOfWeekWildcard e \<longrightarrow> set (ce_daysOfWeek e) = {0..6})"
proof -
  from assms obtain f1 f2 f3 f4 f5 dow where f:
    "parseField f1 (0, 59) ''minute'' = Inr (ce_minutes e)" "parseField f2 (0, 23) ''hour'' = Inr (ce_hours e)"
    "parseField f3 (1, 31) ''day-of-month'' = Inr (ce_daysOfMonth e)" "parseField f4 (1, 12) ''month'' = Inr (ce_months e)"
    "parseField f5 (0, 7) ''day-of-week'' = Inr dow" "ce_daysOfWeek e = fold_dow dow"
    "ce_daysOfMonthWildcard e \<longleftrightarrow> f3 = ''*''" "ce_daysOfWeekWildcard e \<longleftrightarrow> f5 = ''*''"
    by (rule parse_fields)
  have days: "set (ce_daysOfWeek e) = {0..6}" if "f5 = ''*''"
  proof -
    have "set dow = {0..7}" "dow \<noteq> []"
      using f(5) that parseField_star [of 0 7] parseField_range [OF f(5)] by auto
    then have "set (ce_daysOfWeek e) = (\<lambda>v. if v = 7 then 0 else v) ` {0..7}"
      using fold_dow_range(2) [of dow] f(6) by simp
    also have "\<dots> = {0..6}"
      by auto
    finally show ?thesis .
  qed
  have month: "set (ce_daysOfMonth e) = {1..31}" if "f3 = ''*''"
    using parseField_star [of 1 31] f(3) that by auto
  have week: "ce_daysOfWeek e \<noteq> [] \<and> distinct (ce_daysOfWeek e) \<and> set (ce_daysOfWeek e) \<subseteq> {0..6}"
    using fold_dow_range(1) [of dow] parseField_range [OF f(5)] f(6) by simp
  show ?thesis
    using f(7,8) week days month parseField_range [OF f(1)] parseField_range [OF f(2)] parseField_range [OF f(3)]
      parseField_range [OF f(4)] by simp
qed

end
