(* ===== verification/Cron_Next.thy ===== *)
theory Cron_Next
  imports Cron_Expr
begin

text \<open>
  Correctness of the search for the next run. A slot of an expression is a whole local minute whose
  calendar fields satisfy it. In a zone with a fixed offset the search returns the first slot after the
  given instant, and none exactly when the window holds none; the iteration cap is never what ends it.
  The last section shows what happens in a zone that sets the clock back.
\<close>

section \<open>Slots\<close>

text \<open>The rule of the cron tradition, on the parsed sets: the two day fields are alternatives when both
  are restricted, and otherwise conditions like the other fields.\<close>

definition cron_match :: "zone \<Rightarrow> ParsedCronExpression \<Rightarrow> int \<Rightarrow> bool" where
  "cron_match z e t \<longleftrightarrow>
     getMinutes z t \<in> set (ce_minutes e) \<and> getHours z t \<in> set (ce_hours e) \<and> getMonth z t + 1 \<in> set (ce_months e) \<and>
     (let dom = getDate z t \<in> set (ce_daysOfMonth e); dow = getDay z t \<in> set (ce_daysOfWeek e)
      in if \<not> ce_daysOfMonthWildcard e \<and> \<not> ce_daysOfWeekWildcard e then dom \<or> dow else dom \<and> dow)"

definition cron_slot :: "zone \<Rightarrow> ParsedCronExpression \<Rightarrow> int \<Rightarrow> bool" where
  "cron_slot z e t \<longleftrightarrow> 60000 dvd LocalTime z t \<and> cron_match z e t"

section \<open>Skipping over minutes that cannot match\<close>

text \<open>
  The contract of the four ways to advance: from a whole minute on which a test fails, they go to a
  later whole minute, and the test fails on every whole minute they pass.
\<close>

locale calendar_skip =
  fixes off :: int
    and adv :: "int \<Rightarrow> int"
    and bad :: "int \<Rightarrow> bool"
  assumes skip_aligned: "60000 dvd t + off \<Longrightarrow> 60000 dvd adv t + off"
    and skip_later: "60000 dvd t + off \<Longrightarrow> t < adv t"
    and skip_bad: "60000 dvd t + off \<Longrightarrow> bad t \<Longrightarrow> 60000 dvd u + off \<Longrightarrow> t \<le> u \<Longrightarrow> u < adv t \<Longrightarrow> bad u"
begin

lemma skip_minute: "60000 dvd t + off \<Longrightarrow> t + 60000 \<le> adv t"
proof -
  assume t: "60000 dvd t + off"
  have "60000 dvd adv t + off - (t + off)"
    using t skip_aligned [OF t] by (rule dvd_diff [rotated])
  then show ?thesis
    using zdvd_imp_le [of 60000 "adv t - t"] skip_later [OF t] by simp
qed

end

lemma minute_of: "60000 dvd l \<Longrightarrow> l div 60000 * 60000 = l" for l :: int
  by simp

lemma advanceMinute_fixed: "60000 dvd t + off \<Longrightarrow> advanceMinute (off, []) t = t + 60000"
proof -
  assume a: "60000 dvd t + off"
  have 1: "setSeconds2 (off, []) t 0 0 = t"
    by (simp add: setSeconds2_def MakeDate_minute minute_of [OF a])
  have "MakeDate (Day (t + off)) (MakeTime (HourFromTime (t + off)) (MinFromTime (t + off) + 1) 0 0)
      = MakeDate (Day (t + off)) (MakeTime (HourFromTime (t + off)) (MinFromTime (t + off)) 0 0) + 60000"
    by (simp add: MakeDate_def MakeTime_def)
  also have "\<dots> = t + off + 60000"
    by (simp add: MakeDate_minute minute_of [OF a])
  finally show ?thesis
    by (simp add: advanceMinute_def 1 setMinutes_def getMinutes_def on_the_minute [OF a] Let_def)
qed

lemma whole_hour: "60000 dvd q * (3600000 :: int)"
  by (rule dvd_mult) simp

lemma whole_day: "60000 dvd q * msPerDay" "q * msPerDay mod msPerDay = 0" "q * msPerDay div msPerDay = q"
  unfolding msPerDay_def by (auto intro: dvd_mult)

lemma advanceHour_fixed: "advanceHour (off, []) t + off = ((t + off) div 3600000 + 1) * 3600000"
proof -
  define h where "h = (t + off) div 3600000"
  have 1: "setMinutes3 (off, []) t 0 0 0 = h * 3600000 - off"
    by (simp add: setMinutes3_def MakeDate_hour h_def)
  have 2: "MinFromTime (h * 3600000) = 0"
    by (simp add: MinFromTime_eq)
  have "MakeDate (Day l) (MakeTime (HourFromTime l + 1) 0 0 0) = MakeDate (Day l) (MakeTime (HourFromTime l) 0 0 0) + 3600000" for l
    by (simp add: MakeDate_def MakeTime_def)
  from this [of "h * 3600000"] show ?thesis
    by (simp add: advanceHour_def 1 2 setHours_def getHours_def on_the_minute [OF whole_hour] MakeDate_hour h_def [symmetric])
qed

lemma midnight: "MakeDate d (MakeTime 0 0 0 0) = d * msPerDay" "MakeDate d 0 = d * msPerDay"
  "Day (d * msPerDay) = d" "TimeWithinDay (d * msPerDay) = 0"
  by (simp_all add: MakeDate_def MakeTime_def Day_def TimeWithinDay_def whole_day)

lemma MakeDay_shift: "MakeDay y m (d + k) = MakeDay y m d + k"
  by (simp add: MakeDay_def Let_def)

lemma advanceDay_fixed: "advanceDay (off, []) t + off = (Day (t + off) + 1) * msPerDay"
  by (simp add: advanceDay_def setHours4_def setDate_def getDate_def midnight MakeDay_shift MakeDay_parts)

lemma advanceMonth_fixed:
  "advanceMonth (off, []) t + off = month_first (month_index (Day (t + off)) + 1) * msPerDay"
proof -
  define d k where "d = Day (t + off)" and "k = month_index d"
  have f: "MakeDay (YearFromDay d) (MonthFromDay d) 1 = month_first k"
    by (simp add: MakeDay_month_first k_def month_index_def)
  have dd: "Day (MakeDate x (TimeWithinDay l)) = x" for x l
    by (simp add: Day_def MakeDate_def TimeWithinDay_def msPerDay_def)
  have i: "month_index (month_first k) = k"
    by (rule month_index_eqI) (simp_all add: month_first_less_succ)
  have "MakeDay (YearFromDay (month_first k)) (MonthFromDay (month_first k) + 1) (DateFromDay (month_first k)) = month_first (k + 1)"
    by (simp add: MakeDay_month_first DateFromDay_eq i year_month_of_index)
  then show ?thesis
    by (simp add: advanceMonth_def setDate_def setHours4_def setMonth_def getMonth_def midnight d_def [symmetric] f dd k_def [symmetric])
qed

section \<open>The four ways to advance keep the contract\<close>

text \<open>Between an instant and the end of its hour, day or month, that hour, day or month does not change.\<close>

lemma block_bounds: "0 < b \<Longrightarrow> t div b * b \<le> t \<and> t < (t div b + 1) * b" for t b :: int
proof -
  assume b: "0 < b"
  have "t = t div b * b + t mod b" by simp
  then show ?thesis
    using pos_mod_bound [OF b, of t] pos_mod_sign [OF b, of t] unfolding distrib_right mult_1 by linarith
qed

lemma same_block: "0 < b \<Longrightarrow> t \<le> u \<Longrightarrow> u < (t div b + 1) * b \<Longrightarrow> u div b = t div b" for t u b :: int
proof -
  assume a: "0 < b" "t \<le> u" "u < (t div b + 1) * b"
  have "u = b * (t div b) + (u - t div b * b)" by simp
  then show ?thesis
    using a block_bounds [of b t] by (intro int_div_pos_eq [where r = "u - t div b * b"]) (simp_all add: distrib_right)
qed

interpretation minute_skip: calendar_skip off "advanceMinute (off, [])" "\<lambda>t. getMinutes (off, []) t \<notin> M"
proof
  fix t u :: int
  assume t: "60000 dvd t + off"
  show "60000 dvd advanceMinute (off, []) t + off"
    using t dvd_add [OF t, of 60000] by (simp add: advanceMinute_fixed algebra_simps)
  show "t < advanceMinute (off, []) t"
    using t by (simp add: advanceMinute_fixed)
  assume bad: "getMinutes (off, []) t \<notin> M" and u: "60000 dvd u + off" "t \<le> u" "u < advanceMinute (off, []) t"
  have "60000 dvd (u + off) - (t + off)" using u(1) t by (rule dvd_diff)
  moreover have "u - t < 60000" using u(3) t by (simp add: advanceMinute_fixed)
  ultimately have "\<not> 0 < u - t" using zdvd_not_zless [of "u - t" 60000] by auto
  then have "u = t" using u(2) by simp
  then show "getMinutes (off, []) u \<notin> M" using bad by simp
qed

interpretation hour_skip: calendar_skip off "advanceHour (off, [])" "\<lambda>t. getHours (off, []) t \<notin> H"
proof
  fix t u :: int
  show "60000 dvd advanceHour (off, []) t + off"
    unfolding advanceHour_fixed by (rule whole_hour)
  show "t < advanceHour (off, []) t"
    using advanceHour_fixed [of off t] block_bounds [of 3600000 "t + off"] by linarith
  assume "getHours (off, []) t \<notin> H" "t \<le> u" "u < advanceHour (off, []) t"
  moreover from this have "(u + off) div 3600000 = (t + off) div 3600000"
    using advanceHour_fixed [of off t] by (intro same_block) linarith+
  ultimately show "getHours (off, []) u \<notin> H"
    by (simp add: getHours_def HourFromTime_eq)
qed

lemma same_day: "t \<le> u \<Longrightarrow> u < advanceDay (off, []) t \<Longrightarrow> Day (u + off) = Day (t + off)"
  using advanceDay_fixed [of off t] unfolding Day_def by (intro same_block) (simp_all add: msPerDay_def)

interpretation day_skip: calendar_skip off "advanceDay (off, [])" "\<lambda>t. \<not> dayMatches (off, []) e t"
proof
  fix t u :: int
  show "60000 dvd advanceDay (off, []) t + off"
    unfolding advanceDay_fixed by (rule whole_day)
  show "t < advanceDay (off, []) t"
    using advanceDay_fixed [of off t] block_bounds [of msPerDay "t + off"] by (simp add: Day_def msPerDay_def)
  assume "\<not> dayMatches (off, []) e t" "t \<le> u" "u < advanceDay (off, []) t"
  then show "\<not> dayMatches (off, []) e u"
    using same_day [of t u off] by (simp add: dayMatches_def getDate_def getDay_def)
qed

lemma Day_less_iff: "t < d * msPerDay \<longleftrightarrow> Day t < d"
proof
  have b: "Day t * msPerDay \<le> t" "t < (Day t + 1) * msPerDay"
    using block_bounds [of msPerDay t] by (simp_all add: Day_def msPerDay_def)
  show "Day t < d" if "t < d * msPerDay"
  proof (rule ccontr)
    assume "\<not> Day t < d"
    then have "d * msPerDay \<le> Day t * msPerDay" by (simp add: msPerDay_def)
    then show False using b that by simp
  qed
  show "t < d * msPerDay" if "Day t < d"
  proof -
    have "(Day t + 1) * msPerDay \<le> d * msPerDay" using that by (simp add: msPerDay_def)
    then show ?thesis using b by simp
  qed
qed

interpretation month_skip: calendar_skip off "advanceMonth (off, [])" "\<lambda>t. getMonth (off, []) t + 1 \<notin> M"
proof
  fix t u :: int
  let ?k = "month_index (Day (t + off))"
  show "60000 dvd advanceMonth (off, []) t + off"
    unfolding advanceMonth_fixed by (rule whole_day)
  show "t < advanceMonth (off, []) t"
    using advanceMonth_fixed [of off t] month_index_bounds(4) [of "Day (t + off)"]
      Day_less_iff [of "t + off" "month_first (?k + 1)"] by simp
  assume a: "getMonth (off, []) t + 1 \<notin> M" "t \<le> u" "u < advanceMonth (off, []) t"
  have "Day (t + off) \<le> Day (u + off)"
    using a by (simp add: Day_def msPerDay_def zdiv_mono1)
  moreover have "Day (u + off) < month_first (?k + 1)"
    using a(3) advanceMonth_fixed [of off t] by (simp flip: Day_less_iff)
  ultimately have "month_index (Day (u + off)) = ?k"
    using month_index_bounds(3) [of "Day (t + off)"] by (intro month_index_eqI) simp_all
  then show "getMonth (off, []) u + 1 \<notin> M"
    using a by (simp add: getMonth_def year_month_of_index)
qed

section \<open>The search finds the first slot\<close>

text \<open>The expressions the parser returns: a day field that is \<open>*\<close> holds every day.\<close>

definition wildcards_full :: "ParsedCronExpression \<Rightarrow> bool" where
  "wildcards_full e \<longleftrightarrow>
     (ce_daysOfMonthWildcard e \<longrightarrow> set (ce_daysOfMonth e) = {1..31}) \<and>
     (ce_daysOfWeekWildcard e \<longrightarrow> set (ce_daysOfWeek e) = {0..6})"

lemma WeekDay_bounds: "0 \<le> WeekDay d" "WeekDay d \<le> 6"
  using pos_mod_bound [of 7 "d + 4"] by (simp_all add: WeekDay_def)

lemma cron_match_tests:
  "wildcards_full e \<Longrightarrow> cron_match z e t \<longleftrightarrow>
     getMonth z t + 1 \<in> set (ce_months e) \<and> dayMatches z e t \<and> getHours z t \<in> set (ce_hours e)
     \<and> getMinutes z t \<in> set (ce_minutes e)"
  using DateFromDay_bounds [of "Day (LocalTime z t)"] WeekDay_bounds [of "Day (LocalTime z t)"]
  by (auto simp: cron_match_def dayMatches_def wildcards_full_def Let_def getDate_def getDay_def)

text \<open>What the search returns, from a whole minute on.\<close>

definition first_slot :: "zone \<Rightarrow> ParsedCronExpression \<Rightarrow> int \<Rightarrow> int \<Rightarrow> int option \<Rightarrow> bool" where
  "first_slot z e date deadline r \<longleftrightarrow>
     (case r of
        Some t \<Rightarrow> date \<le> t \<and> t \<le> deadline \<and> cron_slot z e t \<and> (\<forall>u. date \<le> u \<and> u < t \<longrightarrow> \<not> cron_slot z e u)
      | None \<Rightarrow> \<forall>u. date \<le> u \<and> u \<le> deadline \<longrightarrow> \<not> cron_slot z e u)"

lemma first_slot_skip:
  "first_slot z e d deadline r \<Longrightarrow> date \<le> d \<Longrightarrow> (\<And>u. date \<le> u \<Longrightarrow> u < d \<Longrightarrow> \<not> cron_slot z e u) \<Longrightarrow>
   first_slot z e date deadline r"
  unfolding first_slot_def by (cases r) (auto; meson not_less)+

context calendar_skip
begin

text \<open>A search that advances this way when the test fails may continue from the later minute.\<close>

lemma skip_search:
  assumes r: "first_slot (off, []) e (adv t) deadline r" and t: "60000 dvd t + off" "bad t"
    and m: "\<And>u. cron_match (off, []) e u \<Longrightarrow> \<not> bad u"
  shows "first_slot (off, []) e t deadline r"
proof (rule first_slot_skip [OF r])
  show "t \<le> adv t" using skip_later [OF t(1)] by simp
  show "\<not> cron_slot (off, []) e u" if "t \<le> u" "u < adv t" for u
    using skip_bad [OF t _ that] m [of u] by (auto simp: cron_slot_def)
qed

end

lemma next_loop_first_slot:
  assumes "wildcards_full e" "60000 dvd date + off"
    and "deadline < date + 60000 * (int HARD_ITERATION_CAP - int i)"
  shows "first_slot (off, []) e date deadline (next_loop (off, []) e deadline date i)"
  using assms
proof (induction "(off, [] :: (int \<times> int) list)" e deadline date i rule: next_loop.induct)
  case (1 e deadline date i)
  let ?z = "(off, [] :: (int \<times> int) list)"
  note w = 1(5) and t = 1(6)
  note match = cron_match_tests [OF w, of ?z]
  note unfold = next_loop.simps [of ?z e deadline date i]
  have room: "deadline < d + 60000 * (int HARD_ITERATION_CAP - int (i + 1))" if "date + 60000 \<le> d" for d
    using 1(7) that by (simp add: algebra_simps)
  show ?case
  proof (cases "date \<le> deadline")
    case False
    then show ?thesis unfolding unfold by (auto simp: first_slot_def)
  next
    case True
    then have run: "date \<le> deadline \<and> i < HARD_ITERATION_CAP" using 1(7) by auto
    consider (month) "getMonth ?z date + 1 \<notin> set (ce_months e)"
      | (day) "getMonth ?z date + 1 \<in> set (ce_months e)" "\<not> dayMatches ?z e date"
      | (hour) "getMonth ?z date + 1 \<in> set (ce_months e)" "dayMatches ?z e date" "getHours ?z date \<notin> set (ce_hours e)"
      | (minute) "getMonth ?z date + 1 \<in> set (ce_months e)" "dayMatches ?z e date" "getHours ?z date \<in> set (ce_hours e)"
          "getMinutes ?z date \<notin> set (ce_minutes e)"
      | (found) "getMonth ?z date + 1 \<in> set (ce_months e)" "dayMatches ?z e date" "getHours ?z date \<in> set (ce_hours e)"
          "getMinutes ?z date \<in> set (ce_minutes e)"
      by blast
    then show ?thesis
    proof cases
      case month
      show ?thesis
        by (rule month_skip.skip_search [OF _ t month])
          (use month 1(1) [OF run month w month_skip.skip_aligned [OF t] room [OF month_skip.skip_minute [OF t]]]
            run match in \<open>simp_all add: unfold\<close>)
    next
      case day
      show ?thesis
        by (rule day_skip.skip_search [OF _ t day(2)])
          (use day 1(2) [OF run _ day(2) w day_skip.skip_aligned [OF t] room [OF day_skip.skip_minute [OF t]]]
            run match in \<open>simp_all add: unfold\<close>)
    next
      case hour
      show ?thesis
        by (rule hour_skip.skip_search [OF _ t hour(3)])
          (use hour 1(3) [OF run _ _ hour(3) w hour_skip.skip_aligned [OF t] room [OF hour_skip.skip_minute [OF t]]]
            run match in \<open>simp_all add: unfold\<close>)
    next
      case minute
      show ?thesis
        by (rule minute_skip.skip_search [OF _ t minute(4)])
          (use minute 1(4) [OF run _ _ _ minute(4) w minute_skip.skip_aligned [OF t] room [OF minute_skip.skip_minute [OF t]]]
            run match in \<open>simp_all add: unfold\<close>)
    next
      case found
      then show ?thesis
        using run match [of date] t by (auto simp: unfold first_slot_def cron_slot_def)
    qed
  qed
qed

lemma parsed_wildcards: "parseCronExpression s = Inr e \<Longrightarrow> wildcards_full e"
  using parseCronExpression_ok [of s e] by (simp add: wildcards_full_def)

text \<open>The search starts at the first whole minute after the given instant.\<close>

lemma search_start:
  fixes fromMs off :: int
  defines "date \<equiv> setSeconds2 (off, []) fromMs 0 0 + 60000"
  shows "60000 dvd date + off" "fromMs < date" "date \<le> fromMs + 60000"
    and "fromMs < u \<Longrightarrow> u < date \<Longrightarrow> \<not> cron_slot (off, []) e u"
proof -
  define q where "q = (fromMs + off) div 60000"
  have d: "date = (q + 1) * 60000 - off"
    by (simp add: date_def q_def setSeconds2_def Let_def MakeDate_minute)
  have b: "q * 60000 \<le> fromMs + off" "fromMs + off < (q + 1) * 60000"
    using block_bounds [of 60000 "fromMs + off"] by (simp_all add: q_def)
  show "60000 dvd date + off" by (simp add: d)
  show "fromMs < date" "date \<le> fromMs + 60000" using b by (simp_all add: d)
  show "\<not> cron_slot (off, []) e u" if "fromMs < u" "u < date"
  proof
    assume "cron_slot (off, []) e u"
    then have "60000 dvd u + off - q * 60000" by (simp add: cron_slot_def)
    then show False
      using zdvd_not_zless [of "u + off - q * 60000" 60000] b that by (simp add: d)
  qed
qed

lemma nextRun_first_slot:
  assumes "wildcards_full e" "0 \<le> capMinutes" "capMinutes < int HARD_ITERATION_CAP"
  shows "first_slot (off, []) e (fromMs + 1) (fromMs + capMinutes * 60000)
           (nextRunWithinMinutes (off, []) e fromMs capMinutes)"
proof -
  note st = search_start [where off = off and fromMs = fromMs]
  have "first_slot (off, []) e (setSeconds2 (off, []) fromMs 0 0 + 60000) (fromMs + capMinutes * 60000)
      (next_loop (off, []) e (fromMs + capMinutes * 60000) (setSeconds2 (off, []) fromMs 0 0 + 60000) 0)"
    using st(2) assms(3) by (intro next_loop_first_slot [OF assms(1) st(1)]) simp
  then show ?thesis
    unfolding nextRunWithinMinutes_def Let_def MS_PER_MINUTE_def
    by (rule first_slot_skip) (use st(2,4) in auto)
qed

lemma next_run_first_slot:
  "wildcards_full e \<Longrightarrow>
   first_slot (off, []) e (fromMs + 1) (fromMs + 1830 * msPerDay) (computeNextCronRun (off, []) e fromMs)"
  unfolding computeNextCronRun_def
  using nextRun_first_slot [of e 2635200 off fromMs] by (simp add: HARD_ITERATION_CAP_def msPerDay_def)

lemma next_run_SomeD:
  assumes "wildcards_full e" "computeNextCronRun (off, []) e fromMs = Some t"
  shows "fromMs < t" "cron_slot (off, []) e t" "fromMs < u \<Longrightarrow> u < t \<Longrightarrow> \<not> cron_slot (off, []) e u"
  using next_run_first_slot [OF assms(1), of off fromMs] assms(2) by (auto simp: first_slot_def)

text \<open>
  C22: In a zone with a fixed offset, the next run of a parsed expression is its first slot after the given
  instant, and there is none exactly when no slot lies within the search window of 1830 days.
\<close>

theorem next_run_is_first_slot:
  assumes "parseCronExpression s = Inr e"
  shows "case computeNextCronRun (off, []) e fromMs of
           Some t \<Rightarrow> fromMs < t \<and> t \<le> fromMs + 1830 * msPerDay \<and> cron_slot (off, []) e t
                     \<and> (\<forall>u. fromMs < u \<and> u < t \<longrightarrow> \<not> cron_slot (off, []) e u)
         | None \<Rightarrow> \<forall>u. fromMs < u \<and> u \<le> fromMs + 1830 * msPerDay \<longrightarrow> \<not> cron_slot (off, []) e u"
  using next_run_first_slot [OF parsed_wildcards [OF assms], of off fromMs]
  by (auto simp: first_slot_def split: option.splits)

section \<open>Examples, and a clock that is set back\<close>

definition daily_nine :: ParsedCronExpression where
  "daily_nine = \<lparr>ce_raw = ''0 9 * * *'', ce_minutes = [0], ce_hours = [9], ce_daysOfMonth = [1..31],
     ce_months = [1..12], ce_daysOfWeek = [0..6], ce_daysOfMonthWildcard = True, ce_daysOfWeekWildcard = True\<rparr>"

lemma parse_daily_nine: "parseCronExpression ''0 9 * * *'' = Inr daily_nine"
  by code_simp

text \<open>Evaluation of calendar arithmetic and of one turn of the search.\<close>

lemmas date_eval = getMonth_def getDate_def getDay_def getHours_def getMinutes_def setMonth_def setDate_def
  setHours4_def setHours_def setMinutes3_def setMinutes_def setSeconds2_def LocalTime_def UTC_def HourFromTime_eq
  MinFromTime_eq SecFromTime_def msFromTime_def MakeTime_def MakeDate_def MakeDay_def DateFromDay_def MonthFromDay_def
  YearFromDay_def WeekDay_def Day_def TimeWithinDay_def msPerDay_def year_search.simps DayFromYear_def leap_year_def
  month_starts_def Let_def dayMatches_def advanceMonth_def advanceDay_def advanceHour_def advanceMinute_def
  MS_PER_MINUTE_def HARD_ITERATION_CAP_def

lemma daily_nine_next: "computeNextCronRun (3600000, []) daily_nine 0 = Some 28800000"
  by (simp add: computeNextCronRun_def nextRunWithinMinutes_def date_eval daily_nine_def)
    (subst next_loop.simps, simp add: date_eval split del: if_split)+

theorem next_run_is_first_slot_witness:
  "cron_slot (3600000, []) daily_nine 28800000 \<and> \<not> cron_slot (3600000, []) daily_nine 27000000"
  using next_run_is_first_slot [OF parse_daily_nine, of 0 3600000] by (simp add: daily_nine_next)

text \<open>Central European time around the end of summer time on 27 October 2024, 01:00 UTC.\<close>

definition autumn_zone :: zone where
  "autumn_zone = (7200000, [(1729990800000, 3600000)])"

definition daily_before_three :: ParsedCronExpression where
  "daily_before_three = \<lparr>ce_raw = ''35 2 * * *'', ce_minutes = [35], ce_hours = [2], ce_daysOfMonth = [1..31],
     ce_months = [1..12], ce_daysOfWeek = [0..6], ce_daysOfMonthWildcard = True, ce_daysOfWeekWildcard = True\<rparr>"

lemma parse_daily_before_three: "parseCronExpression ''35 2 * * *'' = Inr daily_before_three"
  by code_simp

text \<open>
  The search is documented to return an instant strictly after the given one. It does not when the given
  instant lies in the repeated hour: \<open>setSeconds\<close> reads the local time back as its first occurrence,
  and at 02:31 of the second pass the run found is 02:35 of the first, 56 minutes earlier.
\<close>

theorem next_run_before_now:
  "parseCronExpression ''35 2 * * *'' = Inr daily_before_three \<and>
   computeNextCronRun autumn_zone daily_before_three (1729990800000 + 31 * 60000)
   = Some (1729990800000 + 31 * 60000 - 56 * 60000)"
  unfolding autumn_zone_def daily_before_three_def
  by (rule conjI, rule parse_daily_before_three [unfolded daily_before_three_def],
      simp add: computeNextCronRun_def nextRunWithinMinutes_def date_eval)
    (subst next_loop.simps, simp add: date_eval split del: if_split)+

end
