(* ===== verification/Cron_Scheduler.thy ===== *)
theory Cron_Scheduler
  imports Cron_Next Js_Map
begin

text \<open>
  The cron scheduling engine, \<open>packages/agent-core/src/tools/cron/scheduler.ts\<close>, with the deterministic
  jitter of \<open>jitter.ts\<close>. What the scheduler is created with is an argument: the zone of the host and
  whether jitter is switched off (\<open>cron_env\<close>), the wall clock as \<open>now\<close>, the task list of \<open>source()\<close>,
  and the callbacks, which act on a world of the caller. A callback returns the new world, and \<open>onFire\<close>
  also whether it returned or threw. Callbacks do not tick the scheduler themselves.

  Times of ideal runs are integers; a jittered time is a real number, where the code rounds to a double. Debug output is left out, and so
  is the interval timer, whose firing is a call of \<open>tick\<close>.
\<close>

section \<open>Tasks\<close>

record CronTask =
  ct_id :: string
  ct_cron :: string
  ct_prompt :: string
  ct_createdAt :: int
  ct_recurring :: "bool option"
  ct_lastFiredAt :: "int option"
  ct_durable :: "bool option"

abbreviation one_shot :: "CronTask \<Rightarrow> bool" where
  "one_shot task \<equiv> ct_recurring task = Some False"

section \<open>Jitter\<close>

record JitterConfig =
  recurringMaxFractionOfPeriod :: real
  recurringMaxMs :: real
  oneShotMaxMs :: real

definition DEFAULT_CRON_JITTER_CONFIG :: JitterConfig where
  "DEFAULT_CRON_JITTER_CONFIG =
     \<lparr>recurringMaxFractionOfPeriod = 1 / 10, recurringMaxMs = 15 * 60000, oneShotMaxMs = 90000\<rparr>"

definition MS_PER_DAY :: int where "MS_PER_DAY = 24 * 60 * 60000"

definition hex_digit :: "char \<Rightarrow> nat option" where
  "hex_digit c =
     (let n = of_char c :: nat in
      if 48 \<le> n \<and> n \<le> 57 then Some (n - 48)
      else if 97 \<le> n \<and> n \<le> 102 then Some (n - 87)
      else if 65 \<le> n \<and> n \<le> 70 then Some (n - 55)
      else None)"

definition hex_value :: "string \<Rightarrow> nat" where
  "hex_value s = foldl (\<lambda>n c. 16 * n + the (hex_digit c)) 0 s"

definition djb2 :: "string \<Rightarrow> u32" where
  "djb2 s = foldl (\<lambda>hash c. push_bit 5 hash + hash + of_nat (of_char c)) 5381 s"

definition fractionFromId :: "string \<Rightarrow> real" where
  "fractionFromId i =
     (if length i = 8 \<and> list_all (\<lambda>c. hex_digit c \<noteq> None) i then real (hex_value i) / 2 ^ 32
      else real (unat (djb2 i)) / 2 ^ 32)"

record cron_env =
  ev_zone :: zone
  ev_noJitter :: bool

definition jitteredNextCronRunMs ::
    "cron_env \<Rightarrow> CronTask \<Rightarrow> ParsedCronExpression \<Rightarrow> int \<Rightarrow> JitterConfig \<Rightarrow> real" where
  "jitteredNextCronRunMs ev task parsed idealMs config =
     (if ev_noJitter ev then real_of_int idealMs
      else
        let period = (case computeNextCronRun (ev_zone ev) parsed idealMs of
                        Some nextNext \<Rightarrow> if nextNext > idealMs then nextNext - idealMs else MS_PER_DAY
                      | None \<Rightarrow> MS_PER_DAY);
            cap = min (real_of_int period * recurringMaxFractionOfPeriod config) (recurringMaxMs config)
        in if \<not> cap > 0 then real_of_int idealMs
           else real_of_int idealMs + cap * fractionFromId (ct_id task))"

definition oneShotJitteredNextCronRunMs :: "cron_env \<Rightarrow> CronTask \<Rightarrow> int \<Rightarrow> JitterConfig \<Rightarrow> real" where
  "oneShotJitteredNextCronRunMs ev task idealMs config =
     (if ev_noJitter ev then real_of_int idealMs
      else if idealMs mod MS_PER_MINUTE \<noteq> 0 then real_of_int idealMs
      else
        let minuteOfHour = getMinutes (ev_zone ev) idealMs in
        if minuteOfHour \<noteq> 0 \<and> minuteOfHour \<noteq> 30 then real_of_int idealMs
        else if \<not> oneShotMaxMs config > 0 then real_of_int idealMs
        else
          let shifted = real_of_int idealMs + - oneShotMaxMs config * fractionFromId (ct_id task)
          in if shifted < real_of_int (ct_createdAt task) then real_of_int idealMs else shifted)"

section \<open>State\<close>

definition MAX_COALESCE_ITERATIONS :: int where "MAX_COALESCE_ITERATIONS = 10000"

record scheduler =
  cs_parsedCache :: "(string, ParsedCronExpression) js_map"
  cs_lastSeenAt :: "(string, int) js_map"
  cs_seededFromDisk :: "string set"
  cs_inFlight :: "string set"

definition createCronScheduler :: scheduler where
  "createCronScheduler = \<lparr>cs_parsedCache = [], cs_lastSeenAt = [], cs_seededFromDisk = {}, cs_inFlight = {}\<rparr>"

record 'w callbacks =
  cb_onFire :: "CronTask \<Rightarrow> int \<Rightarrow> 'w \<Rightarrow> bool \<times> 'w"
  cb_removeOneShot :: "string \<Rightarrow> 'w \<Rightarrow> 'w"
  cb_onAdvanceCursor :: "string \<Rightarrow> int \<Rightarrow> 'w \<Rightarrow> 'w"

section \<open>The next fire\<close>

definition getParsed :: "scheduler \<Rightarrow> string \<Rightarrow> (cron_error + ParsedCronExpression) \<times> scheduler" where
  "getParsed s expr =
     (case jm_get (cs_parsedCache s) expr of
        Some parsed \<Rightarrow> (Inr parsed, s)
      | None \<Rightarrow>
          (case parseCronExpression expr of
             Inl e \<Rightarrow> (Inl e, s)
           | Inr parsed \<Rightarrow> (Inr parsed, s\<lparr>cs_parsedCache := jm_set (cs_parsedCache s) expr parsed\<rparr>)))"

text \<open>The delivery time of an ideal run.\<close>

definition jittered :: "cron_env \<Rightarrow> CronTask \<Rightarrow> ParsedCronExpression \<Rightarrow> int \<Rightarrow> real" where
  "jittered ev task parsed ideal =
     (if one_shot task then oneShotJitteredNextCronRunMs ev task ideal DEFAULT_CRON_JITTER_CONFIG
      else jitteredNextCronRunMs ev task parsed ideal DEFAULT_CRON_JITTER_CONFIG)"

definition computeJitteredNext :: "cron_env \<Rightarrow> CronTask \<Rightarrow> ParsedCronExpression \<Rightarrow> int \<Rightarrow> real option" where
  "computeJitteredNext ev task parsed baseMs =
     (case computeNextCronRun (ev_zone ev) parsed baseMs of
        None \<Rightarrow> None
      | Some ideal \<Rightarrow> Some (jittered ev task parsed ideal))"

text \<open>The loop of \<open>countCoalesced\<close>; the result is the count and the last due run.\<close>

function coalesce_loop ::
    "cron_env \<Rightarrow> CronTask \<Rightarrow> ParsedCronExpression \<Rightarrow> int \<Rightarrow> int \<Rightarrow> int \<Rightarrow> int \<times> int" where
  "coalesce_loop ev task parsed nowMs count0 cursor =
     (if count0 < MAX_COALESCE_ITERATIONS then
        (case computeNextCronRun (ev_zone ev) parsed cursor of
           None \<Rightarrow> (count0, cursor)
         | Some next_run \<Rightarrow>
             if next_run > nowMs then (count0, cursor)
             else if jittered ev task parsed next_run > real_of_int nowMs then (count0, cursor)
             else coalesce_loop ev task parsed nowMs (count0 + 1) next_run)
      else (count0, cursor))"
  by pat_completeness auto
termination
  by (relation "measure (\<lambda>(ev, task, parsed, nowMs, count0, cursor). nat (MAX_COALESCE_ITERATIONS - count0))") auto

declare coalesce_loop.simps [simp del]

definition countCoalesced :: "cron_env \<Rightarrow> CronTask \<Rightarrow> ParsedCronExpression \<Rightarrow> int \<Rightarrow> int \<Rightarrow> int \<times> int" where
  "countCoalesced ev task parsed firstFireMs nowMs = coalesce_loop ev task parsed nowMs 1 firstFireMs"

section \<open>One tick\<close>

text \<open>The cursor persisted with the task is taken over once, unless it lies in the future.\<close>

definition seed_cursor :: "CronTask \<Rightarrow> int \<Rightarrow> scheduler \<Rightarrow> scheduler" where
  "seed_cursor task now s =
     (let s1 = (case ct_lastFiredAt task of
                  Some l \<Rightarrow>
                    if ct_id task \<notin> cs_seededFromDisk s \<and> l \<le> now \<and> \<not> jm_has (cs_lastSeenAt s) (ct_id task)
                    then s\<lparr>cs_lastSeenAt := jm_set (cs_lastSeenAt s) (ct_id task) l\<rparr> else s
                | None \<Rightarrow> s)
      in s1\<lparr>cs_seededFromDisk := insert (ct_id task) (cs_seededFromDisk s1)\<rparr>)"

definition baseFromMs :: "CronTask \<Rightarrow> int option \<Rightarrow> int" where
  "baseFromMs task seen =
     (case seen of Some c \<Rightarrow> if c > ct_createdAt task then c else ct_createdAt task
      | None \<Rightarrow> ct_createdAt task)"

text \<open>The delivery of a due task.\<close>

definition fire_task ::
    "cron_env \<Rightarrow> 'w callbacks \<Rightarrow> int \<Rightarrow> CronTask \<Rightarrow> ParsedCronExpression \<Rightarrow> int \<Rightarrow> scheduler \<times> 'w \<Rightarrow> scheduler \<times> 'w" where
  "fire_task ev cb now task parsed base sw =
     (let (s, w) = sw;
          ideal = computeNextCronRun (ev_zone ev) parsed base;
          (coalescedCount, lastDueMs) =
            (case ideal of
               Some first \<Rightarrow>
                 if \<not> one_shot task
                 then (let (c, l) = countCoalesced ev task parsed first now in (max 1 c, Some l))
                 else (1, None)
             | None \<Rightarrow> (1, None));
          s1 = s\<lparr>cs_inFlight := insert (ct_id task) (cs_inFlight s)\<rparr>;
          (delivered, w1) = cb_onFire cb task coalescedCount w
      in if \<not> delivered then (s1, w1)
         else if one_shot task then
           (s1\<lparr>cs_lastSeenAt := jm_delete (cs_lastSeenAt s1) (ct_id task),
               cs_seededFromDisk := cs_seededFromDisk s1 - {ct_id task}\<rparr>,
            cb_removeOneShot cb (ct_id task) w1)
         else
           (let advancedTo = (case lastDueMs of Some l \<Rightarrow> l | None \<Rightarrow> now)
            in (s1\<lparr>cs_lastSeenAt := jm_set (cs_lastSeenAt s1) (ct_id task) advancedTo\<rparr>,
                cb_onAdvanceCursor cb (ct_id task) advancedTo w1)))"

definition tick_task ::
    "cron_env \<Rightarrow> 'w callbacks \<Rightarrow> int \<Rightarrow> CronTask \<Rightarrow> scheduler \<times> 'w \<Rightarrow> scheduler \<times> 'w" where
  "tick_task ev cb now task sw =
     (if ct_id task \<in> cs_inFlight (fst sw) then sw
      else (case getParsed (fst sw) (ct_cron task) of
              (Inl _, s) \<Rightarrow> (s, snd sw)
            | (Inr parsed, s) \<Rightarrow>
                (let s1 = seed_cursor task now s;
                     base = baseFromMs task (jm_get (cs_lastSeenAt s1) (ct_id task))
                 in case computeJitteredNext ev task parsed base of
                      None \<Rightarrow> (s1, snd sw)
                    | Some nextFireAt \<Rightarrow>
                        if real_of_int now < nextFireAt then (s1, snd sw)
                        else fire_task ev cb now task parsed base (s1, snd sw))))"

definition tick ::
    "cron_env \<Rightarrow> 'w callbacks \<Rightarrow> bool \<Rightarrow> bool \<Rightarrow> int \<Rightarrow> CronTask list \<Rightarrow> scheduler \<times> 'w \<Rightarrow> scheduler \<times> 'w" where
  "tick ev cb isKilled isIdle now tasks sw =
     (if isKilled then sw
      else if \<not> isIdle then sw
      else if tasks = [] then sw
      else let (s, w) = fold (tick_task ev cb now) tasks sw in (s\<lparr>cs_inFlight := {}\<rparr>, w))"

definition stop :: "scheduler \<Rightarrow> scheduler" where
  "stop s = s\<lparr>cs_inFlight := {}, cs_lastSeenAt := [], cs_seededFromDisk := {}, cs_parsedCache := []\<rparr>"

section \<open>What the scheduler reports\<close>

definition nextFireFor :: "cron_env \<Rightarrow> int \<Rightarrow> CronTask \<Rightarrow> scheduler \<Rightarrow> real option \<times> scheduler" where
  "nextFireFor ev now task s =
     (case getParsed s (ct_cron task) of
        (Inl _, s1) \<Rightarrow> (None, s1)
      | (Inr parsed, s1) \<Rightarrow>
          (let seen = jm_get (cs_lastSeenAt s1) (ct_id task);
               persistedCursor = (case ct_lastFiredAt task of Some l \<Rightarrow> if l \<le> now then Some l else None | None \<Rightarrow> None);
               cursor = (if seen \<noteq> None then seen else persistedCursor)
           in (computeJitteredNext ev task parsed (baseFromMs task cursor), s1)))"

fun earliest :: "real option \<Rightarrow> real option \<Rightarrow> real option" where
  "earliest mn None = mn"
| "earliest None (Some n) = Some n"
| "earliest (Some m) (Some n) = (if n < m then Some n else Some m)"

definition getNextFireTime :: "cron_env \<Rightarrow> int \<Rightarrow> CronTask list \<Rightarrow> scheduler \<Rightarrow> real option \<times> scheduler" where
  "getNextFireTime ev now tasks s =
     fold (\<lambda>task (mn, s). let (r, s') = nextFireFor ev now task s in (earliest mn r, s')) tasks (None, s)"

definition getNextFireForTask ::
    "cron_env \<Rightarrow> int \<Rightarrow> CronTask list \<Rightarrow> string \<Rightarrow> scheduler \<Rightarrow> real option \<times> scheduler" where
  "getNextFireForTask ev now tasks i s =
     (case find (\<lambda>t. ct_id t = i) tasks of None \<Rightarrow> (None, s) | Some task \<Rightarrow> nextFireFor ev now task s)"

end
