(* ===== verification/Cron_Run.thy ===== *)
theory Cron_Run
  imports Cron_Scheduler
begin

text \<open>
  What a run of the cron scheduler delivers. The world of the callbacks is a log of deliveries, and an
  oracle decides for every attempt whether \<open>onFire\<close> throws. In a zone with a fixed offset the counts
  delivered for a recurring task add up to the slots between its origin and its cursor: none is
  delivered twice, none is passed over. A tick that delivers leaves nothing that was due. In a zone that
  sets the clock back, a task created in the repeated hour is delivered on every tick.
\<close>

section \<open>Bounds of the jitter\<close>

lemma hex_value_snoc: "hex_value (s @ [c]) = 16 * hex_value s + the (hex_digit c)"
  by (simp add: hex_value_def)

lemma hex_digit_bound: "hex_digit c = Some d \<Longrightarrow> d < 16"
  by (auto simp: hex_digit_def Let_def split: if_splits)

lemma hex_value_bound: "list_all (\<lambda>c. hex_digit c \<noteq> None) s \<Longrightarrow> hex_value s < 16 ^ length s"
proof (induction s rule: rev_induct)
  case (snoc c s)
  then obtain d where "hex_digit c = Some d" by auto
  then show ?case
    using snoc hex_digit_bound [of c d] by (simp add: hex_value_snoc)
qed (simp add: hex_value_def)

lemma fractionFromId_bounds: "0 \<le> fractionFromId i" "fractionFromId i < 1"
proof -
  have q: "0 \<le> real n / 2 ^ 32 \<and> real n / 2 ^ 32 < 1" if "n < 2 ^ 32" for n
  proof -
    have "real n < real (2 ^ 32)" using that by (simp only: of_nat_less_iff)
    then show ?thesis by simp
  qed
  have "unat (djb2 i) < 2 ^ 32" using unsigned_less [of "djb2 i", where 'a = nat] by simp
  moreover have "hex_value i < 2 ^ 32" if "length i = 8 \<and> list_all (\<lambda>c. hex_digit c \<noteq> None) i"
    using hex_value_bound [of i] that by simp
  ultimately have "0 \<le> fractionFromId i \<and> fractionFromId i < 1"
    unfolding fractionFromId_def using q [of "hex_value i"] q [of "unat (djb2 i)"] by presburger
  then show "0 \<le> fractionFromId i" "fractionFromId i < 1" by simp_all
qed

text \<open>The period the jitter of a recurring task is measured against.\<close>

definition period_after :: "cron_env \<Rightarrow> ParsedCronExpression \<Rightarrow> int \<Rightarrow> int" where
  "period_after ev e ideal =
     (case computeNextCronRun (ev_zone ev) e ideal of
        Some n \<Rightarrow> if n > ideal then n - ideal else MS_PER_DAY
      | None \<Rightarrow> MS_PER_DAY)"

lemma period_after_positive: "0 < period_after ev e ideal"
  by (simp add: period_after_def MS_PER_DAY_def split: option.splits)

lemma recurring_jitter_bounds:
  assumes "\<not> one_shot task"
  shows "real_of_int ideal \<le> jittered ev task e ideal"
    "jittered ev task e ideal \<le> real_of_int ideal + 900000"
    "jittered ev task e ideal < real_of_int ideal + real_of_int (period_after ev e ideal)"
proof -
  define cap where "cap = min (real_of_int (period_after ev e ideal) * (1 / 10)) (15 * 60000)"
  have p: "0 < real_of_int (period_after ev e ideal)" using period_after_positive by simp
  then have cap: "0 < cap" "cap \<le> 900000" "cap < real_of_int (period_after ev e ideal)"
    by (simp_all add: cap_def)
  define g where "g = cap * fractionFromId (ct_id task)"
  have f: "0 \<le> g" "g \<le> cap"
    using cap(1) fractionFromId_bounds [of "ct_id task"] by (simp_all add: g_def mult_le_cancel_left1)
  have "jittered ev task e ideal = real_of_int ideal + (if ev_noJitter ev then 0 else g)"
    using assms cap(1) unfolding g_def
    by (simp add: jittered_def jitteredNextCronRunMs_def DEFAULT_CRON_JITTER_CONFIG_def cap_def period_after_def Let_def
        split: option.splits)
  then show "real_of_int ideal \<le> jittered ev task e ideal"
    "jittered ev task e ideal \<le> real_of_int ideal + 900000"
    "jittered ev task e ideal < real_of_int ideal + real_of_int (period_after ev e ideal)"
    using f cap p by (auto simp del: of_int_less_iff)
qed

lemma one_shot_jitter_bounds:
  assumes "one_shot task"
  shows "jittered ev task e ideal \<le> real_of_int ideal" "real_of_int ideal - 90000 < jittered ev task e ideal"
    "jittered ev task e ideal = real_of_int ideal \<or> real_of_int (ct_createdAt task) \<le> jittered ev task e ideal"
  using assms fractionFromId_bounds [of "ct_id task"]
  by (auto simp: jittered_def oneShotJitteredNextCronRunMs_def DEFAULT_CRON_JITTER_CONFIG_def Let_def)

section \<open>Counting the runs a delivery stands for\<close>

definition slots_between :: "int \<Rightarrow> ParsedCronExpression \<Rightarrow> int \<Rightarrow> int \<Rightarrow> int set" where
  "slots_between off e a b = {u. a < u \<and> u \<le> b \<and> cron_slot (off, []) e u}"

lemma finite_slots [simp]: "finite (slots_between off e a b)"
  by (rule finite_subset [of _ "{a<..b}"]) (auto simp: slots_between_def)

lemma slots_empty [simp]: "slots_between off e a a = {}"
  by (auto simp: slots_between_def)

lemma slots_next:
  assumes "wildcards_full e" "computeNextCronRun (off, []) e a = Some t" "t \<le> b"
  shows "slots_between off e a b = insert t (slots_between off e t b)" "t \<notin> slots_between off e t b"
  using next_run_SomeD [OF assms(1,2)] assms(3) by (fastforce simp: slots_between_def)+

text \<open>What holds of the count and the last run found, from a cursor on.\<close>

definition coalesced_ok ::
    "cron_env \<Rightarrow> CronTask \<Rightarrow> ParsedCronExpression \<Rightarrow> int \<Rightarrow> int \<Rightarrow> int \<Rightarrow> int \<Rightarrow> int \<times> int \<Rightarrow> bool" where
  "coalesced_ok ev task e off nowMs n cursor r \<longleftrightarrow>
     (let (c, l) = r in
      cursor \<le> l \<and> (cursor \<le> nowMs \<longrightarrow> l \<le> nowMs) \<and> c = n + int (card (slots_between off e cursor l)) \<and>
      (c < MAX_COALESCE_ITERATIONS \<longrightarrow>
         (case computeNextCronRun (off, []) e l of None \<Rightarrow> True | Some t \<Rightarrow> real_of_int nowMs < jittered ev task e t \<or> nowMs < t)))"

lemma coalesce_loop_ok:
  assumes "wildcards_full e" "ev_zone ev = (off, [])"
  shows "coalesced_ok ev task e off nowMs n cursor (coalesce_loop ev task e nowMs n cursor)"
  using assms
proof (induction ev task e nowMs n cursor rule: coalesce_loop.induct)
  case (1 ev task e nowMs n cursor)
  note w = 1(2) and z = 1(3)
  have none: "slots_between off e cursor cursor = {}" by (auto simp: slots_between_def)
  show ?case
  proof (cases "computeNextCronRun (off, []) e cursor")
    case None
    then show ?thesis using z none by (subst coalesce_loop.simps) (simp add: coalesced_ok_def)
  next
    case (Some t)
    note t = next_run_SomeD [OF w Some]
    show ?thesis
    proof (cases "n < MAX_COALESCE_ITERATIONS \<and> t \<le> nowMs \<and> jittered ev task e t \<le> real_of_int nowMs")
      case True
      let ?r = "coalesce_loop ev task e nowMs (n + 1) t"
      have ih: "coalesced_ok ev task e off nowMs (n + 1) t ?r"
        using 1 True Some z by simp
      have "coalesce_loop ev task e nowMs n cursor = ?r"
        using True Some z by (subst coalesce_loop.simps) simp
      moreover have "coalesced_ok ev task e off nowMs n cursor ?r"
        using ih t(1) slots_next [OF w Some, of "snd ?r"] True
        by (auto simp: coalesced_ok_def split: prod.splits)
      ultimately show ?thesis by simp
    next
      case False
      then show ?thesis
        using z none Some by (subst coalesce_loop.simps) (auto simp: coalesced_ok_def)
    qed
  qed
qed

lemma due_delivery:
  assumes "\<not> one_shot task" "wildcards_full e" "ev_zone ev = (off, [])"
    and first: "computeNextCronRun (off, []) e base = Some first" and due: "jittered ev task e first \<le> real_of_int nowMs"
  obtains c l where "countCoalesced ev task e first nowMs = (c, l)" "base < l" "l \<le> nowMs" "1 \<le> c"
    "c = int (card (slots_between off e base l))"
    "c < MAX_COALESCE_ITERATIONS \<Longrightarrow>
       case computeNextCronRun (off, []) e l of None \<Rightarrow> True | Some t \<Rightarrow> real_of_int nowMs < jittered ev task e t"
proof -
  obtain c l where r: "countCoalesced ev task e first nowMs = (c, l)" by force
  have ok: "coalesced_ok ev task e off nowMs 1 first (c, l)"
    using coalesce_loop_ok [OF assms(2,3), of task nowMs 1 first] r by (simp add: countCoalesced_def)
  have fn: "first \<le> nowMs"
    using recurring_jitter_bounds(1) [OF assms(1), of first ev e] due by linarith
  note t = next_run_SomeD [OF assms(2) first]
  have l: "first \<le> l" "l \<le> nowMs" "c = 1 + int (card (slots_between off e first l))"
    using ok fn by (auto simp: coalesced_ok_def)
  have "c = int (card (slots_between off e base l))"
    using slots_next [OF assms(2) first l(1)] l(3) by simp
  moreover have "case computeNextCronRun (off, []) e l of None \<Rightarrow> True | Some t \<Rightarrow> real_of_int nowMs < jittered ev task e t"
    if "c < MAX_COALESCE_ITERATIONS"
  proof (cases "computeNextCronRun (off, []) e l")
    case (Some u)
    then have "real_of_int nowMs < jittered ev task e u \<or> nowMs < u"
      using ok that by (simp add: coalesced_ok_def)
    then show ?thesis
      using recurring_jitter_bounds(1) [OF assms(1), of u ev e] Some by auto
  qed simp
  ultimately show thesis using that [of c l] r l t(1) by simp
qed

lemma slots_split:
  assumes "a \<le> b" "b \<le> c"
  shows "card (slots_between off e a c) = card (slots_between off e a b) + card (slots_between off e b c)"
proof -
  have "slots_between off e a c = slots_between off e a b \<union> slots_between off e b c"
    "slots_between off e a b \<inter> slots_between off e b c = {}"
    using assms by (auto simp: slots_between_def)
  then show ?thesis by (simp add: card_Un_disjoint)
qed

section \<open>Runs of the scheduler\<close>

text \<open>The log of a run; the oracle says of every attempt whether the delivery returns.\<close>

record cron_world =
  cw_attempts :: nat
  cw_log :: "(string \<times> int) list"

definition log_callbacks :: "(nat \<Rightarrow> bool) \<Rightarrow> cron_world callbacks" where
  "log_callbacks returns =
     \<lparr>cb_onFire = (\<lambda>task n w.
        (returns (cw_attempts w),
         w\<lparr>cw_attempts := cw_attempts w + 1,
           cw_log := (if returns (cw_attempts w) then cw_log w @ [(ct_id task, n)] else cw_log w)\<rparr>)),
      cb_removeOneShot = (\<lambda>_ w. w), cb_onAdvanceCursor = (\<lambda>_ _ w. w)\<rparr>"

definition delivered :: "string \<Rightarrow> (string \<times> int) list \<Rightarrow> int" where
  "delivered i entries = sum_list (map snd (filter (\<lambda>(j, _). j = i) entries))"

record tick_input =
  ti_killed :: bool
  ti_idle :: bool
  ti_now :: int
  ti_tasks :: "CronTask list"

definition tick_step :: "cron_env \<Rightarrow> (nat \<Rightarrow> bool) \<Rightarrow> scheduler \<times> cron_world \<Rightarrow> tick_input \<Rightarrow> scheduler \<times> cron_world" where
  "tick_step ev returns sw i = tick ev (log_callbacks returns) (ti_killed i) (ti_idle i) (ti_now i) (ti_tasks i) sw"

definition new_run :: "scheduler \<times> cron_world" where
  "new_run = (createCronScheduler, \<lparr>cw_attempts = 0, cw_log = []\<rparr>)"

text \<open>The base of a task.\<close>

definition cursor_of :: "CronTask \<Rightarrow> scheduler \<Rightarrow> int" where
  "cursor_of task s = baseFromMs task (jm_get (cs_lastSeenAt s) (ct_id task))"

definition cache_ok :: "scheduler \<Rightarrow> bool" where
  "cache_ok s \<longleftrightarrow> (\<forall>x e. jm_get (cs_parsedCache s) x = Some e \<longrightarrow> parseCronExpression x = Inr e)"

lemma cursor_from_creation: "ct_createdAt task \<le> cursor_of task s"
  by (simp add: cursor_of_def baseFromMs_def split: option.splits)

lemma getParsed_ok:
  assumes "cache_ok s"
  obtains (bad) err where "parseCronExpression x = Inl err" "getParsed s x = (Inl err, s)"
  | (good) e s' where "parseCronExpression x = Inr e" "getParsed s x = (Inr e, s')" "cache_ok s'"
      "cs_lastSeenAt s' = cs_lastSeenAt s" "cs_seededFromDisk s' = cs_seededFromDisk s" "cs_inFlight s' = cs_inFlight s"
proof (cases "jm_get (cs_parsedCache s) x")
  case (Some e)
  then show ?thesis using assms good [of e s] by (auto simp: getParsed_def cache_ok_def)
next
  case None
  then show ?thesis
    using assms bad good by (cases "parseCronExpression x") (auto simp: getParsed_def cache_ok_def jm_get_set)
qed

text \<open>The stamp of a record, as far as a tick takes it over.\<close>

definition stamp_at :: "CronTask \<Rightarrow> int \<Rightarrow> int option" where
  "stamp_at t now = (case ct_lastFiredAt t of Some l \<Rightarrow> if l \<le> now then Some l else None | None \<Rightarrow> None)"

lemma seed_cursor_fields:
  "cache_ok (seed_cursor task now s) = cache_ok s"
  "ct_id task \<noteq> i \<Longrightarrow> jm_get (cs_lastSeenAt (seed_cursor task now s)) i = jm_get (cs_lastSeenAt s) i"
  "ct_lastFiredAt task = None \<Longrightarrow> jm_get (cs_lastSeenAt (seed_cursor task now s)) i = jm_get (cs_lastSeenAt s) i"
  "cs_inFlight (seed_cursor task now s) = cs_inFlight s"
  "cs_seededFromDisk (seed_cursor task now s) = insert (ct_id task) (cs_seededFromDisk s)"
  "ct_id task \<in> cs_seededFromDisk s \<Longrightarrow> jm_get (cs_lastSeenAt (seed_cursor task now s)) i = jm_get (cs_lastSeenAt s) i"
  "ct_id task \<notin> cs_seededFromDisk s \<Longrightarrow> jm_get (cs_lastSeenAt s) (ct_id task) = None \<Longrightarrow>
     jm_get (cs_lastSeenAt (seed_cursor task now s)) (ct_id task) = stamp_at task now"
  by (auto simp: seed_cursor_def Let_def cache_ok_def jm_get_set jm_has_def stamp_at_def split: option.splits)

lemma seed_cursor_cong:
  "cs_lastSeenAt s = cs_lastSeenAt s' \<Longrightarrow> cs_seededFromDisk s = cs_seededFromDisk s' \<Longrightarrow>
   cs_lastSeenAt (seed_cursor task now s) = cs_lastSeenAt (seed_cursor task now s')"
  by (simp add: seed_cursor_def Let_def split: option.splits)

lemma delivered_snoc: "delivered i (entries @ [(j, n)]) = delivered i entries + (if j = i then n else 0)"
  by (simp add: delivered_def)

lemma delivered_Nil [simp]: "delivered i [] = 0"
  by (simp add: delivered_def)

text \<open>The processing of one task leaves the cursor and the deliveries of another alone.\<close>

lemma fire_other:
  assumes "ct_id t \<noteq> i" "fire_task ev (log_callbacks returns) now t e base (s, w) = (s', w')"
  shows "cache_ok s \<Longrightarrow> cache_ok s'" "jm_get (cs_lastSeenAt s') i = jm_get (cs_lastSeenAt s) i"
    "delivered i (cw_log w') = delivered i (cw_log w)"
    "cs_inFlight s' = insert (ct_id t) (cs_inFlight s)" "i \<in> cs_seededFromDisk s' \<longleftrightarrow> i \<in> cs_seededFromDisk s"
    "cw_attempts w' = Suc (cw_attempts w)"
  using assms
  by (auto simp: fire_task_def log_callbacks_def cache_ok_def jm_get_set jm_get_delete delivered_snoc
      Let_def split: if_splits option.splits prod.splits)

definition undisturbed :: "string \<Rightarrow> scheduler \<times> cron_world \<Rightarrow> scheduler \<times> cron_world \<Rightarrow> bool" where
  "undisturbed i sw sw' \<longleftrightarrow>
     cache_ok (fst sw') \<and> jm_get (cs_lastSeenAt (fst sw')) i = jm_get (cs_lastSeenAt (fst sw)) i \<and>
     delivered i (cw_log (snd sw')) = delivered i (cw_log (snd sw)) \<and>
     (i \<in> cs_inFlight (fst sw') \<longleftrightarrow> i \<in> cs_inFlight (fst sw)) \<and>
     (i \<in> cs_seededFromDisk (fst sw') \<longleftrightarrow> i \<in> cs_seededFromDisk (fst sw)) \<and>
     cw_attempts (snd sw) \<le> cw_attempts (snd sw')"

lemma tick_other:
  assumes "ct_id t \<noteq> i" "cache_ok (fst sw)"
  shows "undisturbed i sw (tick_task ev (log_callbacks returns) now t sw)"
proof -
  obtain s w where sw: "sw = (s, w)" by force
  have c: "cache_ok s" using assms(2) sw by simp
  show ?thesis
  proof (cases "ct_id t \<in> cs_inFlight s")
    case True
    then show ?thesis using c by (simp add: undisturbed_def sw tick_task_def)
  next
    case False
    show ?thesis
      using c
    proof (cases rule: getParsed_ok [of s "ct_cron t"])
      case (bad err)
      then show ?thesis using c False by (simp add: undisturbed_def sw tick_task_def)
    next
      case (good p s1)
      define s2 where "s2 = seed_cursor t now s1"
      define base where "base = baseFromMs t (jm_get (cs_lastSeenAt s2) (ct_id t))"
      have s2: "cache_ok s2" "jm_get (cs_lastSeenAt s2) i = jm_get (cs_lastSeenAt s) i" "cs_inFlight s2 = cs_inFlight s"
        "cs_seededFromDisk s2 = insert (ct_id t) (cs_seededFromDisk s)"
        using good assms(1) by (simp_all add: s2_def seed_cursor_fields)
      obtain s3 w3 where f: "fire_task ev (log_callbacks returns) now t p base (s2, w) = (s3, w3)" by force
      have "tick_task ev (log_callbacks returns) now t sw \<in> {(s2, w), (s3, w3)}"
        using False good(2) f by (simp add: tick_task_def sw s2_def [symmetric] base_def [symmetric] Let_def split: option.splits)
      then show ?thesis
        using fire_other [OF assms(1) f] s2 assms(1) by (auto simp: undisturbed_def sw)
    qed
  qed
qed

lemma undisturbed_trans: "undisturbed i x y \<Longrightarrow> undisturbed i y z \<Longrightarrow> undisturbed i x z"
  by (auto simp: undisturbed_def intro: order_trans)

lemma ticks_other:
  "\<forall>t \<in> set tasks. ct_id t \<noteq> i \<Longrightarrow> cache_ok (fst sw) \<Longrightarrow>
   undisturbed i sw (fold (tick_task ev (log_callbacks returns) now) tasks sw)"
proof (induction tasks arbitrary: sw)
  case (Cons t ts)
  let ?sw = "tick_task ev (log_callbacks returns) now t sw"
  have 1: "undisturbed i sw ?sw" using Cons.prems by (intro tick_other) auto
  then have "cache_ok (fst ?sw)" by (simp add: undisturbed_def)
  then have "undisturbed i ?sw (fold (tick_task ev (log_callbacks returns) now) ts ?sw)"
    using Cons.prems(1) by (intro Cons.IH) auto
  then show ?case using undisturbed_trans [OF 1] by simp
qed (simp add: undisturbed_def)

text \<open>The cache of parsed expressions is sound throughout.\<close>

lemma tick_task_cache: "cache_ok (fst sw) \<Longrightarrow> cache_ok (fst (tick_task ev (log_callbacks returns) now t sw))"
  using tick_other [of t "ct_id t @ ''x''" sw ev returns now] by (simp add: undisturbed_def)

lemma ticks_cache: "cache_ok (fst sw) \<Longrightarrow> cache_ok (fst (fold (tick_task ev (log_callbacks returns) now) tasks sw))"
  by (induction tasks arbitrary: sw) (simp_all add: tick_task_cache)

interpretation cron_cache: op_machine "tick_step ev returns" "\<lambda>sw. cache_ok (fst sw)"
proof
  fix sw :: "scheduler \<times> cron_world" and i
  assume "cache_ok (fst sw)"
  then show "cache_ok (fst (tick_step ev returns sw i))"
    using ticks_cache [of sw ev returns "ti_now i" "ti_tasks i"]
    by (auto simp: tick_step_def tick_def cache_ok_def split: prod.splits)
qed

lemma new_run_cache: "cache_ok (fst new_run)"
  by (simp add: new_run_def createCronScheduler_def cache_ok_def jm_get_def)

text \<open>The setting of the ledger: a recurring task in a zone with a fixed offset.\<close>

definition recurring_in :: "cron_env \<Rightarrow> int \<Rightarrow> CronTask \<Rightarrow> ParsedCronExpression \<Rightarrow> bool" where
  "recurring_in ev off task e \<longleftrightarrow>
     ev_zone ev = (off, []) \<and> parseCronExpression (ct_cron task) = Inr e \<and> \<not> one_shot task"

lemma recurring_inD:
  assumes "recurring_in ev off task e"
  shows "ev_zone ev = (off, [])" "parseCronExpression (ct_cron task) = Inr e" "\<not> one_shot task" "wildcards_full e"
  using assms parsed_wildcards by (auto simp: recurring_in_def)

text \<open>What one tick does for the task, from the base it starts from: nothing, a failed attempt, or one delivery.\<close>

lemma tick_task_cases:
  fixes now :: int
  assumes rec: "recurring_in ev off task e" and c: "cache_ok s" and idle: "ct_id task \<notin> cs_inFlight s"
  defines "base \<equiv> cursor_of task (seed_cursor task now s)"
  assumes t: "tick_task ev (log_callbacks returns) now task (s, w) = (s', w')"
  obtains (quiet) "cache_ok s'" "cursor_of task s' = base" "ct_id task \<in> cs_seededFromDisk s'" "w' = w"
      "case computeNextCronRun (off, []) e base of None \<Rightarrow> True | Some u \<Rightarrow> real_of_int now < jittered ev task e u"
  | (thrown) "cache_ok s'" "cursor_of task s' = base" "ct_id task \<in> cs_seededFromDisk s'" "cw_log w' = cw_log w"
      "\<not> returns (cw_attempts w)"
  | (fired) n l where "cache_ok s'" "cursor_of task s' = l" "ct_id task \<in> cs_seededFromDisk s'"
      "cw_log w' = cw_log w @ [(ct_id task, n)]"
      "base < l" "l \<le> now" "1 \<le> n" "n = int (card (slots_between off e base l))"
      "n < MAX_COALESCE_ITERATIONS \<Longrightarrow>
         case computeNextCronRun (off, []) e l of None \<Rightarrow> True | Some u \<Rightarrow> real_of_int now < jittered ev task e u"
proof -
  note d = recurring_inD [OF rec]
  obtain s1 where s1: "getParsed s (ct_cron task) = (Inr e, s1)" "cache_ok s1" "cs_lastSeenAt s1 = cs_lastSeenAt s"
    "cs_seededFromDisk s1 = cs_seededFromDisk s"
    using getParsed_ok [OF c, of "ct_cron task"] d(2) by (metis sum.distinct(1) sum.inject(2))
  define s2 where "s2 = seed_cursor task now s1"
  have s2: "cache_ok s2" "cursor_of task s2 = base" "ct_id task \<in> cs_seededFromDisk s2"
    using s1(2-4) seed_cursor_cong [OF s1(3,4), of task now] by (simp_all add: s2_def seed_cursor_fields cursor_of_def base_def)
  have tt: "(s', w') = (case computeJitteredNext ev task e base of
      None \<Rightarrow> (s2, w)
    | Some nextFireAt \<Rightarrow> if real_of_int now < nextFireAt then (s2, w) else fire_task ev (log_callbacks returns) now task e base (s2, w))"
    using t idle s1(1) s2(2) by (auto simp: tick_task_def s2_def Let_def cursor_of_def split: option.splits)
  show thesis
  proof (cases "computeNextCronRun (off, []) e base")
    case None
    then show thesis
      using tt s2 d(1) by (intro quiet) (simp_all add: computeJitteredNext_def)
  next
    case (Some first)
    show thesis
    proof (cases "jittered ev task e first \<le> real_of_int now")
      case False
      then show thesis
        using tt s2 d(1) Some by (intro quiet) (simp_all add: computeJitteredNext_def)
    next
      case due: True
      then have f: "fire_task ev (log_callbacks returns) now task e base (s2, w) = (s', w')"
        using tt d(1) Some by (simp add: computeJitteredNext_def not_less)
      obtain n l where nl: "countCoalesced ev task e first now = (n, l)" "base < l" "l \<le> now" "1 \<le> n"
        "n = int (card (slots_between off e base l))"
        "n < MAX_COALESCE_ITERATIONS \<Longrightarrow>
           case computeNextCronRun (off, []) e l of None \<Rightarrow> True | Some u \<Rightarrow> real_of_int now < jittered ev task e u"
        using due_delivery [OF d(3,4,1) Some due] by blast
      show thesis
      proof (cases "returns (cw_attempts w)")
        case True
        have s': "s' = s2\<lparr>cs_inFlight := insert (ct_id task) (cs_inFlight s2),
                    cs_lastSeenAt := jm_set (cs_lastSeenAt s2) (ct_id task) l\<rparr>"
          and w': "cw_log w' = cw_log w @ [(ct_id task, n)]"
          using f True Some nl(1,4) d(1,3) by (auto simp: fire_task_def log_callbacks_def Let_def max_def)
        have "ct_createdAt task < l"
          using nl(2) cursor_from_creation [of task "seed_cursor task now s"] by (simp add: base_def)
        then have "cursor_of task s' = l"
          by (simp add: s' cursor_of_def jm_get_set baseFromMs_def)
        then show thesis
          using fired [of l n] nl s2 w' by (simp add: s' cache_ok_def)
      next
        case False
        have s': "s' = s2\<lparr>cs_inFlight := insert (ct_id task) (cs_inFlight s2)\<rparr>" and w': "cw_log w' = cw_log w"
          using f False Some nl(1) d(1,3) by (auto simp: fire_task_def log_callbacks_def Let_def)
        show thesis
          using thrown False s2 w' by (simp add: s' cache_ok_def cursor_of_def)
      qed
    qed
  qed
qed

section \<open>Every slot once\<close>

text \<open>A tick may see any other tasks, but under this task's id only its record, whatever stamp it carries: the
  manager stamps the record with the cursor after every delivery.\<close>

definition same_task :: "CronTask \<Rightarrow> CronTask \<Rightarrow> bool" where
  "same_task task t \<longleftrightarrow> (\<exists>l. t = task\<lparr>ct_lastFiredAt := l\<rparr>)"

definition shows_task :: "CronTask \<Rightarrow> tick_input \<Rightarrow> bool" where
  "shows_task task i \<longleftrightarrow> (\<forall>t \<in> set (ti_tasks i). ct_id t = ct_id task \<longrightarrow> same_task task t)"

lemma same_task_fields:
  assumes "same_task task t"
  shows "ct_id t = ct_id task" "ct_createdAt t = ct_createdAt task" "recurring_in ev off t e = recurring_in ev off task e"
    "cursor_of t = cursor_of task" "baseFromMs t = baseFromMs task"
  using assms by (auto simp: same_task_def recurring_in_def cursor_of_def baseFromMs_def fun_eq_iff split: option.splits)

text \<open>The base of the first tick that processes the task: its creation, or the stamp of its record if that is later
  and not in the future.\<close>

fun origin :: "CronTask \<Rightarrow> tick_input list \<Rightarrow> int" where
  "origin task [] = ct_createdAt task"
| "origin task (i # is) =
     (if ti_killed i \<or> \<not> ti_idle i then origin task is
      else (case find (\<lambda>t. ct_id t = ct_id task) (ti_tasks i) of
              None \<Rightarrow> origin task is
            | Some t \<Rightarrow> baseFromMs task (stamp_at t (ti_now i))))"

text \<open>Before that tick, and from it on.\<close>

definition untouched :: "CronTask \<Rightarrow> scheduler \<times> cron_world \<Rightarrow> bool" where
  "untouched task sw \<longleftrightarrow> cache_ok (fst sw) \<and> ct_id task \<notin> cs_seededFromDisk (fst sw)
     \<and> jm_get (cs_lastSeenAt (fst sw)) (ct_id task) = None \<and> ct_id task \<notin> cs_inFlight (fst sw)
     \<and> delivered (ct_id task) (cw_log (snd sw)) = 0"

definition ledger_ok :: "CronTask \<Rightarrow> ParsedCronExpression \<Rightarrow> int \<Rightarrow> int \<Rightarrow> scheduler \<times> cron_world \<Rightarrow> bool" where
  "ledger_ok task e off a sw \<longleftrightarrow>
     cache_ok (fst sw) \<and> ct_id task \<in> cs_seededFromDisk (fst sw) \<and> a \<le> cursor_of task (fst sw) \<and>
     delivered (ct_id task) (cw_log (snd sw)) = int (card (slots_between off e a (cursor_of task (fst sw))))"

lemma ledger_tick_self:
  assumes rec: "recurring_in ev off task e" and l: "ledger_ok task e off a sw" and t: "same_task task t"
  shows "ledger_ok task e off a (tick_task ev (log_callbacks returns) now t sw)"
proof -
  obtain s w where sw: "sw = (s, w)" by force
  obtain s' w' where tt: "tick_task ev (log_callbacks returns) now t (s, w) = (s', w')" by force
  note f = same_task_fields [OF t]
  have c: "cache_ok s" and base: "cursor_of t (seed_cursor t now s) = cursor_of task s"
    using l f by (simp_all add: ledger_ok_def sw cursor_of_def seed_cursor_fields)
  show ?thesis
  proof (cases "ct_id t \<in> cs_inFlight s")
    case True
    then show ?thesis using l sw by (simp add: tick_task_def)
  next
    case False
    show ?thesis
      using rec [folded f(3)] c False tt
    proof (cases rule: tick_task_cases)
      case quiet
      then show ?thesis using l base f by (simp add: sw tt ledger_ok_def)
    next
      case thrown
      then show ?thesis using l base f by (simp add: sw tt ledger_ok_def)
    next
      case (fired n m)
      then show ?thesis
        using l base f slots_split [of a "cursor_of task s" m off e]
        by (simp add: sw tt ledger_ok_def delivered_snoc)
    qed
  qed
qed

lemma ledger_ticks:
  assumes "recurring_in ev off task e"
  shows "ledger_ok task e off a sw \<Longrightarrow> \<forall>t \<in> set tasks. ct_id t = ct_id task \<longrightarrow> same_task task t \<Longrightarrow>
    ledger_ok task e off a (fold (tick_task ev (log_callbacks returns) now) tasks sw)"
proof (induction tasks arbitrary: sw)
  case (Cons t ts)
  have "ledger_ok task e off a (tick_task ev (log_callbacks returns) now t sw)"
  proof (cases "ct_id t = ct_id task")
    case True
    then show ?thesis using Cons.prems ledger_tick_self [OF assms] by simp
  next
    case False
    then show ?thesis
      using Cons.prems tick_other [OF False, of sw ev returns now] by (simp add: ledger_ok_def undisturbed_def cursor_of_def)
  qed
  then show ?case using Cons.IH Cons.prems by simp
qed simp

text \<open>The first processing takes over the stamp of the record and opens the ledger.\<close>

lemma ledger_opens:
  assumes rec: "recurring_in ev off task e" and u: "untouched task sw" and t: "same_task task t"
  shows "ledger_ok task e off (baseFromMs task (stamp_at t now)) (tick_task ev (log_callbacks returns) now t sw)"
proof -
  obtain s w where sw: "sw = (s, w)" by force
  obtain s' w' where tt: "tick_task ev (log_callbacks returns) now t (s, w) = (s', w')" by force
  note f = same_task_fields [OF t]
  have c: "cache_ok s" "ct_id t \<notin> cs_inFlight s" "delivered (ct_id task) (cw_log w) = 0"
    and base: "cursor_of t (seed_cursor t now s) = baseFromMs task (stamp_at t now)"
    using u f seed_cursor_fields(7) [of t s now] by (simp_all add: untouched_def sw cursor_of_def)
  show ?thesis
    using rec [folded f(3)] c(1,2) tt
  proof (cases rule: tick_task_cases)
    case quiet
    then show ?thesis using base f c by (simp add: sw tt ledger_ok_def)
  next
    case thrown
    then show ?thesis using base f c by (simp add: sw tt ledger_ok_def)
  next
    case (fired n m)
    then show ?thesis using base f c by (simp add: sw tt ledger_ok_def delivered_snoc)
  qed
qed

interpretation cron_ledger: guarded_machine "tick_step ev returns"
  "\<lambda>sw. recurring_in ev off task e \<longrightarrow> ledger_ok task e off a sw" "shows_task task"
proof
  fix sw i
  assume ok: "recurring_in ev off task e \<longrightarrow> ledger_ok task e off a sw" and i: "shows_task task i"
  show "recurring_in ev off task e \<longrightarrow> ledger_ok task e off a (tick_step ev returns sw i)"
  proof
    assume f: "recurring_in ev off task e"
    let ?r = "fold (tick_task ev (log_callbacks returns) (ti_now i)) (ti_tasks i) sw"
    have "ledger_ok task e off a ?r"
      by (rule ledger_ticks [OF f]) (use ok f i in \<open>auto simp: shows_task_def\<close>)
    then show "ledger_ok task e off a (tick_step ev returns sw i)"
      using ok f by (auto simp: tick_step_def tick_def ledger_ok_def cache_ok_def cursor_of_def split: prod.splits)
  qed
qed

text \<open>One tick on an untouched task: it stays untouched, or the ledger is opened.\<close>

lemma first_tick:
  assumes rec: "recurring_in ev off task e" and u: "untouched task sw" and i: "shows_task task i"
  shows "if ti_killed i \<or> \<not> ti_idle i then untouched task (tick_step ev returns sw i)
    else (case find (\<lambda>t. ct_id t = ct_id task) (ti_tasks i) of
            None \<Rightarrow> untouched task (tick_step ev returns sw i)
          | Some t \<Rightarrow> ledger_ok task e off (baseFromMs task (stamp_at t (ti_now i))) (tick_step ev returns sw i))"
proof (cases "ti_killed i \<or> \<not> ti_idle i")
  case True
  then show ?thesis using u by (auto simp: tick_step_def tick_def)
next
  case on: False
  let ?t = "tick_task ev (log_callbacks returns) (ti_now i)"
  have step: "tick_step ev returns sw i = (let (s, w) = fold ?t (ti_tasks i) sw in
      if ti_tasks i = [] then sw else (s\<lparr>cs_inFlight := {}\<rparr>, w))"
    using on by (auto simp: tick_step_def tick_def split: prod.split)
  have c: "cache_ok (fst sw)" using u by (simp add: untouched_def)
  show ?thesis
  proof (cases "find (\<lambda>t. ct_id t = ct_id task) (ti_tasks i)")
    case None
    then have "\<forall>t \<in> set (ti_tasks i). ct_id t \<noteq> ct_id task" by (auto simp: find_None_iff)
    then have "undisturbed (ct_id task) sw (fold ?t (ti_tasks i) sw)" using c by (rule ticks_other)
    then show ?thesis
      using on None u by (auto simp: step untouched_def undisturbed_def cache_ok_def split: prod.splits)
  next
    case (Some t)
    then obtain k where k: "k < length (ti_tasks i)" "ct_id (ti_tasks i ! k) = ct_id task" "t = ti_tasks i ! k"
      "\<And>j. j < k \<Longrightarrow> ct_id (ti_tasks i ! j) \<noteq> ct_id task"
      by (auto simp: find_Some_iff)
    define xs where "xs = take k (ti_tasks i)"
    define ys where "ys = drop (Suc k) (ti_tasks i)"
    have xy: "ti_tasks i = xs @ t # ys" using id_take_nth_drop [OF k(1)] k(3) by (simp add: xs_def ys_def)
    have others: "\<forall>x \<in> set xs. ct_id x \<noteq> ct_id task"
      using k(1,4) by (auto simp: xs_def in_set_conv_nth)
    have same: "same_task task t" "\<forall>y \<in> set ys. ct_id y = ct_id task \<longrightarrow> same_task task y"
      using i k(1,2) set_drop_subset [of "Suc k" "ti_tasks i"] by (auto simp: shows_task_def k(3) ys_def)
    have "undisturbed (ct_id task) sw (fold ?t xs sw)" by (rule ticks_other [OF others c])
    then have "untouched task (fold ?t xs sw)" using u by (simp add: untouched_def undisturbed_def)
    from ledger_opens [OF rec this same(1)]
    have "ledger_ok task e off (baseFromMs task (stamp_at t (ti_now i))) (fold ?t ys (?t t (fold ?t xs sw)))"
      by (rule ledger_ticks [OF rec]) (rule same(2))
    then show ?thesis
      using on Some by (auto simp: step xy ledger_ok_def cache_ok_def cursor_of_def split: prod.splits)
  qed
qed

lemma ledger_run:
  assumes rec: "recurring_in ev off task e"
  shows "untouched task sw \<Longrightarrow> list_all (shows_task task) inputs \<Longrightarrow>
    untouched task (run_ops (tick_step ev returns) sw inputs) \<and> origin task inputs = ct_createdAt task
    \<or> ledger_ok task e off (origin task inputs) (run_ops (tick_step ev returns) sw inputs)"
proof (induction inputs arbitrary: sw)
  case (Cons i "is")
  have i: "shows_task task i" "list_all (shows_task task) is" using Cons.prems(2) by simp_all
  note first = first_tick [OF rec Cons.prems(1) i(1), of returns]
  show ?case
  proof (cases "ti_killed i \<or> \<not> ti_idle i \<or> find (\<lambda>t. ct_id t = ct_id task) (ti_tasks i) = None")
    case True
    then have "untouched task (tick_step ev returns sw i)" "origin task (i # is) = origin task is"
      using first by (auto split: if_splits)
    then show ?thesis using Cons.IH [OF _ i(2)] by simp
  next
    case False
    then obtain t where t: "find (\<lambda>t. ct_id t = ct_id task) (ti_tasks i) = Some t" by auto
    then have "ledger_ok task e off (origin task (i # is)) (tick_step ev returns sw i)"
      using first False by simp
    then show ?thesis
      using cron_ledger.guarded_run_ok [OF _ i(2), of ev off e _ "tick_step ev returns sw i" returns] rec by simp
  qed
qed simp

text \<open>
  C23: In a zone with a fixed offset, over any sequence of ticks of a scheduler from its start, with any other
  tasks around, with ticks while busy or killed and with deliveries that throw, the counts delivered for a recurring
  task add up to the number of its slots from its origin up to its cursor: every slot is reported exactly once. The
  record listed under the task's id has a valid expression and is the same at every tick except for its stamp, which may
  change at will (the manager sets it after each delivery). The origin is the base of the first tick that
  processes the task: its creation, or the stamp its record carries there, if that is later and not in
  the future.
\<close>

theorem cron_every_slot_once:
  assumes "ev_zone ev = (off, [])" "parseCronExpression (ct_cron task) = Inr e" "\<not> one_shot task"
    and "list_all (shows_task task) inputs"
    and "run_ops (tick_step ev returns) new_run inputs = (s, w)"
  shows "delivered (ct_id task) (cw_log w)
       = int (card {u. origin task inputs < u \<and> u \<le> cursor_of task s \<and> cron_slot (off, []) e u})"
proof -
  have rec: "recurring_in ev off task e" using assms(1-3) by (simp add: recurring_in_def)
  have "untouched task new_run"
    using new_run_cache by (simp add: untouched_def new_run_def createCronScheduler_def jm_get_def)
  from ledger_run [OF rec this assms(4), of returns] assms(5)
  consider "untouched task (s, w)" "origin task inputs = ct_createdAt task" | "ledger_ok task e off (origin task inputs) (s, w)"
    by auto
  then have "delivered (ct_id task) (cw_log w) = int (card (slots_between off e (origin task inputs) (cursor_of task s)))"
    by cases (simp_all add: untouched_def ledger_ok_def cursor_of_def baseFromMs_def)
  then show ?thesis by (simp add: slots_between_def)
qed

section \<open>Nothing due is left behind\<close>

lemma nothing_due_after:
  assumes rec: "recurring_in ev off task e"
    and first: "case computeNextCronRun (off, []) e l of None \<Rightarrow> True | Some t \<Rightarrow> real_of_int now < jittered ev task e t"
    and u: "l < u" "u \<le> l + 1830 * msPerDay" "cron_slot (off, []) e u"
  shows "real_of_int now < jittered ev task e u"
proof -
  note d = recurring_inD [OF rec]
  have reach: "\<exists>t. computeNextCronRun (off, []) e a = Some t \<and> t \<le> u" if "l \<le> a" "a < u" for a
  proof (cases "computeNextCronRun (off, []) e a")
    case None
    then show ?thesis
      using next_run_first_slot [OF d(4), of off a] u that by (auto simp: first_slot_def dest: spec [of _ u])
  next
    case (Some t)
    then have "\<not> u < t" using next_run_SomeD(3) [OF d(4) Some that(2)] u(3) by blast
    then show ?thesis using Some by auto
  qed
  obtain t where t: "computeNextCronRun (off, []) e l = Some t" "t \<le> u" using reach [of l] u(1) by auto
  have due: "real_of_int now < jittered ev task e t" using first t(1) by simp
  show ?thesis
  proof (cases "t = u")
    case False
    have "l \<le> t" using next_run_SomeD(1) [OF d(4) t(1)] by simp
    then obtain n where n: "computeNextCronRun (off, []) e t = Some n" "n \<le> u"
      using reach [of t] t(2) False by auto
    have "jittered ev task e t < real_of_int n"
      using recurring_jitter_bounds(3) [OF d(3), of ev e t] n(1) d(1) next_run_SomeD(1) [OF d(4) n(1)]
      by (simp add: period_after_def)
    also have "\<dots> \<le> jittered ev task e u"
      using recurring_jitter_bounds(1) [OF d(3), of u ev e] n(2) by linarith
    finally show ?thesis using due by simp
  qed (use due in simp)
qed

interpretation cron_flights: op_machine "tick_step ev returns" "\<lambda>sw. cs_inFlight (fst sw) = {}"
  by unfold_locales (auto simp: tick_step_def tick_def split: prod.splits)

text \<open>
  C24: In a zone with a fixed offset, a tick leaves nothing behind: after any run of ticks, and one more idle
  tick whose list has distinct ids and holds a recurring task with a valid expression, every slot of the task whose
  delivery time has come is covered by its cursor, unless the tick reported the maximal count of runs. All
  deliveries from this tick on are taken to return (a delivery that throws leaves the cursor where it was). Slots
  further ahead of the cursor than the 1830 days the search looks ahead are out of reach.
\<close>

theorem tick_leaves_nothing_due:
  assumes "ev_zone ev = (off, [])" "parseCronExpression (ct_cron task) = Inr e" "\<not> one_shot task"
    and "run_ops (tick_step ev returns) new_run inputs = (s, w)" "\<And>k. cw_attempts w \<le> k \<Longrightarrow> returns k"
    and i: "\<not> ti_killed i" "ti_idle i" "task \<in> set (ti_tasks i)" "distinct (map ct_id (ti_tasks i))"
    and step: "tick_step ev returns (s, w) i = (s', w')"
    and u: "cron_slot (off, []) e u" "jittered ev task e u \<le> real_of_int (ti_now i)"
      "u \<le> cursor_of task s' + 1830 * msPerDay"
  shows "u \<le> cursor_of task s' \<or>
    delivered (ct_id task) (cw_log w') \<ge> delivered (ct_id task) (cw_log w) + MAX_COALESCE_ITERATIONS"
proof -
  let ?t = "tick_task ev (log_callbacks returns) (ti_now i)"
  have rec: "recurring_in ev off task e" using assms(1-3) by (simp add: recurring_in_def)
  have c: "cache_ok s"
    using cron_cache.run_ok [OF new_run_cache, of ev returns inputs] assms(4) by simp
  have idle: "cs_inFlight s = {}"
    using cron_flights.run_ok [of new_run ev returns inputs] assms(4) by (simp add: new_run_def createCronScheduler_def)
  obtain xs ys where xy: "ti_tasks i = xs @ task # ys" using i(3) by (auto simp: in_set_conv_decomp)
  have others: "\<forall>t \<in> set xs. ct_id t \<noteq> ct_id task" "\<forall>t \<in> set ys. ct_id t \<noteq> ct_id task"
    using i(4) by (auto simp: xy image_iff)
  obtain s1 w1 where 1: "fold ?t xs (s, w) = (s1, w1)" by force
  obtain s2 w2 where 2: "?t task (s1, w1) = (s2, w2)" by force
  obtain s3 w3 where 3: "fold ?t ys (s2, w2) = (s3, w3)" by force
  have u1: "undisturbed (ct_id task) (s, w) (s1, w1)"
    using ticks_other [OF others(1), of "(s, w)" ev returns "ti_now i"] c 1 by simp
  have fin: "s' = s3\<lparr>cs_inFlight := {}\<rparr>" "w' = w3"
    using step i(1,2) 1 2 3 xy by (auto simp: tick_step_def tick_def)
  have c1: "cache_ok s1" "ct_id task \<notin> cs_inFlight s1" using u1 idle by (simp_all add: undisturbed_def)
  have kept: "undisturbed (ct_id task) (s2, w2) (s3, w3)" if "cache_ok s2"
    using ticks_other [OF others(2), of "(s2, w2)" ev returns "ti_now i"] that 3 by simp
  show ?thesis
    using rec c1 2
  proof (cases rule: tick_task_cases)
    case quiet
    then have "cursor_of task s' = cursor_of task (seed_cursor task (ti_now i) s1)"
      using kept fin by (simp add: undisturbed_def cursor_of_def)
    then show ?thesis
      using nothing_due_after [OF rec quiet(5), of u] u by linarith
  next
    case thrown
    then show ?thesis using assms(5) u1 by (simp add: undisturbed_def)
  next
    case (fired n l)
    then have m: "cursor_of task s' = l" "delivered (ct_id task) (cw_log w') = delivered (ct_id task) (cw_log w) + n"
      using kept fin u1 by (auto simp: undisturbed_def cursor_of_def delivered_snoc)
    show ?thesis
      using nothing_due_after [OF rec fired(9), of u] u m by (cases "n < MAX_COALESCE_ITERATIONS") force+
  qed
qed

section \<open>An example run\<close>

definition minutely :: ParsedCronExpression where
  "minutely = \<lparr>ce_raw = ''* * * * *'', ce_minutes = [0..59], ce_hours = [0..23], ce_daysOfMonth = [1..31],
     ce_months = [1..12], ce_daysOfWeek = [0..6], ce_daysOfMonthWildcard = True, ce_daysOfWeekWildcard = True\<rparr>"

lemma parse_minutely: "parseCronExpression ''* * * * *'' = Inr minutely"
  by code_simp

lemma minutely_next:
  "computeNextCronRun (3600000, []) minutely 0 = Some 60000"
  "computeNextCronRun (3600000, []) minutely 60000 = Some 120000"
  "computeNextCronRun (3600000, []) minutely 120000 = Some 180000"
  unfolding computeNextCronRun_def nextRunWithinMinutes_def
  by (simp add: date_eval minutely_def, subst next_loop.simps, simp add: date_eval split del: if_split)+

definition minute_task :: CronTask where
  "minute_task = \<lparr>ct_id = ''0000000a'', ct_cron = ''* * * * *'', ct_prompt = ''poll'', ct_createdAt = 0,
     ct_recurring = None, ct_lastFiredAt = None, ct_durable = None\<rparr>"

definition plain_env :: cron_env where
  "plain_env = \<lparr>ev_zone = (3600000, []), ev_noJitter = True\<rparr>"

definition late_tick :: tick_input where
  "late_tick = \<lparr>ti_killed = False, ti_idle = True, ti_now = 130000, ti_tasks = [minute_task]\<rparr>"

lemma minute_task_facts:
  "ct_id minute_task = ''0000000a''" "ct_createdAt minute_task = 0" "ct_cron minute_task = ''* * * * *''"
  "ct_lastFiredAt minute_task = None" "ct_recurring minute_task = None" "ct_durable minute_task = None" "ct_prompt minute_task = ''poll''" "ev_zone plain_env = (3600000, [])"
  "shows_task minute_task late_tick" "ti_tasks late_tick = [minute_task]" "ti_now late_tick = 130000"
  "\<not> ti_killed late_tick" "ti_idle late_tick" "jittered plain_env minute_task e t = real_of_int t"
  by (simp_all add: minute_task_def plain_env_def shows_task_def same_task_def late_tick_def jittered_def jitteredNextCronRunMs_def)

lemma minute_countCoalesced: "countCoalesced plain_env minute_task minutely 60000 130000 = (2, 120000)"
proof -
  have "coalesce_loop plain_env minute_task minutely 130000 2 120000 = (2, 120000)"
    by (subst coalesce_loop.simps) (simp add: minute_task_facts minutely_next MAX_COALESCE_ITERATIONS_def)
  then show ?thesis
    unfolding countCoalesced_def
    by (subst coalesce_loop.simps) (simp add: minute_task_facts minutely_next MAX_COALESCE_ITERATIONS_def)
qed

lemma late_step:
  "tick_step plain_env (\<lambda>_. True) new_run late_tick =
     (\<lparr>cs_parsedCache = [(''* * * * *'', minutely)], cs_lastSeenAt = [(''0000000a'', 120000)],
       cs_seededFromDisk = {''0000000a''}, cs_inFlight = {}\<rparr>, \<lparr>cw_attempts = 1, cw_log = [(''0000000a'', 2)]\<rparr>)"
  by (simp add: tick_step_def tick_def minute_task_facts new_run_def createCronScheduler_def tick_task_def getParsed_def
      seed_cursor_def parse_minutely jm_get_def baseFromMs_def computeJitteredNext_def fire_task_def minutely_next
      minute_countCoalesced log_callbacks_def)

theorem cron_every_slot_once_witness:
  "delivered (ct_id minute_task) (cw_log (snd (run_ops (tick_step plain_env (\<lambda>_. True)) new_run [late_tick])))
     = int (card {u. 0 < u \<and> u \<le> 120000 \<and> cron_slot (3600000, []) minutely u})"
proof -
  let ?r = "tick_step plain_env (\<lambda>_. True) new_run late_tick"
  have "run_ops (tick_step plain_env (\<lambda>_. True)) new_run [late_tick] = (fst ?r, snd ?r)"
    by simp
  moreover have "cursor_of minute_task (fst ?r) = 120000" "origin minute_task [late_tick] = 0"
    by (simp_all add: late_step cursor_of_def baseFromMs_def jm_get_def minute_task_facts stamp_at_def)
  ultimately show ?thesis
    using cron_every_slot_once [of plain_env 3600000 minute_task minutely "[late_tick]" "\<lambda>_. True" "fst ?r" "snd ?r"]
    by (simp add: minute_task_facts parse_minutely)
qed

theorem tick_leaves_nothing_due_witness:
  "120000 \<le> cursor_of minute_task (fst (tick_step plain_env (\<lambda>_. True) new_run late_tick))
   \<or> delivered (ct_id minute_task) (cw_log (snd (tick_step plain_env (\<lambda>_. True) new_run late_tick))) \<ge> MAX_COALESCE_ITERATIONS"
proof -
  let ?r = "tick_step plain_env (\<lambda>_. True) new_run late_tick"
  have "cursor_of minute_task (fst ?r) = 120000"
    by (simp add: late_step cursor_of_def baseFromMs_def jm_get_def minute_task_facts)
  moreover have "cron_slot (3600000, []) minutely 120000"
    by (rule next_run_SomeD(2) [OF parsed_wildcards [OF parse_minutely] minutely_next(2)])
  ultimately show ?thesis
    using tick_leaves_nothing_due [of plain_env 3600000 minute_task minutely "\<lambda>_. True" "[]" "fst new_run" "snd new_run"
        late_tick "fst ?r" "snd ?r" 120000]
    by (simp add: minute_task_facts parse_minutely new_run_def msPerDay_def)
qed

section \<open>A run that is its own successor\<close>

text \<open>A walk of the search through minutes that fail only the last test.\<close>

lemma minute_walk:
  assumes "\<And>k. k < n \<Longrightarrow> getMonth z (d + int k * 60000) + 1 \<in> set (ce_months e) \<and> dayMatches z e (d + int k * 60000)
      \<and> getHours z (d + int k * 60000) \<in> set (ce_hours e) \<and> getMinutes z (d + int k * 60000) \<notin> set (ce_minutes e)
      \<and> advanceMinute z (d + int k * 60000) = d + int (Suc k) * 60000"
    and "d + int n * 60000 \<le> deadline" "i + n < HARD_ITERATION_CAP"
  shows "next_loop z e deadline d i = next_loop z e deadline (d + int n * 60000) (i + n)"
  using assms
proof (induction n)
  case (Suc n)
  have "next_loop z e deadline d i = next_loop z e deadline (d + int n * 60000) (i + n)"
    by (rule Suc.IH) (use Suc.prems in auto)
  also have "\<dots> = next_loop z e deadline (d + int (Suc n) * 60000) (i + Suc n)"
    using Suc.prems(1) [of n] Suc.prems(2,3) by (subst next_loop.simps) auto
  finally show ?case .
qed simp

definition daily_259 :: ParsedCronExpression where
  "daily_259 = \<lparr>ce_raw = ''59 2 * * *'', ce_minutes = [59], ce_hours = [2], ce_daysOfMonth = [1..31],
     ce_months = [1..12], ce_daysOfWeek = [0..6], ce_daysOfMonthWildcard = True, ce_daysOfWeekWildcard = True\<rparr>"

lemma parse_daily_259: "parseCronExpression ''59 2 * * *'' = Inr daily_259"
  by code_simp

text \<open>The minutes of the first pass from 02:01 on.\<close>

lemma first_pass:
  assumes "k < (59 :: nat)"
  shows "LocalTime autumn_zone (1729987260000 + int k * 60000) = 1729994460000 + int k * 60000"
    "UTC autumn_zone (1729994460000 + int k * 60000) = 1729987260000 + int k * 60000"
    "Day (1729994460000 + int k * 60000) = 20023"
    "HourFromTime (1729994460000 + int k * 60000) = 2"
    "MinFromTime (1729994460000 + int k * 60000) = 1 + int k"
    "60000 dvd 1729994460000 + int k * 60000"
proof -
  have k: "int k < 59" using assms by simp
  show "LocalTime autumn_zone (1729987260000 + int k * 60000) = 1729994460000 + int k * 60000"
    "UTC autumn_zone (1729994460000 + int k * 60000) = 1729987260000 + int k * 60000"
    using k by (simp_all add: autumn_zone_def LocalTime_def UTC_def)
  have h: "(1729994460000 + int k * 60000) div 3600000 = 480554"
    by (rule int_div_pos_eq [where r = "60000 + int k * 60000"]) (use k in simp_all)
  have m: "(1729994460000 + int k * 60000) div 60000 = 28833241 + int k"
    by simp
  show "Day (1729994460000 + int k * 60000) = 20023" "HourFromTime (1729994460000 + int k * 60000) = 2"
    by (simp_all add: Day_hours HourFromTime_eq h)
  have "(28833241 + int k) mod 60 = 1 + int k"
    by (rule int_mod_pos_eq [where q = 480554]) (use k in simp_all)
  then show "MinFromTime (1729994460000 + int k * 60000) = 1 + int k"
    by (simp add: MinFromTime_eq m)
  show "60000 dvd 1729994460000 + int k * 60000" by simp
qed

lemma first_pass_tests:
  assumes "k < 59"
  defines "t \<equiv> 1729987260000 + int k * 60000"
  shows "getMonth autumn_zone t + 1 \<in> set (ce_months daily_259)" "dayMatches autumn_zone daily_259 t"
    "getHours autumn_zone t \<in> set (ce_hours daily_259)" "getMinutes autumn_zone t = 1 + int k"
    "k < 58 \<Longrightarrow> advanceMinute autumn_zone t = 1729987260000 + int (Suc k) * 60000"
proof -
  let ?l = "1729994460000 + int k * 60000"
  note f = first_pass [OF assms(1)]
  have "0 \<le> MonthFromDay 20023 \<and> MonthFromDay 20023 < 12"
    using month_index_bounds(1,2) by simp
  then show "getMonth autumn_zone t + 1 \<in> set (ce_months daily_259)"
    by (auto simp: getMonth_def t_def f daily_259_def)
  show "dayMatches autumn_zone daily_259 t" by (simp add: dayMatches_def daily_259_def)
  show "getHours autumn_zone t \<in> set (ce_hours daily_259)" by (simp add: getHours_def t_def f daily_259_def)
  show "getMinutes autumn_zone t = 1 + int k" by (simp add: getMinutes_def t_def f)
  show "advanceMinute autumn_zone t = 1729987260000 + int (Suc k) * 60000" if "k < 58"
  proof -
    have d: "MakeDate (Day ?l) (MakeTime (HourFromTime ?l) (MinFromTime ?l) 0 0) = ?l"
      by (simp add: MakeDate_minute minute_of [OF f(6)])
    have "setSeconds2 autumn_zone t 0 0 = t"
      by (simp only: setSeconds2_def Let_def t_def f(1) d f(2))
    moreover have "MakeDate (Day ?l) (MakeTime (HourFromTime ?l) (MinFromTime ?l + 1) 0 0) = 1729994460000 + int (Suc k) * 60000"
      using d by (simp add: MakeDate_def MakeTime_def)
    moreover have "Suc k < 59" using that by simp
    ultimately show ?thesis
      using first_pass(2) [of "Suc k"]
      by (simp only: advanceMinute_def setMinutes_def getMinutes_def Let_def t_def f(1) on_the_minute [OF f(6)])
  qed
qed

text \<open>At 02:59 of the first pass, the search for the next run finds 02:59 of the first pass.\<close>

lemma own_successor: "computeNextCronRun autumn_zone daily_259 1729990740000 = Some 1729990740000"
proof -
  let ?dl = "1729990740000 + 5 * 366 * 24 * 60 * MS_PER_MINUTE"
  have start: "setSeconds2 autumn_zone 1729990740000 0 0 + MS_PER_MINUTE = 1729990800000"
    by (simp add: setSeconds2_def autumn_zone_def date_eval)
  have again: "next_loop autumn_zone daily_259 ?dl 1729990800000 0 = next_loop autumn_zone daily_259 ?dl 1729987260000 1"
    by (subst next_loop.simps) (simp add: autumn_zone_def daily_259_def date_eval)
  have walk: "next_loop autumn_zone daily_259 ?dl 1729987260000 1
      = next_loop autumn_zone daily_259 ?dl (1729987260000 + int 58 * 60000) (1 + 58)"
  proof (rule minute_walk)
    fix k :: nat assume k: "k < 58"
    then show "getMonth autumn_zone (1729987260000 + int k * 60000) + 1 \<in> set (ce_months daily_259)
        \<and> dayMatches autumn_zone daily_259 (1729987260000 + int k * 60000)
        \<and> getHours autumn_zone (1729987260000 + int k * 60000) \<in> set (ce_hours daily_259)
        \<and> getMinutes autumn_zone (1729987260000 + int k * 60000) \<notin> set (ce_minutes daily_259)
        \<and> advanceMinute autumn_zone (1729987260000 + int k * 60000) = 1729987260000 + int (Suc k) * 60000"
      using first_pass_tests [of k] by (auto simp: daily_259_def)
  qed (simp_all add: MS_PER_MINUTE_def HARD_ITERATION_CAP_def)
  have found: "next_loop autumn_zone daily_259 ?dl 1729990740000 59 = Some 1729990740000"
    using first_pass_tests [of 58]
    by (subst next_loop.simps) (simp add: MS_PER_MINUTE_def HARD_ITERATION_CAP_def daily_259_def)
  show ?thesis
    unfolding computeNextCronRun_def nextRunWithinMinutes_def Let_def start
    using again walk found by simp
qed

lemma first_run: "computeNextCronRun autumn_zone daily_259 1729990680000 = Some 1729990740000"
  unfolding computeNextCronRun_def nextRunWithinMinutes_def
  by (simp add: autumn_zone_def daily_259_def date_eval, subst next_loop.simps, simp add: date_eval split del: if_split)

text \<open>Counting from such a run never ends before the cap.\<close>

lemma coalesce_stuck:
  assumes "computeNextCronRun (ev_zone ev) e a = Some a" "a \<le> nowMs" "jittered ev task e a \<le> real_of_int nowMs"
  shows "n \<le> MAX_COALESCE_ITERATIONS \<Longrightarrow> coalesce_loop ev task e nowMs n a = (MAX_COALESCE_ITERATIONS, a)"
proof (induction "nat (MAX_COALESCE_ITERATIONS - n)" arbitrary: n)
  case 0
  then show ?case by (subst coalesce_loop.simps) simp
next
  case (Suc m)
  then have n: "n < MAX_COALESCE_ITERATIONS" by simp
  then have "coalesce_loop ev task e nowMs (n + 1) a = (MAX_COALESCE_ITERATIONS, a)"
    using Suc.hyps(1) [of "n + 1"] Suc.hyps(2) by simp
  with n show ?case using assms by (subst coalesce_loop.simps) simp
qed

text \<open>A task whose next run is its own successor.\<close>

definition stuck :: "cron_env \<Rightarrow> CronTask \<Rightarrow> ParsedCronExpression \<Rightarrow> int \<Rightarrow> bool" where
  "stuck ev task e a \<longleftrightarrow>
     parseCronExpression (ct_cron task) = Inr e \<and> \<not> one_shot task \<and> ct_lastFiredAt task = None \<and>
     computeNextCronRun (ev_zone ev) e (ct_createdAt task) = Some a \<and> ct_createdAt task < a \<and>
     computeNextCronRun (ev_zone ev) e a = Some a"

definition stuck_ok :: "CronTask \<Rightarrow> int \<Rightarrow> scheduler \<Rightarrow> bool" where
  "stuck_ok task a s \<longleftrightarrow>
     cache_ok s \<and> cs_inFlight s = {} \<and> jm_get (cs_lastSeenAt s) (ct_id task) \<in> {None, Some a}"

definition late_alone :: "CronTask \<Rightarrow> int \<Rightarrow> tick_input \<Rightarrow> bool" where
  "late_alone task a i \<longleftrightarrow> \<not> ti_killed i \<and> ti_idle i \<and> ti_tasks i = [task] \<and> a + 900000 \<le> ti_now i"

lemma stuck_step:
  assumes st: "stuck ev task e a" and s: "stuck_ok task a s" and i: "late_alone task a i"
  obtains s' w' where "tick_step ev (\<lambda>_. True) (s, w) i = (s', w')" "stuck_ok task a s'"
    "cw_log w' = cw_log w @ [(ct_id task, MAX_COALESCE_ITERATIONS)]"
proof -
  note d = st [unfolded stuck_def] and j = i [unfolded late_alone_def]
  obtain s1 where s1: "getParsed s (ct_cron task) = (Inr e, s1)" "cache_ok s1" "cs_lastSeenAt s1 = cs_lastSeenAt s"
    using getParsed_ok [of s "ct_cron task"] d s unfolding stuck_ok_def by (metis sum.distinct(1) sum.inject(2))
  define s2 where "s2 = seed_cursor task (ti_now i) s1"
  define base where "base = baseFromMs task (jm_get (cs_lastSeenAt s2) (ct_id task))"
  have s2: "cache_ok s2" "base \<in> {ct_createdAt task, a}"
    using s1(2,3) d s by (auto simp: s2_def base_def seed_cursor_fields stuck_ok_def baseFromMs_def)
  have nxt: "computeNextCronRun (ev_zone ev) e base = Some a"
    using s2(2) d by auto
  have due: "jittered ev task e a \<le> real_of_int (ti_now i)" "a \<le> ti_now i"
    using recurring_jitter_bounds(2) [of task ev e a] d j by simp_all
  have cc: "countCoalesced ev task e a (ti_now i) = (MAX_COALESCE_ITERATIONS, a)"
    unfolding countCoalesced_def using coalesce_stuck [of ev e a "ti_now i" task 1] d due
    by (simp add: MAX_COALESCE_ITERATIONS_def)
  show thesis
    using s1(1) s2(1) nxt due cc d j s that
    by (simp add: tick_step_def tick_def tick_task_def s2_def [symmetric] base_def [symmetric] computeJitteredNext_def
        fire_task_def log_callbacks_def stuck_ok_def Let_def cache_ok_def jm_get_set MAX_COALESCE_ITERATIONS_def)
qed

lemma stuck_run:
  assumes "stuck ev task e a" "stuck_ok task a s" "list_all (late_alone task a) inputs"
  shows "cw_log (snd (run_ops (tick_step ev (\<lambda>_. True)) (s, w) inputs))
       = cw_log w @ replicate (length inputs) (ct_id task, MAX_COALESCE_ITERATIONS)"
  using assms(2,3)
proof (induction inputs arbitrary: s w)
  case (Cons i rest)
  have i: "late_alone task a i" "list_all (late_alone task a) rest" using Cons.prems(2) by simp_all
  obtain s' w' where "tick_step ev (\<lambda>_. True) (s, w) i = (s', w')" "stuck_ok task a s'"
    "cw_log w' = cw_log w @ [(ct_id task, MAX_COALESCE_ITERATIONS)]"
    by (rule stuck_step [OF assms(1) Cons.prems(1) i(1)])
  then show ?case using Cons.IH i(2) by simp
qed simp

text \<open>
  A daily task at 02:59, created a minute before on the night the clocks go back: its run at 02:59 is its own
  successor. From then on, for ever, every tick delivers it again and reports ten thousand missed runs.
\<close>

theorem autumn_task_never_rests:
  assumes "ev_zone ev = autumn_zone" "ct_cron task = ''59 2 * * *''" "\<not> one_shot task" "ct_lastFiredAt task = None"
    and "ct_createdAt task = 1729990680000"
    and "list_all (\<lambda>i. \<not> ti_killed i \<and> ti_idle i \<and> ti_tasks i = [task] \<and> 1729991640000 \<le> ti_now i) inputs"
  shows "cw_log (snd (run_ops (tick_step ev (\<lambda>_. True)) new_run inputs)) = replicate (length inputs) (ct_id task, 10000)"
proof -
  have "stuck ev task daily_259 1729990740000"
    using assms own_successor first_run by (simp add: stuck_def parse_daily_259)
  moreover have "stuck_ok task 1729990740000 createCronScheduler"
    by (simp add: stuck_ok_def createCronScheduler_def cache_ok_def jm_get_def)
  moreover have "list_all (late_alone task 1729990740000) inputs"
    using assms(6) by (simp add: list_all_iff late_alone_def)
  ultimately show ?thesis
    using stuck_run [of ev task daily_259 1729990740000 createCronScheduler inputs "\<lparr>cw_attempts = 0, cw_log = []\<rparr>"]
    by (simp add: new_run_def MAX_COALESCE_ITERATIONS_def)
qed

theorem autumn_task_never_rests_witness:
  "cw_log (snd (run_ops (tick_step \<lparr>ev_zone = autumn_zone, ev_noJitter = False\<rparr> (\<lambda>_. True)) new_run
     (replicate 3 \<lparr>ti_killed = False, ti_idle = True, ti_now = 1729991640000,
        ti_tasks = [minute_task\<lparr>ct_cron := ''59 2 * * *'', ct_createdAt := 1729990680000\<rparr>]\<rparr>)))
   = replicate 3 (''0000000a'', 10000)"
  using autumn_task_never_rests [of "\<lparr>ev_zone = autumn_zone, ev_noJitter = False\<rparr>"
      "minute_task\<lparr>ct_cron := ''59 2 * * *'', ct_createdAt := 1729990680000\<rparr>"
      "replicate 3 \<lparr>ti_killed = False, ti_idle = True, ti_now = 1729991640000,
        ti_tasks = [minute_task\<lparr>ct_cron := ''59 2 * * *'', ct_createdAt := 1729990680000\<rparr>]\<rparr>"]
  by (simp add: minute_task_facts list_all_iff)

end
