(* ===== verification/Cron_Fire.thy ===== *)
theory Cron_Fire
  imports Cron_Expr
begin

text \<open>
  The texts of the cron layer: the envelope in which a delivery reaches the model,
  \<open>tools/cron/cron-fire-xml.ts\<close>, and timestamps in local time, \<open>tools/cron/time-format.ts\<close>. Both are shown to
  determine what they were made from.
\<close>

section \<open>Envelope\<close>

record cron_origin =
  or_jobId :: string
  or_cron :: string
  or_recurring :: bool
  or_coalescedCount :: int
  or_stale :: bool

definition stringAttr :: "string \<Rightarrow> string \<Rightarrow> string" where
  "stringAttr value fallback =
     (if value = [] then fallback
      else replaceAll (CHR 0x22) ''&quot;'' (replaceAll (CHR ''&'') ''&amp;'' value))"

definition bool_text :: "bool \<Rightarrow> string" where
  "bool_text b = (if b then ''true'' else ''false'')"

definition renderCronFireXml :: "cron_origin \<Rightarrow> string \<Rightarrow> string" where
  "renderCronFireXml origin prompt =
     (let jobId = stringAttr (or_jobId origin) ''unknown'';
          cron = stringAttr (or_cron origin) ''unknown'';
          recurring = bool_text (or_recurring origin);
          coalescedCount = string_of_int (or_coalescedCount origin);
          stale = bool_text (or_stale origin)
      in join [CHR 0x0A]
           [''<cron-fire jobId='' @ [CHR 0x22] @ jobId @ [CHR 0x22] @ '' cron='' @ [CHR 0x22] @ cron @ [CHR 0x22] @
            '' recurring='' @ [CHR 0x22] @ recurring @ [CHR 0x22] @
            '' coalescedCount='' @ [CHR 0x22] @ coalescedCount @ [CHR 0x22] @
            '' stale='' @ [CHR 0x22] @ stale @ [CHR 0x22] @ ''>'',
            ''<prompt>'', prompt, ''</prompt>'', ''</cron-fire>''])"

text \<open>The two replacements together encode one character at a time.\<close>

definition attr_char :: "char \<Rightarrow> string" where
  "attr_char c = (if c = CHR ''&'' then ''&amp;'' else if c = CHR 0x22 then ''&quot;'' else [c])"

abbreviation unquoted :: "char \<Rightarrow> bool" where "unquoted c \<equiv> c \<noteq> CHR 0x22"

lemma stringAttr_chars: "v \<noteq> [] \<Longrightarrow> stringAttr v f = concat (map attr_char v)"
proof -
  have "replaceAll (CHR 0x22) ''&quot;'' (replaceAll (CHR ''&'') ''&amp;'' v) = concat (map attr_char v)"
    by (induction v) (simp_all add: replaceAll_def attr_char_def)
  then show "v \<noteq> [] \<Longrightarrow> ?thesis" by (simp add: stringAttr_def)
qed

lemma attr_unquoted: "list_all unquoted (concat (map attr_char v))"
  by (induction v) (simp_all add: attr_char_def)

lemma attr_inj: "concat (map attr_char v) = concat (map attr_char w) \<Longrightarrow> v = w"
proof (induction v arbitrary: w)
  case Nil
  then show ?case by (cases w) (auto simp: attr_char_def split: if_splits)
next
  case (Cons c v)
  then obtain d w' where w: "w = d # w'" by (cases w) (auto simp: attr_char_def split: if_splits)
  show ?case using Cons w by (auto simp: attr_char_def split: if_splits)
qed

lemma quote_cut:
  "list_all unquoted a \<Longrightarrow> list_all unquoted b \<Longrightarrow> a @ CHR 0x22 # x = b @ CHR 0x22 # y \<longleftrightarrow> a = b \<and> x = y"
  using cut_unique [of unquoted a b "CHR 0x22" "CHR 0x22" x y] by simp

lemma bool_text_unquoted: "list_all unquoted (bool_text b)" "bool_text b = bool_text c \<longleftrightarrow> b = c"
  by (simp_all add: bool_text_def)

lemma string_of_int_unquoted: "0 \<le> n \<Longrightarrow> list_all unquoted (string_of_int n)"
  using digits_of_int [of n] by (auto simp: list_all_iff is_digit_def)

lemma string_of_int_inj: "0 \<le> m \<Longrightarrow> 0 \<le> n \<Longrightarrow> string_of_int m = string_of_int n \<longleftrightarrow> m = n"
  using digits_of_int [of m] digits_of_int [of n] by (metis nat_eq_iff2 int_nat_eq)

text \<open>
  A delivery cannot be forged through the values it carries: whatever characters the expression and the prompt
  contain, two envelopes are the same text only if origin and prompt are the same.
\<close>

theorem fire_text_determines_delivery:
  assumes "or_jobId o1 \<noteq> []" "or_cron o1 \<noteq> []" "0 \<le> or_coalescedCount o1"
    and "or_jobId o2 \<noteq> []" "or_cron o2 \<noteq> []" "0 \<le> or_coalescedCount o2"
  shows "renderCronFireXml o1 p1 = renderCronFireXml o2 p2 \<longleftrightarrow> o1 = o2 \<and> p1 = p2"
proof
  assume "renderCronFireXml o1 p1 = renderCronFireXml o2 p2"
  then have "concat (map attr_char (or_jobId o1)) = concat (map attr_char (or_jobId o2)) \<and>
      concat (map attr_char (or_cron o1)) = concat (map attr_char (or_cron o2)) \<and>
      or_recurring o1 = or_recurring o2 \<and> or_coalescedCount o1 = or_coalescedCount o2 \<and> or_stale o1 = or_stale o2 \<and> p1 = p2"
    using assms
    by (simp add: renderCronFireXml_def stringAttr_chars quote_cut attr_unquoted bool_text_unquoted string_of_int_unquoted
        string_of_int_inj)
  then show "o1 = o2 \<and> p1 = p2" using attr_inj by (auto intro!: cron_origin.equality)
qed simp

theorem fire_text_determines_delivery_witness:
  "renderCronFireXml \<lparr>or_jobId = ''0a'', or_cron = ''&'', or_recurring = True, or_coalescedCount = 1, or_stale = False\<rparr> ''poll''
   \<noteq> renderCronFireXml \<lparr>or_jobId = ''0a'', or_cron = ''&amp;'', or_recurring = True, or_coalescedCount = 1, or_stale = False\<rparr> ''poll''"
  using fire_text_determines_delivery
    [of "\<lparr>or_jobId = ''0a'', or_cron = ''&'', or_recurring = True, or_coalescedCount = 1, or_stale = False\<rparr>"
      "\<lparr>or_jobId = ''0a'', or_cron = ''&amp;'', or_recurring = True, or_coalescedCount = 1, or_stale = False\<rparr>" "''poll''" "''poll''"]
  by simp

section \<open>Timestamps\<close>

text \<open>The remaining getters of a date; the offset of the zone is a whole number of minutes.\<close>

definition getFullYear :: "zone \<Rightarrow> int \<Rightarrow> int" where "getFullYear z t = YearFromDay (Day (LocalTime z t))"
definition getSeconds :: "zone \<Rightarrow> int \<Rightarrow> int" where "getSeconds z t = SecFromTime (LocalTime z t)"
definition getMilliseconds :: "zone \<Rightarrow> int \<Rightarrow> int" where "getMilliseconds z t = msFromTime (LocalTime z t)"
definition getTimezoneOffset :: "zone \<Rightarrow> int \<Rightarrow> int" where "getTimezoneOffset z t = (t - LocalTime z t) div 60000"

definition padStart :: "nat \<Rightarrow> char \<Rightarrow> string \<Rightarrow> string" where
  "padStart n c s = replicate (n - length s) c @ s"

definition time_pad :: "int \<Rightarrow> string" where
  "time_pad n = padStart 2 (CHR ''0'') (string_of_int n)"

definition formatLocalIsoWithOffset :: "zone \<Rightarrow> int \<Rightarrow> string" where
  "formatLocalIsoWithOffset z ms =
     (let offsetMin = - getTimezoneOffset z ms;
          sign = (if offsetMin \<ge> 0 then ''+'' else ''-'');
          absOffset = \<bar>offsetMin\<bar>;
          offset = sign @ time_pad (absOffset div 60) @ '':'' @ time_pad (absOffset mod 60)
      in string_of_int (getFullYear z ms) @ ''-'' @ time_pad (getMonth z ms + 1) @ ''-'' @ time_pad (getDate z ms) @ ''T'' @
         time_pad (getHours z ms) @ '':'' @ time_pad (getMinutes z ms) @ '':'' @ time_pad (getSeconds z ms) @ ''.'' @
         padStart 3 (CHR ''0'') (string_of_int (getMilliseconds z ms)) @ offset)"

lemma padded_digits:
  assumes "0 \<le> n"
  shows "list_all is_digit (padStart k (CHR ''0'') (string_of_int n))"
    "digits_value (padStart k (CHR ''0'') (string_of_int n)) = nat n"
proof -
  have zeros: "digits_value (replicate m (CHR ''0'') @ s) = digits_value s" for m s
    by (induction m) (simp_all add: digits_value_def)
  show "list_all is_digit (padStart k (CHR ''0'') (string_of_int n))"
    using digits_of_int [OF assms] by (auto simp: padStart_def list_all_iff is_digit_def)
  show "digits_value (padStart k (CHR ''0'') (string_of_int n)) = nat n"
    using digits_of_int [OF assms] by (simp add: padStart_def zeros)
qed

lemma padded_eq: "0 \<le> m \<Longrightarrow> 0 \<le> n \<Longrightarrow>
    padStart k (CHR ''0'') (string_of_int m) = padStart k (CHR ''0'') (string_of_int n) \<longleftrightarrow> m = n"
  using padded_digits(2) [of m k] padded_digits(2) [of n k] by (metis nat_eq_iff2 int_nat_eq)

lemma digit_cut:
  "list_all is_digit a \<Longrightarrow> list_all is_digit b \<Longrightarrow> \<not> is_digit c \<Longrightarrow> \<not> is_digit d \<Longrightarrow>
   a @ c # x = b @ d # y \<longleftrightarrow> a = b \<and> c = d \<and> x = y"
  by (rule cut_unique)

text \<open>The parts of a local time, in their ranges, and the time made of them.\<close>

lemma time_of_parts:
  "x = x div 3600000 * 3600000 + x div 60000 mod 60 * 60000 + x div 1000 mod 60 * 1000 + x mod 1000" for x :: int
proof -
  have "x div 60000 = x div 1000 div 60" "x div 3600000 = x div 60000 div 60"
    using zdiv_zmult2_eq [of 60 x 1000] zdiv_zmult2_eq [of 60 x 60000] by simp_all
  then show ?thesis
    using div_mult_mod_eq [of x 1000] div_mult_mod_eq [of "x div 1000" 60] div_mult_mod_eq [of "x div 60000" 60] by linarith
qed

lemma local_parts:
  "t = MakeDate (MakeDay (YearFromDay (Day t)) (MonthFromDay (Day t)) (DateFromDay (Day t)))
         (HourFromTime t * 3600000 + MinFromTime t * 60000 + SecFromTime t * 1000 + msFromTime t)"
  using time_of_parts [of "TimeWithinDay t"]
  by (simp add: MakeDay_parts MakeDate_def HourFromTime_def MinFromTime_def SecFromTime_def msFromTime_def TimeWithinDay_def Day_def)

lemma parts_nonneg:
  "0 \<le> HourFromTime t" "0 \<le> MinFromTime t" "0 \<le> SecFromTime t" "0 \<le> msFromTime t" "0 \<le> MonthFromDay d" "0 \<le> DateFromDay d"
  using DateFromDay_bounds(1) [of d]
  by (simp_all add: HourFromTime_def MinFromTime_def SecFromTime_def msFromTime_def TimeWithinDay_def msPerDay_def
      year_month_of_index(2) pos_imp_zdiv_nonneg_iff)

lemma not_digits:
  "\<not> is_digit (CHR ''-'')" "\<not> is_digit (CHR ''T'')" "\<not> is_digit (CHR '':'')" "\<not> is_digit (CHR ''.'')" "\<not> is_digit (CHR ''+'')"
  by (simp_all add: is_digit_def)

lemma sign_cut:
  assumes "list_all is_digit a" "list_all is_digit b"
  shows "a @ (if p then ''+'' else ''-'') @ x = b @ (if q then ''+'' else ''-'') @ y \<longleftrightarrow> a = b \<and> p = q \<and> x = y"
  using assms by (cases p; cases q) (simp_all add: digit_cut not_digits)

lemma stamp_cut:
  assumes d: "list_all (list_all is_digit) [a0, a1, a2, a3, a4, a5, a6, a7]" "list_all (list_all is_digit) [b0, b1, b2, b3, b4, b5, b6, b7]"
    and eq: "a0 @ CHR ''-'' # a1 @ CHR ''-'' # a2 @ CHR ''T'' # a3 @ CHR '':'' # a4 @ CHR '':'' # a5 @ CHR ''.'' # a6 @
           (if p then ''+'' else ''-'') @ a7 @ CHR '':'' # a8
       = b0 @ CHR ''-'' # b1 @ CHR ''-'' # b2 @ CHR ''T'' # b3 @ CHR '':'' # b4 @ CHR '':'' # b5 @ CHR ''.'' # b6 @
           (if q then ''+'' else ''-'') @ b7 @ CHR '':'' # b8"
  shows "p = q \<and> [a0, a1, a2, a3, a4, a5, a6, a7, a8] = [b0, b1, b2, b3, b4, b5, b6, b7, b8]"
proof -
  have ad: "list_all is_digit a0" "list_all is_digit a1" "list_all is_digit a2" "list_all is_digit a3" "list_all is_digit a4"
    "list_all is_digit a5" "list_all is_digit a6" "list_all is_digit a7" using d(1) by simp_all
  have bd: "list_all is_digit b0" "list_all is_digit b1" "list_all is_digit b2" "list_all is_digit b3" "list_all is_digit b4"
    "list_all is_digit b5" "list_all is_digit b6" "list_all is_digit b7" using d(2) by simp_all
  show ?thesis
    using eq unfolding digit_cut [OF ad(1) bd(1) not_digits(1) not_digits(1)] digit_cut [OF ad(2) bd(2) not_digits(1) not_digits(1)]
      digit_cut [OF ad(3) bd(3) not_digits(2) not_digits(2)] digit_cut [OF ad(4) bd(4) not_digits(3) not_digits(3)]
      digit_cut [OF ad(5) bd(5) not_digits(3) not_digits(3)] digit_cut [OF ad(6) bd(6) not_digits(4) not_digits(4)]
      sign_cut [OF ad(7) bd(7)] digit_cut [OF ad(8) bd(8) not_digits(3) not_digits(3)] by simp
qed

text \<open>The shape of a timestamp, over the numbers it shows, and its parts.\<close>

definition iso_text :: "int list \<Rightarrow> int \<Rightarrow> string" where
  "iso_text parts off =
     (case parts of [year, month, date, hour, minute, second, ms] \<Rightarrow>
        string_of_int year @ ''-'' @ time_pad month @ ''-'' @ time_pad date @ ''T'' @ time_pad hour @ '':'' @ time_pad minute @
        '':'' @ time_pad second @ ''.'' @ padStart 3 (CHR ''0'') (string_of_int ms) @ (if off \<ge> 0 then ''+'' else ''-'') @
        time_pad (\<bar>off\<bar> div 60) @ '':'' @ time_pad (\<bar>off\<bar> mod 60) | _ \<Rightarrow> [])"

lemma time_pad_digits: "0 \<le> n \<Longrightarrow> list_all is_digit (time_pad n)"
  by (simp add: time_pad_def padded_digits)

lemma time_pad_eq: "0 \<le> m \<Longrightarrow> 0 \<le> n \<Longrightarrow> time_pad m = time_pad n \<longleftrightarrow> m = n"
  by (simp add: time_pad_def padded_eq)

lemma offset_parts: "0 \<le> \<bar>o'\<bar> div 60" "0 \<le> \<bar>o'\<bar> mod 60" for o' :: int
  by (simp_all add: pos_imp_zdiv_nonneg_iff)

lemma offset_eqI:
  fixes o1 o2 :: int
  assumes "(0 \<le> o1) = (0 \<le> o2)" "\<bar>o1\<bar> div 60 = \<bar>o2\<bar> div 60" "\<bar>o1\<bar> mod 60 = \<bar>o2\<bar> mod 60"
  shows "o1 = o2"
proof -
  have "\<bar>o1\<bar> = \<bar>o2\<bar>" using assms(2,3) by (metis div_mult_mod_eq)
  then show ?thesis using assms(1) by linarith
qed

lemma iso_text_parts:
  assumes "length ps = 7" "length qs = 7" "\<forall>p \<in> set ps. 0 \<le> p" "\<forall>q \<in> set qs. 0 \<le> q"
    and "iso_text ps off1 = iso_text qs off2"
  shows "ps = qs \<and> off1 = off2"
proof -
  obtain a1 a2 a3 a4 a5 a6 a7 where a: "ps = [a1, a2, a3, a4, a5, a6, a7]"
    using assms(1) by (auto simp: numeral_eq_Suc length_Suc_conv)
  obtain b1 b2 b3 b4 b5 b6 b7 where b: "qs = [b1, b2, b3, b4, b5, b6, b7]"
    using assms(2) by (auto simp: numeral_eq_Suc length_Suc_conv)
  note digits = time_pad_digits padded_digits digits_of_int
  have pos: "0 \<le> a1" "0 \<le> a2" "0 \<le> a3" "0 \<le> a4" "0 \<le> a5" "0 \<le> a6" "0 \<le> a7"
    "0 \<le> b1" "0 \<le> b2" "0 \<le> b3" "0 \<le> b4" "0 \<le> b5" "0 \<le> b6" "0 \<le> b7"
    using assms(3,4) by (simp_all add: a b)
  have d: "list_all (list_all is_digit) [string_of_int a1, time_pad a2, time_pad a3, time_pad a4, time_pad a5, time_pad a6,
      padStart 3 (CHR ''0'') (string_of_int a7), time_pad (\<bar>off1\<bar> div 60)]"
    "list_all (list_all is_digit) [string_of_int b1, time_pad b2, time_pad b3, time_pad b4, time_pad b5, time_pad b6,
      padStart 3 (CHR ''0'') (string_of_int b7), time_pad (\<bar>off2\<bar> div 60)]"
    using pos digits_of_int [OF pos(1)] digits_of_int [OF pos(8)] time_pad_digits [OF offset_parts(1) [of off1]]
      time_pad_digits [OF offset_parts(1) [of off2]]
    by (simp_all add: time_pad_digits padded_digits(1))
  have eq: "iso_text [a1, a2, a3, a4, a5, a6, a7] off1 = iso_text [b1, b2, b3, b4, b5, b6, b7] off2" using assms(5) by (simp only: a b)
  have r: "(0 \<le> off1) = (0 \<le> off2)" "string_of_int a1 = string_of_int b1" "time_pad a2 = time_pad b2" "time_pad a3 = time_pad b3"
    "time_pad a4 = time_pad b4" "time_pad a5 = time_pad b5" "time_pad a6 = time_pad b6"
    "padStart 3 (CHR ''0'') (string_of_int a7) = padStart 3 (CHR ''0'') (string_of_int b7)"
    "time_pad (\<bar>off1\<bar> div 60) = time_pad (\<bar>off2\<bar> div 60)" "time_pad (\<bar>off1\<bar> mod 60) = time_pad (\<bar>off2\<bar> mod 60)"
    using stamp_cut [OF d, of "0 \<le> off1" "time_pad (\<bar>off1\<bar> mod 60)" "0 \<le> off2" "time_pad (\<bar>off2\<bar> mod 60)"] eq
    unfolding iso_text_def list.case append_Cons append_Nil by blast+
  have "off1 = off2"
    using offset_eqI [OF r(1)] r(9,10) time_pad_eq [OF offset_parts(1) offset_parts(1)] time_pad_eq [OF offset_parts(2) offset_parts(2)]
    by blast
  then show ?thesis
    using r(2-8) pos by (simp add: a b time_pad_eq padded_eq string_of_int_inj)
qed

text \<open>
  A printed timestamp identifies the instant, also where the clocks are set back and local times repeat, and
  whichever zone it was printed in: equal texts come from the same instant and the same local time.
\<close>

theorem iso_text_determines_instant:
  assumes "60000 dvd LocalTime z1 t1 - t1" "0 \<le> getFullYear z1 t1"
    and "60000 dvd LocalTime z2 t2 - t2" "0 \<le> getFullYear z2 t2"
  shows "formatLocalIsoWithOffset z1 t1 = formatLocalIsoWithOffset z2 t2 \<longleftrightarrow>
         t1 = t2 \<and> LocalTime z1 t1 = LocalTime z2 t2"
proof
  assume eq: "formatLocalIsoWithOffset z1 t1 = formatLocalIsoWithOffset z2 t2"
  let ?parts = "\<lambda>z t. [getFullYear z t, getMonth z t + 1, getDate z t, getHours z t, getMinutes z t, getSeconds z t,
    getMilliseconds z t]"
  note getters = getMonth_def getDate_def getHours_def getMinutes_def getSeconds_def getMilliseconds_def
  have nonneg: "\<forall>p \<in> set (?parts z t). 0 \<le> p" if "0 \<le> getFullYear z t" for z t
    using that parts_nonneg(1-4) [of "LocalTime z t"] parts_nonneg(5,6) [of "Day (LocalTime z t)"] by (simp add: getters)
  have "formatLocalIsoWithOffset z t = iso_text (?parts z t) (- getTimezoneOffset z t)" for z t
    unfolding formatLocalIsoWithOffset_def iso_text_def Let_def by simp
  then have "?parts z1 t1 = ?parts z2 t2 \<and> - getTimezoneOffset z1 t1 = - getTimezoneOffset z2 t2"
    using eq nonneg assms(2,4) by (intro iso_text_parts) simp_all
  then have parts: "?parts z1 t1 = ?parts z2 t2" and offs: "getTimezoneOffset z1 t1 = getTimezoneOffset z2 t2" by simp_all
  have same: "LocalTime z1 t1 = LocalTime z2 t2"
    using parts local_parts [of "LocalTime z1 t1"] local_parts [of "LocalTime z2 t2"]
    by (simp add: getFullYear_def getMonth_def getDate_def getHours_def getMinutes_def getSeconds_def getMilliseconds_def)
  have off: "LocalTime z t - t = 60000 * (- getTimezoneOffset z t)" if d: "60000 dvd LocalTime z t - t" for z t
  proof -
    obtain k where k: "LocalTime z t - t = 60000 * k" using d by (auto simp: dvd_def)
    then have "t - LocalTime z t = (- k) * 60000" by simp
    then have "getTimezoneOffset z t = - k" unfolding getTimezoneOffset_def by simp
    then show ?thesis using k by simp
  qed
  show "t1 = t2 \<and> LocalTime z1 t1 = LocalTime z2 t2"
    using same off [OF assms(1)] off [OF assms(3)] offs by linarith
next
  assume eq: "t1 = t2 \<and> LocalTime z1 t1 = LocalTime z2 t2"
  then have l: "LocalTime z1 t2 = LocalTime z2 t2" by blast
  from eq have "t1 = t2" by blast
  then show "formatLocalIsoWithOffset z1 t1 = formatLocalIsoWithOffset z2 t2"
    by (simp only: l formatLocalIsoWithOffset_def getFullYear_def getMonth_def getDate_def getHours_def getMinutes_def
        getSeconds_def getMilliseconds_def getTimezoneOffset_def)
qed

text \<open>Half past two, twice, on the morning of 27 October 2024 in central Europe.\<close>

lemma year_2024: "YearFromDay (Day 1729996200000) = 2024"
  by (simp add: YearFromDay_def year_search.simps DayFromYear_def Day_def msPerDay_def)

theorem iso_text_determines_instant_witness:
  "formatLocalIsoWithOffset (7200000, [(1729990800000, 3600000)]) 1729989000000
   \<noteq> formatLocalIsoWithOffset (7200000, [(1729990800000, 3600000)]) 1729992600000"
  using iso_text_determines_instant [of "(7200000, [(1729990800000, 3600000)])" 1729989000000
      "(7200000, [(1729990800000, 3600000)])" 1729992600000]
  by (simp add: LocalTime_def getFullYear_def year_2024)

end
