(* ===== verification/Cron_Session.thy ===== *)
theory Cron_Session
  imports Cron_Run Cron_Fire
begin

text \<open>
  The cron layer of one session: the task store, \<open>tools/cron/session-store.ts\<close>, the project file,
  \<open>tools/cron/project-store.ts\<close>, the manager that ties them to the scheduler, \<open>agent/cron/manager.ts\<close>, and
  the checks of the tools that create and delete tasks.

  The manager queues its file writes, per task id and in one chain for the project file. A queued write is
  applied here when it is queued: this is the state of the files once the queues have drained, which is
  what \<open>stop\<close> waits for. Random ids, the wall clock and the outcome of the schedule lock are arguments.
  What a delivery does to the agent is a log of \<open>steer\<close> calls, the text and the origin
  (whose constant \<open>kind\<close> is left out).
\<close>

section \<open>Task store\<close>

type_synonym task_store = "(string, CronTask) js_map"

definition MAX_ID_ATTEMPTS :: nat where "MAX_ID_ATTEMPTS = 8"

definition is_task_id :: "string \<Rightarrow> bool" where
  "is_task_id i \<longleftrightarrow> length i = 8 \<and> list_all (\<lambda>c. c \<in> set ''0123456789abcdef'') i"

text \<open>The candidates are the hex texts of successive \<open>randomBytes(4)\<close>.\<close>

definition generateCronTaskId :: "(nat \<Rightarrow> string) \<Rightarrow> (string \<Rightarrow> bool) \<Rightarrow> string option" where
  "generateCronTaskId candidate isTaken =
     find (\<lambda>i. is_task_id i \<and> \<not> isTaken i) (map candidate [0..<MAX_ID_ATTEMPTS])"

text \<open>What the caller of \<open>add\<close> supplies: a task without id and creation time.\<close>

record task_init =
  ti_cron :: string
  ti_prompt :: string
  ti_recurring :: "bool option"
  ti_lastFiredAt :: "int option"
  ti_durable :: "bool option"

definition task_of :: "task_init \<Rightarrow> string \<Rightarrow> int \<Rightarrow> CronTask" where
  "task_of init i nowMs =
     \<lparr>ct_id = i, ct_cron = ti_cron init, ct_prompt = ti_prompt init, ct_createdAt = nowMs,
      ct_recurring = ti_recurring init, ct_lastFiredAt = ti_lastFiredAt init, ct_durable = ti_durable init\<rparr>"

definition store_add :: "(nat \<Rightarrow> string) \<Rightarrow> task_init \<Rightarrow> int \<Rightarrow> task_store \<Rightarrow> CronTask option \<times> task_store" where
  "store_add candidate init nowMs st =
     (case generateCronTaskId candidate (jm_has st) of
        None \<Rightarrow> (None, st)
      | Some i \<Rightarrow> (let task = task_of init i nowMs in (Some task, jm_set st i task)))"

definition adopt :: "CronTask \<Rightarrow> task_store \<Rightarrow> task_store" where
  "adopt task st = jm_set st (ct_id task) task"

definition markFired :: "string \<Rightarrow> int \<Rightarrow> task_store \<Rightarrow> CronTask option \<times> task_store" where
  "markFired i lastFiredAt st =
     (case jm_get st i of
        None \<Rightarrow> (None, st)
      | Some existing \<Rightarrow>
          (let updated = existing\<lparr>ct_lastFiredAt := Some lastFiredAt\<rparr> in (Some updated, jm_set st i updated)))"

definition list_tasks :: "task_store \<Rightarrow> CronTask list" where
  "list_tasks st = map snd st"

fun store_remove :: "string list \<Rightarrow> task_store \<Rightarrow> string list \<times> task_store" where
  "store_remove [] st = ([], st)"
| "store_remove (i # is') st =
     (let (removed, st') = store_remove is' (jm_delete st i)
      in (if jm_has st i then i # removed else removed, st'))"

section \<open>Project file\<close>

text \<open>The tasks of the file in order; the scope marker is not written.\<close>

definition strip_durable :: "CronTask \<Rightarrow> CronTask" where
  "strip_durable t = t\<lparr>ct_durable := None\<rparr>"

text \<open>Entries that are malformed or whose expression does not parse are dropped on reading.\<close>

definition readTasks :: "CronTask list \<Rightarrow> CronTask list" where
  "readTasks content = filter (\<lambda>t. is_task_id (ct_id t) \<and> isl (parseCronExpression (ct_cron t)) = False) content"

definition writeTasks :: "CronTask list \<Rightarrow> CronTask list" where
  "writeTasks tasks = map strip_durable tasks"

definition project_add :: "CronTask \<Rightarrow> CronTask list \<Rightarrow> CronTask list" where
  "project_add task content = writeTasks (filter (\<lambda>t. ct_id t \<noteq> ct_id task) (readTasks content) @ [task])"

definition project_remove :: "string list \<Rightarrow> CronTask list \<Rightarrow> string list \<times> CronTask list" where
  "project_remove ids content =
     (if ids = [] then ([], content)
      else let tasks = readTasks content;
               removed = map ct_id (filter (\<lambda>t. ct_id t \<in> set ids) tasks)
           in if removed = [] then ([], content)
              else (removed, writeTasks (filter (\<lambda>t. ct_id t \<notin> set ids) tasks)))"

definition project_markFired :: "string \<Rightarrow> int \<Rightarrow> CronTask list \<Rightarrow> CronTask list" where
  "project_markFired i lastFiredAt content =
     (let tasks = readTasks content
      in if \<exists>t \<in> set tasks. ct_id t = i
         then writeTasks (map (\<lambda>t. if ct_id t \<noteq> i then t else t\<lparr>ct_lastFiredAt := Some lastFiredAt\<rparr>) tasks)
         else content)"

section \<open>Manager\<close>

text \<open>\<open>mg_persist\<close> and \<open>mg_project\<close> are the files of the session and of the project, absent where the
  store is \<open>undefined\<close>.\<close>

record manager =
  mg_store :: task_store
  mg_persist :: "task_store option"
  mg_project :: "CronTask list option"
  mg_owned :: bool
  mg_steered :: "(string \<times> cron_origin) list"

definition new_manager :: "task_store option \<Rightarrow> CronTask list option \<Rightarrow> manager" where
  "new_manager persist project =
     \<lparr>mg_store = [], mg_persist = persist, mg_project = project, mg_owned = False, mg_steered = []\<rparr>"

definition STALE_THRESHOLD_MS :: int where "STALE_THRESHOLD_MS = 7 * 24 * 60 * 60 * 1000"

text \<open>A write to the session's files does nothing without a session directory; a write to the project
  file without a project store throws inside the queue, where it is logged and swallowed.\<close>

definition persist_write :: "CronTask \<Rightarrow> manager \<Rightarrow> manager" where
  "persist_write task m = m\<lparr>mg_persist := map_option (\<lambda>d. jm_set d (ct_id task) task) (mg_persist m)\<rparr>"

definition persist_remove :: "string \<Rightarrow> manager \<Rightarrow> manager" where
  "persist_remove i m = m\<lparr>mg_persist := map_option (\<lambda>d. jm_delete d i) (mg_persist m)\<rparr>"

definition on_project :: "(CronTask list \<Rightarrow> CronTask list) \<Rightarrow> manager \<Rightarrow> manager" where
  "on_project f m = m\<lparr>mg_project := map_option f (mg_project m)\<rparr>"

definition adoptProjectTasks :: "CronTask list \<Rightarrow> manager \<Rightarrow> manager" where
  "adoptProjectTasks tasks m =
     (let vanished = map ct_id (filter (\<lambda>t. ct_durable t = Some True \<and> ct_id t \<notin> ct_id ` set tasks) (list_tasks (mg_store m)));
          st = snd (store_remove vanished (mg_store m))
      in m\<lparr>mg_store := fold (\<lambda>t. adopt (t\<lparr>ct_durable := Some True\<rparr>)) tasks st\<rparr>)"

text \<open>\<open>acquired\<close> is the result of \<open>tryAcquireProjectCronLock\<close>.\<close>

definition claimAndLoadProjectSchedule :: "bool \<Rightarrow> manager \<Rightarrow> manager" where
  "claimAndLoadProjectSchedule acquired m =
     (case mg_project m of
        None \<Rightarrow> m
      | Some content \<Rightarrow>
          if \<not> acquired then m else adoptProjectTasks (readTasks content) (m\<lparr>mg_owned := True\<rparr>))"

definition addProjectTask :: "(nat \<Rightarrow> string) \<Rightarrow> bool \<Rightarrow> task_init \<Rightarrow> int \<Rightarrow> manager \<Rightarrow> CronTask option \<times> manager" where
  "addProjectTask candidate acquired init nowMs m =
     (if mg_owned m then
        (case store_add candidate (init\<lparr>ti_durable := Some True\<rparr>) nowMs (mg_store m) of
           (None, _) \<Rightarrow> (None, m)
         | (Some task, st) \<Rightarrow> (Some task, on_project (project_add task) (m\<lparr>mg_store := st\<rparr>)))
      else
        (case generateCronTaskId candidate (jm_has (mg_store m)) of
           None \<Rightarrow> (None, m)
         | Some i \<Rightarrow>
             (let task = (task_of init i nowMs)\<lparr>ct_durable := Some True\<rparr>;
                  m1 = on_project (project_add task) (claimAndLoadProjectSchedule acquired m)
              in (Some task, if mg_owned m1 then m1\<lparr>mg_store := adopt task (mg_store m1)\<rparr> else m1))))"

definition addTask :: "(nat \<Rightarrow> string) \<Rightarrow> bool \<Rightarrow> task_init \<Rightarrow> int \<Rightarrow> manager \<Rightarrow> CronTask option \<times> manager" where
  "addTask candidate acquired init nowMs m =
     (if ti_durable init = Some True \<and> mg_project m \<noteq> None then addProjectTask candidate acquired init nowMs m
      else (case store_add candidate init nowMs (mg_store m) of
              (None, _) \<Rightarrow> (None, m)
            | (Some task, st) \<Rightarrow> (Some task, persist_write task (m\<lparr>mg_store := st\<rparr>))))"

definition removeTasks :: "string list \<Rightarrow> manager \<Rightarrow> string list \<times> manager" where
  "removeTasks ids m =
     (let durable = (\<lambda>i. case jm_get (mg_store m) i of Some t \<Rightarrow> ct_durable t = Some True | None \<Rightarrow> False);
          (removed, st) = store_remove ids (mg_store m)
      in (removed,
          fold (\<lambda>i. if durable i then on_project (\<lambda>c. snd (project_remove [i] c)) else persist_remove i) removed
            (m\<lparr>mg_store := st\<rparr>)))"

definition removeProjectTasks :: "string list \<Rightarrow> manager \<Rightarrow> string list \<times> manager" where
  "removeProjectTasks ids m =
     (case mg_project m of
        None \<Rightarrow> ([], m)
      | Some content \<Rightarrow>
          if ids = [] then ([], m)
          else (let (removed, content') = project_remove ids content
                in (removed,
                    if removed \<noteq> []
                    then m\<lparr>mg_project := Some content', mg_store := snd (store_remove removed (mg_store m))\<rparr> else m)))"

definition advanceCursor :: "string \<Rightarrow> int \<Rightarrow> manager \<Rightarrow> manager" where
  "advanceCursor i lastFiredAt m =
     (case markFired i lastFiredAt (mg_store m) of
        (None, _) \<Rightarrow> m
      | (Some updated, st) \<Rightarrow>
          (let m1 = m\<lparr>mg_store := st\<rparr>
           in if ct_durable updated = Some True then on_project (project_markFired i lastFiredAt) m1
              else persist_write updated m1))"

text \<open>\<open>loadFromDisk\<close>; the order of the files is the order in which the directory lists them.\<close>

definition loadFromDisk :: "manager \<Rightarrow> manager" where
  "loadFromDisk m =
     (case mg_persist m of
        None \<Rightarrow> m
      | Some files \<Rightarrow>
          (let sessionIds = map ct_id (filter (\<lambda>t. ct_durable t \<noteq> Some True) (list_tasks (mg_store m)));
               st = snd (store_remove sessionIds (mg_store m))
           in m\<lparr>mg_store := fold adopt (list_tasks files) st\<rparr>))"

definition isStale :: "bool \<Rightarrow> int \<Rightarrow> CronTask \<Rightarrow> bool" where
  "isStale noStale nowMs task =
     (if noStale then False else if one_shot task then False else nowMs - ct_createdAt task \<ge> STALE_THRESHOLD_MS)"

definition handleFire :: "bool \<Rightarrow> int \<Rightarrow> CronTask \<Rightarrow> int \<Rightarrow> manager \<Rightarrow> manager" where
  "handleFire noStale nowMs task n m =
     (let stale = isStale noStale nowMs task;
          origin = \<lparr>or_jobId = ct_id task, or_cron = ct_cron task, or_recurring = (\<not> one_shot task),
                    or_coalescedCount = n, or_stale = stale\<rparr>;
          m1 = m\<lparr>mg_steered := mg_steered m @ [(renderCronFireXml origin (ct_prompt task), origin)]\<rparr>
      in if stale \<and> \<not> one_shot task then snd (removeTasks [ct_id task] m1) else m1)"

text \<open>The scheduler as the manager creates it.\<close>

definition manager_callbacks :: "bool \<Rightarrow> int \<Rightarrow> manager callbacks" where
  "manager_callbacks noStale nowMs =
     \<lparr>cb_onFire = (\<lambda>task n m. (True, handleFire noStale nowMs task n m)),
      cb_removeOneShot = (\<lambda>i m. snd (removeTasks [i] m)),
      cb_onAdvanceCursor = advanceCursor\<rparr>"

definition manager_tick :: "cron_env \<Rightarrow> bool \<Rightarrow> bool \<Rightarrow> bool \<Rightarrow> int \<Rightarrow> scheduler \<times> manager \<Rightarrow> scheduler \<times> manager" where
  "manager_tick ev noStale killed active nowMs sm =
     tick ev (manager_callbacks noStale nowMs) killed (\<not> active) nowMs (list_tasks (mg_store (snd sm))) sm"

section \<open>The files mirror the store\<close>

definition tasks_ok :: "task_store \<Rightarrow> bool" where
  "tasks_ok st \<longleftrightarrow> jm_ok st \<and> (\<forall>(i, t) \<in> set st. ct_id t = i)"

definition session_scoped :: "task_store \<Rightarrow> bool" where
  "session_scoped st \<longleftrightarrow> (\<forall>i t. jm_get st i = Some t \<longrightarrow> ct_durable t \<noteq> Some True)"

definition mirror_ok :: "manager \<Rightarrow> bool" where
  "mirror_ok m \<longleftrightarrow>
     tasks_ok (mg_store m) \<and> session_scoped (mg_store m) \<and>
     (\<exists>files. mg_persist m = Some files \<and> tasks_ok files \<and> (\<forall>i. jm_get files i = jm_get (mg_store m) i))"

lemma tasks_ok_id: "tasks_ok st \<Longrightarrow> jm_get st i = Some t \<Longrightarrow> ct_id t = i"
  by (auto simp: tasks_ok_def dest: jm_get_in_set)

lemma tasks_ok_set: "tasks_ok st \<Longrightarrow> ct_id t = i \<Longrightarrow> tasks_ok (jm_set st i t)"
  by (auto simp: tasks_ok_def jm.ok_set set_jm_set)

lemma tasks_ok_delete: "tasks_ok st \<Longrightarrow> tasks_ok (jm_delete st i)"
  by (auto simp: tasks_ok_def jm.ok_delete set_jm_delete)

lemma list_tasks_get: "tasks_ok st \<Longrightarrow> t \<in> set (list_tasks st) \<longleftrightarrow> jm_get st (ct_id t) = Some t"
  by (force simp: tasks_ok_def list_tasks_def jm_get_iff image_iff)

lemma distinct_list_tasks: "tasks_ok st \<Longrightarrow> distinct (map ct_id (list_tasks st))"
proof -
  assume ok: "tasks_ok st"
  then have "map ct_id (list_tasks st) = map fst st" by (auto simp: tasks_ok_def list_tasks_def)
  then show ?thesis using ok by (simp add: tasks_ok_def jm_ok_def)
qed

lemma store_remove_props:
  "tasks_ok st \<Longrightarrow> tasks_ok (snd (store_remove is st)) \<and>
     (\<forall>j. jm_get (snd (store_remove is st)) j = (if j \<in> set is then None else jm_get st j)) \<and>
     set (fst (store_remove is st)) = {j \<in> set is. jm_get st j \<noteq> None}"
proof (induction "is" st rule: store_remove.induct)
  case (2 i rest st)
  note ih = 2(1) [OF tasks_ok_delete [OF 2(2), of i]]
  obtain removed st' where r: "store_remove rest (jm_delete st i) = (removed, st')" by force
  have rest: "tasks_ok st'" "jm_get st' j = (if j \<in> set rest then None else jm_get (jm_delete st i) j)"
    "set removed = {j \<in> set rest. jm_get (jm_delete st i) j \<noteq> None}" for j
    using ih unfolding r fst_conv snd_conv by blast+
  have g: "jm_get st' j = (if j \<in> set (i # rest) then None else jm_get st j)" for j
    unfolding rest(2) by (simp add: jm_get_delete)
  have "set (if jm_has st i then i # removed else removed) = {j \<in> set (i # rest). jm_get st j \<noteq> None}"
    unfolding jm_has_def by (cases "jm_get st i") (auto simp: rest(3) jm_get_delete)
  then show ?case using rest(1) g by (simp add: r)
qed simp

lemma adopt_all:
  "tasks_ok st \<Longrightarrow> distinct (map ct_id ts) \<Longrightarrow>
   tasks_ok (fold adopt ts st) \<and>
   (\<forall>j. jm_get (fold adopt ts st) j = (case find (\<lambda>t. ct_id t = j) ts of Some t \<Rightarrow> Some t | None \<Rightarrow> jm_get st j))"
proof (induction ts arbitrary: st)
  case (Cons t ts)
  have "tasks_ok (adopt t st)" using Cons.prems by (simp add: adopt_def tasks_ok_set)
  note ih = Cons.IH [OF this]
  have "find (\<lambda>u. ct_id u = ct_id t) ts = None" using Cons.prems(2) by (auto simp: find_None_iff image_iff)
  then show ?case
    using ih Cons.prems(2) by (auto simp: jm_get_set adopt_def [of t] split: option.splits)
qed simp

lemma find_task: "tasks_ok st \<Longrightarrow> find (\<lambda>t. ct_id t = i) (list_tasks st) = jm_get st i"
proof (cases "jm_get st i")
  case None
  assume ok: "tasks_ok st"
  then show ?thesis using None list_tasks_get [OF ok] by (auto simp: find_None_iff)
next
  case (Some t)
  assume ok: "tasks_ok st"
  have "t \<in> set (list_tasks st)" "ct_id t = i" using list_tasks_get [OF ok] tasks_ok_id [OF ok Some] Some by auto
  then obtain u where "find (\<lambda>t. ct_id t = i) (list_tasks st) = Some u" by (cases "find (\<lambda>t. ct_id t = i) (list_tasks st)") (auto simp: find_None_iff)
  moreover from this have "u \<in> set (list_tasks st)" "ct_id u = i" by (auto simp: find_Some_iff)
  ultimately show ?thesis using list_tasks_get [OF ok, of u] Some by simp
qed

text \<open>Loading from the files of an empty or outdated store gives the store back.\<close>

lemma load_fresh:
  assumes "tasks_ok files"
  shows "jm_get (mg_store (loadFromDisk (new_manager (Some files) project))) i = jm_get files i"
    "tasks_ok (mg_store (loadFromDisk (new_manager (Some files) project)))"
proof -
  have "tasks_ok []" by (simp add: tasks_ok_def jm_ok_def)
  from adopt_all [OF this distinct_list_tasks [OF assms]] find_task [OF assms]
  show "jm_get (mg_store (loadFromDisk (new_manager (Some files) project))) i = jm_get files i"
    "tasks_ok (mg_store (loadFromDisk (new_manager (Some files) project)))"
    by (simp_all add: loadFromDisk_def new_manager_def Let_def list_tasks_def jm_get_def split: option.splits)
qed

lemma persist_removes:
  "fold persist_remove is m = m\<lparr>mg_persist := map_option (\<lambda>d. snd (store_remove is d)) (mg_persist m)\<rparr>"
proof (induction "is" arbitrary: m)
  case (Cons i rest)
  show ?case
    by (cases "mg_persist m") (simp_all add: Cons.IH persist_remove_def [of i] split_beta)
qed (simp add: option.map_ident)

lemma removeTasks_session:
  fixes ids :: "string list"
  assumes "session_scoped (mg_store m)" "tasks_ok (mg_store m)"
  defines "r \<equiv> store_remove ids (mg_store m)"
  shows "removeTasks ids m =
    (fst r, m\<lparr>mg_store := snd r, mg_persist := map_option (\<lambda>d. snd (store_remove (fst r) d)) (mg_persist m)\<rparr>)"
proof -
  let ?d = "\<lambda>i. case jm_get (mg_store m) i of Some t \<Rightarrow> ct_durable t = Some True | None \<Rightarrow> False"
  have "\<not> ?d i" for i
    using assms(1) by (simp add: session_scoped_def split: option.splits)
  then have "fold (\<lambda>i. if ?d i then on_project (\<lambda>c. snd (project_remove [i] c)) else persist_remove i) (fst r)
      = fold persist_remove (fst r)"
    by simp
  then show ?thesis
    by (simp add: removeTasks_def r_def [symmetric] split_beta persist_removes)
qed

lemma mirror_remove:
  assumes "mirror_ok m"
  shows "mirror_ok (snd (removeTasks ids m))"
    "jm_get (mg_store (snd (removeTasks ids m))) j = (if j \<in> set ids then None else jm_get (mg_store m) j)"
    "mg_steered (snd (removeTasks ids m)) = mg_steered m"
proof -
  have m: "tasks_ok (mg_store m)" "session_scoped (mg_store m)" using assms by (simp_all add: mirror_ok_def)
  obtain files where f: "mg_persist m = Some files" "tasks_ok files" "\<And>i. jm_get files i = jm_get (mg_store m) i"
    using assms by (auto simp: mirror_ok_def)
  let ?r = "store_remove ids (mg_store m)"
  note st = store_remove_props [OF m(1), of ids] and fs = store_remove_props [OF f(2), of "fst ?r"]
  have sg: "jm_get (snd ?r) j = (if j \<in> set ids then None else jm_get (mg_store m) j)" for j
    using st by blast
  have fg: "jm_get (snd (store_remove (fst ?r) files)) j = jm_get (snd ?r) j" for j
  proof -
    have "jm_get (snd (store_remove (fst ?r) files)) j = (if j \<in> set (fst ?r) then None else jm_get (mg_store m) j)"
      using fs f(3) by metis
    moreover have "j \<in> set (fst ?r) \<longleftrightarrow> j \<in> set ids \<and> jm_get (mg_store m) j \<noteq> None"
      using st by blast
    ultimately show ?thesis by (simp add: sg)
  qed
  have "session_scoped (snd ?r)" using m(2) by (simp add: session_scoped_def sg)
  moreover have "tasks_ok (snd ?r)" "tasks_ok (snd (store_remove (fst ?r) files))" using st fs by blast+
  ultimately show "mirror_ok (snd (removeTasks ids m))"
    using fg f(1) by (simp add: removeTasks_session [OF m(2,1)] mirror_ok_def)
  show "jm_get (mg_store (snd (removeTasks ids m))) j = (if j \<in> set ids then None else jm_get (mg_store m) j)"
    by (simp add: removeTasks_session [OF m(2,1)] sg)
  show "mg_steered (snd (removeTasks ids m)) = mg_steered m"
    by (simp add: removeTasks_session [OF m(2,1)])
qed

text \<open>Writing a task to the store and to its file.\<close>

lemma mirror_write:
  assumes "mirror_ok m" "ct_id t = i" "ct_durable t \<noteq> Some True"
  shows "mirror_ok (persist_write t (m\<lparr>mg_store := jm_set (mg_store m) i t\<rparr>))"
  using assms
  by (auto simp: mirror_ok_def persist_write_def tasks_ok_set session_scoped_def jm_get_set)

lemma mirror_add:
  assumes "mirror_ok m" "ti_durable init \<noteq> Some True"
  shows "mirror_ok (snd (addTask candidate acquired init nowMs m))"
  using assms mirror_write [OF assms(1), of "task_of init i nowMs" i for i]
  by (auto simp: addTask_def store_add_def task_of_def Let_def split: option.splits)

lemma mirror_advance:
  assumes "mirror_ok m"
  shows "mirror_ok (advanceCursor i l m)"
    "jm_get (mg_store (advanceCursor i l m)) j =
       (if j = i then map_option (\<lambda>t. t\<lparr>ct_lastFiredAt := Some l\<rparr>) (jm_get (mg_store m) i) else jm_get (mg_store m) j)"
proof -
  have id: "ct_id t = i" "ct_durable t \<noteq> Some True" if "jm_get (mg_store m) i = Some t" for t
    using assms that tasks_ok_id by (auto simp: mirror_ok_def session_scoped_def)
  show "mirror_ok (advanceCursor i l m)"
    using assms id mirror_write [OF assms, of "t\<lparr>ct_lastFiredAt := Some l\<rparr>" i for t]
    by (auto simp: advanceCursor_def markFired_def Let_def split: option.splits)
  show "jm_get (mg_store (advanceCursor i l m)) j =
       (if j = i then map_option (\<lambda>t. t\<lparr>ct_lastFiredAt := Some l\<rparr>) (jm_get (mg_store m) i) else jm_get (mg_store m) j)"
    using id by (auto simp: advanceCursor_def markFired_def Let_def jm_get_set persist_write_def split: option.splits)
qed

lemma mirror_steered: "mirror_ok (m\<lparr>mg_steered := x\<rparr>) \<longleftrightarrow> mirror_ok m"
  by (simp add: mirror_ok_def)

lemma mirror_fire:
  assumes "mirror_ok m"
  shows "mirror_ok (handleFire noStale nowMs t n m)"
    "jm_get (mg_store (handleFire noStale nowMs t n m)) j =
       (if j = ct_id t \<and> isStale noStale nowMs t then None else jm_get (mg_store m) j)"
proof -
  have "mirror_ok (m\<lparr>mg_steered := x\<rparr>)" for x using assms by (simp add: mirror_steered)
  note r = mirror_remove [OF this]
  have os: "\<not> one_shot t" if "isStale noStale nowMs t" using that by (auto simp: isStale_def split: if_splits)
  show "mirror_ok (handleFire noStale nowMs t n m)"
    using r(1) assms by (simp add: handleFire_def Let_def mirror_steered)
  show "jm_get (mg_store (handleFire noStale nowMs t n m)) j =
       (if j = ct_id t \<and> isStale noStale nowMs t then None else jm_get (mg_store m) j)"
    using r(2) os by (auto simp: handleFire_def Let_def)
qed

section \<open>The cursors are persisted\<close>

text \<open>What the scheduler remembers of a task in the store is what the store holds for it, and it lies in
  the past.\<close>

definition linked :: "int \<Rightarrow> scheduler \<Rightarrow> manager \<Rightarrow> bool" where
  "linked nowMs s m \<longleftrightarrow>
     (\<forall>i c t. jm_get (cs_lastSeenAt s) i = Some c \<longrightarrow> jm_get (mg_store m) i = Some t \<longrightarrow>
        ct_lastFiredAt t = Some c \<and> c \<le> nowMs)"

definition session_ok :: "int \<Rightarrow> scheduler \<times> manager \<Rightarrow> bool" where
  "session_ok nowMs sm \<longleftrightarrow> cache_ok (fst sm) \<and> mirror_ok (snd sm) \<and> linked nowMs (fst sm) (snd sm)"

lemma linked_later: "linked a s m \<Longrightarrow> a \<le> b \<Longrightarrow> linked b s m"
  by (fastforce simp: linked_def)

text \<open>Counting never runs ahead of the clock, in any zone.\<close>

lemma coalesce_loop_bound: "cursor \<le> nowMs \<Longrightarrow> snd (coalesce_loop ev task e nowMs n cursor) \<le> nowMs"
proof (induction ev task e nowMs n cursor rule: coalesce_loop.induct)
  case (1 ev task e nowMs n cursor)
  show ?case
    using 1 by (subst coalesce_loop.simps) (auto split: option.splits)
qed

lemma linked_seed:
  assumes "linked nowMs s m" "jm_get (mg_store m) (ct_id t) = Some t"
  shows "linked nowMs (seed_cursor t nowMs s) m"
  using assms by (auto simp: linked_def seed_cursor_def Let_def jm_get_set split: option.splits if_splits)

text \<open>A delivery by the manager's callbacks keeps the cursors persisted and touches only its task.\<close>

lemma session_fire:
  assumes ok: "session_ok nowMs (s, m)" and t: "jm_get (mg_store m) (ct_id t) = Some t"
    and next_fire: "computeJitteredNext ev t e base = Some x" "x \<le> real_of_int nowMs"
    and f: "fire_task ev (manager_callbacks noStale nowMs) nowMs t e base (s, m) = (s', m')"
  shows "session_ok nowMs (s', m')" "j \<noteq> ct_id t \<Longrightarrow> jm_get (mg_store m') j = jm_get (mg_store m) j"
proof -
  have c: "cache_ok s" and mir: "mirror_ok m" and l: "linked nowMs s m" using ok by (simp_all add: session_ok_def)
  obtain first where first: "computeNextCronRun (ev_zone ev) e base = Some first" "jittered ev t e first \<le> real_of_int nowMs"
    using next_fire by (auto simp: computeJitteredNext_def split: option.splits)
  let ?fired = "\<lambda>n. handleFire noStale nowMs t n m"
  have "session_ok nowMs (s', m') \<and> (j \<noteq> ct_id t \<longrightarrow> jm_get (mg_store m') j = jm_get (mg_store m) j)"
  proof (cases "one_shot t")
    case True
    then have s': "cs_lastSeenAt s' = jm_delete (cs_lastSeenAt s) (ct_id t)" "cs_parsedCache s' = cs_parsedCache s"
      and m': "m' = snd (removeTasks [ct_id t] (?fired 1))"
      using f first by (auto simp: fire_task_def manager_callbacks_def Let_def)
    note fired = mirror_fire [OF mir, of noStale nowMs t 1]
    show ?thesis
      using c l mirror_remove [OF fired(1), of "[ct_id t]"] fired(2)
      by (auto simp: session_ok_def cache_ok_def s' m' linked_def jm_get_delete)
  next
    case False
    obtain n0 k where cc: "countCoalesced ev t e first nowMs = (n0, k)" by force
    have "first \<le> nowMs" using recurring_jitter_bounds(1) [OF False, of first ev e] first(2) by linarith
    then have k: "k \<le> nowMs"
      using coalesce_loop_bound [of first nowMs ev t e 1] cc by (simp add: countCoalesced_def)
    have s': "cs_lastSeenAt s' = jm_set (cs_lastSeenAt s) (ct_id t) k" "cs_parsedCache s' = cs_parsedCache s"
      and m': "m' = advanceCursor (ct_id t) k (?fired (max 1 n0))"
      using f first False cc by (auto simp: fire_task_def manager_callbacks_def Let_def)
    note fired = mirror_fire [OF mir, of noStale nowMs t "max 1 n0"]
    note adv = mirror_advance [OF fired(1), of "ct_id t" k]
    have "linked nowMs s' m'"
      unfolding linked_def
    proof (intro allI impI)
      fix i a u assume "jm_get (cs_lastSeenAt s') i = Some a" "jm_get (mg_store m') i = Some u"
      then show "ct_lastFiredAt u = Some a \<and> a \<le> nowMs"
        using l k t adv(2) [of i] fired(2) [of i] unfolding s' m'
        by (cases "i = ct_id t") (auto simp: jm_get_set linked_def split: if_splits)
    qed
    then show ?thesis
      using c adv fired(2) by (simp add: session_ok_def cache_ok_def s' m')
  qed
  then show "session_ok nowMs (s', m')" "j \<noteq> ct_id t \<Longrightarrow> jm_get (mg_store m') j = jm_get (mg_store m) j" by simp_all
qed

lemma session_tick_task:
  assumes ok: "session_ok nowMs (s, m)" and t: "jm_get (mg_store m) (ct_id t) = Some t"
    and r: "tick_task ev (manager_callbacks noStale nowMs) nowMs t (s, m) = (s', m')"
  shows "session_ok nowMs (s', m') \<and> (\<forall>j. j \<noteq> ct_id t \<longrightarrow> jm_get (mg_store m') j = jm_get (mg_store m) j)"
proof (cases "ct_id t \<in> cs_inFlight s")
  case True
  then show ?thesis using ok r by (simp add: tick_task_def)
next
  case False
  have c: "cache_ok s" using ok by (simp add: session_ok_def)
  then show ?thesis
  proof (cases rule: getParsed_ok [of s "ct_cron t"])
    case (bad err)
    then show ?thesis using ok r False by (simp add: tick_task_def)
  next
    case (good e s1)
    define s2 where "s2 = seed_cursor t nowMs s1"
    define base where "base = baseFromMs t (jm_get (cs_lastSeenAt s2) (ct_id t))"
    have "linked nowMs s1 m" using ok good by (simp add: session_ok_def linked_def)
    then have ok2: "session_ok nowMs (s2, m)"
      using ok good t linked_seed [of nowMs s1 m t] by (simp add: session_ok_def s2_def seed_cursor_fields)
    consider "(s', m') = (s2, m)"
      | x where "computeJitteredNext ev t e base = Some x" "x \<le> real_of_int nowMs"
          "fire_task ev (manager_callbacks noStale nowMs) nowMs t e base (s2, m) = (s', m')"
      using r False good(2)
      by (auto simp: tick_task_def s2_def base_def Let_def not_less split: option.splits if_splits)
    then show ?thesis
    proof cases
      case 1
      then show ?thesis using ok2 by simp
    next
      case (2 x)
      then show ?thesis using session_fire [OF ok2 t 2] by blast
    qed
  qed
qed

lemma session_ticks:
  "session_ok nowMs sm \<Longrightarrow> distinct (map ct_id ts) \<Longrightarrow> \<forall>t \<in> set ts. jm_get (mg_store (snd sm)) (ct_id t) = Some t \<Longrightarrow>
   session_ok nowMs (fold (tick_task ev (manager_callbacks noStale nowMs) nowMs) ts sm)"
proof (induction ts arbitrary: sm)
  case (Cons t ts)
  obtain s m where sm: "sm = (s, m)" by force
  obtain s1 m1 where r: "tick_task ev (manager_callbacks noStale nowMs) nowMs t (s, m) = (s1, m1)" by force
  have t: "session_ok nowMs (s1, m1)" "\<And>j. j \<noteq> ct_id t \<Longrightarrow> jm_get (mg_store m1) j = jm_get (mg_store m) j"
    using session_tick_task [of nowMs s m t ev noStale s1 m1] Cons.prems sm r by simp_all
  have "\<forall>u \<in> set ts. jm_get (mg_store m1) (ct_id u) = Some u"
  proof
    fix u assume "u \<in> set ts"
    then have "ct_id u \<noteq> ct_id t" "jm_get (mg_store m) (ct_id u) = Some u"
      using Cons.prems(2,3) sm by (auto simp: image_iff)
    then show "jm_get (mg_store m1) (ct_id u) = Some u" using t(2) by simp
  qed
  then show ?case using Cons.IH [of "(s1, m1)"] t(1) Cons.prems(2) sm r by simp
qed simp

lemma session_manager_tick:
  assumes "session_ok nowMs (s, m)"
  shows "session_ok nowMs (manager_tick ev noStale killed active nowMs (s, m))"
proof -
  have ok: "tasks_ok (mg_store m)" using assms by (simp add: session_ok_def mirror_ok_def)
  have "session_ok nowMs (fold (tick_task ev (manager_callbacks noStale nowMs) nowMs) (list_tasks (mg_store m)) (s, m))"
    by (rule session_ticks [OF assms distinct_list_tasks [OF ok]]) (use list_tasks_get [OF ok] in auto)
  then show ?thesis
    using assms by (auto simp: manager_tick_def tick_def session_ok_def cache_ok_def linked_def split: prod.splits)
qed

section \<open>Sessions\<close>

text \<open>
  What can happen in a session whose tasks are all session-scoped: ticks with a clock that does not go
  back, tasks created under an id the scheduler has no memory of, and deletions.
\<close>

inductive cron_session :: "cron_env \<Rightarrow> bool \<Rightarrow> int \<Rightarrow> scheduler \<times> manager \<Rightarrow> bool" for ev noStale where
  begin_session: "cron_session ev noStale t0 (createCronScheduler, new_manager (Some []) project)"
| tick_session:
    "cron_session ev noStale t1 sm \<Longrightarrow> t1 \<le> t2 \<Longrightarrow> cron_session ev noStale t2 (manager_tick ev noStale killed active t2 sm)"
| add_session:
    "cron_session ev noStale t1 (s, m) \<Longrightarrow> ti_durable init \<noteq> Some True \<Longrightarrow> addTask candidate acquired init nowMs m = (r, m') \<Longrightarrow>
     (\<And>task. r = Some task \<Longrightarrow> jm_get (cs_lastSeenAt s) (ct_id task) = None) \<Longrightarrow>
     cron_session ev noStale t1 (s, m')"
| delete_session:
    "cron_session ev noStale t1 (s, m) \<Longrightarrow> cron_session ev noStale t1 (s, snd (removeTasks ids m))"

lemma cron_session_ok: "cron_session ev noStale t sm \<Longrightarrow> session_ok t sm"
proof (induction rule: cron_session.induct)
  case (begin_session t0 project)
  show ?case
    by (auto simp: session_ok_def createCronScheduler_def new_manager_def cache_ok_def mirror_ok_def tasks_ok_def
        session_scoped_def linked_def jm_get_def jm_ok_def)
next
  case (tick_session t1 sm t2 killed active)
  then have "session_ok t2 sm" by (auto simp: session_ok_def intro: linked_later)
  then show ?case using session_manager_tick [of t2 "fst sm" "snd sm"] by simp
next
  case (add_session t1 s m init candidate acquired nowMs r m')
  have "mirror_ok m'"
    using mirror_add [of m init candidate acquired nowMs] add_session by (simp add: session_ok_def)
  moreover have "linked t1 s m'"
    using add_session by (auto simp: addTask_def store_add_def task_of_def session_ok_def linked_def Let_def persist_write_def
        jm_get_set split: option.splits if_splits)
  ultimately show ?case using add_session by (simp add: session_ok_def)
next
  case (delete_session t1 s m ids)
  then have "mirror_ok m" by (simp add: session_ok_def)
  note r = mirror_remove [OF this, of ids]
  have "linked t1 s (snd (removeTasks ids m))"
    using delete_session.IH r(2) by (auto simp: session_ok_def linked_def split: if_splits)
  then show ?case using delete_session.IH r(1) by (simp add: session_ok_def)
qed

text \<open>
  C25: Stopping a session of session-scoped tasks and resuming it loses nothing of the schedule. The session starts with
  no tasks; it adds tasks that are not durable, each under an id the scheduler keeps no cursor for, deletes tasks, and is
  ticked at times that do not decrease; its file writes have been carried out and nothing else touches the files. Then
  the store loaded from the files holds the same tasks, and at every time not before the last tick a new
  scheduler reports for each of them the next fire the old one would have reported, so a run that was
  delivered is not delivered again and one that was not is not forgotten. (For durable tasks without a project store
  it fails: \<open>durable_fallback_revives\<close>.)
\<close>

theorem resume_keeps_schedule:
  fixes project :: "CronTask list option" and i :: string
  assumes run: "cron_session ev noStale t (s, m)" and later: "t \<le> nowMs" and files: "mg_persist m = Some files"
  defines "m' \<equiv> loadFromDisk (new_manager (Some files) project)"
  shows "jm_get (mg_store m') i = jm_get (mg_store m) i \<and>
    fst (getNextFireForTask ev nowMs (list_tasks (mg_store m')) i createCronScheduler)
    = fst (getNextFireForTask ev nowMs (list_tasks (mg_store m)) i s)"
proof -
  have ok: "session_ok t (s, m)" by (rule cron_session_ok [OF run])
  have mir: "tasks_ok (mg_store m)" "tasks_ok files" "jm_get files i = jm_get (mg_store m) i"
    using ok files by (auto simp: session_ok_def mirror_ok_def)
  have same: "jm_get (mg_store m') i = jm_get (mg_store m) i" and ok': "tasks_ok (mg_store m')"
    using load_fresh(1) [OF mir(2), of project i] load_fresh(2) [OF mir(2), of project] mir(3) by (simp_all add: m'_def)
  have "fst (nextFireFor ev nowMs u createCronScheduler) = fst (nextFireFor ev nowMs u s)"
    if u: "jm_get (mg_store m) i = Some u" for u
  proof -
    have id: "ct_id u = i" using tasks_ok_id [OF mir(1) u] .
    have link: "ct_lastFiredAt u = Some c \<and> c \<le> nowMs" if "jm_get (cs_lastSeenAt s) i = Some c" for c
      using ok that u later by (fastforce simp: session_ok_def linked_def)
    have fresh: "cache_ok createCronScheduler" and "cache_ok s"
      using ok by (simp_all add: session_ok_def cache_ok_def createCronScheduler_def jm_get_def)
    from \<open>cache_ok s\<close> show ?thesis
    proof (cases rule: getParsed_ok [of s "ct_cron u"])
      case (bad err)
      then show ?thesis by (simp add: nextFireFor_def getParsed_def createCronScheduler_def jm_get_def)
    next
      case (good e s1)
      obtain s0 where s0: "getParsed createCronScheduler (ct_cron u) = (Inr e, s0)" "cs_lastSeenAt s0 = []"
        using good(1) by (cases rule: getParsed_ok [OF fresh, of "ct_cron u"]) (auto simp: createCronScheduler_def)
      show ?thesis
        using link good(1,2,4) by (auto simp: nextFireFor_def s0 id Let_def jm_get_def [of "[]"] split: option.splits)
    qed
  qed
  then show ?thesis
    using same by (simp add: getNextFireForTask_def find_task [OF mir(1)] find_task [OF ok'] split: option.splits)
qed

section \<open>An example session\<close>

definition minute_init :: task_init where
  "minute_init = \<lparr>ti_cron = ''* * * * *'', ti_prompt = ''poll'', ti_recurring = None, ti_lastFiredAt = None, ti_durable = None\<rparr>"

text \<open>A session that creates one task at time 0 and is next polled 130 seconds later.\<close>

definition example_added :: manager where
  "example_added = snd (addTask (\<lambda>_. ''0000000a'') False minute_init 0 (new_manager (Some []) None))"

definition example_polled :: "scheduler \<times> manager" where
  "example_polled = manager_tick plain_env False False False 130000 (createCronScheduler, example_added)"

lemma example_added_eval:
  "addTask (\<lambda>_. ''0000000a'') False minute_init 0 (new_manager (Some []) None) =
     (Some minute_task,
      \<lparr>mg_store = [(''0000000a'', minute_task)], mg_persist = Some [(''0000000a'', minute_task)], mg_project = None,
       mg_owned = False, mg_steered = []\<rparr>)"
  by (simp add: addTask_def minute_init_def store_add_def generateCronTaskId_def MAX_ID_ATTEMPTS_def is_task_id_def
      task_of_def minute_task_def persist_write_def new_manager_def jm_has_def jm_get_def upt_rec numeral_eq_Suc Let_def)

lemma example_polled_eval:
  defines "t \<equiv> minute_task\<lparr>ct_lastFiredAt := Some 120000\<rparr>"
    and "o2 \<equiv> \<lparr>or_jobId = ''0000000a'', or_cron = ''* * * * *'', or_recurring = True, or_coalescedCount = 2, or_stale = False\<rparr>"
  shows "example_polled =
     (\<lparr>cs_parsedCache = [(''* * * * *'', minutely)], cs_lastSeenAt = [(''0000000a'', 120000)],
       cs_seededFromDisk = {''0000000a''}, cs_inFlight = {}\<rparr>,
      \<lparr>mg_store = [(''0000000a'', t)], mg_persist = Some [(''0000000a'', t)], mg_project = None, mg_owned = False,
       mg_steered = [(renderCronFireXml o2 ''poll'', o2)]\<rparr>)"
  by (simp add: example_polled_def example_added_def example_added_eval manager_tick_def tick_def minute_task_facts list_tasks_def
      createCronScheduler_def tick_task_def getParsed_def seed_cursor_def parse_minutely jm_get_def baseFromMs_def
      computeJitteredNext_def fire_task_def minutely_next minute_countCoalesced manager_callbacks_def handleFire_def
      isStale_def STALE_THRESHOLD_MS_def advanceCursor_def markFired_def persist_write_def minute_task_def [symmetric]
      t_def o2_def Let_def)

theorem resume_keeps_schedule_witness:
  "let files = [(''0000000a'', minute_task\<lparr>ct_lastFiredAt := Some 120000\<rparr>)];
       resumed = mg_store (loadFromDisk (new_manager (Some files) None))
   in mg_persist (snd example_polled) = Some files \<and> jm_get resumed ''0000000a'' = Some (minute_task\<lparr>ct_lastFiredAt := Some 120000\<rparr>) \<and>
      fst (getNextFireForTask plain_env 140000 (list_tasks resumed) ''0000000a'' createCronScheduler)
      = fst (getNextFireForTask plain_env 140000 (list_tasks (mg_store (snd example_polled))) ''0000000a'' (fst example_polled))"
proof -
  have "cron_session plain_env False 0 (createCronScheduler, example_added)"
    by (rule add_session [OF begin_session [where project = None], of minute_init "\<lambda>_. ''0000000a''" False 0 "Some minute_task"])
      (simp add: minute_init_def, simp_all add: example_added_def example_added_eval createCronScheduler_def jm_get_def)
  then have run: "cron_session plain_env False 130000 (fst example_polled, snd example_polled)"
    unfolding prod.collapse example_polled_def by (rule tick_session) simp
  show ?thesis
    using resume_keeps_schedule [OF run, of 140000 _ None "''0000000a''"]
    by (simp add: example_polled_eval Let_def jm_get_def [of "[_]"])
qed

section \<open>Durable tasks where there is no project file\<close>

text \<open>
  A durable task that falls back to session scope keeps its \<open>durable\<close> mark. Its record is written to the files of
  the session, but its removal is routed to the project file that does not exist: the file stays, and the deleted
  task is in the store again once the session has been resumed.
\<close>

theorem durable_fallback_revives:
  assumes no_project: "mg_project m = None" and files: "mg_persist m = Some files" "tasks_ok files"
    and add: "ti_durable init = Some True" "addTask candidate acquired init nowMs m = (Some task, m1)"
    and remove: "removeTasks [ct_id task] m1 = (removed, m2)"
  shows "removed = [ct_id task] \<and> jm_get (mg_store m2) (ct_id task) = None \<and>
    jm_get (mg_store (loadFromDisk (new_manager (mg_persist m2) None))) (ct_id task) = Some task"
proof -
  obtain i where i: "task = task_of init i nowMs" "m1 = persist_write task (m\<lparr>mg_store := jm_set (mg_store m) i task\<rparr>)"
    using add no_project by (auto simp: addTask_def store_add_def Let_def split: option.splits)
  have t: "ct_id task = i" "ct_durable task = Some True" using i(1) add(1) by (simp_all add: task_of_def)
  have r: "removed = [i]" "m2 = m1\<lparr>mg_store := jm_delete (mg_store m1) i\<rparr>"
    using remove t i(2) no_project
    by (auto simp: removeTasks_def persist_write_def on_project_def jm_has_def jm_get_set Let_def)
  have "mg_persist m2 = Some (jm_set files i task)" "mg_store m2 = jm_delete (mg_store m1) i"
    using r(2) i(2) files(1) t(1) by (simp_all add: persist_write_def)
  then show ?thesis
    using r(1) t(1) load_fresh(1) [OF tasks_ok_set [OF files(2) t(1)], of None i] by (simp add: jm_get_set jm_get_delete)
qed

theorem durable_fallback_revives_witness:
  "let m1 = snd (addTask (\<lambda>_. ''0000000a'') False (minute_init\<lparr>ti_durable := Some True\<rparr>) 0 (new_manager (Some []) None));
       (removed, m2) = removeTasks [''0000000a''] m1
   in removed = [''0000000a''] \<and> mg_store m2 = [] \<and>
      map ct_id (list_tasks (mg_store (loadFromDisk (new_manager (mg_persist m2) None)))) = [''0000000a'']"
proof -
  let ?t = "minute_task\<lparr>ct_durable := Some True\<rparr>"
  have add: "addTask (\<lambda>_. ''0000000a'') False (minute_init\<lparr>ti_durable := Some True\<rparr>) 0 (new_manager (Some []) None) =
      (Some ?t, \<lparr>mg_store = [(''0000000a'', ?t)], mg_persist = Some [(''0000000a'', ?t)], mg_project = None,
         mg_owned = False, mg_steered = []\<rparr>)"
    by (simp add: addTask_def minute_init_def store_add_def generateCronTaskId_def MAX_ID_ATTEMPTS_def is_task_id_def
        task_of_def minute_task_def persist_write_def new_manager_def jm_has_def jm_get_def upt_rec numeral_eq_Suc Let_def)
  let ?m1 = "snd (addTask (\<lambda>_. ''0000000a'') False (minute_init\<lparr>ti_durable := Some True\<rparr>) 0 (new_manager (Some []) None))"
  have remove: "removeTasks [''0000000a''] ?m1 =
      ([''0000000a''], \<lparr>mg_store = [], mg_persist = Some [(''0000000a'', ?t)], mg_project = None,
         mg_owned = False, mg_steered = []\<rparr>)"
    by (simp add: add removeTasks_def on_project_def jm_has_def jm_get_def jm_delete_def Let_def)
  show ?thesis
    using durable_fallback_revives [OF _ _ _ _ add, of "[]" "fst (removeTasks [''0000000a''] ?m1)" "snd (removeTasks [''0000000a''] ?m1)"]
      remove
    by (simp add: add new_manager_def tasks_ok_def jm_ok_def minute_init_def minute_task_facts jm_get_def loadFromDisk_def
        list_tasks_def adopt_def Let_def)
qed

end
