(* ===== verification/Cron_Text.thy ===== *)
theory Cron_Text
  imports Cron_Expr
begin

text \<open>
  The language of the cron parser: expressions as data, their text, and the proof that the parser reads
  every text of a valid expression back as the set of values the expression denotes, whatever white space
  separates the fields.
\<close>

section \<open>Expressions as data\<close>

datatype term_base = Star | Value nat | Span nat nat

type_synonym cron_item = "term_base \<times> nat option"

fun print_base :: "term_base \<Rightarrow> string" where
  "print_base Star = ''*''"
| "print_base (Value n) = string_of_nat n"
| "print_base (Span a b) = string_of_nat a @ ''-'' @ string_of_nat b"

fun print_item :: "cron_item \<Rightarrow> string" where
  "print_item (b, None) = print_base b"
| "print_item (b, Some step) = print_base b @ ''/'' @ string_of_nat step"

definition print_field :: "cron_item list \<Rightarrow> string" where
  "print_field items = join '','' (map print_item items)"

fun base_valid :: "nat \<Rightarrow> nat \<Rightarrow> term_base \<Rightarrow> bool" where
  "base_valid mn mx Star \<longleftrightarrow> True"
| "base_valid mn mx (Value n) \<longleftrightarrow> mn \<le> n \<and> n \<le> mx"
| "base_valid mn mx (Span a b) \<longleftrightarrow> mn \<le> a \<and> a \<le> b \<and> b \<le> mx"

definition item_valid :: "nat \<Rightarrow> nat \<Rightarrow> cron_item \<Rightarrow> bool" where
  "item_valid mn mx i \<longleftrightarrow> base_valid mn mx (fst i) \<and> snd i \<noteq> Some 0"

text \<open>The values a term denotes: every step-th value of its span; a value with a step opens a span.\<close>

definition stepped :: "nat \<Rightarrow> nat \<Rightarrow> nat option \<Rightarrow> int set" where
  "stepped lo hi step = {v. int lo \<le> v \<and> v \<le> int hi \<and> int (case step of None \<Rightarrow> 1 | Some k \<Rightarrow> k) dvd v - int lo}"

fun item_values :: "nat \<Rightarrow> nat \<Rightarrow> cron_item \<Rightarrow> int set" where
  "item_values mn mx (Star, step) = stepped mn mx step"
| "item_values mn mx (Value n, None) = {int n}"
| "item_values mn mx (Value n, Some k) = stepped n mx (Some k)"
| "item_values mn mx (Span a b, step) = stepped a b step"

section \<open>Reading characters back\<close>

lemma digits_of_nat: "list_all is_digit (string_of_nat n)" "string_of_nat n \<noteq> []" "digits_value (string_of_nat n) = n"
  using string_of_nat_props [of n] by simp_all

lemma parseCronInt_of_nat [simp]: "parseCronInt (string_of_nat n) name role = Inr (int n)"
  by (simp add: parseCronInt_def digits_of_nat)

lemma not_digit: "\<not> is_digit c \<Longrightarrow> c \<notin> set (string_of_nat n)"
  using digits_of_nat(1) [of n] by (auto simp: list_all_iff)

lemma symbols_not_digits: "\<not> is_digit (CHR ''*'')" "\<not> is_digit (CHR ''-'')" "\<not> is_digit (CHR ''/'')" "\<not> is_digit (CHR '','')"
  by (simp_all add: is_digit_def)

lemma indexOf_at: "c \<notin> set a \<Longrightarrow> indexOf (a @ c # b) c = Some (length a)"
  by (simp add: indexOf_def) (metis (mono_tags, lifting) takeWhile_append2 takeWhile.simps(2) append_Nil2)

lemma indexOf_none: "c \<notin> set s \<Longrightarrow> indexOf s c = None"
  by (simp add: indexOf_def)

lemma no_slash_base: "CHR ''/'' \<notin> set (print_base b)"
  using not_digit [of "CHR ''/''"] by (cases b) (simp_all add: symbols_not_digits)

lemma print_base_nonempty: "print_base b \<noteq> []"
  using digits_of_nat(2) by (cases b) simp_all

lemma print_item_nonempty: "print_item i \<noteq> []"
  using print_base_nonempty by (cases i rule: print_item.cases) simp_all

lemma term_step_item:
  assumes "snd i \<noteq> Some 0"
  shows "term_step (print_item i) name = Inr (print_base (fst i), int (case snd i of None \<Rightarrow> 1 | Some k \<Rightarrow> k), snd i \<noteq> None)"
proof (cases i rule: print_item.cases)
  case (1 b)
  then show ?thesis by (simp add: term_step_def indexOf_none no_slash_base)
next
  case (2 b k)
  have "indexOf (print_base b @ CHR ''/'' # string_of_nat k) (CHR ''/'') = Some (length (print_base b))"
    by (rule indexOf_at) (rule no_slash_base)
  then show ?thesis
    using 2 assms by (simp add: term_step_def Let_def digits_of_nat(2) print_base_nonempty)
qed

lemma stepped_range:
  "0 < k \<Longrightarrow> set (add_range out (int lo) (int hi) (int k)) = set out \<union> stepped lo hi (Some k)"
  "set (add_range out (int lo) (int hi) 1) = set out \<union> stepped lo hi None"
  using set_add_range [of "int k" out "int lo" "int hi"] set_add_range [of 1 out "int lo" "int hi"]
  by (simp_all add: stepped_def)

text \<open>A printed term adds exactly its values.\<close>

lemma addTerm_item:
  assumes "item_valid mn mx i"
  obtains out' where "addTerm out (print_item i) (int mn) (int mx) name = Inr out'"
    "set out' = set out \<union> item_values mn mx i"
proof -
  obtain b st where i: "i = (b, st)" by force
  define k where "k = (case st of None \<Rightarrow> 1 | Some k \<Rightarrow> k)"
  have st: "st \<noteq> Some 0" "0 < k" using assms i by (auto simp: item_valid_def k_def split: option.splits)
  have step: "term_step (print_item i) name = Inr (print_base b, int k, st \<noteq> None)"
    using term_step_item [of i name] st(1) by (simp add: i k_def)
  have cover: "set (add_range out (int lo) (int hi) (int k)) = set out \<union> stepped lo hi st" for lo hi
    using stepped_range(1) [where k = k and out = out and lo = lo and hi = hi] stepped_range(2) [of out lo hi] st(2) by (cases st) (simp_all add: k_def)
  have valid: "base_valid mn mx b" using assms i by (simp add: item_valid_def)
  have star: "string_of_nat n \<noteq> ''*''" "string_of_nat n @ CHR ''-'' # r \<noteq> ''*''" for n r
    using not_digit [of "CHR ''*''" n] digits_of_nat(2) [of n] symbols_not_digits by (cases "string_of_nat n"; force)+
  show thesis
  proof (cases b)
    case Star
    then show thesis
      using that [of "add_range out (int mn) (int mx) (int k)"] step cover i by (simp add: addTerm_def)
  next
    case (Value n)
    have "indexOf (string_of_nat n) (CHR ''-'') = None"
      by (rule indexOf_none) (rule not_digit, simp add: symbols_not_digits)
    then show thesis
      using that [of "if st = None then set_add out (int n) else add_range out (int n) (int mx) (int k)"]
        step cover i Value valid star(1) by (cases st) (simp_all add: addTerm_def)
  next
    case (Span lo hi)
    have "indexOf (string_of_nat lo @ CHR ''-'' # string_of_nat hi) (CHR ''-'') = Some (length (string_of_nat lo))"
      by (rule indexOf_at) (rule not_digit, simp add: symbols_not_digits)
    then show thesis
      using that [of "add_range out (int lo) (int hi) (int k)"] step cover i Span valid star(2)
      by (simp add: addTerm_def)
  qed
qed

section \<open>Fields\<close>

lemma upto_char:
  "c \<notin> set s \<Longrightarrow> takeWhile (\<lambda>x. x \<noteq> c) (s @ c # r) = s"
  "c \<notin> set s \<Longrightarrow> dropWhile (\<lambda>x. x \<noteq> c) (s @ c # r) = c # r"
  by (induction s) auto

lemma split_on_join:
  "xs \<noteq> [] \<Longrightarrow> \<forall>x \<in> set xs. c \<notin> set x \<Longrightarrow> split_on c (join [c] xs) = xs"
proof (induction "[c]" xs rule: join.induct)
  case (2 s)
  then have "dropWhile (\<lambda>x. x \<noteq> c) s = []" by (auto simp: dropWhile_eq_Nil_conv)
  then show ?case by (subst split_on.simps, simp only: join.simps) simp
next
  case (3 s t ss)
  then have s: "c \<notin> set s" by simp
  from upto_char [OF this] show ?case using 3 by (subst split_on.simps) simp
qed simp

lemma no_comma_item: "CHR '','' \<notin> set (print_item i)"
  using not_digit [of "CHR '',''"]
  by (cases i rule: print_item.cases; cases "fst i") (auto simp: symbols_not_digits)

lemma print_field_nonempty: "items \<noteq> [] \<Longrightarrow> print_field items \<noteq> []"
  using print_item_nonempty by (cases items rule: list.exhaust; cases "tl items") (simp_all add: print_field_def)

lemma add_terms_items:
  assumes "\<forall>i \<in> set items. item_valid mn mx i"
  obtains out' where "add_terms out (map print_item items) (int mn) (int mx) name = Inr out'"
    "set out' = set out \<union> (\<Union>i \<in> set items. item_values mn mx i)"
proof -
  have "\<exists>out'. add_terms out (map print_item items) (int mn) (int mx) name = Inr out'
      \<and> set out' = set out \<union> (\<Union>i \<in> set items. item_values mn mx i)"
    using assms
  proof (induction items arbitrary: out)
    case (Cons i rest)
    obtain o1 where "addTerm out (print_item i) (int mn) (int mx) name = Inr o1" "set o1 = set out \<union> item_values mn mx i"
      using addTerm_item [of mn mx i] Cons.prems by auto
    then show ?case
      using Cons.IH [of o1] Cons.prems print_item_nonempty [of i] by auto
  qed simp
  then show thesis using that by blast
qed

lemma parse_printed_field:
  assumes "items \<noteq> []" "\<forall>i \<in> set items. item_valid mn mx i" "mn \<le> mx"
  obtains xs where "parseField (print_field items) (int mn, int mx) name = Inr xs"
    "set xs = (\<Union>i \<in> set items. item_values mn mx i)"
proof -
  obtain xs where xs: "add_terms [] (map print_item items) (int mn) (int mx) name = Inr xs"
    "set xs = (\<Union>i \<in> set items. item_values mn mx i)"
    using add_terms_items [OF assms(2), of "[]" name] by auto
  have split: "split_on (CHR '','') (print_field items) = map print_item items"
    unfolding print_field_def by (rule split_on_join) (use assms(1) no_comma_item in auto)
  have "xs \<noteq> []"
  proof -
    obtain i where i: "i \<in> set items" using assms(1) by (cases items) auto
    obtain out' where o1: "addTerm [] (print_item i) (int mn) (int mx) name = Inr out'" "set out' = item_values mn mx i"
      using addTerm_item [of mn mx i "[]"] assms(2) i by auto
    then have "item_values mn mx i \<noteq> {}"
      using addTerm_range [OF o1(1)] assms(3) by auto
    then show ?thesis using xs(2) i by auto
  qed
  then show thesis
    using that [of xs] xs split print_field_nonempty [OF assms(1)] by (simp add: parseField_def)
qed

section \<open>Expressions\<close>

lemma visible_symbols: "\<not> is_space (CHR ''*'')" "\<not> is_space (CHR ''-'')" "\<not> is_space (CHR ''/'')" "\<not> is_space (CHR '','')"
  by (simp_all add: is_space_def)

lemma visible_nat: "c \<in> set (string_of_nat n) \<Longrightarrow> \<not> is_space c"
  using digits_of_nat(1) [of n] not_space_digit by (auto simp: list_all_iff)

lemma visible_item: "c \<in> set (print_item i) \<Longrightarrow> \<not> is_space c"
  by (cases i rule: print_item.cases; cases "fst i") (auto simp: visible_symbols dest: visible_nat)

lemma set_join: "set (join sep xs) \<subseteq> set sep \<union> (\<Union>x \<in> set xs. set x)"
  by (induction sep xs rule: join.induct) auto

lemma visible_field: "c \<in> set (print_field items) \<Longrightarrow> \<not> is_space c"
  using set_join [of "'',''" "map print_item items"] visible_item by (auto simp: print_field_def visible_symbols)

definition blank :: "string \<Rightarrow> bool" where
  "blank w \<longleftrightarrow> list_all is_space w"

text \<open>Fields with white space between them.\<close>

fun layout :: "string list \<Rightarrow> string list \<Rightarrow> string" where
  "layout (f # fs) (w # ws) = f @ w @ layout fs ws"
| "layout (f # fs) [] = f"
| "layout [] ws = []"

definition word :: "string \<Rightarrow> bool" where
  "word f \<longleftrightarrow> f \<noteq> [] \<and> list_all (\<lambda>c. \<not> is_space c) f"

lemma word_field: "items \<noteq> [] \<Longrightarrow> word (print_field items)"
  using print_field_nonempty [of items] visible_field by (auto simp: word_def list_all_iff)

lemma word_dropWhile:
  "word f \<Longrightarrow> dropWhile (\<lambda>c. \<not> is_space c) (f @ r) = dropWhile (\<lambda>c. \<not> is_space c) r"
  "word f \<Longrightarrow> takeWhile (\<lambda>c. \<not> is_space c) (f @ r) = f @ takeWhile (\<lambda>c. \<not> is_space c) r"
  by (auto simp: word_def list_all_iff intro: dropWhile_append2 takeWhile_append2)

lemma blank_dropWhile: "blank w \<Longrightarrow> dropWhile is_space (w @ r) = dropWhile is_space r"
  by (auto simp: blank_def list_all_iff intro: dropWhile_append2)

lemma layout_visible: "list_all word fs \<Longrightarrow> layout fs ws \<noteq> [] \<Longrightarrow> \<not> is_space (hd (layout fs ws))"
  by (cases "(fs, ws)" rule: layout.cases) (auto simp: word_def list_all_iff neq_Nil_conv)

lemma layout_starts: "list_all word fs \<Longrightarrow> dropWhile is_space (layout fs ws) = layout fs ws"
  by (cases "(fs, ws)" rule: layout.cases) (auto simp: word_def list_all_iff neq_Nil_conv)

lemma split_ws_layout:
  "list_all word fs \<Longrightarrow> list_all (\<lambda>w. w \<noteq> [] \<and> blank w) ws \<Longrightarrow> length fs = Suc (length ws) \<Longrightarrow>
   split_ws (layout fs ws) = fs"
proof (induction fs ws rule: layout.induct)
  case (1 f fs w ws)
  then obtain c w' where w: "w = c # w'" "is_space c" "blank w'" by (cases w) (auto simp: blank_def)
  have f: "word f" using 1 by simp
  have "dropWhile is_space (w' @ layout fs ws) = layout fs ws"
    using 1 w by (simp add: blank_dropWhile layout_starts)
  then show ?case
    using 1 w word_dropWhile [OF f, of "w @ layout fs ws"] by (subst split_ws.simps) simp
next
  case (2 f fs)
  then have f: "word f" "fs = []" by simp_all
  then have "dropWhile (\<lambda>c. \<not> is_space c) f = []" using word_dropWhile(1) [of f "[]"] by simp
  then have "split_ws f = [f]" by (subst split_ws.simps) (simp only: list.case)
  with f show ?case by simp
qed simp

lemma layout_ends:
  "list_all word fs \<Longrightarrow> length fs = Suc (length ws) \<Longrightarrow> layout fs ws \<noteq> [] \<and> \<not> is_space (last (layout fs ws))"
proof (induction fs ws rule: layout.induct)
  case (1 f fs w ws)
  then have "layout fs ws \<noteq> []" by simp
  then show ?case using 1 by simp
next
  case (2 f fs)
  then show ?case by (auto simp: word_def list_all_iff)
qed simp

lemma trim_layout:
  assumes "blank l" "blank r" "list_all word fs" "length fs = Suc (length ws)"
  shows "trim (l @ layout fs ws @ r) = layout fs ws"
proof -
  let ?t = "layout fs ws"
  have t: "?t \<noteq> []" "\<not> is_space (last ?t)" using layout_ends [OF assms(3,4)] by simp_all
  have "dropWhile is_space (l @ ?t @ r) = ?t @ r"
  proof -
    have "dropWhile is_space (l @ ?t @ r) = dropWhile is_space (?t @ r)" by (rule blank_dropWhile [OF assms(1)])
    also have "\<dots> = ?t @ r"
      using layout_visible [OF assms(3) t(1)] t(1) by (cases ?t) simp_all
    finally show ?thesis .
  qed
  moreover have "blank (rev r)" using assms(2) by (simp add: blank_def)
  moreover have "dropWhile is_space (rev ?t) = rev ?t"
    using t by (cases ?t rule: rev_cases) simp_all
  ultimately show ?thesis by (simp add: trim_def blank_dropWhile)
qed

lemma wildcard_field: "items \<noteq> [] \<Longrightarrow> isWildcard (print_field items) \<longleftrightarrow> items = [(Star, None)]"
proof (cases items)
  case (Cons i rest)
  show ?thesis
  proof (cases rest)
    case Nil
    have "print_item i = ''*'' \<longleftrightarrow> i = (Star, None)"
    proof (cases i rule: print_item.cases)
      case (1 b)
      have "string_of_nat n \<noteq> ''*''" "string_of_nat n @ CHR ''-'' # s \<noteq> ''*''" for n s
        using not_digit [of "CHR ''*''" n] digits_of_nat(2) [of n] symbols_not_digits by (cases "string_of_nat n"; force)+
      then show ?thesis using 1 by (cases b) simp_all
    next
      case (2 b k)
      have "CHR ''/'' \<in> set (print_item i)" using 2 by simp
      then have "print_item i \<noteq> ''*''" by auto
      then show ?thesis using 2 by simp
    qed
    then show ?thesis using Cons Nil by (simp add: print_field_def isWildcard_def)
  next
    case (Cons j more)
    then have "CHR '','' \<in> set (print_field items)" using \<open>items = i # rest\<close> by (simp add: print_field_def)
    then have "print_field items \<noteq> ''*''" by auto
    then show ?thesis using Cons \<open>items = i # rest\<close> by (simp add: isWildcard_def)
  qed
qed simp

definition field_valid :: "nat \<Rightarrow> nat \<Rightarrow> cron_item list \<Rightarrow> bool" where
  "field_valid mn mx items \<longleftrightarrow> items \<noteq> [] \<and> list_all (item_valid mn mx) items"

definition field_values :: "nat \<Rightarrow> nat \<Rightarrow> cron_item list \<Rightarrow> int set" where
  "field_values mn mx items = (\<Union>i \<in> set items. item_values mn mx i)"

text \<open>
  C37: Every text of a valid expression, with any white space around and between its five fields, is read back
  as the sets of values the fields denote; Sunday may be 7, and the wildcard flags mark the fields that are
  a bare star.
\<close>

theorem parse_printed_expression:
  assumes "field_valid 0 59 f1" "field_valid 0 23 f2" "field_valid 1 31 f3" "field_valid 1 12 f4" "field_valid 0 7 f5"
    and "blank l" "blank r" "list_all (\<lambda>w. w \<noteq> [] \<and> blank w) [w1, w2, w3, w4]"
  shows "\<exists>e. parseCronExpression
         (l @ layout [print_field f1, print_field f2, print_field f3, print_field f4, print_field f5] [w1, w2, w3, w4] @ r)
       = Inr e \<and>
     set (ce_minutes e) = field_values 0 59 f1 \<and> set (ce_hours e) = field_values 0 23 f2 \<and>
     set (ce_daysOfMonth e) = field_values 1 31 f3 \<and> set (ce_months e) = field_values 1 12 f4 \<and>
     set (ce_daysOfWeek e) = (\<lambda>v. if v = 7 then 0 else v) ` field_values 0 7 f5 \<and>
     (ce_daysOfMonthWildcard e \<longleftrightarrow> f3 = [(Star, None)]) \<and> (ce_daysOfWeekWildcard e \<longleftrightarrow> f5 = [(Star, None)])"
proof -
  let ?fs = "[print_field f1, print_field f2, print_field f3, print_field f4, print_field f5]"
  have w: "list_all word ?fs" using assms(1-5) by (simp add: word_field field_valid_def)
  have trimmed: "trim (l @ layout ?fs [w1, w2, w3, w4] @ r) = layout ?fs [w1, w2, w3, w4]"
    by (rule trim_layout [OF assms(6,7) w]) simp
  have split: "split_ws (layout ?fs [w1, w2, w3, w4]) = ?fs"
    by (rule split_ws_layout [OF w assms(8)]) simp
  have text_there: "layout ?fs [w1, w2, w3, w4] \<noteq> []"
    using layout_ends [OF w, of "[w1, w2, w3, w4]"] by simp
  have field: "\<exists>xs. parseField (print_field f) (int mn, int mx) name = Inr xs \<and> set xs = field_values mn mx f"
    if "field_valid mn mx f" "mn \<le> mx" for f mn mx name
  proof -
    note order = that(2)
    have "f \<noteq> []" "\<forall>i \<in> set f. item_valid mn mx i"
      using that(1) by (simp_all add: field_valid_def list_all_iff)
    then obtain xs where "parseField (print_field f) (int mn, int mx) name = Inr xs"
      "set xs = (\<Union>i \<in> set f. item_values mn mx i)"
      by (rule parse_printed_field [OF _ _ order])
    then show ?thesis by (auto simp: field_values_def)
  qed
  obtain x1 x2 x3 x4 x5 where x:
    "parseField (print_field f1) (0, 59) ''minute'' = Inr x1" "set x1 = field_values 0 59 f1"
    "parseField (print_field f2) (0, 23) ''hour'' = Inr x2" "set x2 = field_values 0 23 f2"
    "parseField (print_field f3) (1, 31) ''day-of-month'' = Inr x3" "set x3 = field_values 1 31 f3"
    "parseField (print_field f4) (1, 12) ''month'' = Inr x4" "set x4 = field_values 1 12 f4"
    "parseField (print_field f5) (0, 7) ''day-of-week'' = Inr x5" "set x5 = field_values 0 7 f5"
    using field [OF assms(1), of "''minute''"] field [OF assms(2), of "''hour''"] field [OF assms(3), of "''day-of-month''"]
      field [OF assms(4), of "''month''"] field [OF assms(5), of "''day-of-week''"] by auto
  have "set (fold_dow x5) = (\<lambda>v. if v = 7 then 0 else v) ` field_values 0 7 f5"
    using fold_dow_range(2) [of x5] parseField_range [OF x(9)] x(10) by simp
  then show ?thesis
    using x assms(3,5) text_there
    by (simp add: parseCronExpression_def trimmed split MINUTE_RANGE_def HOUR_RANGE_def DOM_RANGE_def MONTH_RANGE_def
        DOW_RANGE_def field_valid_def wildcard_field del: layout.simps)
qed

lemma sample_texts:
  "print_field [(Star, Some 15)] = ''*/15''" "print_field [(Span 9 17, None), (Value 20, None)] = ''9-17,20''"
  "print_field [(Star, None)] = ''*''" "print_field [(Value 1, None), (Value 3, None)] = ''1,3''"
  "print_field [(Span 1 5, None)] = ''1-5''"
  by code_simp+

theorem parse_printed_expression_witness:
  "\<exists>e. parseCronExpression '' */15 9-17,20 * 1,3 1-5 '' = Inr e \<and>
     set (ce_minutes e) = field_values 0 59 [(Star, Some 15)] \<and> ce_daysOfMonthWildcard e"
proof -
  have valid: "field_valid 0 59 [(Star, Some 15)]" "field_valid 0 23 [(Span 9 17, None), (Value 20, None)]"
    "field_valid 1 31 [(Star, None)]" "field_valid 1 12 [(Value 1, None), (Value 3, None)]" "field_valid 0 7 [(Span 1 5, None)]"
    "blank '' ''" "list_all (\<lambda>w. w \<noteq> [] \<and> blank w) ['' '', '' '', '' '', '' '']"
    by (simp_all add: field_valid_def item_valid_def blank_def is_space_def)
  show ?thesis
    using parse_printed_expression [OF valid(1-6) valid(6,7)] unfolding sample_texts by (auto simp del: One_nat_def)
qed

end
