(* ===== verification/Cron_Tools.thy ===== *)
theory Cron_Tools
  imports Cron_Session Cron_Text
begin

text \<open>
  The tools through which the model creates, deletes and lists cron tasks, \<open>tools/cron/cron-create.ts\<close>,
  \<open>cron-delete.ts\<close> and \<open>cron-list.ts\<close>. \<open>CronCreate\<close> checks when the call is prepared and acts when it is
  executed, which may be minutes later; the two are separate definitions with their own clock readings.

  Of the listing the rows are modelled; the prompt preview, which cuts UTF-8 bytes, and the text around
  the rows are not.
\<close>

section \<open>CronCreate\<close>

definition MAX_CRON_JOBS_PER_SESSION :: nat where "MAX_CRON_JOBS_PER_SESSION = 50"
definition MAX_PROMPT_BYTES :: nat where "MAX_PROMPT_BYTES = 8 * 1024"
definition ONE_SHOT_MAX_FUTURE_MS :: int where "ONE_SHOT_MAX_FUTURE_MS = 350 * 24 * 60 * 60 * 1000"

text \<open>The refusals, and the error thrown when no free id is found.\<close>

datatype create_error =
    CronDisabled
  | DurableUnavailable
  | InvalidExpression cron_error
  | NeverFires string
  | JobCapReached
  | PromptTooLong nat
  | NotWithinYear string int
  | NoUnusedId

record create_args =
  ca_cron :: string
  ca_prompt :: string
  ca_recurring :: "bool option"
  ca_durable :: "bool option"

text \<open>What the closure \<open>execute\<close> holds on to.\<close>

record prepared =
  pr_cron :: string
  pr_prompt :: string
  pr_recurring :: bool
  pr_durable :: bool
  pr_parsed :: ParsedCronExpression

record create_output =
  co_id :: string
  co_cron :: string
  co_humanSchedule :: string
  co_recurring :: bool
  co_durable :: bool
  co_nextFireAt :: "real option"

definition normalize_cron :: "string \<Rightarrow> string" where
  "normalize_cron s = join '' '' (split_ws (trim s))"

text \<open>\<open>Buffer.byteLength(s, 'utf8')\<close> for code units up to 255.\<close>

definition byteLength :: "string \<Rightarrow> nat" where
  "byteLength s = sum_list (map (\<lambda>c. if (of_char c :: nat) < 128 then 1 else 2) s)"

definition create_prepare ::
    "cron_env \<Rightarrow> bool \<Rightarrow> int \<Rightarrow> create_args \<Rightarrow> manager \<Rightarrow> create_error + prepared" where
  "create_prepare ev disabled nowAtPrepare args m =
     (if disabled then Inl CronDisabled
      else if ca_durable args = Some True \<and> mg_project m = None then Inl DurableUnavailable
      else let normalizedCron = normalize_cron (ca_cron args) in
      case parseCronExpression normalizedCron of
        Inl err \<Rightarrow> Inl (InvalidExpression err)
      | Inr parsed \<Rightarrow>
          if \<not> hasFireWithinYears (ev_zone ev) parsed 5 nowAtPrepare then Inl (NeverFires normalizedCron)
          else if length (list_tasks (mg_store m)) \<ge> MAX_CRON_JOBS_PER_SESSION then Inl JobCapReached
          else if byteLength (ca_prompt args) > MAX_PROMPT_BYTES then Inl (PromptTooLong (byteLength (ca_prompt args)))
          else
            let recurring = (ca_recurring args \<noteq> Some False);
                durable = (ca_durable args = Some True);
                ready = Inr \<lparr>pr_cron = normalizedCron, pr_prompt = ca_prompt args, pr_recurring = recurring,
                             pr_durable = durable, pr_parsed = parsed\<rparr>
            in if recurring then ready
               else (case computeNextCronRun (ev_zone ev) parsed nowAtPrepare of
                       Some firstFire \<Rightarrow>
                         if firstFire - nowAtPrepare > ONE_SHOT_MAX_FUTURE_MS then Inl (NotWithinYear normalizedCron firstFire)
                         else ready
                     | None \<Rightarrow> ready))"

definition create_execute ::
    "cron_env \<Rightarrow> (nat \<Rightarrow> string) \<Rightarrow> bool \<Rightarrow> int \<Rightarrow> prepared \<Rightarrow> manager \<Rightarrow> (create_error + create_output) \<times> manager" where
  "create_execute ev candidate acquired nowMs p m =
     (if length (list_tasks (mg_store m)) \<ge> MAX_CRON_JOBS_PER_SESSION then (Inl JobCapReached, m)
      else case addTask candidate acquired
                  \<lparr>ti_cron = pr_cron p, ti_prompt = pr_prompt p, ti_recurring = Some (pr_recurring p),
                   ti_lastFiredAt = None, ti_durable = Some (pr_durable p)\<rparr> nowMs m of
        (None, m') \<Rightarrow> (Inl NoUnusedId, m')
      | (Some task, m') \<Rightarrow>
          let nextFireAt =
                (case computeNextCronRun (ev_zone ev) (pr_parsed p) nowMs of
                   None \<Rightarrow> None
                 | Some ideal \<Rightarrow>
                     Some (if pr_recurring p
                           then jitteredNextCronRunMs ev task (pr_parsed p) ideal DEFAULT_CRON_JITTER_CONFIG
                           else oneShotJitteredNextCronRunMs ev task ideal DEFAULT_CRON_JITTER_CONFIG))
          in (Inr \<lparr>co_id = ct_id task, co_cron = pr_cron p, co_humanSchedule = cronToHuman (pr_parsed p),
                   co_recurring = pr_recurring p, co_durable = pr_durable p, co_nextFireAt = nextFireAt\<rparr>, m'))"

section \<open>CronDelete\<close>

datatype delete_result = InvalidId | Deleted | DeletedProject | NotFound

definition delete_execute :: "string \<Rightarrow> manager \<Rightarrow> delete_result \<times> manager" where
  "delete_execute i m =
     (if \<not> is_task_id i then (InvalidId, m)
      else let (removed, m1) = removeTasks [i] m in
        if removed \<noteq> [] then (Deleted, m1)
        else let (removedFromProject, m2) = removeProjectTasks [i] m1 in
          if removedFromProject \<noteq> [] then (DeletedProject, m2) else (NotFound, m2))"

section \<open>CronList\<close>

record list_row =
  lw_id :: string
  lw_cron :: string
  lw_humanSchedule :: string
  lw_project :: bool
  lw_nextFireAt :: "real option"
  lw_recurring :: bool
  lw_ageMs :: int
  lw_stale :: bool

definition renderRecord :: "bool \<Rightarrow> int \<Rightarrow> CronTask \<Rightarrow> real option \<Rightarrow> list_row" where
  "renderRecord noStale nowMs task nextFireMs =
     \<lparr>lw_id = ct_id task, lw_cron = ct_cron task,
      lw_humanSchedule = (case parseCronExpression (ct_cron task) of Inr e \<Rightarrow> cronToHuman e | Inl _ \<Rightarrow> ct_cron task),
      lw_project = (ct_durable task = Some True), lw_nextFireAt = nextFireMs, lw_recurring = (\<not> one_shot task),
      lw_ageMs = nowMs - ct_createdAt task, lw_stale = isStale noStale nowMs task\<rparr>"

definition pureNextFire :: "cron_env \<Rightarrow> CronTask \<Rightarrow> int \<Rightarrow> real option" where
  "pureNextFire ev task nowMs =
     (case parseCronExpression (ct_cron task) of
        Inl _ \<Rightarrow> None
      | Inr parsed \<Rightarrow>
          (let cursor = (case ct_lastFiredAt task of Some l \<Rightarrow> if l \<le> nowMs then Some l else None | None \<Rightarrow> None);
               base = (case cursor of Some c \<Rightarrow> if c > ct_createdAt task then c else ct_createdAt task
                       | None \<Rightarrow> ct_createdAt task)
           in case computeNextCronRun (ev_zone ev) parsed base of
                None \<Rightarrow> None
              | Some ideal \<Rightarrow>
                  Some (if one_shot task then oneShotJitteredNextCronRunMs ev task ideal DEFAULT_CRON_JITTER_CONFIG
                        else jitteredNextCronRunMs ev task parsed ideal DEFAULT_CRON_JITTER_CONFIG)))"

definition listProjectFileTasks :: "manager \<Rightarrow> CronTask list" where
  "listProjectFileTasks m =
     (case mg_project m of None \<Rightarrow> [] | Some content \<Rightarrow> map (\<lambda>t. t\<lparr>ct_durable := Some True\<rparr>) (readTasks content))"

text \<open>The scheduler caches the expressions it parses while it is asked for the next fires.\<close>

fun list_store_rows ::
    "cron_env \<Rightarrow> bool \<Rightarrow> int \<Rightarrow> CronTask list \<Rightarrow> CronTask list \<Rightarrow> scheduler \<Rightarrow> list_row list \<times> scheduler" where
  "list_store_rows ev noStale nowMs source [] s = ([], s)"
| "list_store_rows ev noStale nowMs source (t # ts) s =
     (let (nextFire, s1) = getNextFireForTask ev nowMs source (ct_id t) s;
          (rows, s2) = list_store_rows ev noStale nowMs source ts s1
      in (renderRecord noStale nowMs t nextFire # rows, s2))"

definition list_execute :: "cron_env \<Rightarrow> bool \<Rightarrow> int \<Rightarrow> scheduler \<times> manager \<Rightarrow> list_row list \<times> scheduler" where
  "list_execute ev noStale nowMs sm =
     (let (s, m) = sm;
          tasks = list_tasks (mg_store m);
          (rows, s1) = list_store_rows ev noStale nowMs tasks tasks s;
          fileTasks = filter (\<lambda>t. ct_id t \<notin> ct_id ` set tasks) (listProjectFileTasks m)
      in (rows @ map (\<lambda>t. renderRecord noStale nowMs t (pureNextFire ev t nowMs)) fileTasks, s1))"

section \<open>Normalising keeps the schedule\<close>

lemma words_of_trimmed:
  "t \<noteq> [] \<Longrightarrow> \<not> is_space (hd t) \<Longrightarrow> \<not> is_space (last t) \<Longrightarrow> list_all word (split_ws t)"
proof (induction t rule: split_ws.induct)
  case (1 t)
  let ?w = "takeWhile (\<lambda>x. \<not> is_space x) t"
  have t: "t = ?w @ dropWhile (\<lambda>x. \<not> is_space x) t" by simp
  have w: "word ?w" using 1(2,3) by (cases t) (auto simp: word_def list_all_iff dest: set_takeWhileD)
  show ?case
  proof (cases "dropWhile (\<lambda>x. \<not> is_space x) t")
    case Nil
    then have "?w = t" using t by simp
    then have "word t" using w by (simp only:)
    moreover have "split_ws t = [t]" by (subst split_ws.simps) (simp only: Nil list.case)
    ultimately show ?thesis by simp
  next
    case (Cons x r)
    have x: "is_space x" using Cons hd_dropWhile [of "\<lambda>x. \<not> is_space x" t] by simp
    have last: "last t = last (x # r)" using t unfolding Cons by (metis last_appendR list.distinct(1))
    then have r: "r \<noteq> []" "last r = last t" using x 1(4) by (cases r; simp)+
    then have u: "dropWhile is_space r \<noteq> []" using 1(4) by (metis dropWhile_eq_Nil_conv last_in_set)
    have "last (dropWhile is_space r) = last t" by (metis u r(2) last_appendR takeWhile_dropWhile_id)
    then have "list_all word (split_ws (dropWhile is_space r))"
      using 1(1) [OF Cons u] 1(4) hd_dropWhile [OF u] by simp
    then show ?thesis using w Cons by (subst split_ws.simps) simp
  qed
qed

lemma trim_ends: "trim s \<noteq> [] \<Longrightarrow> \<not> is_space (hd (trim s)) \<and> \<not> is_space (last (trim s))"
proof
  let ?d = "dropWhile is_space s"
  assume ne: "trim s \<noteq> []"
  then have r: "dropWhile is_space (rev ?d) \<noteq> []" by (simp add: trim_def)
  show "\<not> is_space (last (trim s))"
    using hd_dropWhile [OF r] by (simp add: trim_def last_rev)
  have d: "?d \<noteq> []" using r by (metis dropWhile.simps(1) rev.simps(1))
  obtain l where l: "rev ?d = l @ dropWhile is_space (rev ?d)" by (metis takeWhile_dropWhile_id)
  then have "?d = trim s @ rev l" unfolding trim_def by (metis rev_append rev_rev_ident)
  then have "hd (trim s) = hd ?d" using ne by (metis hd_append2)
  then show "\<not> is_space (hd (trim s))" using hd_dropWhile [OF d] by simp
qed

lemma join_layout: "ws \<noteq> [] \<Longrightarrow> join '' '' ws = layout ws (replicate (length ws - 1) '' '')"
  by (induction "'' ''" ws rule: join.induct) simp_all

lemma split_ws_nonempty: "split_ws t \<noteq> []"
  by (subst split_ws.simps) (simp split: list.split)

lemma normalize_words:
  assumes "trim s \<noteq> []"
  shows "trim (normalize_cron s) = normalize_cron s" "split_ws (normalize_cron s) = split_ws (trim s)" "normalize_cron s \<noteq> []"
proof -
  let ?ws = "split_ws (trim s)"
  let ?gaps = "replicate (length ?ws - 1) '' ''"
  have w: "list_all word ?ws" using words_of_trimmed trim_ends [OF assms] assms by blast
  have n: "normalize_cron s = layout ?ws ?gaps" by (simp add: normalize_cron_def join_layout split_ws_nonempty)
  have l: "length ?ws = Suc (length ?gaps)" using split_ws_nonempty [of "trim s"] by simp
  have g: "list_all (\<lambda>w. w \<noteq> [] \<and> blank w) ?gaps" by (auto simp: list_all_iff blank_def is_space_def)
  show "trim (normalize_cron s) = normalize_cron s"
    using trim_layout [of "[]" "[]", OF _ _ w l] by (simp add: n blank_def)
  show "split_ws (normalize_cron s) = ?ws" unfolding n by (rule split_ws_layout [OF w g l])
  show "normalize_cron s \<noteq> []" using layout_ends [OF w l] by (simp add: n)
qed

text \<open>
  \<open>CronCreate\<close> stores the expression with its white space normalised: it is rejected for the same reason as the
  text the model wrote, or denotes the same schedule.
\<close>

theorem normalize_keeps_schedule:
  "parseCronExpression (normalize_cron s) =
     (case parseCronExpression s of Inl e \<Rightarrow> Inl e | Inr parsed \<Rightarrow> Inr (parsed\<lparr>ce_raw := normalize_cron s\<rparr>))"
proof (cases "trim s = []")
  case True
  then have "normalize_cron s = []" by (simp add: normalize_cron_def split_ws.simps [of "[]"])
  then show ?thesis using True by (simp add: parseCronExpression_def) (simp add: trim_def)
next
  case False
  then show ?thesis
    using normalize_words [OF False]
    by (simp add: parseCronExpression_def Let_def split: list.splits sum.splits)
qed

section \<open>What CronCreate reports is what will happen\<close>

text \<open>
  The next fire that the answer of \<open>CronCreate\<close> names is the one the scheduler reports for the new task from then on,
  until the task first fires.
\<close>

theorem created_task_fires_as_told:
  assumes prepared: "create_prepare ev disabled t0 args m0 = Inr p"
    and executed: "create_execute ev candidate acquired nowMs p m = (Inr out, m')"
    and session: "\<not> pr_durable p" and store: "tasks_ok (mg_store m)"
    and scheduler: "cache_ok s" "jm_get (cs_lastSeenAt s) (co_id out) = None"
  shows "fst (getNextFireForTask ev later (list_tasks (mg_store m')) (co_id out) s) = co_nextFireAt out \<and>
    jm_get (mg_store m) (co_id out) = None \<and> (\<forall>j. j \<noteq> co_id out \<longrightarrow> jm_get (mg_store m') j = jm_get (mg_store m) j)"
proof -
  have parsed: "parseCronExpression (pr_cron p) = Inr (pr_parsed p)"
    using prepared by (auto simp: create_prepare_def Let_def split: if_splits sum.splits option.splits)
  let ?init = "\<lparr>ti_cron = pr_cron p, ti_prompt = pr_prompt p, ti_recurring = Some (pr_recurring p), ti_lastFiredAt = None,
      ti_durable = Some (pr_durable p)\<rparr>"
  obtain task where add: "addTask candidate acquired ?init nowMs m = (Some task, m')"
    using executed by (auto simp: create_execute_def Let_def split: if_splits option.splits prod.splits)
  then obtain i where i: "generateCronTaskId candidate (jm_has (mg_store m)) = Some i" "task = task_of ?init i nowMs"
      "mg_store m' = jm_set (mg_store m) i task"
    using session by (auto simp: addTask_def store_add_def Let_def persist_write_def split: option.splits)
  have "\<not> jm_has (mg_store m) i" using i(1) by (auto simp: generateCronTaskId_def find_Some_iff)
  then have fresh: "jm_get (mg_store m) i = None" by (simp add: jm_has_def)
  have t: "ct_id task = i" "ct_cron task = pr_cron p" "one_shot task \<longleftrightarrow> \<not> pr_recurring p" "ct_lastFiredAt task = None"
      "ct_createdAt task = nowMs"
    by (simp_all add: i(2) task_of_def)
  have out: "co_id out = i"
      "co_nextFireAt out = map_option (jittered ev task (pr_parsed p)) (computeNextCronRun (ev_zone ev) (pr_parsed p) nowMs)"
    using executed by (auto simp: create_execute_def add jittered_def t Let_def split: if_splits option.splits)
  have ok': "tasks_ok (mg_store m')" using tasks_ok_set [OF store t(1)] by (simp add: i(3))
  have "fst (nextFireFor ev later task s) = co_nextFireAt out"
    using scheduler(1)
  proof (cases rule: getParsed_ok [of s "ct_cron task"])
    case (good e s1)
    then show ?thesis
      using scheduler(2) parsed by (simp add: nextFireFor_def t out baseFromMs_def computeJitteredNext_def Let_def split: option.splits)
  qed (use parsed t in simp)
  then show ?thesis
    using fresh find_task [OF ok', of i] by (simp add: getNextFireForTask_def i(3) out(1) jm_get_set)
qed

definition example_prepared :: prepared where
  "example_prepared = \<lparr>pr_cron = ''* * * * *'', pr_prompt = ''poll'', pr_recurring = True, pr_durable = False, pr_parsed = minutely\<rparr>"

lemma example_prepare:
  "create_prepare plain_env False 0 \<lparr>ca_cron = '' * *  * * * '', ca_prompt = ''poll'', ca_recurring = None, ca_durable = None\<rparr>
     (new_manager (Some []) None) = Inr example_prepared"
proof -
  have n: "normalize_cron '' * *  * * * '' = ''* * * * *''" by code_simp
  have "nextRunWithinMinutes (3600000, []) minutely 0 2635200 = Some 60000"
    using minutely_next(1) by (simp add: computeNextCronRun_def)
  then show ?thesis
    by (simp add: create_prepare_def n parse_minutely hasFireWithinYears_def minute_task_facts new_manager_def list_tasks_def
        MAX_CRON_JOBS_PER_SESSION_def byteLength_def MAX_PROMPT_BYTES_def example_prepared_def Let_def)
qed

lemma example_execute:
  "create_execute plain_env (\<lambda>_. ''0000000a'') False 0 example_prepared (new_manager (Some []) None) =
     (Inr \<lparr>co_id = ''0000000a'', co_cron = ''* * * * *'', co_humanSchedule = cronToHuman minutely, co_recurring = True,
           co_durable = False, co_nextFireAt = Some 60000\<rparr>,
      snd (addTask (\<lambda>_. ''0000000a'') False
        (minute_init\<lparr>ti_recurring := Some True, ti_durable := Some False\<rparr>) 0 (new_manager (Some []) None)))"
  by (simp add: create_execute_def addTask_def minute_init_def store_add_def generateCronTaskId_def MAX_ID_ATTEMPTS_def
      is_task_id_def task_of_def minute_task_facts persist_write_def new_manager_def jm_has_def jm_get_def upt_rec numeral_eq_Suc
      Let_def example_prepared_def list_tasks_def MAX_CRON_JOBS_PER_SESSION_def jitteredNextCronRunMs_def plain_env_def
      minutely_next(1))

theorem created_task_fires_as_told_witness:
  "fst (getNextFireForTask plain_env 90000
     (list_tasks (mg_store (snd (create_execute plain_env (\<lambda>_. ''0000000a'') False 0 example_prepared (new_manager (Some []) None)))))
     ''0000000a'' createCronScheduler) = Some 60000"
  using created_task_fires_as_told [OF example_prepare example_execute, of createCronScheduler 90000]
  by (simp add: example_prepared_def new_manager_def tasks_ok_def jm_ok_def cache_ok_def createCronScheduler_def jm_get_def
      example_execute [unfolded example_prepared_def new_manager_def])

section \<open>Deleting is final\<close>

lemma readTasks_writeTasks: "readTasks (writeTasks ts) = map strip_durable (readTasks ts)"
  by (simp add: readTasks_def writeTasks_def filter_map o_def strip_durable_def)

lemma readTasks_filter: "readTasks (filter P (readTasks ts)) = filter P (readTasks ts)"
  by (simp add: readTasks_def) (rule filter_cong, auto)

lemma project_remove_one:
  "fst (project_remove [i] content) = [] \<longleftrightarrow> i \<notin> ct_id ` set (readTasks content)"
  "fst (project_remove [i] content) = [] \<Longrightarrow> snd (project_remove [i] content) = content"
  "fst (project_remove [i] content) \<noteq> [] \<Longrightarrow>
     readTasks (snd (project_remove [i] content)) = map strip_durable (filter (\<lambda>t. ct_id t \<noteq> i) (readTasks content))"
  by (auto simp: project_remove_def Let_def readTasks_writeTasks readTasks_filter filter_empty_conv split: if_splits)

text \<open>
  What \<open>CronDelete\<close> answers is what it did: a deleted task is gone from the store and does not come back when the
  session is resumed, a task deleted from the project schedule is gone from the file, every other task stays, and
  a task reported missing is neither in the store nor in the file.
\<close>

theorem delete_answers_truly:
  assumes mirror: "mirror_ok m" and executed: "delete_execute i m = (r, m')"
  shows "case r of
      InvalidId \<Rightarrow> \<not> is_task_id i \<and> m' = m
    | Deleted \<Rightarrow> jm_get (mg_store m) i \<noteq> None \<and> mg_project m' = mg_project m \<and>
        (\<forall>j. jm_get (mg_store m') j = (if j = i then None else jm_get (mg_store m) j)) \<and>
        (\<forall>j. jm_get (mg_store (loadFromDisk (new_manager (mg_persist m') None))) j = jm_get (mg_store m') j)
    | DeletedProject \<Rightarrow> jm_get (mg_store m) i = None \<and> mg_store m' = mg_store m \<and> mg_persist m' = mg_persist m \<and>
        (\<exists>content content'. mg_project m = Some content \<and> mg_project m' = Some content' \<and> i \<in> ct_id ` set (readTasks content) \<and>
          readTasks content' = map strip_durable (filter (\<lambda>t. ct_id t \<noteq> i) (readTasks content)))
    | NotFound \<Rightarrow> m' = m \<and> jm_get (mg_store m) i = None \<and>
        (\<forall>content. mg_project m = Some content \<longrightarrow> i \<notin> ct_id ` set (readTasks content))"
proof (cases "is_task_id i")
  case False
  then show ?thesis using executed by (auto simp: delete_execute_def)
next
  case True
  have m: "tasks_ok (mg_store m)" "session_scoped (mg_store m)" using mirror by (simp_all add: mirror_ok_def)
  obtain removed m1 where rm: "removeTasks [i] m = (removed, m1)" by force
  have removed: "removed = [] \<longleftrightarrow> jm_get (mg_store m) i = None" "mg_project m1 = mg_project m"
    using rm by (auto simp: removeTasks_session [OF m(2,1)] jm_has_def Let_def split: if_splits)
  show ?thesis
  proof (cases "removed = []")
    case False
    then have r: "r = Deleted" "m' = m1" using executed True rm by (simp_all add: delete_execute_def)
    note mr = mirror_remove [OF mirror, of "[i]"]
    obtain files where files: "mg_persist m1 = Some files" "tasks_ok files" "\<And>j. jm_get files j = jm_get (mg_store m1) j"
      using mr(1) rm by (auto simp: mirror_ok_def)
    show ?thesis
      using False removed mr(2) rm files load_fresh(1) [OF files(2), of None] by (simp add: r)
  next
    case Nil: True
    then have absent: "jm_get (mg_store m) i = None" using removed by simp
    then have "m1 = m\<lparr>mg_store := mg_store m, mg_persist := mg_persist m\<rparr>"
      using rm by (cases "mg_persist m") (auto simp: removeTasks_session [OF m(2,1)] jm_delete_absent jm_has_def)
    then have same: "m1 = m" by simp
    show ?thesis
    proof (cases "mg_project m")
      case None
      then show ?thesis using executed True rm Nil same absent by (auto simp: delete_execute_def removeProjectTasks_def)
    next
      case (Some content)
      show ?thesis
      proof (cases "fst (project_remove [i] content) = []")
        case True
        then show ?thesis
          using executed \<open>is_task_id i\<close> rm Nil same absent Some project_remove_one(1) [of i content]
          by (auto simp: delete_execute_def removeProjectTasks_def Let_def split: prod.splits)
      next
        case False
        have "set (fst (project_remove [i] content)) \<subseteq> {i}" by (auto simp: project_remove_def Let_def)
        then have "set (fst (store_remove (fst (project_remove [i] content)) (mg_store m))) = {}"
          using store_remove_props [OF m(1), of "fst (project_remove [i] content)"] absent by auto
        have kept: "snd (store_remove is (mg_store m)) = mg_store m" if "set is \<subseteq> {i}" for "is"
          using that absent by (induction "is") (auto simp: jm_delete_absent split_beta)
        show ?thesis
          using executed \<open>is_task_id i\<close> rm Nil same absent Some False project_remove_one(1,3) [of i content]
            kept [OF \<open>set (fst (project_remove [i] content)) \<subseteq> {i}\<close>]
          by (auto simp: delete_execute_def removeProjectTasks_def Let_def split_beta)
      qed
    qed
  qed
qed

theorem delete_answers_truly_witness:
  "fst (delete_execute ''0000000a'' example_added) = Deleted \<and> fst (delete_execute ''0000000b'' example_added) = NotFound \<and>
   mg_store (loadFromDisk (new_manager (mg_persist (snd (delete_execute ''0000000a'' example_added))) None)) = []"
proof -
  have mirror: "mirror_ok example_added"
    using mirror_add [of "new_manager (Some []) None" minute_init "\<lambda>_. ''0000000a''" False 0]
    by (simp add: example_added_def minute_init_def new_manager_def mirror_ok_def tasks_ok_def jm_ok_def session_scoped_def jm_get_def)
  obtain r m' where a: "delete_execute ''0000000a'' example_added = (r, m')" by force
  obtain r2 m2 where b: "delete_execute ''0000000b'' example_added = (r2, m2)" by force
  have ids: "is_task_id ''0000000a''" "is_task_id ''0000000b''" by (simp_all add: is_task_id_def)
  have store: "mg_store example_added = [(''0000000a'', minute_task)]" "mg_project example_added = None"
    by (simp_all add: example_added_def example_added_eval)
  have one: "r = Deleted" "\<And>j. jm_get (mg_store (loadFromDisk (new_manager (mg_persist m') None))) j = None"
    using delete_answers_truly [OF mirror a] ids store by (cases r; force simp: jm_get_def split: if_splits)+
  have "r2 = NotFound"
    using delete_answers_truly [OF mirror b] ids store by (cases r2; force simp: jm_get_def)
  moreover have "st = []" if "\<And>j. jm_get st j = None" for st :: task_store
    using that [of "fst (hd st)"] by (cases st) (simp_all add: jm_get_def split_beta)
  ultimately show ?thesis using one by (simp add: a b)
qed

section \<open>What CronList shows\<close>

text \<open>A session that does not own the project schedule computes what the scheduler of the owner reports.\<close>

lemma pureNextFire_scheduler:
  assumes "cache_ok s"
    and "\<And>c. jm_get (cs_lastSeenAt s) (ct_id t) = Some c \<Longrightarrow> ct_lastFiredAt t = Some c \<and> c \<le> nowMs"
  shows "pureNextFire ev t nowMs = fst (nextFireFor ev nowMs t s)"
  using assms(1)
proof (cases rule: getParsed_ok [of s "ct_cron t"])
  case (bad err)
  then show ?thesis by (simp add: pureNextFire_def nextFireFor_def)
next
  case (good e s1)
  then show ?thesis
    using assms(2) by (auto simp: pureNextFire_def nextFireFor_def computeJitteredNext_def jittered_def baseFromMs_def Let_def split: option.splits)
qed

lemma nextFireFor_cached:
  assumes "cache_ok s" "cache_ok s'" "cs_lastSeenAt s' = cs_lastSeenAt s"
  shows "fst (nextFireFor ev nowMs t s') = fst (nextFireFor ev nowMs t s)"
  using assms(1)
proof (cases rule: getParsed_ok [of s "ct_cron t"])
  case (bad err)
  from assms(2) show ?thesis using bad by (cases rule: getParsed_ok [of s' "ct_cron t"]) (simp_all add: nextFireFor_def)
next
  case (good e s1)
  from assms(2) show ?thesis
    using good assms(3) by (cases rule: getParsed_ok [of s' "ct_cron t"]) (simp_all add: nextFireFor_def Let_def)
qed

lemma nextFireFor_keeps:
  assumes "cache_ok s"
  shows "cache_ok (snd (nextFireFor ev nowMs t s))" "cs_lastSeenAt (snd (nextFireFor ev nowMs t s)) = cs_lastSeenAt s"
  using assms by (cases rule: getParsed_ok [of s "ct_cron t"]; simp add: nextFireFor_def Let_def)+

lemma list_store_rows_eq:
  "cache_ok s \<Longrightarrow> \<forall>t \<in> set ts. find (\<lambda>u. ct_id u = ct_id t) source = Some t \<Longrightarrow>
   fst (list_store_rows ev noStale nowMs source ts s) = map (\<lambda>t. renderRecord noStale nowMs t (fst (nextFireFor ev nowMs t s))) ts"
proof (induction ts arbitrary: s)
  case (Cons t ts)
  obtain r s1 where r: "nextFireFor ev nowMs t s = (r, s1)" by force
  note keeps = nextFireFor_keeps [OF Cons.prems(1), of ev nowMs t, unfolded r snd_conv]
  have "fst (list_store_rows ev noStale nowMs source ts s1) = map (\<lambda>t. renderRecord noStale nowMs t (fst (nextFireFor ev nowMs t s))) ts"
    using Cons.IH [OF keeps(1)] Cons.prems(2) nextFireFor_cached [OF Cons.prems(1) keeps] by simp
  then show ?case
    using Cons.prems(2) r by (simp add: getNextFireForTask_def split_beta)
qed simp

text \<open>
  The listing shows every task of the store and of the project file exactly once, each with the next fire that the
  scheduler of this session reports for it, and for a task held by another session the one that the scheduler of
  that session reports, as long as the file holds its cursor.
\<close>

theorem list_complete_and_accurate:
  assumes "tasks_ok (mg_store m)" "cache_ok s" and shared: "mg_project m = Some content" "distinct (map ct_id (readTasks content))"
    and owner: "cache_ok s2"
      "\<And>t c. t \<in> set (readTasks content) \<Longrightarrow> jm_get (cs_lastSeenAt s2) (ct_id t) = Some c \<Longrightarrow> ct_lastFiredAt t = Some c \<and> c \<le> nowMs"
    and listed: "list_execute ev noStale nowMs (s, m) = (rows, s')"
  shows "distinct (map lw_id rows) \<and> lw_id ` set rows = set (jm_keys (mg_store m)) \<union> ct_id ` set (readTasks content) \<and>
    (\<forall>row \<in> set rows.
       if jm_has (mg_store m) (lw_id row) then lw_nextFireAt row = fst (getNextFireForTask ev nowMs (list_tasks (mg_store m)) (lw_id row) s)
       else \<exists>t \<in> set (readTasks content). ct_id t = lw_id row \<and> lw_nextFireAt row = fst (nextFireFor ev nowMs (t\<lparr>ct_durable := Some True\<rparr>) s2))"
proof -
  let ?tasks = "list_tasks (mg_store m)"
  let ?mark = "\<lambda>t. t\<lparr>ct_durable := Some True\<rparr>"
  let ?others = "filter (\<lambda>t. ct_id t \<notin> ct_id ` set ?tasks) (listProjectFileTasks m)"
  let ?own = "\<lambda>t. renderRecord noStale nowMs t (fst (nextFireFor ev nowMs t s))"
  let ?other = "\<lambda>t. renderRecord noStale nowMs t (pureNextFire ev t nowMs)"
  have found: "find (\<lambda>u. ct_id u = ct_id t) ?tasks = Some t" if "t \<in> set ?tasks" for t
    using find_task [OF assms(1)] list_tasks_get [OF assms(1)] that by simp
  then have rows: "rows = map ?own ?tasks @ map ?other ?others"
    using list_store_rows_eq [OF assms(2), of ?tasks ?tasks ev noStale nowMs] listed by (auto simp: list_execute_def Let_def split_beta)
  have ids: "lw_id (renderRecord noStale nowMs t x) = ct_id t" for t x by (simp add: renderRecord_def)
  have others: "?others = map ?mark (filter (\<lambda>t. ct_id t \<notin> ct_id ` set ?tasks) (readTasks content))"
    by (simp add: listProjectFileTasks_def shared(1) filter_map o_def)
  have keys: "ct_id ` set ?tasks = set (jm_keys (mg_store m))" "map ct_id ?tasks = jm_keys (mg_store m)"
    using assms(1) by (force simp: list_tasks_def jm_keys_def tasks_ok_def)+
  have split: "(\<exists>t \<in> set ?tasks. row = ?own t) \<or> (\<exists>t \<in> set ?others. row = ?other t)" if "row \<in> set rows" for row
    using that unfolding rows set_append set_map by blast
  have "distinct (map lw_id rows)"
    using distinct_list_tasks [OF assms(1)] distinct_map_filter [OF shared(2)]
    by (auto simp: rows ids o_def others) (metis image_eqI)
  moreover have "lw_id ` set rows = set (jm_keys (mg_store m)) \<union> ct_id ` set (readTasks content)"
  proof -
    have "ct_id ` set ?others = {i \<in> ct_id ` set (readTasks content). i \<notin> ct_id ` set ?tasks}"
      unfolding others set_map image_image by auto
    moreover have "lw_id ` set rows = ct_id ` set ?tasks \<union> ct_id ` set ?others"
      unfolding rows set_append image_Un set_map image_image ids by (rule refl)
    ultimately have "lw_id ` set rows = ct_id ` set ?tasks \<union> {i \<in> ct_id ` set (readTasks content). i \<notin> ct_id ` set ?tasks}"
      by (simp only:)
    moreover have "A \<union> {i \<in> B. i \<notin> A} = A \<union> B" for A B :: "string set" by blast
    ultimately show ?thesis by (simp only: keys(1))
  qed
  moreover have "lw_nextFireAt row = fst (getNextFireForTask ev nowMs ?tasks (lw_id row) s)"
    if member: "row \<in> set rows" "jm_has (mg_store m) (lw_id row)" for row
  proof -
    have "lw_id row \<in> ct_id ` set ?tasks"
      using that(2) jm_get_None_iff [of "mg_store m" "lw_id row"] by (simp add: keys(1) jm_has_def)
    then obtain t where "t \<in> set ?tasks" "row = ?own t" using split [OF member(1)] ids by auto
    then show ?thesis using found by (simp add: getNextFireForTask_def ids) (simp add: renderRecord_def)
  qed
  moreover have "\<exists>t \<in> set (readTasks content). ct_id t = lw_id row \<and> lw_nextFireAt row = fst (nextFireFor ev nowMs (?mark t) s2)"
    if member: "row \<in> set rows" "\<not> jm_has (mg_store m) (lw_id row)" for row
  proof -
    have "lw_id row \<notin> ct_id ` set ?tasks"
      using that(2) jm_get_None_iff [of "mg_store m" "lw_id row"] by (simp add: keys(1) jm_has_def)
    then obtain t where t: "t \<in> set (readTasks content)" "row = ?other (?mark t)"
      using split [OF member(1)] ids unfolding others by auto
    have "pureNextFire ev (?mark t) nowMs = fst (nextFireFor ev nowMs (?mark t) s2)"
      by (rule pureNextFire_scheduler [OF owner(1)]) (use owner(2) [OF t(1)] in auto)
    then show ?thesis using t by (intro bexI [of _ t]) (simp_all add: renderRecord_def)
  qed
  ultimately show ?thesis by simp
qed

theorem list_complete_and_accurate_witness:
  "let file = [minute_task\<lparr>ct_id := ''0000000b'', ct_lastFiredAt := Some 120000\<rparr>];
       rows = fst (list_execute plain_env False 140000 (createCronScheduler, example_added\<lparr>mg_project := Some file\<rparr>))
   in distinct (map lw_id rows) \<and> lw_id ` set rows = {''0000000a'', ''0000000b''}"
proof -
  let ?u = "minute_task\<lparr>ct_id := ''0000000b'', ct_lastFiredAt := Some 120000\<rparr>"
  let ?m = "example_added\<lparr>mg_project := Some [?u]\<rparr>"
  obtain rows s' where listed: "list_execute plain_env False 140000 (createCronScheduler, ?m) = (rows, s')" by force
  have content: "readTasks [?u] = [?u]" by (simp add: readTasks_def is_task_id_def minute_task_facts parse_minutely)
  have "tasks_ok (mg_store ?m)" "cache_ok createCronScheduler" "mg_project ?m = Some [?u]"
    by (simp_all add: example_added_def example_added_eval tasks_ok_def jm_ok_def minute_task_facts cache_ok_def
        createCronScheduler_def jm_get_def)
  note r = list_complete_and_accurate [OF this, of "createCronScheduler\<lparr>cs_lastSeenAt := [(''0000000b'', 120000)]\<rparr>" 140000,
      OF _ _ _ listed]
  have "distinct (map lw_id rows) \<and> lw_id ` set rows = set (jm_keys (mg_store ?m)) \<union> ct_id ` set (readTasks [?u])"
    using r unfolding content
    by (simp add: cache_ok_def createCronScheduler_def jm_get_def split: if_splits)
  then show ?thesis
    unfolding Let_def listed content by (simp add: example_added_def example_added_eval jm_keys_def insert_commute)
qed

end
