(* ===== verification/Shell_Git.thy ===== *)
theory Shell_Git
  imports Prelude
begin

text \<open>
  The risk class of one shell command that runs git, \<open>packages/agent-core/src/tools/support/shell-ast/git-classify.ts\<close>.
  The tokens of the command are its words; \<open>None\<close> stands for a command that is not git.
\<close>

section \<open>Classes and tables\<close>

datatype git_class = ConfigInjection | SharedRemote | HistoryWrite | LocalWrite | ReadOnly | UnknownGit

definition READ_SUBCOMMANDS :: "string list" where
  "READ_SUBCOMMANDS =
     [''blame'', ''cat-file'', ''count-objects'', ''describe'', ''diff'', ''diff-files'', ''diff-index'', ''diff-tree'',
      ''for-each-ref'', ''grep'', ''help'', ''log'', ''ls-files'', ''ls-remote'', ''ls-tree'', ''name-rev'', ''rev-list'',
      ''rev-parse'', ''shortlog'', ''show'', ''show-branch'', ''show-ref'', ''status'', ''whatchanged'']"

definition LOCAL_WRITE_SUBCOMMANDS :: "string list" where
  "LOCAL_WRITE_SUBCOMMANDS =
     [''add'', ''am'', ''apply'', ''checkout'', ''cherry-pick'', ''clean'', ''clone'', ''fetch'', ''init'', ''merge'', ''mv'',
      ''pull'', ''restore'', ''revert'', ''rm'', ''stage'', ''stash'', ''switch'']"

definition HISTORY_WRITE_SUBCOMMANDS :: "string list" where
  "HISTORY_WRITE_SUBCOMMANDS = [''filter-branch'', ''rebase'', ''reset'', ''update-ref'']"

section \<open>Flags\<close>

definition shortBundleHas :: "string \<Rightarrow> char \<Rightarrow> bool" where
  "shortBundleHas arg flag \<longleftrightarrow>
     length arg > 1 \<and> arg ! 0 = CHR ''-'' \<and> arg ! 1 \<noteq> CHR ''-'' \<and> flag \<in> set (drop 1 arg)"

definition hasFlag :: "string list \<Rightarrow> string \<Rightarrow> char option \<Rightarrow> bool" where
  "hasFlag args long short \<longleftrightarrow>
     list_ex (\<lambda>arg. arg = ''--'' @ long \<or> (case short of None \<Rightarrow> False | Some f \<Rightarrow> shortBundleHas arg f)) args"

definition hasShortFlag :: "string list \<Rightarrow> char \<Rightarrow> bool" where
  "hasShortFlag args flag \<longleftrightarrow> list_ex (\<lambda>arg. shortBundleHas arg flag) args"

definition argsBeforeDoubleDash :: "string list \<Rightarrow> string list" where
  "argsBeforeDoubleDash args = takeWhile (\<lambda>arg. arg \<noteq> ''--'') args"

section \<open>The classifier\<close>

definition path_basename :: "string \<Rightarrow> string" where
  "path_basename name = rev (takeWhile (\<lambda>c. c \<noteq> CHR ''/'') (rev name))"

definition injects_config :: "string \<Rightarrow> bool" where
  "injects_config token \<longleftrightarrow> startsWith token ''-c'' \<or> token = ''--config-env'' \<or> startsWith token ''--config-env=''
     \<or> token = ''--exec-path'' \<or> startsWith token ''--exec-path=''"

definition takes_value :: "string \<Rightarrow> bool" where
  "takes_value token \<longleftrightarrow>
     token \<in> set [''-C'', ''--git-dir'', ''--work-tree'', ''--namespace'', ''--attr-source'']"

text \<open>The scan of the global options: an injection, or the words from the subcommand on.\<close>

fun global_scan :: "string list \<Rightarrow> string list option" where
  "global_scan [] = Some []"
| "global_scan (token # rest) =
     (if \<not> startsWith token ''-'' then Some (token # rest)
      else if injects_config token then None
      else if takes_value token then (case rest of [] \<Rightarrow> Some [] | _ # rest' \<Rightarrow> global_scan rest')
      else global_scan rest)"

definition subcommand_class :: "string \<Rightarrow> string list \<Rightarrow> git_class" where
  "subcommand_class subcommand args =
     (if subcommand \<in> set READ_SUBCOMMANDS then ReadOnly
      else if subcommand = ''push'' then SharedRemote
      else if subcommand \<in> set HISTORY_WRITE_SUBCOMMANDS then HistoryWrite
      else if subcommand = ''commit'' then (if hasFlag args ''amend'' None then HistoryWrite else LocalWrite)
      else if subcommand = ''branch'' then
        (if hasShortFlag args (CHR ''D'') \<or> (hasFlag args ''delete'' (Some (CHR ''d'')) \<and> hasFlag args ''force'' (Some (CHR ''f'')))
         then HistoryWrite else LocalWrite)
      else if subcommand = ''tag'' then (if hasFlag args ''force'' (Some (CHR ''f'')) then HistoryWrite else LocalWrite)
      else if subcommand = ''reflog'' then
        (case args of [] \<Rightarrow> ReadOnly
         | arg # _ \<Rightarrow> if arg = ''expire'' \<or> arg = ''delete'' then HistoryWrite else ReadOnly)
      else if subcommand \<in> set LOCAL_WRITE_SUBCOMMANDS then LocalWrite
      else UnknownGit)"

definition classifyGitSegment :: "string list \<Rightarrow> git_class option" where
  "classifyGitSegment tokens =
     (case tokens of
        [] \<Rightarrow> None
      | name # rest \<Rightarrow>
          if path_basename name \<noteq> ''git'' then None
          else (case global_scan rest of
              None \<Rightarrow> Some ConfigInjection
            | Some [] \<Rightarrow> Some ReadOnly
            | Some (subcommand # args) \<Rightarrow> Some (subcommand_class subcommand (argsBeforeDoubleDash args))))"

section \<open>Options cannot hide a subcommand\<close>

text \<open>Global options that change no configuration, with their values.\<close>

inductive plain_options :: "string list \<Rightarrow> bool" where
  no_option: "plain_options []"
| flag_option: "plain_options opts \<Longrightarrow> startsWith flag ''-'' \<Longrightarrow> \<not> injects_config flag \<Longrightarrow> \<not> takes_value flag
    \<Longrightarrow> plain_options (flag # opts)"
| value_option: "plain_options opts \<Longrightarrow> takes_value flag \<Longrightarrow> plain_options (flag # v # opts)"

lemma takes_value_dash: "takes_value t \<Longrightarrow> startsWith t ''-'' \<and> \<not> injects_config t"
  by (auto simp: takes_value_def injects_config_def startsWith_def)

lemma global_scan_plain: "plain_options opts \<Longrightarrow> global_scan (opts @ rest) = global_scan rest"
  by (induction rule: plain_options.induct) (simp_all add: takes_value_dash)

text \<open>An injecting option among the global options is found, whatever surrounds it.\<close>

lemma global_scan_injection:
  assumes "plain_options opts" "startsWith t ''-''" "injects_config t"
  shows "global_scan (opts @ t # rest) = None"
  using assms by (simp add: global_scan_plain)

text \<open>Every word list scans as global options followed by the subcommand, or by an injection, or ends in between.\<close>

lemma global_scan_Some:
  "global_scan ws = Some (sub # args) \<Longrightarrow> \<exists>opts. plain_options opts \<and> ws = opts @ sub # args \<and> \<not> startsWith sub ''-''"
proof (induction ws rule: global_scan.induct)
  case (2 token rest)
  show ?case
  proof (cases "startsWith token ''-''")
    case False
    then show ?thesis using 2(3) by (intro exI [of _ "[]"]) (auto intro: no_option)
  next
    case True
    then have inj: "\<not> injects_config token" using 2(3) by auto
    show ?thesis
    proof (cases "takes_value token")
      case True
      then obtain v rest' where r: "rest = v # rest'" using 2(3) \<open>startsWith token _\<close> inj by (cases rest) auto
      then obtain opts where "plain_options opts" "rest' = opts @ sub # args" "\<not> startsWith sub ''-''"
        using 2(1,3) \<open>startsWith token _\<close> inj True by auto
      then show ?thesis using r True by (intro exI [of _ "token # v # opts"]) (auto intro: value_option)
    next
      case False
      then obtain opts where "plain_options opts" "rest = opts @ sub # args" "\<not> startsWith sub ''-''"
        using 2(2,3) \<open>startsWith token _\<close> inj by auto
      then show ?thesis using False True inj by (intro exI [of _ "token # opts"]) (auto intro: flag_option)
    qed
  qed
qed simp

text \<open>Classes by how much they can lose: what a further flag can do to a class is raise it.\<close>

definition class_weight :: "git_class \<Rightarrow> nat" where
  "class_weight c = (case c of ReadOnly \<Rightarrow> 0 | LocalWrite \<Rightarrow> 1 | UnknownGit \<Rightarrow> 2 | HistoryWrite \<Rightarrow> 3 | SharedRemote \<Rightarrow> 4 | ConfigInjection \<Rightarrow> 5)"

lemma hasFlag_more: "hasFlag args long short \<Longrightarrow> hasFlag (args @ more) long short"
  by (auto simp: hasFlag_def)

lemma hasShortFlag_more: "hasShortFlag args flag \<Longrightarrow> hasShortFlag (args @ more) flag"
  by (auto simp: hasShortFlag_def)

lemma class_cascade:
  assumes "amend \<Longrightarrow> amend'" "branch_force \<Longrightarrow> branch_force'" "tag_force \<Longrightarrow> tag_force'" "class_weight reflog \<le> class_weight reflog'"
  shows "class_weight (if c1 then ReadOnly else if c2 then SharedRemote else if c3 then HistoryWrite
      else if c4 then (if amend then HistoryWrite else LocalWrite) else if c5 then (if branch_force then HistoryWrite else LocalWrite)
      else if c6 then (if tag_force then HistoryWrite else LocalWrite) else if c7 then reflog
      else if c8 then LocalWrite else UnknownGit)
    \<le> class_weight (if c1 then ReadOnly else if c2 then SharedRemote else if c3 then HistoryWrite
      else if c4 then (if amend' then HistoryWrite else LocalWrite) else if c5 then (if branch_force' then HistoryWrite else LocalWrite)
      else if c6 then (if tag_force' then HistoryWrite else LocalWrite) else if c7 then reflog'
      else if c8 then LocalWrite else UnknownGit)"
  using assms by (auto simp: class_weight_def)

lemma subcommand_class_more: "class_weight (subcommand_class sub args) \<le> class_weight (subcommand_class sub (args @ more))"
  unfolding subcommand_class_def
proof (rule class_cascade)
  show "class_weight (case args of [] \<Rightarrow> ReadOnly | arg # _ \<Rightarrow> if arg = ''expire'' \<or> arg = ''delete'' then HistoryWrite else ReadOnly)
    \<le> class_weight (case args @ more of [] \<Rightarrow> ReadOnly | arg # _ \<Rightarrow> if arg = ''expire'' \<or> arg = ''delete'' then HistoryWrite else ReadOnly)"
    by (cases args) (simp_all add: class_weight_def)
qed (use hasFlag_more [of args] hasShortFlag_more [of args] in blast)+

lemma path_basename_slash: "path_basename (dir @ ''/'' @ name) = path_basename name"
proof -
  have "takeWhile (\<lambda>c. c \<noteq> CHR ''/'') (xs @ CHR ''/'' # ys) = takeWhile (\<lambda>c. c \<noteq> CHR ''/'') xs" for xs ys
    by (induction xs) simp_all
  then show ?thesis by (simp add: path_basename_def)
qed

lemma basename_git: "path_basename ''git'' = ''git''" "path_basename (dir @ ''/git'') = ''git''"
  using path_basename_slash [of dir "''git''"] by (simp_all add: path_basename_def)

lemma takeWhile_prefix: "\<exists>more. takeWhile P (xs @ ys) = takeWhile P xs @ more"
  by (induction xs) auto

text \<open>
  C30: What a git command is classified as depends on its subcommand alone, wherever the binary lies and whatever
  harmless global options come before; an option that injects configuration is found at any place among them;
  and further arguments never lower the class.
\<close>

theorem options_do_not_hide:
  assumes "plain_options opts" and "name = ''git'' \<or> (\<exists>dir. name = dir @ ''/git'')"
  shows "classifyGitSegment (name # opts @ rest) = classifyGitSegment (''git'' # rest)
    \<and> (\<forall>t. startsWith t ''-'' \<and> injects_config t \<longrightarrow> classifyGitSegment (name # opts @ t # rest) = Some ConfigInjection)
    \<and> (\<forall>sub args more. \<not> startsWith sub ''-'' \<longrightarrow>
         class_weight (the (classifyGitSegment (name # opts @ sub # args)))
           \<le> class_weight (the (classifyGitSegment (name # opts @ sub # args @ more))))"
proof (intro conjI allI impI)
  have n: "path_basename name = ''git''" using assms(2) basename_git by auto
  then show "classifyGitSegment (name # opts @ rest) = classifyGitSegment (''git'' # rest)"
    using assms(1) by (simp add: classifyGitSegment_def global_scan_plain basename_git)
  show "classifyGitSegment (name # opts @ t # rest) = Some ConfigInjection" if "startsWith t ''-'' \<and> injects_config t" for t
    using that n assms(1) global_scan_injection by (simp add: classifyGitSegment_def)
  show "class_weight (the (classifyGitSegment (name # opts @ sub # args)))
      \<le> class_weight (the (classifyGitSegment (name # opts @ sub # args @ more)))" if "\<not> startsWith sub ''-''" for sub args more
  proof -
    obtain tail where "argsBeforeDoubleDash (args @ more) = argsBeforeDoubleDash args @ tail"
      using takeWhile_prefix unfolding argsBeforeDoubleDash_def by blast
    then show ?thesis
      using that n assms(1) subcommand_class_more by (simp add: classifyGitSegment_def global_scan_plain)
  qed
qed

lemma plain_example: "plain_options [''-C'', ''push'', ''--no-pager'']"
  by (intro value_option flag_option no_option) (simp_all add: takes_value_def injects_config_def startsWith_def)

theorem options_do_not_hide_witness:
  "classifyGitSegment [''/usr/bin/git'', ''-C'', ''push'', ''--no-pager'', ''branch'', ''-D'', ''main''] = Some HistoryWrite
   \<and> classifyGitSegment [''/usr/bin/git'', ''-C'', ''push'', ''--no-pager'', ''-calias.x=!sh'', ''status''] = Some ConfigInjection"
  using options_do_not_hide [OF plain_example, of "''/usr/bin/git''" "[''branch'', ''-D'', ''main'']"]
    options_do_not_hide [OF plain_example, of "''/usr/bin/git''" "[''status'']"]
  by (simp add: classifyGitSegment_def basename_git subcommand_class_def READ_SUBCOMMANDS_def HISTORY_WRITE_SUBCOMMANDS_def
      argsBeforeDoubleDash_def hasShortFlag_def hasFlag_def shortBundleHas_def startsWith_def injects_config_def)

end
