(* ===== verification/Perm_Rules.thy ===== *)
theory Perm_Rules
  imports Prelude
begin

text \<open>
  Permission rules, \<open>packages/agent-core/src/agent/permission/matches-rule.ts\<close>: the pattern language, the match
  of one rule against a resolved tool call, and the cover of a compound call by several allow rules.

  A resolved call brings its own matchers (\<open>RunnableToolExecution\<close>); they are functions in its record. Tool names
  are matched by the glob library picomatch, the argument \<open>glob\<close> (value first, pattern second).
\<close>

section \<open>Rules and executions\<close>

datatype rule_decision = Allow | Deny | Ask

datatype rule_scope = TurnOverride | SessionRuntime | ProjectScope | UserScope

record perm_rule =
  rl_decision :: rule_decision
  rl_scope :: rule_scope
  rl_pattern :: string
  rl_reason :: "string option"

text \<open>\<open>ex_ruleMatch\<close> holds the subjects and the matcher of a call that decomposes into segments.\<close>

record rule_execution =
  ex_ruleToolName :: "string option"
  ex_ruleMatch :: "(string list \<times> (string \<Rightarrow> string \<Rightarrow> rule_decision \<Rightarrow> bool)) option"
  ex_matchesRule :: "(string \<Rightarrow> bool) option"

definition ruleNamespaceOf :: "rule_execution \<Rightarrow> string \<Rightarrow> string" where
  "ruleNamespaceOf ex toolName = (case ex_ruleToolName ex of Some n \<Rightarrow> n | None \<Rightarrow> toolName)"

section \<open>Patterns\<close>

datatype pattern_error = EmptyPattern | MissingParen string | EmptyToolName string

definition parsePattern :: "string \<Rightarrow> pattern_error + string \<times> string option" where
  "parsePattern pattern =
     (let trimmed = trim pattern in
      if trimmed = [] then Inl EmptyPattern
      else case dropWhile (\<lambda>c. c \<noteq> CHR ''('') trimmed of
        [] \<Rightarrow> Inr (trimmed, None)
      | _ # rest \<Rightarrow>
          if \<not> endsWith trimmed '')'' then Inl (MissingParen pattern)
          else let toolName = takeWhile (\<lambda>c. c \<noteq> CHR ''('') trimmed; argPattern = butlast rest in
            if toolName = [] then Inl (EmptyToolName pattern)
            else if argPattern = [] then Inr (toolName, None)
            else Inr (toolName, Some argPattern))"

section \<open>Matching one rule\<close>

datatype match_strategy = ToolNameOnly | MatchesRule

record rule_match =
  rm_rule :: perm_rule
  rm_strategy :: match_strategy
  rm_hasRuleArgs :: bool

definition names_tool :: "(string \<Rightarrow> string \<Rightarrow> bool) \<Rightarrow> rule_execution \<Rightarrow> string \<Rightarrow> string \<Rightarrow> bool" where
  "names_tool glob ex toolName patternName \<longleftrightarrow> patternName = ''*'' \<or> glob (ruleNamespaceOf ex toolName) patternName"

definition matchPermissionRule ::
    "(string \<Rightarrow> string \<Rightarrow> bool) \<Rightarrow> perm_rule \<Rightarrow> string \<Rightarrow> rule_execution \<Rightarrow> rule_match option" where
  "matchPermissionRule glob rule toolName ex =
     (case parsePattern (rl_pattern rule) of
        Inl _ \<Rightarrow> None
      | Inr (name, args) \<Rightarrow>
          if \<not> names_tool glob ex toolName name then None
          else (case args of
            None \<Rightarrow> Some \<lparr>rm_rule = rule, rm_strategy = ToolNameOnly, rm_hasRuleArgs = False\<rparr>
          | Some argPattern \<Rightarrow>
              let found = Some \<lparr>rm_rule = rule, rm_strategy = MatchesRule, rm_hasRuleArgs = True\<rparr> in
              (case ex_ruleMatch ex of
                 Some (subjects, matches) \<Rightarrow>
                   let hit = (\<lambda>subject. matches argPattern subject (rl_decision rule));
                       matched = (if rl_decision rule = Allow then list_all hit subjects else list_ex hit subjects)
                   in if matched then found else None
               | None \<Rightarrow>
                   (case ex_matchesRule ex of
                      Some m \<Rightarrow> if m argPattern then found else None
                    | None \<Rightarrow> None))))"

section \<open>Covering the segments of a call\<close>

text \<open>One round of the loop: the indices covered so far and the first match.\<close>

definition cover_step ::
    "(string \<Rightarrow> string \<Rightarrow> bool) \<Rightarrow> string \<Rightarrow> rule_execution \<Rightarrow> string list \<Rightarrow> (string \<Rightarrow> string \<Rightarrow> rule_decision \<Rightarrow> bool) \<Rightarrow>
     perm_rule \<Rightarrow> nat set \<times> rule_match option \<Rightarrow> nat set \<times> rule_match option" where
  "cover_step glob toolName ex subjects matches rule acc =
     (let (covered, firstMatch) = acc in
      case parsePattern (rl_pattern rule) of
        Inl _ \<Rightarrow> acc
      | Inr (name, args) \<Rightarrow>
          if \<not> names_tool glob ex toolName name then acc
          else (case args of
            None \<Rightarrow>
              (covered \<union> set [0..<length subjects],
               if firstMatch = None then Some \<lparr>rm_rule = rule, rm_strategy = ToolNameOnly, rm_hasRuleArgs = False\<rparr>
               else firstMatch)
          | Some argPattern \<Rightarrow>
              let hits = filter (\<lambda>i. matches argPattern (subjects ! i) (rl_decision rule)) [0..<length subjects] in
              (covered \<union> set hits,
               if hits \<noteq> [] \<and> firstMatch = None
               then Some \<lparr>rm_rule = rule, rm_strategy = MatchesRule, rm_hasRuleArgs = True\<rparr> else firstMatch)))"

definition collectCoveredSubjects ::
    "(string \<Rightarrow> string \<Rightarrow> bool) \<Rightarrow> perm_rule list \<Rightarrow> string \<Rightarrow> rule_execution \<Rightarrow> (bool \<times> rule_match option) option" where
  "collectCoveredSubjects glob rules toolName ex =
     (case ex_ruleMatch ex of
        None \<Rightarrow> None
      | Some (subjects, matches) \<Rightarrow>
          (let (covered, firstMatch) = fold (cover_step glob toolName ex subjects matches) rules ({}, None)
           in Some (subjects \<noteq> [] \<and> card covered = length subjects, firstMatch)))"

section \<open>What a cover means\<close>

text \<open>A rule speaks for one segment.\<close>

definition rule_covers ::
    "(string \<Rightarrow> string \<Rightarrow> bool) \<Rightarrow> string \<Rightarrow> rule_execution \<Rightarrow> (string \<Rightarrow> string \<Rightarrow> rule_decision \<Rightarrow> bool) \<Rightarrow>
     perm_rule \<Rightarrow> string \<Rightarrow> bool" where
  "rule_covers glob toolName ex matches rule subject \<longleftrightarrow>
     (case parsePattern (rl_pattern rule) of
        Inl _ \<Rightarrow> False
      | Inr (name, args) \<Rightarrow> names_tool glob ex toolName name \<and>
          (case args of None \<Rightarrow> True | Some argPattern \<Rightarrow> matches argPattern subject (rl_decision rule)))"

lemma cover_step_covered:
  "fst (cover_step glob toolName ex subjects matches rule acc) =
     fst acc \<union> {i. i < length subjects \<and> rule_covers glob toolName ex matches rule (subjects ! i)}"
  by (auto simp: cover_step_def rule_covers_def Let_def split: sum.splits prod.splits option.splits)

lemma covered_fold:
  "fst (fold (cover_step glob toolName ex subjects matches) rules acc) =
     fst acc \<union> {i. i < length subjects \<and> (\<exists>rule \<in> set rules. rule_covers glob toolName ex matches rule (subjects ! i))}"
  by (induction rules arbitrary: acc) (auto simp: cover_step_covered)

lemma all_indices: "A \<subseteq> {..<n} \<Longrightarrow> card A = n \<longleftrightarrow> (\<forall>i < n. i \<in> A)" for A :: "nat set"
proof
  assume "A \<subseteq> {..<n}" "card A = n"
  then have "A = {..<n}" by (simp add: card_subset_eq)
  then show "\<forall>i < n. i \<in> A" by auto
next
  assume "A \<subseteq> {..<n}" "\<forall>i < n. i \<in> A"
  then have "A = {..<n}" by auto
  then show "card A = n" by simp
qed

text \<open>The union of a set of rules covers a call exactly when every segment has a rule that speaks for it.\<close>

lemma collect_covers_iff:
  assumes "ex_ruleMatch ex = Some (subjects, matches)"
  shows "(\<exists>m. collectCoveredSubjects glob rules toolName ex = Some (True, m)) \<longleftrightarrow>
    subjects \<noteq> [] \<and> (\<forall>subject \<in> set subjects. \<exists>rule \<in> set rules. rule_covers glob toolName ex matches rule subject)"
proof -
  let ?r = "fold (cover_step glob toolName ex subjects matches) rules ({}, None)"
  let ?P = "\<lambda>s. \<exists>rule \<in> set rules. rule_covers glob toolName ex matches rule s"
  have c: "fst ?r = {i. i < length subjects \<and> ?P (subjects ! i)}" by (simp add: covered_fold)
  then have "card (fst ?r) = length subjects \<longleftrightarrow> (\<forall>i < length subjects. i \<in> fst ?r)"
    by (intro all_indices) auto
  also have "\<dots> \<longleftrightarrow> (\<forall>s \<in> set subjects. ?P s)"
    unfolding c all_set_conv_all_nth by auto
  finally show ?thesis
    using assms by (auto simp: collectCoveredSubjects_def split_beta)
qed

text \<open>More rules cover more.\<close>

lemma collect_covers_mono:
  assumes "collectCoveredSubjects glob rules toolName ex = Some (True, m)" "set rules \<subseteq> set rules'"
  shows "\<exists>m'. collectCoveredSubjects glob rules' toolName ex = Some (True, m')"
proof (cases "ex_ruleMatch ex")
  case None
  then show ?thesis using assms(1) by (simp add: collectCoveredSubjects_def)
next
  case (Some sm)
  obtain subjects matches where sm: "ex_ruleMatch ex = Some (subjects, matches)" using Some by (cases sm) simp
  then show ?thesis using collect_covers_iff [OF sm] assms by blast
qed

text \<open>A single allow rule: the cover and the match of one rule agree on a call that has segments.\<close>

lemma single_allow_cover:
  assumes "ex_ruleMatch ex = Some (subjects, matches)" "subjects \<noteq> []" "rl_decision rule = Allow"
  shows "(\<exists>m. collectCoveredSubjects glob [rule] toolName ex = Some (True, m)) \<longleftrightarrow> matchPermissionRule glob rule toolName ex \<noteq> None"
  unfolding collect_covers_iff [OF assms(1)]
  using assms by (auto simp: rule_covers_def matchPermissionRule_def Let_def list_all_iff neq_Nil_conv split: sum.splits prod.splits option.splits)

text \<open>A deny or ask rule fires as soon as one segment matches.\<close>

lemma match_some_segment:
  assumes "ex_ruleMatch ex = Some (subjects, matches)" "rl_decision rule \<noteq> Allow" "subject \<in> set subjects"
    "rule_covers glob toolName ex matches rule subject"
  shows "matchPermissionRule glob rule toolName ex \<noteq> None"
  using assms by (auto simp: rule_covers_def matchPermissionRule_def Let_def list_ex_iff split: sum.splits prod.splits option.splits)

end
