(* ===== verification/Rule_Glob.thy ===== *)
theory Rule_Glob
  imports Perm_Rules
begin

text \<open>
  How the argument of a rule is matched against a text (a command, a URL, a search), \<open>tools/support/rule-match.ts\<close>
  and the text half of \<open>tools/support/path-glob-match.ts\<close>, and the rules that an approval writes for a literal text.

  The glob library picomatch is the argument \<open>glob\<close>, value first. The regular expression that
  \<open>looseTextGlobToRegExp\<close> compiles is the list of its parts, matched by \<open>loose_match\<close>.
\<close>

section \<open>Literal rules\<close>

definition GLOB_LITERAL_SPECIAL :: "char \<Rightarrow> bool" where
  "GLOB_LITERAL_SPECIAL c \<longleftrightarrow> c \<in> {CHR 0x5C, CHR ''*'', CHR ''?'', CHR ''['', CHR '']'', CHR ''{'', CHR ''}'', CHR ''('', CHR '')'',
     CHR ''!'', CHR ''+'', CHR ''@'', CHR ''|''}"

definition escapeRuleSubjectLiteral :: "string \<Rightarrow> string" where
  "escapeRuleSubjectLiteral subject = concat (map (\<lambda>c. if GLOB_LITERAL_SPECIAL c then [CHR 0x5C, c] else [c]) subject)"

definition literalRulePattern :: "string \<Rightarrow> string \<Rightarrow> string" where
  "literalRulePattern toolName subject = toolName @ ''('' @ escapeRuleSubjectLiteral subject @ '')''"

section \<open>Text globs\<close>

definition stripLeadingDotSlash :: "string \<Rightarrow> string" where
  "stripLeadingDotSlash value = (if startsWith value ''./'' then drop 2 value else value)"

definition globMatch :: "(string \<Rightarrow> string \<Rightarrow> bool) \<Rightarrow> string \<Rightarrow> string \<Rightarrow> bool" where
  "globMatch glob value pattern =
     (if glob value pattern then True
      else let normalizedValue = stripLeadingDotSlash value; normalizedPattern = stripLeadingDotSlash pattern in
        if normalizedValue = value \<and> normalizedPattern = pattern then False
        else glob normalizedValue normalizedPattern)"

datatype loose_part = AnyRun | AnyOne | Lit char

fun looseTextGlobToRegExp :: "string \<Rightarrow> loose_part list" where
  "looseTextGlobToRegExp [] = []"
| "looseTextGlobToRegExp [c] = (if c = CHR ''*'' then [AnyRun] else if c = CHR ''?'' then [AnyOne] else [Lit c])"
| "looseTextGlobToRegExp (c # d # p) =
     (if c = CHR 0x5C then Lit d # looseTextGlobToRegExp p
      else (if c = CHR ''*'' then AnyRun else if c = CHR ''?'' then AnyOne else Lit c) # looseTextGlobToRegExp (d # p))"

fun loose_match :: "loose_part list \<Rightarrow> string \<Rightarrow> bool" where
  "loose_match [] v \<longleftrightarrow> v = []"
| "loose_match (Lit c # ps) v \<longleftrightarrow> (case v of [] \<Rightarrow> False | x # v' \<Rightarrow> x = c \<and> loose_match ps v')"
| "loose_match (AnyOne # ps) v \<longleftrightarrow> (case v of [] \<Rightarrow> False | x # v' \<Rightarrow> loose_match ps v')"
| "loose_match (AnyRun # ps) v \<longleftrightarrow> loose_match ps v \<or> (case v of [] \<Rightarrow> False | x # v' \<Rightarrow> loose_match (AnyRun # ps) v')"

definition textGlobMatch :: "(string \<Rightarrow> string \<Rightarrow> bool) \<Rightarrow> string \<Rightarrow> string \<Rightarrow> bool" where
  "textGlobMatch glob value pattern = (if globMatch glob value pattern then True else loose_match (looseTextGlobToRegExp pattern) value)"

definition matchRuleSubjects :: "string \<Rightarrow> string list \<Rightarrow> (string \<Rightarrow> string \<Rightarrow> bool) \<Rightarrow> bool" where
  "matchRuleSubjects ruleArgs subjects matchesPositivePattern =
     (if ruleArgs = [] then True
      else let negated = startsWith ruleArgs ''!'';
               positivePattern = (if negated then drop 1 ruleArgs else ruleArgs);
               hit = list_ex (\<lambda>subject. matchesPositivePattern positivePattern subject) subjects
           in if negated then \<not> hit else hit)"

definition matchesGlobRuleSubject :: "(string \<Rightarrow> string \<Rightarrow> bool) \<Rightarrow> string \<Rightarrow> string \<Rightarrow> bool" where
  "matchesGlobRuleSubject glob ruleArgs subject =
     matchRuleSubjects ruleArgs [subject] (\<lambda>pattern value. textGlobMatch glob value pattern)"

section \<open>Escaping is exact\<close>

lemma not_special: "\<not> GLOB_LITERAL_SPECIAL c \<Longrightarrow> c \<noteq> CHR 0x5C \<and> c \<noteq> CHR ''*'' \<and> c \<noteq> CHR ''?'' \<and> c \<noteq> CHR ''!''"
  by (auto simp: GLOB_LITERAL_SPECIAL_def)

lemma escape_cons:
  "escapeRuleSubjectLiteral (c # s) = (if GLOB_LITERAL_SPECIAL c then [CHR 0x5C, c] else [c]) @ escapeRuleSubjectLiteral s"
  by (simp add: escapeRuleSubjectLiteral_def)

lemma loose_escape_cons:
  "looseTextGlobToRegExp (escapeRuleSubjectLiteral (c # s)) = Lit c # looseTextGlobToRegExp (escapeRuleSubjectLiteral s)"
  using not_special [of c] by (cases "escapeRuleSubjectLiteral s") (simp_all add: escape_cons)

lemma loose_escape: "loose_match (looseTextGlobToRegExp (escapeRuleSubjectLiteral s)) v \<longleftrightarrow> v = s"
proof (induction s arbitrary: v)
  case Nil
  then show ?case by (simp add: escapeRuleSubjectLiteral_def)
next
  case (Cons c s)
  then show ?case by (cases v) (auto simp: loose_escape_cons)
qed

lemma escape_empty: "escapeRuleSubjectLiteral s = [] \<longleftrightarrow> s = []"
  by (cases s) (simp_all add: escapeRuleSubjectLiteral_def)

lemma escape_not_negated: "\<not> startsWith (escapeRuleSubjectLiteral s) ''!''"
  using not_special by (cases s) (auto simp: escape_cons startsWith_def escapeRuleSubjectLiteral_def)

lemma plain_characters: "\<not> GLOB_LITERAL_SPECIAL (CHR ''.'')" "\<not> GLOB_LITERAL_SPECIAL (CHR ''/'')" "GLOB_LITERAL_SPECIAL (CHR 0x5C)"
  by (simp_all add: GLOB_LITERAL_SPECIAL_def)

lemma escape_starts_dot: "startsWith (escapeRuleSubjectLiteral s) ''./'' \<longleftrightarrow> startsWith s ''./''"
proof (cases s)
  case (Cons c t)
  show ?thesis
  proof (cases t)
    case Nil
    then show ?thesis using Cons plain_characters by (auto simp: escape_cons escapeRuleSubjectLiteral_def startsWith_def)
  next
    case (Cons d u)
    then show ?thesis using \<open>s = c # t\<close> plain_characters by (auto simp: escape_cons startsWith_def)
  qed
qed (simp add: startsWith_def escapeRuleSubjectLiteral_def)

lemma escape_dot_slash: "stripLeadingDotSlash (escapeRuleSubjectLiteral s) = escapeRuleSubjectLiteral (stripLeadingDotSlash s)"
proof (cases "startsWith s ''./''")
  case True
  then obtain r where "s = ''./'' @ r" by (auto simp: startsWith_iff_append)
  then show ?thesis by (simp add: stripLeadingDotSlash_def escape_cons plain_characters startsWith_def)
qed (simp add: stripLeadingDotSlash_def escape_starts_dot)

lemma matches_escaped: "s \<noteq> [] \<Longrightarrow> matchesGlobRuleSubject glob (escapeRuleSubjectLiteral s) v \<longleftrightarrow> textGlobMatch glob v (escapeRuleSubjectLiteral s)"
  by (simp add: matchesGlobRuleSubject_def matchRuleSubjects_def escape_empty escape_not_negated)

lemma trim_inner:
  assumes "s \<noteq> []" "\<not> is_space (hd s)" "\<not> is_space (last s)"
  shows "trim s = s"
proof -
  have "dropWhile is_space s = s" using assms by (cases s) simp_all
  moreover have "dropWhile is_space (rev s) = rev s" using assms by (cases s rule: rev_cases) simp_all
  ultimately show ?thesis by (simp add: trim_def)
qed

text \<open>The rule written for a literal text reads back as that tool and that text; only the empty text reads back as
  a rule for every call of the tool.\<close>

lemma parse_literal_pattern:
  assumes "t \<noteq> []" "\<not> is_space (hd t)" "CHR ''('' \<notin> set t"
  shows "parsePattern (literalRulePattern t s) = Inr (t, if s = [] then None else Some (escapeRuleSubjectLiteral s))"
proof -
  let ?p = "literalRulePattern t s"
  have "trim ?p = ?p"
    using assms by (intro trim_inner) (simp_all add: literalRulePattern_def is_space_def)
  moreover have "dropWhile (\<lambda>c. c \<noteq> CHR ''('') ?p = CHR ''('' # escapeRuleSubjectLiteral s @ '')''"
    "takeWhile (\<lambda>c. c \<noteq> CHR ''('') ?p = t"
    using assms(3) by (auto simp: literalRulePattern_def dropWhile_append takeWhile_append)
  moreover have "endsWith ?p '')''" "?p \<noteq> []" by (simp_all add: endsWith_def literalRulePattern_def)
  ultimately show ?thesis
    using assms(1) by (simp add: parsePattern_def escape_empty butlast_append)
qed

text \<open>
  Approving a call with a literal text, for the session or for good, writes a rule that covers the same call
  again. Of the calls with another text it covers, up to a leading \<open>./\<close>, none, except one whose text is the escaped text of
  the rule itself. This is for a non-empty text, a tool that matches its single text by \<open>matchesGlobRuleSubject\<close> and
  is named by the rule, and for texts without double quotes, which escaping leaves alone although the glob library gives
  them a meaning. Of the glob library it takes that an escaped text without quotes matches only itself (a leading \<open>./\<close>
  apart) or the very characters of the pattern.
\<close>

theorem literal_rule_is_exact:
  assumes "t \<noteq> []" "\<not> is_space (hd t)" "CHR ''('' \<notin> set t" and "s \<noteq> []" "CHR 0x22 \<notin> set s"
    and same_tool: "names_tool glob ex toolName t"
    and subjects: "ex_ruleMatch ex = None" "ex_matchesRule ex = Some (\<lambda>args. matchesGlobRuleSubject glob args v)"
    and escaped: "\<And>x y. CHR 0x22 \<notin> set y \<Longrightarrow> glob x (escapeRuleSubjectLiteral y) \<Longrightarrow>
       stripLeadingDotSlash x = stripLeadingDotSlash y \<or> x = escapeRuleSubjectLiteral y"
    and rule: "rl_pattern rule = literalRulePattern t s"
  shows "(v = s \<longrightarrow> matchPermissionRule glob rule toolName ex \<noteq> None) \<and>
    (matchPermissionRule glob rule toolName ex \<noteq> None \<longrightarrow>
       stripLeadingDotSlash (stripLeadingDotSlash v) = stripLeadingDotSlash (stripLeadingDotSlash s)
       \<or> stripLeadingDotSlash v = escapeRuleSubjectLiteral (stripLeadingDotSlash s))"
proof -
  have m: "matchPermissionRule glob rule toolName ex \<noteq> None \<longleftrightarrow> textGlobMatch glob v (escapeRuleSubjectLiteral s)"
    using assms by (simp add: matchPermissionRule_def parse_literal_pattern rule Let_def matches_escaped)
  have q: "CHR 0x22 \<notin> set (stripLeadingDotSlash s)"
    using assms(5) by (auto simp: stripLeadingDotSlash_def dest: in_set_dropD)
  have "textGlobMatch glob s (escapeRuleSubjectLiteral s)" by (simp add: textGlobMatch_def loose_escape)
  moreover have "stripLeadingDotSlash (stripLeadingDotSlash v) = stripLeadingDotSlash (stripLeadingDotSlash s)
      \<or> stripLeadingDotSlash v = escapeRuleSubjectLiteral (stripLeadingDotSlash s)" if "textGlobMatch glob v (escapeRuleSubjectLiteral s)"
    using that escaped [OF assms(5), of v] escaped [OF q, of "stripLeadingDotSlash v"] escape_dot_slash [of s]
    by (auto simp: textGlobMatch_def globMatch_def loose_escape Let_def split: if_splits)
  ultimately show ?thesis using m by blast
qed

text \<open>
  A rule for a command also covers the file of that name in the current directory: whatever a pattern covers, it
  covers with \<open>./\<close> in front. An allow rule for \<open>git status\<close> allows \<open>./git status\<close>, which runs another program.
\<close>

theorem rule_covers_local_file:
  assumes "glob v p" "\<not> startsWith p ''./''" "\<not> startsWith p ''!''"
  shows "matchesGlobRuleSubject glob p (''./'' @ v)"
  using assms by (simp add: matchesGlobRuleSubject_def matchRuleSubjects_def textGlobMatch_def globMatch_def stripLeadingDotSlash_def
      startsWith_def)

text \<open>A glob library that knows only literal texts and the loose wildcards.\<close>

definition plain_glob :: "string \<Rightarrow> string \<Rightarrow> bool" where
  "plain_glob v p \<longleftrightarrow> loose_match (looseTextGlobToRegExp p) v"

theorem literal_rule_is_exact_witness:
  "matchPermissionRule plain_glob
     \<lparr>rl_decision = Allow, rl_scope = SessionRuntime, rl_pattern = literalRulePattern ''WebSearch'' ''what is *?'', rl_reason = None\<rparr>
     ''WebSearch'' \<lparr>ex_ruleToolName = None, ex_ruleMatch = None,
       ex_matchesRule = Some (\<lambda>args. matchesGlobRuleSubject plain_glob args ''what is *?'')\<rparr> \<noteq> None"
proof -
  have "plain_glob ''WebSearch'' ''WebSearch''" by (simp add: plain_glob_def)
  then show ?thesis
    using literal_rule_is_exact [of "''WebSearch''" "''what is *?''" plain_glob
        "\<lparr>ex_ruleToolName = None, ex_ruleMatch = None,
          ex_matchesRule = Some (\<lambda>args. matchesGlobRuleSubject plain_glob args ''what is *?'')\<rparr>" "''WebSearch''" "''what is *?''"
        "\<lparr>rl_decision = Allow, rl_scope = SessionRuntime, rl_pattern = literalRulePattern ''WebSearch'' ''what is *?'', rl_reason = None\<rparr>"]
    by (simp add: names_tool_def ruleNamespaceOf_def is_space_def plain_glob_def loose_escape)
qed

theorem rule_covers_local_file_witness: "matchesGlobRuleSubject plain_glob ''git *'' ''./git status''"
proof -
  have "plain_glob ''git status'' ''git *''" by (simp add: plain_glob_def)
  then show ?thesis
    using rule_covers_local_file [of plain_glob "''git status''" "''git *''"] by (simp add: startsWith_def)
qed

end
