(* ===== verification/Shell_Words.thy ===== *)
theory Shell_Words
  imports Shell_Git Rule_Glob
begin

text \<open>
  The analysis of a Bash command for permission matching, on the words of its simple commands,
  \<open>packages/agent-core/src/tools/support/shell-ast\<close>: wrapper commands such as \<open>sudo\<close> are peeled off
  (\<open>wrappers.ts\<close>), the leading words that name the command are found (\<open>arity.ts\<close>), and every segment gets the rule
  that an approval would write and its git class (\<open>index.ts\<close>, \<open>subcommands.ts\<close>).

  The syntax tree that tree-sitter returns is data: a node has a type, its source text and its children.
\<close>

section \<open>Wrapper flags\<close>

record flag_spec =
  fs_free :: "string list"
  fs_value :: "string list"
  fs_equalsValue :: "string list"

definition SUDO_FLAGS :: flag_spec where
  "SUDO_FLAGS =
     \<lparr>fs_free = [''-A'', ''-E'', ''-H'', ''-K'', ''-P'', ''-S'', ''-b'', ''-i'', ''-k'', ''-n'', ''-s'', ''-v'',
        ''--askpass'', ''--background'', ''--login'', ''--non-interactive'', ''--preserve-env'',
        ''--shell'', ''--stdin''],
      fs_value = [''-C'', ''-T'', ''-g'', ''-h'', ''-p'', ''-r'', ''-t'', ''-u'', ''--chdir'', ''--command-timeout'',
        ''--group'', ''--host'', ''--prompt'', ''--role'', ''--type'', ''--user''],
      fs_equalsValue = [''--preserve-env'']\<rparr>"

definition DOAS_FLAGS :: flag_spec where
  "DOAS_FLAGS =
     \<lparr>fs_free = [''-S'', ''-k'', ''-n'', ''-s''],
      fs_value = [''-C'', ''-u''],
      fs_equalsValue = []\<rparr>"

definition ENV_FLAGS :: flag_spec where
  "ENV_FLAGS =
     \<lparr>fs_free = [''-0'', ''-i'', ''-v'', ''--ignore-environment'', ''--null''],
      fs_value = [''-C'', ''-u'', ''--chdir'', ''--unset''],
      fs_equalsValue = []\<rparr>"

definition TIMEOUT_FLAGS :: flag_spec where
  "TIMEOUT_FLAGS =
     \<lparr>fs_free = [''-v'', ''--foreground'', ''--preserve-status'', ''--verbose''],
      fs_value = [''-k'', ''-s'', ''--kill-after'', ''--signal''],
      fs_equalsValue = []\<rparr>"

definition is_alnum :: "char \<Rightarrow> bool" where
  "is_alnum c \<longleftrightarrow> (let n = of_char c :: nat in (48 \<le> n \<and> n \<le> 57) \<or> (65 \<le> n \<and> n \<le> 90) \<or> (97 \<le> n \<and> n \<le> 122))"

definition is_letter_or_underscore :: "char \<Rightarrow> bool" where
  "is_letter_or_underscore c \<longleftrightarrow> c = CHR ''_'' \<or> (is_alnum c \<and> \<not> is_digit c)"

text \<open>The tests on one token: \<open>/^[A-Za-z0-9_.+-]+$/\<close>, \<open>/^[A-Za-z_][A-Za-z0-9_]*=/\<close>, \<open>/^\d+(?:\.\d+)?[smhd]?$/\<close>,
  \<open>/^-\d+$/\<close>, \<open>/^-?\d+$/\<close>, \<open>/^-[ioe][LN0-9]+$/\<close>.\<close>

definition WRAPPER_FLAG_VALUE :: "string \<Rightarrow> bool" where
  "WRAPPER_FLAG_VALUE s \<longleftrightarrow> s \<noteq> [] \<and> list_all (\<lambda>c. is_alnum c \<or> c \<in> set ''_.+-'') s"

definition ENV_ASSIGNMENT_TOKEN :: "string \<Rightarrow> bool" where
  "ENV_ASSIGNMENT_TOKEN s \<longleftrightarrow> s \<noteq> [] \<and> is_letter_or_underscore (s ! 0) \<and>
     startsWith (dropWhile (\<lambda>c. is_alnum c \<or> c = CHR ''_'') s) ''=''"

definition is_duration :: "string \<Rightarrow> bool" where
  "is_duration s \<longleftrightarrow>
     (let unit_ok = (\<lambda>u. u = [] \<or> u \<in> set [''s'', ''m'', ''h'', ''d'']);
          rest = dropWhile is_digit s
      in takeWhile is_digit s \<noteq> [] \<and>
         (if startsWith rest ''.''
          then takeWhile is_digit (drop 1 rest) \<noteq> [] \<and> unit_ok (dropWhile is_digit (drop 1 rest))
          else unit_ok rest))"

definition is_minus_number :: "string \<Rightarrow> bool" where
  "is_minus_number s \<longleftrightarrow> startsWith s ''-'' \<and> drop 1 s \<noteq> [] \<and> list_all is_digit (drop 1 s)"

definition is_number :: "string \<Rightarrow> bool" where
  "is_number s \<longleftrightarrow> (s \<noteq> [] \<and> list_all is_digit s) \<or> is_minus_number s"

definition is_stdbuf_mode :: "string \<Rightarrow> bool" where
  "is_stdbuf_mode s \<longleftrightarrow> length s > 2 \<and> s ! 0 = CHR ''-'' \<and> s ! 1 \<in> set ''ioe''
     \<and> list_all (\<lambda>c. is_digit c \<or> c \<in> set ''LN'') (drop 2 s)"

definition attachedFlagValue :: "string \<Rightarrow> string list \<Rightarrow> string option" where
  "attachedFlagValue token valueFlags =
     (if startsWith token ''--''
      then (case find (\<lambda>flag. startsWith flag ''--'' \<and> startsWith token (flag @ ''='')) valueFlags of
              None \<Rightarrow> None | Some flag \<Rightarrow> Some (drop (length flag + 1) token))
      else (case find (\<lambda>flag. \<not> startsWith flag ''--'' \<and> startsWith token flag \<and> length token > length flag) valueFlags of
              None \<Rightarrow> None | Some flag \<Rightarrow> Some (drop (length flag) token)))"

definition attachedEqualsFlagValue :: "string \<Rightarrow> string list \<Rightarrow> string option" where
  "attachedEqualsFlagValue token flags =
     (case find (\<lambda>flag. startsWith token (flag @ ''='')) flags of
        None \<Rightarrow> None | Some flag \<Rightarrow> Some (drop (length flag + 1) token))"

text \<open>\<open>consumeFlags(tokens, i, spec)\<close> on the tokens from \<open>i\<close> on; \<open>None\<close> is the answer -1.\<close>

fun consumeFlags :: "flag_spec \<Rightarrow> nat \<Rightarrow> string list \<Rightarrow> nat option" where
  "consumeFlags spec i [] = Some i"
| "consumeFlags spec i (token # rest) =
     (if token = ''--'' then Some (i + 1)
      else if \<not> startsWith token ''-'' \<or> token = ''-'' then Some i
      else if token \<in> set (fs_free spec) then consumeFlags spec (i + 1) rest
      else case attachedFlagValue token (fs_value spec) of
          Some fused \<Rightarrow> if WRAPPER_FLAG_VALUE fused then consumeFlags spec (i + 1) rest else None
        | None \<Rightarrow>
          (case attachedEqualsFlagValue token (fs_equalsValue spec) of
             Some fused \<Rightarrow> if WRAPPER_FLAG_VALUE fused then consumeFlags spec (i + 1) rest else None
           | None \<Rightarrow>
             if token \<in> set (fs_value spec)
             then (case rest of [] \<Rightarrow> None
                   | v # rest' \<Rightarrow> if WRAPPER_FLAG_VALUE v then consumeFlags spec (i + 2) rest' else None)
             else None))"

lemma consumeFlags_bounds: "consumeFlags spec i ts = Some n \<Longrightarrow> i \<le> n \<and> n \<le> i + length ts"
  by (induction spec i ts rule: consumeFlags.induct) (fastforce split: if_splits option.splits list.splits)+

section \<open>Wrappers\<close>

text \<open>A consumer answers the index of the wrapped command's first token, or \<open>None\<close> to refuse.\<close>

function env_from :: "string list \<Rightarrow> nat \<Rightarrow> nat option" where
  "env_from tokens i =
     (if i \<ge> length tokens then Some i
      else let token = tokens ! i in
        if token = ''--'' then Some (i + 1)
        else if ENV_ASSIGNMENT_TOKEN token then env_from tokens (i + 1)
        else if \<not> startsWith token ''-'' \<or> token = ''-'' then Some i
        else (case consumeFlags ENV_FLAGS i (drop i tokens) of
            None \<Rightarrow> None
          | Some n \<Rightarrow> if n \<le> i then None else if tokens ! (n - 1) = ''--'' then Some n else env_from tokens n))"
  by pat_completeness auto
termination
  by (relation "measure (\<lambda>(tokens, i). length tokens - i)") auto

declare env_from.simps [simp del]

definition consumeEnv :: "string list \<Rightarrow> nat option" where
  "consumeEnv tokens = env_from tokens 1"

definition consumeTimeout :: "string list \<Rightarrow> nat option" where
  "consumeTimeout tokens =
     (case consumeFlags TIMEOUT_FLAGS 1 (drop 1 tokens) of
        None \<Rightarrow> None
      | Some i \<Rightarrow> if i < length tokens \<and> is_duration (tokens ! i) then Some (i + 1) else None)"

definition skip_double_dash :: "string list \<Rightarrow> nat \<Rightarrow> nat" where
  "skip_double_dash tokens i = (if i < length tokens \<and> tokens ! i = ''--'' then i + 1 else i)"

definition consumeNice :: "string list \<Rightarrow> nat option" where
  "consumeNice tokens =
     (if length tokens > 1 \<and> tokens ! 1 = ''-n''
      then (if length tokens > 2 \<and> is_number (tokens ! 2) then Some (skip_double_dash tokens 3) else None)
      else if length tokens > 1 \<and> is_minus_number (tokens ! 1) then Some (skip_double_dash tokens 2)
      else Some (skip_double_dash tokens 1))"

definition consumePlainWrapper :: "string list \<Rightarrow> nat option" where
  "consumePlainWrapper tokens = Some (if length tokens > 1 \<and> tokens ! 1 = ''--'' then 2 else 1)"

definition consumeStdbuf :: "string list \<Rightarrow> nat option" where
  "consumeStdbuf tokens =
     (let i = 1 + length (takeWhile is_stdbuf_mode (drop 1 tokens)) in
      if i = 1 then None else Some (skip_double_dash tokens i))"

definition consumeShellKeyword :: "string list \<Rightarrow> nat option" where
  "consumeShellKeyword tokens = (if length tokens \<le> 1 \<or> startsWith (tokens ! 1) ''-'' then None else Some 1)"

text \<open>
  \<open>WRAPPER_CONSUMERS[name]\<close> looks into an object literal, which inherits the properties of \<open>Object.prototype\<close>.
  Called with an array and no \<open>this\<close>, \<open>constructor\<close> returns the array and \<open>toString\<close> a text, neither a number:
  both comparisons of the loop are false and \<open>slice\<close> starts at 0. The others throw.
\<close>

datatype wrapper_entry = NoWrapper | Wrapper "string list \<Rightarrow> nat option" | ReturnsNonNumber | RaisesTypeError

definition WRAPPER_CONSUMERS :: "string \<Rightarrow> wrapper_entry" where
  "WRAPPER_CONSUMERS name =
     (if name = ''sudo'' then Wrapper (\<lambda>tokens. consumeFlags SUDO_FLAGS 1 (drop 1 tokens))
      else if name = ''doas'' then Wrapper (\<lambda>tokens. consumeFlags DOAS_FLAGS 1 (drop 1 tokens))
      else if name = ''env'' then Wrapper consumeEnv
      else if name = ''timeout'' then Wrapper consumeTimeout
      else if name = ''nice'' then Wrapper consumeNice
      else if name \<in> set [''nohup'', ''time''] then Wrapper consumePlainWrapper
      else if name = ''stdbuf'' then Wrapper consumeStdbuf
      else if name \<in> set [''command'', ''builtin''] then Wrapper consumeShellKeyword
      else if name \<in> set [''constructor'', ''toString''] then ReturnsNonNumber
      else if name \<in> set [''valueOf'', ''toLocaleString'', ''hasOwnProperty'', ''isPrototypeOf'', ''propertyIsEnumerable'',
        ''__proto__'', ''__defineGetter__'', ''__defineSetter__'', ''__lookupGetter__'', ''__lookupSetter__''] then RaisesTypeError
      else NoWrapper)"

datatype strip_result = Tokens "string list" bool | StripThrows

text \<open>The loop may run forever: not returning is \<open>None\<close>.\<close>

partial_function (option) strip_loop :: "string list \<Rightarrow> string list \<Rightarrow> bool \<Rightarrow> strip_result option" where
  "strip_loop tokens current stripped =
     (case (case current of [] \<Rightarrow> NoWrapper | token # _ \<Rightarrow> WRAPPER_CONSUMERS (path_basename token)) of
        NoWrapper \<Rightarrow> Some (Tokens current stripped)
      | Wrapper consume \<Rightarrow>
          (case consume current of
             None \<Rightarrow> Some (Tokens tokens False)
           | Some n \<Rightarrow> if n \<ge> length current then Some (Tokens tokens False) else strip_loop tokens (drop n current) True)
      | ReturnsNonNumber \<Rightarrow> strip_loop tokens current True
      | RaisesTypeError \<Rightarrow> Some StripThrows)"

definition stripWrapperTokens :: "string list \<Rightarrow> strip_result option" where
  "stripWrapperTokens tokens = strip_loop tokens tokens False"

section \<open>The words that name a command\<close>

definition ARITY :: "(string \<times> nat) list" where
  "ARITY =
     [(''cat'', 1), (''cd'', 1), (''chmod'', 1), (''chown'', 1), (''cp'', 1), (''echo'', 1), (''env'', 1),
      (''export'', 1), (''grep'', 1), (''kill'', 1), (''killall'', 1), (''ln'', 1), (''ls'', 1), (''mkdir'', 1),
      (''mv'', 1), (''ps'', 1), (''pwd'', 1), (''rm'', 1), (''rmdir'', 1), (''sleep'', 1), (''source'', 1),
      (''tail'', 1), (''touch'', 1), (''unset'', 1), (''which'', 1), (''aws'', 3), (''az'', 3), (''bazel'', 2),
      (''brew'', 2), (''bun'', 2), (''bun run'', 3), (''bun x'', 3), (''cargo'', 2), (''cargo add'', 3),
      (''cargo run'', 3), (''cdk'', 2), (''cf'', 2), (''cmake'', 2), (''composer'', 2), (''consul'', 2),
      (''consul kv'', 3), (''crictl'', 2), (''deno'', 2), (''deno task'', 3), (''doctl'', 3), (''docker'', 2),
      (''docker builder'', 3), (''docker compose'', 3), (''docker container'', 3), (''docker image'', 3),
      (''docker network'', 3), (''docker volume'', 3), (''eksctl'', 2), (''eksctl create'', 3), (''firebase'', 2),
      (''flyctl'', 2), (''gcloud'', 3), (''gh'', 3), (''git'', 2), (''git config'', 3), (''git remote'', 3),
      (''git stash'', 3), (''go'', 2), (''gradle'', 2), (''helm'', 2), (''heroku'', 2), (''hugo'', 2), (''ip'', 2),
      (''ip addr'', 3), (''ip link'', 3), (''ip netns'', 3), (''ip route'', 3), (''kind'', 2), (''kind create'', 3),
      (''kubectl'', 2), (''kubectl kustomize'', 3), (''kubectl rollout'', 3), (''kustomize'', 2), (''make'', 2),
      (''mc'', 2), (''mc admin'', 3), (''minikube'', 2), (''mongosh'', 2), (''mysql'', 2), (''mvn'', 2), (''ng'', 2),
      (''npm'', 2), (''npm exec'', 3), (''npm init'', 3), (''npm run'', 3), (''npm view'', 3), (''nvm'', 2),
      (''nx'', 2), (''openssl'', 2), (''openssl req'', 3), (''openssl x509'', 3), (''pip'', 2), (''pipenv'', 2),
      (''pnpm'', 2), (''pnpm dlx'', 3), (''pnpm exec'', 3), (''pnpm run'', 3), (''poetry'', 2), (''podman'', 2),
      (''podman container'', 3), (''podman image'', 3), (''psql'', 2), (''pulumi'', 2), (''pulumi stack'', 3),
      (''pyenv'', 2), (''python'', 2), (''rake'', 2), (''rbenv'', 2), (''redis-cli'', 2), (''rustup'', 2),
      (''serverless'', 2), (''sfdx'', 3), (''skaffold'', 2), (''sls'', 2), (''sst'', 2), (''swift'', 2),
      (''systemctl'', 2), (''terraform'', 2), (''terraform workspace'', 3), (''tmux'', 2), (''turbo'', 2),
      (''ufw'', 2), (''vault'', 2), (''vault auth'', 3), (''vault kv'', 3), (''vercel'', 2), (''volta'', 2),
      (''wp'', 2), (''yarn'', 2), (''yarn dlx'', 3), (''yarn run'', 3)]"

definition join_words :: "string list \<Rightarrow> string" where
  "join_words ws = concat (case ws of [] \<Rightarrow> [] | w # ws' \<Rightarrow> w # map (\<lambda>x. '' '' @ x) ws')"

text \<open>An inherited property is no number either: \<open>slice(0, arity)\<close> is empty.\<close>

definition inherited_names :: "string list" where
  "inherited_names = [''constructor'', ''toString'', ''valueOf'', ''toLocaleString'', ''hasOwnProperty'', ''isPrototypeOf'',
     ''propertyIsEnumerable'', ''__proto__'', ''__defineGetter__'', ''__defineSetter__'', ''__lookupGetter__'', ''__lookupSetter__'']"

definition arity_of :: "string \<Rightarrow> nat option" where
  "arity_of candidate = (if candidate \<in> set inherited_names then Some 0 else map_of ARITY candidate)"

fun prefix_upto :: "string list \<Rightarrow> nat \<Rightarrow> string list option" where
  "prefix_upto tokens 0 = None"
| "prefix_upto tokens (Suc n) =
     (case arity_of (join_words (take (Suc n) tokens)) of
        Some arity \<Rightarrow> Some (take arity tokens)
      | None \<Rightarrow> prefix_upto tokens n)"

definition arityPrefix :: "string list \<Rightarrow> string list" where
  "arityPrefix tokens = (case prefix_upto tokens (length tokens) of Some p \<Rightarrow> p | None \<Rightarrow> take 1 tokens)"

section \<open>Segments\<close>

datatype syntax_node = SyntaxNode string string "syntax_node list"

fun node_type :: "syntax_node \<Rightarrow> string" where "node_type (SyntaxNode t _ _) = t"
fun node_text :: "syntax_node \<Rightarrow> string" where "node_text (SyntaxNode _ s _) = s"
fun node_children :: "syntax_node \<Rightarrow> syntax_node list" where "node_children (SyntaxNode _ _ cs) = cs"

definition node_parts :: "bool \<Rightarrow> syntax_node \<Rightarrow> string list" where
  "node_parts numbers_and_substitutions node = concat (map (\<lambda>child.
     if node_type child = ''command_elements''
     then map node_text (filter (\<lambda>item. node_type item \<noteq> ''command_argument_sep'' \<and> node_type item \<noteq> ''redirection'') (node_children child))
     else if node_type child \<in> set [''command_name'', ''command_name_expr'', ''word'', ''string'', ''raw_string'', ''concatenation'']
        \<or> (numbers_and_substitutions \<and> node_type child \<in> set [''number'', ''command_substitution''])
     then [node_text child] else []) (node_children node))"

text \<open>The command nodes below a node in document order, each with its parent.\<close>

fun commandNodes :: "syntax_node option \<Rightarrow> syntax_node \<Rightarrow> (syntax_node option \<times> syntax_node) list" where
  "commandNodes parent (SyntaxNode t s cs) =
     (if t = ''command'' then [(parent, SyntaxNode t s cs)] else [])
     @ concat (map (\<lambda>c. commandNodes (Some (SyntaxNode t s cs)) c) cs)"

definition node_source :: "syntax_node option \<Rightarrow> syntax_node \<Rightarrow> string" where
  "node_source parent node = trim (case parent of
      Some p \<Rightarrow> if node_type p = ''redirected_statement'' then node_text p else node_text node
    | None \<Rightarrow> node_text node)"

record bash_segment =
  bs_subject :: string
  bs_tokens :: "string list"
  bs_gitClass :: "git_class option"

record bash_analysis =
  ba_subjects :: "string list"
  ba_approvalRules :: "string list"
  ba_degraded :: bool
  ba_segments :: "bash_segment list"

definition prefix_rule :: "string list \<Rightarrow> string \<Rightarrow> string" where
  "prefix_rule effectiveTokens subject =
     (let prefixTokens = arityPrefix effectiveTokens in
      if prefixTokens = [] then literalRulePattern ''Bash'' subject
      else ''Bash('' @ escapeRuleSubjectLiteral (join_words prefixTokens) @ '' *)'')"

text \<open>The tokens that the rule and the git class are computed from.\<close>

definition effective_tokens :: "bool \<Rightarrow> string list \<Rightarrow> strip_result option" where
  "effective_tokens stripWrappers tokens = (if stripWrappers then stripWrapperTokens tokens else Some (Tokens tokens False))"

definition segmentApprovalRule :: "string list \<Rightarrow> string \<Rightarrow> bool \<Rightarrow> string option option" where
  "segmentApprovalRule tokens subject stripWrappers =
     (case effective_tokens stripWrappers tokens of
        None \<Rightarrow> None
      | Some StripThrows \<Rightarrow> Some None
      | Some (Tokens ts _) \<Rightarrow> Some (Some (prefix_rule ts subject)))"

text \<open>One round of the loop: \<open>None\<close> hangs, \<open>Some None\<close> throws.\<close>

definition extract_step ::
    "bool \<Rightarrow> bash_analysis \<Rightarrow> syntax_node option \<times> syntax_node \<Rightarrow> bash_analysis option option" where
  "extract_step stripWrappers acc pn =
     (let subject = node_source (fst pn) (snd pn) in
      if subject = [] then Some (Some acc)
      else let tokens = node_parts False (snd pn);
               ruleTokens = (if stripWrappers then node_parts True (snd pn) else tokens)
           in case effective_tokens stripWrappers ruleTokens of
              None \<Rightarrow> None
            | Some StripThrows \<Rightarrow> Some None
            | Some (Tokens ts _) \<Rightarrow>
                let gitClass = classifyGitSegment (if stripWrappers then ts else tokens);
                    rule = prefix_rule ts subject
                in Some (Some (acc\<lparr>ba_subjects := ba_subjects acc @ [subject],
                     ba_segments := ba_segments acc @ [\<lparr>bs_subject = subject, bs_tokens = tokens, bs_gitClass = gitClass\<rparr>],
                     ba_approvalRules := (if rule \<in> set (ba_approvalRules acc) then ba_approvalRules acc
                       else ba_approvalRules acc @ [rule])\<rparr>)))"

fun extract_all :: "bool \<Rightarrow> bash_analysis \<Rightarrow> (syntax_node option \<times> syntax_node) list \<Rightarrow> bash_analysis option option" where
  "extract_all stripWrappers acc [] = Some (Some acc)"
| "extract_all stripWrappers acc (pn # rest) =
     (case extract_step stripWrappers acc pn of
        None \<Rightarrow> None
      | Some None \<Rightarrow> Some None
      | Some (Some acc') \<Rightarrow> extract_all stripWrappers acc' rest)"

definition degradedAnalysis :: "string \<Rightarrow> bash_analysis" where
  "degradedAnalysis command =
     \<lparr>ba_subjects = [command], ba_approvalRules = [literalRulePattern ''Bash'' command], ba_degraded = True,
      ba_segments = [\<lparr>bs_subject = command, bs_tokens = [], bs_gitClass = None\<rparr>]\<rparr>"

text \<open>The analysis of a command whose tree is \<open>tree\<close>; \<open>None\<close> where the parser fails or is missing. The answer \<open>None\<close>
  is an analysis that never ends.\<close>

definition analyzeBashCommand :: "bool \<Rightarrow> string \<Rightarrow> syntax_node option \<Rightarrow> bash_analysis option" where
  "analyzeBashCommand stripWrappers command tree =
     (case tree of
        None \<Rightarrow> Some (degradedAnalysis command)
      | Some tree_root \<Rightarrow>
          (case extract_all stripWrappers \<lparr>ba_subjects = [], ba_approvalRules = [], ba_degraded = False, ba_segments = []\<rparr>
                  (commandNodes None tree_root) of
             None \<Rightarrow> None
           | Some None \<Rightarrow> Some (degradedAnalysis command)
           | Some (Some analysis) \<Rightarrow>
               Some (if ba_subjects analysis = [] then degradedAnalysis command else analysis)))"

section \<open>Stripping returns, or hangs on an inherited name\<close>

definition endless_name :: "string \<Rightarrow> bool" where
  "endless_name token \<longleftrightarrow> path_basename token \<in> set [''constructor'', ''toString'']"

lemma env_from_bounds: "env_from tokens i = Some n \<Longrightarrow> i \<le> n"
proof (induction tokens i rule: env_from.induct)
  case (1 tokens i)
  show ?case using 1(3) 1(1) [OF _ refl] 1(2) [OF _ refl]
    by (subst (asm) env_from.simps) (fastforce simp: Let_def split: if_splits option.splits)
qed

lemma skip_double_dash_le: "i \<le> skip_double_dash tokens i"
  by (simp add: skip_double_dash_def)

lemma consumer_progress:
  assumes "WRAPPER_CONSUMERS name = Wrapper consume" "consume tokens = Some n"
  shows "1 \<le> n"
proof -
  note le = skip_double_dash_le [of _ tokens, THEN order_trans [rotated]]
  have "1 \<le> n" if "consumeNice tokens = Some n" using that
    by (auto simp: consumeNice_def skip_double_dash_def split: if_splits)
  moreover have "1 \<le> n" if "consumeStdbuf tokens = Some n" using that
    by (auto simp: consumeStdbuf_def skip_double_dash_def Let_def split: if_splits)
  moreover have "1 \<le> n" if "consumeTimeout tokens = Some n" using that
    by (auto simp: consumeTimeout_def dest: consumeFlags_bounds split: if_splits option.splits)
  moreover have "1 \<le> n" if "consumeEnv tokens = Some n" using that
    by (auto simp: consumeEnv_def dest: env_from_bounds)
  moreover have "1 \<le> n" if "consumePlainWrapper tokens = Some n \<or> consumeShellKeyword tokens = Some n" using that
    by (auto simp: consumePlainWrapper_def consumeShellKeyword_def split: if_splits)
  moreover have "1 \<le> n" if "consumeFlags spec 1 ts = Some n" for spec ts using that by (auto dest: consumeFlags_bounds)
  ultimately show ?thesis
    using assms unfolding WRAPPER_CONSUMERS_def by (auto split: if_splits)
qed

lemma entry_endless: "WRAPPER_CONSUMERS (path_basename token) = ReturnsNonNumber \<longleftrightarrow> endless_name token"
  by (auto simp: WRAPPER_CONSUMERS_def endless_name_def)

text \<open>No further wrapper starts the words.\<close>

definition unwrapped :: "string list \<Rightarrow> bool" where
  "unwrapped ts \<longleftrightarrow> (case ts of [] \<Rightarrow> True | t # _ \<Rightarrow> WRAPPER_CONSUMERS (path_basename t) = NoWrapper)"

definition peeled :: "string list \<Rightarrow> string list \<Rightarrow> bool" where
  "peeled current ts \<longleftrightarrow> (\<exists>k. ts = drop k current) \<and> (current \<noteq> [] \<longrightarrow> ts \<noteq> []) \<and> unwrapped ts"

lemma peeled_drop: "peeled (drop n current) ts \<Longrightarrow> n < length current \<Longrightarrow> peeled current ts"
  unfolding peeled_def by (metis drop_drop drop_eq_Nil not_le)

text \<open>A name the lookup inherits from \<open>Object.prototype\<close>.\<close>

definition inherited_name :: "string \<Rightarrow> bool" where
  "inherited_name token \<longleftrightarrow> path_basename token \<in> set [''constructor'', ''toString'', ''valueOf'', ''toLocaleString'',
     ''hasOwnProperty'', ''isPrototypeOf'', ''propertyIsEnumerable'', ''__proto__'', ''__defineGetter__'', ''__defineSetter__'',
     ''__lookupGetter__'', ''__lookupSetter__'']"

lemma entry_inherited:
  "\<not> inherited_name token \<Longrightarrow> WRAPPER_CONSUMERS (path_basename token) \<noteq> ReturnsNonNumber
     \<and> WRAPPER_CONSUMERS (path_basename token) \<noteq> RaisesTypeError"
  by (auto simp: WRAPPER_CONSUMERS_def inherited_name_def)

lemma strip_loop_returns:
  assumes "\<forall>t \<in> set current. \<not> inherited_name t"
  shows "\<exists>ts b. strip_loop tokens current stripped = Some (Tokens ts b) \<and>
    (ts = tokens \<and> \<not> b \<or> peeled current ts \<and> (b \<longleftrightarrow> stripped \<or> length ts < length current))"
  using assms
proof (induction "length current" arbitrary: current stripped rule: less_induct)
  case less
  show ?case
  proof (cases current)
    case Nil
    then show ?thesis by (subst strip_loop.simps) (simp add: peeled_def unwrapped_def)
  next
    case (Cons t rest)
    have ne: "\<not> inherited_name t" using less(2) Cons by simp
    show ?thesis
    proof (cases "WRAPPER_CONSUMERS (path_basename t)")
      case NoWrapper
      then have "peeled current current" using Cons by (auto simp: peeled_def unwrapped_def intro: exI [of _ 0])
      then show ?thesis using Cons NoWrapper by (subst strip_loop.simps) simp
    next
      case (Wrapper consume)
      show ?thesis
      proof (cases "\<exists>n. consume current = Some n \<and> n < length current")
        case False
        then show ?thesis using Cons Wrapper by (subst strip_loop.simps) (auto split: option.split)
      next
        case True
        then obtain n where Some: "consume current = Some n" and lt: "n < length current" by blast
        have n: "1 \<le> n" using consumer_progress [OF Wrapper Some] .
        have step: "strip_loop tokens current stripped = strip_loop tokens (drop n current) True"
          using Cons Wrapper Some lt by (subst strip_loop.simps) simp
        have "\<forall>t \<in> set (drop n current). \<not> inherited_name t" using less(2) by (meson in_set_dropD)
        then have "\<exists>ts b. strip_loop tokens (drop n current) True = Some (Tokens ts b) \<and>
            (ts = tokens \<and> \<not> b \<or> peeled (drop n current) ts \<and> (b \<longleftrightarrow> True \<or> length ts < length (drop n current)))"
          using n lt by (intro less(1)) simp_all
        then obtain ts b where r: "strip_loop tokens (drop n current) True = Some (Tokens ts b)"
          "ts = tokens \<and> \<not> b \<or> peeled (drop n current) ts \<and> b" by blast
        have "length ts < length current" if "peeled (drop n current) ts" using that n lt by (auto simp: peeled_def)
        then have "ts = tokens \<and> \<not> b \<or> peeled current ts \<and> (b \<longleftrightarrow> stripped \<or> length ts < length current)"
          using r(2) peeled_drop [OF _ lt, of ts] by blast
        then show ?thesis unfolding step using r(1) by blast
      qed
    qed (use entry_inherited [OF ne] in simp_all)
  qed
qed

text \<open>
  C32: Peeling the wrappers off a command returns, and without throwing, whenever no word of the command is the name
  of a property inherited from \<open>Object.prototype\<close>. What it returns is one of two things, which the flag tells apart:
  the words unchanged (nothing was peeled, because no wrapper starts them or because peeling was given up), or
  a shorter, non-empty rest of them whose first word names no wrapper.
\<close>

theorem strip_returns:
  assumes "\<forall>t \<in> set tokens. \<not> inherited_name t"
  shows "\<exists>ts b. stripWrapperTokens tokens = Some (Tokens ts b) \<and>
    (if b then (\<exists>k. 0 < k \<and> k < length tokens \<and> ts = drop k tokens)
            \<and> WRAPPER_CONSUMERS (path_basename (hd ts)) = NoWrapper
     else ts = tokens)"
proof -
  obtain ts b where r: "stripWrapperTokens tokens = Some (Tokens ts b)"
    "ts = tokens \<and> \<not> b \<or> peeled tokens ts \<and> (b \<longleftrightarrow> length ts < length tokens)"
    using strip_loop_returns [OF assms, of tokens False] unfolding stripWrapperTokens_def by auto
  show ?thesis
  proof (cases b)
    case True
    then obtain k where k: "ts = drop k tokens" "length ts < length tokens" "unwrapped ts" "tokens \<noteq> [] \<longrightarrow> ts \<noteq> []"
      using r(2) by (auto simp: peeled_def)
    have ne: "ts \<noteq> []" using k(2,4) by (cases tokens) simp_all
    have "0 < k" using k(1,2) by (cases k) simp_all
    moreover have "k < length tokens" using k(1) ne by (metis drop_eq_Nil not_less)
    moreover have "WRAPPER_CONSUMERS (path_basename (hd ts)) = NoWrapper"
      using k(3) ne by (simp add: unwrapped_def list.case_eq_if)
    ultimately have "\<exists>k. 0 < k \<and> k < length tokens \<and> ts = drop k tokens" using k(1) by blast
    then show ?thesis
      using r(1) True \<open>WRAPPER_CONSUMERS (path_basename (hd ts)) = NoWrapper\<close> by auto
  next
    case False
    have "drop k tokens = tokens" if "\<not> length (drop k tokens) < length tokens" for k
      using that by (cases k; cases tokens) simp_all
    then have "ts = tokens" using r(2) False by (auto simp: peeled_def)
    then show ?thesis using r(1) False by auto
  qed
qed

lemma strip_loop_endless:
  assumes "strip_loop tokens current stripped = Some r"
  shows "current = [] \<or> \<not> endless_name (hd current)"
proof (rule strip_loop.raw_induct [OF _ assms, where P = "\<lambda>tokens current stripped r. current = [] \<or> \<not> endless_name (hd current)"])
  fix loop tokens current stripped r
  assume IH: "\<And>tokens current stripped r. loop tokens current stripped = Some r \<Longrightarrow> current = [] \<or> \<not> endless_name (hd current)"
    and body: "(case (case current of [] \<Rightarrow> NoWrapper | token # x \<Rightarrow> WRAPPER_CONSUMERS (path_basename token)) of
        NoWrapper \<Rightarrow> Some (Tokens current stripped)
      | Wrapper consume \<Rightarrow> (case consume current of None \<Rightarrow> Some (Tokens tokens False)
          | Some n \<Rightarrow> if length current \<le> n then Some (Tokens tokens False) else loop tokens (drop n current) True)
      | ReturnsNonNumber \<Rightarrow> loop tokens current True
      | RaisesTypeError \<Rightarrow> Some StripThrows) = Some r"
  show "current = [] \<or> \<not> endless_name (hd current)"
  proof (cases current)
    case (Cons t rest)
    show ?thesis
    proof (cases "endless_name t")
      case True
      then have "loop tokens current True = Some r" using body Cons by (simp add: iffD2 [OF entry_endless])
      then show ?thesis by (rule IH)
    qed (simp add: Cons)
  qed simp
qed

lemma endless_hangs: "endless_name token \<Longrightarrow> stripWrapperTokens (token # args) = None"
  using strip_loop_endless [of "token # args" "token # args" False] unfolding stripWrapperTokens_def
  by (cases "strip_loop (token # args) (token # args) False") auto

section \<open>The analysis of a command\<close>

text \<open>The simple command of the given words: a node as the parser returns it, each word a child.\<close>

definition command_node :: "string list \<Rightarrow> syntax_node" where
  "command_node ws = SyntaxNode ''command'' (join_words ws)
     (case ws of [] \<Rightarrow> [] | w # ws' \<Rightarrow> SyntaxNode ''command_name'' w [] # map (\<lambda>x. SyntaxNode ''word'' x []) ws')"

definition program_node :: "syntax_node \<Rightarrow> syntax_node" where
  "program_node c = SyntaxNode ''program'' (node_text c) [c]"

lemma parts_of_words: "node_parts b (command_node ws) = ws"
  by (cases ws) (simp_all add: node_parts_def command_node_def comp_def concat_map_singleton)

lemma commandNodes_words:
  "commandNodes None (program_node (command_node ws)) = [(Some (program_node (command_node ws)), command_node ws)]"
proof -
  have none: "concat (map (commandNodes p) (map (\<lambda>x. SyntaxNode ''word'' x []) vs)) = []" for p vs
    by (induction vs) simp_all
  show ?thesis
    using none by (cases ws) (simp_all add: program_node_def command_node_def)
qed

text \<open>
  C33: Analysing a command whose name is \<open>constructor\<close> or \<open>toString\<close>, with any path in front and any arguments, never
  returns: the name is looked up in an object literal and found on \<open>Object.prototype\<close>.
\<close>

theorem inherited_name_hangs:
  assumes "endless_name token" and "trim (join_words (token # args)) \<noteq> []"
  shows "analyzeBashCommand True command (Some (program_node (command_node (token # args)))) = None"
proof -
  have "node_source (Some (program_node (command_node (token # args)))) (command_node (token # args)) \<noteq> []"
    using assms(2) by (simp add: node_source_def program_node_def command_node_def)
  then show ?thesis
    by (simp add: analyzeBashCommand_def commandNodes_words extract_step_def parts_of_words effective_tokens_def
        endless_hangs [OF assms(1)])
qed

theorem inherited_name_hangs_witness:
  "analyzeBashCommand True ''./toString now'' (Some (program_node (command_node [''./toString'', ''now'']))) = None"
  by (rule inherited_name_hangs) (simp_all add: endless_name_def path_basename_def join_words_def trim_def is_space_def)

definition node_tokens :: "bool \<Rightarrow> syntax_node \<Rightarrow> string list" where
  "node_tokens stripWrappers node = (case effective_tokens stripWrappers (node_parts stripWrappers node) of
     Some (Tokens ts _) \<Rightarrow> ts | _ \<Rightarrow> [])"

definition segment_of :: "bool \<Rightarrow> syntax_node option \<times> syntax_node \<Rightarrow> bash_segment" where
  "segment_of stripWrappers pn =
     \<lparr>bs_subject = node_source (fst pn) (snd pn), bs_tokens = node_parts False (snd pn),
      bs_gitClass = classifyGitSegment (node_tokens stripWrappers (snd pn))\<rparr>"

definition has_source :: "syntax_node option \<times> syntax_node \<Rightarrow> bool" where
  "has_source pn \<longleftrightarrow> node_source (fst pn) (snd pn) \<noteq> []"

lemma effective_unstripped: "effective_tokens False ts = Some (Tokens ts False)"
  by (simp add: effective_tokens_def)

lemma extract_step_result:
  assumes "extract_step sw acc pn = Some (Some acc')"
  shows "ba_segments acc' = ba_segments acc @ (if has_source pn then [segment_of sw pn] else [])
    \<and> ba_subjects acc' = ba_subjects acc @ (if has_source pn then [bs_subject (segment_of sw pn)] else [])
    \<and> (distinct (ba_approvalRules acc) \<longrightarrow> distinct (ba_approvalRules acc'))
    \<and> set (ba_approvalRules acc') = set (ba_approvalRules acc) \<union>
        (if has_source pn then {prefix_rule (node_tokens sw (snd pn)) (node_source (fst pn) (snd pn))} else {})
    \<and> ba_degraded acc' = ba_degraded acc"
proof (cases "has_source pn")
  case False
  then show ?thesis using assms by (simp add: extract_step_def has_source_def)
next
  case True
  have sw: "(if sw then node_parts True (snd pn) else node_parts False (snd pn)) = node_parts sw (snd pn)" by simp
  obtain ts b where ts: "effective_tokens sw (node_parts sw (snd pn)) = Some (Tokens ts b)"
    using assms True by (auto simp: extract_step_def has_source_def Let_def sw split: option.splits strip_result.splits)
  then have "node_tokens sw (snd pn) = ts" by (simp add: node_tokens_def)
  moreover have "(if sw then ts else node_parts False (snd pn)) = ts"
    using ts by (cases sw) (simp_all add: effective_unstripped)
  ultimately show ?thesis
    using assms True ts by (auto simp: extract_step_def has_source_def Let_def sw segment_of_def split: if_splits)
qed

lemma extract_all_result:
  assumes "extract_all sw acc pns = Some (Some a)"
  shows "ba_segments a = ba_segments acc @ map (segment_of sw) (filter has_source pns)
    \<and> ba_subjects a = ba_subjects acc @ map (bs_subject \<circ> segment_of sw) (filter has_source pns)
    \<and> (distinct (ba_approvalRules acc) \<longrightarrow> distinct (ba_approvalRules a))
    \<and> set (ba_approvalRules a) = set (ba_approvalRules acc) \<union>
        (\<lambda>pn. prefix_rule (node_tokens sw (snd pn)) (node_source (fst pn) (snd pn))) ` set (filter has_source pns)
    \<and> ba_degraded a = ba_degraded acc"
  using assms
proof (induction pns arbitrary: acc)
  case (Cons pn pns)
  then obtain acc' where step: "extract_step sw acc pn = Some (Some acc')" and rest: "extract_all sw acc' pns = Some (Some a)"
    by (auto split: option.splits)
  show ?case using extract_step_result [OF step] Cons.IH [OF rest] by auto
qed simp

text \<open>
  The analysis judges every simple command of a line, also those nested in substitutions and subshells: its segments
  are the command nodes of the tree in document order, the subjects and git classes are aligned with them, and each has its
  rule among the approval rules, once. Only if the tree has none, or no tree is there, is the line one opaque subject.
\<close>

theorem analysis_complete:
  assumes "analyzeBashCommand sw command (Some tree) = Some a" "\<not> ba_degraded a"
  shows "ba_segments a = map (segment_of sw) (filter has_source (commandNodes None tree))
    \<and> ba_subjects a = map bs_subject (ba_segments a) \<and> ba_subjects a \<noteq> []
    \<and> distinct (ba_approvalRules a)
    \<and> set (ba_approvalRules a) =
        (\<lambda>pn. prefix_rule (node_tokens sw (snd pn)) (node_source (fst pn) (snd pn))) ` set (filter has_source (commandNodes None tree))"
proof -
  define start where "start = \<lparr>ba_subjects = [], ba_approvalRules = [], ba_degraded = False, ba_segments = []\<rparr>"
  have start: "ba_subjects start = []" "ba_segments start = []" "ba_approvalRules start = []" by (simp_all add: start_def)
  have d: "ba_degraded (degradedAnalysis command)" by (simp add: degradedAnalysis_def)
  have result: "(case extract_all sw start (commandNodes None tree) of None \<Rightarrow> None | Some None \<Rightarrow> Some (degradedAnalysis command)
      | Some (Some b) \<Rightarrow> Some (if ba_subjects b = [] then degradedAnalysis command else b)) = Some a"
    using assms(1) by (simp add: analyzeBashCommand_def start_def)
  then have "extract_all sw start (commandNodes None tree) = Some (Some a)" "ba_subjects a \<noteq> []"
    using d assms(2) by (auto split: option.splits if_splits)
  from extract_all_result [OF this(1)] this(2) show ?thesis by (simp only: start append_Nil comp_def map_map) simp
qed

text \<open>The tree of \<open>sudo -u root timeout 10 git push && rm x\<close>.\<close>

definition push_and_rm :: syntax_node where
  "push_and_rm = SyntaxNode ''program'' ''sudo -u root timeout 10 git push && rm x''
     [SyntaxNode ''command'' ''sudo -u root timeout 10 git push''
        [SyntaxNode ''command_name'' ''sudo'' [], SyntaxNode ''word'' ''-u'' [], SyntaxNode ''word'' ''root'' [],
         SyntaxNode ''word'' ''timeout'' [], SyntaxNode ''number'' ''10'' [], SyntaxNode ''word'' ''git'' [], SyntaxNode ''word'' ''push'' []],
      SyntaxNode ''&&'' ''&&'' [], command_node [''rm'', ''x'']]"

lemma strip_example:
  "stripWrapperTokens [''sudo'', ''-u'', ''root'', ''timeout'', ''10'', ''git'', ''push''] = Some (Tokens [''git'', ''push''] True)"
  by (simp add: stripWrapperTokens_def strip_loop.simps WRAPPER_CONSUMERS_def path_basename_def SUDO_FLAGS_def TIMEOUT_FLAGS_def
      startsWith_def attachedFlagValue_def attachedEqualsFlagValue_def WRAPPER_FLAG_VALUE_def is_alnum_def consumeTimeout_def
      is_duration_def is_digit_def Let_def)

lemma strip_plain: "unwrapped ts \<Longrightarrow> stripWrapperTokens ts = Some (Tokens ts False)"
  by (cases ts) (simp_all add: stripWrapperTokens_def strip_loop.simps unwrapped_def)

lemma strip_rm: "stripWrapperTokens [''rm'', ''x''] = Some (Tokens [''rm'', ''x''] False)"
  by (rule strip_plain) (simp add: unwrapped_def path_basename_def WRAPPER_CONSUMERS_def)

lemma strip_git: "stripWrapperTokens (''git'' # args) = Some (Tokens (''git'' # args) False)"
  by (rule strip_plain) (simp add: unwrapped_def path_basename_def WRAPPER_CONSUMERS_def)

theorem strip_returns_witness:
  "WRAPPER_CONSUMERS (path_basename ''git'') = NoWrapper
   \<and> stripWrapperTokens [''sudo'', ''-u'', ''root'', ''timeout'', ''10'', ''git'', ''push''] = Some (Tokens [''git'', ''push''] True)"
proof -
  have "\<forall>t \<in> set [''sudo'', ''-u'', ''root'', ''timeout'', ''10'', ''git'', ''push'']. \<not> inherited_name t"
    by (simp add: inherited_name_def path_basename_def)
  from strip_returns [OF this] strip_example show ?thesis by auto
qed

lemma arity_examples: "arityPrefix [''git'', ''push''] = [''git'', ''push'']" "arityPrefix [''rm'', ''x''] = [''rm'']"
  by code_simp+

lemma prefix_rule_examples:
  "prefix_rule [''git'', ''push''] s = ''Bash(git push *)''" "prefix_rule [''rm'', ''x''] s = ''Bash(rm *)''"
  by (simp_all add: prefix_rule_def arity_examples join_words_def escapeRuleSubjectLiteral_def GLOB_LITERAL_SPECIAL_def)

lemma push_class: "classifyGitSegment [''git'', ''push''] = Some SharedRemote" "classifyGitSegment [''rm'', ''x''] = None"
  by (simp_all add: classifyGitSegment_def path_basename_def startsWith_def subcommand_class_def READ_SUBCOMMANDS_def)

lemma push_and_rm_analysis:
  "analyzeBashCommand True ''sudo -u root timeout 10 git push && rm x'' (Some push_and_rm) =
     Some \<lparr>ba_subjects = [''sudo -u root timeout 10 git push'', ''rm x''], ba_approvalRules = [''Bash(git push *)'', ''Bash(rm *)''],
       ba_degraded = False,
       ba_segments = [\<lparr>bs_subject = ''sudo -u root timeout 10 git push'', bs_tokens = [''sudo'', ''-u'', ''root'', ''timeout'', ''git'', ''push''],
           bs_gitClass = Some SharedRemote\<rparr>,
         \<lparr>bs_subject = ''rm x'', bs_tokens = [''rm'', ''x''], bs_gitClass = None\<rparr>]\<rparr>"
  by (simp add: analyzeBashCommand_def push_and_rm_def command_node_def extract_step_def node_source_def trim_def is_space_def
      node_parts_def effective_tokens_def strip_example strip_rm push_class prefix_rule_examples Let_def join_words_def)

theorem analysis_complete_witness:
  "map bs_gitClass (map (segment_of True) (filter has_source (commandNodes None push_and_rm))) = [Some SharedRemote, None]"
proof -
  let ?segs = "map (segment_of True) (filter has_source (commandNodes None push_and_rm))"
  have "[\<lparr>bs_subject = ''sudo -u root timeout 10 git push'', bs_tokens = [''sudo'', ''-u'', ''root'', ''timeout'', ''git'', ''push''],
      bs_gitClass = Some SharedRemote\<rparr>, \<lparr>bs_subject = ''rm x'', bs_tokens = [''rm'', ''x''], bs_gitClass = None\<rparr>] = ?segs"
    using analysis_complete [OF push_and_rm_analysis, THEN conjunct1] by (simp only: bash_analysis.select_convs simp_thms)
  then have "map bs_gitClass ?segs = map bs_gitClass
     [\<lparr>bs_subject = ''sudo -u root timeout 10 git push'', bs_tokens = [''sudo'', ''-u'', ''root'', ''timeout'', ''git'', ''push''],
      bs_gitClass = Some SharedRemote\<rparr>, \<lparr>bs_subject = ''rm x'', bs_tokens = [''rm'', ''x''], bs_gitClass = None\<rparr>]" by (rule arg_cong [OF sym])
  then show ?thesis by (simp only: list.map bash_segment.select_convs)
qed

definition git_with_variable :: "string \<Rightarrow> string \<Rightarrow> string \<Rightarrow> syntax_node" where
  "git_with_variable flag variable sub = SyntaxNode ''command'' (join_words [''git'', flag, variable, sub])
     [SyntaxNode ''command_name'' ''git'' [], SyntaxNode ''word'' flag [], SyntaxNode ''simple_expansion'' variable [], SyntaxNode ''word'' sub []]"

text \<open>
  A variable is no token: for the value of an option the scan takes the word after the variable. A command
  \<open>git flag $VAR sub\<close>, where the flag is a global option of git that takes its value as the next word (as \<open>-C\<close> does),
  is therefore classified as reading, whatever its subcommand.
\<close>

theorem variable_hides_subcommand:
  assumes "takes_value flag"
  shows "bs_gitClass (segment_of True (None, git_with_variable flag variable sub)) = Some ReadOnly"
  using takes_value_dash [OF assms] assms
  by (simp add: segment_of_def git_with_variable_def node_tokens_def node_parts_def effective_tokens_def strip_git classifyGitSegment_def
      basename_git)

theorem variable_hides_subcommand_witness:
  "bs_gitClass (segment_of True (None, git_with_variable ''-C'' ''$DIR'' ''push'')) = Some ReadOnly
   \<and> classifyGitSegment [''git'', ''-C'', ''$DIR'', ''push''] = Some SharedRemote"
  using variable_hides_subcommand [of "''-C''" "''$DIR''" "''push''"]
  by (simp add: takes_value_def classifyGitSegment_def basename_git startsWith_def injects_config_def subcommand_class_def
      READ_SUBCOMMANDS_def)

end
