(* ===== verification/Shell_Strip.thy ===== *)
theory Shell_Strip
  imports Shell_Words
begin

text \<open>
  Peeling assignments and wrapper commands off the text of a command before a rule is matched against it,
  \<open>shell-ast/wrappers.ts\<close> (the string level), and the matcher that Bash gives its rules,
  \<open>tools/support/rule-match.ts\<close>.

  The patterns of the source are terms of \<open>regex\<close>; \<open>rests\<close> lists what a match can leave, in the order in which
  a backtracking matcher tries, so that its first element is what \<open>exec\<close> and \<open>replace\<close> use. \<open>Star\<close> is greedy, and an
  iteration that consumes nothing is no iteration.
\<close>

section \<open>Regular expressions\<close>

datatype regex = Eps | Cls "char \<Rightarrow> bool" | Cat regex regex | Alt regex regex | Star regex | NotAhead regex

function rests :: "regex \<Rightarrow> string \<Rightarrow> string list" where
  "rests Eps s = [s]"
| "rests (Cls p) s = (case s of [] \<Rightarrow> [] | c # s' \<Rightarrow> if p c then [s'] else [])"
| "rests (Cat a b) s = concat (map (rests b) (rests a s))"
| "rests (Alt a b) s = rests a s @ rests b s"
| "rests (Star r) s = concat (map (\<lambda>s'. if length s' < length s then rests (Star r) s' else []) (rests r s)) @ [s]"
| "rests (NotAhead r) s = (if rests r s = [] then [s] else [])"
  by pat_completeness auto
termination
  by (relation "measures [\<lambda>(r, s). size r, \<lambda>(r, s). length s]") auto

declare rests.simps(5) [simp del]

definition first_match :: "regex \<Rightarrow> string \<Rightarrow> string option" where
  "first_match r s = (case rests r s of [] \<Rightarrow> None | s' # _ \<Rightarrow> Some s')"

definition chr :: "char \<Rightarrow> regex" where "chr c = Cls (\<lambda>x. x = c)"

fun lit :: "string \<Rightarrow> regex" where
  "lit [] = Eps"
| "lit (c # s) = Cat (chr c) (lit s)"

definition opt :: "regex \<Rightarrow> regex" where "opt r = Alt r Eps"
definition plus :: "regex \<Rightarrow> regex" where "plus r = Cat r (Star r)"

fun cats :: "regex list \<Rightarrow> regex" where
  "cats [] = Eps"
| "cats (r # rs) = Cat r (cats rs)"

fun alts :: "regex list \<Rightarrow> regex" where
  "alts [] = NotAhead Eps"
| "alts [r] = r"
| "alts (r # s # rs) = Alt r (alts (s # rs))"

section \<open>The patterns\<close>

datatype strip_mode = StripAllow | StripDeny

definition SAFE_ENV_VARS :: "string list" where
  "SAFE_ENV_VARS =
     [''GOEXPERIMENT'', ''GOOS'', ''GOARCH'', ''CGO_ENABLED'', ''GO111MODULE'', ''RUST_BACKTRACE'', ''RUST_LOG'', ''NODE_ENV'',
      ''PYTHONUNBUFFERED'', ''PYTHONDONTWRITEBYTECODE'', ''PYTEST_DISABLE_PLUGIN_AUTOLOAD'', ''PYTEST_DEBUG'', ''LANG'', ''LANGUAGE'',
      ''LC_ALL'', ''LC_CTYPE'', ''LC_TIME'', ''CHARSET'', ''TERM'', ''COLORTERM'', ''NO_COLOR'', ''FORCE_COLOR'', ''TZ'']"

definition BINARY_HIJACK_VARS :: "string \<Rightarrow> bool" where
  "BINARY_HIJACK_VARS name \<longleftrightarrow> startsWith name ''LD_'' \<or> startsWith name ''DYLD_'' \<or> name = ''PATH''"

definition blank :: "char \<Rightarrow> bool" where "blank c \<longleftrightarrow> c \<in> {CHR '' '', CHR 0x09}"
definition newline_char :: "char \<Rightarrow> bool" where "newline_char c \<longleftrightarrow> c \<in> {CHR 0x0A, CHR 0x0D}"
definition name_char :: "char \<Rightarrow> bool" where "name_char c \<longleftrightarrow> is_alnum c \<or> c = CHR ''_''"
definition value_char :: "char \<Rightarrow> bool" where "value_char c \<longleftrightarrow> is_alnum c \<or> c \<in> set ''_.+-''"

abbreviation blanks :: regex where "blanks \<equiv> plus (Cls blank)"
abbreviation flag_value :: regex where "flag_value \<equiv> plus (Cls value_char)"
abbreviation digits :: regex where "digits \<equiv> plus (Cls is_digit)"
abbreviation name_regex :: regex where "name_regex \<equiv> Cat (Cls is_letter_or_underscore) (Star (Cls name_char))"

definition PATH_PREFIX :: regex where
  "PATH_PREFIX = Star (cats [opt (chr CHR ''/''), flag_value, chr CHR ''/''])"

definition SAFE_ENV_ASSIGNMENT :: regex where
  "SAFE_ENV_ASSIGNMENT = cats [name_regex, chr CHR ''='', plus (Cls (\<lambda>c. is_alnum c \<or> c \<in> set ''_./:+-'')), blanks]"

definition ANY_ENV_ASSIGNMENT :: regex where
  "ANY_ENV_ASSIGNMENT = cats
     [name_regex, opt (cats [chr CHR ''['', Star (Cls (\<lambda>c. c \<noteq> CHR '']'')), chr CHR '']'']), opt (chr CHR ''+''), chr CHR ''='',
      Star (alts
        [cats [chr CHR 0x27, Star (Cls (\<lambda>c. c \<noteq> CHR 0x27 \<and> \<not> newline_char c)), chr CHR 0x27],
         cats [chr CHR 0x22,
           Star (alts [cats [chr CHR 0x5C, Cls (\<lambda>c. \<not> newline_char c)],
             Cls (\<lambda>c. c \<notin> {CHR 0x22, CHR ''$'', CHR 0x60, CHR 0x5C} \<and> \<not> newline_char c)]),
           chr CHR 0x22],
         cats [chr CHR 0x5C, Cls (\<lambda>c. \<not> newline_char c)],
         Cls (\<lambda>c. \<not> blank c \<and> \<not> newline_char c \<and> c \<notin> {CHR ''$'', CHR 0x60, CHR '';'', CHR ''|'', CHR ''&'', CHR ''('', CHR '')'',
           CHR ''<'', CHR ''>'', CHR 0x5C, CHR 0x27, CHR 0x22})]),
      blanks]"

definition flagsToRegexAlternatives :: "flag_spec \<Rightarrow> regex" where
  "flagsToRegexAlternatives spec = alts
     (map lit (fs_free spec)
      @ concat (map (\<lambda>flag. if startsWith flag ''--''
          then [cats [lit flag, chr CHR ''='', flag_value], cats [lit flag, blanks, flag_value]]
          else [cats [lit flag, blanks, flag_value], cats [lit flag, flag_value]]) (fs_value spec))
      @ map (\<lambda>flag. cats [lit flag, chr CHR ''='', flag_value]) (fs_equalsValue spec))"

abbreviation double_dash :: regex where "double_dash \<equiv> opt (cats [lit ''--'', blanks])"

definition SUDO_PATTERN :: regex where
  "SUDO_PATTERN = cats [PATH_PREFIX, lit ''sudo'', Star (Cat blanks (flagsToRegexAlternatives SUDO_FLAGS)), blanks, double_dash]"

definition DOAS_PATTERN :: regex where
  "DOAS_PATTERN = cats [PATH_PREFIX, lit ''doas'', Star (Cat blanks (flagsToRegexAlternatives DOAS_FLAGS)), blanks, double_dash]"

definition ENV_PATTERN :: regex where
  "ENV_PATTERN = cats [PATH_PREFIX, lit ''env'',
     Star (Cat blanks (Alt (flagsToRegexAlternatives ENV_FLAGS)
       (cats [name_regex, chr CHR ''='', Star (Cls (\<lambda>c. is_alnum c \<or> c \<in> set ''_./:+-''))]))),
     blanks, double_dash]"

definition duration_regex :: regex where
  "duration_regex = cats [digits, opt (cats [chr CHR ''.'', digits]), opt (Cls (\<lambda>c. c \<in> set ''smhd''))]"

definition TIMEOUT_PATTERN :: regex where
  "TIMEOUT_PATTERN = cats [PATH_PREFIX, lit ''timeout'', blanks,
     Star (Cat (alts
       [cats [lit ''--'', alts [lit ''foreground'', lit ''preserve-status'', lit ''verbose'']],
        cats [lit ''--'', alts [lit ''kill-after'', lit ''signal''], chr CHR ''='', flag_value],
        cats [lit ''--'', alts [lit ''kill-after'', lit ''signal''], blanks, flag_value],
        lit ''-v'',
        cats [chr CHR ''-'', Cls (\<lambda>c. c \<in> set ''ks''), blanks, flag_value],
        cats [chr CHR ''-'', Cls (\<lambda>c. c \<in> set ''ks''), flag_value]]) blanks),
     double_dash, duration_regex, blanks]"

definition NICE_PATTERN :: regex where
  "NICE_PATTERN = cats [PATH_PREFIX, lit ''nice'',
     opt (alts [cats [blanks, lit ''-n'', blanks, opt (chr CHR ''-''), digits], cats [blanks, chr CHR ''-'', digits]]),
     blanks, double_dash]"

definition STDBUF_PATTERN :: regex where
  "STDBUF_PATTERN = cats [PATH_PREFIX, lit ''stdbuf'',
     plus (cats [blanks, chr CHR ''-'', Cls (\<lambda>c. c \<in> set ''ioe''), plus (Cls (\<lambda>c. is_digit c \<or> c \<in> set ''LN''))]),
     blanks, double_dash]"

definition PLAIN_WRAPPER_PATTERN :: regex where
  "PLAIN_WRAPPER_PATTERN = cats [PATH_PREFIX, alts [lit ''nohup'', lit ''time''], blanks, double_dash]"

definition SHELL_KEYWORD_PATTERN :: regex where
  "SHELL_KEYWORD_PATTERN = cats [PATH_PREFIX, alts [lit ''command'', lit ''builtin''], blanks, NotAhead (chr CHR ''-'')]"

definition SAFE_WRAPPER_PATTERNS :: "regex list" where
  "SAFE_WRAPPER_PATTERNS = [TIMEOUT_PATTERN, NICE_PATTERN, STDBUF_PATTERN, PLAIN_WRAPPER_PATTERN, SUDO_PATTERN, DOAS_PATTERN,
     ENV_PATTERN, SHELL_KEYWORD_PATTERN]"

section \<open>A match leaves a rest of the text\<close>

lemma rests_suffix: "s' \<in> set (rests r s) \<Longrightarrow> \<exists>k. s' = drop k s"
proof (induction r s arbitrary: s' rule: rests.induct)
  case (1 s)
  then show ?case by (auto intro: exI [of _ 0])
next
  case (2 p s)
  then show ?case by (auto split: list.splits if_splits intro: exI [of _ "Suc 0"])
next
  case (3 a b s)
  then obtain m where "m \<in> set (rests a s)" "s' \<in> set (rests b m)" by auto
  then show ?case using 3 by (metis drop_drop)
next
  case (5 r s)
  then consider "s' = s" | m where "m \<in> set (rests r s)" "length m < length s" "s' \<in> set (rests (Star r) m)"
    by (subst (asm) rests.simps) (auto split: if_splits)
  then show ?case
  proof cases
    case 1
    then show ?thesis by (auto intro: exI [of _ 0])
  next
    case 2
    then show ?thesis using 5(1,2) by (metis drop_drop)
  qed
next
  case (6 r s)
  then show ?case by (auto intro: exI [of _ 0] split: if_splits)
qed auto

lemma first_match_mem: "first_match r s = Some s' \<Longrightarrow> s' \<in> set (rests r s)"
  by (cases "rests r s") (simp_all add: first_match_def)

lemma first_match_suffix: "first_match r s = Some s' \<Longrightarrow> \<exists>k. s' = drop k s"
  by (rule rests_suffix [OF first_match_mem])

lemma rests_length: "s' \<in> set (rests r s) \<Longrightarrow> length s' \<le> length s"
  using rests_suffix by fastforce

lemma cat_cls_shorter: "s' \<in> set (rests (Cat (Cls p) r) s) \<Longrightarrow> length s' < length s"
  by (auto split: list.splits if_splits dest: rests_length)

lemma cats_cls_shorter: "s' \<in> set (rests (Cat (Cat (Cls p) r) r') s) \<Longrightarrow> length s' < length s"
proof -
  assume "s' \<in> set (rests (Cat (Cat (Cls p) r) r') s)"
  then obtain m where "m \<in> set (rests (Cat (Cls p) r) s)" "s' \<in> set (rests r' m)" by auto
  then show ?thesis using cat_cls_shorter [of m p r s] rests_length [of s' r' m] by linarith
qed

section \<open>Stripping\<close>

text \<open>The assignments. \<open>match[1]\<close>, the name, is the run of name characters: what follows it is none of them.\<close>

definition assignment_of :: "strip_mode \<Rightarrow> regex" where
  "assignment_of mode = (case mode of StripAllow \<Rightarrow> SAFE_ENV_ASSIGNMENT | StripDeny \<Rightarrow> ANY_ENV_ASSIGNMENT)"

lemma assignment_starts: "\<exists>p r r'. assignment_of mode = Cat (Cat (Cls p) r) r'"
  by (cases mode) (simp_all add: assignment_of_def SAFE_ENV_ASSIGNMENT_def ANY_ENV_ASSIGNMENT_def)

lemma assignment_shorter: "first_match (assignment_of mode) s = Some s' \<Longrightarrow> length s' < length s"
  using assignment_starts [of mode] cats_cls_shorter first_match_mem by metis

function strip_assignments :: "strip_mode \<Rightarrow> string \<Rightarrow> bool \<Rightarrow> string \<times> bool" where
  "strip_assignments mode current stripped =
     (case first_match (assignment_of mode) current of
        None \<Rightarrow> (current, stripped)
      | Some rest \<Rightarrow>
          let name = takeWhile name_char current in
          if mode = StripAllow \<and> (name \<notin> set SAFE_ENV_VARS \<or> BINARY_HIJACK_VARS name) then (current, stripped)
          else strip_assignments mode rest True)"
  by pat_completeness auto
termination
  by (relation "measure (\<lambda>(mode, current, stripped). length current)") (auto dest: assignment_shorter)

declare strip_assignments.simps [simp del]

definition strip_pattern :: "string \<Rightarrow> regex \<Rightarrow> string" where
  "strip_pattern s pattern = (case first_match pattern s of None \<Rightarrow> s | Some rest \<Rightarrow> rest)"

definition strip_round :: "string \<Rightarrow> string" where
  "strip_round s = foldl strip_pattern s SAFE_WRAPPER_PATTERNS"

lemma strip_pattern_suffix: "\<exists>k. strip_pattern s p = drop k s"
  by (auto simp: strip_pattern_def split: option.splits intro: first_match_suffix exI [of _ 0])

lemma strip_round_suffix: "\<exists>k. strip_round s = drop k s"
proof -
  have "\<exists>k. foldl strip_pattern s ps = drop k s" for ps
  proof (induction ps rule: rev_induct)
    case (snoc p ps)
    then show ?case using strip_pattern_suffix [of "foldl strip_pattern s ps" p] by (metis foldl_Cons foldl_Nil foldl_append drop_drop)
  qed (auto intro: exI [of _ 0])
  then show ?thesis by (simp add: strip_round_def)
qed

lemma strip_round_shorter: "strip_round s \<noteq> s \<Longrightarrow> length (strip_round s) < length s"
  using strip_round_suffix [of s] by (metis diff_less drop_0 length_drop length_greater_0_conv not_gr_zero drop_Nil)

function strip_wrappers :: "string \<Rightarrow> bool \<Rightarrow> string \<times> bool" where
  "strip_wrappers current stripped =
     (let n = strip_round current in if n = current then (current, stripped) else strip_wrappers n True)"
  by pat_completeness auto
termination
  by (relation "measure (\<lambda>(current, stripped). length current)") (auto dest: strip_round_shorter)

declare strip_wrappers.simps [simp del]

definition stripWrapperPrefixes :: "string \<Rightarrow> strip_mode \<Rightarrow> string \<times> bool" where
  "stripWrapperPrefixes command mode =
     (let (s1, stripped1) = strip_assignments mode command False; (s2, stripped2) = strip_wrappers s1 stripped1
      in (trim s2, stripped2))"

section \<open>Matching a segment\<close>

definition matchesWrapperAwareSubject ::
    "(string \<Rightarrow> string \<Rightarrow> bool) \<Rightarrow> string \<Rightarrow> string \<Rightarrow> bool \<Rightarrow> bool \<Rightarrow> rule_decision option \<Rightarrow> bool" where
  "matchesWrapperAwareSubject glob ruleArgs subject enabled degraded decision =
     (if matchesGlobRuleSubject glob ruleArgs subject then True
      else if \<not> enabled \<or> degraded then False
      else case decision of
          None \<Rightarrow> False
        | Some d \<Rightarrow>
            if startsWith ruleArgs ''!'' then False
            else let (command, stripped) = stripWrapperPrefixes subject (if d = Allow then StripAllow else StripDeny)
                 in stripped \<and> matchesGlobRuleSubject glob ruleArgs command)"

text \<open>What \<open>Bash\<close> answers to \<open>resolveExecution\<close>, as far as rules are concerned (\<open>tools/builtin/shell/bash.ts\<close>).\<close>

definition bash_rule_execution :: "(string \<Rightarrow> string \<Rightarrow> bool) \<Rightarrow> bool \<Rightarrow> string \<Rightarrow> bash_analysis \<Rightarrow> rule_execution" where
  "bash_rule_execution glob wrapperStripping command analysis =
     \<lparr>ex_ruleToolName = None,
      ex_ruleMatch = Some (ba_subjects analysis, \<lambda>ruleArgs subject decision.
        matchesWrapperAwareSubject glob ruleArgs subject wrapperStripping (ba_degraded analysis) (Some decision)),
      ex_matchesRule = Some (\<lambda>ruleArgs. matchesGlobRuleSubject glob ruleArgs command)\<rparr>"

section \<open>What an allow rule never looks behind\<close>

lemma star_cls_rests: "s' \<in> set (rests (Star (Cls p)) s) \<Longrightarrow> \<exists>k \<le> length s. s' = drop k s \<and> list_all p (take k s)"
proof (induction s)
  case Nil
  then show ?case by (simp add: rests.simps(5))
next
  case (Cons c s)
  show ?case
  proof (cases "p c \<and> s' \<noteq> c # s")
    case True
    then have "s' \<in> set (rests (Star (Cls p)) s)" using Cons.prems by (subst (asm) rests.simps(5)) simp
    then obtain k where "k \<le> length s" "s' = drop k s" "list_all p (take k s)" using Cons.IH by blast
    then show ?thesis using True by (intro exI [of _ "Suc k"]) simp
  next
    case False
    then have "s' = c # s" using Cons.prems by (subst (asm) rests.simps(5)) (auto split: if_splits)
    then show ?thesis by (intro exI [of _ 0]) simp
  qed
qed

lemma plus_cls_rests: "s' \<in> set (rests (plus (Cls p)) s) \<Longrightarrow> \<exists>k \<le> length s. s' = drop k s \<and> list_all p (take k s)"
proof -
  assume a: "s' \<in> set (rests (plus (Cls p)) s)"
  then obtain c t where s: "s = c # t" "p c" "s' \<in> set (rests (Star (Cls p)) t)"
    by (auto simp: plus_def split: list.splits if_splits)
  then obtain k where "k \<le> length t" "s' = drop k t" "list_all p (take k t)" using star_cls_rests by blast
  then show ?thesis using s by (intro exI [of _ "Suc k"]) simp
qed

text \<open>A text that begins with an assignment to a name.\<close>

definition assigns :: "string \<Rightarrow> string \<Rightarrow> bool" where
  "assigns name s \<longleftrightarrow> name \<noteq> [] \<and> list_all name_char name \<and> startsWith s (name @ ''='')"

text \<open>Where a run of name characters ends inside such a text, the next character is one of the name or the equals sign.\<close>

lemma assigns_drop:
  assumes "assigns name s" "list_all (\<lambda>c. c \<noteq> CHR ''='') (take k s)"
  shows "drop k s \<noteq> [] \<and> (name_char (hd (drop k s)) \<or> hd (drop k s) = CHR ''='')"
proof -
  obtain r where s: "s = name @ CHR ''='' # r" using assms(1) by (auto simp: assigns_def startsWith_iff_append)
  have k: "k \<le> length name"
  proof (rule ccontr)
    assume "\<not> k \<le> length name"
    then have "CHR ''='' \<in> set (take k s)" by (cases "k - length name") (auto simp: s)
    then show False using assms(2) by (auto simp: list_all_iff)
  qed
  show ?thesis
  proof (cases "k = length name")
    case False
    then have "hd (drop k s) = name ! k" "drop k s \<noteq> []" using k by (simp_all add: s hd_drop_conv_nth nth_append)
    moreover have "name_char (name ! k)" using assms(1) k False by (simp add: assigns_def list_all_length)
    ultimately show ?thesis by simp
  qed (simp add: s)
qed

lemma not_alnum: "\<not> is_alnum (CHR '' '')" "\<not> is_alnum (CHR 0x09)" "\<not> is_alnum (CHR ''/'')" "\<not> is_alnum (CHR ''='')"
  by (simp_all add: is_alnum_def)

lemma name_char_others: "name_char c \<or> c = CHR ''='' \<Longrightarrow> \<not> blank c" "name_char c \<or> c = CHR ''='' \<Longrightarrow> c \<noteq> CHR ''/''"
  using not_alnum by (auto simp: name_char_def blank_def)

lemma not_equals: "name_char c \<Longrightarrow> c \<noteq> CHR ''=''" "value_char c \<Longrightarrow> c \<noteq> CHR ''=''"
  using not_alnum by (auto simp: name_char_def value_char_def)

lemma chr_fails: "drop k s \<noteq> [] \<Longrightarrow> hd (drop k s) \<noteq> c \<Longrightarrow> rests (Cat (chr c) r) (drop k s) = []"
  by (cases "drop k s") (simp_all add: chr_def)

lemma star_stops: "rests r s = [] \<Longrightarrow> rests (Star r) s = [s]"
  by (subst rests.simps(5)) simp

lemma path_prefix_skips: "assigns name s \<Longrightarrow> rests PATH_PREFIX s = [s]"
proof -
  assume a: "assigns name s"
  have slash: "rests (Cat (chr CHR ''/'') Eps) s' = []" if "s' \<in> set (rests flag_value s)" for s'
  proof -
    obtain k where k: "s' = drop k s" "list_all value_char (take k s)" using plus_cls_rests [OF \<open>s' \<in> _\<close>] by blast
    then have "list_all (\<lambda>c. c \<noteq> CHR ''='') (take k s)" using not_equals by (auto simp: list_all_iff)
    from assigns_drop [OF a this] have "drop k s \<noteq> []" "hd (drop k s) \<noteq> CHR ''/''" using name_char_others(2) by blast+
    then show ?thesis unfolding k(1) by (rule chr_fails)
  qed
  have "rests (opt (chr CHR ''/'')) s = [s]"
  proof -
    obtain c t where s: "s = c # t" using assigns_drop [OF a, of 0] by (cases s) auto
    then have "c \<noteq> CHR ''/''" using assigns_drop [OF a, of 0] name_char_others(2) [of c] by simp
    then show ?thesis using s by (simp add: opt_def chr_def)
  qed
  then have "rests (cats [opt (chr CHR ''/''), flag_value, chr CHR ''/'']) s = []" using slash by simp
  then show ?thesis by (simp only: PATH_PREFIX_def star_stops)
qed

lemma lit_rests: "rests (lit w) s = (if startsWith s w then [drop (length w) s] else [])"
proof (induction w arbitrary: s)
  case (Cons c w)
  then show ?case by (cases s) (auto simp: chr_def startsWith_def)
qed (simp add: startsWith_def)

text \<open>A pattern that can only go on with a blank.\<close>

definition needs_blank :: "regex \<Rightarrow> bool" where
  "needs_blank r \<longleftrightarrow> (\<forall>s. s = [] \<or> \<not> blank (hd s) \<longrightarrow> rests r s = [])"

lemma blanks_fail: "s = [] \<or> \<not> blank (hd s) \<Longrightarrow> rests blanks s = []"
  by (cases s) (auto simp: plus_def)

lemma needs_blank_cat: "needs_blank r \<Longrightarrow> needs_blank (Cat r r')"
  by (simp add: needs_blank_def)

lemma needs_blank_blanks: "needs_blank blanks"
  by (simp add: needs_blank_def blanks_fail)

lemma needs_blank_star: "needs_blank r \<Longrightarrow> needs_blank r' \<Longrightarrow> needs_blank (Cat (Star r) r')"
  by (simp add: needs_blank_def star_stops)

lemma needs_blank_opt: "needs_blank r \<Longrightarrow> needs_blank r' \<Longrightarrow> needs_blank (Cat (opt r) r')"
  by (simp add: needs_blank_def opt_def)

lemma needs_blank_alt: "needs_blank r \<Longrightarrow> needs_blank r' \<Longrightarrow> needs_blank (Alt r r')"
  by (simp add: needs_blank_def)

lemmas needs_blank_intros = needs_blank_cat needs_blank_blanks needs_blank_star needs_blank_opt needs_blank_alt

lemma word_then_blank_fails:
  assumes "assigns name s" "list_all name_char w" "needs_blank r"
  shows "rests (Cat (lit w) r) s = []"
proof (cases "startsWith s w")
  case True
  then have "take (length w) s = w" by (simp add: startsWith_def)
  then have "list_all (\<lambda>c. c \<noteq> CHR ''='') (take (length w) s)" using assms(2) not_equals by (auto simp: list_all_iff)
  from assigns_drop [OF assms(1) this] have "\<not> blank (hd (drop (length w) s))" using name_char_others(1) by blast
  then show ?thesis using assms(3) True by (simp add: lit_rests needs_blank_def)
qed (simp add: lit_rests)

text \<open>The wrapper patterns: a path, a word and a blank.\<close>

lemma two_words:
  "rests (Cat (lit v) r) s = [] \<Longrightarrow> rests (Cat (lit w) r) s = [] \<Longrightarrow> rests (Cat (Alt (lit v) (lit w)) r) s = []"
  by simp

lemma needs_blank_plus: "needs_blank r \<Longrightarrow> needs_blank (Cat (plus r) r')"
  by (simp add: needs_blank_def plus_def)

lemma after_prefix: "assigns name s \<Longrightarrow> rests r s = [] \<Longrightarrow> rests (Cat PATH_PREFIX r) s = []"
  by (simp add: path_prefix_skips)

lemma wrapper_words:
  "list_all name_char ''sudo''" "list_all name_char ''doas''" "list_all name_char ''env''" "list_all name_char ''timeout''"
  "list_all name_char ''nice''" "list_all name_char ''stdbuf''" "list_all name_char ''nohup''" "list_all name_char ''time''"
  "list_all name_char ''command''" "list_all name_char ''builtin''"
  by (simp_all add: name_char_def is_alnum_def)

lemma wrapper_pattern_fails:
  assumes "assigns name s" "pattern \<in> set SAFE_WRAPPER_PATTERNS"
  shows "rests pattern s = []"
proof -
  note fails = after_prefix [OF assms(1) word_then_blank_fails [OF assms(1)]] after_prefix [OF assms(1) two_words] word_then_blank_fails [OF assms(1)]
  have "rests TIMEOUT_PATTERN s = []" "rests NICE_PATTERN s = []" "rests STDBUF_PATTERN s = []" "rests PLAIN_WRAPPER_PATTERN s = []"
    "rests SUDO_PATTERN s = []" "rests DOAS_PATTERN s = []" "rests ENV_PATTERN s = []" "rests SHELL_KEYWORD_PATTERN s = []"
    unfolding TIMEOUT_PATTERN_def NICE_PATTERN_def STDBUF_PATTERN_def PLAIN_WRAPPER_PATTERN_def SUDO_PATTERN_def DOAS_PATTERN_def
      ENV_PATTERN_def SHELL_KEYWORD_PATTERN_def cats.simps alts.simps
    by (rule fails wrapper_words needs_blank_intros needs_blank_plus)+
  then show ?thesis using assms(2) by (auto simp: SAFE_WRAPPER_PATTERNS_def)
qed

text \<open>
  C31: For an allow rule an assignment in front of a command is looked behind only if its variable is on the safe list: a
  command that starts with any other assignment, such as \<open>DOCKER_HOST\<close> or \<open>PATH\<close>, is matched as it stands.
\<close>

theorem allow_keeps_assignments:
  assumes "assigns name s" "name \<notin> set SAFE_ENV_VARS \<or> BINARY_HIJACK_VARS name"
  shows "stripWrapperPrefixes s StripAllow = (trim s, False)
    \<and> (matchesWrapperAwareSubject glob rule s enabled degraded (Some Allow) \<longleftrightarrow> matchesGlobRuleSubject glob rule s)"
proof -
  obtain r where s: "s = name @ CHR ''='' # r" and n: "list_all name_char name"
    using assms(1) by (auto simp: assigns_def startsWith_iff_append)
  have "takeWhile name_char s = name"
    using n by (simp add: s takeWhile_append name_char_def not_alnum list_all_iff)
  then have one: "strip_assignments StripAllow s False = (s, False)"
    using assms(2) by (subst strip_assignments.simps) (auto simp: Let_def split: option.split)
  have "foldl strip_pattern s ps = s" if "set ps \<subseteq> set SAFE_WRAPPER_PATTERNS" for ps
    using that by (induction ps) (auto simp: strip_pattern_def first_match_def wrapper_pattern_fails [OF assms(1)])
  then have "strip_round s = s" by (simp add: strip_round_def)
  then have "strip_wrappers s False = (s, False)" by (subst strip_wrappers.simps) simp
  then have "stripWrapperPrefixes s StripAllow = (trim s, False)" by (simp add: stripWrapperPrefixes_def one)
  then show ?thesis by (simp add: matchesWrapperAwareSubject_def)
qed

theorem allow_keeps_assignments_witness:
  "stripWrapperPrefixes ''DOCKER_HOST=evil docker ps'' StripAllow = (''DOCKER_HOST=evil docker ps'', False)"
proof -
  have "assigns ''DOCKER_HOST'' ''DOCKER_HOST=evil docker ps''" by (simp add: assigns_def name_char_def is_alnum_def startsWith_def)
  moreover have "''DOCKER_HOST'' \<notin> set SAFE_ENV_VARS" by (simp add: SAFE_ENV_VARS_def)
  moreover have "trim ''DOCKER_HOST=evil docker ps'' = ''DOCKER_HOST=evil docker ps''" by (simp add: trim_def is_space_def)
  ultimately show ?thesis using allow_keeps_assignments by metis
qed

section \<open>Where the peeling goes wrong\<close>

lemma env_strip: "stripWrapperPrefixes ''env LD_PRELOAD=./x.so ls -la'' StripAllow = (''ls -la'', True)"
  by code_simp

text \<open>
  The same assignment behind \<open>env\<close> is peeled off with it: an allow rule for \<open>ls\<close> also allows \<open>ls\<close> with a preloaded library,
  whatever the glob library does.
\<close>

theorem env_hides_assignment:
  "matchesWrapperAwareSubject glob ''ls *'' ''env LD_PRELOAD=./x.so ls -la'' True False (Some Allow)"
  by (simp add: matchesWrapperAwareSubject_def env_strip matchesGlobRuleSubject_def matchRuleSubjects_def textGlobMatch_def startsWith_def)

text \<open>The flag of a wrapper that is not known to the table becomes the command.\<close>

lemma star_cls_cons: "rests (Star (Cls p)) (c # s) = (if p c then rests (Star (Cls p)) s @ [c # s] else [c # s])"
  by (subst rests.simps(5)) simp

lemma flag_prefix: "rests PATH_PREFIX (''-p '' @ c) = [''-p '' @ c]"
  unfolding PATH_PREFIX_def
  by (rule star_stops) (simp add: opt_def plus_def chr_def star_cls_cons value_char_def not_alnum)

lemma flag_no_wrapper:
  assumes "pattern \<in> set SAFE_WRAPPER_PATTERNS"
  shows "rests pattern (''-p '' @ c) = []"
proof -
  have "list_all (\<lambda>pattern. rests pattern (''-p '' @ c) = []) SAFE_WRAPPER_PATTERNS"
    using flag_prefix [of c]
    by (simp add: SAFE_WRAPPER_PATTERNS_def TIMEOUT_PATTERN_def NICE_PATTERN_def STDBUF_PATTERN_def PLAIN_WRAPPER_PATTERN_def SUDO_PATTERN_def
        DOAS_PATTERN_def ENV_PATTERN_def SHELL_KEYWORD_PATTERN_def chr_def)
  then show ?thesis using assms by (simp add: list_all_iff)
qed

lemma flag_stays: "set ps \<subseteq> set SAFE_WRAPPER_PATTERNS \<Longrightarrow> foldl strip_pattern (''-p '' @ c) ps = ''-p '' @ c"
proof (induction ps)
  case (Cons p ps)
  then have "strip_pattern (''-p '' @ c) p = ''-p '' @ c" using flag_no_wrapper [of p c] by (simp add: strip_pattern_def first_match_def)
  then show ?case using Cons by simp
qed simp

lemma time_prefix: "rests PATH_PREFIX (''time -p '' @ c) = [''time -p '' @ c]"
  unfolding PATH_PREFIX_def
  by (rule star_stops) (simp add: opt_def plus_def chr_def star_cls_cons value_char_def not_alnum)

lemma time_round: "strip_round (''time -p '' @ c) = ''-p '' @ c"
proof -
  have "strip_pattern (''time -p '' @ c) TIMEOUT_PATTERN = ''time -p '' @ c" "strip_pattern (''time -p '' @ c) NICE_PATTERN = ''time -p '' @ c"
    "strip_pattern (''time -p '' @ c) STDBUF_PATTERN = ''time -p '' @ c"
    using time_prefix [of c]
    by (simp_all add: strip_pattern_def first_match_def TIMEOUT_PATTERN_def NICE_PATTERN_def STDBUF_PATTERN_def chr_def)
  moreover have "strip_pattern (''time -p '' @ c) PLAIN_WRAPPER_PATTERN = ''-p '' @ c"
    using time_prefix [of c]
    by (simp add: strip_pattern_def first_match_def PLAIN_WRAPPER_PATTERN_def chr_def plus_def blank_def star_cls_cons opt_def)
  moreover have "foldl strip_pattern (''-p '' @ c) [SUDO_PATTERN, DOAS_PATTERN, ENV_PATTERN, SHELL_KEYWORD_PATTERN] = ''-p '' @ c"
    by (rule flag_stays) (simp add: SAFE_WRAPPER_PATTERNS_def)
  ultimately show ?thesis unfolding strip_round_def SAFE_WRAPPER_PATTERNS_def by simp
qed

lemma time_strip:
  assumes "c \<noteq> []" "\<not> is_space (last c)"
  shows "stripWrapperPrefixes (''time -p '' @ c) StripAllow = (''-p '' @ c, True)"
proof -
  have "first_match SAFE_ENV_ASSIGNMENT (''time -p '' @ c) = None"
    by (simp add: first_match_def SAFE_ENV_ASSIGNMENT_def star_cls_cons chr_def name_char_def not_alnum)
  then have one: "strip_assignments StripAllow (''time -p '' @ c) False = (''time -p '' @ c, False)"
    by (subst strip_assignments.simps) (simp add: assignment_of_def)
  have same: "strip_round (''-p '' @ c) = ''-p '' @ c" by (simp only: strip_round_def flag_stays subset_refl)
  have "''-p '' @ c \<noteq> ''time -p '' @ c" by simp
  then have two: "strip_wrappers (''time -p '' @ c) False = (''-p '' @ c, True)"
    by (subst strip_wrappers.simps, subst strip_wrappers.simps) (simp only: time_round same Let_def if_False simp_thms if_True)
  have "trim (''-p '' @ c) = ''-p '' @ c" using assms by (intro trim_inner) (simp_all add: is_space_def)
  then show ?thesis by (simp only: stripWrapperPrefixes_def one two Let_def prod.case)
qed

lemma any_run: "loose_match [AnyRun] v"
  by (induction v) simp_all

lemma no_flag_in_table: "startsWith candidate ''-'' \<Longrightarrow> arity_of candidate = None"
proof -
  assume c: "startsWith candidate ''-''"
  have "list_all (\<lambda>(name, n). \<not> startsWith name ''-'') ARITY" by code_simp
  then have "map_of ARITY candidate = None" using c by (auto simp: map_of_eq_None_iff list_all_iff)
  moreover have "candidate \<notin> set inherited_names" using c by (auto simp: inherited_names_def startsWith_def)
  ultimately show ?thesis by (simp add: arity_of_def)
qed

lemma flag_is_prefix: "arityPrefix (''-p'' # ws) = [''-p'']"
proof -
  have "prefix_upto (''-p'' # ws) n = None" for n
    by (induction n) (simp_all add: no_flag_in_table join_words_def startsWith_def)
  from this [of "length (''-p'' # ws)"] show ?thesis by (simp only: arityPrefix_def option.case) simp
qed

lemma time_tokens: "ws \<noteq> [] \<Longrightarrow> stripWrapperTokens (''time'' # ''-p'' # ws) = Some (Tokens (''-p'' # ws) True)"
  by (simp add: stripWrapperTokens_def strip_loop.simps WRAPPER_CONSUMERS_def path_basename_def consumePlainWrapper_def)

lemma flag_pattern: "parsePattern ''Bash(-p *)'' = Inr (''Bash'', Some ''-p *'')"
  by (simp add: parsePattern_def trim_def is_space_def endsWith_def Let_def)

text \<open>
  C34: \<open>time -p\<close> with any command writes the rule \<open>Bash(-p *)\<close> when it is approved, and that rule covers \<open>time -p\<close> with every other
  command: approving \<open>time -p ls\<close> once approves \<open>time -p rm -rf /\<close>.
\<close>

theorem time_flag_approves_all:
  assumes "ws \<noteq> []" and "c \<noteq> []" "\<not> is_space (last c)"
    and "ba_subjects analysis = [''time -p '' @ c]" "\<not> ba_degraded analysis"
    and "glob ''Bash'' ''Bash''" "rl_decision rule = Allow"
  shows "segmentApprovalRule (''time'' # ''-p'' # ws) subject True = Some (Some ''Bash(-p *)'')
    \<and> (rl_pattern rule = ''Bash(-p *)'' \<longrightarrow>
        (\<exists>m. collectCoveredSubjects glob [rule] ''Bash'' (bash_rule_execution glob True (''time -p '' @ c) analysis) = Some (True, m)))"
proof
  show "segmentApprovalRule (''time'' # ''-p'' # ws) subject True = Some (Some ''Bash(-p *)'')"
    using assms(1) by (simp add: segmentApprovalRule_def effective_tokens_def time_tokens prefix_rule_def flag_is_prefix join_words_def
        escapeRuleSubjectLiteral_def GLOB_LITERAL_SPECIAL_def)
  let ?ex = "bash_rule_execution glob True (''time -p '' @ c) analysis"
  have "matchesWrapperAwareSubject glob ''-p *'' (''time -p '' @ c) True False (Some Allow)"
  proof -
    have "matchesGlobRuleSubject glob ''-p *'' (''-p '' @ c)"
      using any_run [of c] by (simp del: loose_match.simps(4) add: matchesGlobRuleSubject_def matchRuleSubjects_def textGlobMatch_def startsWith_def)
    then show ?thesis
      by (simp only: matchesWrapperAwareSubject_def time_strip [OF assms(2,3)] option.case if_True Let_def prod.case simp_thms)
        (simp add: startsWith_def)
  qed
  moreover have "ex_ruleMatch ?ex = Some ([''time -p '' @ c], \<lambda>ruleArgs subject decision.
      matchesWrapperAwareSubject glob ruleArgs subject True False (Some decision))"
    using assms(4,5) by (simp add: bash_rule_execution_def)
  ultimately show "rl_pattern rule = ''Bash(-p *)'' \<longrightarrow> (\<exists>m. collectCoveredSubjects glob [rule] ''Bash'' ?ex = Some (True, m))"
    using assms(6,7) by (auto simp: collect_covers_iff rule_covers_def flag_pattern names_tool_def ruleNamespaceOf_def bash_rule_execution_def)
qed

theorem time_flag_approves_all_witness:
  "\<exists>m. collectCoveredSubjects plain_glob [\<lparr>rl_decision = Allow, rl_scope = SessionRuntime, rl_pattern = ''Bash(-p *)'', rl_reason = None\<rparr>] ''Bash''
     (bash_rule_execution plain_glob True ''time -p rm -rf /''
        \<lparr>ba_subjects = [''time -p rm -rf /''], ba_approvalRules = [''Bash(-p *)''], ba_degraded = False, ba_segments = []\<rparr>) = Some (True, m)"
proof -
  have "plain_glob ''Bash'' ''Bash''" by (simp add: plain_glob_def)
  then show ?thesis
    using time_flag_approves_all [of "[''ls'']" "''rm -rf /''"
        "\<lparr>ba_subjects = [''time -p rm -rf /''], ba_approvalRules = [''Bash(-p *)''], ba_degraded = False, ba_segments = []\<rparr>" plain_glob
        "\<lparr>rl_decision = Allow, rl_scope = SessionRuntime, rl_pattern = ''Bash(-p *)'', rl_reason = None\<rparr>"]
    by (simp add: is_space_def)
qed

section \<open>What an approved prefix covers\<close>

lemma loose_escape_append: "looseTextGlobToRegExp (escapeRuleSubjectLiteral s @ t) = map Lit s @ looseTextGlobToRegExp t"
proof (induction s)
  case (Cons c s)
  then show ?case using not_special [of c] by (cases "escapeRuleSubjectLiteral s @ t") (simp_all add: escape_cons)
qed (simp add: escapeRuleSubjectLiteral_def)

lemma loose_lits: "loose_match (map Lit s @ ps) v \<longleftrightarrow> (\<exists>r. v = s @ r \<and> loose_match ps r)"
  by (induction s arbitrary: v) (auto split: list.splits)

text \<open>
  The rule written for the leading words \<open>P\<close> of a command covers every command that goes on after them, for rules of each kind.
  The command \<open>P\<close> alone it covers only if the glob library lets its last blank match nothing: an approved \<open>git push\<close> without
  arguments is asked for again.
\<close>

theorem prefix_rule_covers:
  assumes "P \<noteq> []" "stripWrapperPrefixes P StripAllow = (P', False)"
  shows "matchesWrapperAwareSubject glob (escapeRuleSubjectLiteral P @ '' *'') (P @ '' '' @ r) enabled degraded d
    \<and> (matchesWrapperAwareSubject glob (escapeRuleSubjectLiteral P @ '' *'') P enabled degraded (Some Allow)
        \<longleftrightarrow> globMatch glob P (escapeRuleSubjectLiteral P @ '' *''))"
proof -
  let ?rule = "escapeRuleSubjectLiteral P @ '' *''"
  have n: "?rule \<noteq> []" "\<not> startsWith ?rule ''!''"
    using escape_not_negated [of P] assms(1) escape_empty [of P] by (cases "escapeRuleSubjectLiteral P"; auto simp: startsWith_def)+
  have l: "looseTextGlobToRegExp ?rule = map Lit (P @ '' '') @ [AnyRun]"
    by (simp add: loose_escape_append)
  have m: "matchesGlobRuleSubject glob ?rule v \<longleftrightarrow> globMatch glob v ?rule \<or> (\<exists>r. v = (P @ '' '') @ r)" for v
    using n any_run by (simp del: loose_match.simps(4) map_append
        add: matchesGlobRuleSubject_def matchRuleSubjects_def textGlobMatch_def l loose_lits) blast
  show ?thesis
    using m [of P] m [of "P @ '' '' @ r"] n assms(2) by (auto simp: matchesWrapperAwareSubject_def)
qed

theorem prefix_rule_covers_witness:
  "matchesWrapperAwareSubject plain_glob ''git push *'' ''git push origin main'' True False (Some Allow)
   \<and> \<not> matchesWrapperAwareSubject plain_glob ''git push *'' ''git push'' True False (Some Allow)"
proof -
  have "stripWrapperPrefixes ''git push'' StripAllow = (''git push'', False)" by code_simp
  from prefix_rule_covers [OF _ this, of plain_glob "''origin main''" True False "Some Allow"]
    prefix_rule_covers [OF _ this, of plain_glob "[]" True False "None"]
  show ?thesis
    by (simp add: escapeRuleSubjectLiteral_def GLOB_LITERAL_SPECIAL_def globMatch_def stripLeadingDotSlash_def startsWith_def plain_glob_def)
qed

end
