(* ===== verification/Perm_Paths.thy ===== *)
theory Perm_Paths
  imports Tool_Access
begin

text \<open>
  The tests on file paths that the permission policies use: sensitive files (\<open>tools/policies/sensitive.ts\<close>), containment in a
  directory and in the workspace (\<open>tools/policies/path-access.ts\<close>), and the git work tree that a directory lies in
  (\<open>tools/support/git-worktree.ts\<close>).

  The path library pathe and the file system are arguments, gathered in records.
\<close>

section \<open>Library and file system\<close>

record pathe =
  pt_normalize :: "string \<Rightarrow> string"
  pt_isAbsolute :: "string \<Rightarrow> bool"
  pt_join :: "string \<Rightarrow> string \<Rightarrow> string"
  pt_dirname :: "string \<Rightarrow> string"
  pt_basename :: "string \<Rightarrow> string"

datatype path_class = Posix | Win32

text \<open>\<open>stat\<close> answers the mode, \<open>readText\<close> the content; \<open>None\<close> where the call throws.\<close>

record kaos =
  ks_stat :: "string \<Rightarrow> nat option"
  ks_readText :: "string \<Rightarrow> string option"

section \<open>Sensitive files\<close>

definition SENSITIVE_BASENAMES :: "string list" where
  "SENSITIVE_BASENAMES = [''.env'', ''id_rsa'', ''id_ed25519'', ''id_ecdsa'', ''credentials'']"

definition SENSITIVE_PATH_SUFFIXES :: "string list" where
  "SENSITIVE_PATH_SUFFIXES = [''.aws/credentials'', ''.gcp/credentials'']"

definition ENV_EXEMPTIONS :: "string list" where
  "ENV_EXEMPTIONS = [''.env.example'', ''.env.sample'', ''.env.template'']"

definition SENSITIVE_BASENAME_PREFIXES :: "string list" where
  "SENSITIVE_BASENAME_PREFIXES = [''id_rsa'', ''id_ed25519'', ''id_ecdsa'', ''credentials'']"

definition PUBLIC_KEY_BASENAMES :: "string list" where
  "PUBLIC_KEY_BASENAMES = [''id_rsa.pub'', ''id_ed25519.pub'', ''id_ecdsa.pub'']"

definition SENSITIVE_DOT_VARIANT_SUFFIXES :: "string list" where
  "SENSITIVE_DOT_VARIANT_SUFFIXES =
     [''.bak'', ''.backup'', ''.copy'', ''.disabled'', ''.key'', ''.old'', ''.orig'', ''.pem'', ''.save'', ''.tmp'']"

definition str_includes :: "string \<Rightarrow> string \<Rightarrow> bool" where
  "str_includes s part \<longleftrightarrow> list_ex (\<lambda>i. startsWith (drop i s) part) [0..<Suc (length s)]"

definition variant_of :: "string \<Rightarrow> string \<Rightarrow> bool" where
  "variant_of name p \<longleftrightarrow> name = p \<or>
     (length name > length p \<and> startsWith name p \<and>
      (let suffix = drop (length p) name; nx = suffix ! 0 in
       nx = CHR ''-'' \<or> nx = CHR ''_'' \<or> (nx = CHR ''.'' \<and> suffix \<in> set SENSITIVE_DOT_VARIANT_SUFFIXES)))"

definition isSensitiveFile :: "pathe \<Rightarrow> string \<Rightarrow> bool" where
  "isSensitiveFile pt path =
     (let comparableName = toLowerCase (pt_basename pt path); comparablePath = toLowerCase path in
      if comparableName \<in> set ENV_EXEMPTIONS then False
      else if comparableName \<in> set PUBLIC_KEY_BASENAMES then False
      else if comparableName \<in> set SENSITIVE_BASENAMES then True
      else if startsWith comparableName ''.env.'' then True
      else if list_ex (variant_of comparableName) SENSITIVE_BASENAME_PREFIXES then True
      else list_ex (\<lambda>suffix. endsWith comparablePath (''/'' @ suffix) \<or> str_includes comparablePath (''/'' @ suffix @ ''/''))
             SENSITIVE_PATH_SUFFIXES)"

section \<open>Containment\<close>

definition isWithinDirectory :: "pathe \<Rightarrow> string \<Rightarrow> string \<Rightarrow> path_class \<Rightarrow> bool" where
  "isWithinDirectory pt candidate base pathClass =
     (let nc = pt_normalize pt candidate; nb = pt_normalize pt base;
          comparableCandidate = (if pathClass = Win32 then toLowerCase nc else nc);
          comparableBase = (if pathClass = Win32 then toLowerCase nb else nb)
      in comparableCandidate = comparableBase \<or> startsWith comparableCandidate (dir_prefix comparableBase))"

definition isWithinWorkspace :: "pathe \<Rightarrow> string \<Rightarrow> string \<Rightarrow> string list \<Rightarrow> path_class \<Rightarrow> bool" where
  "isWithinWorkspace pt candidate workspaceDir additionalDirs pathClass =
     (isWithinDirectory pt candidate workspaceDir pathClass
      \<or> list_ex (\<lambda>dir. isWithinDirectory pt candidate dir pathClass) additionalDirs)"

section \<open>Git work trees\<close>

record git_marker =
  gm_dotGitPath :: string
  gm_controlDirPath :: string

definition isMode :: "nat \<Rightarrow> nat \<Rightarrow> bool" where
  "isMode stMode md \<longleftrightarrow> stMode AND 61440 = md"

definition S_IFDIR :: nat where "S_IFDIR = 16384"
definition S_IFREG :: nat where "S_IFREG = 32768"

text \<open>Leading white space is dropped before the first line is taken. The byte order mark is no code unit up to 255.\<close>

definition stripLeadingNoise :: "string \<Rightarrow> string" where
  "stripLeadingNoise content = dropWhile is_space content"

definition first_line :: "string \<Rightarrow> string" where
  "first_line s = (let line = takeWhile (\<lambda>c. c \<noteq> CHR 0x0A) s in
     if length line < length s \<and> line \<noteq> [] \<and> last line = CHR 0x0D then butlast line else line)"

definition parseGitDir :: "pathe \<Rightarrow> string \<Rightarrow> string \<Rightarrow> string option" where
  "parseGitDir pt content markerParent =
     (let line = trim (first_line (stripLeadingNoise content)) in
      if \<not> startsWith line ''gitdir:'' then None
      else let rawPath = trim (drop (length ''gitdir:'') line) in
        if rawPath = [] then None
        else Some (pt_normalize pt (if pt_isAbsolute pt rawPath then rawPath else pt_join pt markerParent rawPath)))"

definition probeGitMarker :: "pathe \<Rightarrow> kaos \<Rightarrow> string \<Rightarrow> string \<Rightarrow> git_marker option" where
  "probeGitMarker pt ks dotGitPath markerParent =
     (case ks_stat ks dotGitPath of
        None \<Rightarrow> None
      | Some stMode \<Rightarrow>
          if isMode stMode S_IFDIR then Some \<lparr>gm_dotGitPath = dotGitPath, gm_controlDirPath = dotGitPath\<rparr>
          else if \<not> isMode stMode S_IFREG then None
          else (case ks_readText ks dotGitPath of
              None \<Rightarrow> None
            | Some content \<Rightarrow>
                (case parseGitDir pt content markerParent of
                   None \<Rightarrow> None
                 | Some controlDirPath \<Rightarrow> Some \<lparr>gm_dotGitPath = dotGitPath, gm_controlDirPath = controlDirPath\<rparr>)))"

fun find_marker :: "pathe \<Rightarrow> kaos \<Rightarrow> nat \<Rightarrow> string \<Rightarrow> git_marker option" where
  "find_marker pt ks 0 current = None"
| "find_marker pt ks (Suc depth) current =
     (case probeGitMarker pt ks (pt_join pt current ''.git'') current of
        Some hit \<Rightarrow> Some hit
      | None \<Rightarrow>
          let parent = pt_dirname pt current in
          if parent = current then None else find_marker pt ks depth parent)"

definition findGitWorkTreeMarker :: "pathe \<Rightarrow> kaos \<Rightarrow> string \<Rightarrow> git_marker option" where
  "findGitWorkTreeMarker pt ks cwd =
     (if cwd = [] \<or> \<not> pt_isAbsolute pt cwd then None else find_marker pt ks 256 (pt_normalize pt cwd))"

section \<open>Shared prefixes\<close>

text \<open>A path is inside a directory only on a component boundary: a sibling that shares a prefix is not.\<close>

lemma sibling_outside:
  assumes "pt_normalize pt c = pt_normalize pt b @ x # r" "x \<noteq> slash" "\<not> endsWith (pt_normalize pt b) ''/''"
  shows "\<not> isWithinDirectory pt c b Posix"
  using assms by (auto simp: isWithinDirectory_def dir_prefix_def startsWith_def Let_def)

lemma within_trans:
  assumes "isWithinDirectory pt a b Posix" "isWithinDirectory pt b c Posix"
  shows "isWithinDirectory pt a c Posix"
proof -
  have shift: "startsWith x (dir_prefix z)" if h: "startsWith x (dir_prefix y)" "startsWith y (dir_prefix z)" for x y z
  proof -
    obtain r where x: "x = dir_prefix y @ r" using h(1) by (auto simp: startsWith_iff_append)
    obtain q where y: "y = dir_prefix z @ q" using h(2) by (auto simp: startsWith_iff_append)
    show ?thesis unfolding x startsWith_iff_append dir_prefix_def [of y] using y by auto
  qed
  show ?thesis using assms shift by (auto simp: isWithinDirectory_def Let_def)
qed

end
