(* ===== verification/Perm_Policies.thy ===== *)
theory Perm_Policies
  imports Perm_Rules Perm_Paths Circuit_Breaker Shell_Git
begin

text \<open>
  The permission policies of an agent, \<open>packages/agent-core/src/agent/permission/policies\<close>: one definition per policy, and
  the chain that asks them in order.

  A policy reads the agent (its fixed surroundings \<open>agent_env\<close> and its state \<open>agent_state\<close>), the resolved call (\<open>call_context\<close>) and
  what hooks, the guardian's model and the user reply while the call is decided (\<open>replies\<close>). Texts of messages are
  constructors of \<open>deny_reason\<close>; the metadata that a decision carries for telemetry are left out. The glob library picomatch is \<open>ev_glob\<close>,
  \<open>relative\<close> of the path module is \<open>ev_relative\<close>.
\<close>

section \<open>Permission managers\<close>

datatype perm_mode = ManualMode | YoloMode | AutoMode

datatype grant_surface = ToolApproval | GitMutationGate

record session_grant =
  sg_pattern :: string
  sg_toolName :: string
  sg_grantedAtTurnId :: int
  sg_surface :: grant_surface

record perm_manager =
  pm_rules :: "perm_rule list"
  pm_modeOverride :: "perm_mode option"
  pm_grants :: "(string, session_grant) js_map"

text \<open>A manager and its parents up to the root, the root last.\<close>

type_synonym manager_chain = "perm_manager list"

fun mode_of :: "manager_chain \<Rightarrow> perm_mode" where
  "mode_of [] = ManualMode"
| "mode_of (pm # parents) = (case pm_modeOverride pm of Some md \<Rightarrow> md | None \<Rightarrow> mode_of parents)"

definition effectiveRules :: "manager_chain \<Rightarrow> perm_rule list" where
  "effectiveRules ch = concat (map pm_rules ch)"

definition sessionApprovalRulePatterns :: "manager_chain \<Rightarrow> string list" where
  "sessionApprovalRulePatterns ch = concat (map (jm_keys \<circ> pm_grants) ch)"

definition session_rule :: "string \<Rightarrow> perm_rule" where
  "session_rule pattern = \<lparr>rl_decision = Allow, rl_scope = SessionRuntime, rl_pattern = pattern, rl_reason = Some ''approve for session''\<rparr>"

definition sessionApprovalRules :: "manager_chain \<Rightarrow> perm_rule list" where
  "sessionApprovalRules ch = map session_rule (sessionApprovalRulePatterns ch)"

definition sessionApprovalGrants :: "manager_chain \<Rightarrow> session_grant list" where
  "sessionApprovalGrants ch = concat (map (map snd \<circ> pm_grants) ch)"

section \<open>Surroundings, calls and replies\<close>

datatype git_setting = GitAllow | GitDeny | GitAsk

record agent_env =
  ev_isSub :: bool
  ev_isCoordinatorWorker :: bool
  ev_teammate :: "string option option"
  ev_hasMailbox :: bool
  ev_interactive :: bool
  ev_swarmActive :: bool
  ev_cwd :: string
  ev_additionalDirs :: "string list"
  ev_pathClass :: path_class
  ev_gitMutation :: "git_setting option"
  ev_guardianEnabled :: bool
  ev_brandHome :: bool
  ev_configReadable :: bool
  ev_configWritable :: bool
  ev_glob :: "string \<Rightarrow> string \<Rightarrow> bool"
  ev_relative :: "string \<Rightarrow> string \<Rightarrow> string"
  ev_pathe :: pathe
  ev_kaos :: kaos

text \<open>\<open>display\<close> of a resolved execution, as far as a policy looks at it.\<close>

record plan_review =
  pr_plan :: string
  pr_path :: "string option"
  pr_options :: "string list option"

datatype tool_display = PlanReview plan_review | GoalStart | OtherDisplay

text \<open>The arguments of a call, as far as a policy reads them: \<open>name\<close> if it is a text, whether \<open>run_in_background\<close> is true,
  \<open>action\<close> if it is a text.\<close>

record arg_view =
  av_name :: "string option"
  av_run_in_background :: bool
  av_action :: "string option"

record call_context =
  cc_toolName :: string
  cc_toolCallId :: string
  cc_toolCalls :: "string list"
  cc_turnId :: string
  cc_turnNumber :: int
  cc_args :: "arg_view option"
  cc_parsedArguments :: "arg_view option"
  cc_match :: rule_execution
  cc_accesses :: "tool_accesses option"
  cc_display :: "tool_display option"
  cc_description :: "string option"
  cc_approvalRule :: string
  cc_approvalRules :: "string list option"
  cc_gitClasses :: "git_class option list option"

record hook_result =
  hr_block :: bool
  hr_reason :: "string option"
  hr_ask :: bool
  hr_updatedInput :: "string option"

datatype review_failure = ReviewTimeout | ReviewParse | ReviewSession
datatype review_result = ReviewAllow | ReviewDeny string | ReviewFailed review_failure

datatype approval_decision = Approved | Rejected | Cancelled
datatype approval_scope = SessionScope | AlwaysScope

record approval_response =
  ar_decision :: approval_decision
  ar_scope :: "approval_scope option"
  ar_feedback :: "string option"
  ar_selectedLabel :: "string option"
  ar_mode :: "perm_mode option"

text \<open>\<open>Inl\<close> is an approval channel that throws.\<close>

record replies =
  rp_hooks :: "hook_result list"
  rp_aborted :: bool
  rp_review :: review_result
  rp_approval :: "string + approval_response"

section \<open>State\<close>

record approval_record =
  rc_turnId :: int
  rc_toolCallId :: string
  rc_toolName :: string
  rc_action :: string
  rc_sessionApprovalRule :: "string option"
  rc_sessionApprovalRules :: "string list option"
  rc_result :: approval_response

datatype perm_record =
    RecSetMode perm_mode
  | RecApproval approval_record
  | RecAssessment string review_result
  | RecReviewFailed string review_failure bool
  | RecBreakerTripped nat nat
  | RecPlanExit

record agent_state =
  as_managers :: manager_chain
  as_planActive :: bool
  as_planFile :: "string option"
  as_breaker :: breaker
  as_lastTurnId :: "string option"
  as_userConfig :: "perm_rule list"
  as_records :: "perm_record list"

definition perm_mode_of :: "agent_state \<Rightarrow> perm_mode" where
  "perm_mode_of st = mode_of (as_managers st)"

section \<open>Resolutions\<close>

datatype deny_reason =
    HookBlocked "string option"
  | SwarmNotAlone nat nat
  | CoordinatorSpawn
  | NestedTeammate
  | BackgroundAgent
  | TeammateWorktree
  | QuestionInAuto
  | PlanModeWrite "string option"
  | PlanModeTaskStop
  | PlanModeCron string
  | DeniedByRule "string option" bool
  | GitMutationDenied git_class
  | GitMutationHeadless git_class
  | ReviewSuspended
  | GuardianRejected string
  | ReviewFailedClosed review_failure

text \<open>What becomes of the user's answer: nothing special, the rewrite of a hook, the review of a plan, the start of a goal.\<close>

datatype resolver = NoResolver | HookRewrite "string option" | PlanReviewed plan_review | GoalStarted

datatype resolution =
    Approve
  | DenyCall deny_reason
  | AskUser "string option" resolver
  | UpdatedArgs string

datatype policy_result = Throws | Undecided | Decided resolution

section \<open>Hard denials\<close>

definition preToolCallHook :: "replies \<Rightarrow> policy_result" where
  "preToolCallHook rp =
     (if rp_aborted rp then Throws
      else case find hr_block (rp_hooks rp) of
          Some block \<Rightarrow> Decided (DenyCall (HookBlocked
            (case hr_reason block of None \<Rightarrow> None | Some reason \<Rightarrow> if trim reason = [] then None else Some (trim reason))))
        | None \<Rightarrow>
            let updatedInput = (case find (\<lambda>r. hr_updatedInput r \<noteq> None) (rp_hooks rp) of None \<Rightarrow> None | Some r \<Rightarrow> hr_updatedInput r) in
            if list_ex hr_ask (rp_hooks rp) then Decided (AskUser None (HookRewrite updatedInput))
            else case updatedInput of Some input \<Rightarrow> Decided (UpdatedArgs input) | None \<Rightarrow> Undecided)"

definition agentSwarmExclusiveDeny :: "call_context \<Rightarrow> resolution option" where
  "agentSwarmExclusiveDeny ctx =
     (let agentSwarmCount = length (filter (\<lambda>name. name = ''AgentSwarm'') (cc_toolCalls ctx)) in
      if agentSwarmCount = 0 then None
      else if agentSwarmCount = 1 \<and> length (cc_toolCalls ctx) = 1 then None
      else Some (DenyCall (SwarmNotAlone agentSwarmCount (length (cc_toolCalls ctx)))))"

definition coordinatorWorkerSpawnDeny :: "agent_env \<Rightarrow> call_context \<Rightarrow> resolution option" where
  "coordinatorWorkerSpawnDeny env ctx =
     (if \<not> ev_isCoordinatorWorker env then None
      else if cc_toolName ctx \<noteq> ''Agent'' \<and> cc_toolName ctx \<noteq> ''AgentSwarm'' then None
      else Some (DenyCall CoordinatorSpawn))"

definition recordArgs :: "call_context \<Rightarrow> arg_view option" where
  "recordArgs ctx = (case cc_args ctx of Some args \<Rightarrow> Some args | None \<Rightarrow> cc_parsedArguments ctx)"

definition teammateSpawnDeny :: "agent_env \<Rightarrow> call_context \<Rightarrow> resolution option" where
  "teammateSpawnDeny env ctx =
     (if ev_teammate env = None then None
      else if cc_toolName ctx \<noteq> ''Agent'' then None
      else case recordArgs ctx of
          None \<Rightarrow> None
        | Some args \<Rightarrow>
            if (case av_name args of None \<Rightarrow> False | Some name \<Rightarrow> trim name \<noteq> []) then Some (DenyCall NestedTeammate)
            else if av_run_in_background args then Some (DenyCall BackgroundAgent)
            else None)"

definition worktreeTeammateDeny :: "agent_env \<Rightarrow> call_context \<Rightarrow> resolution option" where
  "worktreeTeammateDeny env ctx =
     (if ev_teammate env = None then None
      else if cc_toolName ctx \<noteq> ''EnterWorktree'' \<and> cc_toolName ctx \<noteq> ''ExitWorktree'' then None
      else Some (DenyCall TeammateWorktree))"

definition autoModeAskUserQuestionDeny :: "call_context \<Rightarrow> agent_state \<Rightarrow> resolution option" where
  "autoModeAskUserQuestionDeny ctx st =
     (if perm_mode_of st \<noteq> AutoMode then None
      else if cc_toolName ctx \<noteq> ''AskUserQuestion'' then None
      else Some (DenyCall QuestionInAuto))"

definition fileAccesses :: "call_context \<Rightarrow> tool_accesses" where
  "fileAccesses ctx = (case cc_accesses ctx of None \<Rightarrow> [] | Some accesses \<Rightarrow> filter (\<lambda>a. a \<noteq> AllAccess) accesses)"

definition writeFileAccesses :: "call_context \<Rightarrow> tool_accesses" where
  "writeFileAccesses ctx = filter
     (\<lambda>a. case a of FileAccess op _ _ \<Rightarrow> op = WriteOp \<or> op = ReadWriteOp | AllAccess \<Rightarrow> False) (fileAccesses ctx)"

fun access_path :: "tool_resource_access \<Rightarrow> string" where
  "access_path (FileAccess _ path _) = path"
| "access_path AllAccess = []"

definition planModeGuardDeny :: "call_context \<Rightarrow> agent_state \<Rightarrow> resolution option" where
  "planModeGuardDeny ctx st =
     (if \<not> as_planActive st then None
      else if cc_toolName ctx = ''Write'' \<or> cc_toolName ctx = ''Edit'' then
        (case as_planFile st of
           None \<Rightarrow> Some (DenyCall (PlanModeWrite None))
         | Some planFilePath \<Rightarrow>
             if writeFileAccesses ctx \<noteq> [] \<and> list_all (\<lambda>a. access_path a = planFilePath) (writeFileAccesses ctx) then None
             else Some (DenyCall (PlanModeWrite (Some planFilePath))))
      else if cc_toolName ctx = ''TaskStop'' then Some (DenyCall PlanModeTaskStop)
      else if cc_toolName ctx = ''CronCreate'' \<or> cc_toolName ctx = ''CronDelete'' then Some (DenyCall (PlanModeCron (cc_toolName ctx)))
      else None)"

section \<open>Rules\<close>

definition USER_CONFIGURED_SCOPES :: "rule_scope list" where
  "USER_CONFIGURED_SCOPES = [TurnOverride, ProjectScope, UserScope]"

definition userConfiguredRules :: "agent_state \<Rightarrow> rule_decision \<Rightarrow> perm_rule list" where
  "userConfiguredRules st decision =
     filter (\<lambda>rule. rl_scope rule \<in> set USER_CONFIGURED_SCOPES \<and> rl_decision rule = decision) (effectiveRules (as_managers st))"

fun first_match_in :: "(string \<Rightarrow> string \<Rightarrow> bool) \<Rightarrow> perm_rule list \<Rightarrow> string \<Rightarrow> rule_execution \<Rightarrow> rule_match option" where
  "first_match_in glob [] toolName ex = None"
| "first_match_in glob (rule # rules) toolName ex =
     (case matchPermissionRule glob rule toolName ex of Some m \<Rightarrow> Some m | None \<Rightarrow> first_match_in glob rules toolName ex)"

definition firstMatchingRule :: "agent_env \<Rightarrow> call_context \<Rightarrow> agent_state \<Rightarrow> rule_decision \<Rightarrow> rule_match option" where
  "firstMatchingRule env ctx st decision = first_match_in (ev_glob env) (userConfiguredRules st decision) (cc_toolName ctx) (cc_match ctx)"

definition userConfiguredDeny :: "agent_env \<Rightarrow> call_context \<Rightarrow> agent_state \<Rightarrow> resolution option" where
  "userConfiguredDeny env ctx st =
     (case firstMatchingRule env ctx st Deny of
        None \<Rightarrow> None
      | Some m \<Rightarrow> Some (DenyCall (DeniedByRule (rl_reason (rm_rule m)) (ev_isSub env))))"

definition userConfiguredAsk :: "agent_env \<Rightarrow> call_context \<Rightarrow> agent_state \<Rightarrow> resolution option" where
  "userConfiguredAsk env ctx st =
     (case firstMatchingRule env ctx st Ask of None \<Rightarrow> None | Some m \<Rightarrow> Some (AskUser None NoResolver))"

text \<open>The rules cover every segment of the call.\<close>

definition fully_covered :: "agent_env \<Rightarrow> call_context \<Rightarrow> perm_rule list \<Rightarrow> bool" where
  "fully_covered env ctx rules =
     (case collectCoveredSubjects (ev_glob env) rules (cc_toolName ctx) (cc_match ctx) of
        None \<Rightarrow> False | Some (fullyCovered, _) \<Rightarrow> fullyCovered)"

definition userConfiguredAllow :: "agent_env \<Rightarrow> call_context \<Rightarrow> agent_state \<Rightarrow> resolution option" where
  "userConfiguredAllow env ctx st =
     (if ex_ruleMatch (cc_match ctx) \<noteq> None then
        (case collectCoveredSubjects (ev_glob env) (sessionApprovalRules (as_managers st) @ userConfiguredRules st Allow)
            (cc_toolName ctx) (cc_match ctx) of
           Some (True, Some m) \<Rightarrow> Some Approve
         | _ \<Rightarrow> None)
      else (case firstMatchingRule env ctx st Allow of None \<Rightarrow> None | Some m \<Rightarrow> Some Approve))"

definition sessionApprovalHistory :: "agent_env \<Rightarrow> call_context \<Rightarrow> agent_state \<Rightarrow> resolution option" where
  "sessionApprovalHistory env ctx st =
     (if ex_ruleMatch (cc_match ctx) \<noteq> None
      then (if fully_covered env ctx (sessionApprovalRules (as_managers st)) then Some Approve else None)
      else (case first_match_in (ev_glob env) (sessionApprovalRules (as_managers st)) (cc_toolName ctx) (cc_match ctx) of
              None \<Rightarrow> None | Some m \<Rightarrow> Some Approve))"

section \<open>The git mutation gate\<close>

definition MUTATION_CLASS_RANK :: "git_class \<Rightarrow> nat" where
  "MUTATION_CLASS_RANK c = (case c of ConfigInjection \<Rightarrow> 0 | SharedRemote \<Rightarrow> 1 | HistoryWrite \<Rightarrow> 2 | UnknownGit \<Rightarrow> 3 | LocalWrite \<Rightarrow> 4
     | ReadOnly \<Rightarrow> 5)"

fun representative_from :: "git_class option \<Rightarrow> git_class option list \<Rightarrow> git_class option" where
  "representative_from best [] = best"
| "representative_from best (gitClass # rest) =
     (case gitClass of
        None \<Rightarrow> representative_from best rest
      | Some c \<Rightarrow>
          if c = ReadOnly then representative_from best rest
          else (case best of
              None \<Rightarrow> representative_from (Some c) rest
            | Some b \<Rightarrow> representative_from (if MUTATION_CLASS_RANK c < MUTATION_CLASS_RANK b then Some c else Some b) rest))"

definition representativeMutationClass :: "git_class option list option \<Rightarrow> git_class option" where
  "representativeMutationClass gitClasses = (case gitClasses of None \<Rightarrow> None | Some classes \<Rightarrow> representative_from None classes)"

definition GIT_MUTATION_GATE_APPROVAL_ACTION_PREFIX :: string where
  "GIT_MUTATION_GATE_APPROVAL_ACTION_PREFIX = ''Git mutation gate:''"

text \<open>The dashes of these texts lie outside the code units up to 255. There is none for a reading command.\<close>

definition MUTATION_CLASS_DESCRIPTIONS :: "git_class \<Rightarrow> string" where
  "MUTATION_CLASS_DESCRIPTIONS c = (case c of
      ConfigInjection \<Rightarrow> ''injects inline git config (-c / --exec-path / --config-env), which can run arbitrary commands through git''
    | SharedRemote \<Rightarrow> ''sends shared state to a remote - pushed refs cannot be taken back''
    | HistoryWrite \<Rightarrow> ''rewrites git history''
    | UnknownGit \<Rightarrow> ''runs an unknown git subcommand (possibly an alias) - treated as a mutation''
    | LocalWrite \<Rightarrow> ''modifies local repository state''
    | ReadOnly \<Rightarrow> '''')"

definition coveredByConfiguredAllow :: "agent_env \<Rightarrow> call_context \<Rightarrow> agent_state \<Rightarrow> bool" where
  "coveredByConfiguredAllow env ctx st =
     (let rules = sessionApprovalRules (as_managers st) @ userConfiguredRules st Allow in
      rules \<noteq> [] \<and> fully_covered env ctx rules)"

definition gitMutationGate :: "agent_env \<Rightarrow> call_context \<Rightarrow> agent_state \<Rightarrow> resolution option" where
  "gitMutationGate env ctx st =
     (if perm_mode_of st = YoloMode then None
      else let setting = (case ev_gitMutation env of None \<Rightarrow> GitAsk | Some s \<Rightarrow> s) in
        if setting = GitAllow then None
        else case representativeMutationClass (cc_gitClasses ctx) of
            None \<Rightarrow> None
          | Some gitClass \<Rightarrow>
              if coveredByConfiguredAllow env ctx st then Some Approve
              else if setting = GitDeny then Some (DenyCall (GitMutationDenied gitClass))
              else if \<not> ev_interactive env then Some (DenyCall (GitMutationHeadless gitClass))
              else Some (AskUser (Some (GIT_MUTATION_GATE_APPROVAL_ACTION_PREFIX @ '' this command '' @
                MUTATION_CLASS_DESCRIPTIONS gitClass @ ''. Review the command before approving.'')) NoResolver))"

section \<open>The guardian\<close>

definition DEFAULT_APPROVE_TOOLS :: "string list" where
  "DEFAULT_APPROVE_TOOLS =
     [''Read'', ''Grep'', ''Glob'', ''ReadMediaFile'', ''SetTodoList'', ''TodoList'', ''TaskList'', ''TaskOutput'', ''CronList'', ''WebSearch'',
      ''FetchURL'', ''Agent'', ''AskUserQuestion'', ''Skill'', ''GetGoal'', ''SetGoalBudget'', ''UpdateGoal'', ''select_tools'']"

definition SESSION_TRANSPORT_TOOLS :: "string list" where
  "SESSION_TRANSPORT_TOOLS = [''WriteStdin'']"

definition log_record :: "perm_record \<Rightarrow> agent_state \<Rightarrow> agent_state" where
  "log_record r st = st\<lparr>as_records := as_records st @ [r]\<rparr>"

definition pruneBreakerFor :: "string \<Rightarrow> agent_state \<Rightarrow> agent_state" where
  "pruneBreakerFor turnId st =
     (if as_lastTurnId st = Some turnId then st
      else st\<lparr>as_lastTurnId := Some turnId, as_breaker := pruneExcept (as_breaker st) turnId\<rparr>)"

definition applyAssessment :: "call_context \<Rightarrow> string option \<Rightarrow> agent_state \<Rightarrow> policy_result \<times> agent_state" where
  "applyAssessment ctx denial st =
     (case denial of
        None \<Rightarrow>
          let st1 = log_record (RecAssessment (cc_toolCallId ctx) ReviewAllow) st in
          (Decided Approve, st1\<lparr>as_breaker := recordNonDenial (as_breaker st1) (cc_turnId ctx)\<rparr>)
      | Some rationale \<Rightarrow>
          let st1 = log_record (RecAssessment (cc_toolCallId ctx) (ReviewDeny rationale)) st;
              (trip, br) = recordDenial (as_breaker st1) (cc_turnId ctx);
              st2 = st1\<lparr>as_breaker := br\<rparr>
          in (Decided (DenyCall (GuardianRejected rationale)),
              if bt_tripped trip then log_record (RecBreakerTripped (bt_consecutiveDenials trip) (bt_windowDenials trip)) st2 else st2))"

definition applyFailure :: "agent_env \<Rightarrow> call_context \<Rightarrow> review_failure \<Rightarrow> agent_state \<Rightarrow> policy_result \<times> agent_state" where
  "applyFailure env ctx failureKind st =
     (let st1 = st\<lparr>as_breaker := recordNonDenial (as_breaker st) (cc_turnId ctx)\<rparr>;
          st2 = log_record (RecReviewFailed (cc_toolCallId ctx) failureKind (ev_interactive env)) st1
      in (Decided (if ev_interactive env then AskUser None NoResolver else DenyCall (ReviewFailedClosed failureKind)), st2))"

definition guardianReview :: "agent_env \<Rightarrow> call_context \<Rightarrow> replies \<Rightarrow> agent_state \<Rightarrow> policy_result \<times> agent_state" where
  "guardianReview env ctx rp st =
     (if \<not> ev_guardianEnabled env \<or> perm_mode_of st \<noteq> AutoMode then (Undecided, st)
      else if cc_toolName ctx \<in> set DEFAULT_APPROVE_TOOLS then (Undecided, st)
      else if cc_toolName ctx \<in> set SESSION_TRANSPORT_TOOLS then (Undecided, st)
      else let st1 = pruneBreakerFor (cc_turnId ctx) st in
        if tripped (as_breaker st1) (cc_turnId ctx)
        then (Decided (if ev_interactive env then AskUser None NoResolver else DenyCall ReviewSuspended), st1)
        else (case rp_review rp of
            ReviewAllow \<Rightarrow> applyAssessment ctx None st1
          | ReviewDeny rationale \<Rightarrow> applyAssessment ctx (Some rationale) st1
          | ReviewFailed failureKind \<Rightarrow> applyFailure env ctx failureKind st1))"

section \<open>Reviews, defaults and modes\<close>

definition autoModeApprove :: "agent_state \<Rightarrow> resolution option" where
  "autoModeApprove st = (if perm_mode_of st \<noteq> AutoMode then None else Some Approve)"

definition yoloModeApprove :: "agent_state \<Rightarrow> resolution option" where
  "yoloModeApprove st = (if perm_mode_of st \<noteq> YoloMode then None else Some Approve)"

definition exitPlanModeReviewAsk :: "call_context \<Rightarrow> agent_state \<Rightarrow> resolution option" where
  "exitPlanModeReviewAsk ctx st =
     (if cc_toolName ctx \<noteq> ''ExitPlanMode'' then None
      else if perm_mode_of st = AutoMode then None
      else if \<not> as_planActive st then None
      else case cc_display ctx of
          Some (PlanReview review) \<Rightarrow> if trim (pr_plan review) = [] then None else Some (AskUser None (PlanReviewed review))
        | _ \<Rightarrow> None)"

definition goalStartReviewAsk :: "call_context \<Rightarrow> agent_state \<Rightarrow> resolution option" where
  "goalStartReviewAsk ctx st =
     (if cc_toolName ctx \<noteq> ''CreateGoal'' then None
      else if perm_mode_of st = AutoMode then None
      else if cc_display ctx \<noteq> Some GoalStart then None
      else Some (AskUser None GoalStarted))"

definition planModeToolApprove :: "call_context \<Rightarrow> agent_state \<Rightarrow> resolution option" where
  "planModeToolApprove ctx st =
     (if cc_toolName ctx = ''EnterPlanMode'' then Some Approve
      else if (cc_toolName ctx = ''Write'' \<or> cc_toolName ctx = ''Edit'') \<and> as_planActive st \<and>
        (case as_planFile st of None \<Rightarrow> False
         | Some planFilePath \<Rightarrow> list_all (\<lambda>a. access_path a = planFilePath) (writeFileAccesses ctx)) then Some Approve
      else if cc_toolName ctx = ''ExitPlanMode'' then
        (if \<not> as_planActive st then Some Approve
         else case cc_display ctx of
             Some (PlanReview review) \<Rightarrow> if trim (pr_plan review) \<noteq> [] then None else Some Approve
           | _ \<Rightarrow> Some Approve)
      else None)"

definition worktreeToolApprove :: "call_context \<Rightarrow> resolution option" where
  "worktreeToolApprove ctx =
     (if cc_toolName ctx = ''EnterWorktree'' then Some Approve
      else if cc_toolName ctx = ''ExitWorktree'' then
        (if (case recordArgs ctx of None \<Rightarrow> None | Some args \<Rightarrow> av_action args) \<noteq> Some ''remove'' then Some Approve else None)
      else None)"

definition sensitiveFileAccessAsk :: "agent_env \<Rightarrow> call_context \<Rightarrow> resolution option" where
  "sensitiveFileAccessAsk env ctx =
     (if list_ex (\<lambda>a. isSensitiveFile (ev_pathe env) (access_path a)) (fileAccesses ctx) then Some (AskUser None NoResolver) else None)"

text \<open>\<open>split(/[\\/]+/)\<close> without its empty parts.\<close>

fun path_parts :: "string \<Rightarrow> string \<Rightarrow> string list" where
  "path_parts acc [] = (if acc = [] then [] else [acc])"
| "path_parts acc (c # s) =
     (if c = slash \<or> c = backslash_char then (if acc = [] then path_parts [] s else acc # path_parts [] s)
      else path_parts (acc @ [c]) s)"

definition hasGitPathComponent :: "agent_env \<Rightarrow> string \<Rightarrow> bool" where
  "hasGitPathComponent env targetPath \<longleftrightarrow>
     list_ex (\<lambda>part. toLowerCase part = ''.git'') (path_parts [] (ev_relative env (ev_cwd env) targetPath))"

definition isGitControlPath :: "agent_env \<Rightarrow> string \<Rightarrow> git_marker \<Rightarrow> bool" where
  "isGitControlPath env targetPath marker \<longleftrightarrow>
     isWithinDirectory (ev_pathe env) targetPath (gm_dotGitPath marker) (ev_pathClass env)
     \<or> isWithinDirectory (ev_pathe env) targetPath (gm_controlDirPath marker) (ev_pathClass env)"

definition gitControlPathAccessAsk :: "agent_env \<Rightarrow> call_context \<Rightarrow> resolution option" where
  "gitControlPathAccessAsk env ctx =
     (if ev_cwd env = [] then None
      else if fileAccesses ctx = [] then None
      else if list_ex (\<lambda>a. hasGitPathComponent env (access_path a)) (fileAccesses ctx) then Some (AskUser None NoResolver)
      else case findGitWorkTreeMarker (ev_pathe env) (ev_kaos env) (ev_cwd env) of
          None \<Rightarrow> None
        | Some marker \<Rightarrow>
            if list_ex (\<lambda>a. isGitControlPath env (access_path a) marker) (fileAccesses ctx) then Some (AskUser None NoResolver) else None)"

definition swarmModeAgentSwarmApprove :: "agent_env \<Rightarrow> call_context \<Rightarrow> resolution option" where
  "swarmModeAgentSwarmApprove env ctx =
     (if cc_toolName ctx \<noteq> ''AgentSwarm'' then None else if \<not> ev_swarmActive env then None else Some Approve)"

definition defaultToolApprove :: "call_context \<Rightarrow> resolution option" where
  "defaultToolApprove ctx =
     (if cc_toolName ctx \<notin> set DEFAULT_APPROVE_TOOLS \<and> cc_toolName ctx \<notin> set SESSION_TRANSPORT_TOOLS then None else Some Approve)"

definition gitCwdWriteApprove :: "agent_env \<Rightarrow> call_context \<Rightarrow> resolution option" where
  "gitCwdWriteApprove env ctx =
     (if cc_toolName ctx \<noteq> ''Write'' \<and> cc_toolName ctx \<noteq> ''Edit'' then None
      else if ev_pathClass env \<noteq> Posix then None
      else if ev_cwd env = [] then None
      else if writeFileAccesses ctx = [] then None
      else if \<not> list_all (\<lambda>a. isWithinWorkspace (ev_pathe env) (access_path a) (ev_cwd env) (ev_additionalDirs env) Posix) (writeFileAccesses ctx)
      then None
      else case findGitWorkTreeMarker (ev_pathe env) (ev_kaos env) (ev_cwd env) of None \<Rightarrow> None | Some marker \<Rightarrow> Some Approve)"

definition fallbackAsk :: "resolution option" where
  "fallbackAsk = Some (AskUser None NoResolver)"

section \<open>The chain\<close>

type_synonym policy = "agent_env \<Rightarrow> call_context \<Rightarrow> replies \<Rightarrow> agent_state \<Rightarrow> policy_result \<times> agent_state"

definition pure_policy :: "(agent_env \<Rightarrow> call_context \<Rightarrow> agent_state \<Rightarrow> resolution option) \<Rightarrow> policy" where
  "pure_policy f env ctx rp st = ((case f env ctx st of None \<Rightarrow> Undecided | Some r \<Rightarrow> Decided r), st)"

definition createPermissionDecisionPolicies :: "(string \<times> policy) list" where
  "createPermissionDecisionPolicies =
     [(''pre-tool-call-hook'', \<lambda>env ctx rp st. (preToolCallHook rp, st)),
      (''agent-swarm-exclusive-deny'', pure_policy (\<lambda>env ctx st. agentSwarmExclusiveDeny ctx)),
      (''coordinator-worker-spawn-deny'', pure_policy (\<lambda>env ctx st. coordinatorWorkerSpawnDeny env ctx)),
      (''teammate-spawn-deny'', pure_policy (\<lambda>env ctx st. teammateSpawnDeny env ctx)),
      (''worktree-teammate-deny'', pure_policy (\<lambda>env ctx st. worktreeTeammateDeny env ctx)),
      (''auto-mode-ask-user-question-deny'', pure_policy (\<lambda>env ctx st. autoModeAskUserQuestionDeny ctx st)),
      (''plan-mode-guard-deny'', pure_policy (\<lambda>env ctx st. planModeGuardDeny ctx st)),
      (''user-configured-deny'', pure_policy userConfiguredDeny),
      (''session-approval-history'', pure_policy sessionApprovalHistory),
      (''git-mutation-gate'', pure_policy gitMutationGate),
      (''guardian-review'', guardianReview),
      (''auto-mode-approve'', pure_policy (\<lambda>env ctx st. autoModeApprove st)),
      (''user-configured-ask'', pure_policy userConfiguredAsk),
      (''user-configured-allow'', pure_policy userConfiguredAllow),
      (''exit-plan-mode-review-ask'', pure_policy (\<lambda>env ctx st. exitPlanModeReviewAsk ctx st)),
      (''goal-start-review-ask'', pure_policy (\<lambda>env ctx st. goalStartReviewAsk ctx st)),
      (''plan-mode-tool-approve'', pure_policy (\<lambda>env ctx st. planModeToolApprove ctx st)),
      (''worktree-tool-approve'', pure_policy (\<lambda>env ctx st. worktreeToolApprove ctx)),
      (''sensitive-file-access-ask'', pure_policy (\<lambda>env ctx st. sensitiveFileAccessAsk env ctx)),
      (''git-control-path-access-ask'', pure_policy (\<lambda>env ctx st. gitControlPathAccessAsk env ctx)),
      (''yolo-mode-approve'', pure_policy (\<lambda>env ctx st. yoloModeApprove st)),
      (''swarm-mode-agent-swarm-approve'', pure_policy (\<lambda>env ctx st. swarmModeAgentSwarmApprove env ctx)),
      (''default-tool-approve'', pure_policy (\<lambda>env ctx st. defaultToolApprove ctx)),
      (''git-cwd-write-approve'', pure_policy (\<lambda>env ctx st. gitCwdWriteApprove env ctx)),
      (''fallback-ask'', pure_policy (\<lambda>env ctx st. fallbackAsk))]"

datatype evaluation = EvalThrows | NoDecision | DecidedBy string resolution

fun evaluate_in_order :: "(string \<times> policy) list \<Rightarrow> agent_env \<Rightarrow> call_context \<Rightarrow> replies \<Rightarrow> agent_state \<Rightarrow> evaluation \<times> agent_state" where
  "evaluate_in_order [] env ctx rp st = (NoDecision, st)"
| "evaluate_in_order ((name, p) # ps) env ctx rp st =
     (case p env ctx rp st of
        (Throws, st') \<Rightarrow> (EvalThrows, st')
      | (Decided r, st') \<Rightarrow> (DecidedBy name r, st')
      | (Undecided, st') \<Rightarrow> evaluate_in_order ps env ctx rp st')"

definition evaluatePolicies :: "agent_env \<Rightarrow> call_context \<Rightarrow> replies \<Rightarrow> agent_state \<Rightarrow> evaluation \<times> agent_state" where
  "evaluatePolicies = evaluate_in_order createPermissionDecisionPolicies"

end
