(* ===== verification/Perm_Manager.thy ===== *)
theory Perm_Manager
  imports Perm_Policies
begin

text \<open>
  The permission manager, \<open>packages/agent-core/src/agent/permission/index.ts\<close>: what a tool call is answered, the approval
  request with its session and permanent grants, the escalation out of the sandbox, and what of it is logged and replayed.
  \<open>persist-always-rules.ts\<close> writes permanent grants to the user's configuration. The last section is the end of the road in
  \<open>loop/tool-call.ts\<close>: what is done with the answer.

  Hooks that are only notified, and events to the user interface, are left out.
\<close>

section \<open>Modes and grants\<close>

definition map_self :: "(perm_manager \<Rightarrow> perm_manager) \<Rightarrow> agent_state \<Rightarrow> agent_state" where
  "map_self f st = (case as_managers st of [] \<Rightarrow> st | pm # parents \<Rightarrow> st\<lparr>as_managers := f pm # parents\<rparr>)"

definition setMode :: "perm_mode \<Rightarrow> agent_state \<Rightarrow> agent_state" where
  "setMode md st = map_self (pm_modeOverride_update (\<lambda>_. Some md)) (log_record (RecSetMode md) st)"

definition deriveSessionGrantSurface :: "approval_record \<Rightarrow> grant_surface" where
  "deriveSessionGrantSurface rc =
     (if startsWith (rc_action rc) GIT_MUTATION_GATE_APPROVAL_ACTION_PREFIX then GitMutationGate else ToolApproval)"

definition granted_patterns :: "approval_record \<Rightarrow> string list option" where
  "granted_patterns rc =
     (case rc_sessionApprovalRules rc of
        Some patterns \<Rightarrow> Some patterns
      | None \<Rightarrow> (case rc_sessionApprovalRule rc of Some pattern \<Rightarrow> Some [pattern] | None \<Rightarrow> None))"

definition add_grant :: "approval_record \<Rightarrow> grant_surface \<Rightarrow> perm_manager \<Rightarrow> string \<Rightarrow> perm_manager" where
  "add_grant rc surface pm pattern = pm\<lparr>pm_grants := jm_set (pm_grants pm) pattern
     \<lparr>sg_pattern = pattern, sg_toolName = rc_toolName rc, sg_grantedAtTurnId = rc_turnId rc, sg_surface = surface\<rparr>\<rparr>"

definition recordApprovalResult :: "approval_record \<Rightarrow> grant_surface option \<Rightarrow> agent_state \<Rightarrow> agent_state" where
  "recordApprovalResult rc surfaceOption st =
     (let st1 = log_record (RecApproval rc) st in
      if ar_decision (rc_result rc) \<noteq> Approved \<or> ar_scope (rc_result rc) \<noteq> Some SessionScope then st1
      else case granted_patterns rc of
          None \<Rightarrow> st1
        | Some patterns \<Rightarrow>
            let surface = (case surfaceOption of Some s \<Rightarrow> s | None \<Rightarrow> deriveSessionGrantSurface rc)
            in map_self (\<lambda>pm. foldl (add_grant rc surface) pm patterns) st1)"

section \<open>Permanent grants\<close>

definition ALWAYS_APPROVAL_RULE_REASON :: string where "ALWAYS_APPROVAL_RULE_REASON = ''approve always''"

definition always_rule :: "string \<Rightarrow> perm_rule" where
  "always_rule pattern = \<lparr>rl_decision = Allow, rl_scope = UserScope, rl_pattern = pattern, rl_reason = Some ALWAYS_APPROVAL_RULE_REASON\<rparr>"

text \<open>The loop of both writers: a pattern that an allow rule has already is skipped.\<close>

definition append_allow_rules :: "perm_rule list \<Rightarrow> string list \<Rightarrow> perm_rule list" where
  "append_allow_rules existing patterns =
     foldl (\<lambda>rules pattern. if list_ex (\<lambda>rule. rl_decision rule = Allow \<and> rl_pattern rule = pattern) rules then rules
       else rules @ [always_rule pattern]) existing patterns"

text \<open>\<open>None\<close>: reading or writing the file throws. The file is written only if there is a rule to add.\<close>

definition persistAllowRulesToUserConfig :: "agent_env \<Rightarrow> perm_rule list \<Rightarrow> string list \<Rightarrow> perm_rule list option" where
  "persistAllowRulesToUserConfig env config patterns =
     (if patterns = [] then Some config
      else if \<not> ev_configReadable env then None
      else let rules = append_allow_rules config patterns in
        if rules = config then Some config
        else if ev_configWritable env then Some rules else None)"

definition adoptAlwaysApprovalRules :: "string list \<Rightarrow> manager_chain \<Rightarrow> manager_chain" where
  "adoptAlwaysApprovalRules patterns ch =
     (if ch = [] then ch else butlast ch @ [(last ch)\<lparr>pm_rules := append_allow_rules (pm_rules (last ch)) patterns\<rparr>])"

definition tryPersistAlwaysApproval :: "agent_env \<Rightarrow> string list \<Rightarrow> agent_state \<Rightarrow> bool \<times> agent_state" where
  "tryPersistAlwaysApproval env patterns st =
     (if \<not> ev_brandHome env then (False, st)
      else case persistAllowRulesToUserConfig env (as_userConfig st) patterns of
          None \<Rightarrow> (False, st)
        | Some rules \<Rightarrow> (True, st\<lparr>as_userConfig := rules, as_managers := adoptAlwaysApprovalRules patterns (as_managers st)\<rparr>))"

section \<open>Answers to a call\<close>

datatype plan_outcome = PlanApproved "string option" "string option" | PlanDismissed | PlanRejectedExit | PlanRejected "string option" | PlanReviseRequested

datatype block_reason = BlockedBy deny_reason | ApprovalRefused approval_decision "string option" bool

datatype prepare_result =
    RunCall
  | BlockCall block_reason
  | RunUpdated string
  | SyntheticPlan plan_outcome
  | PrepareThrows

definition planMode_exit :: "agent_state \<Rightarrow> agent_state" where
  "planMode_exit st = (log_record RecPlanExit st)\<lparr>as_planActive := False, as_planFile := None\<rparr>"

definition selectedExitPlanModeOption :: "string list option \<Rightarrow> string option \<Rightarrow> string option" where
  "selectedExitPlanModeOption options label =
     (case options of None \<Rightarrow> None | Some ls \<Rightarrow> (case label of None \<Rightarrow> None | Some l \<Rightarrow> find (\<lambda>x. x = l) ls))"

definition rejectedExitPlanModeApprovalResult :: "approval_response \<Rightarrow> agent_state \<Rightarrow> plan_outcome \<times> agent_state" where
  "rejectedExitPlanModeApprovalResult response st =
     (if ar_decision response = Cancelled then (PlanDismissed, st)
      else if ar_selectedLabel response = Some ''Reject and Exit'' then (PlanRejectedExit, planMode_exit st)
      else let feedback = (case ar_feedback response of None \<Rightarrow> [] | Some f \<Rightarrow> f) in
        if ar_selectedLabel response = Some ''Revise'' \<or> feedback \<noteq> []
        then (if feedback \<noteq> [] then PlanRejected (Some feedback) else PlanReviseRequested, st)
        else (PlanRejected None, st))"

definition exitPlanModeApprovalResult :: "plan_review \<Rightarrow> approval_response \<Rightarrow> agent_state \<Rightarrow> plan_outcome \<times> agent_state" where
  "exitPlanModeApprovalResult review response st =
     (if ar_decision response \<noteq> Approved then rejectedExitPlanModeApprovalResult response st
      else let selected = selectedExitPlanModeOption (pr_options review) (ar_selectedLabel response);
               st1 = planMode_exit st;
               st2 = (case ar_mode response of
                   Some md \<Rightarrow> if md \<noteq> perm_mode_of st1 then setMode md st1 else st1
                 | None \<Rightarrow> st1);
               feedback = (case ar_feedback response of None \<Rightarrow> [] | Some f \<Rightarrow> trim f)
           in (PlanApproved selected (if feedback = [] then None else Some feedback), st2))"

definition toPermissionMode :: "string option \<Rightarrow> perm_mode option" where
  "toPermissionMode label =
     (if label = Some ''auto'' then Some AutoMode else if label = Some ''yolo'' then Some YoloMode
      else if label = Some ''manual'' then Some ManualMode else None)"

definition resolveGoalStart :: "approval_response \<Rightarrow> agent_state \<Rightarrow> agent_state" where
  "resolveGoalStart response st =
     (if ar_decision response \<noteq> Approved then st
      else case toPermissionMode (ar_selectedLabel response) of
          Some md \<Rightarrow> if md \<noteq> perm_mode_of st then setMode md st else st
        | None \<Rightarrow> st)"

text \<open>\<open>resolveApproval\<close> of the policy that asked: its own answer, if it has one.\<close>

definition resolveApproval :: "resolver \<Rightarrow> approval_response \<Rightarrow> agent_state \<Rightarrow> prepare_result option \<times> agent_state" where
  "resolveApproval resolve response st =
     (case resolve of
        NoResolver \<Rightarrow> (None, st)
      | HookRewrite updatedInput \<Rightarrow>
          ((case updatedInput of Some input \<Rightarrow> if ar_decision response = Approved then Some (RunUpdated input) else None | None \<Rightarrow> None), st)
      | PlanReviewed review \<Rightarrow>
          (case exitPlanModeApprovalResult review response st of (outcome, st') \<Rightarrow> (Some (SyntheticPlan outcome), st'))
      | GoalStarted \<Rightarrow> (None, resolveGoalStart response st))"

section \<open>Asking\<close>

definition teammateBridgeTeam :: "agent_env \<Rightarrow> string option" where
  "teammateBridgeTeam env =
     (case ev_teammate env of
        None \<Rightarrow> None
      | Some None \<Rightarrow> None
      | Some (Some teamName) \<Rightarrow> if ev_hasMailbox env then Some teamName else None)"

definition ask_action :: "call_context \<Rightarrow> string option \<Rightarrow> string" where
  "ask_action ctx approvalAction =
     (case approvalAction of
        Some action \<Rightarrow> action
      | None \<Rightarrow> (case cc_description ctx of Some d \<Rightarrow> d | None \<Rightarrow> ''Call '' @ cc_toolName ctx))"

definition always_patterns :: "call_context \<Rightarrow> string list" where
  "always_patterns ctx = (case cc_approvalRules ctx of Some rules \<Rightarrow> rules | None \<Rightarrow> [cc_approvalRule ctx])"

text \<open>A permanent approval is persisted, or degrades to one for the session.\<close>

definition settle_scope :: "agent_env \<Rightarrow> call_context \<Rightarrow> approval_response \<Rightarrow> agent_state \<Rightarrow> approval_response \<times> agent_state" where
  "settle_scope env ctx response st =
     (if ar_decision response = Approved \<and> ar_scope response = Some AlwaysScope
      then (case tryPersistAlwaysApproval env (always_patterns ctx) st of
              (persisted, st') \<Rightarrow> (if persisted then response else response\<lparr>ar_scope := Some SessionScope\<rparr>, st'))
      else (response, st))"

definition approval_record_of :: "call_context \<Rightarrow> string \<Rightarrow> approval_response \<Rightarrow> approval_record" where
  "approval_record_of ctx action response =
     (let approvedForSession = (ar_decision response = Approved \<and> ar_scope response = Some SessionScope) in
      \<lparr>rc_turnId = cc_turnNumber ctx, rc_toolCallId = cc_toolCallId ctx, rc_toolName = cc_toolName ctx, rc_action = action,
       rc_sessionApprovalRule = (if approvedForSession then Some (cc_approvalRule ctx) else None),
       rc_sessionApprovalRules = (if approvedForSession then cc_approvalRules ctx else None),
       rc_result = response\<rparr>)"

definition settle_approval ::
    "agent_env \<Rightarrow> call_context \<Rightarrow> string option \<Rightarrow> resolver \<Rightarrow> string \<Rightarrow> approval_response \<Rightarrow> agent_state \<Rightarrow> prepare_result \<times> agent_state" where
  "settle_approval env ctx approvalAction resolve policyName response0 st =
     (let (response, st1) = settle_scope env ctx response0 st;
          st2 = recordApprovalResult (approval_record_of ctx (ask_action ctx approvalAction) response)
            (Some (if policyName = ''git-mutation-gate'' then GitMutationGate else ToolApproval)) st1
      in case resolveApproval resolve response st2 of
          (Some result, st3) \<Rightarrow> (result, st3)
        | (None, st3) \<Rightarrow>
            (if ar_decision response = Approved then RunCall
             else BlockCall (ApprovalRefused (ar_decision response) (ar_feedback response) (ev_isSub env)), st3))"

definition requestToolApproval ::
    "agent_env \<Rightarrow> call_context \<Rightarrow> replies \<Rightarrow> string option \<Rightarrow> resolver \<Rightarrow> string \<Rightarrow> agent_state \<Rightarrow> prepare_result \<times> agent_state" where
  "requestToolApproval env ctx rp approvalAction resolve policyName st =
     (if teammateBridgeTeam env \<noteq> None \<or> ev_interactive env
      then (case rp_approval rp of
              Inl err \<Rightarrow> (PrepareThrows, st)
            | Inr response \<Rightarrow> settle_approval env ctx approvalAction resolve policyName response st)
      else settle_approval env ctx approvalAction resolve policyName
        \<lparr>ar_decision = Approved, ar_scope = None, ar_feedback = None, ar_selectedLabel = None, ar_mode = None\<rparr> st)"

definition permissionPolicyResolutionToPrepare ::
    "agent_env \<Rightarrow> call_context \<Rightarrow> replies \<Rightarrow> resolution \<Rightarrow> string \<Rightarrow> agent_state \<Rightarrow> prepare_result \<times> agent_state" where
  "permissionPolicyResolutionToPrepare env ctx rp result policyName st =
     (case result of
        Approve \<Rightarrow> (RunCall, st)
      | DenyCall reason \<Rightarrow> (BlockCall (BlockedBy reason), st)
      | AskUser approvalAction resolve \<Rightarrow> requestToolApproval env ctx rp approvalAction resolve policyName st
      | UpdatedArgs input \<Rightarrow> (RunUpdated input, st))"

definition beforeToolCall :: "agent_env \<Rightarrow> call_context \<Rightarrow> replies \<Rightarrow> agent_state \<Rightarrow> prepare_result \<times> agent_state" where
  "beforeToolCall env ctx rp st =
     (case evaluatePolicies env ctx rp st of
        (EvalThrows, st') \<Rightarrow> (PrepareThrows, st')
      | (NoDecision, st') \<Rightarrow> (RunCall, st')
      | (DecidedBy name r, st') \<Rightarrow> permissionPolicyResolutionToPrepare env ctx rp r name st')"

section \<open>Escalation out of the sandbox\<close>

datatype escalation = Once | ForSession | Reject

record escalation_info =
  ei_turnNumber :: int
  ei_toolCallId :: string
  ei_toolName :: "string option"
  ei_action :: "string option"
  ei_reason :: string

definition requestSandboxEscalation :: "agent_env \<Rightarrow> escalation_info \<Rightarrow> replies \<Rightarrow> agent_state \<Rightarrow> escalation \<times> agent_state" where
  "requestSandboxEscalation env info rp st =
     (let name = (case ei_toolName info of Some n \<Rightarrow> n | None \<Rightarrow> ''Bash'');
          action = (case ei_action info of Some a \<Rightarrow> a
            | None \<Rightarrow> ''Command was denied by the OS sandbox ('' @ ei_reason info @ ''). Retry once without the sandbox?'')
      in if \<not> ev_interactive env then (Reject, st)
         else case rp_approval rp of
             Inl err \<Rightarrow> (Reject, st)
           | Inr response \<Rightarrow>
               let st1 = recordApprovalResult \<lparr>rc_turnId = ei_turnNumber info, rc_toolCallId = ei_toolCallId info, rc_toolName = name, rc_action = action,
                     rc_sessionApprovalRule = None, rc_sessionApprovalRules = None, rc_result = response\<rparr> None st
               in (if ar_decision response \<noteq> Approved then Reject
                   else if ar_scope response = Some SessionScope then ForSession else Once, st1))"

section \<open>Replay\<close>

definition restoreAgentRecord :: "agent_state \<Rightarrow> perm_record \<Rightarrow> agent_state" where
  "restoreAgentRecord st r =
     (case r of
        RecSetMode md \<Rightarrow> setMode md st
      | RecApproval rc \<Rightarrow> recordApprovalResult rc None st
      | _ \<Rightarrow> st)"

section \<open>What the loop does with the answer\<close>

text \<open>
  \<open>validate\<close> and \<open>resolve\<close> are the tool's own checks of the rewritten arguments: \<open>None\<close> where they fail. A call is authorised with the
  arguments and the execution it runs with.
\<close>

datatype authorized = SettledError block_reason | SettledFailure | SettledSynthetic plan_outcome | Authorized string call_context

definition authorizeToolCallPreparation ::
    "bool \<Rightarrow> (string \<Rightarrow> bool) \<Rightarrow> (string \<Rightarrow> call_context option) \<Rightarrow> string \<Rightarrow> call_context \<Rightarrow> prepare_result \<Rightarrow> authorized" where
  "authorizeToolCallPreparation aborted validate resolve args execution authorization =
     (if aborted then SettledFailure
      else case authorization of
          BlockCall reason \<Rightarrow> SettledError reason
        | PrepareThrows \<Rightarrow> SettledFailure
        | SyntheticPlan outcome \<Rightarrow> SettledSynthetic outcome
        | RunUpdated updatedArgs \<Rightarrow>
            if \<not> validate updatedArgs then SettledFailure
            else (case resolve updatedArgs of None \<Rightarrow> SettledFailure | Some execution' \<Rightarrow> Authorized updatedArgs execution')
        | RunCall \<Rightarrow> Authorized args execution)"

end
