(* ===== verification/Perm_Safety.thy ===== *)
theory Perm_Safety
  imports Perm_Manager
begin

text \<open>
  What the permission system guarantees, over the model of \<open>Perm_Policies\<close> and \<open>Perm_Manager\<close>: denials that no mode unlocks, the gates
  that fail closed, what an approval is remembered for, and the replay of the log.
\<close>

section \<open>Walking the chain\<close>

lemma walk_pure [simp]:
  "evaluate_in_order ((n, pure_policy f) # ps) env ctx rp st =
     (case f env ctx st of None \<Rightarrow> evaluate_in_order ps env ctx rp st | Some r \<Rightarrow> (DecidedBy n r, st))"
  by (simp add: pure_policy_def split: option.split)

declare evaluate_in_order.simps(2) [simp del]

lemma walk_hook:
  "preToolCallHook rp = Undecided \<Longrightarrow>
     evaluate_in_order ((n, \<lambda>env ctx rp st. (preToolCallHook rp, st)) # ps) env ctx rp st = evaluate_in_order ps env ctx rp st"
  by (simp add: evaluate_in_order.simps(2))

fun first_decision ::
    "(string \<times> (agent_env \<Rightarrow> call_context \<Rightarrow> agent_state \<Rightarrow> resolution option)) list \<Rightarrow> agent_env \<Rightarrow> call_context \<Rightarrow> agent_state \<Rightarrow>
     (string \<times> resolution) option" where
  "first_decision [] env ctx st = None"
| "first_decision ((n, f) # fs) env ctx st =
     (case f env ctx st of Some r \<Rightarrow> Some (n, r) | None \<Rightarrow> first_decision fs env ctx st)"

lemma walk_pures:
  "evaluate_in_order (map (\<lambda>(n, f). (n, pure_policy f)) fs @ ps) env ctx rp st =
     (case first_decision fs env ctx st of Some (n, r) \<Rightarrow> (DecidedBy n r, st) | None \<Rightarrow> evaluate_in_order ps env ctx rp st)"
  by (induction fs) (auto split: option.split)

lemma first_decision_mem: "first_decision fs env ctx st = Some (n, r) \<Longrightarrow> \<exists>f. (n, f) \<in> set fs \<and> f env ctx st = Some r"
  by (induction fs) (auto split: option.splits)

lemma first_decision_none: "first_decision fs env ctx st = None \<longleftrightarrow> (\<forall>(n, f) \<in> set fs. f env ctx st = None)"
  by (induction fs) (auto split: option.splits)

text \<open>The pure policies between the hooks and the session history, those between the guardian and the user's ask rules, and the rest.\<close>

definition early_policies :: "(string \<times> (agent_env \<Rightarrow> call_context \<Rightarrow> agent_state \<Rightarrow> resolution option)) list" where
  "early_policies =
     [(''agent-swarm-exclusive-deny'', \<lambda>env ctx st. agentSwarmExclusiveDeny ctx),
      (''coordinator-worker-spawn-deny'', \<lambda>env ctx st. coordinatorWorkerSpawnDeny env ctx),
      (''teammate-spawn-deny'', \<lambda>env ctx st. teammateSpawnDeny env ctx),
      (''worktree-teammate-deny'', \<lambda>env ctx st. worktreeTeammateDeny env ctx),
      (''auto-mode-ask-user-question-deny'', \<lambda>env ctx st. autoModeAskUserQuestionDeny ctx st),
      (''plan-mode-guard-deny'', \<lambda>env ctx st. planModeGuardDeny ctx st),
      (''user-configured-deny'', userConfiguredDeny)]"

definition late_policies :: "(string \<times> (agent_env \<Rightarrow> call_context \<Rightarrow> agent_state \<Rightarrow> resolution option)) list" where
  "late_policies =
     [(''user-configured-ask'', userConfiguredAsk),
      (''user-configured-allow'', userConfiguredAllow),
      (''exit-plan-mode-review-ask'', \<lambda>env ctx st. exitPlanModeReviewAsk ctx st),
      (''goal-start-review-ask'', \<lambda>env ctx st. goalStartReviewAsk ctx st),
      (''plan-mode-tool-approve'', \<lambda>env ctx st. planModeToolApprove ctx st),
      (''worktree-tool-approve'', \<lambda>env ctx st. worktreeToolApprove ctx),
      (''sensitive-file-access-ask'', \<lambda>env ctx st. sensitiveFileAccessAsk env ctx),
      (''git-control-path-access-ask'', \<lambda>env ctx st. gitControlPathAccessAsk env ctx),
      (''yolo-mode-approve'', \<lambda>env ctx st. yoloModeApprove st),
      (''swarm-mode-agent-swarm-approve'', \<lambda>env ctx st. swarmModeAgentSwarmApprove env ctx),
      (''default-tool-approve'', \<lambda>env ctx st. defaultToolApprove ctx),
      (''git-cwd-write-approve'', \<lambda>env ctx st. gitCwdWriteApprove env ctx),
      (''fallback-ask'', \<lambda>env ctx st. fallbackAsk)]"

lemma chain_parts:
  "createPermissionDecisionPolicies =
     (''pre-tool-call-hook'', \<lambda>env ctx rp st. (preToolCallHook rp, st))
     # map (\<lambda>(n, f). (n, pure_policy f)) (early_policies @ [(''session-approval-history'', sessionApprovalHistory), (''git-mutation-gate'', gitMutationGate)])
     @ (''guardian-review'', guardianReview)
     # map (\<lambda>(n, f). (n, pure_policy f)) ((''auto-mode-approve'', \<lambda>env ctx st. autoModeApprove st) # late_policies) @ []"
  by (simp add: createPermissionDecisionPolicies_def early_policies_def late_policies_def)

definition early_decision :: "agent_env \<Rightarrow> call_context \<Rightarrow> agent_state \<Rightarrow> (string \<times> resolution) option" where
  "early_decision = first_decision early_policies"

text \<open>The decision of the guardian and of what comes after it.\<close>

definition last_decision :: "agent_env \<Rightarrow> call_context \<Rightarrow> replies \<Rightarrow> agent_state \<Rightarrow> evaluation \<times> agent_state" where
  "last_decision env ctx rp st =
     (case guardianReview env ctx rp st of
        (Throws, st') \<Rightarrow> (EvalThrows, st')
      | (Decided r, st') \<Rightarrow> (DecidedBy ''guardian-review'' r, st')
      | (Undecided, st') \<Rightarrow>
          (case autoModeApprove st' of
             Some r \<Rightarrow> (DecidedBy ''auto-mode-approve'' r, st')
           | None \<Rightarrow> (case first_decision late_policies env ctx st' of Some (n, r) \<Rightarrow> (DecidedBy n r, st') | None \<Rightarrow> (NoDecision, st'))))"

lemma walk_guardian:
  "evaluate_in_order ((''guardian-review'', guardianReview)
       # map (\<lambda>(n, f). (n, pure_policy f)) ((''auto-mode-approve'', \<lambda>env ctx st. autoModeApprove st) # late_policies) @ []) env ctx rp st
   = last_decision env ctx rp st"
  unfolding evaluate_in_order.simps(2) walk_pures last_decision_def
  by (auto split: prod.split policy_result.split option.split)

lemma first_decision_append:
  "first_decision (fs @ gs) env ctx st =
     (case first_decision fs env ctx st of Some d \<Rightarrow> Some d | None \<Rightarrow> first_decision gs env ctx st)"
  by (induction fs) (auto split: option.split)

lemma walk_chain:
  assumes "preToolCallHook rp = Undecided"
  shows "evaluatePolicies env ctx rp st =
    (case early_decision env ctx st of
       Some (n, r) \<Rightarrow> (DecidedBy n r, st)
     | None \<Rightarrow>
         (case sessionApprovalHistory env ctx st of
            Some r \<Rightarrow> (DecidedBy ''session-approval-history'' r, st)
          | None \<Rightarrow>
              (case gitMutationGate env ctx st of
                 Some r \<Rightarrow> (DecidedBy ''git-mutation-gate'' r, st)
               | None \<Rightarrow> last_decision env ctx rp st)))"
  unfolding evaluatePolicies_def chain_parts walk_hook [OF assms] walk_pures walk_guardian first_decision_append early_decision_def
  by (auto split: option.split)

lemma denials:
  "agentSwarmExclusiveDeny ctx = Some r \<Longrightarrow> \<exists>d. r = DenyCall d"
  "coordinatorWorkerSpawnDeny env ctx = Some r \<Longrightarrow> \<exists>d. r = DenyCall d"
  "teammateSpawnDeny env ctx = Some r \<Longrightarrow> \<exists>d. r = DenyCall d"
  "worktreeTeammateDeny env ctx = Some r \<Longrightarrow> \<exists>d. r = DenyCall d"
  "autoModeAskUserQuestionDeny ctx st = Some r \<Longrightarrow> \<exists>d. r = DenyCall d"
  "planModeGuardDeny ctx st = Some r \<Longrightarrow> \<exists>d. r = DenyCall d"
  "userConfiguredDeny env ctx st = Some r \<Longrightarrow> \<exists>d. r = DenyCall d"
  by (auto simp: agentSwarmExclusiveDeny_def coordinatorWorkerSpawnDeny_def teammateSpawnDeny_def worktreeTeammateDeny_def
      autoModeAskUserQuestionDeny_def planModeGuardDeny_def userConfiguredDeny_def Let_def split: option.splits if_splits)

lemma early_is_denial:
  assumes "early_decision env ctx st = Some (n, r)"
  shows "\<exists>d. r = DenyCall d"
  using first_decision_mem [OF assms [unfolded early_decision_def]] unfolding early_policies_def
  by (auto dest: denials)

lemma early_blocks:
  assumes "preToolCallHook rp = Undecided" "early_decision env ctx st \<noteq> None"
  shows "\<exists>d. beforeToolCall env ctx rp st = (BlockCall (BlockedBy d), st)"
proof -
  obtain n r where e: "early_decision env ctx st = Some (n, r)" using assms(2) by auto
  then obtain d where "r = DenyCall d" using early_is_denial by blast
  then show ?thesis using assms(1) e by (simp add: beforeToolCall_def walk_chain permissionPolicyResolutionToPrepare_def)
qed

lemma early_cases:
  "planModeGuardDeny ctx st \<noteq> None \<Longrightarrow> early_decision env ctx st \<noteq> None"
  "userConfiguredDeny env ctx st \<noteq> None \<Longrightarrow> early_decision env ctx st \<noteq> None"
  unfolding early_decision_def first_decision_none by (auto simp: early_policies_def)

section \<open>Denials\<close>

lemma first_match_in_iff:
  "first_match_in glob rules toolName ex \<noteq> None \<longleftrightarrow> (\<exists>rule \<in> set rules. matchPermissionRule glob rule toolName ex \<noteq> None)"
  by (induction rules) (auto split: option.splits)

lemma configured_rule_mem:
  "m \<in> set (as_managers st) \<Longrightarrow> rule \<in> set (pm_rules m) \<Longrightarrow> rl_scope rule \<noteq> SessionRuntime \<Longrightarrow>
     rule \<in> set (userConfiguredRules st (rl_decision rule))"
  by (cases "rl_scope rule") (auto simp: userConfiguredRules_def effectiveRules_def USER_CONFIGURED_SCOPES_def)

text \<open>
  C3: A deny rule blocks: if a deny rule of the agent or of one of its parents, of the scope turn, project or user, matches a call and no hook decides the call
  first, the call does not run and nothing changes, in every mode, whatever was granted before and whatever the reviewer and the user would say.
  (The policies pass over rules of the scope \<open>session-runtime\<close>, which the configuration admits as well.)
\<close>

theorem deny_rule_blocks:
  assumes "m \<in> set (as_managers st)" "rule \<in> set (pm_rules m)" "rl_decision rule = Deny" "rl_scope rule \<noteq> SessionRuntime"
    and "matchPermissionRule (ev_glob env) rule (cc_toolName ctx) (cc_match ctx) \<noteq> None"
    and "preToolCallHook rp = Undecided"
  shows "\<exists>d. beforeToolCall env ctx rp st = (BlockCall (BlockedBy d), st)"
proof -
  have "rule \<in> set (userConfiguredRules st Deny)" using configured_rule_mem assms(1-4) by metis
  then have "firstMatchingRule env ctx st Deny \<noteq> None" unfolding firstMatchingRule_def first_match_in_iff using assms(5) by blast
  then have "userConfiguredDeny env ctx st \<noteq> None" by (auto simp: userConfiguredDeny_def)
  then show ?thesis using early_blocks [OF assms(6)] early_cases by blast
qed

text \<open>
  C27: While plan mode is active, a \<open>Write\<close> or \<open>Edit\<close> that writes anything but the plan file, or that does not say what it writes, is blocked, and so
  are stopping tasks and changing the schedule, in every mode and under every rule and grant, unless a hook decides first.
\<close>

theorem plan_mode_guards:
  assumes "as_planActive st" "preToolCallHook rp = Undecided"
    and "cc_toolName ctx \<in> {''TaskStop'', ''CronCreate'', ''CronDelete''} \<or>
      cc_toolName ctx \<in> {''Write'', ''Edit''} \<and>
        (writeFileAccesses ctx = [] \<or> (\<exists>a \<in> set (writeFileAccesses ctx). Some (access_path a) \<noteq> as_planFile st))"
  shows "\<exists>d. beforeToolCall env ctx rp st = (BlockCall (BlockedBy d), st)"
proof -
  have "planModeGuardDeny ctx st \<noteq> None"
    using assms by (auto simp: planModeGuardDeny_def list_all_iff split: option.splits)
  then show ?thesis using early_blocks [OF assms(2)] early_cases by blast
qed

section \<open>A hook that rewrites the input\<close>

lemma rewrite_decides:
  assumes "\<not> rp_aborted rp" "\<forall>h \<in> set (rp_hooks rp). \<not> hr_block h \<and> \<not> hr_ask h" "h \<in> set (rp_hooks rp)" "hr_updatedInput h = Some u"
    and "\<forall>h' \<in> set (rp_hooks rp). hr_updatedInput h' \<in> {None, Some u}"
  shows "preToolCallHook rp = Decided (UpdatedArgs u)"
proof -
  have "find hr_block (rp_hooks rp) = None" using assms(2) by (auto simp: find_None_iff)
  moreover have "\<not> list_ex hr_ask (rp_hooks rp)" using assms(2) by (auto simp: list_ex_iff)
  moreover obtain h' where "find (\<lambda>r. hr_updatedInput r \<noteq> None) (rp_hooks rp) = Some h'"
    using assms(3,4) by (cases "find (\<lambda>r. hr_updatedInput r \<noteq> None) (rp_hooks rp)") (auto simp: find_None_iff)
  moreover from this have "hr_updatedInput h' = Some u" using assms(5) by (auto simp: find_Some_iff all_set_conv_all_nth)
  ultimately show ?thesis using assms(1) by (simp add: preToolCallHook_def)
qed

text \<open>
  C28: A hook that rewrites the input of a call ends the chain, and the rewritten call is not judged again: it runs, whatever rule denies it,
  whatever mode is active and whatever the plan guard, the git gate and the guardian would say, as soon as the tool accepts its arguments.
\<close>

theorem hook_rewrite_bypasses_rules:
  assumes "\<not> rp_aborted rp" "\<forall>h \<in> set (rp_hooks rp). \<not> hr_block h \<and> \<not> hr_ask h" "h \<in> set (rp_hooks rp)" "hr_updatedInput h = Some u"
    and "\<forall>h' \<in> set (rp_hooks rp). hr_updatedInput h' \<in> {None, Some u}"
    and "validate u" "resolve u = Some rewritten"
  shows "authorizeToolCallPreparation False validate resolve args ctx (fst (beforeToolCall env ctx rp st)) = Authorized u rewritten"
proof -
  have "evaluatePolicies env ctx rp st = (DecidedBy ''pre-tool-call-hook'' (UpdatedArgs u), st)"
    using rewrite_decides [OF assms(1-5)] by (simp add: evaluatePolicies_def createPermissionDecisionPolicies_def evaluate_in_order.simps(2))
  then show ?thesis
    using assms(6,7) by (simp add: beforeToolCall_def permissionPolicyResolutionToPrepare_def authorizeToolCallPreparation_def)
qed

text \<open>
  A hook that asks for confirmation opens every gate of an agent without an approval channel: where nobody can be asked (no user interface and no team leader to
  forward the question to) and no hook blocks or rewrites, the question counts as approved and ends the chain. The call runs, whatever rule denies it, whatever mode is active and
  whatever the plan guard, the git gate and the guardian would say.
\<close>

theorem headless_hook_ask_runs:
  assumes "\<not> rp_aborted rp" "\<forall>h \<in> set (rp_hooks rp). \<not> hr_block h \<and> hr_updatedInput h = None" "h \<in> set (rp_hooks rp)" "hr_ask h"
    and "\<not> ev_interactive env" "teammateBridgeTeam env = None"
  shows "fst (beforeToolCall env ctx rp st) = RunCall"
proof -
  have "find hr_block (rp_hooks rp) = None" "find (\<lambda>r. hr_updatedInput r \<noteq> None) (rp_hooks rp) = None" "list_ex hr_ask (rp_hooks rp)"
    using assms(2-4) by (auto simp: find_None_iff list_ex_iff)
  then have "preToolCallHook rp = Decided (AskUser None (HookRewrite None))" using assms(1) by (simp add: preToolCallHook_def Let_def)
  then have "evaluatePolicies env ctx rp st = (DecidedBy ''pre-tool-call-hook'' (AskUser None (HookRewrite None)), st)"
    by (simp add: evaluatePolicies_def createPermissionDecisionPolicies_def evaluate_in_order.simps(2))
  then show ?thesis
    using assms(5,6) by (simp add: beforeToolCall_def permissionPolicyResolutionToPrepare_def requestToolApproval_def settle_approval_def settle_scope_def resolveApproval_def Let_def)
qed

section \<open>Gates that fail closed\<close>

lemma settle_scope_decision: "settle_scope env ctx response st = (response', st') \<Longrightarrow> ar_decision response' = ar_decision response"
  by (auto simp: settle_scope_def split: if_splits prod.splits)

lemma resolver_never_runs: "resolveApproval resolve response st = (Some result, st') \<Longrightarrow> result \<noteq> RunCall"
  by (auto simp: resolveApproval_def split: resolver.splits prod.splits option.splits if_splits)

lemma settle_runs:
  assumes "fst (settle_approval env ctx a resolve n response st) = RunCall"
  shows "ar_decision response = Approved"
proof -
  obtain response' st1 where s: "settle_scope env ctx response st = (response', st1)" by fastforce
  define st2 where "st2 = recordApprovalResult (approval_record_of ctx (ask_action ctx a) response')
     (Some (if n = ''git-mutation-gate'' then GitMutationGate else ToolApproval)) st1"
  obtain result st3 where r: "resolveApproval resolve response' st2 = (result, st3)" by fastforce
  have "settle_approval env ctx a resolve n response st = (case result of Some res \<Rightarrow> (res, st3)
      | None \<Rightarrow> (if ar_decision response' = Approved then RunCall
          else BlockCall (ApprovalRefused (ar_decision response') (ar_feedback response') (ev_isSub env)), st3))"
    by (simp add: settle_approval_def s r [unfolded st2_def] split: option.split)
  then have "ar_decision response' = Approved"
    using assms r resolver_never_runs [of resolve response' st2 RunCall st3] by (cases result) (auto split: if_splits)
  then show ?thesis using settle_scope_decision [OF s] by simp
qed

lemma asked_runs:
  assumes "fst (requestToolApproval env ctx rp a resolve n st) = RunCall" "ev_interactive env"
  shows "\<exists>response. rp_approval rp = Inr response \<and> ar_decision response = Approved"
  using assms settle_runs by (auto simp: requestToolApproval_def split: sum.splits)

lemma representative_best: "representative_from (Some b) classes \<noteq> None"
proof (induction classes arbitrary: b)
  case (Cons x classes)
  show ?case using Cons by (cases x) simp_all
qed simp

lemma representative_some: "Some c \<in> set classes \<Longrightarrow> c \<noteq> ReadOnly \<Longrightarrow> representative_from None classes \<noteq> None"
proof (induction classes)
  case (Cons x classes)
  show ?case
  proof (cases "x = None \<or> x = Some ReadOnly")
    case True
    then show ?thesis using Cons by auto
  next
    case False
    then show ?thesis using representative_best by (cases x) simp_all
  qed
qed simp

text \<open>The call is covered by what the user granted for the session, or by that and the allow rules together.\<close>

definition granted :: "agent_env \<Rightarrow> call_context \<Rightarrow> agent_state \<Rightarrow> bool" where
  "granted env ctx st \<longleftrightarrow> sessionApprovalHistory env ctx st = Some Approve \<or> coveredByConfiguredAllow env ctx st"

lemma run_not_early:
  assumes "preToolCallHook rp = Undecided" "fst (beforeToolCall env ctx rp st) = RunCall"
  shows "early_decision env ctx st = None"
proof (rule ccontr)
  assume "early_decision env ctx st \<noteq> None"
  from early_blocks [OF assms(1) this] show False using assms(2) by auto
qed

lemma session_approves: "sessionApprovalHistory env ctx st = Some r \<Longrightarrow> r = Approve"
  by (auto simp: sessionApprovalHistory_def split: if_splits option.splits)

text \<open>
  C4: The git gate fails closed: outside yolo mode, unless the gate is switched off, and where no hook decides the call first, a command with a segment that changes a
  repository runs only if the user's grants and rules cover it, or the user is there and approves it now; then it never runs because nobody can be asked.
\<close>

theorem git_gate_fails_closed:
  assumes "preToolCallHook rp = Undecided" "perm_mode_of st \<noteq> YoloMode" "ev_gitMutation env \<noteq> Some GitAllow"
    and "cc_gitClasses ctx = Some classes" "Some c \<in> set classes" "c \<noteq> ReadOnly"
    and "fst (beforeToolCall env ctx rp st) = RunCall"
  shows "granted env ctx st \<or>
    ev_interactive env \<and> ev_gitMutation env \<noteq> Some GitDeny \<and> (\<exists>response. rp_approval rp = Inr response \<and> ar_decision response = Approved)"
proof (cases "granted env ctx st")
  case False
  have early: "early_decision env ctx st = None" using run_not_early assms(1,7) .
  have session: "sessionApprovalHistory env ctx st = None"
    using False session_approves by (cases "sessionApprovalHistory env ctx st") (auto simp: granted_def)
  obtain g where g: "representativeMutationClass (cc_gitClasses ctx) = Some g"
    using representative_some [OF assms(5,6)] assms(4) by (auto simp: representativeMutationClass_def)
  have not_covered: "\<not> coveredByConfiguredAllow env ctx st" using False by (simp add: granted_def)
  define setting where "setting = (case ev_gitMutation env of None \<Rightarrow> GitAsk | Some s \<Rightarrow> s)"
  have s: "setting \<noteq> GitAllow" "setting = GitDeny \<longleftrightarrow> ev_gitMutation env = Some GitDeny"
    using assms(3) by (cases "ev_gitMutation env"; simp add: setting_def)+
  have r0: "gitMutationGate env ctx st =
      (if setting = GitDeny then Some (DenyCall (GitMutationDenied g)) else if \<not> ev_interactive env then Some (DenyCall (GitMutationHeadless g))
       else Some (AskUser (Some (GIT_MUTATION_GATE_APPROVAL_ACTION_PREFIX @ '' this command '' @
                MUTATION_CLASS_DESCRIPTIONS g @ ''. Review the command before approving.'')) NoResolver))"
    unfolding gitMutationGate_def setting_def [symmetric] using assms(2) s(1) g not_covered by simp
  then obtain r where r: "gitMutationGate env ctx st = Some r"
    "(\<exists>d. r = DenyCall d) \<or> ev_interactive env \<and> ev_gitMutation env \<noteq> Some GitDeny \<and> (\<exists>a. r = AskUser a NoResolver)"
    using s(2) by (metis (full_types))
  have "beforeToolCall env ctx rp st = permissionPolicyResolutionToPrepare env ctx rp r ''git-mutation-gate'' st"
    by (simp add: beforeToolCall_def walk_chain [OF assms(1)] early session r(1))
  then have run: "fst (permissionPolicyResolutionToPrepare env ctx rp r ''git-mutation-gate'' st) = RunCall" using assms(7) by simp
  then obtain a where "r = AskUser a NoResolver" "ev_interactive env" "ev_gitMutation env \<noteq> Some GitDeny"
    using r(2) by (auto simp: permissionPolicyResolutionToPrepare_def)
  then show ?thesis using run asked_runs by (auto simp: permissionPolicyResolutionToPrepare_def)
qed simp

lemma guardian_runs:
  assumes "guardianReview env ctx rp st = (p, st')" "ev_guardianEnabled env" "perm_mode_of st = AutoMode"
    and "cc_toolName ctx \<notin> set DEFAULT_APPROVE_TOOLS" "cc_toolName ctx \<notin> set SESSION_TRANSPORT_TOOLS"
  shows "(p = Decided Approve \<and> rp_review rp = ReviewAllow \<and> \<not> tripped (as_breaker (pruneBreakerFor (cc_turnId ctx) st)) (cc_turnId ctx))
    \<or> (\<exists>d. p = Decided (DenyCall d)) \<or> ev_interactive env \<and> p = Decided (AskUser None NoResolver)"
  using assms by (auto simp: guardianReview_def applyAssessment_def applyFailure_def Let_def split: if_splits review_result.splits prod.splits)

text \<open>
  C11: In auto mode with the guardian enabled, and where no hook decides the call first, a call of a tool that is not exempt from review (the exempt ones are those approved by default,
  among them reading tools, \<open>Agent\<close> and \<open>Skill\<close>, and the session transport \<open>WriteStdin\<close>) runs only if a grant or rule of the user covers it, or the
  reviewer allows it and has not been suspended for the turn, or the user is there and approves it. A failed review alone never lets such a call run.
\<close>

theorem auto_mode_is_reviewed:
  assumes "preToolCallHook rp = Undecided" "perm_mode_of st = AutoMode" "ev_guardianEnabled env"
    and "cc_toolName ctx \<notin> set DEFAULT_APPROVE_TOOLS" "cc_toolName ctx \<notin> set SESSION_TRANSPORT_TOOLS"
    and "fst (beforeToolCall env ctx rp st) = RunCall"
  shows "granted env ctx st
    \<or> rp_review rp = ReviewAllow \<and> \<not> tripped (as_breaker (pruneBreakerFor (cc_turnId ctx) st)) (cc_turnId ctx)
    \<or> ev_interactive env \<and> (\<exists>response. rp_approval rp = Inr response \<and> ar_decision response = Approved)"
proof (cases "granted env ctx st")
  case False
  have early: "early_decision env ctx st = None" using run_not_early assms(1,6) .
  have session: "sessionApprovalHistory env ctx st = None"
    using False session_approves by (cases "sessionApprovalHistory env ctx st") (auto simp: granted_def)
  have not_covered: "\<not> coveredByConfiguredAllow env ctx st" using False by (simp add: granted_def)
  obtain p st' where g: "guardianReview env ctx rp st = (p, st')" by fastforce
  note cases = guardian_runs [OF g assms(3,2,4,5)]
  show ?thesis
  proof (cases "gitMutationGate env ctx st")
    case None
    then have b: "beforeToolCall env ctx rp st = (case last_decision env ctx rp st of (EvalThrows, s) \<Rightarrow> (PrepareThrows, s) | (NoDecision, s) \<Rightarrow> (RunCall, s)
        | (DecidedBy n r, s) \<Rightarrow> permissionPolicyResolutionToPrepare env ctx rp r n s)"
      by (simp add: beforeToolCall_def walk_chain [OF assms(1)] early session)
    show ?thesis
      using cases assms(6) asked_runs unfolding b last_decision_def g by (auto simp: permissionPolicyResolutionToPrepare_def)
  next
    case (Some r)
    then have "(\<exists>d. r = DenyCall d) \<or> ev_interactive env \<and> (\<exists>a. r = AskUser a NoResolver)"
      using not_covered by (auto simp: gitMutationGate_def Let_def split: if_splits option.splits)
    moreover have "fst (permissionPolicyResolutionToPrepare env ctx rp r ''git-mutation-gate'' st) = RunCall"
      using assms(6) by (simp add: beforeToolCall_def walk_chain [OF assms(1)] early session Some)
    ultimately show ?thesis using asked_runs by (auto simp: permissionPolicyResolutionToPrepare_def)
  qed
qed simp

section \<open>What evaluating leaves alone\<close>

text \<open>Deciding changes at most the breaker and the log.\<close>

definition same_grants :: "agent_state \<Rightarrow> agent_state \<Rightarrow> bool" where
  "same_grants st st' \<longleftrightarrow> as_managers st' = as_managers st \<and> as_planActive st' = as_planActive st \<and> as_planFile st' = as_planFile st
     \<and> as_userConfig st' = as_userConfig st"

lemma same_grants_refl [simp]: "same_grants st st"
  by (simp add: same_grants_def)

lemma same_grants_trans: "same_grants a b \<Longrightarrow> same_grants b c \<Longrightarrow> same_grants a c"
  by (simp add: same_grants_def)

lemma prune_same: "same_grants st (pruneBreakerFor t st)"
  by (simp add: pruneBreakerFor_def same_grants_def)

lemma assessment_same: "same_grants st (snd (applyAssessment ctx d st))"
  by (auto simp: applyAssessment_def same_grants_def log_record_def Let_def split: option.split prod.split)

lemma failure_same: "same_grants st (snd (applyFailure env ctx k st))"
  by (simp add: applyFailure_def same_grants_def log_record_def Let_def)

lemma guardian_same: "same_grants st (snd (guardianReview env ctx rp st))"
  by (auto simp: guardianReview_def Let_def prune_same same_grants_trans [OF prune_same assessment_same] same_grants_trans [OF prune_same failure_same]
      split: review_result.split)

lemma evaluate_same:
  assumes "\<forall>(n, p) \<in> set ps. \<forall>env ctx rp st. same_grants st (snd (p env ctx rp st))"
  shows "same_grants st (snd (evaluate_in_order ps env ctx rp st))"
  using assms
proof (induction ps arbitrary: st)
  case (Cons np ps)
  obtain n p where np: "np = (n, p)" by (cases np)
  obtain d st' where p: "p env ctx rp st = (d, st')" by fastforce
  have "same_grants st (snd (p env ctx rp st))" using Cons.prems by (simp add: np)
  then have "same_grants st st'" by (simp add: p)
  moreover have "same_grants st' (snd (evaluate_in_order ps env ctx rp st'))" using Cons by auto
  ultimately show ?case
    using same_grants_trans by (auto simp: np p evaluate_in_order.simps(2) split: policy_result.split)
qed simp

lemma evaluatePolicies_same: "same_grants st (snd (evaluatePolicies env ctx rp st))"
proof -
  have "\<forall>(n, p) \<in> set createPermissionDecisionPolicies. \<forall>env ctx rp st. same_grants st (snd (p env ctx rp st))"
    by (auto simp: chain_parts pure_policy_def guardian_same)
  then show ?thesis unfolding evaluatePolicies_def by (rule evaluate_same)
qed

section \<open>A session approval is remembered\<close>

lemma add_grants:
  "set (jm_keys (pm_grants (foldl (add_grant rc sf) pm ps))) = set ps \<union> set (jm_keys (pm_grants pm))
   \<and> pm_rules (foldl (add_grant rc sf) pm ps) = pm_rules pm \<and> pm_modeOverride (foldl (add_grant rc sf) pm ps) = pm_modeOverride pm"
proof (induction ps arbitrary: pm)
  case (Cons a ps)
  have "set (jm_keys (pm_grants (add_grant rc sf pm a))) = insert a (set (jm_keys (pm_grants pm)))"
    by (simp add: add_grant_def jm.set_keys_set)
  moreover have "pm_rules (add_grant rc sf pm a) = pm_rules pm" "pm_modeOverride (add_grant rc sf pm a) = pm_modeOverride pm"
    by (simp_all add: add_grant_def)
  ultimately show ?case using Cons [of "add_grant rc sf pm a"] by auto
qed simp

lemma granted_always: "ar_decision response = Approved \<Longrightarrow> ar_scope response = Some SessionScope \<Longrightarrow>
  granted_patterns (approval_record_of ctx action response) = Some (always_patterns ctx)"
  by (auto simp: granted_patterns_def approval_record_of_def always_patterns_def split: option.splits)

lemma record_session_patterns:
  assumes "ar_decision response = Approved" "ar_scope response = Some SessionScope" "as_managers st \<noteq> []"
  shows "set (sessionApprovalRulePatterns (as_managers (recordApprovalResult (approval_record_of ctx action response) sf st)))
    = set (always_patterns ctx) \<union> set (sessionApprovalRulePatterns (as_managers st))"
proof -
  obtain pm parents where m: "as_managers st = pm # parents" using assms(3) by (cases "as_managers st") auto
  have r: "rc_result (approval_record_of ctx action response) = response" by (simp add: approval_record_of_def Let_def)
  show ?thesis
    using assms(1,2) add_grants
    by (simp add: recordApprovalResult_def r granted_always map_self_def log_record_def m sessionApprovalRulePatterns_def Let_def Un_assoc)
qed

text \<open>The rules that an approval of a call writes match the call itself.\<close>

definition covers_itself :: "agent_env \<Rightarrow> call_context \<Rightarrow> bool" where
  "covers_itself env ctx \<longleftrightarrow>
     (if ex_ruleMatch (cc_match ctx) \<noteq> None then fully_covered env ctx (map session_rule (always_patterns ctx))
      else list_ex (\<lambda>p. matchPermissionRule (ev_glob env) (session_rule p) (cc_toolName ctx) (cc_match ctx) \<noteq> None) (always_patterns ctx))"

lemma fully_covered_mono: "fully_covered env ctx rules \<Longrightarrow> set rules \<subseteq> set rules' \<Longrightarrow> fully_covered env ctx rules'"
  unfolding fully_covered_def using collect_covers_mono [of "ev_glob env" rules "cc_toolName ctx" "cc_match ctx" _ rules']
  by (fastforce split: option.splits prod.splits)

lemma history_approves:
  assumes "covers_itself env ctx" "set (always_patterns ctx) \<subseteq> set (sessionApprovalRulePatterns (as_managers st))"
    and "cc_toolName ctx' = cc_toolName ctx" "cc_match ctx' = cc_match ctx"
  shows "sessionApprovalHistory env ctx' st = Some Approve"
proof (cases "ex_ruleMatch (cc_match ctx) = None")
  case True
  then obtain p where "p \<in> set (always_patterns ctx)" "matchPermissionRule (ev_glob env) (session_rule p) (cc_toolName ctx) (cc_match ctx) \<noteq> None"
    using assms(1) by (auto simp: covers_itself_def list_ex_iff)
  then have "first_match_in (ev_glob env) (sessionApprovalRules (as_managers st)) (cc_toolName ctx) (cc_match ctx) \<noteq> None"
    unfolding first_match_in_iff using assms(2) by (auto simp: sessionApprovalRules_def)
  then show ?thesis using True assms(3,4) by (auto simp: sessionApprovalHistory_def)
next
  case False
  then have "fully_covered env ctx (map session_rule (always_patterns ctx))" using assms(1) by (auto simp: covers_itself_def)
  then have "fully_covered env ctx (sessionApprovalRules (as_managers st))"
    by (rule fully_covered_mono) (use assms(2) in \<open>auto simp: sessionApprovalRules_def\<close>)
  then have "fully_covered env ctx' (sessionApprovalRules (as_managers st))" using assms(3,4) by (simp add: fully_covered_def)
  then show ?thesis using False assms(3,4) by (simp add: sessionApprovalHistory_def)
qed

lemma adopt_patterns: "sessionApprovalRulePatterns (adoptAlwaysApprovalRules ps ch) = sessionApprovalRulePatterns ch"
  by (cases ch rule: rev_cases) (simp_all add: adoptAlwaysApprovalRules_def sessionApprovalRulePatterns_def)

lemma settle_no_resolver:
  "settle_approval env ctx a NoResolver n response0 st =
    (let (response, st1) = settle_scope env ctx response0 st in
     (if ar_decision response = Approved then RunCall else BlockCall (ApprovalRefused (ar_decision response) (ar_feedback response) (ev_isSub env)),
      recordApprovalResult (approval_record_of ctx (ask_action ctx a) response)
        (Some (if n = ''git-mutation-gate'' then GitMutationGate else ToolApproval)) st1))"
  by (auto simp: settle_approval_def resolveApproval_def Let_def split: prod.split)

text \<open>
  C14: An approval for the session is remembered, and so is a permanent one that could not be saved: if a policy of an interactive agent asked about a call without a follow-up of its own, the rules that the
  approval grants match the call itself, and no hook decides the later call first, then once the user has answered that way, a later
  call of the same tool with the same execution is not asked for again. It runs, or one of the hard denials stops it, and nothing changes.
\<close>

theorem session_approval_remembered:
  assumes "evaluatePolicies env ctx rp st = (DecidedBy n (AskUser a NoResolver), st1)"
    and "ev_interactive env" "rp_approval rp = Inr response" "ar_decision response = Approved"
    and "ar_scope response = Some SessionScope \<or>
      ar_scope response = Some AlwaysScope \<and> \<not> fst (tryPersistAlwaysApproval env (always_patterns ctx) st1)"
    and "as_managers st \<noteq> []" "covers_itself env ctx"
    and "cc_toolName ctx' = cc_toolName ctx" "cc_match ctx' = cc_match ctx" "preToolCallHook rp' = Undecided"
    and "beforeToolCall env ctx rp st = (result, st2)"
  shows "result = RunCall \<and> (beforeToolCall env ctx' rp' st2 = (RunCall, st2) \<or> (\<exists>d. beforeToolCall env ctx' rp' st2 = (BlockCall (BlockedBy d), st2)))"
proof -
  have m: "as_managers st1 = as_managers st" using evaluatePolicies_same [of st env ctx rp] assms(1) by (simp add: same_grants_def)
  obtain response' st' where s: "settle_scope env ctx response st1 = (response', st')" by fastforce
  have r: "ar_decision response' = Approved" "ar_scope response' = Some SessionScope" "as_managers st' = as_managers st1"
    using s assms(4,5) by (auto simp: settle_scope_def tryPersistAlwaysApproval_def split: prod.splits if_splits option.splits)
  have b: "result = RunCall" "st2 = recordApprovalResult (approval_record_of ctx (ask_action ctx a) response')
      (Some (if n = ''git-mutation-gate'' then GitMutationGate else ToolApproval)) st'"
    using assms(1-3,11) r(1)
    by (simp_all add: beforeToolCall_def permissionPolicyResolutionToPrepare_def requestToolApproval_def settle_no_resolver s)
  have "set (always_patterns ctx) \<subseteq> set (sessionApprovalRulePatterns (as_managers st2))"
    using record_session_patterns [OF r(1,2)] r(3) m assms(6) by (simp add: b(2))
  then have h: "sessionApprovalHistory env ctx' st2 = Some Approve" using history_approves assms(7-9) by blast
  show ?thesis
  proof (cases "early_decision env ctx' st2 = None")
    case True
    then have "beforeToolCall env ctx' rp' st2 = (RunCall, st2)"
      using h by (simp add: beforeToolCall_def walk_chain [OF assms(10)] permissionPolicyResolutionToPrepare_def)
    then show ?thesis using b(1) by simp
  next
    case False
    then show ?thesis using early_blocks [OF assms(10)] b(1) by blast
  qed
qed

section \<open>Ask rules and permanent approvals\<close>

lemma hook_decides_name:
  assumes "evaluatePolicies env ctx rp st = (DecidedBy n r, st')" "preToolCallHook rp \<noteq> Undecided"
  shows "n = ''pre-tool-call-hook''"
  using assms by (cases "preToolCallHook rp") (simp_all add: evaluatePolicies_def chain_parts evaluate_in_order.simps(2))

lemma guardian_undecided:
  "guardianReview env ctx rp st = (Undecided, st') \<Longrightarrow> st' = st"
  by (auto simp: guardianReview_def applyAssessment_def applyFailure_def Let_def split: if_splits review_result.splits prod.splits)

lemma guardian_not_auto: "perm_mode_of st \<noteq> AutoMode \<Longrightarrow> guardianReview env ctx rp st = (Undecided, st)"
  by (simp add: guardianReview_def)

text \<open>When exactly a call is asked for because of a rule.\<close>

lemma asked_by_rule:
  "evaluatePolicies env ctx rp st = (DecidedBy ''user-configured-ask'' r, st') \<longleftrightarrow>
     preToolCallHook rp = Undecided \<and> early_decision env ctx st = None \<and> sessionApprovalHistory env ctx st = None
     \<and> gitMutationGate env ctx st = None \<and> perm_mode_of st \<noteq> AutoMode \<and> userConfiguredAsk env ctx st = Some r \<and> st' = st"
  (is "?l \<longleftrightarrow> ?r")
proof
  assume l: ?l
  have h: "preToolCallHook rp = Undecided" using hook_decides_name [OF l] by auto
  have e: "early_decision env ctx st = None"
  proof (rule ccontr)
    assume "early_decision env ctx st \<noteq> None"
    then obtain n r' where d: "early_decision env ctx st = Some (n, r')" by auto
    then have "n = ''user-configured-ask''" using l by (simp add: walk_chain [OF h])
    moreover obtain f where "(n, f) \<in> set early_policies" using first_decision_mem d unfolding early_decision_def by blast
    ultimately show False by (auto simp: early_policies_def)
  qed
  have s: "sessionApprovalHistory env ctx st = None" and g: "gitMutationGate env ctx st = None"
    using l e by (auto simp: walk_chain [OF h] split: option.splits)
  then have last: "last_decision env ctx rp st = (DecidedBy ''user-configured-ask'' r, st')"
    using l e by (simp add: walk_chain [OF h])
  obtain p st1 where p: "guardianReview env ctx rp st = (p, st1)" by fastforce
  have u: "p = Undecided" using last by (cases p) (simp_all add: last_decision_def p)
  have st1: "st1 = st" using guardian_undecided p u by blast
  have mode: "perm_mode_of st \<noteq> AutoMode"
    using last by (auto simp: last_decision_def p u st1 autoModeApprove_def)
  have "first_decision late_policies env ctx st = Some (''user-configured-ask'', r) \<and> st' = st"
    using last mode by (auto simp: last_decision_def p u st1 autoModeApprove_def split: option.splits)
  moreover have "userConfiguredAsk env ctx st = Some r" if "first_decision late_policies env ctx st = Some (''user-configured-ask'', r)"
    using first_decision_mem [OF that] by (auto simp: late_policies_def)
  ultimately show ?r using h e s g mode by blast
next
  assume r: ?r
  then show ?l
    by (simp add: walk_chain last_decision_def guardian_not_auto autoModeApprove_def late_policies_def)
qed

lemma append_allow_extra: "\<exists>extra. append_allow_rules rs ps = rs @ extra \<and> (\<forall>r \<in> set extra. rl_decision r = Allow)"
proof -
  have "\<exists>extra. foldl (\<lambda>rules p. if list_ex (\<lambda>rule. rl_decision rule = Allow \<and> rl_pattern rule = p) rules then rules else rules @ [always_rule p]) rs ps
     = rs @ extra \<and> (\<forall>r \<in> set extra. rl_decision r = Allow)"
  proof (induction ps rule: rev_induct)
    case (snoc p ps)
    then obtain extra where "foldl (\<lambda>rules p. if list_ex (\<lambda>rule. rl_decision rule = Allow \<and> rl_pattern rule = p) rules then rules
        else rules @ [always_rule p]) rs ps = rs @ extra" "\<forall>r \<in> set extra. rl_decision r = Allow" by blast
    then show ?case by (auto simp: always_rule_def)
  qed simp
  then show ?thesis by (simp add: append_allow_rules_def)
qed

lemma adopt_keeps:
  assumes "d \<noteq> Allow"
  shows "filter (\<lambda>r. P r \<and> rl_decision r = d) (effectiveRules (adoptAlwaysApprovalRules ps ch)) = filter (\<lambda>r. P r \<and> rl_decision r = d) (effectiveRules ch)"
proof (cases ch rule: rev_cases)
  case (snoc cs root_manager)
  obtain extra where x: "append_allow_rules (pm_rules root_manager) ps = pm_rules root_manager @ extra" "\<forall>r \<in> set extra. rl_decision r = Allow"
    using append_allow_extra by blast
  have "filter (\<lambda>r. P r \<and> rl_decision r = d) extra = []" using x(2) assms by (auto simp: filter_empty_conv)
  then show ?thesis using x(1) snoc by (simp add: adoptAlwaysApprovalRules_def effectiveRules_def)
qed (simp add: adoptAlwaysApprovalRules_def effectiveRules_def)

lemma adopt_mode: "mode_of (adoptAlwaysApprovalRules ps ch) = mode_of ch"
proof (cases ch rule: rev_cases)
  case (snoc cs root_manager)
  have "mode_of (xs @ [r\<lparr>pm_rules := rs\<rparr>]) = mode_of (xs @ [r])" for xs r rs by (induction xs) (simp_all split: option.split)
  then show ?thesis using snoc by (simp add: adoptAlwaysApprovalRules_def)
qed (simp add: adoptAlwaysApprovalRules_def)

text \<open>Two states that no denial, no grant and no ask rule tells apart.\<close>

definition asks_alike :: "agent_state \<Rightarrow> agent_state \<Rightarrow> bool" where
  "asks_alike st st' \<longleftrightarrow> perm_mode_of st' = perm_mode_of st \<and> as_planActive st' = as_planActive st \<and> as_planFile st' = as_planFile st
     \<and> sessionApprovalRulePatterns (as_managers st') = sessionApprovalRulePatterns (as_managers st)
     \<and> (\<forall>d. d \<noteq> Allow \<longrightarrow> userConfiguredRules st' d = userConfiguredRules st d)"

lemma asks_alike_asked:
  assumes "asks_alike st st'" "evaluatePolicies env ctx rp st = (DecidedBy ''user-configured-ask'' r, st1)"
  shows "evaluatePolicies env ctx rp st' = (DecidedBy ''user-configured-ask'' r, st')"
proof -
  note a = assms(2) [unfolded asked_by_rule]
  have first: "firstMatchingRule env ctx st' d = firstMatchingRule env ctx st d" if "d \<noteq> Allow" for d
    using assms(1) that by (simp add: asks_alike_def firstMatchingRule_def)
  have "early_decision env ctx st' = None"
    using a first assms(1) unfolding early_decision_def first_decision_none
    by (auto simp: early_policies_def autoModeAskUserQuestionDeny_def planModeGuardDeny_def userConfiguredDeny_def asks_alike_def)
  moreover have "sessionApprovalHistory env ctx st' = None"
  proof -
    have "sessionApprovalRules (as_managers st') = sessionApprovalRules (as_managers st)"
      using assms(1) by (simp add: sessionApprovalRules_def asks_alike_def)
    then have "sessionApprovalHistory env ctx st' = sessionApprovalHistory env ctx st" by (simp only: sessionApprovalHistory_def)
    then show ?thesis using a by simp
  qed
  moreover have "gitMutationGate env ctx st' = None"
    using a assms(1) by (auto simp: gitMutationGate_def asks_alike_def Let_def split: if_splits option.splits)
  moreover have "userConfiguredAsk env ctx st' = Some r" using a first [of Ask] by (simp add: userConfiguredAsk_def)
  ultimately show ?thesis using a assms(1) by (simp add: asked_by_rule asks_alike_def)
qed

text \<open>
  C29: A permanent approval is not remembered where an ask rule caught the call: the user of an interactive agent, whose configuration can be read and written,
  approves the call for good, the rules are saved, and the same call is asked for again by the policy of the ask rules.
\<close>

theorem permanent_approval_asked_again:
  assumes "evaluatePolicies env ctx rp st = (DecidedBy ''user-configured-ask'' (AskUser a NoResolver), st1)"
    and "ev_interactive env" "rp_approval rp = Inr response" "ar_decision response = Approved" "ar_scope response = Some AlwaysScope"
    and "ev_brandHome env" "ev_configReadable env" "ev_configWritable env"
    and "beforeToolCall env ctx rp st = (result, st2)"
  shows "result = RunCall
    \<and> (\<forall>p \<in> set (always_patterns ctx). \<exists>rule \<in> set (as_userConfig st2). rl_decision rule = Allow \<and> rl_pattern rule = p)
    \<and> evaluatePolicies env ctx rp st2 = (DecidedBy ''user-configured-ask'' (AskUser a NoResolver), st2)"
proof -
  have st1: "st1 = st" using assms(1) by (simp add: asked_by_rule)
  let ?cfg = "append_allow_rules (as_userConfig st) (always_patterns ctx)"
  have persist: "persistAllowRulesToUserConfig env (as_userConfig st) (always_patterns ctx) = Some ?cfg"
    using assms(7,8) by (simp add: persistAllowRulesToUserConfig_def append_allow_rules_def Let_def)
  let ?st = "st\<lparr>as_userConfig := ?cfg, as_managers := adoptAlwaysApprovalRules (always_patterns ctx) (as_managers st)\<rparr>"
  have s: "settle_scope env ctx response st = (response, ?st)"
    using assms(4-6) persist by (simp add: settle_scope_def tryPersistAlwaysApproval_def)
  have rr: "rc_result (approval_record_of ctx act response) = response" for act by (simp add: approval_record_of_def Let_def)
  have b: "result = RunCall" "st2 = log_record (RecApproval (approval_record_of ctx (ask_action ctx a) response)) ?st"
    using assms(1-5,9)
    by (simp_all add: st1 beforeToolCall_def permissionPolicyResolutionToPrepare_def requestToolApproval_def settle_no_resolver s recordApprovalResult_def rr)
  have "asks_alike st st2"
    by (simp add: asks_alike_def b(2) log_record_def perm_mode_of_def adopt_mode adopt_patterns userConfiguredRules_def adopt_keeps)
  then have "evaluatePolicies env ctx rp st2 = (DecidedBy ''user-configured-ask'' (AskUser a NoResolver), st2)"
    using asks_alike_asked assms(1) by blast
  moreover have "\<forall>p \<in> set ps. \<exists>rule \<in> set (append_allow_rules rs ps). rl_decision rule = Allow \<and> rl_pattern rule = p" for rs ps
    unfolding append_allow_rules_def by (induction ps rule: rev_induct) (auto simp: list_ex_iff always_rule_def)
  ultimately show ?thesis using b by (simp add: log_record_def)
qed

text \<open>
  Yolo mode still asks: a matching ask rule of the user stops a call that no denial and no grant decides, and a call whose approval is refused does not run.
\<close>

theorem yolo_mode_asks:
  assumes "perm_mode_of st = YoloMode" "preToolCallHook rp = Undecided" "early_decision env ctx st = None"
    and "sessionApprovalHistory env ctx st = None" "firstMatchingRule env ctx st Ask \<noteq> None"
    and "ev_interactive env" "rp_approval rp = Inr response" "ar_decision response \<noteq> Approved"
  shows "\<exists>reason. fst (beforeToolCall env ctx rp st) = BlockCall reason"
proof -
  have "evaluatePolicies env ctx rp st = (DecidedBy ''user-configured-ask'' (AskUser None NoResolver), st)"
    using assms by (auto simp: asked_by_rule gitMutationGate_def userConfiguredAsk_def)
  moreover have "settle_scope env ctx response st = (response, st)" using assms(8) by (simp add: settle_scope_def)
  ultimately show ?thesis
    using assms(6-8) by (simp add: beforeToolCall_def permissionPolicyResolutionToPrepare_def requestToolApproval_def settle_no_resolver)
qed

section \<open>Examples\<close>

text \<open>An interactive agent without hooks and guardian, a Bash call with one segment, and answers.\<close>

definition example_env :: agent_env where
  "example_env = \<lparr>ev_isSub = False, ev_isCoordinatorWorker = False, ev_teammate = None, ev_hasMailbox = False, ev_interactive = True,
     ev_swarmActive = False, ev_cwd = ''/w'', ev_additionalDirs = [], ev_pathClass = Posix, ev_gitMutation = None, ev_guardianEnabled = False,
     ev_brandHome = True, ev_configReadable = True, ev_configWritable = True, ev_glob = (\<lambda>v p. v = p), ev_relative = (\<lambda>a b. b),
     ev_pathe = \<lparr>pt_normalize = id, pt_isAbsolute = (\<lambda>p. startsWith p ''/''), pt_join = (\<lambda>a b. a @ ''/'' @ b), pt_dirname = id, pt_basename = id\<rparr>,
     ev_kaos = \<lparr>ks_stat = (\<lambda>_. None), ks_readText = (\<lambda>_. None)\<rparr>\<rparr>"

definition example_match :: "string \<Rightarrow> rule_execution" where
  "example_match cmd = \<lparr>ex_ruleToolName = None, ex_ruleMatch = Some ([cmd], \<lambda>p subject d. p = subject), ex_matchesRule = None\<rparr>"

definition example_call :: "string \<Rightarrow> string \<Rightarrow> git_class option \<Rightarrow> call_context" where
  "example_call tool cmd c = \<lparr>cc_toolName = tool, cc_toolCallId = ''t1'', cc_toolCalls = [tool], cc_turnId = ''1'', cc_turnNumber = 1, cc_args = None,
     cc_parsedArguments = None, cc_match = example_match cmd, cc_accesses = None, cc_display = None, cc_description = Some (''Running: '' @ cmd),
     cc_approvalRule = tool @ ''('' @ cmd @ '')'', cc_approvalRules = Some [tool @ ''('' @ cmd @ '')''], cc_gitClasses = Some [c]\<rparr>"

definition example_state :: "perm_rule list \<Rightarrow> perm_mode \<Rightarrow> agent_state" where
  "example_state rules md = \<lparr>as_managers = [\<lparr>pm_rules = [], pm_modeOverride = None, pm_grants = []\<rparr>, \<lparr>pm_rules = rules, pm_modeOverride = Some md, pm_grants = []\<rparr>],
     as_planActive = False, as_planFile = None,
     as_breaker = new_breaker \<lparr>bl_maxConsecutiveDenials = 3, bl_maxWindowDenials = 10, bl_windowSize = 50\<rparr>,
     as_lastTurnId = None, as_userConfig = [], as_records = []\<rparr>"

definition example_answer :: "approval_decision \<Rightarrow> approval_scope option \<Rightarrow> approval_response" where
  "example_answer d sc = \<lparr>ar_decision = d, ar_scope = sc, ar_feedback = None, ar_selectedLabel = None, ar_mode = None\<rparr>"

definition example_replies :: "hook_result list \<Rightarrow> approval_response \<Rightarrow> replies" where
  "example_replies hooks answer = \<lparr>rp_hooks = hooks, rp_aborted = False, rp_review = ReviewAllow, rp_approval = Inr answer\<rparr>"

definition example_rule :: "rule_decision \<Rightarrow> string \<Rightarrow> perm_rule" where
  "example_rule d p = \<lparr>rl_decision = d, rl_scope = UserScope, rl_pattern = p, rl_reason = None\<rparr>"

lemmas example_defs = example_env_def example_match_def example_call_def example_state_def example_answer_def example_replies_def example_rule_def

lemma pattern_rm: "parsePattern ''Bash(rm x)'' = Inr (''Bash'', Some ''rm x'')"
  by (simp add: parsePattern_def trim_def is_space_def endsWith_def)

lemma quiet_hooks: "preToolCallHook (example_replies [] answer) = Undecided"
  by (simp add: preToolCallHook_def example_replies_def)

lemma rm_matches: "matchPermissionRule (ev_glob example_env) (example_rule d ''Bash(rm x)'') ''Bash'' (example_match ''rm x'') \<noteq> None"
  by (simp add: matchPermissionRule_def pattern_rm names_tool_def ruleNamespaceOf_def example_defs Let_def)

theorem deny_rule_blocks_witness:
  "\<exists>d. beforeToolCall example_env (example_call ''Bash'' ''rm x'' None) (example_replies [] (example_answer Approved None))
     (example_state [example_rule Deny ''Bash(rm x)''] YoloMode) =
     (BlockCall (BlockedBy d), example_state [example_rule Deny ''Bash(rm x)''] YoloMode)"
proof (rule deny_rule_blocks)
  show "\<lparr>pm_rules = [example_rule Deny ''Bash(rm x)''], pm_modeOverride = Some YoloMode, pm_grants = []\<rparr>
      \<in> set (as_managers (example_state [example_rule Deny ''Bash(rm x)''] YoloMode))" by (simp add: example_state_def)
  show "matchPermissionRule (ev_glob example_env) (example_rule Deny ''Bash(rm x)'') (cc_toolName (example_call ''Bash'' ''rm x'' None))
      (cc_match (example_call ''Bash'' ''rm x'' None)) \<noteq> None" using rm_matches by (simp add: example_call_def)
qed (simp_all add: quiet_hooks example_rule_def)

theorem plan_mode_guards_witness:
  "\<exists>d. beforeToolCall example_env ((example_call ''Write'' [] None)\<lparr>cc_accesses := Some [FileAccess WriteOp ''/w/a'' False]\<rparr>)
     (example_replies [] (example_answer Approved None)) ((example_state [] AutoMode)\<lparr>as_planActive := True, as_planFile := Some ''/p/plan.md''\<rparr>) =
     (BlockCall (BlockedBy d), (example_state [] AutoMode)\<lparr>as_planActive := True, as_planFile := Some ''/p/plan.md''\<rparr>)"
  by (rule plan_mode_guards) (simp_all add: quiet_hooks example_call_def writeFileAccesses_def fileAccesses_def)

text \<open>The hook turns \<open>ls\<close> into \<open>rm x\<close>, which a rule denies.\<close>

theorem hook_rewrite_bypasses_rules_witness:
  "authorizeToolCallPreparation False (\<lambda>_. True) (\<lambda>u. Some (example_call ''Bash'' u None)) ''ls'' (example_call ''Bash'' ''ls'' None)
     (fst (beforeToolCall example_env (example_call ''Bash'' ''ls'' None)
        (example_replies [\<lparr>hr_block = False, hr_reason = None, hr_ask = False, hr_updatedInput = Some ''rm x''\<rparr>] (example_answer Rejected None))
        (example_state [example_rule Deny ''Bash(rm x)''] ManualMode))) = Authorized ''rm x'' (example_call ''Bash'' ''rm x'' None)
   \<and> matchPermissionRule (ev_glob example_env) (example_rule Deny ''Bash(rm x)'') ''Bash'' (cc_match (example_call ''Bash'' ''rm x'' None)) \<noteq> None"
proof (rule conjI)
  let ?hook = "\<lparr>hr_block = False, hr_reason = None, hr_ask = False, hr_updatedInput = Some ''rm x''\<rparr>"
  show "authorizeToolCallPreparation False (\<lambda>_. True) (\<lambda>u. Some (example_call ''Bash'' u None)) ''ls'' (example_call ''Bash'' ''ls'' None)
     (fst (beforeToolCall example_env (example_call ''Bash'' ''ls'' None) (example_replies [?hook] (example_answer Rejected None))
        (example_state [example_rule Deny ''Bash(rm x)''] ManualMode))) = Authorized ''rm x'' (example_call ''Bash'' ''rm x'' None)"
    by (rule hook_rewrite_bypasses_rules [where h = ?hook and u = "''rm x''"]) (simp_all add: example_replies_def)
  show "matchPermissionRule (ev_glob example_env) (example_rule Deny ''Bash(rm x)'') ''Bash'' (cc_match (example_call ''Bash'' ''rm x'' None)) \<noteq> None"
    using rm_matches by (simp add: example_call_def)
qed

text \<open>The hook asks about \<open>rm x\<close>, which a rule denies, and nobody is there.\<close>

theorem headless_hook_ask_runs_witness:
  "fst (beforeToolCall (example_env\<lparr>ev_interactive := False\<rparr>) (example_call ''Bash'' ''rm x'' None)
     (example_replies [\<lparr>hr_block = False, hr_reason = None, hr_ask = True, hr_updatedInput = None\<rparr>] (example_answer Rejected None))
     (example_state [example_rule Deny ''Bash(rm x)''] ManualMode)) = RunCall
   \<and> matchPermissionRule (ev_glob example_env) (example_rule Deny ''Bash(rm x)'') ''Bash'' (cc_match (example_call ''Bash'' ''rm x'' None)) \<noteq> None"
proof (rule conjI)
  let ?hook = "\<lparr>hr_block = False, hr_reason = None, hr_ask = True, hr_updatedInput = None\<rparr>"
  show "fst (beforeToolCall (example_env\<lparr>ev_interactive := False\<rparr>) (example_call ''Bash'' ''rm x'' None)
     (example_replies [?hook] (example_answer Rejected None)) (example_state [example_rule Deny ''Bash(rm x)''] ManualMode)) = RunCall"
    by (rule headless_hook_ask_runs [where h = ?hook]) (simp_all add: example_replies_def example_env_def teammateBridgeTeam_def)
  show "matchPermissionRule (ev_glob example_env) (example_rule Deny ''Bash(rm x)'') ''Bash'' (cc_match (example_call ''Bash'' ''rm x'' None)) \<noteq> None"
    using rm_matches by (simp add: example_call_def)
qed

lemma example_early: "early_decision example_env (example_call ''Bash'' cmd c) (example_state [example_rule d p] md) = None" if "d \<noteq> Deny"
  using that unfolding early_decision_def first_decision_none
  by (simp add: early_policies_def agentSwarmExclusiveDeny_def coordinatorWorkerSpawnDeny_def teammateSpawnDeny_def worktreeTeammateDeny_def
      autoModeAskUserQuestionDeny_def planModeGuardDeny_def userConfiguredDeny_def firstMatchingRule_def userConfiguredRules_def effectiveRules_def example_defs)

lemma example_session: "sessionApprovalHistory example_env (example_call ''Bash'' cmd c) (example_state rules md) = None"
  by (simp add: sessionApprovalHistory_def fully_covered_def collectCoveredSubjects_def sessionApprovalRules_def sessionApprovalRulePatterns_def
      jm_keys_def example_defs)

lemma example_mode: "perm_mode_of (example_state rules md) = md"
  by (simp add: perm_mode_of_def example_state_def)

lemma example_asked:
  "evaluatePolicies example_env (example_call ''Bash'' ''rm x'' None) (example_replies [] answer) (example_state [example_rule Ask ''Bash(rm x)''] ManualMode)
     = (DecidedBy ''user-configured-ask'' (AskUser None NoResolver), example_state [example_rule Ask ''Bash(rm x)''] ManualMode)"
proof -
  have "firstMatchingRule example_env (example_call ''Bash'' ''rm x'' None) (example_state [example_rule Ask ''Bash(rm x)''] ManualMode) Ask \<noteq> None"
    using rm_matches [of Ask]
    by (auto simp: firstMatchingRule_def userConfiguredRules_def effectiveRules_def USER_CONFIGURED_SCOPES_def example_state_def example_call_def example_rule_def)
  moreover have "representativeMutationClass (cc_gitClasses (example_call ''Bash'' ''rm x'' None)) = None"
    by (simp add: representativeMutationClass_def example_call_def)
  then have "gitMutationGate example_env (example_call ''Bash'' ''rm x'' None) st = None" for st
    by (simp add: gitMutationGate_def Let_def)
  ultimately show ?thesis
    by (auto simp: asked_by_rule quiet_hooks example_early example_session example_mode userConfiguredAsk_def split: option.split)
qed

lemma example_covers: "covers_itself example_env (example_call ''Bash'' ''rm x'' None)"
proof -
  have "\<exists>m. collectCoveredSubjects (ev_glob example_env) [session_rule ''Bash(rm x)''] ''Bash'' (example_match ''rm x'') = Some (True, m)"
    by (subst collect_covers_iff [of _ "[''rm x'']" "\<lambda>p subject d. p = subject"])
      (simp_all add: example_match_def rule_covers_def session_rule_def pattern_rm names_tool_def ruleNamespaceOf_def example_env_def)
  then show ?thesis by (auto simp: covers_itself_def fully_covered_def always_patterns_def example_call_def example_match_def)
qed

theorem session_approval_remembered_witness:
  "let ctx = example_call ''Bash'' ''rm x'' None; rp = example_replies [] (example_answer Approved (Some SessionScope));
       (result, st2) = beforeToolCall example_env ctx rp (example_state [example_rule Ask ''Bash(rm x)''] ManualMode)
   in result = RunCall \<and> (beforeToolCall example_env ctx rp st2 = (RunCall, st2) \<or> (\<exists>d. beforeToolCall example_env ctx rp st2 = (BlockCall (BlockedBy d), st2)))"
proof -
  let ?ctx = "example_call ''Bash'' ''rm x'' None" and ?rp = "example_replies [] (example_answer Approved (Some SessionScope))"
    and ?st = "example_state [example_rule Ask ''Bash(rm x)''] ManualMode"
  obtain result st2 where b: "beforeToolCall example_env ?ctx ?rp ?st = (result, st2)" by fastforce
  have "result = RunCall \<and> (beforeToolCall example_env ?ctx ?rp st2 = (RunCall, st2) \<or> (\<exists>d. beforeToolCall example_env ?ctx ?rp st2 = (BlockCall (BlockedBy d), st2)))"
    by (rule session_approval_remembered [OF example_asked _ _ _ _ _ example_covers _ _ quiet_hooks b, where response = "example_answer Approved (Some SessionScope)"])
      (simp_all add: example_env_def example_replies_def example_answer_def example_state_def)
  then show ?thesis by (simp add: b Let_def)
qed

theorem permanent_approval_asked_again_witness:
  "let ctx = example_call ''Bash'' ''rm x'' None; rp = example_replies [] (example_answer Approved (Some AlwaysScope));
       (result, st2) = beforeToolCall example_env ctx rp (example_state [example_rule Ask ''Bash(rm x)''] ManualMode)
   in result = RunCall \<and> evaluatePolicies example_env ctx rp st2 = (DecidedBy ''user-configured-ask'' (AskUser None NoResolver), st2)"
proof -
  let ?ctx = "example_call ''Bash'' ''rm x'' None" and ?rp = "example_replies [] (example_answer Approved (Some AlwaysScope))"
    and ?st = "example_state [example_rule Ask ''Bash(rm x)''] ManualMode"
  obtain result st2 where b: "beforeToolCall example_env ?ctx ?rp ?st = (result, st2)" by fastforce
  have "result = RunCall \<and> (\<forall>p \<in> set (always_patterns ?ctx). \<exists>rule \<in> set (as_userConfig st2). rl_decision rule = Allow \<and> rl_pattern rule = p)
      \<and> evaluatePolicies example_env ?ctx ?rp st2 = (DecidedBy ''user-configured-ask'' (AskUser None NoResolver), st2)"
    by (rule permanent_approval_asked_again [OF example_asked _ _ _ _ _ _ _ b, where response = "example_answer Approved (Some AlwaysScope)"])
      (simp_all add: example_env_def example_replies_def example_answer_def)
  then show ?thesis by (simp add: b Let_def)
qed

text \<open>A headless agent, a pushed branch and no rule: the call does not run.\<close>

theorem git_gate_fails_closed_witness:
  "fst (beforeToolCall (example_env\<lparr>ev_interactive := False\<rparr>) (example_call ''Bash'' ''git push'' (Some SharedRemote))
     (example_replies [] (example_answer Approved None)) (example_state [example_rule Ask ''Bash(rm x)''] AutoMode)) \<noteq> RunCall"
proof
  let ?env = "example_env\<lparr>ev_interactive := False\<rparr>" and ?ctx = "example_call ''Bash'' ''git push'' (Some SharedRemote)"
    and ?st = "example_state [example_rule Ask ''Bash(rm x)''] AutoMode"
  assume run: "fst (beforeToolCall ?env ?ctx (example_replies [] (example_answer Approved None)) ?st) = RunCall"
  have "granted ?env ?ctx ?st \<or> ev_interactive ?env \<and> ev_gitMutation ?env \<noteq> Some GitDeny \<and>
      (\<exists>response. rp_approval (example_replies [] (example_answer Approved None)) = Inr response \<and> ar_decision response = Approved)"
    by (rule git_gate_fails_closed [OF quiet_hooks _ _ _ _ _ run, where classes = "[Some SharedRemote]" and c = SharedRemote])
      (simp_all add: example_mode example_env_def example_call_def)
  moreover have "\<not> granted ?env ?ctx ?st"
    using example_session [of "''git push''" "Some SharedRemote"]
    by (simp add: granted_def coveredByConfiguredAllow_def sessionApprovalHistory_def fully_covered_def collectCoveredSubjects_def sessionApprovalRules_def
        sessionApprovalRulePatterns_def userConfiguredRules_def effectiveRules_def jm_keys_def example_defs)
  ultimately show False by simp
qed

text \<open>The reviewer fails and nobody is there: the call does not run.\<close>

theorem auto_mode_is_reviewed_witness:
  "fst (beforeToolCall (example_env\<lparr>ev_interactive := False, ev_guardianEnabled := True\<rparr>) (example_call ''Bash'' ''ls'' None)
     ((example_replies [] (example_answer Approved None))\<lparr>rp_review := ReviewFailed ReviewTimeout\<rparr>) (example_state [example_rule Ask ''Bash(rm x)''] AutoMode)) \<noteq> RunCall"
proof
  let ?env = "example_env\<lparr>ev_interactive := False, ev_guardianEnabled := True\<rparr>" and ?ctx = "example_call ''Bash'' ''ls'' None"
    and ?st = "example_state [example_rule Ask ''Bash(rm x)''] AutoMode"
    and ?rp = "(example_replies [] (example_answer Approved None))\<lparr>rp_review := ReviewFailed ReviewTimeout\<rparr>"
  assume run: "fst (beforeToolCall ?env ?ctx ?rp ?st) = RunCall"
  have "granted ?env ?ctx ?st \<or> rp_review ?rp = ReviewAllow \<and> \<not> tripped (as_breaker (pruneBreakerFor (cc_turnId ?ctx) ?st)) (cc_turnId ?ctx)
      \<or> ev_interactive ?env \<and> (\<exists>response. rp_approval ?rp = Inr response \<and> ar_decision response = Approved)"
    by (rule auto_mode_is_reviewed [OF _ _ _ _ _ run])
      (simp_all add: preToolCallHook_def example_mode example_replies_def example_call_def DEFAULT_APPROVE_TOOLS_def SESSION_TRANSPORT_TOOLS_def)
  moreover have "\<not> granted ?env ?ctx ?st"
    by (simp add: granted_def coveredByConfiguredAllow_def sessionApprovalHistory_def fully_covered_def collectCoveredSubjects_def sessionApprovalRules_def
        sessionApprovalRulePatterns_def userConfiguredRules_def effectiveRules_def jm_keys_def example_defs)
  ultimately show False by simp
qed

theorem yolo_mode_asks_witness:
  "\<exists>reason. fst (beforeToolCall example_env (example_call ''Bash'' ''rm x'' None) (example_replies [] (example_answer Rejected None))
     (example_state [example_rule Ask ''Bash(rm x)''] YoloMode)) = BlockCall reason"
proof (rule yolo_mode_asks [OF example_mode quiet_hooks example_early example_session, where response = "example_answer Rejected None"])
  show "firstMatchingRule example_env (example_call ''Bash'' ''rm x'' None) (example_state [example_rule Ask ''Bash(rm x)''] YoloMode) Ask \<noteq> None"
    using rm_matches [of Ask]
    by (auto simp: firstMatchingRule_def userConfiguredRules_def effectiveRules_def USER_CONFIGURED_SCOPES_def example_state_def example_call_def example_rule_def)
qed (simp_all add: example_env_def example_replies_def example_answer_def)

end
