(* ===== verification/Perm_Replay.thy ===== *)
theory Perm_Replay
  imports Perm_Safety
begin

text \<open>
  Whole runs of the permission manager. Every operation is a sequence of edits of the chain of managers with the records it logs, the
  inductive relation \<open>edits\<close>; what holds of all runs is proved by rule induction over it: an agent changes
  no parent but by permanent rules at the root, and replaying the log gives the grants and the mode back.
\<close>

section \<open>Edits\<close>

definition session_grants_of :: "approval_record \<Rightarrow> grant_surface \<Rightarrow> manager_chain \<Rightarrow> manager_chain" where
  "session_grants_of rc surface ch =
     (if ar_decision (rc_result rc) \<noteq> Approved \<or> ar_scope (rc_result rc) \<noteq> Some SessionScope then ch
      else case granted_patterns rc of
          None \<Rightarrow> ch
        | Some patterns \<Rightarrow> (case ch of [] \<Rightarrow> [] | pm # parents \<Rightarrow> foldl (add_grant rc surface) pm patterns # parents))"

lemma record_is_edit:
  "recordApprovalResult rc sf st = (log_record (RecApproval rc) st)\<lparr>as_managers :=
     session_grants_of rc (case sf of Some s \<Rightarrow> s | None \<Rightarrow> deriveSessionGrantSurface rc) (as_managers st)\<rparr>"
  by (auto simp: recordApprovalResult_def session_grants_of_def map_self_def log_record_def Let_def split: option.split list.split)

fun neutral :: "perm_record \<Rightarrow> bool" where
  "neutral (RecSetMode _) = False"
| "neutral (RecApproval _) = False"
| "neutral _ = True"

text \<open>With \<open>derived\<close> the surface of every grant is the one that a replay derives from the record.\<close>

inductive edits :: "bool \<Rightarrow> manager_chain \<Rightarrow> perm_record list \<Rightarrow> manager_chain \<Rightarrow> bool" for derived where
  edit_none: "edits derived ch [] ch"
| edit_neutral: "edits derived ch rs ch' \<Longrightarrow> neutral r \<Longrightarrow> edits derived ch (rs @ [r]) ch'"
| edit_mode: "edits derived ch rs (pm # parents) \<Longrightarrow> edits derived ch (rs @ [RecSetMode md]) (pm\<lparr>pm_modeOverride := Some md\<rparr> # parents)"
| edit_approval: "edits derived ch rs ch' \<Longrightarrow> (derived \<longrightarrow> sf = deriveSessionGrantSurface rc) \<Longrightarrow> edits derived ch (rs @ [RecApproval rc]) (session_grants_of rc sf ch')"
| edit_adopt: "edits derived ch rs ch' \<Longrightarrow> edits derived ch rs (adoptAlwaysApprovalRules patterns ch')"

lemma edits_trans: "edits d b rs' c \<Longrightarrow> edits d a rs b \<Longrightarrow> edits d a (rs @ rs') c"
proof (induction rule: edits.induct)
  case (edit_neutral ch rs' ch' r)
  then show ?case using edits.edit_neutral [of d a "rs @ rs'" ch' r] by simp
next
  case (edit_mode ch rs' pm parents md)
  then show ?case using edits.edit_mode [of d a "rs @ rs'" pm parents md] by simp
next
  case (edit_approval ch rs' ch' sf rc)
  then show ?case using edits.edit_approval [of d a "rs @ rs'" ch' sf rc] by simp
next
  case (edit_adopt ch rs' ch' patterns)
  then show ?case by (simp add: edits.edit_adopt)
qed simp

definition logged :: "bool \<Rightarrow> agent_state \<Rightarrow> agent_state \<Rightarrow> bool" where
  "logged derived st st' \<longleftrightarrow> (\<exists>rs. as_records st' = as_records st @ rs \<and> edits derived (as_managers st) rs (as_managers st')) \<and> as_managers st' \<noteq> []"

lemma logged_trans: "logged d a b \<Longrightarrow> logged d b c \<Longrightarrow> logged d a c"
  unfolding logged_def by (metis append.assoc edits_trans)

lemma logged_same: "as_records st' = as_records st \<Longrightarrow> as_managers st' = as_managers st \<Longrightarrow> as_managers st \<noteq> [] \<Longrightarrow> logged d st st'"
  unfolding logged_def using edit_none by auto

lemma logged_neutral: "neutral r \<Longrightarrow> as_managers st \<noteq> [] \<Longrightarrow> logged d st (log_record r st)"
  unfolding logged_def log_record_def using edit_neutral [OF edit_none] by auto

lemma logged_mode: "as_managers st \<noteq> [] \<Longrightarrow> logged d st (setMode md st)"
  unfolding logged_def setMode_def map_self_def log_record_def
  using edit_mode [OF edit_none, of d _ _ md] by (cases "as_managers st") auto

lemma session_grants_nonempty: "ch \<noteq> [] \<Longrightarrow> session_grants_of rc sf ch \<noteq> []"
  by (auto simp: session_grants_of_def split: option.split list.split)

lemma logged_record:
  "as_managers st \<noteq> [] \<Longrightarrow> (d \<longrightarrow> sf = None \<or> sf = Some (deriveSessionGrantSurface rc)) \<Longrightarrow> logged d st (recordApprovalResult rc sf st)"
  unfolding logged_def record_is_edit log_record_def
  using edit_approval [OF edit_none, of d "case sf of Some s \<Rightarrow> s | None \<Rightarrow> deriveSessionGrantSurface rc" rc "as_managers st"] session_grants_nonempty
  by (auto split: option.splits)

lemma logged_adopt:
  "as_managers st \<noteq> [] \<Longrightarrow> logged d st (st\<lparr>as_userConfig := cfg, as_managers := adoptAlwaysApprovalRules ps (as_managers st)\<rparr>)"
  unfolding logged_def using edit_adopt [OF edit_none, of d "as_managers st" ps] by (auto simp: adoptAlwaysApprovalRules_def)

section \<open>Operations are logged d edits\<close>

lemma guardian_logged: "as_managers st \<noteq> [] \<Longrightarrow> logged d st (snd (guardianReview env ctx rp st))"
proof -
  assume m: "as_managers st \<noteq> []"
  have p: "logged d st (pruneBreakerFor t st)" for t
    using m by (intro logged_same) (simp_all add: pruneBreakerFor_def)
  have br: "logged d s (s\<lparr>as_breaker := b\<rparr>)" if "as_managers s \<noteq> []" for s b using that by (intro logged_same) simp_all
  have lg: "as_managers (log_record r s) = as_managers s" for r s by (simp add: log_record_def)
  have a: "logged d s (snd (applyAssessment ctx v s))" if "as_managers s \<noteq> []" for s v
    using that logged_neutral br
    by (auto simp: applyAssessment_def Let_def lg split: option.split prod.split intro!: logged_trans [OF _ br] logged_neutral logged_trans [OF logged_trans [OF _ br] logged_neutral])
  have f: "logged d s (snd (applyFailure env ctx k s))" if "as_managers s \<noteq> []" for s k
    using that by (auto simp: applyFailure_def Let_def intro!: logged_trans [OF br logged_neutral])
  have pm: "as_managers (pruneBreakerFor t st) \<noteq> []" for t using m by (simp add: pruneBreakerFor_def)
  show ?thesis
    using m logged_same [of st st] logged_trans [OF p a] logged_trans [OF p f] p pm
    by (auto simp: guardianReview_def Let_def split: review_result.split)
qed

lemma evaluate_logged:
  assumes "\<forall>(n, p) \<in> set ps. \<forall>env ctx rp st. as_managers st \<noteq> [] \<longrightarrow> logged d st (snd (p env ctx rp st))" "as_managers st \<noteq> []"
  shows "logged d st (snd (evaluate_in_order ps env ctx rp st))"
  using assms
proof (induction ps arbitrary: st)
  case Nil
  then show ?case by (simp add: logged_same)
next
  case (Cons np ps)
  obtain n p where np: "np = (n, p)" by (cases np)
  obtain dec st' where p: "p env ctx rp st = (dec, st')" by fastforce
  have "logged d st (snd (p env ctx rp st))" using Cons.prems by (simp add: np)
  then have st': "logged d st st'" by (simp add: p)
  then have "logged d st' (snd (evaluate_in_order ps env ctx rp st'))" using Cons by (auto simp: logged_def)
  then show ?case
    using st' logged_trans by (auto simp: np p evaluate_in_order.simps(2) split: policy_result.split)
qed

lemma evaluatePolicies_logged: "as_managers st \<noteq> [] \<Longrightarrow> logged d st (snd (evaluatePolicies env ctx rp st))"
proof -
  assume "as_managers st \<noteq> []"
  moreover have "\<forall>(n, p) \<in> set createPermissionDecisionPolicies. \<forall>env ctx rp st. as_managers st \<noteq> [] \<longrightarrow> logged d st (snd (p env ctx rp st))"
    by (auto simp: chain_parts pure_policy_def guardian_logged logged_same)
  ultimately show ?thesis unfolding evaluatePolicies_def by (rule evaluate_logged [rotated])
qed

text \<open>Only the git gate words its question itself.\<close>

definition gate_worded :: "string \<Rightarrow> string option \<Rightarrow> bool" where
  "gate_worded n a \<longleftrightarrow> (if n = ''git-mutation-gate'' then \<exists>x. a = Some (GIT_MUTATION_GATE_APPROVAL_ACTION_PREFIX @ x) else a = None)"

lemma late_asks: "(n, f) \<in> set late_policies \<Longrightarrow> f env ctx st = Some (AskUser a res) \<Longrightarrow> n \<noteq> ''git-mutation-gate'' \<and> a = None"
  by (auto simp: late_policies_def userConfiguredAsk_def userConfiguredAllow_def exitPlanModeReviewAsk_def goalStartReviewAsk_def planModeToolApprove_def
      worktreeToolApprove_def sensitiveFileAccessAsk_def gitControlPathAccessAsk_def yoloModeApprove_def swarmModeAgentSwarmApprove_def
      defaultToolApprove_def gitCwdWriteApprove_def fallbackAsk_def split: option.splits if_splits tool_display.splits bool.splits)

lemma guardian_asks: "guardianReview env ctx rp st = (Decided (AskUser a res), st') \<Longrightarrow> a = None"
  by (auto simp: guardianReview_def applyAssessment_def applyFailure_def Let_def split: if_splits review_result.splits prod.splits)

lemma gate_asks: "gitMutationGate env ctx st = Some (AskUser a res) \<Longrightarrow> gate_worded ''git-mutation-gate'' a"
  by (auto simp: gitMutationGate_def gate_worded_def Let_def split: if_splits option.splits)

lemma last_asks:
  assumes "last_decision env ctx rp st = (DecidedBy n (AskUser a res), st')"
  shows "gate_worded n a"
proof -
  obtain p st1 where p: "guardianReview env ctx rp st = (p, st1)" by fastforce
  show ?thesis
  proof (cases p)
    case Throws
    then show ?thesis using assms by (simp add: last_decision_def p)
  next
    case (Decided r)
    then show ?thesis using assms guardian_asks p by (auto simp: last_decision_def gate_worded_def)
  next
    case Undecided
    then have "first_decision late_policies env ctx st1 = Some (n, AskUser a res)"
      using assms by (auto simp: last_decision_def p autoModeApprove_def split: option.splits if_splits)
    then show ?thesis using first_decision_mem late_asks by (fastforce simp: gate_worded_def)
  qed
qed

lemma evaluation_asks:
  assumes "evaluatePolicies env ctx rp st = (DecidedBy n (AskUser a res), st')"
  shows "gate_worded n a"
proof (cases "preToolCallHook rp = Undecided")
  case False
  then have "n = ''pre-tool-call-hook''" "preToolCallHook rp = Decided (AskUser a res)"
    using assms by (cases "preToolCallHook rp"; simp add: evaluatePolicies_def chain_parts evaluate_in_order.simps(2))+
  then show ?thesis by (auto simp: gate_worded_def preToolCallHook_def Let_def split: if_splits option.splits)
next
  case True
  show ?thesis
  proof (cases "early_decision env ctx st")
    case (Some nr)
    then show ?thesis using assms early_is_denial by (cases nr) (fastforce simp: walk_chain [OF True])
  next
    case None
    then show ?thesis
      using assms gate_asks last_asks session_approves by (fastforce simp: walk_chain [OF True] split: option.splits)
  qed
qed

text \<open>Descriptions of calls do not imitate the wording of the gate.\<close>

definition honest_call :: "call_context \<Rightarrow> bool" where
  "honest_call ctx \<longleftrightarrow> (case cc_description ctx of None \<Rightarrow> True | Some d \<Rightarrow> \<not> startsWith d GIT_MUTATION_GATE_APPROVAL_ACTION_PREFIX)"

lemma surface_derivable:
  assumes "gate_worded n a" "honest_call ctx"
  shows "(if n = ''git-mutation-gate'' then GitMutationGate else ToolApproval)
    = deriveSessionGrantSurface (approval_record_of ctx (ask_action ctx a) response)"
proof (cases "n = ''git-mutation-gate''")
  case True
  then show ?thesis
    using assms(1) by (auto simp: gate_worded_def deriveSessionGrantSurface_def approval_record_of_def ask_action_def Let_def)
next
  case False
  then have "\<not> startsWith (ask_action ctx a) GIT_MUTATION_GATE_APPROVAL_ACTION_PREFIX"
    using assms by (auto simp: gate_worded_def honest_call_def ask_action_def GIT_MUTATION_GATE_APPROVAL_ACTION_PREFIX_def startsWith_def split: option.splits)
  then show ?thesis using False by (simp add: deriveSessionGrantSurface_def approval_record_of_def Let_def)
qed

lemma plan_exit_logged: "as_managers st \<noteq> [] \<Longrightarrow> logged d st (planMode_exit st)"
  unfolding logged_def planMode_exit_def log_record_def using edit_neutral [OF edit_none, of RecPlanExit d] by auto

lemma plan_exit_managers [simp]: "as_managers (planMode_exit st) = as_managers st"
  by (simp add: planMode_exit_def log_record_def)

lemma logged_nonempty: "logged d st st' \<Longrightarrow> as_managers st' \<noteq> []"
  by (simp add: logged_def)

lemma resolver_logged: "as_managers st \<noteq> [] \<Longrightarrow> logged d st (snd (resolveApproval resolve response st))"
proof -
  assume m: "as_managers st \<noteq> []"
  note same = logged_same [OF refl refl m]
  note exit = plan_exit_logged [OF m]
  have em: "logged d st (setMode md (planMode_exit st))" for md using logged_trans [OF exit logged_mode] m by simp
  have plan: "logged d st (snd (exitPlanModeApprovalResult review response st))" for review
    using same exit em by (auto simp: exitPlanModeApprovalResult_def rejectedExitPlanModeApprovalResult_def Let_def split: option.split)
  have goal: "logged d st (resolveGoalStart response st)"
    using same logged_mode [OF m] by (auto simp: resolveGoalStart_def split: option.split)
  show ?thesis
    using same plan goal by (auto simp: resolveApproval_def split: resolver.split prod.split) (metis snd_conv)
qed

lemma settle_logged:
  assumes "as_managers st \<noteq> []" "gate_worded n a" "d \<longrightarrow> honest_call ctx"
  shows "logged d st (snd (settle_approval env ctx a resolve n response st))"
proof -
  obtain response' st1 where s: "settle_scope env ctx response st = (response', st1)" by fastforce
  have "logged d st st1"
    using s assms(1) logged_adopt logged_same
    by (auto simp: settle_scope_def tryPersistAlwaysApproval_def split: if_splits prod.splits option.splits)
  define st2 where "st2 = recordApprovalResult (approval_record_of ctx (ask_action ctx a) response')
     (Some (if n = ''git-mutation-gate'' then GitMutationGate else ToolApproval)) st1"
  have "logged d st1 st2"
    unfolding st2_def using logged_nonempty [OF \<open>logged d st st1\<close>] surface_derivable [OF assms(2)] assms(3) by (intro logged_record) simp_all
  then have l2: "logged d st st2" using logged_trans \<open>logged d st st1\<close> by blast
  then have "logged d st (snd (resolveApproval resolve response' st2))" using logged_trans resolver_logged logged_nonempty by blast
  moreover have "snd (settle_approval env ctx a resolve n response st) = snd (resolveApproval resolve response' st2)"
    unfolding settle_approval_def s st2_def by (simp add: Let_def split: prod.split option.split)
  ultimately show ?thesis by simp
qed

lemma before_logged:
  assumes "as_managers st \<noteq> []" "d \<longrightarrow> honest_call ctx"
  shows "logged d st (snd (beforeToolCall env ctx rp st))"
proof -
  obtain e st1 where e: "evaluatePolicies env ctx rp st = (e, st1)" by fastforce
  then have l: "logged d st st1" using evaluatePolicies_logged [OF assms(1), of d env ctx rp] by simp
  show ?thesis
  proof (cases e)
    case (DecidedBy n r)
    have "logged d st1 (snd (permissionPolicyResolutionToPrepare env ctx rp r n st1))"
    proof (cases r)
      case (AskUser a resolve)
      then have "gate_worded n a" using evaluation_asks e DecidedBy by blast
      from settle_logged [OF logged_nonempty [OF l] this assms(2)] show ?thesis
        using AskUser logged_same [OF refl refl logged_nonempty [OF l]]
        by (auto simp: permissionPolicyResolutionToPrepare_def requestToolApproval_def split: sum.split)
    qed (use logged_same [OF refl refl logged_nonempty [OF l]] in \<open>simp_all add: permissionPolicyResolutionToPrepare_def\<close>)
    then show ?thesis using l logged_trans e DecidedBy by (auto simp: beforeToolCall_def)
  qed (use l e in \<open>simp_all add: beforeToolCall_def\<close>)
qed

section \<open>Runs\<close>

datatype perm_op = ToolCallOp agent_env call_context replies | SetModeOp perm_mode | EscalateOp agent_env escalation_info replies

fun perm_step :: "agent_state \<Rightarrow> perm_op \<Rightarrow> agent_state" where
  "perm_step st (ToolCallOp env ctx rp) = snd (beforeToolCall env ctx rp st)"
| "perm_step st (SetModeOp md) = setMode md st"
| "perm_step st (EscalateOp env info rp) = snd (requestSandboxEscalation env info rp st)"

fun honest_op :: "perm_op \<Rightarrow> bool" where
  "honest_op (ToolCallOp env ctx rp) = honest_call ctx"
| "honest_op _ = True"

lemma escalate_logged: "as_managers st \<noteq> [] \<Longrightarrow> logged d st (snd (requestSandboxEscalation env info rp st))"
  by (auto simp: requestSandboxEscalation_def Let_def split: sum.split option.split intro: logged_same logged_record)

lemma step_logged: "as_managers st \<noteq> [] \<Longrightarrow> (d \<longrightarrow> honest_op op) \<Longrightarrow> logged d st (perm_step st op)"
  by (cases op) (simp_all add: before_logged logged_mode escalate_logged)

interpretation permission: guarded_machine perm_step "logged d st0" "\<lambda>op. d \<longrightarrow> honest_op op" for d st0
  by unfold_locales (rule logged_trans [OF _ step_logged], assumption, rule logged_nonempty, assumption+)

lemmas run_logged = permission.guarded_run_ok [OF logged_same [OF refl refl]]

section \<open>Replay\<close>

text \<open>What the log is to give back: the agent's own grants and mode.\<close>

definition own_state :: "manager_chain \<Rightarrow> ((string, session_grant) js_map \<times> perm_mode option) option" where
  "own_state ch = (case ch of [] \<Rightarrow> None | pm # _ \<Rightarrow> Some (pm_grants pm, pm_modeOverride pm))"

definition own_after :: "approval_record \<Rightarrow> grant_surface \<Rightarrow> (string, session_grant) js_map \<Rightarrow> (string, session_grant) js_map" where
  "own_after rc surface g =
     (if ar_decision (rc_result rc) \<noteq> Approved \<or> ar_scope (rc_result rc) \<noteq> Some SessionScope then g
      else case granted_patterns rc of
          None \<Rightarrow> g
        | Some patterns \<Rightarrow> foldl (\<lambda>g p. jm_set g p
            \<lparr>sg_pattern = p, sg_toolName = rc_toolName rc, sg_grantedAtTurnId = rc_turnId rc, sg_surface = surface\<rparr>) g patterns)"

lemma add_grants_own:
  "pm_grants (foldl (add_grant rc sf) pm ps) = foldl (\<lambda>g p. jm_set g p
     \<lparr>sg_pattern = p, sg_toolName = rc_toolName rc, sg_grantedAtTurnId = rc_turnId rc, sg_surface = sf\<rparr>) (pm_grants pm) ps"
  by (induction ps arbitrary: pm) (simp_all add: add_grant_def)

lemma own_state_grants:
  "own_state (session_grants_of rc sf ch) = map_option (\<lambda>(g, md). (own_after rc sf g, md)) (own_state ch)"
proof (cases ch)
  case Nil
  then show ?thesis by (simp add: own_state_def session_grants_of_def split: option.split)
next
  case (Cons pm parents)
  then show ?thesis
    using add_grants [of rc sf pm] by (simp add: own_state_def session_grants_of_def own_after_def add_grants_own split: option.split)
qed

lemma adopt_simps:
  "adoptAlwaysApprovalRules ps [] = []"
  "adoptAlwaysApprovalRules ps [pm] = [pm\<lparr>pm_rules := append_allow_rules (pm_rules pm) ps\<rparr>]"
  "adoptAlwaysApprovalRules ps (pm # q # rest) = pm # adoptAlwaysApprovalRules ps (q # rest)"
  by (simp_all add: adoptAlwaysApprovalRules_def)

lemma own_state_adopt: "own_state (adoptAlwaysApprovalRules ps ch) = own_state ch"
proof (cases ch)
  case (Cons pm rest)
  then show ?thesis by (cases rest) (simp_all add: own_state_def adopt_simps)
qed (simp add: adopt_simps)

lemma restore_neutral: "neutral r \<Longrightarrow> as_managers (restoreAgentRecord st r) = as_managers st"
  by (cases r) (simp_all add: restoreAgentRecord_def)

lemma restore_mode:
  "own_state (as_managers (restoreAgentRecord st (RecSetMode md))) = map_option (\<lambda>(g, _). (g, Some md)) (own_state (as_managers st))"
  by (cases "as_managers st") (simp_all add: restoreAgentRecord_def setMode_def map_self_def log_record_def own_state_def)

lemma restore_approval:
  "as_managers (restoreAgentRecord st (RecApproval rc)) = session_grants_of rc (deriveSessionGrantSurface rc) (as_managers st)"
  by (simp add: restoreAgentRecord_def record_is_edit)

lemma edits_replay:
  "edits True ch rs ch' \<Longrightarrow> own_state (as_managers st) = own_state ch \<Longrightarrow> own_state (as_managers (foldl restoreAgentRecord st rs)) = own_state ch'"
proof (induction rule: edits.induct)
  case (edit_mode ch rs pm parents md)
  then show ?case by (simp add: restore_mode) (simp add: own_state_def)
qed (simp_all add: restore_neutral restore_approval own_state_grants own_state_adopt)

text \<open>
  C12: Replaying the log restores the permissions: after any run of mode switches, escalations and calls with any answers, where no call is described in the words of the git gate (a description that
  starts with its prefix \<open>Git mutation gate:\<close>), an agent that starts with the grants and
  mode of the beginning and replays what was logged since has the same grants, with the same provenance, and the same mode.
\<close>

theorem replay_restores_permissions:
  assumes "as_managers st \<noteq> []" "list_all honest_op ops"
    and "own_state (as_managers st0) = own_state (as_managers st)"
    and "st' = run_ops perm_step st ops"
  shows "own_state (as_managers (foldl restoreAgentRecord st0 (drop (length (as_records st)) (as_records st')))) = own_state (as_managers st')"
proof -
  have "logged True st st'" unfolding assms(4) by (rule run_logged) (use assms(1,2) in simp_all)
  then obtain rs where "as_records st' = as_records st @ rs" "edits True (as_managers st) rs (as_managers st')" by (auto simp: logged_def)
  then show ?thesis using edits_replay assms(3) by simp
qed

section \<open>Grants stay local\<close>

text \<open>What an agent may do to its parents: nothing, but permanent allow rules at the root.\<close>

definition parents_kept :: "manager_chain \<Rightarrow> manager_chain \<Rightarrow> bool" where
  "parents_kept ch ch' \<longleftrightarrow> length ch' = length ch
     \<and> (\<forall>i. 0 < i \<and> i < length ch \<longrightarrow> pm_grants (ch' ! i) = pm_grants (ch ! i) \<and> pm_modeOverride (ch' ! i) = pm_modeOverride (ch ! i))
     \<and> (\<forall>i. i + 1 < length ch \<longrightarrow> pm_rules (ch' ! i) = pm_rules (ch ! i))
     \<and> (\<forall>i < length ch. \<exists>extra. pm_rules (ch' ! i) = pm_rules (ch ! i) @ extra \<and> (\<forall>r \<in> set extra. rl_decision r = Allow))"

lemma session_grants_self:
  "\<exists>pm'. session_grants_of rc sf (pm # parents) = pm' # parents \<and> pm_rules pm' = pm_rules pm \<and> pm_modeOverride pm' = pm_modeOverride pm"
  using add_grants [of rc sf pm] by (simp add: session_grants_of_def split: option.split)

lemma session_grants_nth:
  "length (session_grants_of rc sf ch) = length ch"
  "i < length ch \<Longrightarrow> pm_rules (session_grants_of rc sf ch ! i) = pm_rules (ch ! i)"
  "i < length ch \<Longrightarrow> pm_modeOverride (session_grants_of rc sf ch ! i) = pm_modeOverride (ch ! i)"
  "0 < i \<Longrightarrow> i < length ch \<Longrightarrow> session_grants_of rc sf ch ! i = ch ! i"
proof -
  have e: "session_grants_of rc sf [] = []" by (simp add: session_grants_of_def split: option.split)
  obtain pm' where "ch \<noteq> [] \<Longrightarrow> session_grants_of rc sf ch = pm' # tl ch \<and> pm_rules pm' = pm_rules (hd ch) \<and> pm_modeOverride pm' = pm_modeOverride (hd ch)"
    using session_grants_self [of rc sf "hd ch" "tl ch"] by (cases ch) auto
  then show "length (session_grants_of rc sf ch) = length ch"
    "i < length ch \<Longrightarrow> pm_rules (session_grants_of rc sf ch ! i) = pm_rules (ch ! i)"
    "i < length ch \<Longrightarrow> pm_modeOverride (session_grants_of rc sf ch ! i) = pm_modeOverride (ch ! i)"
    "0 < i \<Longrightarrow> i < length ch \<Longrightarrow> session_grants_of rc sf ch ! i = ch ! i"
    by (cases ch; cases i; simp add: e)+
qed

lemma adopt_nth:
  "length (adoptAlwaysApprovalRules ps ch) = length ch"
  "i < length ch \<Longrightarrow> pm_grants (adoptAlwaysApprovalRules ps ch ! i) = pm_grants (ch ! i)"
  "i < length ch \<Longrightarrow> pm_modeOverride (adoptAlwaysApprovalRules ps ch ! i) = pm_modeOverride (ch ! i)"
  "i + 1 < length ch \<Longrightarrow> adoptAlwaysApprovalRules ps ch ! i = ch ! i"
  "i < length ch \<Longrightarrow> \<exists>extra. pm_rules (adoptAlwaysApprovalRules ps ch ! i) = pm_rules (ch ! i) @ extra \<and> (\<forall>r \<in> set extra. rl_decision r = Allow)"
proof -
  show "length (adoptAlwaysApprovalRules ps ch) = length ch" "i < length ch \<Longrightarrow> pm_grants (adoptAlwaysApprovalRules ps ch ! i) = pm_grants (ch ! i)"
    "i < length ch \<Longrightarrow> pm_modeOverride (adoptAlwaysApprovalRules ps ch ! i) = pm_modeOverride (ch ! i)"
    "i + 1 < length ch \<Longrightarrow> adoptAlwaysApprovalRules ps ch ! i = ch ! i"
    by (cases ch rule: rev_cases; simp add: adoptAlwaysApprovalRules_def nth_append)+
  show "\<exists>extra. pm_rules (adoptAlwaysApprovalRules ps ch ! i) = pm_rules (ch ! i) @ extra \<and> (\<forall>r \<in> set extra. rl_decision r = Allow)" if "i < length ch"
  proof (cases ch rule: rev_cases)
    case (snoc cs r)
    then show ?thesis using that append_allow_extra [of "pm_rules r" ps]
      by (cases "i < length cs") (auto simp: adoptAlwaysApprovalRules_def nth_append)
  qed (use that in simp)
qed

lemma edits_local: "edits d ch rs ch' \<Longrightarrow> parents_kept ch ch'"
proof (induction rule: edits.induct)
  case (edit_none ch)
  then show ?case by (auto simp: parents_kept_def intro: exI [of _ "[]"])
next
  case (edit_mode ch rs pm parents md)
  then show ?case by (auto simp: parents_kept_def nth_Cons split: nat.splits)
next
  case (edit_approval ch rs ch' sf rc)
  then show ?case by (auto simp: parents_kept_def session_grants_nth)
next
  case (edit_adopt ch rs ch' patterns)
  show ?case unfolding parents_kept_def
  proof (intro conjI allI impI)
    fix i assume "i < length ch"
    then obtain extra where "pm_rules (ch' ! i) = pm_rules (ch ! i) @ extra" "\<forall>r \<in> set extra. rl_decision r = Allow"
      using edit_adopt(2) by (auto simp: parents_kept_def)
    moreover obtain more where "pm_rules (adoptAlwaysApprovalRules patterns ch' ! i) = pm_rules (ch' ! i) @ more" "\<forall>r \<in> set more. rl_decision r = Allow"
      using adopt_nth(5) [of i ch' patterns] edit_adopt(2) \<open>i < length ch\<close> by (auto simp: parents_kept_def)
    ultimately show "\<exists>extra. pm_rules (adoptAlwaysApprovalRules patterns ch' ! i) = pm_rules (ch ! i) @ extra \<and> (\<forall>r \<in> set extra. rl_decision r = Allow)"
      by (intro exI [of _ "extra @ more"]) auto
  qed (use edit_adopt(2) in \<open>auto simp: parents_kept_def adopt_nth\<close>)
qed simp

text \<open>
  C13: Approvals stay where they were given: over every run of calls, mode switches and escalations of an agent the grants and modes of its parents, and the rules of every manager below the root, are
  unchanged, and the root gains allow rules at most.
\<close>

theorem approvals_stay_local:
  assumes "as_managers st \<noteq> []"
  shows "parents_kept (as_managers st) (as_managers (run_ops perm_step st ops))"
proof -
  have "logged False st (run_ops perm_step st ops)" by (rule run_logged) (use assms in \<open>simp_all add: list_all_iff\<close>)
  then show ?thesis using edits_local by (auto simp: logged_def)
qed

text \<open>
  C26: Leaving the sandbox is never granted silently and grants nothing else: without a channel, on an error and on any answer but an approval the escalation is
  rejected, and no rule, grant, mode or plan changes.
\<close>

theorem escalation_fails_safe:
  assumes "requestSandboxEscalation env info rp st = (answer, st')"
  shows "same_grants st st' \<and>
    (answer \<noteq> Reject \<longrightarrow> ev_interactive env \<and> (\<exists>response. rp_approval rp = Inr response \<and> ar_decision response = Approved))"
proof -
  have none: "session_grants_of \<lparr>rc_turnId = t, rc_toolCallId = c, rc_toolName = n, rc_action = a, rc_sessionApprovalRule = None,
      rc_sessionApprovalRules = None, rc_result = r\<rparr> sf ch = ch" for t c n a r sf ch
    by (simp add: session_grants_of_def granted_patterns_def)
  show ?thesis
    using assms by (auto simp: requestSandboxEscalation_def Let_def record_is_edit none same_grants_def log_record_def split: sum.splits if_splits)
qed

section \<open>Examples\<close>

text \<open>A rule asks about \<open>rm x\<close>; the call is approved for the session, and the mode changes.\<close>

definition example_run :: "perm_op list" where
  "example_run = [ToolCallOp example_env (example_call ''Bash'' ''rm x'' None) (example_replies [] (example_answer Approved (Some SessionScope))),
     SetModeOp YoloMode]"

definition example_start :: agent_state where
  "example_start = example_state [example_rule Ask ''Bash(rm x)''] ManualMode"

lemma example_start_ok: "as_managers example_start \<noteq> []"
  by (simp add: example_start_def example_state_def)

lemma example_run_honest: "list_all honest_op example_run"
  by (simp add: example_run_def honest_call_def example_call_def startsWith_def GIT_MUTATION_GATE_APPROVAL_ACTION_PREFIX_def)

theorem replay_restores_permissions_witness:
  "own_state (as_managers (foldl restoreAgentRecord example_start
     (drop (length (as_records example_start)) (as_records (run_ops perm_step example_start example_run))))) =
   own_state (as_managers (run_ops perm_step example_start example_run))"
  by (rule replay_restores_permissions [OF example_start_ok example_run_honest refl refl])

theorem approvals_stay_local_witness: "parents_kept (as_managers example_start) (as_managers (run_ops perm_step example_start example_run))"
  by (rule approvals_stay_local [OF example_start_ok])

definition example_escalation :: escalation_info where
  "example_escalation = \<lparr>ei_turnNumber = 1, ei_toolCallId = ''t1'', ei_toolName = None, ei_action = None, ei_reason = ''denied''\<rparr>"

theorem escalation_fails_safe_witness:
  "fst (requestSandboxEscalation (example_env\<lparr>ev_interactive := False\<rparr>) example_escalation
     (example_replies [] (example_answer Approved None)) example_start) = Reject"
  using escalation_fails_safe [of "example_env\<lparr>ev_interactive := False\<rparr>" example_escalation "example_replies [] (example_answer Approved None)" example_start]
  by (cases "requestSandboxEscalation (example_env\<lparr>ev_interactive := False\<rparr>) example_escalation
     (example_replies [] (example_answer Approved None)) example_start") auto

end
