(* ===== verification/Skip_List.thy ===== *)
theory Skip_List
  imports Prelude "HOL-Library.Char_ord" "HOL-Library.List_Lexorder"
begin

text \<open>
  The skip list of \<open>packages/minidb/src/skiplist.ts\<close>: nodes with towers of forward pointers and spans, a backward pointer,
  and the operations that insert, delete, count and scan.

  Nodes live in a heap: a node is known by its index in the list \<open>sl_heap\<close>, the header is node 0, a new node is appended, and a node
  that was unlinked stays behind unreachable. The invariant \<open>skip_inv\<close> describes all levels by the list of the nodes in order: the cell of a
  node on level \<open>i\<close> points to the next node that is taller than \<open>i\<close> and counts the steps to it. The operations are shown to
  refine the plain operations on the sorted list of entries. An access outside a tower would throw in the code; the invariant
  rules it out. The loops are partial functions and are proved to return.
\<close>

section \<open>Data\<close>

definition MAX_LEVEL :: nat where "MAX_LEVEL = 32"

text \<open>Comparators answer a number of which the sign counts. \<open>cmpNumber\<close> is taken on whole
  numbers, such as times in milliseconds.\<close>

definition cmpNumber :: "int \<Rightarrow> int \<Rightarrow> int" where "cmpNumber a b = a - b"
definition cmpString :: "string \<Rightarrow> string \<Rightarrow> int" where "cmpString a b = (if a < b then -1 else if a > b then 1 else 0)"

record ('k, 'v) comparators =
  cp_key :: "'k \<Rightarrow> 'k \<Rightarrow> int"
  cp_val :: "'v \<Rightarrow> 'v \<Rightarrow> int"

text \<open>\<open>draws n\<close> is the \<open>n\<close>-th answer of \<open>Math.random\<close>.\<close>

function level_from :: "(nat \<Rightarrow> real) \<Rightarrow> nat \<Rightarrow> nat \<Rightarrow> nat" where
  "level_from draws n lvl = (if draws n < 1 / 4 \<and> lvl < MAX_LEVEL then level_from draws (n + 1) (lvl + 1) else lvl)"
  by auto
termination by (relation "measure (\<lambda>(draws, n, lvl). MAX_LEVEL - lvl)") auto

declare level_from.simps [simp del]

definition randomLevel :: "(nat \<Rightarrow> real) \<Rightarrow> nat" where "randomLevel draws = level_from draws 0 1"

record skip_level =
  lv_forward :: "nat option"
  lv_span :: int

record ('k, 'v) skip_node =
  sn_key :: 'k
  sn_val :: 'v
  sn_backward :: "nat option"
  sn_level :: "skip_level list"

definition new_node :: "'k \<Rightarrow> 'v \<Rightarrow> nat \<Rightarrow> ('k, 'v) skip_node" where
  "new_node key val lvl = \<lparr>sn_key = key, sn_val = val, sn_backward = None, sn_level = replicate lvl \<lparr>lv_forward = None, lv_span = 0\<rparr>\<rparr>"

type_synonym ('k, 'v) skip_heap = "('k, 'v) skip_node list"

record ('k, 'v) skip_list =
  sl_heap :: "('k, 'v) skip_heap"
  sl_tail :: "nat option"
  sl_length :: int
  sl_level :: nat

definition new_skip_list :: "('k, 'v) skip_list" where
  "new_skip_list = \<lparr>sl_heap = [new_node undefined undefined MAX_LEVEL], sl_tail = None, sl_length = 0, sl_level = 1\<rparr>"

definition cell :: "('k, 'v) skip_heap \<Rightarrow> nat \<Rightarrow> nat \<Rightarrow> skip_level" where
  "cell h x i = sn_level (h ! x) ! i"

definition set_cell :: "('k, 'v) skip_heap \<Rightarrow> nat \<Rightarrow> nat \<Rightarrow> skip_level \<Rightarrow> ('k, 'v) skip_heap" where
  "set_cell h x i c = h[x := (h ! x)\<lparr>sn_level := (sn_level (h ! x))[i := c]\<rparr>]"

definition set_backward :: "('k, 'v) skip_heap \<Rightarrow> nat \<Rightarrow> nat option \<Rightarrow> ('k, 'v) skip_heap" where
  "set_backward h x b = h[x := (h ! x)\<lparr>sn_backward := b\<rparr>]"

section \<open>Search\<close>

definition nodeLess :: "('k, 'v) comparators \<Rightarrow> 'k \<Rightarrow> 'v \<Rightarrow> 'k \<Rightarrow> 'v \<Rightarrow> bool" where
  "nodeLess cp akey aval key val = (let c = cp_key cp akey key in c < 0 \<or> (c = 0 \<and> cp_val cp aval val < 0))"

definition same_entry :: "('k, 'v) comparators \<Rightarrow> 'k \<Rightarrow> 'v \<Rightarrow> 'k \<Rightarrow> 'v \<Rightarrow> bool" where
  "same_entry cp akey aval key val \<longleftrightarrow> cp_key cp akey key = 0 \<and> cp_val cp aval val = 0"

text \<open>
  The inner loop of every search on level \<open>i\<close>: go forward while the next node satisfies the condition, summing the spans. The
  condition sees the rank the next node has, and the node.
\<close>

partial_function (option) walk :: "('k, 'v) skip_heap \<Rightarrow> nat \<Rightarrow> (int \<Rightarrow> ('k, 'v) skip_node \<Rightarrow> bool) \<Rightarrow> nat \<Rightarrow> int \<Rightarrow> (nat \<times> int) option" where
  "walk h i go x rank =
     (case lv_forward (cell h x i) of
        None \<Rightarrow> Some (x, rank)
      | Some f \<Rightarrow>
          if go (rank + lv_span (cell h x i)) (h ! f) then walk h i go f (rank + lv_span (cell h x i))
          else Some (x, rank))"

text \<open>The loop over the levels, from above; the arrays \<open>update\<close> and \<open>rank\<close> are the result, level 0 first.\<close>

fun descend :: "('k, 'v) skip_heap \<Rightarrow> (int \<Rightarrow> ('k, 'v) skip_node \<Rightarrow> bool) \<Rightarrow> nat \<Rightarrow> nat \<Rightarrow> int \<Rightarrow> (nat \<times> int) list option" where
  "descend h go 0 x rank = Some []"
| "descend h go (Suc i) x rank =
     (case walk h i go x rank of
        None \<Rightarrow> None
      | Some (y, r) \<Rightarrow> map_option (\<lambda>below. below @ [(y, r)]) (descend h go i y r))"

section \<open>Insertion and deletion\<close>

definition raise_level :: "('k, 'v) skip_heap \<Rightarrow> int \<Rightarrow> nat \<Rightarrow> nat \<Rightarrow> ('k, 'v) skip_heap" where
  "raise_level h len level lvl = foldl (\<lambda>h i. set_cell h 0 i ((cell h 0 i)\<lparr>lv_span := len\<rparr>)) h [level..<lvl]"

definition link_level :: "nat \<Rightarrow> (nat \<times> int) list \<Rightarrow> ('k, 'v) skip_heap \<Rightarrow> nat \<Rightarrow> ('k, 'v) skip_heap" where
  "link_level x path h i =
     (let (u, r) = path ! i; d = snd (path ! 0) - r; c = cell h u i;
          h1 = set_cell h x i \<lparr>lv_forward = lv_forward c, lv_span = lv_span c - d\<rparr>
      in set_cell h1 u i \<lparr>lv_forward = Some x, lv_span = d + 1\<rparr>)"

definition bump_span :: "(nat \<times> int) list \<Rightarrow> int \<Rightarrow> ('k, 'v) skip_heap \<Rightarrow> nat \<Rightarrow> ('k, 'v) skip_heap" where
  "bump_span path d h i = (let (u, r) = path ! i in set_cell h u i ((cell h u i)\<lparr>lv_span := lv_span (cell h u i) + d\<rparr>))"

definition skip_insert :: "('k, 'v) comparators \<Rightarrow> (nat \<Rightarrow> real) \<Rightarrow> ('k, 'v) skip_list \<Rightarrow> 'k \<Rightarrow> 'v \<Rightarrow> ('k, 'v) skip_list option" where
  "skip_insert cp draws sl key val =
     (case descend (sl_heap sl) (\<lambda>r f. nodeLess cp (sn_key f) (sn_val f) key val) (sl_level sl) 0 0 of
        None \<Rightarrow> None
      | Some found \<Rightarrow>
          let lvl = randomLevel draws;
              path = found @ replicate (lvl - sl_level sl) (0, 0);
              h1 = raise_level (sl_heap sl) (sl_length sl) (sl_level sl) lvl;
              level = max (sl_level sl) lvl;
              x = length h1;
              h2 = foldl (link_level x path) (h1 @ [new_node key val lvl]) [0..<lvl];
              h3 = foldl (bump_span path 1) h2 [lvl..<level];
              h4 = set_backward h3 x (if fst (path ! 0) = 0 then None else Some (fst (path ! 0)))
          in Some (case lv_forward (cell h4 x 0) of
                Some f \<Rightarrow> sl\<lparr>sl_heap := set_backward h4 f (Some x), sl_length := sl_length sl + 1, sl_level := level\<rparr>
              | None \<Rightarrow> sl\<lparr>sl_heap := h4, sl_tail := Some x, sl_length := sl_length sl + 1, sl_level := level\<rparr>))"

definition unlink_level :: "nat \<Rightarrow> (nat \<times> int) list \<Rightarrow> ('k, 'v) skip_heap \<Rightarrow> nat \<Rightarrow> ('k, 'v) skip_heap" where
  "unlink_level x path h i =
     (let u = fst (path ! i) in
      if lv_forward (cell h u i) = Some x
      then set_cell h u i \<lparr>lv_forward = lv_forward (cell h x i), lv_span = lv_span (cell h u i) + lv_span (cell h x i) - 1\<rparr>
      else set_cell h u i ((cell h u i)\<lparr>lv_span := lv_span (cell h u i) - 1\<rparr>))"

fun shrink_level :: "('k, 'v) skip_heap \<Rightarrow> nat \<Rightarrow> nat" where
  "shrink_level h 0 = 0"
| "shrink_level h (Suc n) = (if Suc n > 1 \<and> lv_forward (cell h 0 n) = None then shrink_level h n else Suc n)"

definition deleteNode :: "('k, 'v) skip_list \<Rightarrow> nat \<Rightarrow> (nat \<times> int) list \<Rightarrow> ('k, 'v) skip_list" where
  "deleteNode sl x path =
     (let h1 = foldl (unlink_level x path) (sl_heap sl) [0..<sl_level sl];
          sl1 = (case lv_forward (cell h1 x 0) of
              Some f \<Rightarrow> sl\<lparr>sl_heap := set_backward h1 f (sn_backward (h1 ! x))\<rparr>
            | None \<Rightarrow> sl\<lparr>sl_heap := h1, sl_tail := sn_backward (h1 ! x)\<rparr>)
      in sl1\<lparr>sl_level := shrink_level (sl_heap sl1) (sl_level sl), sl_length := sl_length sl - 1\<rparr>)"

definition skip_delete :: "('k, 'v) comparators \<Rightarrow> ('k, 'v) skip_list \<Rightarrow> 'k \<Rightarrow> 'v \<Rightarrow> (bool \<times> ('k, 'v) skip_list) option" where
  "skip_delete cp sl key val =
     (case descend (sl_heap sl) (\<lambda>r f. nodeLess cp (sn_key f) (sn_val f) key val) (sl_level sl) 0 0 of
        None \<Rightarrow> None
      | Some path \<Rightarrow>
          (case lv_forward (cell (sl_heap sl) (fst (path ! 0)) 0) of
             None \<Rightarrow> Some (False, sl)
           | Some x \<Rightarrow>
               if same_entry cp (sn_key (sl_heap sl ! x)) (sn_val (sl_heap sl ! x)) key val
               then Some (True, deleteNode sl x path) else Some (False, sl)))"

section \<open>Lookups and scans\<close>

definition skip_lowerBound :: "('k, 'v) comparators \<Rightarrow> ('k, 'v) skip_list \<Rightarrow> 'k \<Rightarrow> bool \<Rightarrow> nat option option" where
  "skip_lowerBound cp sl bound strict =
     map_option (\<lambda>path. lv_forward (cell (sl_heap sl) (fst (path ! 0)) 0))
       (descend (sl_heap sl) (\<lambda>r f. if strict then cp_key cp (sn_key f) bound \<le> 0 else cp_key cp (sn_key f) bound < 0) (sl_level sl) 0 0)"

definition getRank :: "('k, 'v) comparators \<Rightarrow> ('k, 'v) skip_list \<Rightarrow> 'k \<Rightarrow> 'v \<Rightarrow> int option option" where
  "getRank cp sl key val =
     map_option (\<lambda>path. let (x, rank) = path ! 0; n = sl_heap sl ! x in
         if x \<noteq> 0 \<and> same_entry cp (sn_key n) (sn_val n) key val then Some (rank - 1) else None)
       (descend (sl_heap sl) (\<lambda>r f. nodeLess cp (sn_key f) (sn_val f) key val \<or> same_entry cp (sn_key f) (sn_val f) key val) (sl_level sl) 0 0)"

text \<open>This loop stops as soon as the rank is reached.\<close>

fun rank_from :: "('k, 'v) skip_heap \<Rightarrow> int \<Rightarrow> nat \<Rightarrow> nat \<Rightarrow> int \<Rightarrow> ('k \<times> 'v) option option" where
  "rank_from h target 0 x traversed = Some None"
| "rank_from h target (Suc i) x traversed =
     (case walk h i (\<lambda>r f. r \<le> target) x traversed of
        None \<Rightarrow> None
      | Some (y, r) \<Rightarrow> if r = target then Some (Some (sn_key (h ! y), sn_val (h ! y))) else rank_from h target i y r)"

definition getByRank :: "('k, 'v) skip_list \<Rightarrow> int \<Rightarrow> ('k \<times> 'v) option option" where
  "getByRank sl rank =
     (if rank < 0 \<or> rank \<ge> sl_length sl then Some None else rank_from (sl_heap sl) (rank + 1) (sl_level sl) 0 0)"

record 'k skip_range_options =
  so_gte :: "'k option"
  so_gt :: "'k option"
  so_lte :: "'k option"
  so_lt :: "'k option"
  so_offset :: nat
  so_count :: "nat option"
  so_reverse :: bool

text \<open>The scanning loop of \<open>range\<close> and \<open>iterate\<close>; \<open>None\<close> as count is \<open>Infinity\<close>.\<close>

partial_function (option) scan ::
    "('k, 'v) skip_heap \<Rightarrow> (nat \<Rightarrow> nat option) \<Rightarrow> ('k \<Rightarrow> bool) \<Rightarrow> nat \<Rightarrow> nat option \<Rightarrow> nat option \<Rightarrow> ('k \<times> 'v) list option" where
  "scan h advance stop offset cnt x =
     (case x of
        None \<Rightarrow> Some []
      | Some a \<Rightarrow>
          if stop (sn_key (h ! a)) then Some []
          else if offset > 0 then scan h advance stop (offset - 1) cnt (advance a)
          else if cnt \<noteq> Some 0
          then Option.bind (scan h advance stop offset (map_option (\<lambda>c. c - 1) cnt) (advance a)) (\<lambda>out. Some ((sn_key (h ! a), sn_val (h ! a)) # out))
          else Some [])"

definition bound_hit :: "('k \<Rightarrow> 'k \<Rightarrow> bool) \<Rightarrow> 'k option \<Rightarrow> 'k \<Rightarrow> bool" where
  "bound_hit rel bound key = (case bound of None \<Rightarrow> False | Some b \<Rightarrow> rel key b)"

definition before_node :: "('k, 'v) skip_list \<Rightarrow> nat option \<Rightarrow> nat option" where
  "before_node sl after = (case after of Some a \<Rightarrow> sn_backward (sl_heap sl ! a) | None \<Rightarrow> sl_tail sl)"

definition skip_range :: "('k, 'v) comparators \<Rightarrow> ('k, 'v) skip_list \<Rightarrow> 'k skip_range_options \<Rightarrow> ('k \<times> 'v) list option" where
  "skip_range cp sl opts =
     (let h = sl_heap sl; cmp = cp_key cp in
      if so_reverse opts then
        (case (case so_lte opts of
                 Some b \<Rightarrow> map_option (before_node sl) (skip_lowerBound cp sl b True)
               | None \<Rightarrow> (case so_lt opts of
                   Some b \<Rightarrow> map_option (before_node sl) (skip_lowerBound cp sl b False)
                 | None \<Rightarrow> Some (sl_tail sl))) of
           None \<Rightarrow> None
         | Some x \<Rightarrow>
             scan h (\<lambda>a. sn_backward (h ! a))
               (\<lambda>key. bound_hit (\<lambda>a b. cmp a b < 0) (so_gte opts) key \<or> bound_hit (\<lambda>a b. cmp a b \<le> 0) (so_gt opts) key)
               (so_offset opts) (so_count opts) x)
      else
        (case (case so_gte opts of
                 Some b \<Rightarrow> skip_lowerBound cp sl b (so_gt opts \<noteq> None)
               | None \<Rightarrow> (case so_gt opts of
                   Some b \<Rightarrow> skip_lowerBound cp sl b True
                 | None \<Rightarrow> Some (lv_forward (cell h 0 0)))) of
           None \<Rightarrow> None
         | Some x \<Rightarrow>
             scan h (\<lambda>a. lv_forward (cell h a 0))
               (\<lambda>key. bound_hit (\<lambda>a b. cmp a b > 0) (so_lte opts) key \<or> bound_hit (\<lambda>a b. cmp a b \<ge> 0) (so_lt opts) key)
               (so_offset opts) (so_count opts) x))"

definition toArray :: "('k, 'v) skip_list \<Rightarrow> ('k \<times> 'v) list option" where
  "toArray sl = scan (sl_heap sl) (\<lambda>a. lv_forward (cell (sl_heap sl) a 0)) (\<lambda>_. False) 0 None (lv_forward (cell (sl_heap sl) 0 0))"

section \<open>Heap cells\<close>

definition height :: "('k, 'v) skip_heap \<Rightarrow> nat \<Rightarrow> nat" where "height h x = length (sn_level (h ! x))"

definition entry :: "('k, 'v) skip_heap \<Rightarrow> nat \<Rightarrow> 'k \<times> 'v" where "entry h x = (sn_key (h ! x), sn_val (h ! x))"

named_theorems heap_simps \<open>what an update of the heap changes\<close>

lemma set_cell_node:
  "set_cell h x i c ! y = (if y = x \<and> x < length h then (h ! x)\<lparr>sn_level := (sn_level (h ! x))[i := c]\<rparr> else h ! y)"
  by (cases "x < length h") (simp_all add: set_cell_def nth_list_update list_update_beyond)

lemma set_backward_node:
  "set_backward h x b ! y = (if y = x \<and> x < length h then (h ! x)\<lparr>sn_backward := b\<rparr> else h ! y)"
  by (cases "x < length h") (simp_all add: set_backward_def nth_list_update list_update_beyond)

lemma set_cell_frame [heap_simps]:
  "length (set_cell h x i c) = length h" "height (set_cell h x i c) y = height h y" "entry (set_cell h x i c) y = entry h y"
  "sn_backward (set_cell h x i c ! y) = sn_backward (h ! y)" "sn_key (set_cell h x i c ! y) = sn_key (h ! y)" "sn_val (set_cell h x i c ! y) = sn_val (h ! y)"
  by (simp_all add: set_cell_node height_def entry_def) (simp add: set_cell_def)

lemma cell_set_cell [heap_simps]:
  "x < length h \<Longrightarrow> i < height h x \<Longrightarrow> cell (set_cell h x i c) y j = (if y = x \<and> j = i then c else cell h y j)"
  by (auto simp: cell_def set_cell_node height_def)

lemma cell_other_level: "j \<noteq> i \<Longrightarrow> cell (set_cell h x i c) y j = cell h y j"
  by (simp add: cell_def set_cell_node)

lemma set_backward_frame [heap_simps]:
  "length (set_backward h x b) = length h" "height (set_backward h x b) y = height h y" "entry (set_backward h x b) y = entry h y"
  "cell (set_backward h x b) y i = cell h y i" "sn_key (set_backward h x b ! y) = sn_key (h ! y)" "sn_val (set_backward h x b ! y) = sn_val (h ! y)"
  by (simp_all add: set_backward_node height_def entry_def cell_def) (simp add: set_backward_def)

lemma sn_backward_set [heap_simps]: "x < length h \<Longrightarrow> sn_backward (set_backward h x b ! y) = (if y = x then b else sn_backward (h ! y))"
  by (simp add: set_backward_node)

lemma append_frame [heap_simps]:
  "y < length h \<Longrightarrow> cell (h @ [n]) y i = cell h y i" "y < length h \<Longrightarrow> height (h @ [n]) y = height h y"
  "y < length h \<Longrightarrow> entry (h @ [n]) y = entry h y" "y < length h \<Longrightarrow> sn_backward ((h @ [n]) ! y) = sn_backward (h ! y)"
  by (simp_all add: cell_def height_def entry_def nth_append)

section \<open>The levels\<close>

text \<open>The next node above level \<open>i\<close> in a list of nodes, and the steps to it, or to the end.\<close>

fun next_on :: "('k, 'v) skip_heap \<Rightarrow> nat \<Rightarrow> nat list \<Rightarrow> skip_level" where
  "next_on h i [] = \<lparr>lv_forward = None, lv_span = 0\<rparr>"
| "next_on h i (p # ps) =
     (if i < height h p then \<lparr>lv_forward = Some p, lv_span = 1\<rparr> else (next_on h i ps)\<lparr>lv_span := lv_span (next_on h i ps) + 1\<rparr>)"

text \<open>The cells of the nodes \<open>qs\<close> on level \<open>i\<close>, where the nodes \<open>rest\<close> follow.\<close>

fun linked :: "('k, 'v) skip_heap \<Rightarrow> nat \<Rightarrow> nat list \<Rightarrow> nat list \<Rightarrow> bool" where
  "linked h i [] rest = True"
| "linked h i (q # qs) rest = ((i < height h q \<longrightarrow> cell h q i = next_on h i (qs @ rest)) \<and> linked h i qs rest)"

definition low :: "('k, 'v) skip_heap \<Rightarrow> nat \<Rightarrow> nat list \<Rightarrow> bool" where
  "low h i qs \<longleftrightarrow> (\<forall>q \<in> set qs. height h q \<le> i)"

lemma linked_append: "linked h i (qs @ rs) rest \<longleftrightarrow> linked h i qs (rs @ rest) \<and> linked h i rs rest"
  by (induction qs) auto

lemma next_on_low: "low h i qs \<Longrightarrow> next_on h i (qs @ rest) = (next_on h i rest)\<lparr>lv_span := lv_span (next_on h i rest) + int (length qs)\<rparr>"
  by (induction qs) (auto simp: low_def)

lemma next_on_stops: "i < height h y \<Longrightarrow> next_on h i (qs @ y # rest) = next_on h i (qs @ y # rest')"
  by (induction qs) auto

lemma next_on_found: "i < height h y \<Longrightarrow> low h i qs \<Longrightarrow> next_on h i (qs @ y # rest) = \<lparr>lv_forward = Some y, lv_span = int (length qs) + 1\<rparr>"
  by (simp add: next_on_low)

lemma linked_low: "low h i qs \<Longrightarrow> linked h i qs rest"
  by (induction qs) (auto simp: low_def)

lemma linked_stops: "i < height h y \<Longrightarrow> linked h i qs (y # rest) = linked h i qs (y # rest')"
  by (induction qs) (auto simp: next_on_stops [of i h y _ rest rest'])

lemma next_on_cong: "(\<And>q. q \<in> set qs \<Longrightarrow> height h' q = height h q) \<Longrightarrow> next_on h' i qs = next_on h i qs"
  by (induction qs) auto

lemma linked_cong:
  assumes "\<And>q. q \<in> set qs \<union> set rest \<Longrightarrow> height h' q = height h q" "\<And>q. q \<in> set qs \<Longrightarrow> cell h' q i = cell h q i"
  shows "linked h' i qs rest = linked h i qs rest"
  using assms
proof (induction qs)
  case (Cons q qs)
  have "next_on h' i (qs @ rest) = next_on h i (qs @ rest)" by (rule next_on_cong) (use Cons.prems in auto)
  then show ?case using Cons by simp
qed simp

lemma next_on_forward:
  "lv_forward (next_on h i qs) = Some f \<Longrightarrow> \<exists>us vs. qs = us @ f # vs \<and> low h i us \<and> i < height h f \<and> next_on h i qs = \<lparr>lv_forward = Some f, lv_span = int (length us) + 1\<rparr>"
proof (induction qs)
  case (Cons q qs)
  show ?case
  proof (cases "i < height h q")
    case True
    then show ?thesis using Cons.prems by (intro exI [of _ "[]"] exI [of _ qs]) (auto simp: low_def)
  next
    case False
    then obtain us vs where "qs = us @ f # vs" "low h i us" "i < height h f" "next_on h i qs = \<lparr>lv_forward = Some f, lv_span = int (length us) + 1\<rparr>"
      using Cons by auto
    then show ?thesis using False by (intro exI [of _ "q # us"] exI [of _ vs]) (auto simp: low_def)
  qed
qed simp

lemma next_on_end: "lv_forward (next_on h i qs) = None \<Longrightarrow> low h i qs \<and> next_on h i qs = \<lparr>lv_forward = None, lv_span = int (length qs)\<rparr>"
  by (induction qs) (auto simp: low_def split: if_splits)

text \<open>Where a search on level \<open>i\<close> through the nodes \<open>qs\<close> ends: at the last one taller than \<open>i\<close>, and how many come after it.\<close>

definition last_on :: "('k, 'v) skip_heap \<Rightarrow> nat \<Rightarrow> nat list \<Rightarrow> nat" where
  "last_on h i qs = last (filter (\<lambda>q. i < height h q) qs)"

definition gap_on :: "('k, 'v) skip_heap \<Rightarrow> nat \<Rightarrow> nat list \<Rightarrow> nat" where
  "gap_on h i qs = length (takeWhile (\<lambda>q. \<not> i < height h q) (rev qs))"

lemma low_filter: "low h i qs \<Longrightarrow> filter (\<lambda>q. i < height h q) qs = []"
  by (auto simp: low_def filter_empty_conv)

lemma last_on_at: "i < height h y \<Longrightarrow> low h i zs \<Longrightarrow> last_on h i (ws @ y # zs) = y"
  by (simp add: last_on_def low_filter)

lemma gap_on_at: "i < height h y \<Longrightarrow> low h i zs \<Longrightarrow> gap_on h i (ws @ y # zs) = length zs"
  by (auto simp: gap_on_def low_def takeWhile_append)

lemma last_on_split:
  assumes "q \<in> set qs" "i < height h q"
  obtains ws zs where "qs = ws @ last_on h i qs # zs" "low h i zs" "i < height h (last_on h i qs)" "gap_on h i qs = length zs"
proof -
  obtain ws y zs where "qs = ws @ y # zs" "i < height h y" "\<forall>z \<in> set zs. \<not> i < height h z"
    using split_list_last_prop [of qs "\<lambda>q. i < height h q"] assms by blast
  moreover from this have "low h i zs" by (auto simp: low_def)
  ultimately show ?thesis using that [of ws zs] last_on_at [of i h y zs ws] gap_on_at [of i h y zs ws] by simp
qed

lemma on_suffix: "i < height h x \<Longrightarrow> last_on h i (us @ x # vs) = last_on h i (x # vs)" "i < height h x \<Longrightarrow> gap_on h i (us @ x # vs) = gap_on h i (x # vs)"
  by (auto simp: last_on_def gap_on_def takeWhile_append takeWhile_eq_all_conv)

section \<open>Searches end where they should\<close>

lemma walk_ends:
  assumes "linked h i (x # vs) bs" "i < height h x"
    and "\<forall>j < length vs. go (r + int j + 1) (h ! (vs ! j))" "\<forall>j < length bs. \<not> go (r + int (length vs) + int j + 1) (h ! (bs ! j))"
  shows "walk h i go x r = Some (last_on h i (x # vs), r + int (length vs) - int (gap_on h i (x # vs)))"
  using assms
proof (induction "length vs" arbitrary: x vs r rule: less_induct)
  case less
  have c: "cell h x i = next_on h i (vs @ bs)" using less.prems(1,2) by simp
  show ?case
  proof (cases "low h i vs")
    case True
    have "lv_forward (cell h x i) = Some f \<Longrightarrow> \<not> go (r + lv_span (cell h x i)) (h ! f)" for f
    proof -
      assume f: "lv_forward (cell h x i) = Some f"
      then have "lv_forward (next_on h i bs) = Some f" by (simp add: c next_on_low [OF True])
      then obtain us ws where "bs = us @ f # ws" "next_on h i bs = \<lparr>lv_forward = Some f, lv_span = int (length us) + 1\<rparr>"
        using next_on_forward by blast
      then show ?thesis using less.prems(4) [rule_format, of "length us"] by (simp add: c next_on_low [OF True] algebra_simps)
    qed
    then have "walk h i go x r = Some (x, r)" by (subst walk.simps) (simp split: option.split)
    then show ?thesis using last_on_at [of i h x vs "[]"] gap_on_at [of i h x vs "[]"] True less.prems(2) by simp
  next
    case False
    then obtain q where "q \<in> set vs" "i < height h q" by (auto simp: low_def not_le)
    then obtain zs f ws where vs: "vs = zs @ f # ws" "i < height h f" "\<forall>z \<in> set zs. \<not> i < height h z"
      using split_list_first_prop [of vs "\<lambda>q. i < height h q"] by blast
    then have "low h i zs" by (auto simp: low_def)
    then have cx: "cell h x i = \<lparr>lv_forward = Some f, lv_span = int (length zs) + 1\<rparr>" by (simp add: c vs next_on_found)
    have "go (r + (int (length zs) + 1)) (h ! f)" using less.prems(3) [rule_format, of "length zs"] by (simp add: vs algebra_simps)
    then have "walk h i go x r = walk h i go f (r + (int (length zs) + 1))" by (subst walk.simps) (simp add: cx)
    also have "\<dots> = Some (last_on h i (f # ws), r + (int (length zs) + 1) + int (length ws) - int (gap_on h i (f # ws)))"
    proof (rule less.hyps)
      show "linked h i (f # ws) bs" using less.prems(1) by (simp add: vs linked_append)
      show "\<forall>j < length ws. go (r + (int (length zs) + 1) + int j + 1) (h ! (ws ! j))"
      proof (intro allI impI)
        fix j assume "j < length ws"
        then show "go (r + (int (length zs) + 1) + int j + 1) (h ! (ws ! j))"
          using less.prems(3) [rule_format, of "length zs + 1 + j"] by (simp add: vs nth_append algebra_simps)
      qed
      show "\<forall>j < length bs. \<not> go (r + (int (length zs) + 1) + int (length ws) + int j + 1) (h ! (bs ! j))"
        using less.prems(4) by (simp add: vs algebra_simps)
    qed (simp_all add: vs)
    finally show ?thesis using on_suffix [OF vs(2), of "x # zs" ws] by (simp add: vs(1) algebra_simps)
  qed
qed

text \<open>What a search leaves in \<open>update\<close> and \<open>rank\<close>.\<close>

definition search_path :: "('k, 'v) skip_heap \<Rightarrow> nat \<Rightarrow> nat list \<Rightarrow> (nat \<times> int) list" where
  "search_path h n qs = map (\<lambda>i. (last_on h i qs, int (length qs) - 1 - int (gap_on h i qs))) [0..<n]"

lemma descend_ends:
  assumes "\<forall>i < n. linked h i qs bs" "\<forall>i < n. i < height h x" "qs = us @ x # vs"
    and "\<forall>j < length qs. j > 0 \<longrightarrow> go (int j) (h ! (qs ! j))" "\<forall>j < length bs. \<not> go (int (length qs + j)) (h ! (bs ! j))"
  shows "descend h go n x (int (length us)) = Some (search_path h n qs)"
  using assms(1-3)
proof (induction n arbitrary: x us vs)
  case 0
  then show ?case by (simp add: search_path_def)
next
  case (Suc n)
  have x: "n < height h x" using Suc.prems(2) by simp
  have "linked h n (us @ x # vs) bs" using Suc.prems(1,3) by auto
  then have l: "linked h n (x # vs) bs" by (simp only: linked_append)
  have "walk h n go x (int (length us)) = Some (last_on h n (x # vs), int (length us) + int (length vs) - int (gap_on h n (x # vs)))"
  proof (rule walk_ends [OF l x])
    show "\<forall>j < length vs. go (int (length us) + int j + 1) (h ! (vs ! j))"
    proof (intro allI impI)
      fix j assume "j < length vs"
      then show "go (int (length us) + int j + 1) (h ! (vs ! j))"
        using assms(4) [rule_format, of "length us + 1 + j"] Suc.prems(3) by (simp add: nth_append algebra_simps)
    qed
    show "\<forall>j < length bs. \<not> go (int (length us) + int (length vs) + int j + 1) (h ! (bs ! j))"
      using assms(5) Suc.prems(3) by (simp add: algebra_simps)
  qed
  moreover obtain ws zs where s: "qs = ws @ last_on h n qs # zs" "n < height h (last_on h n qs)" "gap_on h n qs = length zs"
    by (rule last_on_split [of x qs n h]) (use x Suc.prems(3) in auto)
  moreover have len: "length us + length vs = length ws + length zs"
    using arg_cong [OF s(1), of length] Suc.prems(3) by simp
  ultimately have w: "walk h n go x (int (length us)) = Some (last_on h n qs, int (length ws))"
    using on_suffix [OF x, of us vs] Suc.prems(3) by simp
  have "descend h go n (last_on h n qs) (int (length ws)) = Some (search_path h n qs)"
    by (rule Suc.IH [of _ ws zs]) (use Suc.prems(1) s in auto)
  moreover have "int (length qs) - 1 - int (gap_on h n qs) = int (length ws)" using s(3) arg_cong [OF s(1), of length] by simp
  ultimately show ?case by (simp add: w search_path_def)
qed

section \<open>One level of an insertion or a deletion\<close>

lemma linked_insert:
  assumes l: "linked h i (0 # as @ bs) []" and top: "i < height h 0" and d: "distinct (0 # as @ x # bs)"
    and same: "\<And>q. q \<in> set (0 # as @ bs) \<Longrightarrow> height h' q = height h q"
    and rest: "\<And>q. q \<in> set (0 # as @ bs) \<Longrightarrow> q \<noteq> last_on h i (0 # as) \<Longrightarrow> cell h' q i = cell h q i"
    and tall: "i < height h' x \<Longrightarrow>
      cell h' x i = \<lparr>lv_forward = lv_forward (cell h (last_on h i (0 # as)) i), lv_span = lv_span (cell h (last_on h i (0 # as)) i) - int (gap_on h i (0 # as))\<rparr>
      \<and> cell h' (last_on h i (0 # as)) i = \<lparr>lv_forward = Some x, lv_span = int (gap_on h i (0 # as)) + 1\<rparr>"
    and small: "\<not> i < height h' x \<Longrightarrow>
      cell h' (last_on h i (0 # as)) i = (cell h (last_on h i (0 # as)) i)\<lparr>lv_span := lv_span (cell h (last_on h i (0 # as)) i) + 1\<rparr>"
  shows "linked h' i (0 # as @ x # bs) []"
proof -
  define u where "u = last_on h i (0 # as)"
  obtain ws zs where s: "0 # as = ws @ u # zs" "low h i zs" "i < height h u" "gap_on h i (0 # as) = length zs"
    unfolding u_def by (rule last_on_split [of 0 "0 # as" i h]) (use top in auto)
  have full: "0 # as @ r = ws @ u # zs @ r" for r using arg_cong [OF s(1), of "\<lambda>q. q @ r"] by simp
  have "distinct (ws @ u # zs @ x # bs)" using d full [of "x # bs"] by metis
  then have u: "u \<notin> set ws" "u \<notin> set zs" "u \<notin> set bs" "u \<noteq> x" by auto
  have mem: "set (0 # as @ bs) = insert u (set ws \<union> set zs \<union> set bs)" using arg_cong [OF full [of bs], of set] by auto
  have old: "linked h i ws (u # zs @ bs)" "cell h u i = next_on h i (zs @ bs)" "linked h i bs []"
    using l s(3) by (simp_all add: full linked_append)
  have h': "height h' q = height h q" if "q \<in> insert u (set ws \<union> set zs \<union> set bs)" for q using same mem that by blast
  have low': "low h' i zs" using s(2) h' by (auto simp: low_def)
  have u': "i < height h' u" using s(3) h' by simp
  have nb: "next_on h' i bs = next_on h i bs" by (rule next_on_cong) (use h' in auto)
  have cu: "cell h u i = (next_on h i bs)\<lparr>lv_span := lv_span (next_on h i bs) + int (length zs)\<rparr>" using old(2) next_on_low [OF s(2)] by simp
  have "linked h' i ws (u # zs @ bs)"
    using old(1) linked_cong [of ws "u # zs @ bs" h' h i] h' rest mem u unfolding u_def by auto
  then have a: "linked h' i ws (u # zs @ x # bs)" using linked_stops [OF u', of ws "zs @ bs" "zs @ x # bs"] by simp
  have b: "linked h' i bs []" using old(3) linked_cong [of bs "[]" h' h i] h' rest mem u unfolding u_def by auto
  have ux: "cell h' u i = next_on h' i (zs @ x # bs) \<and> (i < height h' x \<longrightarrow> cell h' x i = next_on h' i bs)"
  proof (cases "i < height h' x")
    case True
    then show ?thesis using tall [folded u_def] s(4) by (simp add: next_on_found [OF True low'] cu nb)
  next
    case False
    then show ?thesis using small [folded u_def] s(4) by (simp add: next_on_low [OF low'] cu nb algebra_simps)
  qed
  show ?thesis using a b ux linked_low [OF low'] by (simp add: full linked_append)
qed

lemma forward_hits:
  assumes l: "linked h i (0 # as @ x # bs) []" and top: "i < height h 0" and d: "distinct (0 # as @ x # bs)"
  shows "lv_forward (cell h (last_on h i (0 # as)) i) = Some x \<longleftrightarrow> i < height h x"
proof -
  define u where "u = last_on h i (0 # as)"
  obtain ws zs where s: "0 # as = ws @ u # zs" "low h i zs" "i < height h u"
    unfolding u_def by (rule last_on_split [of 0 "0 # as" i h]) (use top in auto)
  have full: "0 # as @ x # bs = ws @ u # zs @ x # bs" using arg_cong [OF s(1), of "\<lambda>q. q @ x # bs"] by simp
  have "x \<notin> set bs" using d by simp
  have "cell h u i = next_on h i (zs @ x # bs)" using l s(3) by (simp add: full linked_append)
  then show ?thesis
    using next_on_forward [of h i bs x] \<open>x \<notin> set bs\<close> by (auto simp: next_on_low [OF s(2)] u_def)
qed

lemma linked_delete:
  assumes l: "linked h i (0 # as @ x # bs) []" and top: "i < height h 0" and d: "distinct (0 # as @ x # bs)"
    and same: "\<And>q. q \<in> set (0 # as @ bs) \<Longrightarrow> height h' q = height h q"
    and rest: "\<And>q. q \<in> set (0 # as @ bs) \<Longrightarrow> q \<noteq> last_on h i (0 # as) \<Longrightarrow> cell h' q i = cell h q i"
    and tall: "i < height h x \<Longrightarrow>
      cell h' (last_on h i (0 # as)) i = \<lparr>lv_forward = lv_forward (cell h x i), lv_span = lv_span (cell h (last_on h i (0 # as)) i) + lv_span (cell h x i) - 1\<rparr>"
    and small: "\<not> i < height h x \<Longrightarrow>
      cell h' (last_on h i (0 # as)) i = (cell h (last_on h i (0 # as)) i)\<lparr>lv_span := lv_span (cell h (last_on h i (0 # as)) i) - 1\<rparr>"
  shows "linked h' i (0 # as @ bs) []"
proof -
  define u where "u = last_on h i (0 # as)"
  obtain ws zs where s: "0 # as = ws @ u # zs" "low h i zs" "i < height h u"
    unfolding u_def by (rule last_on_split [of 0 "0 # as" i h]) (use top in auto)
  have full: "0 # as @ r = ws @ u # zs @ r" for r using arg_cong [OF s(1), of "\<lambda>q. q @ r"] by simp
  have "distinct (ws @ u # zs @ x # bs)" using d full [of "x # bs"] by metis
  then have u: "u \<notin> set ws" "u \<notin> set zs" "u \<notin> set bs" by auto
  have mem: "set (0 # as @ bs) = insert u (set ws \<union> set zs \<union> set bs)" using arg_cong [OF full [of bs], of set] by auto
  have old: "linked h i ws (u # zs @ x # bs)" "cell h u i = next_on h i (zs @ x # bs)" "i < height h x \<Longrightarrow> cell h x i = next_on h i bs" "linked h i bs []"
    using l s(3) by (simp_all add: full linked_append)
  have h': "height h' q = height h q" if "q \<in> insert u (set ws \<union> set zs \<union> set bs)" for q using same mem that by blast
  have low': "low h' i zs" using s(2) h' by (auto simp: low_def)
  have nb: "next_on h' i bs = next_on h i bs" by (rule next_on_cong) (use h' in auto)
  have "linked h i ws (u # zs @ bs)" using old(1) linked_stops [OF s(3), of ws "zs @ bs" "zs @ x # bs"] by simp
  then have a: "linked h' i ws (u # zs @ bs)"
    using linked_cong [of ws "u # zs @ bs" h' h i] h' rest mem u unfolding u_def by auto
  have b: "linked h' i bs []" using old(4) linked_cong [of bs "[]" h' h i] h' rest mem u unfolding u_def by auto
  have "cell h' u i = next_on h' i (zs @ bs)"
  proof (cases "i < height h x")
    case True
    then show ?thesis using tall [folded u_def] old(2,3) by (simp add: next_on_found [OF True s(2)] next_on_low [OF low'] nb algebra_simps)
  next
    case False
    then show ?thesis using small [folded u_def] old(2) by (simp add: next_on_low [OF s(2)] next_on_low [OF low'] nb algebra_simps)
  qed
  then show ?thesis using a b linked_low [OF low'] by (simp add: full linked_append)
qed

section \<open>All levels\<close>

text \<open>Updates of cells keep the rest of every node.\<close>

definition same_shape :: "('k, 'v) skip_heap \<Rightarrow> ('k, 'v) skip_heap \<Rightarrow> bool" where
  "same_shape h h' \<longleftrightarrow> length h' = length h \<and> (\<forall>y. height h' y = height h y \<and> entry h' y = entry h y \<and> sn_backward (h' ! y) = sn_backward (h ! y))"

lemma same_shape_set_cell: "same_shape h h' \<Longrightarrow> same_shape h (set_cell h' x i c)"
  by (simp add: same_shape_def heap_simps)

lemma foldl_levels:
  assumes "\<And>h' i. same_shape h h' \<Longrightarrow> same_shape h (f h' i)" "\<And>h' i j y. j \<noteq> i \<Longrightarrow> cell (f h' i) y j = cell h' y j"
    and "\<And>h' i y. same_shape h h' \<Longrightarrow> i \<in> set is \<Longrightarrow> cell (f h' i) y i = \<Phi> i (\<lambda>z. cell h' z i) y"
    and "distinct is"
  shows "same_shape h (foldl f h is)"
    and "cell (foldl f h is) y j = (if j \<in> set is then \<Phi> j (\<lambda>z. cell h z j) y else cell h y j)"
proof -
  have "same_shape h (foldl f h is) \<and> (\<forall>y j. cell (foldl f h is) y j = (if j \<in> set is then \<Phi> j (\<lambda>z. cell h z j) y else cell h y j))"
    using assms(3,4)
  proof (induction "is" rule: rev_induct)
    case Nil
    then show ?case by (simp add: same_shape_def)
  next
    case (snoc i "is")
    then have IH: "same_shape h (foldl f h is)" "\<And>y j. cell (foldl f h is) y j = (if j \<in> set is then \<Phi> j (\<lambda>z. cell h z j) y else cell h y j)" by auto
    have "cell (f (foldl f h is) i) y j = (if j \<in> set (is @ [i]) then \<Phi> j (\<lambda>z. cell h z j) y else cell h y j)" for y j
    proof (cases "j = i")
      case True
      then show ?thesis using snoc.prems(1) [OF IH(1), of i y] snoc.prems(2) by (simp add: IH(2))
    next
      case False
      then show ?thesis using assms(2) [OF False] by (simp add: IH(2))
    qed
    then show ?case using assms(1) [OF IH(1)] by simp
  qed
  then show "same_shape h (foldl f h is)" "cell (foldl f h is) y j = (if j \<in> set is then \<Phi> j (\<lambda>z. cell h z j) y else cell h y j)" by auto
qed

fun back_linked :: "('k, 'v) skip_heap \<Rightarrow> nat option \<Rightarrow> nat list \<Rightarrow> bool" where
  "back_linked h b [] = True"
| "back_linked h b (p # ps) = (sn_backward (h ! p) = b \<and> back_linked h (Some p) ps)"

definition last_or :: "nat option \<Rightarrow> nat list \<Rightarrow> nat option" where
  "last_or b ps = (if ps = [] then b else Some (last ps))"

lemma last_or_simps [simp]: "last_or b [] = b" "last_or b (p # ps) = last_or (Some p) ps" "last_or b (ps @ [p]) = Some p"
  by (simp_all add: last_or_def)

lemma back_linked_append: "back_linked h b (ps @ qs) \<longleftrightarrow> back_linked h b ps \<and> back_linked h (last_or b ps) qs"
  by (induction ps arbitrary: b) auto

lemma back_linked_cong: "(\<And>p. p \<in> set ps \<Longrightarrow> sn_backward (h' ! p) = sn_backward (h ! p)) \<Longrightarrow> back_linked h' b ps = back_linked h b ps"
  by (induction ps arbitrary: b) auto

text \<open>The invariant: \<open>ps\<close> are the nodes in order.\<close>

definition levels_ok :: "('k, 'v) skip_heap \<Rightarrow> nat \<Rightarrow> nat list \<Rightarrow> bool" where
  "levels_ok h level ps \<longleftrightarrow> h \<noteq> [] \<and> height h 0 = MAX_LEVEL \<and> distinct (0 # ps)
     \<and> (\<forall>p \<in> set ps. p < length h \<and> 0 < height h p \<and> height h p \<le> level) \<and> 0 < level \<and> level \<le> MAX_LEVEL
     \<and> (\<forall>i < level. linked h i (0 # ps) []) \<and> (\<forall>i < MAX_LEVEL. level \<le> i \<longrightarrow> lv_forward (cell h 0 i) = None)"

definition skip_inv :: "('k, 'v) skip_list \<Rightarrow> nat list \<Rightarrow> bool" where
  "skip_inv sl ps \<longleftrightarrow> levels_ok (sl_heap sl) (sl_level sl) ps \<and> back_linked (sl_heap sl) None ps
     \<and> sl_tail sl = last_or None ps \<and> sl_length sl = int (length ps)"

lemma new_skip_inv: "skip_inv new_skip_list []"
  by (simp add: skip_inv_def levels_ok_def new_skip_list_def new_node_def height_def cell_def MAX_LEVEL_def)

lemma level_from_bounds: "lvl \<le> MAX_LEVEL \<Longrightarrow> lvl \<le> level_from draws n lvl \<and> level_from draws n lvl \<le> MAX_LEVEL"
proof (induction draws n lvl rule: level_from.induct)
  case (1 draws n lvl)
  have e: "level_from draws n lvl = (if draws n < 1 / 4 \<and> lvl < MAX_LEVEL then level_from draws (n + 1) (lvl + 1) else lvl)" by (rule level_from.simps)
  show ?case
  proof (cases "draws n < 1 / 4 \<and> lvl < MAX_LEVEL")
    case True
    then have "level_from draws n lvl = level_from draws (n + 1) (lvl + 1)" using e by presburger
    then show ?thesis using "1.IH" True by simp
  next
    case False
    then have "level_from draws n lvl = lvl" using e by presburger
    then show ?thesis using "1.prems" by simp
  qed
qed

lemma randomLevel_bounds: "0 < randomLevel draws" "randomLevel draws \<le> MAX_LEVEL"
  using level_from_bounds [of 1 draws 0] by (simp_all add: randomLevel_def MAX_LEVEL_def)

lemma last_on_mem:
  assumes "i < height h 0"
  shows "last_on h i (0 # as) \<in> set (0 # as) \<and> i < height h (last_on h i (0 # as))"
proof (rule last_on_split [of 0 "0 # as" i h])
  fix ws zs assume "0 # as = ws @ last_on h i (0 # as) # zs" "i < height h (last_on h i (0 # as))"
  then show ?thesis by (metis in_set_conv_decomp)
qed (use assms in auto)

lemma last_on_cong: "(\<And>q. q \<in> set qs \<Longrightarrow> height h' q = height h q) \<Longrightarrow> last_on h' i qs = last_on h i qs \<and> gap_on h' i qs = gap_on h i qs"
  unfolding last_on_def gap_on_def by (metis (mono_tags, lifting) filter_cong set_rev takeWhile_cong)

text \<open>Raising the level: the header reaches over everything on the new levels.\<close>

lemma raise_level:
  assumes ok: "levels_ok h level ps" and lvl: "lvl \<le> MAX_LEVEL"
  shows "levels_ok (raise_level h (int (length ps)) level lvl) (max level lvl) ps" "same_shape h (raise_level h (int (length ps)) level lvl)"
proof -
  let ?f = "\<lambda>h' i. set_cell h' 0 i ((cell h' 0 i)\<lparr>lv_span := int (length ps)\<rparr>)" and ?\<Phi> = "\<lambda>i c y. if y = (0::nat) then (c 0)\<lparr>lv_span := int (length ps)\<rparr> else c y"
  let ?h = "raise_level h (int (length ps)) level lvl"
  have top: "0 < length h" "height h 0 = MAX_LEVEL" using ok by (auto simp: levels_ok_def)
  have step: "cell (?f h' i) y i = ?\<Phi> i (\<lambda>z. cell h' z i) y" if "same_shape h h'" "i \<in> set [level..<lvl]" for h' i y
  proof -
    have "0 < length h'" "i < height h' 0" using that top lvl by (auto simp: same_shape_def)
    then show ?thesis by (simp add: heap_simps)
  qed
  note fold = foldl_levels [of h ?f "[level..<lvl]" ?\<Phi>, OF same_shape_set_cell cell_other_level step distinct_upt]
  show sh: "same_shape h ?h" unfolding raise_level_def by (rule fold(1)) simp_all
  have c: "cell ?h y j = (if level \<le> j \<and> j < lvl \<and> y = 0 then (cell h 0 j)\<lparr>lv_span := int (length ps)\<rparr> else cell h y j)" for y j
    unfolding raise_level_def by (subst fold(2)) (simp_all split: if_splits)
  have he: "height ?h y = height h y" for y using sh by (simp add: same_shape_def)
  have "linked ?h i (0 # ps) []" if "i < max level lvl" for i
  proof (cases "i < level")
    case True
    then show ?thesis using ok linked_cong [of "0 # ps" "[]" ?h h i] by (auto simp: levels_ok_def he c)
  next
    case False
    then have "low h i ps" using ok by (auto simp: levels_ok_def low_def)
    then have "low ?h i ps" by (simp add: low_def he)
    moreover have "lv_forward (cell h 0 i) = None" using ok False that lvl by (auto simp: levels_ok_def)
    ultimately show ?thesis
      using False that linked_low [of ?h i ps "[]"] next_on_low [of ?h i ps "[]"] by (simp add: c)
  qed
  then show "levels_ok ?h (max level lvl) ps"
    using ok lvl sh top unfolding levels_ok_def by (auto simp: same_shape_def c)
qed

section \<open>Insertion\<close>

lemma same_shape_trans: "same_shape a b \<Longrightarrow> same_shape b c \<Longrightarrow> same_shape a c"
  by (simp add: same_shape_def)

text \<open>The cells after the new node \<open>x\<close> was linked into the levels below its height, and the spans above it were widened.\<close>

lemma link_cells:
  assumes path: "\<And>i. i < level \<Longrightarrow> fst (path ! i) < x \<and> i < height h (fst (path ! i))"
    and x: "length h = Suc x" "height h x = lvl" "lvl \<le> level" "0 < lvl"
  defines "h3 \<equiv> foldl (bump_span path 1) (foldl (link_level x path) h [0..<lvl]) [lvl..<level]"
  shows "same_shape h h3"
    and "j < level \<Longrightarrow> cell h3 y j =
      (let u = fst (path ! j); d = snd (path ! 0) - snd (path ! j) in
       if j < lvl then (if y = u then \<lparr>lv_forward = Some x, lv_span = d + 1\<rparr>
          else if y = x then \<lparr>lv_forward = lv_forward (cell h u j), lv_span = lv_span (cell h u j) - d\<rparr> else cell h y j)
       else if y = u then (cell h u j)\<lparr>lv_span := lv_span (cell h u j) + 1\<rparr> else cell h y j)"
    and "level \<le> j \<Longrightarrow> cell h3 y j = cell h y j"
proof -
  let ?u = "\<lambda>i. fst (path ! i)" and ?d = "\<lambda>i. snd (path ! 0) - snd (path ! i)"
  let ?\<Phi> = "\<lambda>i c y. if y = ?u i then \<lparr>lv_forward = Some x, lv_span = ?d i + 1\<rparr>
    else if y = x then \<lparr>lv_forward = lv_forward (c (?u i)), lv_span = lv_span (c (?u i)) - ?d i\<rparr> else c y"
  let ?\<Psi> = "\<lambda>i c y. if y = ?u i then (c y)\<lparr>lv_span := lv_span (c y) + 1\<rparr> else c y"
  let ?h2 = "foldl (link_level x path) h [0..<lvl]"
  have lk: "cell (link_level x path h' i) y i = ?\<Phi> i (\<lambda>z. cell h' z i) y" if "same_shape h h'" "i \<in> set [0..<lvl]" for h' i y
  proof -
    have "i < level" using that x by simp
    from path [OF this] have "?u i < length h'" "i < height h' (?u i)" "?u i \<noteq> x" "x < length h'" "i < height h' x"
      using that x by (auto simp: same_shape_def)
    then show ?thesis by (simp add: link_level_def Let_def split_beta heap_simps)
  qed
  have lk_shape: "same_shape h (link_level x path h' i)" if "same_shape h h'" for h' i
    using that by (auto simp: link_level_def Let_def split: prod.split intro!: same_shape_set_cell)
  have lk_other: "j \<noteq> i \<Longrightarrow> cell (link_level x path h' i) y j = cell h' y j" for h' i j y
    by (simp add: link_level_def Let_def cell_other_level split: prod.split)
  note lf = foldl_levels [of h "link_level x path" "[0..<lvl]" ?\<Phi>, OF lk_shape lk_other lk distinct_upt]
  have l: "same_shape h ?h2" "cell ?h2 y j = (if j < lvl then ?\<Phi> j (\<lambda>z. cell h z j) y else cell h y j)" for y j
    using lf by simp_all
  have bp: "cell (bump_span path 1 h' i) y i = ?\<Psi> i (\<lambda>z. cell h' z i) y" if "same_shape ?h2 h'" "i \<in> set [lvl..<level]" for h' i y
  proof -
    have "i < level" using that x by simp
    from path [OF this] have "?u i < length h'" "i < height h' (?u i)"
      using that(1) l(1) x by (auto simp: same_shape_def)
    then show ?thesis by (simp add: bump_span_def split_beta heap_simps)
  qed
  have bp_shape: "same_shape ?h2 (bump_span path 1 h' i)" if "same_shape ?h2 h'" for h' i
    using that by (auto simp: bump_span_def split: prod.split intro!: same_shape_set_cell)
  have bp_other: "j \<noteq> i \<Longrightarrow> cell (bump_span path 1 h' i) y j = cell h' y j" for h' i j y
    by (simp add: bump_span_def cell_other_level split: prod.split)
  note bf = foldl_levels [of ?h2 "bump_span path 1" "[lvl..<level]" ?\<Psi>, OF bp_shape bp_other bp distinct_upt]
  have b: "same_shape ?h2 h3" "cell h3 y j = (if lvl \<le> j \<and> j < level then ?\<Psi> j (\<lambda>z. cell ?h2 z j) y else cell ?h2 y j)" for y j
    unfolding h3_def using bf by simp_all
  show "same_shape h h3" using l(1) b(1) same_shape_trans by blast
  show "j < level \<Longrightarrow> cell h3 y j =
      (let u = fst (path ! j); d = snd (path ! 0) - snd (path ! j) in
       if j < lvl then (if y = u then \<lparr>lv_forward = Some x, lv_span = d + 1\<rparr>
          else if y = x then \<lparr>lv_forward = lv_forward (cell h u j), lv_span = lv_span (cell h u j) - d\<rparr> else cell h y j)
       else if y = u then (cell h u j)\<lparr>lv_span := lv_span (cell h u j) + 1\<rparr> else cell h y j)"
    using x by (simp add: b(2) l(2) Let_def)
  show "level \<le> j \<Longrightarrow> cell h3 y j = cell h y j"
    using x by (simp add: b(2) l(2))
qed

lemma search_path_nth: "i < n \<Longrightarrow> search_path h n qs ! i = (last_on h i qs, int (length qs) - 1 - int (gap_on h i qs))"
  by (simp add: search_path_def)

lemma ground_level: "(\<And>q. q \<in> set qs \<Longrightarrow> 0 < height h q) \<Longrightarrow> qs \<noteq> [] \<Longrightarrow> last_on h 0 qs = last qs \<and> gap_on h 0 qs = 0"
  by (cases qs rule: rev_cases) (auto simp: last_on_def gap_on_def)

lemma insert_levels:
  fixes h :: "('k, 'v) skip_heap" and key :: 'k and val :: 'v
  assumes ok: "levels_ok h level (as @ bs)" and lvl: "lvl \<le> level" "0 < lvl"
  defines "path \<equiv> search_path h level (0 # as)"
  defines "h3 \<equiv> foldl (bump_span path 1) (foldl (link_level (length h) path) (h @ [new_node key val lvl]) [0..<lvl]) [lvl..<level]"
  shows "levels_ok h3 level (as @ length h # bs)" and "entry h3 (length h) = (key, val)" and "length h3 = Suc (length h)"
    and "p < length h \<Longrightarrow> entry h3 p = entry h p \<and> sn_backward (h3 ! p) = sn_backward (h ! p)"
    and "lv_forward (cell h3 (length h) 0) = (case bs of [] \<Rightarrow> None | b # _ \<Rightarrow> Some b)"
proof -
  let ?x = "length h" and ?h2 = "h @ [new_node key val lvl]"
  have top: "h \<noteq> []" "height h 0 = MAX_LEVEL" "level \<le> MAX_LEVEL" and mem: "\<And>q. q \<in> set (0 # as @ bs) \<Longrightarrow> q < ?x \<and> 0 < height h q"
    and dis: "distinct (0 # as @ bs)"
    using ok by (auto simp: levels_ok_def MAX_LEVEL_def)
  have hx: "height ?h2 ?x = lvl" "length ?h2 = Suc ?x" "entry ?h2 ?x = (key, val)" by (simp_all add: height_def entry_def new_node_def)
  have u: "last_on h i (0 # as) < ?x \<and> i < height h (last_on h i (0 # as))" if "i < level" for i
    using last_on_mem [of i h as] mem that top by auto
  have g0: "gap_on h 0 (0 # as) = 0" by (rule conjunct2 [OF ground_level]) (use mem in auto)
  have pth: "fst (path ! i) = last_on h i (0 # as)" "snd (path ! 0) - snd (path ! i) = int (gap_on h i (0 # as))" if "i < level" for i
    using that lvl g0 by (simp_all add: path_def search_path_nth)
  have pos: "fst (path ! i) < ?x \<and> i < height ?h2 (fst (path ! i))" if "i < level" for i
    using u [OF that] pth(1) [OF that] by (simp add: heap_simps)
  note cells = link_cells [of level path ?x ?h2 lvl, OF pos hx(2,1) lvl, folded h3_def]
  have sh: "same_shape ?h2 h3" using cells(1) by simp
  then have h3: "length h3 = Suc ?x" "height h3 y = height ?h2 y" "entry h3 y = entry ?h2 y" "sn_backward (h3 ! y) = sn_backward (?h2 ! y)" for y
    using hx by (simp_all add: same_shape_def)
  show len: "length h3 = Suc ?x" "entry h3 ?x = (key, val)" using h3 hx by simp_all
  show "p < ?x \<Longrightarrow> entry h3 p = entry h p \<and> sn_backward (h3 ! p) = sn_backward (h ! p)" by (simp add: h3 heap_simps)
  have c: "cell h3 y j =
      (let w = last_on h j (0 # as); d = int (gap_on h j (0 # as)) in
       if j < lvl then (if y = w then \<lparr>lv_forward = Some ?x, lv_span = d + 1\<rparr>
          else if y = ?x then \<lparr>lv_forward = lv_forward (cell h w j), lv_span = lv_span (cell h w j) - d\<rparr> else cell ?h2 y j)
       else if y = w then (cell h w j)\<lparr>lv_span := lv_span (cell h w j) + 1\<rparr> else cell ?h2 y j)" if "j < level" for y j
  proof -
    have "cell ?h2 (last_on h j (0 # as)) j = cell h (last_on h j (0 # as)) j" using u [OF that] by (simp add: heap_simps)
    then show ?thesis using cells(2) [of j y] pth [OF that] pos that by (simp add: Let_def)
  qed
  have lk: "linked h3 i (0 # as @ ?x # bs) []" if "i < level" for i
  proof (rule linked_insert)
    show "linked h i (0 # as @ bs) []" "i < height h 0" "distinct (0 # as @ ?x # bs)" using ok that top dis mem by (auto simp: levels_ok_def)
    show "q \<in> set (0 # as @ bs) \<Longrightarrow> height h3 q = height h q" for q using mem [of q] by (simp add: h3 heap_simps)
    show "cell h3 q i = cell h q i" if "q \<in> set (0 # as @ bs)" "q \<noteq> last_on h i (0 # as)" for q
      using that mem [of q] c [OF \<open>i < level\<close>, of q] by (simp add: heap_simps Let_def)
    show "cell h3 ?x i = \<lparr>lv_forward = lv_forward (cell h (last_on h i (0 # as)) i), lv_span = lv_span (cell h (last_on h i (0 # as)) i) - int (gap_on h i (0 # as))\<rparr>
      \<and> cell h3 (last_on h i (0 # as)) i = \<lparr>lv_forward = Some ?x, lv_span = int (gap_on h i (0 # as)) + 1\<rparr>" if "i < height h3 ?x"
      using that u [OF \<open>i < level\<close>] c [OF \<open>i < level\<close>] hx by (simp add: h3 Let_def)
    show "cell h3 (last_on h i (0 # as)) i = (cell h (last_on h i (0 # as)) i)\<lparr>lv_span := lv_span (cell h (last_on h i (0 # as)) i) + 1\<rparr>"
      if "\<not> i < height h3 ?x"
      using that c [OF \<open>i < level\<close>] hx by (simp add: h3 Let_def)
  qed
  have above: "lv_forward (cell h3 0 i) = None" if "level \<le> i" "i < MAX_LEVEL" for i
    using cells(3) [of i 0] that pos ok top(1) by (simp add: levels_ok_def heap_simps)
  have nodes: "p < length h3 \<and> 0 < height h3 p \<and> height h3 p \<le> level" if "p \<in> set (as @ ?x # bs)" for p
  proof (cases "p = ?x")
    case True
    then show ?thesis using hx lvl by (simp add: h3)
  next
    case False
    then have "p \<in> set (as @ bs)" using that by auto
    then have "p < ?x" "0 < height h p" "height h p \<le> level" using mem [of p] ok by (auto simp: levels_ok_def)
    then show ?thesis by (simp add: h3 heap_simps)
  qed
  have "h3 \<noteq> []" using len(1) by auto
  moreover have "height h3 0 = MAX_LEVEL" "distinct (0 # as @ ?x # bs)" using top dis mem by (auto simp: h3 heap_simps)
  ultimately show "levels_ok h3 level (as @ ?x # bs)" using nodes lk above lvl top(3) unfolding levels_ok_def by auto
  have "linked h3 0 (?x # bs) []" using lk [of 0] lvl by (simp add: linked_append)
  moreover have "0 < height h3 b" if "b \<in> set bs" for b using mem [of b] that by (simp add: h3 heap_simps)
  ultimately show "lv_forward (cell h3 ?x 0) = (case bs of [] \<Rightarrow> None | b # _ \<Rightarrow> Some b)"
    using hx lvl by (cases bs) (auto simp: h3)
qed

lemma levels_ok_back [simp]: "levels_ok (set_backward h x b) level ps = levels_ok h level ps"
proof -
  have "linked (set_backward h x b) i (0 # ps) [] = linked h i (0 # ps) []" for i by (rule linked_cong) (simp_all add: heap_simps)
  moreover have "set_backward h x b = [] \<longleftrightarrow> h = []" by (simp add: set_backward_def)
  ultimately show ?thesis by (simp only: levels_ok_def heap_simps)
qed

lemma raised_path:
  assumes ok: "levels_ok h level (as @ bs)" and sh: "same_shape h h1" and lvl: "lvl \<le> MAX_LEVEL"
  shows "search_path h level (0 # as) @ replicate (lvl - level) (0, 0) = search_path h1 (max level lvl) (0 # as)"
proof (rule nth_equalityI)
  fix i assume "i < length (search_path h level (0 # as) @ replicate (lvl - level) (0, 0))"
  then have i: "i < max level lvl" by (simp add: search_path_def)
  have same: "last_on h1 i (0 # as) = last_on h i (0 # as)" "gap_on h1 i (0 # as) = gap_on h i (0 # as)"
    using last_on_cong [of "0 # as" h1 h i] sh by (simp_all add: same_shape_def)
  show "(search_path h level (0 # as) @ replicate (lvl - level) (0, 0)) ! i = search_path h1 (max level lvl) (0 # as) ! i"
  proof (cases "i < level")
    case True
    then show ?thesis using i by (simp add: nth_append search_path_def same)
  next
    case False
    have "height h q \<le> level" if "q \<in> set as" for q using ok that by (simp add: levels_ok_def)
    then have "low h i as" using False unfolding low_def by (meson le_trans not_le)
    moreover have "i < height h 0" using ok lvl i by (auto simp: levels_ok_def)
    ultimately have "last_on h i (0 # as) = 0" "gap_on h i (0 # as) = length as" using last_on_at [of i h 0 as "[]"] gap_on_at [of i h 0 as "[]"] by auto
    then show ?thesis using False i by (simp add: nth_append search_path_nth same) (simp add: search_path_def)
  qed
qed (simp add: search_path_def)

lemma search_ends:
  assumes ok: "levels_ok h level (as @ bs)"
    and "\<forall>j < length as. go (int j + 1) (h ! (as ! j))" "\<forall>j < length bs. \<not> go (int (length as) + int j + 1) (h ! (bs ! j))"
  shows "descend h go level 0 0 = Some (search_path h level (0 # as))"
proof -
  have "descend h go level 0 (int (length ([] :: nat list))) = Some (search_path h level (0 # as))"
  proof (rule descend_ends [where us = "[]" and vs = as and bs = bs])
    show "\<forall>i < level. linked h i (0 # as) bs" using ok by (simp add: levels_ok_def linked_append)
    show "\<forall>i < level. i < height h 0" using ok by (simp add: levels_ok_def)
    show "\<forall>j < length (0 # as). j > 0 \<longrightarrow> go (int j) (h ! ((0 # as) ! j))"
    proof (intro allI impI)
      fix j assume "j < length (0 # as)" "j > 0"
      then show "go (int j) (h ! ((0 # as) ! j))" using assms(2) by (cases j) (auto simp: add.commute)
    qed
    show "\<forall>j < length bs. \<not> go (int (length (0 # as) + j)) (h ! (bs ! j))" using assms(3) by (simp add: algebra_simps)
    show "0 # as = [] @ 0 # as" by simp
  qed
  then show ?thesis by simp
qed

lemma back_insert:
  assumes "back_linked h None (as @ bs)" "distinct (as @ bs)" "\<forall>p \<in> set (as @ bs). p < x" "length h3 = Suc x"
    and "\<And>p. p < x \<Longrightarrow> sn_backward (h3 ! p) = sn_backward (h ! p)"
  shows "back_linked (case bs of [] \<Rightarrow> set_backward h3 x (last_or None as) | b # _ \<Rightarrow> set_backward (set_backward h3 x (last_or None as)) b (Some x)) None (as @ x # bs)"
proof -
  define h4 where "h4 = (case bs of [] \<Rightarrow> set_backward h3 x (last_or None as) | b # _ \<Rightarrow> set_backward (set_backward h3 x (last_or None as)) b (Some x))"
  have b: "sn_backward (h4 ! p) = (if bs \<noteq> [] \<and> p = hd bs then Some x else if p = x then last_or None as else sn_backward (h3 ! p))" for p
    using assms(3,4) by (auto simp: h4_def heap_simps split: list.split)
  have "sn_backward (h4 ! p) = sn_backward (h ! p)" if "p \<in> set as" for p
    using that assms(2,3,5) by (cases bs) (auto simp: b)
  then have "back_linked h4 None as" using assms(1) back_linked_cong [of as h4 h None] by (simp add: back_linked_append)
  moreover have "back_linked h4 (Some x) bs"
  proof (cases bs)
    case (Cons c cs)
    have "back_linked h (Some c) cs" using assms(1) Cons by (simp add: back_linked_append)
    moreover have "sn_backward (h4 ! p) = sn_backward (h ! p)" if "p \<in> set cs" for p
      using that assms(2,3,5) Cons by (auto simp: b)
    ultimately show ?thesis using back_linked_cong [of cs h4 h "Some c"] by (simp add: Cons b)
  qed simp
  moreover have "sn_backward (h4 ! x) = last_or None as" using assms(3) by (cases bs) (auto simp: b)
  ultimately show ?thesis unfolding h4_def [symmetric] by (simp add: back_linked_append)
qed

lemma insert_inv:
  assumes inv: "skip_inv sl (as @ bs)"
    and less: "\<forall>a \<in> set as. nodeLess cp (sn_key (sl_heap sl ! a)) (sn_val (sl_heap sl ! a)) key val"
      "\<forall>b \<in> set bs. \<not> nodeLess cp (sn_key (sl_heap sl ! b)) (sn_val (sl_heap sl ! b)) key val"
  shows "\<exists>sl' x. skip_insert cp draws sl key val = Some sl' \<and> skip_inv sl' (as @ x # bs) \<and> entry (sl_heap sl') x = (key, val)
    \<and> (\<forall>p \<in> set (as @ bs). entry (sl_heap sl') p = entry (sl_heap sl) p)"
proof -
  let ?h = "sl_heap sl" and ?lvl = "randomLevel draws" and ?level = "max (sl_level sl) (randomLevel draws)"
  let ?h1 = "raise_level ?h (sl_length sl) (sl_level sl) ?lvl"
  let ?path = "search_path ?h1 ?level (0 # as)" and ?x = "length ?h1"
  let ?h3 = "foldl (bump_span ?path 1) (foldl (link_level ?x ?path) (?h1 @ [new_node key val ?lvl]) [0..<?lvl]) [?lvl..<?level]"
  let ?h4 = "set_backward ?h3 ?x (last_or None as)"
  have ok: "levels_ok ?h (sl_level sl) (as @ bs)" "back_linked ?h None (as @ bs)" "sl_tail sl = last_or None (as @ bs)" "sl_length sl = int (length (as @ bs))"
    using inv by (simp_all add: skip_inv_def)
  have found: "descend ?h (\<lambda>r f. nodeLess cp (sn_key f) (sn_val f) key val) (sl_level sl) 0 0 = Some (search_path ?h (sl_level sl) (0 # as))"
    by (rule search_ends [OF ok(1)]) (use less in auto)
  have h1: "levels_ok ?h1 ?level (as @ bs)" "same_shape ?h ?h1"
    using raise_level [OF ok(1) randomLevel_bounds(2) [of draws]] by (simp_all add: ok(4))
  have path: "search_path ?h (sl_level sl) (0 # as) @ replicate (?lvl - sl_level sl) (0, 0) = ?path"
    by (rule raised_path [OF ok(1) h1(2) randomLevel_bounds(2)])
  note ins = insert_levels [OF h1(1) max.cobounded2 randomLevel_bounds(1), where key = key and val = val]
  have mem: "\<forall>p \<in> set (as @ bs). p < ?x" "distinct (as @ bs)" "0 \<notin> set as" "\<And>q. q \<in> set (0 # as) \<Longrightarrow> 0 < height ?h1 q"
    using h1(1) by (auto simp: levels_ok_def MAX_LEVEL_def)
  have "last_on ?h1 0 (0 # as) = last (0 # as)" by (rule conjunct1 [OF ground_level]) (use mem(4) in auto)
  then have "fst (?path ! 0) = last (0 # as)" using randomLevel_bounds(1) [of draws] by (simp add: search_path_nth)
  then have u0: "(if fst (?path ! 0) = 0 then None else Some (fst (?path ! 0))) = last_or None as"
    using mem(3) by (cases as rule: rev_cases) (auto simp: last_or_def)
  have fw: "lv_forward (cell ?h4 ?x 0) = (case bs of [] \<Rightarrow> None | b # _ \<Rightarrow> Some b)" using ins(5) by (simp add: heap_simps)
  define sl' where "sl' = (case bs of b # _ \<Rightarrow> sl\<lparr>sl_heap := set_backward ?h4 b (Some ?x), sl_length := sl_length sl + 1, sl_level := ?level\<rparr>
      | [] \<Rightarrow> sl\<lparr>sl_heap := ?h4, sl_tail := Some ?x, sl_length := sl_length sl + 1, sl_level := ?level\<rparr>)"
  have "skip_insert cp draws sl key val = Some sl'"
    unfolding skip_insert_def found option.case Let_def path u0 fw sl'_def by (simp split: list.split)
  moreover have "skip_inv sl' (as @ ?x # bs)"
  proof -
    have "back_linked ?h1 None (as @ bs)" using ok(2) h1(2) back_linked_cong [of "as @ bs" ?h1 ?h None] by (simp add: same_shape_def)
    from back_insert [OF this mem(2,1) ins(3)] have "back_linked (sl_heap sl') None (as @ ?x # bs)"
      using ins(4) by (simp add: sl'_def split: list.split_asm list.split)
    then show ?thesis using ins(1) ok(3,4) by (cases bs) (simp_all add: skip_inv_def sl'_def last_or_def)
  qed
  moreover have "entry (sl_heap sl') ?x = (key, val)" using ins(2) by (simp add: sl'_def heap_simps split: list.split)
  moreover have "entry (sl_heap sl') p = entry ?h p" if "p \<in> set (as @ bs)" for p
    using ins(4) [of p] mem(1) that h1(2) by (simp add: sl'_def heap_simps same_shape_def split: list.split)
  ultimately show ?thesis by blast
qed

section \<open>Deletion\<close>

lemma ground_forward:
  assumes ok: "levels_ok h level (as @ rest)"
  shows "lv_forward (cell h (last_on h 0 (0 # as)) 0) = (case rest of [] \<Rightarrow> None | b # _ \<Rightarrow> Some b)"
proof -
  have pos: "\<And>q. q \<in> set (0 # as @ rest) \<Longrightarrow> 0 < height h q" and "linked h 0 (0 # as @ rest) []"
    using ok by (auto simp: levels_ok_def MAX_LEVEL_def)
  moreover obtain qs q where q: "0 # as = qs @ [q]" by (cases "0 # as" rule: rev_cases) auto
  moreover from this have "0 # as @ rest = qs @ q # rest" by (metis append.assoc append_Cons append_Nil)
  ultimately have "linked h 0 (qs @ q # rest) []" "0 < height h q" "last_on h 0 (0 # as) = q"
    by (auto simp: last_on_at low_def)
  moreover have "0 < height h b" if "b \<in> set rest" for b using pos that by simp
  ultimately show ?thesis by (cases rest) (auto simp: linked_append)
qed

lemma unlink_cells:
  fixes x :: nat
  assumes path: "\<And>i. i < level \<Longrightarrow> fst (path ! i) < length h \<and> i < height h (fst (path ! i))"
  defines "h1 \<equiv> foldl (unlink_level x path) h [0..<level]"
  shows "same_shape h h1"
    and "cell h1 y j = (if j < level \<and> y = fst (path ! j) then
        (if lv_forward (cell h y j) = Some x
         then \<lparr>lv_forward = lv_forward (cell h x j), lv_span = lv_span (cell h y j) + lv_span (cell h x j) - 1\<rparr>
         else (cell h y j)\<lparr>lv_span := lv_span (cell h y j) - 1\<rparr>)
      else cell h y j)"
proof -
  let ?\<Phi> = "\<lambda>j c y. if y = fst (path ! j) then
      (if lv_forward (c y) = Some x then \<lparr>lv_forward = lv_forward (c x), lv_span = lv_span (c y) + lv_span (c x) - 1\<rparr>
       else (c y)\<lparr>lv_span := lv_span (c y) - 1\<rparr>) else c y"
  have st: "cell (unlink_level x path h' i) y i = ?\<Phi> i (\<lambda>z. cell h' z i) y" if "same_shape h h'" "i \<in> set [0..<level]" for h' i y
  proof -
    have "fst (path ! i) < length h'" "i < height h' (fst (path ! i))" using path [of i] that by (auto simp: same_shape_def)
    then show ?thesis by (simp add: unlink_level_def Let_def heap_simps)
  qed
  have sh: "same_shape h (unlink_level x path h' i)" if "same_shape h h'" for h' i
    using that by (simp add: unlink_level_def Let_def same_shape_set_cell)
  have ot: "j \<noteq> i \<Longrightarrow> cell (unlink_level x path h' i) y j = cell h' y j" for h' i j y
    by (simp add: unlink_level_def Let_def cell_other_level)
  note f = foldl_levels [of h "unlink_level x path" "[0..<level]" ?\<Phi>, OF sh ot st distinct_upt]
  show "same_shape h h1" unfolding h1_def using f(1) by simp
  show "cell h1 y j = (if j < level \<and> y = fst (path ! j) then
        (if lv_forward (cell h y j) = Some x
         then \<lparr>lv_forward = lv_forward (cell h x j), lv_span = lv_span (cell h y j) + lv_span (cell h x j) - 1\<rparr>
         else (cell h y j)\<lparr>lv_span := lv_span (cell h y j) - 1\<rparr>)
      else cell h y j)"
    unfolding h1_def using f(2) by simp
qed

lemma shrink_level:
  "0 < n \<Longrightarrow> 0 < shrink_level h n \<and> shrink_level h n \<le> n \<and> (\<forall>i < n. shrink_level h n \<le> i \<longrightarrow> lv_forward (cell h 0 i) = None)"
proof (induction n)
  case (Suc n)
  show ?case
  proof (cases "0 < n \<and> lv_forward (cell h 0 n) = None")
    case True
    then have e: "shrink_level h (Suc n) = shrink_level h n" by simp
    show ?thesis unfolding e using Suc.IH True by (auto simp: less_Suc_eq)
  qed auto
qed simp

lemma shrink_ok:
  assumes ok: "levels_ok h level ps"
  shows "levels_ok h (shrink_level h level) ps"
proof -
  let ?m = "shrink_level h level"
  have m: "0 < ?m" "?m \<le> level" "\<And>i. i < level \<Longrightarrow> ?m \<le> i \<Longrightarrow> lv_forward (cell h 0 i) = None"
    using shrink_level [of level h] ok by (auto simp: levels_ok_def)
  have "height h p \<le> ?m" if "p \<in> set ps" for p
  proof (cases "?m < level")
    case True
    then have "linked h ?m (0 # ps) []" "?m < height h 0" using ok by (auto simp: levels_ok_def)
    then have "low h ?m ps" using m(3) [OF True] next_on_end [of h ?m ps] by simp
    then show ?thesis using that by (simp add: low_def)
  next
    case False
    then show ?thesis using m(2) ok that by (auto simp: levels_ok_def)
  qed
  moreover have "lv_forward (cell h 0 i) = None" if "?m \<le> i" "i < MAX_LEVEL" for i
    using m(3) [of i] that ok by (cases "i < level") (auto simp: levels_ok_def)
  ultimately show ?thesis using ok m by (auto simp: levels_ok_def)
qed

lemma delete_levels:
  assumes ok: "levels_ok h level (as @ x # bs)"
  defines "h1 \<equiv> foldl (unlink_level x (search_path h level (0 # as))) h [0..<level]"
  shows "levels_ok h1 level (as @ bs)" and "same_shape h h1" and "lv_forward (cell h1 x 0) = (case bs of [] \<Rightarrow> None | b # _ \<Rightarrow> Some b)"
proof -
  let ?path = "search_path h level (0 # as)"
  have top: "h \<noteq> []" "height h 0 = MAX_LEVEL" "level \<le> MAX_LEVEL" "0 < level" and mem: "\<And>q. q \<in> set (0 # as @ x # bs) \<Longrightarrow> q < length h \<and> 0 < height h q"
    and dis: "distinct (0 # as @ x # bs)" and lk: "\<And>i. i < level \<Longrightarrow> linked h i (0 # as @ x # bs) []"
    using ok by (auto simp: levels_ok_def MAX_LEVEL_def)
  have u: "last_on h i (0 # as) \<in> set (0 # as) \<and> i < height h (last_on h i (0 # as))" if "i < level" for i
    using last_on_mem [of i h as] that top by auto
  have pos: "fst (?path ! i) < length h \<and> i < height h (fst (?path ! i))" if "i < level" for i
    using u [OF that] mem [of "last_on h i (0 # as)"] that by (auto simp: search_path_nth)
  note cells = unlink_cells [of level ?path h x, OF pos, folded h1_def]
  show sh: "same_shape h h1" using cells(1) by simp
  have c: "cell h1 y j = (if j < level \<and> y = last_on h j (0 # as) then
        (if j < height h x
         then \<lparr>lv_forward = lv_forward (cell h x j), lv_span = lv_span (cell h y j) + lv_span (cell h x j) - 1\<rparr>
         else (cell h y j)\<lparr>lv_span := lv_span (cell h y j) - 1\<rparr>)
      else cell h y j)" for y j
    using cells(2) [of y j] forward_hits [OF lk _ dis, of j] top by (auto simp: search_path_nth)
  have he: "height h1 q = height h q" for q using sh by (simp add: same_shape_def)
  have "linked h1 i (0 # as @ bs) []" if "i < level" for i
    by (rule linked_delete [OF lk [OF that] _ dis]) (use that top in \<open>auto simp: he c\<close>)
  moreover have "lv_forward (cell h1 0 i) = None" if "level \<le> i" "i < MAX_LEVEL" for i
    using ok that by (simp add: c levels_ok_def)
  moreover have "h1 \<noteq> []" using sh top(1) by (auto simp: same_shape_def)
  ultimately show "levels_ok h1 level (as @ bs)" using ok sh unfolding levels_ok_def by (auto simp: he same_shape_def)
  have "x \<noteq> last_on h 0 (0 # as)" using u [OF top(4)] dis by auto
  then have "cell h1 x 0 = next_on h 0 bs" using lk [OF top(4)] mem [of x] by (simp add: c linked_append)
  then show "lv_forward (cell h1 x 0) = (case bs of [] \<Rightarrow> None | b # _ \<Rightarrow> Some b)" using mem by (cases bs) auto
qed

lemma back_delete:
  assumes "back_linked h None (as @ x # bs)" "distinct (as @ x # bs)" "\<forall>p \<in> set (as @ x # bs). p < length h" "same_shape h h1"
  shows "sn_backward (h1 ! x) = last_or None as"
    and "back_linked (case bs of [] \<Rightarrow> h1 | b # _ \<Rightarrow> set_backward h1 b (sn_backward (h1 ! x))) None (as @ bs)"
proof -
  have b1: "sn_backward (h1 ! p) = sn_backward (h ! p)" for p using assms(4) by (simp add: same_shape_def)
  show x: "sn_backward (h1 ! x) = last_or None as" using assms(1) by (simp add: b1 back_linked_append)
  define h2 where "h2 = (case bs of [] \<Rightarrow> h1 | b # _ \<Rightarrow> set_backward h1 b (sn_backward (h1 ! x)))"
  have b: "sn_backward (h2 ! p) = (if bs \<noteq> [] \<and> p = hd bs then last_or None as else sn_backward (h ! p))" for p
    using assms(3,4) x by (auto simp: h2_def b1 heap_simps same_shape_def split: list.split)
  have "sn_backward (h2 ! p) = sn_backward (h ! p)" if "p \<in> set as" for p using that assms(2) by (cases bs) (auto simp: b)
  then have "back_linked h2 None as" using assms(1) back_linked_cong [of as h2 h None] by (simp add: back_linked_append)
  moreover have "back_linked h2 (last_or None as) bs"
  proof (cases bs)
    case (Cons c cs)
    have "sn_backward (h2 ! p) = sn_backward (h ! p)" if "p \<in> set cs" for p using that assms(2) Cons by (auto simp: b)
    then show ?thesis using assms(1) back_linked_cong [of cs h2 h "Some c"] by (simp add: Cons b back_linked_append)
  qed simp
  ultimately show "back_linked (case bs of [] \<Rightarrow> h1 | b # _ \<Rightarrow> set_backward h1 b (sn_backward (h1 ! x))) None (as @ bs)"
    unfolding h2_def [symmetric] by (simp add: back_linked_append)
qed

lemma deleteNode_inv:
  assumes inv: "skip_inv sl (as @ x # bs)"
  defines "sl' \<equiv> deleteNode sl x (search_path (sl_heap sl) (sl_level sl) (0 # as))"
  shows "skip_inv sl' (as @ bs)" and "entry (sl_heap sl') p = entry (sl_heap sl) p"
proof -
  let ?h = "sl_heap sl" and ?path = "search_path (sl_heap sl) (sl_level sl) (0 # as)"
  let ?h1 = "foldl (unlink_level x ?path) ?h [0..<sl_level sl]"
  let ?h2 = "case bs of [] \<Rightarrow> ?h1 | b # _ \<Rightarrow> set_backward ?h1 b (sn_backward (?h1 ! x))"
  have ok: "levels_ok ?h (sl_level sl) (as @ x # bs)" "back_linked ?h None (as @ x # bs)" "sl_tail sl = last_or None (as @ x # bs)"
    "sl_length sl = int (length (as @ x # bs))"
    using inv by (simp_all add: skip_inv_def)
  note del = delete_levels [OF ok(1)]
  have "distinct (as @ x # bs)" "\<forall>p \<in> set (as @ x # bs). p < length ?h" using ok(1) by (auto simp: levels_ok_def)
  note bk = back_delete [OF ok(2) this del(2)]
  have "levels_ok ?h2 (sl_level sl) (as @ bs)" using del(1) by (cases bs) simp_all
  note lv = shrink_ok [OF this]
  have sl': "sl_heap sl' = ?h2" "sl_level sl' = shrink_level ?h2 (sl_level sl)" "sl_length sl' = sl_length sl - 1"
    "sl_tail sl' = (if bs = [] then last_or None as else sl_tail sl)"
    unfolding sl'_def deleteNode_def Let_def del(3) by (simp_all add: bk(1) split: list.split)
  show "skip_inv sl' (as @ bs)" using lv bk(2) ok(3,4) by (cases bs rule: rev_cases) (simp_all add: skip_inv_def sl' last_or_def)
  show "entry (sl_heap sl') p = entry ?h p" using del(2) by (simp add: sl' heap_simps same_shape_def split: list.split)
qed

lemma delete_eval:
  assumes inv: "skip_inv sl (as @ rest)"
    and less: "\<forall>a \<in> set as. nodeLess cp (sn_key (sl_heap sl ! a)) (sn_val (sl_heap sl ! a)) key val"
      "\<forall>b \<in> set rest. \<not> nodeLess cp (sn_key (sl_heap sl ! b)) (sn_val (sl_heap sl ! b)) key val"
  shows "skip_delete cp sl key val = (case rest of [] \<Rightarrow> Some (False, sl)
    | x # bs \<Rightarrow> if same_entry cp (sn_key (sl_heap sl ! x)) (sn_val (sl_heap sl ! x)) key val
        then Some (True, deleteNode sl x (search_path (sl_heap sl) (sl_level sl) (0 # as))) else Some (False, sl))"
proof -
  have ok: "levels_ok (sl_heap sl) (sl_level sl) (as @ rest)" using inv by (simp add: skip_inv_def)
  have found: "descend (sl_heap sl) (\<lambda>r f. nodeLess cp (sn_key f) (sn_val f) key val) (sl_level sl) 0 0 = Some (search_path (sl_heap sl) (sl_level sl) (0 # as))"
    by (rule search_ends [OF ok]) (use less in auto)
  have "0 < sl_level sl" using ok by (simp add: levels_ok_def)
  then show ?thesis
    unfolding skip_delete_def found using ground_forward [OF ok] by (simp add: search_path_nth split: list.split)
qed

section \<open>The list of entries\<close>

definition skip_rep :: "('k, 'v) skip_list \<Rightarrow> ('k \<times> 'v) list \<Rightarrow> bool" where
  "skip_rep sl xs \<longleftrightarrow> (\<exists>ps. skip_inv sl ps \<and> xs = map (entry (sl_heap sl)) ps)"

definition entry_less :: "('k, 'v) comparators \<Rightarrow> 'k \<times> 'v \<Rightarrow> 'k \<times> 'v \<Rightarrow> bool" where
  "entry_less cp a b = nodeLess cp (fst a) (snd a) (fst b) (snd b)"

definition list_insert :: "('k, 'v) comparators \<Rightarrow> 'k \<times> 'v \<Rightarrow> ('k \<times> 'v) list \<Rightarrow> ('k \<times> 'v) list" where
  "list_insert cp e xs = takeWhile (\<lambda>a. entry_less cp a e) xs @ e # dropWhile (\<lambda>a. entry_less cp a e) xs"

definition list_delete :: "('k, 'v) comparators \<Rightarrow> 'k \<times> 'v \<Rightarrow> ('k \<times> 'v) list \<Rightarrow> bool \<times> ('k \<times> 'v) list" where
  "list_delete cp e xs = (case dropWhile (\<lambda>a. entry_less cp a e) xs of
      [] \<Rightarrow> (False, xs)
    | y # ys \<Rightarrow> if same_entry cp (fst y) (snd y) (fst e) (snd e) then (True, takeWhile (\<lambda>a. entry_less cp a e) xs @ ys) else (False, xs))"

text \<open>A list that is cut by a condition: first the entries that satisfy it, then the others.\<close>

definition cut_by :: "('a \<Rightarrow> bool) \<Rightarrow> 'a list \<Rightarrow> bool" where
  "cut_by P xs \<longleftrightarrow> (\<forall>b \<in> set (dropWhile P xs). \<not> P b)"

lemma skip_rep_split:
  assumes "skip_rep sl xs" "cut_by P xs"
  obtains as bs where "skip_inv sl (as @ bs)" "map (entry (sl_heap sl)) as = takeWhile P xs" "map (entry (sl_heap sl)) bs = dropWhile P xs"
    "\<forall>a \<in> set as. P (entry (sl_heap sl) a)" "\<forall>b \<in> set bs. \<not> P (entry (sl_heap sl) b)"
proof -
  let ?e = "entry (sl_heap sl)"
  obtain ps where ps: "skip_inv sl ps" "xs = map ?e ps" using assms(1) by (auto simp: skip_rep_def)
  show ?thesis
  proof (rule that [of "takeWhile (P \<circ> ?e) ps" "dropWhile (P \<circ> ?e) ps"])
    show "\<forall>b \<in> set (dropWhile (P \<circ> ?e) ps). \<not> P (?e b)" using assms(2) by (auto simp: cut_by_def ps(2) dropWhile_map)
  qed (use ps in \<open>auto simp: takeWhile_map dropWhile_map dest: set_takeWhileD\<close>)
qed

lemma insert_rep:
  assumes "skip_rep sl xs" "cut_by (\<lambda>a. entry_less cp a (key, val)) xs"
  shows "\<exists>sl'. skip_insert cp draws sl key val = Some sl' \<and> skip_rep sl' (list_insert cp (key, val) xs)"
proof -
  obtain as bs where s: "skip_inv sl (as @ bs)" "map (entry (sl_heap sl)) as = takeWhile (\<lambda>a. entry_less cp a (key, val)) xs"
    "map (entry (sl_heap sl)) bs = dropWhile (\<lambda>a. entry_less cp a (key, val)) xs"
    "\<forall>a \<in> set as. entry_less cp (entry (sl_heap sl) a) (key, val)" "\<forall>b \<in> set bs. \<not> entry_less cp (entry (sl_heap sl) b) (key, val)"
    by (rule skip_rep_split [OF assms])
  obtain sl' x where i: "skip_insert cp draws sl key val = Some sl'" "skip_inv sl' (as @ x # bs)" "entry (sl_heap sl') x = (key, val)"
    "\<forall>p \<in> set (as @ bs). entry (sl_heap sl') p = entry (sl_heap sl) p"
    using insert_inv [OF s(1), of cp key val draws] s(4,5) by (auto simp: entry_less_def entry_def)
  have "map (entry (sl_heap sl')) (as @ x # bs) = list_insert cp (key, val) xs"
    using i(3,4) by (simp add: list_insert_def flip: s(2,3))
  then show ?thesis using i(1,2) by (auto simp: skip_rep_def)
qed

lemma delete_rep:
  assumes "skip_rep sl xs" "cut_by (\<lambda>a. entry_less cp a (key, val)) xs"
  shows "\<exists>sl'. skip_delete cp sl key val = Some (fst (list_delete cp (key, val) xs), sl') \<and> skip_rep sl' (snd (list_delete cp (key, val) xs))"
proof -
  obtain as rest where s: "skip_inv sl (as @ rest)" "map (entry (sl_heap sl)) as = takeWhile (\<lambda>a. entry_less cp a (key, val)) xs"
    "map (entry (sl_heap sl)) rest = dropWhile (\<lambda>a. entry_less cp a (key, val)) xs"
    "\<forall>a \<in> set as. entry_less cp (entry (sl_heap sl) a) (key, val)" "\<forall>b \<in> set rest. \<not> entry_less cp (entry (sl_heap sl) b) (key, val)"
    by (rule skip_rep_split [OF assms])
  note e = delete_eval [OF s(1), of cp key val]
  show ?thesis
  proof (cases rest)
    case Nil
    then have "dropWhile (\<lambda>a. entry_less cp a (key, val)) xs = []" using s(3) by simp
    then have "list_delete cp (key, val) xs = (False, xs)" unfolding list_delete_def by (simp only: list.case)
    moreover have "skip_delete cp sl key val = Some (False, sl)" using e s(4) Nil by (simp add: entry_less_def entry_def)
    ultimately show ?thesis using assms(1) by simp
  next
    case (Cons x bs)
    then have d: "dropWhile (\<lambda>a. entry_less cp a (key, val)) xs = entry (sl_heap sl) x # map (entry (sl_heap sl)) bs" using s(3) by simp
    define sl' where "sl' = deleteNode sl x (search_path (sl_heap sl) (sl_level sl) (0 # as))"
    have "skip_inv sl' (as @ bs)" "\<And>p. entry (sl_heap sl') p = entry (sl_heap sl) p"
      unfolding sl'_def using deleteNode_inv [of sl as x bs] s(1) Cons by simp_all
    then have "skip_rep sl' (takeWhile (\<lambda>a. entry_less cp a (key, val)) xs @ map (entry (sl_heap sl)) bs)"
      unfolding skip_rep_def s(2) [symmetric] by (intro exI [of _ "as @ bs"]) simp
    moreover have "list_delete cp (key, val) xs = (if same_entry cp (sn_key (sl_heap sl ! x)) (sn_val (sl_heap sl ! x)) key val
        then (True, takeWhile (\<lambda>a. entry_less cp a (key, val)) xs @ map (entry (sl_heap sl)) bs) else (False, xs))"
      unfolding list_delete_def d by (simp add: entry_def)
    moreover have "skip_delete cp sl key val = (if same_entry cp (sn_key (sl_heap sl ! x)) (sn_val (sl_heap sl ! x)) key val then Some (True, sl') else Some (False, sl))"
      unfolding sl'_def using e s(4,5) Cons by (simp add: entry_less_def entry_def)
    ultimately show ?thesis using assms(1) by simp
  qed
qed

section \<open>Lookups and scans on the list of entries\<close>

lemma search_rep:
  assumes "skip_inv sl (as @ bs)" "\<forall>a \<in> set as. go (sl_heap sl ! a)" "\<forall>b \<in> set bs. \<not> go (sl_heap sl ! b)"
  shows "descend (sl_heap sl) (\<lambda>r. go) (sl_level sl) 0 0 = Some (search_path (sl_heap sl) (sl_level sl) (0 # as))"
    and "search_path (sl_heap sl) (sl_level sl) (0 # as) ! 0 = (last (0 # as), int (length as))"
proof -
  have ok: "levels_ok (sl_heap sl) (sl_level sl) (as @ bs)" using assms(1) by (simp add: skip_inv_def)
  then have "\<And>q. q \<in> set (0 # as) \<Longrightarrow> 0 < height (sl_heap sl) q" "0 < sl_level sl" by (auto simp: levels_ok_def MAX_LEVEL_def)
  then show "search_path (sl_heap sl) (sl_level sl) (0 # as) ! 0 = (last (0 # as), int (length as))"
    using ground_level [of "0 # as" "sl_heap sl"] by (simp add: search_path_nth)
  show "descend (sl_heap sl) (\<lambda>r. go) (sl_level sl) 0 0 = Some (search_path (sl_heap sl) (sl_level sl) (0 # as))"
    by (rule search_ends [OF ok]) (use assms(2,3) in auto)
qed

definition first_of :: "nat list \<Rightarrow> nat option" where
  "first_of qs = (case qs of [] \<Rightarrow> None | q # _ \<Rightarrow> Some q)"

lemma lowerBound_rep:
  assumes "skip_inv sl (as @ bs)"
    and "\<forall>a \<in> set as. if strict then cp_key cp (sn_key (sl_heap sl ! a)) bound \<le> 0 else cp_key cp (sn_key (sl_heap sl ! a)) bound < 0"
    and "\<forall>b \<in> set bs. \<not> (if strict then cp_key cp (sn_key (sl_heap sl ! b)) bound \<le> 0 else cp_key cp (sn_key (sl_heap sl ! b)) bound < 0)"
  shows "skip_lowerBound cp sl bound strict = Some (first_of bs)"
proof -
  let ?h = "sl_heap sl"
  have ok: "levels_ok ?h (sl_level sl) (as @ bs)" using assms(1) by (simp add: skip_inv_def)
  note s = search_rep [OF assms]
  have "last_on ?h 0 (0 # as) = last (0 # as)"
    by (rule conjunct1 [OF ground_level]) (use ok in \<open>auto simp: levels_ok_def MAX_LEVEL_def\<close>)
  then show ?thesis unfolding skip_lowerBound_def s(1) using ground_forward [OF ok] s(2) by (simp add: first_of_def)
qed

fun chained :: "(nat \<Rightarrow> nat option) \<Rightarrow> nat list \<Rightarrow> bool" where
  "chained advance [] = True"
| "chained advance (q # qs) = (advance q = first_of qs \<and> chained advance qs)"

fun list_scan :: "('k \<Rightarrow> bool) \<Rightarrow> nat \<Rightarrow> nat option \<Rightarrow> ('k \<times> 'v) list \<Rightarrow> ('k \<times> 'v) list" where
  "list_scan stop offset cnt [] = []"
| "list_scan stop offset cnt (e # es) =
     (if stop (fst e) then []
      else if offset > 0 then list_scan stop (offset - 1) cnt es
      else if cnt \<noteq> Some 0 then e # list_scan stop offset (map_option (\<lambda>c. c - 1) cnt) es
      else [])"

lemma scan_chained: "chained advance qs \<Longrightarrow> scan h advance stop offset cnt (first_of qs) = Some (list_scan stop offset cnt (map (entry h) qs))"
proof (induction qs arbitrary: offset cnt)
  case Nil
  then show ?case by (subst scan.simps) (simp add: first_of_def)
next
  case (Cons q qs)
  then have n: "advance q = first_of qs" by simp
  show ?case using Cons by (subst scan.simps) (simp add: first_of_def [of "q # qs"] n entry_def [of h q])
qed

lemma forward_chained:
  assumes "levels_ok h level ps"
  shows "chained (\<lambda>a. lv_forward (cell h a 0)) ps" "lv_forward (cell h 0 0) = first_of ps"
proof -
  have pos: "\<And>q. q \<in> set ps \<Longrightarrow> 0 < height h q" and l: "linked h 0 ps []" "cell h 0 0 = next_on h 0 ps"
    using assms by (auto simp: levels_ok_def MAX_LEVEL_def)
  have nx: "lv_forward (next_on h 0 qs) = first_of qs" if "\<And>q. q \<in> set qs \<Longrightarrow> 0 < height h q" for qs
    using that by (cases qs) (auto simp: first_of_def)
  show "lv_forward (cell h 0 0) = first_of ps" using l(2) nx pos by simp
  show "chained (\<lambda>a. lv_forward (cell h a 0)) ps" using pos l(1) by (induction ps) (auto simp: nx)
qed

lemma chained_append: "chained adv (qs @ rs) \<Longrightarrow> chained adv rs"
  by (induction qs) auto

lemma backward_chained: "back_linked h None ps \<Longrightarrow> chained (\<lambda>a. sn_backward (h ! a)) (rev ps)"
proof (induction ps rule: rev_induct)
  case (snoc p ps)
  then have "back_linked h None ps" "sn_backward (h ! p) = last_or None ps" by (simp_all add: back_linked_append)
  then show ?case using snoc.IH by (cases ps rule: rev_cases) (simp_all add: first_of_def last_or_def)
qed simp

lemma before_rep:
  assumes "skip_inv sl (as @ bs)"
  shows "before_node sl (first_of bs) = first_of (rev as)" "chained (\<lambda>a. sn_backward (sl_heap sl ! a)) (rev as)"
proof -
  have b: "back_linked (sl_heap sl) None (as @ bs)" "sl_tail sl = last_or None (as @ bs)" using assms by (simp_all add: skip_inv_def)
  have "last_or None as = first_of (rev as)" by (cases as rule: rev_cases) (simp_all add: first_of_def last_or_def)
  then show "before_node sl (first_of bs) = first_of (rev as)"
    using b by (cases bs) (simp_all add: before_node_def first_of_def back_linked_append)
  show "chained (\<lambda>a. sn_backward (sl_heap sl ! a)) (rev as)" using b(1) by (simp add: back_linked_append backward_chained)
qed

definition below_key :: "('k, 'v) comparators \<Rightarrow> bool \<Rightarrow> 'k \<Rightarrow> 'k \<times> 'v \<Rightarrow> bool" where
  "below_key cp strict bound e = (if strict then cp_key cp (fst e) bound \<le> 0 else cp_key cp (fst e) bound < 0)"

definition list_range :: "('k, 'v) comparators \<Rightarrow> 'k skip_range_options \<Rightarrow> ('k \<times> 'v) list \<Rightarrow> ('k \<times> 'v) list" where
  "list_range cp opts xs =
     (let cmp = cp_key cp in
      if so_reverse opts then
        list_scan (\<lambda>key. bound_hit (\<lambda>a b. cmp a b < 0) (so_gte opts) key \<or> bound_hit (\<lambda>a b. cmp a b \<le> 0) (so_gt opts) key)
          (so_offset opts) (so_count opts)
          (rev (case so_lte opts of Some b \<Rightarrow> takeWhile (below_key cp True b) xs
            | None \<Rightarrow> (case so_lt opts of Some b \<Rightarrow> takeWhile (below_key cp False b) xs | None \<Rightarrow> xs)))
      else
        list_scan (\<lambda>key. bound_hit (\<lambda>a b. cmp a b > 0) (so_lte opts) key \<or> bound_hit (\<lambda>a b. cmp a b \<ge> 0) (so_lt opts) key)
          (so_offset opts) (so_count opts)
          (case so_gte opts of Some b \<Rightarrow> dropWhile (below_key cp (so_gt opts \<noteq> None) b) xs
            | None \<Rightarrow> (case so_gt opts of Some b \<Rightarrow> dropWhile (below_key cp True b) xs | None \<Rightarrow> xs)))"

lemma bound_rep:
  assumes "skip_rep sl xs" "cut_by (below_key cp strict b) xs"
  obtains as bs where "skip_inv sl (as @ bs)" "skip_lowerBound cp sl b strict = Some (first_of bs)"
    "map (entry (sl_heap sl)) as = takeWhile (below_key cp strict b) xs" "map (entry (sl_heap sl)) bs = dropWhile (below_key cp strict b) xs"
proof -
  obtain as bs where s: "skip_inv sl (as @ bs)" "map (entry (sl_heap sl)) as = takeWhile (below_key cp strict b) xs"
    "map (entry (sl_heap sl)) bs = dropWhile (below_key cp strict b) xs"
    "\<forall>a \<in> set as. below_key cp strict b (entry (sl_heap sl) a)" "\<forall>c \<in> set bs. \<not> below_key cp strict b (entry (sl_heap sl) c)"
    by (rule skip_rep_split [OF assms])
  have "skip_lowerBound cp sl b strict = Some (first_of bs)"
    by (rule lowerBound_rep [OF s(1)]) (use s(4,5) in \<open>cases strict; simp add: below_key_def entry_def\<close>)+
  then show ?thesis using that s by blast
qed

lemma range_rep:
  assumes rep: "skip_rep sl xs" and cut: "\<And>strict b. cut_by (below_key cp strict b) xs"
  shows "skip_range cp sl opts = Some (list_range cp opts xs)"
proof -
  let ?h = "sl_heap sl" and ?bwd = "\<lambda>a. sn_backward (sl_heap sl ! a)" and ?fwd = "\<lambda>a. lv_forward (cell (sl_heap sl) a 0)"
  obtain ps where ps: "skip_inv sl ps" "xs = map (entry ?h) ps" using rep by (auto simp: skip_rep_def)
  have upto: "\<exists>y. map_option (before_node sl) (skip_lowerBound cp sl b strict) = Some y \<and>
      (\<forall>stop off cnt. scan ?h ?bwd stop off cnt y = Some (list_scan stop off cnt (rev (takeWhile (below_key cp strict b) xs))))" for b strict
  proof -
    obtain as bs where s: "skip_inv sl (as @ bs)" "skip_lowerBound cp sl b strict = Some (first_of bs)"
      "map (entry ?h) as = takeWhile (below_key cp strict b) xs" by (rule bound_rep [where strict = strict and b = b, OF rep cut])
    show ?thesis using before_rep [OF s(1)] s(2) scan_chained [of ?bwd "rev as" ?h] by (simp add: rev_map flip: s(3))
  qed
  have all_back: "scan ?h ?bwd stop off cnt (sl_tail sl) = Some (list_scan stop off cnt (rev xs))" for stop off cnt
    using before_rep [of sl ps "[]"] ps scan_chained [of ?bwd "rev ps" ?h stop off cnt] by (simp add: before_node_def first_of_def [of "[]"] rev_map)
  have onward: "\<exists>y. skip_lowerBound cp sl b strict = Some y \<and>
      (\<forall>stop off cnt. scan ?h ?fwd stop off cnt y = Some (list_scan stop off cnt (dropWhile (below_key cp strict b) xs)))" for b strict
  proof -
    obtain as bs where s: "skip_inv sl (as @ bs)" "skip_lowerBound cp sl b strict = Some (first_of bs)"
      "map (entry ?h) bs = dropWhile (below_key cp strict b) xs" by (rule bound_rep [where strict = strict and b = b, OF rep cut])
    have "chained ?fwd (as @ bs)" using forward_chained(1) s(1) by (auto simp: skip_inv_def)
    then show ?thesis using scan_chained [OF chained_append, of ?fwd as bs ?h] s(2) by (simp flip: s(3))
  qed
  have all_on: "scan ?h ?fwd stop off cnt (lv_forward (cell ?h 0 0)) = Some (list_scan stop off cnt xs)" for stop off cnt
    using forward_chained [of ?h "sl_level sl" ps] ps scan_chained [of ?fwd ps ?h stop off cnt] by (simp add: skip_inv_def)
  show ?thesis
  proof (cases "so_reverse opts")
    case True
    then show ?thesis
      using upto [of "the (so_lte opts)" True] upto [of "the (so_lt opts)" False] all_back
      by (cases "so_lte opts"; cases "so_lt opts") (auto simp: skip_range_def list_range_def Let_def)
  next
    case False
    then show ?thesis
      using onward [of "the (so_gte opts)" "so_gt opts \<noteq> None"] onward [of "the (so_gt opts)" True] all_on
      by (cases "so_gte opts"; cases "so_gt opts") (auto simp: skip_range_def list_range_def Let_def)
  qed
qed

lemma toArray_rep: "skip_rep sl xs \<Longrightarrow> toArray sl = Some xs"
proof -
  assume "skip_rep sl xs"
  then obtain ps where ps: "levels_ok (sl_heap sl) (sl_level sl) ps" "xs = map (entry (sl_heap sl)) ps" by (auto simp: skip_rep_def skip_inv_def)
  have all: "list_scan (\<lambda>_. False) 0 None ys = ys" for ys :: "('a \<times> 'b) list" by (induction ys) auto
  show ?thesis using forward_chained [OF ps(1)] ps(2) by (simp add: toArray_def scan_chained all)
qed

definition list_rank :: "('k, 'v) comparators \<Rightarrow> 'k \<times> 'v \<Rightarrow> ('k \<times> 'v) list \<Rightarrow> int option" where
  "list_rank cp e xs =
     (let upto = takeWhile (\<lambda>a. entry_less cp a e \<or> same_entry cp (fst a) (snd a) (fst e) (snd e)) xs in
      if upto \<noteq> [] \<and> same_entry cp (fst (last upto)) (snd (last upto)) (fst e) (snd e) then Some (int (length upto) - 1) else None)"

lemma getRank_rep:
  assumes "skip_rep sl xs" "cut_by (\<lambda>a. entry_less cp a (key, val) \<or> same_entry cp (fst a) (snd a) key val) xs"
  shows "getRank cp sl key val = Some (list_rank cp (key, val) xs)"
proof -
  let ?P = "\<lambda>a. entry_less cp a (key, val) \<or> same_entry cp (fst a) (snd a) key val" and ?h = "sl_heap sl"
  obtain as bs where s: "skip_inv sl (as @ bs)" "map (entry ?h) as = takeWhile ?P xs" "\<forall>a \<in> set as. ?P (entry ?h a)" "\<forall>b \<in> set bs. \<not> ?P (entry ?h b)"
    by (rule skip_rep_split [OF assms])
  note r = search_rep [OF s(1), of "\<lambda>f. nodeLess cp (sn_key f) (sn_val f) key val \<or> same_entry cp (sn_key f) (sn_val f) key val"]
  have d: "descend ?h (\<lambda>r f. nodeLess cp (sn_key f) (sn_val f) key val \<or> same_entry cp (sn_key f) (sn_val f) key val) (sl_level sl) 0 0
      = Some (search_path ?h (sl_level sl) (0 # as))"
    and p: "search_path ?h (sl_level sl) (0 # as) ! 0 = (last (0 # as), int (length as))"
    using r s(3,4) by (simp_all add: entry_less_def entry_def)
  have z: "0 \<notin> set as" using s(1) by (simp add: skip_inv_def levels_ok_def)
  have l: "list_rank cp (key, val) xs = (if as \<noteq> [] \<and> same_entry cp (sn_key (?h ! last as)) (sn_val (?h ! last as)) key val then Some (int (length as) - 1) else None)"
    unfolding list_rank_def using s(2) [symmetric] by (cases "as = []") (simp_all add: last_map entry_def)
  show ?thesis
  proof (cases "as = []")
    case True
    then show ?thesis unfolding getRank_def d using p by (simp add: l)
  next
    case False
    then have "last as \<noteq> 0" using z last_in_set by metis
    then show ?thesis unfolding getRank_def d using False by (simp add: p l Let_def)
  qed
qed

lemma rank_from_ends:
  assumes "\<forall>i < n. linked h i qs bs" "\<forall>i < n. i < height h x" "qs = us @ x # vs" "0 < n" "\<And>q. q \<in> set qs \<Longrightarrow> 0 < height h q" "length qs = Suc target"
  shows "rank_from h (int target) n x (int (length us)) = Some (Some (entry h (last qs)))"
  using assms(1-4)
proof (induction n arbitrary: x us vs)
  case (Suc n)
  have x: "n < height h x" using Suc.prems(2) by simp
  have "linked h n (us @ x # vs) bs" using Suc.prems(1,3) by auto
  then have l: "linked h n (x # vs) bs" by (simp only: linked_append)
  have len: "length us + length vs = target" using assms(6) Suc.prems(3) by simp
  have "walk h n (\<lambda>r f. r \<le> int target) x (int (length us)) = Some (last_on h n (x # vs), int (length us) + int (length vs) - int (gap_on h n (x # vs)))"
    by (rule walk_ends [OF l x]) (use len in auto)
  moreover obtain ws zs where s: "qs = ws @ last_on h n qs # zs" "n < height h (last_on h n qs)" "gap_on h n qs = length zs"
    by (rule last_on_split [of x qs n h]) (use x Suc.prems(3) in auto)
  moreover have "length ws + length zs = target" using arg_cong [OF s(1), of length] assms(6) by simp
  ultimately have w: "walk h n (\<lambda>r f. r \<le> int target) x (int (length us)) = Some (last_on h n qs, int (length ws))"
    using on_suffix [OF x, of us vs] Suc.prems(3) len by simp
  show ?case
  proof (cases "zs = []")
    case True
    then have "last_on h n qs = last qs" "length ws = target" using s(1) \<open>length ws + length zs = target\<close> by (metis last_snoc, simp)
    then show ?thesis by (simp add: w entry_def)
  next
    case False
    have "0 < n"
    proof (rule ccontr)
      assume "\<not> 0 < n"
      then have "gap_on h n qs = 0" using ground_level [of qs h] assms(5) Suc.prems(3) by auto
      then show False using s(3) False by simp
    qed
    moreover have "length ws \<noteq> target" using False \<open>length ws + length zs = target\<close> by auto
    moreover have "rank_from h (int target) n (last_on h n qs) (int (length ws)) = Some (Some (entry h (last qs)))" if "0 < n"
      by (rule Suc.IH [OF _ _ s(1) that]) (use Suc.prems(1) s(2) in auto)
    ultimately show ?thesis by (simp add: w)
  qed
qed simp

lemma getByRank_rep:
  assumes "skip_rep sl xs"
  shows "getByRank sl r = Some (if 0 \<le> r \<and> r < int (length xs) then Some (xs ! nat r) else None)"
proof -
  let ?h = "sl_heap sl"
  obtain ps where ps: "levels_ok ?h (sl_level sl) ps" "sl_length sl = int (length ps)" "xs = map (entry ?h) ps"
    using assms by (auto simp: skip_rep_def skip_inv_def)
  show ?thesis
  proof (cases "0 \<le> r \<and> r < int (length xs)")
    case True
    then have n: "nat r < length ps" using ps(3) by auto
    let ?as = "take (Suc (nat r)) ps" and ?bs = "drop (Suc (nat r)) ps"
    have "rank_from ?h (int (Suc (nat r))) (sl_level sl) 0 (int (length ([] :: nat list))) = Some (Some (entry ?h (last (0 # ?as))))"
    proof (rule rank_from_ends)
      have "linked ?h i (0 # ?as @ ?bs) []" if "i < sl_level sl" for i using ps(1) that by (simp add: levels_ok_def)
      then show "\<forall>i < sl_level sl. linked ?h i (0 # ?as) ?bs" by (simp add: linked_append del: append_take_drop_id)
      have pos: "0 < height ?h q" if "q \<in> set (0 # ps)" for q using that ps(1) by (auto simp: levels_ok_def MAX_LEVEL_def)
      show "0 < height ?h q" if "q \<in> set (0 # ?as)" for q by (rule pos) (use that set_take_subset [of "Suc (nat r)" ps] in auto)
    qed (use ps(1) n in \<open>auto simp: levels_ok_def\<close>)
    moreover have "last (0 # ?as) = ps ! nat r" using n by (simp add: take_Suc_conv_app_nth)
    ultimately show ?thesis using True ps n by (simp add: getByRank_def add.commute)
  qed (use ps in \<open>auto simp: getByRank_def\<close>)
qed

section \<open>Comparators\<close>

text \<open>What the skip list needs of a comparator.\<close>

locale js_comparator =
  fixes c :: "'a \<Rightarrow> 'a \<Rightarrow> int"
  assumes flip: "c x y < 0 \<longleftrightarrow> 0 < c y x" and le_trans: "c x y \<le> 0 \<Longrightarrow> c y z \<le> 0 \<Longrightarrow> c x z \<le> 0"
begin

lemma same_refl: "c x x = 0"
  using flip [of x x] by linarith

lemma same_sym: "c x y = 0 \<longleftrightarrow> c y x = 0"
  using flip [of x y] flip [of y x] by linarith

lemma le_flip: "c x y \<le> 0 \<longleftrightarrow> 0 \<le> c y x"
  using flip [of x y] flip [of y x] by linarith

lemma less_le_trans: "c x y < 0 \<Longrightarrow> c y z \<le> 0 \<Longrightarrow> c x z < 0"
  using le_trans [of y z x] flip [of x y] le_flip [of z x] by linarith

lemma le_less_trans: "c x y \<le> 0 \<Longrightarrow> c y z < 0 \<Longrightarrow> c x z < 0"
  using le_trans [of z x y] flip [of y z] le_flip [of z x] by linarith

end

interpretation cmpNumber: js_comparator cmpNumber
  by unfold_locales (auto simp: cmpNumber_def)

lemma sign_of_order:
  fixes a b :: "'a :: linorder"
  shows "(if a < b then -1 else if a > b then 1 else 0 :: int) < 0 \<longleftrightarrow> a < b" "0 < (if a < b then -1 else if a > b then 1 else 0 :: int) \<longleftrightarrow> b < a"
    "(if a < b then -1 else if a > b then 1 else 0 :: int) \<le> 0 \<longleftrightarrow> a \<le> b" "(if a < b then -1 else if a > b then 1 else 0 :: int) = 0 \<longleftrightarrow> a = b"
  by auto

lemma cmpString_sign: "cmpString a b < 0 \<longleftrightarrow> a < b" "0 < cmpString a b \<longleftrightarrow> b < a" "cmpString a b \<le> 0 \<longleftrightarrow> a \<le> b" "cmpString a b = 0 \<longleftrightarrow> a = b"
  unfolding cmpString_def by (rule sign_of_order)+

interpretation cmpString: js_comparator cmpString
  by unfold_locales (unfold cmpString_sign, rule refl, erule (1) order_trans)

lemma sorted_cut: "sorted_wrt R xs \<Longrightarrow> (\<And>a b. R a b \<Longrightarrow> P b \<Longrightarrow> P a) \<Longrightarrow> cut_by P xs"
proof (induction xs)
  case (Cons x xs)
  then have "cut_by P xs" by simp
  then show ?case using Cons.prems by (auto simp: cut_by_def dest: set_dropWhileD)
qed (simp add: cut_by_def)

lemma sorted_wrt_put:
  "sorted_wrt R (l @ r) \<Longrightarrow> \<forall>b\<in>set r. R e b \<Longrightarrow> \<forall>a\<in>set l. R a e \<Longrightarrow> sorted_wrt R (l @ e # r)"
  by (auto simp: sorted_wrt_append)

definition sorted_entries :: "('k, 'v) comparators \<Rightarrow> ('k \<times> 'v) list \<Rightarrow> bool" where
  "sorted_entries cp xs \<longleftrightarrow> sorted_wrt (\<lambda>a b. \<not> entry_less cp b a) xs"

text \<open>A run of insertions, with the random numbers each draws, and deletions.\<close>

datatype ('k, 'v) skip_op = InsertOp "nat \<Rightarrow> real" 'k 'v | DeleteOp 'k 'v

fun skip_run :: "('k, 'v) comparators \<Rightarrow> ('k, 'v) skip_list \<Rightarrow> ('k, 'v) skip_op list \<Rightarrow> ('k, 'v) skip_list option" where
  "skip_run cp sl [] = Some sl"
| "skip_run cp sl (InsertOp draws k v # ops) = Option.bind (skip_insert cp draws sl k v) (\<lambda>sl'. skip_run cp sl' ops)"
| "skip_run cp sl (DeleteOp k v # ops) = Option.bind (skip_delete cp sl k v) (\<lambda>(_, sl'). skip_run cp sl' ops)"

fun list_step :: "('k, 'v) comparators \<Rightarrow> ('k \<times> 'v) list \<Rightarrow> ('k, 'v) skip_op \<Rightarrow> ('k \<times> 'v) list" where
  "list_step cp xs (InsertOp draws k v) = list_insert cp (k, v) xs"
| "list_step cp xs (DeleteOp k v) = snd (list_delete cp (k, v) xs)"

locale entry_order = K: js_comparator "cp_key cp" + V: js_comparator "cp_val cp"
  for cp :: "('k, 'v) comparators"
begin

lemma not_less: "\<not> entry_less cp b a \<longleftrightarrow> cp_key cp (fst a) (fst b) < 0 \<or> (cp_key cp (fst a) (fst b) = 0 \<and> cp_val cp (snd a) (snd b) \<le> 0)"
  using K.flip [of "fst a" "fst b"] K.flip [of "fst b" "fst a"] V.le_flip [of "snd a" "snd b"]
  by (auto simp: entry_less_def nodeLess_def Let_def)

lemma less_down: "\<not> entry_less cp b a \<Longrightarrow> entry_less cp b e \<Longrightarrow> entry_less cp a e"
  using K.less_le_trans [of "fst a" "fst b" "fst e"] K.le_less_trans [of "fst a" "fst b" "fst e"] V.le_less_trans [of "snd a" "snd b" "snd e"]
    K.le_trans [of "fst a" "fst b" "fst e"] K.le_trans [of "fst e" "fst b" "fst a"] K.same_sym [of "fst a" "fst b"] K.same_sym [of "fst e" "fst b"] K.le_flip [of "fst e" "fst a"]
  unfolding not_less by (auto simp: entry_less_def nodeLess_def Let_def)

lemma entry_asym: "entry_less cp a e \<Longrightarrow> \<not> entry_less cp e a"
  using less_down [of a e a] K.same_refl V.same_refl K.flip [of "fst a" "fst e"] V.flip [of "snd a" "snd e"] K.same_sym [of "fst a" "fst e"]
  unfolding not_less by (auto simp: entry_less_def nodeLess_def Let_def)

lemma cut_less: "sorted_entries cp xs \<Longrightarrow> cut_by (\<lambda>a. entry_less cp a e) xs"
  unfolding sorted_entries_def by (rule sorted_cut [where R = "\<lambda>a b. \<not> entry_less cp b a"]) (auto intro: less_down)

lemma cut_key: "sorted_entries cp xs \<Longrightarrow> cut_by (below_key cp strict b) xs"
proof (unfold sorted_entries_def, rule sorted_cut, assumption)
  fix x y assume "\<not> entry_less cp y x" "below_key cp strict b y"
  then show "below_key cp strict b x"
    using K.le_trans [of "fst x" "fst y" b] K.le_less_trans [of "fst x" "fst y" b] unfolding not_less by (auto simp: below_key_def)
qed

lemma same_iff: "same_entry cp (fst a) (snd a) (fst b) (snd b) \<longleftrightarrow> \<not> entry_less cp a b \<and> \<not> entry_less cp b a"
  using K.flip [of "fst a" "fst b"] K.flip [of "fst b" "fst a"] V.flip [of "snd a" "snd b"] V.flip [of "snd b" "snd a"]
  by (auto simp: same_entry_def entry_less_def nodeLess_def Let_def)

lemma le_down: "\<not> entry_less cp b a \<Longrightarrow> entry_less cp b e \<or> same_entry cp (fst b) (snd b) (fst e) (snd e) \<Longrightarrow>
    entry_less cp a e \<or> same_entry cp (fst a) (snd a) (fst e) (snd e)"
  unfolding same_iff using less_down entry_asym by blast

lemma cut_le: "sorted_entries cp xs \<Longrightarrow> cut_by (\<lambda>a. entry_less cp a e \<or> same_entry cp (fst a) (snd a) (fst e) (snd e)) xs"
  unfolding sorted_entries_def by (rule sorted_cut [where R = "\<lambda>a b. \<not> entry_less cp b a"]) (assumption, rule le_down)

lemma insert_sorted: "sorted_entries cp xs \<Longrightarrow> sorted_entries cp (list_insert cp e xs)"
proof -
  assume s: "sorted_entries cp xs"
  define l where "l = takeWhile (\<lambda>a. entry_less cp a e) xs"
  define r where "r = dropWhile (\<lambda>a. entry_less cp a e) xs"
  have "sorted_wrt (\<lambda>a b. \<not> entry_less cp b a) (l @ r)"
    using s by (simp add: sorted_entries_def l_def r_def)
  moreover have "\<forall>b\<in>set r. \<not> entry_less cp b e"
    using cut_less [OF s, of e] unfolding cut_by_def r_def .
  moreover have "\<forall>a\<in>set l. \<not> entry_less cp e a"
  proof
    fix a assume "a \<in> set l"
    from set_takeWhileD [OF this [unfolded l_def]] have "entry_less cp a e" by (rule conjunct2)
    then show "\<not> entry_less cp e a" by (rule entry_asym)
  qed
  ultimately have "sorted_wrt (\<lambda>a b. \<not> entry_less cp b a) (l @ e # r)"
    by (rule sorted_wrt_put)
  then show ?thesis unfolding sorted_entries_def list_insert_def l_def r_def .
qed

lemma delete_sorted: "sorted_entries cp xs \<Longrightarrow> sorted_entries cp (snd (list_delete cp e xs))"
proof -
  assume s: "sorted_entries cp xs"
  have "sorted_wrt (\<lambda>a b. \<not> entry_less cp b a) (takeWhile (\<lambda>a. entry_less cp a e) xs @ dropWhile (\<lambda>a. entry_less cp a e) xs)"
    using s by (simp add: sorted_entries_def)
  then have "sorted_wrt (\<lambda>a b. \<not> entry_less cp b a) (takeWhile (\<lambda>a. entry_less cp a e) xs @ ys)" if "dropWhile (\<lambda>a. entry_less cp a e) xs = y # ys" for y ys
    unfolding that by (simp add: sorted_wrt_append)
  then show ?thesis using s unfolding list_delete_def sorted_entries_def by (simp split: list.split)
qed

lemma run_refines:
  assumes "skip_rep sl xs" "sorted_entries cp xs"
  shows "\<exists>sl'. skip_run cp sl ops = Some sl' \<and> skip_rep sl' (foldl (list_step cp) xs ops) \<and> sorted_entries cp (foldl (list_step cp) xs ops)"
  using assms
proof (induction ops arbitrary: sl xs)
  case (Cons op ops)
  show ?case
  proof (cases op)
    case (InsertOp draws k v)
    obtain sl' where "skip_insert cp draws sl k v = Some sl'" "skip_rep sl' (list_insert cp (k, v) xs)"
      using insert_rep [OF Cons.prems(1) cut_less [OF Cons.prems(2)]] by blast
    then show ?thesis using Cons.IH [OF _ insert_sorted [OF Cons.prems(2)]] InsertOp by simp
  next
    case (DeleteOp k v)
    obtain sl' where "skip_delete cp sl k v = Some (fst (list_delete cp (k, v) xs), sl')" "skip_rep sl' (snd (list_delete cp (k, v) xs))"
      using delete_rep [OF Cons.prems(1) cut_less [OF Cons.prems(2)]] by blast
    then show ?thesis using Cons.IH [OF _ delete_sorted [OF Cons.prems(2)]] DeleteOp by simp
  qed
qed simp

end

end
