(* ===== verification/Skip_Index.thy ===== *)
theory Skip_Index
  imports Store Skip_List
begin

text \<open>
  The two uses of the skip list in minidb. As an index of values by score or time (\<open>index-manager.ts\<close>, \<open>dt-index.ts\<close>) it
  refines the sorted list of its entries over every run of insertions and deletions. As the key order of \<open>Store\<close> (\<open>store.ts\<close>) it
  behaves as the sorted list of keys that \<open>Store\<close> uses in its place, whatever levels the nodes draw.
\<close>

section \<open>The comparators in use\<close>

definition score_order :: "(int, string) comparators" where
  "score_order = \<lparr>cp_key = cmpNumber, cp_val = cmpString\<rparr>"

definition key_order :: "(string, string) comparators" where
  "key_order = \<lparr>cp_key = cmpString, cp_val = cmpString\<rparr>"

interpretation score: entry_order score_order
  unfolding score_order_def entry_order_def comparators.select_convs
  by (intro conjI cmpNumber.js_comparator_axioms cmpString.js_comparator_axioms)

interpretation keyed: entry_order key_order
  unfolding key_order_def entry_order_def comparators.select_convs
  by (intro conjI cmpString.js_comparator_axioms)

lemma new_rep: "skip_rep new_skip_list []"
  using new_skip_inv by (auto simp: skip_rep_def)

lemma none_sorted: "sorted_entries cp []"
  by (simp add: sorted_entries_def)

text \<open>
  C7: A skip list ordered by a whole number and a string never fails and is exact: whatever random numbers the insertions
  draw, every search of every sequence of insertions and deletions from the empty list ends, the list read off
  it is the sorted list that the same insertions and deletions produce on a plain list, every range query (with its bounds, offset, count
  and direction) returns what it returns on that list, and ranks are positions in it: \<open>getRank\<close> of an
  entry, and \<open>getByRank\<close> of every number, in or out of bounds.
\<close>

theorem skip_list_refines:
  shows "\<exists>sl. skip_run score_order new_skip_list ops = Some sl \<and>
    toArray sl = Some (foldl (list_step score_order) [] ops) \<and>
    sorted_wrt (\<lambda>a b. fst a < fst b \<or> fst a = fst b \<and> snd a \<le> snd b) (foldl (list_step score_order) [] ops) \<and>
    (\<forall>opts. skip_range score_order sl opts = Some (list_range score_order opts (foldl (list_step score_order) [] ops))) \<and>
    (\<forall>k v. getRank score_order sl k v = Some (list_rank score_order (k, v) (foldl (list_step score_order) [] ops))) \<and>
    (\<forall>r. getByRank sl r = Some (if 0 \<le> r \<and> r < int (length (foldl (list_step score_order) [] ops))
       then Some (foldl (list_step score_order) [] ops ! nat r) else None))"
proof -
  let ?xs = "foldl (list_step score_order) [] ops"
  obtain sl where sl: "skip_run score_order new_skip_list ops = Some sl" "skip_rep sl ?xs" "sorted_entries score_order ?xs"
    using score.run_refines [OF new_rep none_sorted] by blast
  have le: "(\<not> entry_less score_order b a) = (fst a < fst b \<or> fst a = fst b \<and> snd a \<le> snd b)" for a b
    unfolding score.not_less unfolding score_order_def comparators.select_convs cmpString_sign cmpNumber_def by simp
  have "sorted_wrt (\<lambda>a b. fst a < fst b \<or> fst a = fst b \<and> snd a \<le> snd b) ?xs"
    using sl(3) unfolding sorted_entries_def le .
  moreover have "\<forall>k v. getRank score_order sl k v = Some (list_rank score_order (k, v) ?xs)"
  proof (intro allI getRank_rep [OF sl(2)])
    fix k v
    show "cut_by (\<lambda>a. entry_less score_order a (k, v) \<or> same_entry score_order (fst a) (snd a) k v) ?xs"
      using score.cut_le [OF sl(3), of "(k, v)"] by simp
  qed
  ultimately show ?thesis
    using sl toArray_rep [OF sl(2)] range_rep [OF sl(2) score.cut_key [OF sl(3)]] getByRank_rep [OF sl(2)] by simp
qed

section \<open>The key order of the store\<close>

definition twin :: "string \<Rightarrow> string \<times> string" where "twin k = (k, k)"

lemma twin_less: "entry_less key_order (twin a) (k, k) \<longleftrightarrow> a < k"
  by (auto simp: entry_less_def nodeLess_def key_order_def twin_def Let_def cmpString_sign)

lemma twin_same: "same_entry key_order (fst (twin a)) (snd (twin a)) k k \<longleftrightarrow> a = k"
  by (simp add: same_entry_def key_order_def twin_def cmpString_sign)

lemma insort_cut:
  fixes k :: "'a :: linorder"
  shows "insort k xs = takeWhile (\<lambda>a. a < k) xs @ k # dropWhile (\<lambda>a. a < k) xs"
  by (induction xs) (auto simp: not_le)

lemma remove1_cut:
  fixes k :: "'a :: linorder"
  shows "sorted xs \<Longrightarrow> remove1 k xs =
    (case dropWhile (\<lambda>a. a < k) xs of [] \<Rightarrow> xs | y # ys \<Rightarrow> if y = k then takeWhile (\<lambda>a. a < k) xs @ ys else xs)"
proof (induction xs)
  case (Cons x xs)
  show ?case
  proof (cases "x < k")
    case True
    then have "k \<noteq> x" by simp
    then show ?thesis using Cons True by (cases "dropWhile (\<lambda>a. a < k) xs") (simp_all del: dropWhile_eq_Nil_conv)
  next
    case False
    then have "x \<noteq> k \<Longrightarrow> k \<notin> set xs" using Cons.prems by auto
    then show ?thesis using False by (auto simp: remove1_idem)
  qed
qed simp

lemma twin_insert: "list_insert key_order (k, k) (map twin ks) = map twin (order_insert ks k)"
  by (simp add: list_insert_def order_insert_def insort_cut takeWhile_map dropWhile_map comp_def twin_less twin_def [of k])

lemma twin_delete: "sorted ks \<Longrightarrow> snd (list_delete key_order (k, k) (map twin ks)) = map twin (order_delete ks k)"
  by (cases "dropWhile (\<lambda>a. a < k) ks")
    (simp_all del: dropWhile_eq_Nil_conv add: list_delete_def order_delete_def remove1_cut takeWhile_map dropWhile_map comp_def
      twin_less twin_same)

text \<open>What \<open>Store\<close> asks of its key order: \<open>order.insert(k, k)\<close> and \<open>order.delete(k, k)\<close>.\<close>

datatype key_op = KeyInsert "nat \<Rightarrow> real" string | KeyDelete string

fun skip_key_op :: "key_op \<Rightarrow> (string, string) skip_op" where
  "skip_key_op (KeyInsert draws k) = InsertOp draws k k"
| "skip_key_op (KeyDelete k) = DeleteOp k k"

fun order_step :: "string list \<Rightarrow> key_op \<Rightarrow> string list" where
  "order_step ks (KeyInsert draws k) = order_insert ks k"
| "order_step ks (KeyDelete k) = order_delete ks k"

lemma order_step_sorted: "sorted ks \<Longrightarrow> sorted (order_step ks op)"
  by (cases op) (simp_all add: order_insert_def order_delete_def sorted_insort sorted_remove1)

lemma twin_run: "sorted ks \<Longrightarrow> foldl (list_step key_order) (map twin ks) (map skip_key_op ops) = map twin (foldl order_step ks ops)"
proof (induction ops arbitrary: ks)
  case (Cons op ops)
  have "list_step key_order (map twin ks) (skip_key_op op) = map twin (order_step ks op)"
    using Cons.prems by (cases op) (simp_all add: twin_insert twin_delete)
  then show ?case using Cons order_step_sorted by simp
qed simp

definition skip_options :: "range_options \<Rightarrow> string skip_range_options" where
  "skip_options opts = \<lparr>so_gte = ro_gte opts, so_gt = ro_gt opts, so_lte = ro_lte opts, so_lt = ro_lt opts,
     so_offset = ro_offset opts, so_count = ro_count opts, so_reverse = ro_reverse opts\<rparr>"

lemma twin_scan: "list_scan stop offset cnt (map twin ks) = map twin (range_walk stop offset cnt ks)"
  by (induction stop offset cnt ks rule: range_walk.induct) (simp_all add: twin_def)

lemma twin_below: "below_key key_order strict b (twin a) \<longleftrightarrow> (if strict then a \<le> b else a < b)"
  by (simp add: below_key_def key_order_def twin_def cmpString_sign)

lemma take_cut: "take (length xs - length (dropWhile P xs)) xs = takeWhile P xs"
  by (metis add_diff_cancel_right' append_eq_conv_conj length_append takeWhile_dropWhile_id)

lemma twin_start:
  "takeWhile (below_key key_order strict b) (map twin ks) = map twin (take (length ks - length (lowerBound ks b strict)) ks)"
  "dropWhile (below_key key_order strict b) (map twin ks) = map twin (lowerBound ks b strict)"
  by (simp_all add: takeWhile_map dropWhile_map comp_def twin_below lowerBound_def take_cut)

lemma twin_bounds:
  "bound_hit (\<lambda>a b. cmpString a b < 0) o' x = past (<) o' x" "bound_hit (\<lambda>a b. cmpString a b \<le> 0) o' x = past (\<le>) o' x"
  "bound_hit (\<lambda>a b. 0 < cmpString a b) o' x = past (>) o' x" "bound_hit (\<lambda>a b. 0 \<le> cmpString a b) o' x = past (\<ge>) o' x"
  using cmpString.le_flip cmpString_sign(3) by (auto simp: bound_hit_def past_def cmpString_sign split: option.split)

lemma key_cmp: "cp_key key_order = cmpString"
  by (simp add: key_order_def)

lemma twin_range: "list_range key_order (skip_options opts) (map twin ks) = map twin (order_range ks opts)"
  unfolding list_range_def order_range_def Let_def skip_options_def skip_range_options.select_convs key_cmp twin_bounds
  by (simp add: twin_start twin_scan [symmetric] rev_map split: option.split)

text \<open>
  C8: The key order of a store is a skip list, and it behaves as the sorted list of keys by which the store is modelled: for every
  sequence of insertions and deletions of keys and every outcome of the random draws, the skip list does not fail, holds
  exactly the keys of the sorted list in its order, and every range query on it yields the keys that the query yields on the
  sorted list.
\<close>

theorem key_order_is_sorted_list:
  shows "\<exists>sl. skip_run key_order new_skip_list (map skip_key_op ops) = Some sl \<and>
    map_option (map fst) (toArray sl) = Some (foldl order_step [] ops) \<and>
    (\<forall>opts. map_option (map fst) (skip_range key_order sl (skip_options opts)) = Some (order_range (foldl order_step [] ops) opts))"
proof -
  let ?ks = "foldl order_step [] ops"
  have xs: "foldl (list_step key_order) [] (map skip_key_op ops) = map twin ?ks"
    using twin_run [of "[]" ops] by simp
  obtain sl where sl: "skip_run key_order new_skip_list (map skip_key_op ops) = Some sl"
    "skip_rep sl (map twin ?ks)" "sorted_entries key_order (map twin ?ks)"
    using keyed.run_refines [OF new_rep none_sorted, of "map skip_key_op ops"] unfolding xs by blast
  have fst_twin: "map fst (map twin ks) = ks" for ks by (simp add: comp_def twin_def)
  have "\<forall>opts. skip_range key_order sl (skip_options opts) = Some (map twin (order_range ?ks opts))"
    using range_rep [OF sl(2) keyed.cut_key [OF sl(3)]] by (simp add: twin_range)
  then show ?thesis
    using sl(1) toArray_rep [OF sl(2)] by (auto simp: fst_twin simp del: map_map)
qed

end
