(* ===== verification/Spec2Isabelle.thy ===== *)
theory Spec2Isabelle
  imports Codec_Scan Store Recovery Tool_Scheduler Head_Tail_Buffer Circuit_Breaker Compaction_Strategy
    Retry Run_Turn Goal Transcript_Paging Cron_Lock Cron_Tools Shell_Strip Perm_Replay Skip_Index
begin

text \<open>
  Verification of the core of cloud-code, a coding agent: the storage engine it keeps its state in
  (\<open>packages/minidb\<close>), the agent loop with its tools, goals and timers (\<open>packages/agent-core\<close>), and the
  transcript that carries a session to its clients (\<open>packages/transcript\<close>). The terminal application, the
  server, the provider adapters and the widgets build on these.

  \<^bold>\<open>Storage.\<close> A database is a key-value store in memory, a log of framed records that are appended to a
  file, and a snapshot of the same format. \<open>Crc32\<close> (\<open>crc32.ts\<close>) and \<open>Codec\<close>, \<open>Codec_Scan\<close> (\<open>codec.ts\<close>) are the
  frame format on bytes of 8 bits and words of 32 bits: what was encoded is read back, a torn or damaged
  tail is cut off and never misread, a change of up to four consecutive bytes after the length fields of a
  frame and before its checksum is detected, and the
  streaming parser, the whole-buffer parser and the scanner with positioned reads agree. \<open>Store\<close>
  (\<open>store.ts\<close>) is the store with its ordered key index, its expiration heap (\<open>Min_Heap\<close>) and its
  insertion-ordered map (\<open>Js_Map\<close>): the three stay consistent over every run, and writes refine updates of a
  finite map with expiration times. The key index is written as a sorted list there; \<open>Skip_List\<close> (\<open>skiplist.ts\<close>)
  is the linked skip list of the code, and \<open>Skip_Index\<close> proves that it behaves as that list. \<open>Recovery\<close> (\<open>recovery.ts\<close>) replays snapshot and log: the last write of
  a key wins, and a torn tail loses no complete frame before it. The clock is read for every record.

  \<^bold>\<open>The agent loop.\<close> \<open>Run_Turn\<close> (\<open>loop/run-turn.ts\<close>) repeats model steps until the model stops, a limit is
  reached or the turn is aborted; one step is a parameter. Inside a step \<open>Tool_Scheduler\<close>
  (\<open>loop/tool-scheduler.ts\<close>) runs tool calls whose access sets (\<open>Tool_Access\<close>, \<open>loop/tool-access.ts\<close>) do not
  conflict at the same time: conflicting calls exclude each other, keep their order, and all are started
  in the end. \<open>Retry\<close> (\<open>loop/retry.ts\<close>) bounds what a failing provider costs, \<open>Compaction_Strategy\<close>,
  \<open>Circuit_Breaker\<close> and \<open>Head_Tail_Buffer\<close> are the decisions when to compact, when to stop asking the
  guardian, and what to keep of a long output. \<open>Goal\<close> (\<open>agent/goal\<close>) is the state machine of an autonomous
  goal, with a clock that may answer differently at each place that reads it: replaying its log gives the
  state back (the accumulated time up to the instants between two readings of a resume), and with the gate on
  an edit voids the evidence before it, until a successful result is captured, the goal is replaced or the
  agent restarts. A restart forgets that there was an edit, and the gate no longer asks for evidence then.

  \<^bold>\<open>Permissions.\<close> Before a tool call runs it is judged. \<open>Perm_Rules\<close> (\<open>agent/permission/matches-rule.ts\<close>) and
  \<open>Rule_Glob\<close> (\<open>tools/support/rule-match.ts\<close>, \<open>path-glob-match.ts\<close>) match rules against a call. For shell commands
  (\<open>tools/support/shell-ast\<close>) \<open>Shell_Git\<close> classifies git commands, \<open>Shell_Words\<close> splits a parsed line into segments,
  strips wrappers such as \<open>sudo\<close> and derives the rules an approval grants, \<open>Shell_Strip\<close> strips wrappers from
  strings when a rule is matched. \<open>Perm_Paths\<close> (\<open>tools/policies\<close>) are the tests on paths. \<open>Perm_Policies\<close>
  (\<open>agent/permission/policies\<close>) is the chain of policies, \<open>Perm_Manager\<close> (\<open>agent/permission/index.ts\<close>) asks the
  user, keeps grants and logs them. \<open>Perm_Safety\<close> proves of a single call that deny rules, plan mode, the git
  gate and the guardian cannot be passed, and what approvals are worth; \<open>Perm_Replay\<close> proves of whole
  runs that the log restores grants and mode and that an agent changes nothing of its parents. The hooks
  are the exception: what a hook rewrites is not judged again, and a question a hook asks of an agent without
  an approval channel counts as approved, before deny rules are consulted.

  \<^bold>\<open>Timers.\<close> \<open>Local_Date\<close> states the language's calendar. \<open>Cron_Expr\<close> (\<open>tools/cron/cron-expr.ts\<close>) parses
  expressions and searches for runs, \<open>Cron_Text\<close> prints every valid expression and reads it back,
  \<open>Cron_Next\<close> proves the search to find the first matching minute in a zone with a fixed offset and shows
  what goes wrong as the clocks go back. \<open>Cron_Scheduler\<close> (\<open>jitter.ts\<close>, \<open>scheduler.ts\<close>) delivers due tasks,
  and \<open>Cron_Run\<close> follows it over whole runs: every slot is counted once. \<open>Cron_Session\<close> (\<open>session-store.ts\<close>,
  \<open>project-store.ts\<close>, \<open>agent/cron/manager.ts\<close>) adds the stores and their files: resuming a session
  keeps its schedule. \<open>Cron_Lock\<close> (\<open>lock.ts\<close>) elects the session that runs a project's tasks, cut at every
  file operation: there is one owner as long as no session reads the lock between its creation and its writing, and there can
  be two otherwise. \<open>Cron_Fire\<close>
  (\<open>cron-fire-xml.ts\<close>, \<open>time-format.ts\<close>) are the texts, \<open>Cron_Tools\<close> (\<open>cron-create.ts\<close>, \<open>cron-delete.ts\<close>,
  \<open>cron-list.ts\<close>) what the model can ask for: the answers of the tools agree with what the scheduler does.

  \<^bold>\<open>Transcript.\<close> \<open>Transcript_Model\<close> (\<open>model\<close>, \<open>ops/operation.ts\<close>) is the data, \<open>Transcript\<close> (\<open>ops/apply.ts\<close>,
  \<open>store/agentTranscript.ts\<close>) the reducer, \<open>Transcript_Sync\<close> its properties: a
  snapshot restores the state it was taken of, repeated operations are absorbed, a flushed frame makes lost
  chunks irrelevant, and the state stays well formed. \<open>Transcript_Paging\<close> (\<open>granularity\<close>, \<open>pagination\<close>) is what a client sees of it.

  \<^bold>\<open>How the code is modelled.\<close> A class is a record of its fields, a method a function from the state to the
  state and its result, a thrown error the left side of a sum or \<open>None\<close>, a \<open>Map\<close> the list of its entries
  in insertion order. \<open>Prelude\<close> states the conventions for numbers and strings. What runs concurrently is
  cut at its awaits (the lock at its file operations) and interleaved by an explicit list of steps (\<open>Cron_Lock\<close>, \<open>Tool_Scheduler\<close>,
  \<open>Transcript_Sync\<close>). The clock, random numbers, the environment, the provider, one model step,
  \<open>JSON.parse\<close>, the glob and path libraries, the shell parser, hooks and the user's answers are arguments. Contracts between components are locales, interpreted on the model:
  \<open>op_machine\<close> and \<open>guarded_machine\<close> (a step function with an invariant, under a condition on the operations) by the stateful components, \<open>ordered_map\<close> by \<open>Js_Map\<close>,
  \<open>calendar_skip\<close> by the four ways in which the search for a run advances, \<open>js_comparator\<close> and \<open>entry_order\<close> (what a
  skip list needs of its comparators) by the comparators in use.

  \<^bold>\<open>Bounds and fuel.\<close> The search for a run stops after 10,000,000 steps and the counting of missed runs after
  10,000, as in the code; the first is shown not to be reached. The re-entrant start of queued tool calls
  is given one level of fuel per queued call, which suffices unless a start throws; that case is proved
  not to return for any fuel. Stripping the wrappers of a command is a partial function, proved to return
  unless a word is an inherited name of the language's objects. The loops of the skip list are partial functions
  and are proved to end. The search for a git work tree stops after
  256 levels, as in the code. All other recursions are total.

  \<^bold>\<open>Not modelled.\<close> File and network access and the timers around the modelled operations; the schemas and
  the glue that only converts data; rendering; the provider adapters, whose formats belong to third
  parties. Of the parts with logic of their own these are left for later: the query planner and the secondary indexes of minidb, the execution of one step, the fold of the
  history into a transcript, the matching of path rules.
\<close>

end
